(* ===== verification/Prelude.thy ===== *)
theory Prelude
  imports Main "HOL-Library.Word" "HOL-Library.List_Lexorder"
begin

unbundle bit_operations_syntax

text \<open>
  Shared vocabulary of the development: Go's fixed-width integers as words, byte slices as
  lists of bytes (\<open>bytes option\<close> where the code distinguishes a nil slice), the
  \<^verbatim>\<open>encoding/binary\<close> integer codecs and the \<^verbatim>\<open>hash/crc32\<close> IEEE checksum that every on-disk
  format uses, and generic list lemmas. The collection \<open>codec_simps\<close> holds the facts that
  let the simplifier cut a concatenation of fields back into its fields.
\<close>

type_synonym u8 = "8 word"
type_synonym u16 = "16 word"
type_synonym u32 = "32 word"
type_synonym u64 = "64 word"
type_synonym bytes = "8 word list"

named_theorems codec_simps "cutting encoded records back into fields"

section \<open>Little-endian naturals\<close>

lemma unat_lt2p: "unat (w :: 'a::len word) < 2 ^ LENGTH('a)"
  by (fact unsigned_less)

fun le_nat :: "nat \<Rightarrow> nat \<Rightarrow> bytes" where
  "le_nat 0 x = []"
| "le_nat (Suc n) x = word_of_nat x # le_nat n (x div 256)"

fun nat_le :: "bytes \<Rightarrow> nat" where
  "nat_le [] = 0"
| "nat_le (b # bs) = unat b + 256 * nat_le bs"

lemma le_nat_numeral:
  "le_nat (numeral k) x = word_of_nat x # le_nat (pred_numeral k) (x div 256)"
  by (subst numeral_eq_Suc) simp

lemma length_le_nat [simp]: "length (le_nat n x) = n"
  by (induction n arbitrary: x) auto

lemma unat_byte: "unat (word_of_nat x :: u8) = x mod 256"
  by (simp add: unat_of_nat)

lemma nat_le_le_nat: "nat_le (le_nat n x) = x mod 256 ^ n"
proof (induction n arbitrary: x)
  case 0
  then show ?case by simp
next
  case (Suc n)
  have "x mod 256 + 256 * (x div 256 mod 256 ^ n) = x mod (256 * 256 ^ n)"
    by (simp add: mod_mult2_eq add.commute)
  with Suc show ?case by (simp add: unat_byte)
qed

lemma nat_le_bound: "nat_le bs < 256 ^ length bs"
proof (induction bs)
  case Nil
  then show ?case by simp
next
  case (Cons b bs)
  have "unat b < 256" using unat_lt2p [of b] by simp
  moreover have "256 * nat_le bs + 256 \<le> 256 * 256 ^ length bs"
    using Cons.IH by (metis Suc_leI mult_Suc_right mult_le_mono2 add.commute)
  ultimately show ?case by simp
qed

lemma le_nat_nat_le: "le_nat (length bs) (nat_le bs) = bs"
proof (induction bs)
  case Nil
  then show ?case by simp
next
  case (Cons b bs)
  have "(unat b + 256 * nat_le bs) div 256 = nat_le bs"
    using unat_lt2p [of b] by simp
  moreover have "(word_of_nat (unat b + 256 * nat_le bs) :: u8) = b"
  proof (rule word_unat_eq_iff [THEN iffD2])
    show "unat (word_of_nat (unat b + 256 * nat_le bs) :: u8) = unat b"
      unfolding unat_byte using unat_lt2p [of b] by simp
  qed
  ultimately show ?case using Cons.IH by simp
qed

section \<open>The integer codecs of encoding/binary\<close>

text \<open>
  \<^verbatim>\<open>binary.LittleEndian.PutUint32\<close> and its siblings write the bytes of a word, the
  \<^verbatim>\<open>Uint32\<close> readers read the leading bytes of a slice and ignore what follows. Both
  directions panic on a slice that is too short; the models below call them only after the
  code's own length checks.
\<close>

definition put_le32 :: "u32 \<Rightarrow> bytes" where
  "put_le32 w = le_nat 4 (unat w)"

definition put_le64 :: "u64 \<Rightarrow> bytes" where
  "put_le64 w = le_nat 8 (unat w)"

definition get_le32 :: "bytes \<Rightarrow> u32" where
  "get_le32 bs = word_of_nat (nat_le (take 4 bs))"

definition get_le64 :: "bytes \<Rightarrow> u64" where
  "get_le64 bs = word_of_nat (nat_le (take 8 bs))"

definition put_be16 :: "u16 \<Rightarrow> bytes" where
  "put_be16 w = rev (le_nat 2 (unat w))"

definition put_be32 :: "u32 \<Rightarrow> bytes" where
  "put_be32 w = rev (le_nat 4 (unat w))"

definition put_be64 :: "u64 \<Rightarrow> bytes" where
  "put_be64 w = rev (le_nat 8 (unat w))"

definition get_be16 :: "bytes \<Rightarrow> u16" where
  "get_be16 bs = word_of_nat (nat_le (rev (take 2 bs)))"

definition get_be32 :: "bytes \<Rightarrow> u32" where
  "get_be32 bs = word_of_nat (nat_le (rev (take 4 bs)))"

definition get_be64 :: "bytes \<Rightarrow> u64" where
  "get_be64 bs = word_of_nat (nat_le (rev (take 8 bs)))"

lemma length_put [simp]:
  "length (put_le32 a) = 4" "length (put_le64 b) = 8"
  "length (put_be16 c) = 2" "length (put_be32 a) = 4" "length (put_be64 b) = 8"
  by (simp_all add: put_le32_def put_le64_def put_be16_def put_be32_def put_be64_def)

lemma unat_mod_size: "unat (w :: 'a::len word) mod 2 ^ LENGTH('a) = unat w"
  by (simp add: unat_lt2p)

lemma get_put [codec_simps]:
  "get_le32 (put_le32 a @ bs) = a"
  "get_le64 (put_le64 b @ bs) = b"
  "get_be16 (put_be16 c @ bs) = c"
  "get_be32 (put_be32 a @ bs) = a"
  "get_be64 (put_be64 b @ bs) = b"
  using unat_mod_size [of a] unat_mod_size [of b] unat_mod_size [of c]
  by (simp_all add: get_le32_def put_le32_def get_le64_def put_le64_def get_be16_def
      put_be16_def get_be32_def put_be32_def get_be64_def put_be64_def nat_le_le_nat)

lemma get_put_nil [codec_simps]:
  "get_le32 (put_le32 a) = a"
  "get_le64 (put_le64 b) = b"
  "get_be16 (put_be16 c) = c"
  "get_be32 (put_be32 a) = a"
  "get_be64 (put_be64 b) = b"
  using get_put [where bs = "[]"] by simp_all

lemma take_put [codec_simps]:
  "take 4 (put_le32 a @ bs) = put_le32 a" "take 8 (put_le64 b @ bs) = put_le64 b"
  "take 2 (put_be16 c @ bs) = put_be16 c" "take 4 (put_be32 a @ bs) = put_be32 a"
  "take 8 (put_be64 b @ bs) = put_be64 b"
  by simp_all

lemma drop_put [codec_simps]:
  "drop 4 (put_le32 a @ bs) = bs" "drop 8 (put_le64 b @ bs) = bs"
  "drop 2 (put_be16 c @ bs) = bs" "drop 4 (put_be32 a @ bs) = bs"
  "drop 8 (put_be64 b @ bs) = bs"
  by simp_all

lemma unat_of_nat_small [codec_simps]:
  "n < 2 ^ 16 \<Longrightarrow> unat (word_of_nat n :: u16) = n"
  "n < 2 ^ 32 \<Longrightarrow> unat (word_of_nat n :: u32) = n"
  "n < 2 ^ 64 \<Longrightarrow> unat (word_of_nat n :: u64) = n"
  by (simp_all add: unat_of_nat)

section \<open>Slices\<close>

text \<open>\<open>subslice a b xs\<close> is Go's \<^verbatim>\<open>xs[a:b]\<close> for indices already known to be in range.\<close>

definition subslice :: "nat \<Rightarrow> nat \<Rightarrow> 'a list \<Rightarrow> 'a list" where
  "subslice a b xs = take (b - a) (drop a xs)"

lemma length_subslice [simp]: "a \<le> b \<Longrightarrow> b \<le> length xs \<Longrightarrow> length (subslice a b xs) = b - a"
  by (simp add: subslice_def)

lemma subslice_append_left: "b \<le> length xs \<Longrightarrow> subslice a b (xs @ ys) = subslice a b xs"
  by (simp add: subslice_def)

text \<open>The bytes of a slice that may be nil.\<close>

definition slice_of :: "bytes option \<Rightarrow> bytes" where
  "slice_of v = (case v of None \<Rightarrow> [] | Some v \<Rightarrow> v)"

text \<open>\<^verbatim>\<open>copy(dst[off:], src)\<close> with \<open>off\<close> in range: at most the room that is left is written.\<close>

definition copy_at :: "nat \<Rightarrow> 'a list \<Rightarrow> 'a list \<Rightarrow> 'a list" where
  "copy_at off src dst =
     (let n = min (length src) (length dst - off)
      in take off dst @ take n src @ drop (off + n) dst)"

lemma length_copy_at [simp]: "off \<le> length dst \<Longrightarrow> length (copy_at off src dst) = length dst"
  by (simp add: copy_at_def Let_def)

lemma copy_at_full:
  "off + length src \<le> length dst \<Longrightarrow>
   copy_at off src dst = take off dst @ src @ drop (off + length src) dst"
  by (simp add: copy_at_def Let_def min_absorb1 le_diff_conv2)

lemma subslice_copy_at:
  "off + length src \<le> length dst \<Longrightarrow>
   subslice off (off + length src) (copy_at off src dst) = src"
  by (simp add: copy_at_full subslice_def)

lemma subslice_copy_at_before:
  assumes "off + length src \<le> length dst" "b \<le> off"
  shows "subslice a b (copy_at off src dst) = subslice a b dst"
proof -
  have "subslice a b (copy_at off src dst) = subslice a b (take off dst)"
    using assms by (simp add: copy_at_full subslice_append_left)
  also have "\<dots> = subslice a b (take off dst @ drop off dst)"
    by (rule subslice_append_left [symmetric]) (use assms in simp)
  finally show ?thesis by simp
qed

lemma subslice_copy_at_after:
  assumes "off + length src \<le> length dst" "off + length src \<le> a"
  shows "subslice a b (copy_at off src dst) = subslice a b dst"
proof -
  have "drop a (copy_at off src dst) = drop a dst"
    using assms by (simp add: copy_at_full)
  then show ?thesis by (simp add: subslice_def)
qed

lemma copy_at_append:
  "off = length xs \<Longrightarrow> length ys \<le> length zs \<Longrightarrow>
   copy_at off ys (xs @ zs) = (xs @ ys) @ drop (length ys) zs"
  by (simp add: copy_at_full)

section \<open>CRC-32 (IEEE)\<close>

text \<open>
  \<^verbatim>\<open>crc32.ChecksumIEEE\<close>: the reflected CRC with polynomial \<^verbatim>\<open>0xEDB88320\<close>, register preset to
  all ones and inverted at the end, one bit at a time.
\<close>

fun crc32_bit :: "nat \<Rightarrow> u32 \<Rightarrow> u32" where
  "crc32_bit 0 r = r"
| "crc32_bit (Suc n) r =
     crc32_bit n (if bit r 0 then drop_bit 1 r XOR 0xEDB88320 else drop_bit 1 r)"

definition crc32_update :: "u32 \<Rightarrow> u8 \<Rightarrow> u32" where
  "crc32_update r b = crc32_bit 8 (r XOR ucast b)"

definition crc32_ieee :: "bytes \<Rightarrow> u32" where
  "crc32_ieee bs = NOT (foldl crc32_update (NOT 0) bs)"

section \<open>Lists\<close>

lemma filter_sorted_wrt: "sorted_wrt R xs \<Longrightarrow> sorted_wrt R (filter P xs)"
  by (induction xs) auto

lemma sorted_wrt_greater_distinct: "sorted_wrt (>) (xs :: 'a::order list) \<Longrightarrow> distinct xs"
  by (induction xs) auto

lemma sorted_wrt_less_distinct: "sorted_wrt (<) (xs :: 'a::order list) \<Longrightarrow> distinct xs"
  by (induction xs) auto

lemma map_of_eq_Some_distinct:
  "distinct (map fst xs) \<Longrightarrow> map_of xs k = Some v \<longleftrightarrow> (k, v) \<in> set xs"
  by (rule map_of_eq_Some_iff)

lemma sorted_wrt_last:
  "sorted_wrt R (map f xs) \<Longrightarrow> x \<in> set xs \<Longrightarrow> x = last xs \<or> R (f x) (f (last xs))"
  by (induction xs rule: rev_induct) (auto simp: sorted_wrt_append)

end
