(* ===== verification/Keys.thy ===== *)
theory Keys
  imports Prelude
begin

text \<open>
  Models \<^verbatim>\<open>internal/keys/keys.go\<close> and \<^verbatim>\<open>internal/mvcc/mvcc.go\<close>: the byte-wise key comparison,
  versioned keys with their inverted timestamps and their order (also \<^verbatim>\<open>nodeKeyLess\<close> of
  \<^verbatim>\<open>memtable/skiplist.go\<close>), and the timestamp generator as a concurrent state machine whose
  \<^verbatim>\<open>Set\<close> is a compare-and-swap loop. Versioned keys are an instance of \<open>linorder\<close> through
  \<open>nodeKeyLess\<close>, so the library's sorting facts apply to them.
\<close>

section \<open>CompareKeys\<close>

function compare_loop :: "bytes \<Rightarrow> bytes \<Rightarrow> nat \<Rightarrow> nat \<Rightarrow> int" where
  "compare_loop a b minLen i =
     (if i < minLen then
        if a ! i \<noteq> b ! i then (if a ! i < b ! i then -1 else 1)
        else compare_loop a b minLen (i + 1)
      else if length a < length b then -1
      else if length a > length b then 1
      else 0)"
  by pat_completeness auto
termination
  by (relation "measure (\<lambda>(a, b, n, i). n - i)") auto

declare compare_loop.simps [simp del]

definition CompareKeys :: "bytes \<Rightarrow> bytes \<Rightarrow> int" where
  "CompareKeys a b =
     (let minLen = length a;
          minLen = (if length b < minLen then length b else minLen)
      in compare_loop a b minLen 0)"

fun compare_list :: "bytes \<Rightarrow> bytes \<Rightarrow> int" where
  "compare_list [] [] = 0"
| "compare_list [] (y # ys) = -1"
| "compare_list (x # xs) [] = 1"
| "compare_list (x # xs) (y # ys) =
     (if x < y then -1 else if y < x then 1 else compare_list xs ys)"

lemma compare_loop_eq:
  "n = min (length a) (length b) \<Longrightarrow> i \<le> n \<Longrightarrow>
   compare_loop a b n i = compare_list (drop i a) (drop i b)"
proof (induction a b n i rule: compare_loop.induct)
  case (1 a b n i)
  show ?case
  proof (cases "i < n")
    case True
    then have d: "drop i a = a ! i # drop (Suc i) a" "drop i b = b ! i # drop (Suc i) b"
      using "1.prems" by (simp_all add: Cons_nth_drop_Suc)
    show ?thesis
    proof (cases "a ! i = b ! i")
      case True
      with \<open>i < n\<close> "1.IH" "1.prems" d show ?thesis
        by (simp add: compare_loop.simps [of a b "min (length a) (length b)" i])
    next
      case False
      with \<open>i < n\<close> d show ?thesis
        by (auto simp: compare_loop.simps [of a b n i])
    qed
  next
    case False
    with "1.prems"(2) have "i = n" by (metis le_neq_implies_less)
    have "compare_loop a b n i =
        (if length a < length b then -1 else if length a > length b then 1 else 0)"
      using False by (simp add: compare_loop.simps [of a b n i])
    then show ?thesis
      using "1.prems"(1) \<open>i = n\<close>
      by (cases "drop i a"; cases "drop i b") (auto simp: min_def split: if_splits)
  qed
qed

lemma compare_list_lex:
  "compare_list a b = (if a < b then -1 else if a = b then 0 else 1)"
  by (induction a b rule: compare_list.induct) auto

lemma CompareKeys_lex [simp]:
  "CompareKeys a b = (if a < b then -1 else if a = b then 0 else 1)"
proof -
  have "CompareKeys a b = compare_loop a b (min (length a) (length b)) 0"
    by (simp add: CompareKeys_def Let_def min_def)
  then show ?thesis by (simp add: compare_loop_eq compare_list_lex)
qed

section \<open>Versioned keys\<close>

definition InvertTimestamp :: "u64 \<Rightarrow> u64" where
  "InvertTimestamp ts = - 1 - ts"

definition RevertTimestamp :: "u64 \<Rightarrow> u64" where
  "RevertTimestamp inverted = - 1 - inverted"

datatype mvcc_key = MVCCKey (mk_key: bytes) (mk_ts: u64)

definition NewMVCCKey :: "bytes \<Rightarrow> u64 \<Rightarrow> mvcc_key" where
  "NewMVCCKey key commitTS = MVCCKey key (InvertTimestamp commitTS)"

definition CommitTS :: "mvcc_key \<Rightarrow> u64" where
  "CommitTS k = RevertTimestamp (mk_ts k)"

definition mvcc_Compare :: "mvcc_key \<Rightarrow> mvcc_key \<Rightarrow> int" where
  "mvcc_Compare k other =
     (let cmp = CompareKeys (mk_key k) (mk_key other) in
      if cmp \<noteq> 0 then cmp
      else if mk_ts k > mk_ts other then -1
      else if mk_ts k < mk_ts other then 1
      else 0)"

definition nodeKeyLess :: "mvcc_key \<Rightarrow> mvcc_key \<Rightarrow> bool" where
  "nodeKeyLess a b =
     (let cmp = CompareKeys (mk_key a) (mk_key b) in
      if cmp < 0 then True
      else if cmp > 0 then False
      else mk_ts a > mk_ts b)"

lemma Revert_Invert [simp]: "RevertTimestamp (InvertTimestamp ts) = ts"
  by (simp add: RevertTimestamp_def InvertTimestamp_def)

lemma CommitTS_New [simp]: "CommitTS (NewMVCCKey k ts) = ts"
  by (simp add: CommitTS_def NewMVCCKey_def)

lemma mk_NewMVCCKey [simp]:
  "mk_key (NewMVCCKey k ts) = k" "mk_ts (NewMVCCKey k ts) = InvertTimestamp ts"
  by (simp_all add: NewMVCCKey_def)

lemma invert_word: "- 1 - (x :: 'a::len word) = NOT x"
  by (simp add: not_eq_complement)

lemma not_less_not_word: "NOT a < NOT b \<longleftrightarrow> b < (a :: 'a::len word)"
proof -
  have u: "unat (NOT x) = 2 ^ LENGTH('a) - 1 - unat x" for x :: "'a word"
  proof -
    have "unat (- 1 - x) = unat (- 1 :: 'a word) - unat x"
      by (rule unat_sub) simp
    then show ?thesis
      by (simp add: invert_word unsigned_minus_1_eq_mask mask_eq_exp_minus_1)
  qed
  then show ?thesis
    unfolding word_less_nat_alt u using unat_lt2p [of a] unat_lt2p [of b] by linarith
qed

lemma CommitTS_less_iff [simp]: "CommitTS a < CommitTS b \<longleftrightarrow> mk_ts b < mk_ts a"
  by (simp add: CommitTS_def RevertTimestamp_def invert_word not_less_not_word)

lemma CommitTS_le_iff [simp]: "CommitTS a \<le> CommitTS b \<longleftrightarrow> mk_ts b \<le> mk_ts a"
  using CommitTS_less_iff [of b a] by (simp only: not_less [symmetric])

lemma CommitTS_eq_iff [simp]: "CommitTS a = CommitTS b \<longleftrightarrow> mk_ts a = mk_ts b"
  by (simp add: CommitTS_def RevertTimestamp_def)

lemma NewMVCCKey_eq_iff [simp]:
  "NewMVCCKey k ts = NewMVCCKey k' ts' \<longleftrightarrow> k = k' \<and> ts = ts'"
  by (auto simp: NewMVCCKey_def InvertTimestamp_def)

text \<open>
  In the order of the skip list the versions of one key come oldest first: the larger
  inverted timestamp, that is the smaller commit timestamp, is the smaller key.
\<close>

lemma nodeKeyLess_alt:
  "nodeKeyLess a b \<longleftrightarrow>
     mk_key a < mk_key b \<or> mk_key a = mk_key b \<and> CommitTS a < CommitTS b"
  by (auto simp: nodeKeyLess_def Let_def)

instantiation mvcc_key :: linorder
begin

definition less_mvcc_key :: "mvcc_key \<Rightarrow> mvcc_key \<Rightarrow> bool" where
  "less_mvcc_key a b = nodeKeyLess a b"

definition less_eq_mvcc_key :: "mvcc_key \<Rightarrow> mvcc_key \<Rightarrow> bool" where
  "less_eq_mvcc_key a b = (nodeKeyLess a b \<or> a = b)"

instance
proof
  fix x y z :: mvcc_key
  show "x < y \<longleftrightarrow> x \<le> y \<and> \<not> y \<le> x"
    by (auto simp: less_mvcc_key_def less_eq_mvcc_key_def nodeKeyLess_alt)
  show "x \<le> x" by (simp add: less_eq_mvcc_key_def)
  show "x \<le> y \<Longrightarrow> y \<le> z \<Longrightarrow> x \<le> z"
    by (auto simp: less_eq_mvcc_key_def nodeKeyLess_alt)
  show "x \<le> y \<Longrightarrow> y \<le> x \<Longrightarrow> x = y"
    by (auto simp: less_eq_mvcc_key_def nodeKeyLess_alt)
  show "x \<le> y \<or> y \<le> x"
    by (cases x; cases y) (auto simp: less_eq_mvcc_key_def nodeKeyLess_alt)
qed

end

lemma nodeKeyLess_less [simp]: "nodeKeyLess a b \<longleftrightarrow> a < b"
  by (simp add: less_mvcc_key_def)

lemma mvcc_less_iff:
  "a < b \<longleftrightarrow> mk_key a < mk_key b \<or> mk_key a = mk_key b \<and> mk_ts b < mk_ts a"
  for a b :: mvcc_key
  by (simp add: less_mvcc_key_def nodeKeyLess_alt del: nodeKeyLess_less)

lemma mvcc_le_iff:
  "a \<le> b \<longleftrightarrow> mk_key a < mk_key b \<or> mk_key a = mk_key b \<and> mk_ts b \<le> mk_ts a"
  for a b :: mvcc_key
  by (cases a; cases b) (auto simp: le_less mvcc_less_iff)

lemma same_key_less_iff:
  "mk_key a = mk_key b \<Longrightarrow> a < b \<longleftrightarrow> CommitTS a < CommitTS b"
  by (simp add: mvcc_less_iff)

section \<open>The timestamp generator\<close>

text \<open>
  Goroutines share one counter and interleave at its atomic operations. \<open>Increment\<close> is one
  atomic add; \<open>Set\<close> loads the counter, returns when the requested value is not larger, and
  otherwise tries a compare-and-swap, starting over when another goroutine was faster.
  \<open>tg_issued\<close> records the timestamps that \<open>Increment\<close> has returned, newest first.
\<close>

datatype set_pc = SetIdle | SetLoad u64 | SetCas u64 u64 | SetDone u64

record tg_sys =
  tg_counter :: u64
  tg_pcs :: "nat \<Rightarrow> set_pc"
  tg_issued :: "u64 list"

definition NewTimestampGenerator :: tg_sys where
  "NewTimestampGenerator = \<lparr>tg_counter = 1, tg_pcs = (\<lambda>_. SetIdle), tg_issued = []\<rparr>"

definition tg_Current :: "tg_sys \<Rightarrow> u64" where
  "tg_Current s = tg_counter s"

definition tg_Next :: "tg_sys \<Rightarrow> u64" where
  "tg_Next s = tg_Current s"

definition tg_Increment :: "tg_sys \<Rightarrow> u64 \<times> tg_sys" where
  "tg_Increment s =
     (let c = tg_counter s + 1
      in (c, s\<lparr>tg_counter := c, tg_issued := c # tg_issued s\<rparr>))"

inductive tg_step :: "tg_sys \<Rightarrow> tg_sys \<Rightarrow> bool" where
  increment: "tg_step s (snd (tg_Increment s))"
| set_call: "tg_pcs s t = SetIdle \<Longrightarrow>
    tg_step s (s\<lparr>tg_pcs := (tg_pcs s)(t := SetLoad val)\<rparr>)"
| set_return: "tg_pcs s t = SetLoad val \<Longrightarrow> val \<le> tg_counter s \<Longrightarrow>
    tg_step s (s\<lparr>tg_pcs := (tg_pcs s)(t := SetDone val)\<rparr>)"
| set_load: "tg_pcs s t = SetLoad val \<Longrightarrow> \<not> val \<le> tg_counter s \<Longrightarrow>
    tg_step s (s\<lparr>tg_pcs := (tg_pcs s)(t := SetCas val (tg_counter s))\<rparr>)"
| set_cas_ok: "tg_pcs s t = SetCas val old \<Longrightarrow> tg_counter s = old \<Longrightarrow>
    tg_step s (s\<lparr>tg_counter := val, tg_pcs := (tg_pcs s)(t := SetDone val)\<rparr>)"
| set_cas_retry: "tg_pcs s t = SetCas val old \<Longrightarrow> tg_counter s \<noteq> old \<Longrightarrow>
    tg_step s (s\<lparr>tg_pcs := (tg_pcs s)(t := SetLoad val)\<rparr>)"

text \<open>
  Runs in which the 64-bit counter has not been exhausted: no step is taken at its maximum,
  where the next \<open>Increment\<close> would wrap around to 0.
\<close>

inductive tg_reachable :: "tg_sys \<Rightarrow> bool" where
  init: "tg_reachable NewTimestampGenerator"
| step: "tg_reachable s \<Longrightarrow> tg_step s s' \<Longrightarrow> tg_counter s \<noteq> - 1 \<Longrightarrow> tg_reachable s'"

definition tg_inv :: "tg_sys \<Rightarrow> bool" where
  "tg_inv s \<longleftrightarrow>
     (\<forall>t val. tg_pcs s t = SetDone val \<longrightarrow> val \<le> tg_counter s) \<and>
     (\<forall>t val old. tg_pcs s t = SetCas val old \<longrightarrow> old < val) \<and>
     (\<forall>x \<in> set (tg_issued s). x \<le> tg_counter s) \<and>
     sorted_wrt (>) (tg_issued s)"

inductive_cases tg_stepE: "tg_step s s'"

lemma word_less_plus1: "x \<noteq> - 1 \<Longrightarrow> x < x + (1 :: u64)"
proof -
  assume "x \<noteq> - 1"
  then have "unat x \<noteq> unat (- 1 :: u64)" by (simp only: word_unat_eq_iff not_False_eq_True)
  then have "unat x \<noteq> 2 ^ 64 - 1"
    by (simp add: unsigned_minus_1_eq_mask mask_eq_exp_minus_1)
  moreover have "unat x < 2 ^ 64" using unat_lt2p [of x] by simp
  ultimately have "unat x + 1 < 2 ^ 64" by linarith
  then show ?thesis by (simp add: word_less_nat_alt unat_word_ariths)
qed

lemma tg_step_mono:
  assumes "tg_step s s'" "tg_inv s" "tg_counter s \<noteq> - 1"
  shows "tg_counter s \<le> tg_counter s'"
  using assms(1)
proof (cases rule: tg_step.cases)
  case increment
  then show ?thesis
    using word_less_plus1 [OF assms(3)] by (simp add: tg_Increment_def Let_def)
next
  case (set_cas_ok t val old)
  then show ?thesis using assms(2) by (auto simp: tg_inv_def intro: less_imp_le)
qed simp_all

lemma tg_step_inv:
  assumes "tg_step s s'" "tg_inv s" "tg_counter s \<noteq> - 1"
  shows "tg_inv s'"
  using assms(1)
proof (cases rule: tg_step.cases)
  case increment
  have lt: "tg_counter s < tg_counter s + 1" by (rule word_less_plus1 [OF assms(3)])
  with assms(2) show ?thesis
    unfolding increment tg_inv_def tg_Increment_def Let_def
    by (auto dest: order.trans order.strict_trans1 intro: less_imp_le)
next
  case (set_cas_ok t val old)
  then have "tg_counter s < val" using assms(2) by (auto simp: tg_inv_def)
  then have up: "x \<le> val" if "x \<le> tg_counter s" for x using that by simp
  with set_cas_ok assms(2) show ?thesis
    unfolding tg_inv_def by (auto intro: up)
qed (use assms(2) in \<open>auto simp: tg_inv_def not_le split: if_splits\<close>)

lemma tg_reachable_inv: "tg_reachable s \<Longrightarrow> tg_inv s"
proof (induction rule: tg_reachable.induct)
  case init
  show ?case by (simp add: tg_inv_def NewTimestampGenerator_def)
next
  case (step s s')
  then show ?case by (blast intro: tg_step_inv)
qed

text \<open>
  C1. In every interleaving of goroutines that call \<open>Increment\<close> and \<open>Set\<close> (as long as the
  64-bit counter is not exhausted) the timestamps handed out by \<open>Increment\<close> are strictly
  increasing, hence pairwise distinct, and when a \<open>Set\<close> call has returned the counter has
  reached the value it asked for, whatever the other goroutines did in between.
\<close>

theorem timestamps_unique_and_set_effective:
  assumes "tg_reachable s"
  shows "distinct (tg_issued s) \<and> sorted_wrt (>) (tg_issued s) \<and>
         (\<forall>t val. tg_pcs s t = SetDone val \<longrightarrow> val \<le> tg_Current s)"
proof -
  have inv: "tg_inv s" using assms by (rule tg_reachable_inv)
  then have "sorted_wrt (>) (tg_issued s)" by (simp add: tg_inv_def)
  then have "distinct (tg_issued s)" by (rule sorted_wrt_greater_distinct)
  with inv show ?thesis by (auto simp: tg_inv_def tg_Current_def)
qed

theorem timestamps_unique_and_set_effective_witness:
  "distinct (tg_issued (snd (tg_Increment (snd (tg_Increment NewTimestampGenerator))))) \<and>
   tg_issued (snd (tg_Increment (snd (tg_Increment NewTimestampGenerator)))) = [3, 2]"
proof -
  have "tg_reachable (snd (tg_Increment NewTimestampGenerator))"
    by (rule tg_reachable.step [OF tg_reachable.init tg_step.increment])
      (simp add: NewTimestampGenerator_def)
  then have "tg_reachable (snd (tg_Increment (snd (tg_Increment NewTimestampGenerator))))"
    by (rule tg_reachable.step [OF _ tg_step.increment])
      (simp add: NewTimestampGenerator_def tg_Increment_def Let_def)
  from timestamps_unique_and_set_effective [OF this] show ?thesis
    by (simp add: NewTimestampGenerator_def tg_Increment_def Let_def)
qed

end
