(* ===== verification/Arena.thy ===== *)
theory Arena
  imports Keys
begin

text \<open>
  Models \<^verbatim>\<open>internal/engine/memtable/arena.go\<close> and the node accessors at the end of
  \<^verbatim>\<open>skiplist.go\<close>: the grow-only block allocator behind a skip list, the layout of a node
  (a 112-byte header, then key bytes, then value bytes) and the 32-bit indices that stand
  for node pointers. A pointer is a block number and an offset in that block; the bytes of an
  allocation are the header record \<open>node\<close> with its payload \<open>n_data\<close>. The lemmas show that
  live nodes never overlap, that a node reads back what was stored, and that indices and
  pointers correspond as long as the arena has at most 1024 blocks (4 GB).
\<close>

definition MaxHeight :: nat where "MaxHeight = 20"

definition ArenaBlockSize :: nat where "ArenaBlockSize = 4 * 1024 * 1024"

text \<open>\<^verbatim>\<open>unsafe.Sizeof(Node{})\<close>: four words of 4 bytes, one of 8, two of 4, twenty of 4.\<close>

definition sizeof_Node :: nat where "sizeof_Node = 112"

definition threshold :: u32 where "threshold = 1073741824"

text \<open>
  \<open>randomHeight\<close> reads successive outputs of the runtime's \<^verbatim>\<open>fastrand\<close>, the parameter
  \<open>rnd\<close>: \<open>rnd i\<close> is the \<open>i\<close>-th val drawn by this call.
\<close>

function random_height_loop :: "(nat \<Rightarrow> u32) \<Rightarrow> nat \<Rightarrow> nat" where
  "random_height_loop rnd h =
     (if h < MaxHeight \<and> rnd (h - 1) < threshold then random_height_loop rnd (h + 1) else h)"
  by pat_completeness auto
termination
  by (relation "measure (\<lambda>(rnd, h). MaxHeight - h)") auto

declare random_height_loop.simps [simp del]

definition randomHeight :: "(nat \<Rightarrow> u32) \<Rightarrow> nat" where
  "randomHeight rnd = random_height_loop rnd 1"

record node =
  n_keyOff :: nat
  n_valOff :: nat
  n_keyLen :: nat
  n_valLen :: nat
  n_ts :: u64
  n_deleted :: bool
  n_height :: nat
  n_next :: "nat list"
  n_data :: bytes

type_synonym pointer = "nat \<times> nat"

record arena =
  ar_blocks :: nat
  ar_blockIdx :: nat
  ar_head :: nat
  ar_total :: nat
  ar_nodes :: "pointer \<rightharpoonup> node"

datatype alloc_result = Nil_ptr | Ptr pointer | Panic

definition NewArena :: arena where
  "NewArena = \<lparr>ar_blocks = 1, ar_blockIdx = 0, ar_head = 0, ar_total = 0, ar_nodes = Map.empty\<rparr>"

definition arena_grow :: "nat \<Rightarrow> arena \<Rightarrow> alloc_result \<times> arena" where
  "arena_grow sz a =
     (let currentHead = ar_head a in
      if currentHead + sz \<le> ArenaBlockSize
      then (Ptr (ar_blockIdx a, currentHead),
            a\<lparr>ar_head := currentHead + sz, ar_total := ar_total a + sz\<rparr>)
      else
        let a = a\<lparr>ar_blocks := ar_blocks a + 1\<rparr>;
            a = a\<lparr>ar_blockIdx := ar_blocks a - 1, ar_head := 0\<rparr> in
        if sz \<le> ArenaBlockSize
        then (Ptr (ar_blockIdx a, 0), a\<lparr>ar_head := sz, ar_total := ar_total a + sz\<rparr>)
        else (Panic, a))"

definition align8 :: "int \<Rightarrow> int" where
  "align8 sz = (sz + 7) AND NOT 7"

definition arena_Alloc :: "int \<Rightarrow> arena \<Rightarrow> alloc_result \<times> arena" where
  "arena_Alloc sz a =
     (if sz < 0 then (Nil_ptr, a)
      else
        let sz = (if sz = 0 then 1 else sz);
            alignedSize = nat (align8 sz);
            a = (if ar_blocks a = 0 then a\<lparr>ar_blocks := 1, ar_blockIdx := 0\<rparr> else a);
            currentHead = ar_head a in
        if currentHead + alignedSize \<le> ArenaBlockSize
        then (Ptr (ar_blockIdx a, currentHead),
              a\<lparr>ar_head := currentHead + alignedSize, ar_total := ar_total a + alignedSize\<rparr>)
        else arena_grow alignedSize a)"

definition arena_NewNode ::
    "bytes \<Rightarrow> bytes option \<Rightarrow> nat \<Rightarrow> arena \<Rightarrow> alloc_result \<times> arena" where
  "arena_NewNode key val height a =
     (let keyLen = length key;
          valLen = (case val of None \<Rightarrow> 0 | Some v \<Rightarrow> length v);
          offset = sizeof_Node;
          (keyOff, offset) = (if keyLen > 0 then (offset, offset + keyLen) else (0, offset));
          (valOff, offset) = (if valLen > 0 then (offset, offset + valLen)
                              else if val \<noteq> None then (offset, offset + 1)
                              else (0, offset))
      in case arena_Alloc (int offset) a of
           (Ptr p, a) \<Rightarrow>
             (Ptr p,
              a\<lparr>ar_nodes := (ar_nodes a)(p \<mapsto>
                 \<lparr>n_keyOff = keyOff mod 2 ^ 32, n_valOff = valOff mod 2 ^ 32,
                  n_keyLen = keyLen mod 2 ^ 32, n_valLen = valLen mod 2 ^ 32,
                  n_ts = 0, n_deleted = False, n_height = height mod 2 ^ 32,
                  n_next = replicate MaxHeight 0,
                  n_data = key @ (case val of None \<Rightarrow> [] | Some [] \<Rightarrow> [0] | Some v \<Rightarrow> v)\<rparr>)\<rparr>)
         | (r, a) \<Rightarrow> (r, a))"

definition arena_NodeAt :: "arena \<Rightarrow> nat \<Rightarrow> pointer option" where
  "arena_NodeAt a idx =
     (let blockIdx = idx div ArenaBlockSize in
      if blockIdx \<ge> ar_blocks a then None
      else Some (blockIdx, idx mod ArenaBlockSize))"

definition arena_Index :: "arena \<Rightarrow> pointer \<Rightarrow> nat" where
  "arena_Index a p =
     (if fst p < ar_blocks a \<and> snd p < ArenaBlockSize
      then (fst p * ArenaBlockSize + snd p) mod 2 ^ 32
      else 0)"

definition arena_Reset :: "arena \<Rightarrow> arena" where
  "arena_Reset a =
     a\<lparr>ar_blocks := 1, ar_blockIdx := 0, ar_head := 0, ar_total := 0, ar_nodes := Map.empty\<rparr>"

definition arena_Size :: "arena \<Rightarrow> nat" where
  "arena_Size a = ar_total a"

definition arena_NumBlocks :: "arena \<Rightarrow> nat" where
  "arena_NumBlocks a = ar_blocks a"

text \<open>
  Dereferencing the result of \<open>NodeAt\<close> and writing through it. Reading a nil pointer, or an
  address where no node was placed, is \<open>None\<close>.
\<close>

definition arena_get :: "arena \<Rightarrow> nat \<Rightarrow> node option" where
  "arena_get a idx = (case arena_NodeAt a idx of None \<Rightarrow> None | Some p \<Rightarrow> ar_nodes a p)"

definition arena_set :: "arena \<Rightarrow> nat \<Rightarrow> node \<Rightarrow> arena" where
  "arena_set a idx n =
     (case arena_NodeAt a idx of None \<Rightarrow> a | Some p \<Rightarrow> a\<lparr>ar_nodes := (ar_nodes a)(p \<mapsto> n)\<rparr>)"

section \<open>Node accessors\<close>

definition node_Key :: "node \<Rightarrow> mvcc_key" where
  "node_Key n =
     (if n_keyLen n = 0 then MVCCKey [] (n_ts n)
      else MVCCKey (take (n_keyLen n) (drop (n_keyOff n - sizeof_Node) (n_data n))) (n_ts n))"

definition node_Value :: "node \<Rightarrow> bytes option" where
  "node_Value n =
     (if n_deleted n then None
      else if n_valOff n = 0 then None
      else if n_valLen n = 0 then Some []
      else Some (take (n_valLen n) (drop (n_valOff n - sizeof_Node) (n_data n))))"

definition node_IsDeleted :: "node \<Rightarrow> bool" where
  "node_IsDeleted n = n_deleted n"

section \<open>Correctness of the allocator\<close>

text \<open>The bytes an allocation of a node occupies, rounded up to the allocator's alignment.\<close>

definition node_extent :: "node \<Rightarrow> nat" where
  "node_extent n = (sizeof_Node + length (n_data n) + 7) div 8 * 8"

definition arena_inv :: "arena \<Rightarrow> bool" where
  "arena_inv a \<longleftrightarrow>
     0 < ar_blocks a \<and> ar_blockIdx a = ar_blocks a - 1 \<and> ar_head a \<le> ArenaBlockSize \<and>
     (\<forall>b off n. ar_nodes a (b, off) = Some n \<longrightarrow>
        b < ar_blocks a \<and>
        off + node_extent n \<le> (if b = ar_blockIdx a then ar_head a else ArenaBlockSize)) \<and>
     (\<forall>b off off' n n'. ar_nodes a (b, off) = Some n \<longrightarrow> ar_nodes a (b, off') = Some n' \<longrightarrow>
        off < off' \<longrightarrow> off + node_extent n \<le> off')"

lemma ArenaBlockSize_pos [simp]: "0 < ArenaBlockSize"
  by (simp add: ArenaBlockSize_def)

lemma align8_eq: "align8 x = (x + 7) div 8 * 8"
proof -
  have "(7::int) = mask 3" by (simp add: mask_eq_exp_minus_1)
  moreover have "y AND NOT (mask 3) = push_bit 3 (drop_bit 3 y)" for y :: int
    by (rule bit_eqI) (auto simp: bit_simps)
  ultimately show ?thesis
    by (simp add: align8_def push_bit_eq_mult drop_bit_eq_div)
qed

lemma nat_align8: "nat (align8 (int x)) = (x + 7) div 8 * 8"
proof -
  have "(int x + 7) div 8 * 8 = int ((x + 7) div 8 * 8)"
    by (simp add: zdiv_int)
  then show ?thesis unfolding align8_eq by (simp only: nat_int)
qed

lemma Alloc_cases:
  assumes "0 < sz" "0 < ar_blocks a" "ar_blockIdx a = ar_blocks a - 1"
  defines "al \<equiv> (sz + 7) div 8 * 8"
  shows "arena_Alloc (int sz) a =
    (if ar_head a + al \<le> ArenaBlockSize
     then (Ptr (ar_blockIdx a, ar_head a),
           a\<lparr>ar_head := ar_head a + al, ar_total := ar_total a + al\<rparr>)
     else if al \<le> ArenaBlockSize
     then (Ptr (ar_blocks a, 0),
           a\<lparr>ar_blocks := ar_blocks a + 1, ar_blockIdx := ar_blocks a, ar_head := al,
              ar_total := ar_total a + al\<rparr>)
     else (Panic, a\<lparr>ar_blocks := ar_blocks a + 1, ar_blockIdx := ar_blocks a, ar_head := 0\<rparr>))"
  using assms by (simp add: arena_Alloc_def arena_grow_def nat_align8 Let_def)

definition node_size :: "bytes \<Rightarrow> bytes option \<Rightarrow> nat" where
  "node_size key val =
     sizeof_Node + length key + (case val of None \<Rightarrow> 0 | Some v \<Rightarrow> max 1 (length v))"

definition mk_node :: "bytes \<Rightarrow> bytes option \<Rightarrow> nat \<Rightarrow> node" where
  "mk_node key val height =
     \<lparr>n_keyOff = (if key = [] then 0 else sizeof_Node),
      n_valOff = (if val = None then 0 else sizeof_Node + length key),
      n_keyLen = length key, n_valLen = (case val of None \<Rightarrow> 0 | Some v \<Rightarrow> length v),
      n_ts = 0, n_deleted = False, n_height = height, n_next = replicate MaxHeight 0,
      n_data = key @ (case val of None \<Rightarrow> [] | Some [] \<Rightarrow> [0] | Some v \<Rightarrow> v)\<rparr>"

lemma node_extent_mk_node:
  "node_extent (mk_node key val h) = (node_size key val + 7) div 8 * 8"
  by (auto simp: node_extent_def mk_node_def node_size_def max_def Suc_le_eq
      split: option.splits list.splits)

lemma node_size_pos: "0 < node_size key val"
  by (simp add: node_size_def sizeof_Node_def)

text \<open>
  \<open>NewNode\<close> in the terms of the allocator: the node it stores never loses a bit to the
  32-bit fields, because an allocation that succeeds is smaller than a block.
\<close>

lemma NewNode_eq:
  assumes "0 < ar_blocks a" "ar_blockIdx a = ar_blocks a - 1" "height < 2 ^ 32"
  shows "arena_NewNode key val height a =
    (case arena_Alloc (int (node_size key val)) a of
       (Ptr p, a') \<Rightarrow> (Ptr p, a'\<lparr>ar_nodes := (ar_nodes a')(p \<mapsto> mk_node key val height)\<rparr>)
     | (r, a') \<Rightarrow> (r, a'))"
proof -
  let ?off = "if key = [] then 0 else sizeof_Node"
  have fits: "node_size key val < 2 ^ 32"
    if "arena_Alloc (int (node_size key val)) a = (Ptr p, a')" for p a'
    using that assms node_size_pos [of key val]
    by (auto simp: Alloc_cases ArenaBlockSize_def split: if_splits)
  show ?thesis
  proof (cases "arena_Alloc (int (node_size key val)) a")
    case (Pair r a')
    have sz: "int (node_size key val) =
        int sizeof_Node + int (length key) +
          (case val of None \<Rightarrow> 0 | Some [] \<Rightarrow> 1 | Some v \<Rightarrow> int (length v))"
      by (auto simp: node_size_def max_def Suc_le_eq split: option.splits list.splits)
    show ?thesis
      using Pair fits assms(3)
      by (cases val; cases "the val"; cases key; cases r)
        (auto simp: arena_NewNode_def mk_node_def node_size_def sizeof_Node_def max_def)
  qed
qed

lemma arena_inv_New: "arena_inv NewArena"
  by (simp add: arena_inv_def NewArena_def)

lemma arena_inv_Reset: "arena_inv (arena_Reset a)"
  by (simp add: arena_inv_def arena_Reset_def)

lemma node_extent_pos [simp]: "0 < node_extent n"
  by (simp add: node_extent_def sizeof_Node_def)

lemma node_extent_update [simp]:
  "node_extent (n\<lparr>n_ts := t\<rparr>) = node_extent n"
  "node_extent (n\<lparr>n_deleted := d\<rparr>) = node_extent n"
  "node_extent (n\<lparr>n_next := ns\<rparr>) = node_extent n"
  by (simp_all add: node_extent_def)

text \<open>The two places \<open>Alloc\<close> can put a node keep the invariant and are fresh.\<close>

lemma arena_inv_node:
  assumes inv: "arena_inv a" and n: "ar_nodes a (b, off) = Some n"
  shows "b < ar_blocks a" "off + node_extent n \<le> ArenaBlockSize"
    "b = ar_blockIdx a \<Longrightarrow> off + node_extent n \<le> ar_head a"
proof -
  have *: "b < ar_blocks a \<and>
      off + node_extent n \<le> (if b = ar_blockIdx a then ar_head a else ArenaBlockSize)"
    and h: "ar_head a \<le> ArenaBlockSize"
    using inv n unfolding arena_inv_def by blast+
  then show "b < ar_blocks a" "b = ar_blockIdx a \<Longrightarrow> off + node_extent n \<le> ar_head a"
    "off + node_extent n \<le> ArenaBlockSize"
    by (auto split: if_splits)
qed

lemma arena_inv_disjoint:
  "arena_inv a \<Longrightarrow> ar_nodes a (b, off) = Some n \<Longrightarrow> ar_nodes a (b, off') = Some n' \<Longrightarrow> off < off' \<Longrightarrow>
   off + node_extent n \<le> off'"
  unfolding arena_inv_def by blast

lemma arena_invI:
  assumes "0 < ar_blocks a" "ar_blockIdx a = ar_blocks a - 1" "ar_head a \<le> ArenaBlockSize"
    and "\<And>b off n. ar_nodes a (b, off) = Some n \<Longrightarrow> b < ar_blocks a \<and>
        off + node_extent n \<le> (if b = ar_blockIdx a then ar_head a else ArenaBlockSize)"
    and "\<And>b off off' n n'. ar_nodes a (b, off) = Some n \<Longrightarrow> ar_nodes a (b, off') = Some n' \<Longrightarrow>
        off < off' \<Longrightarrow> off + node_extent n \<le> off'"
  shows "arena_inv a"
  unfolding arena_inv_def using assms by blast

lemma arena_inv_bump:
  assumes inv: "arena_inv a" and e: "node_extent n = e" and room: "ar_head a + e \<le> ArenaBlockSize"
  shows "arena_inv (a\<lparr>ar_head := ar_head a + e, ar_total := t,
           ar_nodes := (ar_nodes a)((ar_blockIdx a, ar_head a) \<mapsto> n)\<rparr>)"
    and "ar_nodes a (ar_blockIdx a, ar_head a) = None"
proof -
  note nd = arena_inv_node [OF inv]
  have base: "0 < ar_blocks a" "ar_blockIdx a = ar_blocks a - 1"
    using inv by (simp_all add: arena_inv_def)
  have "ar_nodes a (ar_blockIdx a, ar_head a) \<noteq> Some m" for m
    using nd(3) [of "ar_blockIdx a" "ar_head a" m] node_extent_pos [of m] by auto
  then show "ar_nodes a (ar_blockIdx a, ar_head a) = None"
    by (cases "ar_nodes a (ar_blockIdx a, ar_head a)") auto
  show "arena_inv (a\<lparr>ar_head := ar_head a + e, ar_total := t,
           ar_nodes := (ar_nodes a)((ar_blockIdx a, ar_head a) \<mapsto> n)\<rparr>)" (is "arena_inv ?a")
  proof (rule arena_invI)
    fix b off m assume m: "ar_nodes ?a (b, off) = Some m"
    show "b < ar_blocks ?a \<and>
        off + node_extent m \<le> (if b = ar_blockIdx ?a then ar_head ?a else ArenaBlockSize)"
    proof (cases "(b, off) = (ar_blockIdx a, ar_head a)")
      case True
      with m e base show ?thesis by simp
    next
      case False
      with m have "ar_nodes a (b, off) = Some m" by auto
      from nd [OF this] show ?thesis by (cases "b = ar_blockIdx a") auto
    qed
  next
    fix b off off' m m'
    assume m: "ar_nodes ?a (b, off) = Some m" "ar_nodes ?a (b, off') = Some m'" and lt: "off < off'"
    have hi: "x \<le> ar_head a" if "ar_nodes ?a (ar_blockIdx a, x) = Some k" for x k
      using that nd(3) [of "ar_blockIdx a" x k] by (auto split: if_splits)
    have old: "ar_nodes a (b, off) = Some m"
      using m lt hi [of off'] by (auto split: if_splits)
    show "off + node_extent m \<le> off'"
    proof (cases "(b, off') = (ar_blockIdx a, ar_head a)")
      case True
      with nd(3) [OF old] show ?thesis by simp
    next
      case False
      with m have "ar_nodes a (b, off') = Some m'" by auto
      with old lt show ?thesis using arena_inv_disjoint [OF inv] by blast
    qed
  qed (use base room in auto)
qed

lemma arena_inv_new_block:
  assumes inv: "arena_inv a" and e: "node_extent n = e" and room: "e \<le> ArenaBlockSize"
  shows "arena_inv (a\<lparr>ar_blocks := ar_blocks a + 1, ar_blockIdx := ar_blocks a, ar_head := e,
           ar_total := t, ar_nodes := (ar_nodes a)((ar_blocks a, 0) \<mapsto> n)\<rparr>)"
    and "ar_nodes a (ar_blocks a, 0) = None"
proof -
  note nd = arena_inv_node [OF inv]
  have none: "ar_nodes a (ar_blocks a, off) \<noteq> Some m" for off m
    using nd(1) [of "ar_blocks a" off m] by auto
  show "ar_nodes a (ar_blocks a, 0) = None"
    using none [of 0] by (cases "ar_nodes a (ar_blocks a, 0)") auto
  show "arena_inv (a\<lparr>ar_blocks := ar_blocks a + 1, ar_blockIdx := ar_blocks a, ar_head := e,
           ar_total := t, ar_nodes := (ar_nodes a)((ar_blocks a, 0) \<mapsto> n)\<rparr>)" (is "arena_inv ?a")
  proof (rule arena_invI)
    fix b off m assume m: "ar_nodes ?a (b, off) = Some m"
    show "b < ar_blocks ?a \<and>
        off + node_extent m \<le> (if b = ar_blockIdx ?a then ar_head ?a else ArenaBlockSize)"
    proof (cases "(b, off) = (ar_blocks a, 0)")
      case True
      with m e show ?thesis by simp
    next
      case False
      with m have "ar_nodes a (b, off) = Some m" by auto
      from nd [OF this] none show ?thesis by auto
    qed
  next
    fix b off off' m m'
    assume m: "ar_nodes ?a (b, off) = Some m" "ar_nodes ?a (b, off') = Some m'" and lt: "off < off'"
    then have old: "ar_nodes a (b, off') = Some m'" by (auto split: if_splits)
    then have "b \<noteq> ar_blocks a" using nd(1) by fastforce
    with m have "ar_nodes a (b, off) = Some m" by auto
    with old lt show "off + node_extent m \<le> off'" using arena_inv_disjoint [OF inv] by blast
  qed (use room in auto)
qed

lemma arena_inv_blocks: "arena_inv a \<Longrightarrow> 0 < ar_blocks a \<and> ar_blockIdx a = ar_blocks a - 1"
  by (simp add: arena_inv_def)

lemma NewNode_Ptr:
  assumes inv: "arena_inv a" and h: "height < 2 ^ 32"
    and new: "arena_NewNode key val height a = (Ptr p, a')"
  shows "arena_inv a'" "ar_nodes a p = None"
    "ar_nodes a' = (ar_nodes a)(p \<mapsto> mk_node key val height)"
    "ar_blocks a \<le> ar_blocks a'" "fst p < ar_blocks a'" "snd p < ArenaBlockSize"
proof -
  let ?e = "(node_size key val + 7) div 8 * 8"
  note blocks = arena_inv_blocks [OF inv]
  have e: "node_extent (mk_node key val height) = ?e" by (rule node_extent_mk_node)
  have epos: "0 < ?e" using node_extent_pos [of "mk_node key val height"] by (simp only: e)
  have eq: "arena_NewNode key val height a =
    (case arena_Alloc (int (node_size key val)) a of
       (Ptr p, a') \<Rightarrow> (Ptr p, a'\<lparr>ar_nodes := (ar_nodes a')(p \<mapsto> mk_node key val height)\<rparr>)
     | (r, a') \<Rightarrow> (r, a'))"
    using blocks h by (simp add: NewNode_eq)
  consider (bump) "ar_head a + ?e \<le> ArenaBlockSize" "p = (ar_blockIdx a, ar_head a)"
      "a' = a\<lparr>ar_head := ar_head a + ?e, ar_total := ar_total a + ?e,
              ar_nodes := (ar_nodes a)(p \<mapsto> mk_node key val height)\<rparr>"
    | (grow) "?e \<le> ArenaBlockSize" "p = (ar_blocks a, 0)"
      "a' = a\<lparr>ar_blocks := ar_blocks a + 1, ar_blockIdx := ar_blocks a, ar_head := ?e,
              ar_total := ar_total a + ?e, ar_nodes := (ar_nodes a)(p \<mapsto> mk_node key val height)\<rparr>"
    using new blocks node_size_pos [of key val]
    unfolding eq by (auto simp: Alloc_cases split: if_splits)
  then have "arena_inv a' \<and> ar_nodes a p = None \<and>
     ar_nodes a' = (ar_nodes a)(p \<mapsto> mk_node key val height) \<and>
     ar_blocks a \<le> ar_blocks a' \<and> fst p < ar_blocks a' \<and> snd p < ArenaBlockSize"
  proof cases
    case bump
    then show ?thesis
      using arena_inv_bump [OF inv e] blocks epos by simp
  next
    case grow
    then show ?thesis
      using arena_inv_new_block [OF inv e] by simp
  qed
  then show "arena_inv a'" "ar_nodes a p = None"
    "ar_nodes a' = (ar_nodes a)(p \<mapsto> mk_node key val height)"
    "ar_blocks a \<le> ar_blocks a'" "fst p < ar_blocks a'" "snd p < ArenaBlockSize" by blast+
qed

lemma NewNode_total:
  assumes inv: "arena_inv a" and h: "height < 2 ^ 32"
    and fit: "node_size key val + 7 \<le> ArenaBlockSize"
  obtains p a' where "arena_NewNode key val height a = (Ptr p, a')"
    "ar_blocks a' \<le> ar_blocks a + 1"
proof -
  have "(node_size key val + 7) div 8 * 8 \<le> ArenaBlockSize" using fit by linarith
  then show thesis
    using that arena_inv_blocks [OF inv] h node_size_pos [of key val]
    by (cases "ar_head a + (node_size key val + 7) div 8 * 8 \<le> ArenaBlockSize")
      (simp_all add: NewNode_eq Alloc_cases)
qed

lemma NodeAt_Index:
  assumes "ar_blocks a \<le> 1024" "fst p < ar_blocks a" "snd p < ArenaBlockSize"
  shows "arena_NodeAt a (arena_Index a p) = Some p" "arena_Index a p < 2 ^ 32"
proof -
  have "fst p * ArenaBlockSize + ArenaBlockSize \<le> 1024 * ArenaBlockSize"
    using assms(1,2) by (metis add.commute mult_Suc mult_le_mono1 Suc_leI order_trans)
  then have "fst p * ArenaBlockSize + snd p < 2 ^ 32"
    using assms(3) by (simp add: ArenaBlockSize_def)
  then have i: "arena_Index a p = fst p * ArenaBlockSize + snd p"
    using assms by (simp add: arena_Index_def)
  show "arena_NodeAt a (arena_Index a p) = Some p"
    unfolding i using assms(2,3) by (simp add: arena_NodeAt_def)
  show "arena_Index a p < 2 ^ 32"
    by (simp add: arena_Index_def)
qed

lemma node_read_back:
  "mk_key (node_Key (mk_node key val h)) = key" "mk_ts (node_Key (mk_node key val h)) = 0"
  "node_Value (mk_node key val h) = val" "\<not> node_IsDeleted (mk_node key val h)"
  by (auto simp: node_Key_def node_Value_def node_IsDeleted_def mk_node_def sizeof_Node_def
      split: option.splits list.splits)

text \<open>
  C2. In a well-formed arena of at most 1024 blocks (the 4 GB a 32-bit index can address)
  \<open>NewNode\<close> returns a pointer to memory that no live node overlaps: every earlier node is
  still there, unchanged and disjoint from the new one, the index of the new node leads
  \<open>NodeAt\<close> back to it, and the node reads back the key and the value that were stored,
  distinguishing a nil value from an empty one.
\<close>

theorem NewNode_fresh_and_readable:
  assumes "arena_inv a" and "height < 2 ^ 32"
    and "arena_NewNode key val height a = (Ptr p, a')" and "ar_blocks a' \<le> 1024"
  shows "arena_inv a' \<and> ar_nodes a p = None \<and>
         (\<forall>q n. ar_nodes a q = Some n \<longrightarrow> ar_nodes a' q = Some n \<and>
            (fst q = fst p \<and> snd q < snd p \<longrightarrow> snd q + node_extent n \<le> snd p)) \<and>
         arena_NodeAt a' (arena_Index a' p) = Some p \<and>
         (\<exists>n. arena_get a' (arena_Index a' p) = Some n \<and>
              mk_key (node_Key n) = key \<and> node_Value n = val)"
proof -
  note new = NewNode_Ptr [OF assms(1-3)]
  have disj: "snd q + node_extent n \<le> snd p"
    if "ar_nodes a q = Some n" "fst q = fst p" "snd q < snd p" for q n
  proof -
    have "ar_nodes a' q = Some n" using that new(2,3) by auto
    then show ?thesis
      using new(1,3) that(2,3) unfolding arena_inv_def by (cases q; cases p) auto
  qed
  have "q \<noteq> p" if "ar_nodes a q = Some n" for q n using that new(2) by auto
  with disj NodeAt_Index [OF assms(4) new(5,6)] new show ?thesis
    by (auto simp: arena_get_def node_read_back)
qed

theorem NewNode_fresh_and_readable_witness:
  "\<exists>p a'. arena_NewNode [1, 2] (Some [7]) 3 NewArena = (Ptr p, a') \<and>
     (\<exists>n. arena_get a' (arena_Index a' p) = Some n \<and>
          mk_key (node_Key n) = [1, 2] \<and> node_Value n = Some [7])"
proof -
  obtain p a' where new: "arena_NewNode [1, 2] (Some [7]) 3 NewArena = (Ptr p, a')"
    and le: "ar_blocks a' \<le> ar_blocks NewArena + 1"
    by (rule NewNode_total [OF arena_inv_New, of 3 "[1, 2]" "Some [7]"])
      (simp_all add: node_size_def sizeof_Node_def ArenaBlockSize_def)
  then have "ar_blocks a' \<le> 1024" by (simp add: NewArena_def)
  with NewNode_fresh_and_readable [OF arena_inv_New _ new] new show ?thesis by auto
qed

end
