(* ===== verification/Epoch.thy ===== *)
theory Epoch
  imports Arena
begin

text \<open>
  Models \<^verbatim>\<open>internal/engine/memtable/ebr.go\<close>: the epoch manager that \<^verbatim>\<open>skiplist.go\<close> brackets its
  lock-free reads with, and the interleaving of readers with \<^verbatim>\<open>SkipList.Reset\<close>. The retired
  list is the list of pairs of a node index and the epoch it was retired in, oldest first.
  The state machine \<open>ep_step\<close> interleaves any number of readers with one resetting thread
  whose phases are those of \<^verbatim>\<open>Reset\<close>: wait in \<^verbatim>\<open>Quiesce\<close>, reset the arena, resume.
\<close>

record epoch_manager =
  em_activeReaders :: int
  em_globalEpoch :: u64
  em_retired :: "(nat \<times> u64) list"
  em_retiredN :: int
  em_statsA :: int

definition NewEpochManager :: "int \<Rightarrow> epoch_manager" where
  "NewEpochManager n =
     \<lparr>em_activeReaders = 0, em_globalEpoch = 0, em_retired = [], em_retiredN = 0, em_statsA = 0\<rparr>"

definition EnterEpoch :: "epoch_manager \<Rightarrow> u64 \<times> epoch_manager" where
  "EnterEpoch em =
     (let em = em\<lparr>em_activeReaders := em_activeReaders em + 1\<rparr>;
          em = em\<lparr>em_statsA := em_statsA em + 1\<rparr>
      in (em_globalEpoch em, em))"

definition ExitEpoch :: "epoch_manager \<Rightarrow> epoch_manager" where
  "ExitEpoch em = em\<lparr>em_activeReaders := em_activeReaders em - 1\<rparr>"

definition ActiveReaders :: "epoch_manager \<Rightarrow> int" where
  "ActiveReaders em = em_activeReaders em"

text \<open>One test of the loop of \<^verbatim>\<open>WaitForReaders\<close>, and so of \<^verbatim>\<open>Quiesce\<close>: may it return?\<close>

definition WaitForReaders_done :: "epoch_manager \<Rightarrow> bool" where
  "WaitForReaders_done em \<longleftrightarrow> em_activeReaders em = 0"

definition ResumeQuiescence :: "epoch_manager \<Rightarrow> epoch_manager" where
  "ResumeQuiescence em = em"

text \<open>\<open>None\<close> is the nil pointer.\<close>

definition Retire :: "nat option \<Rightarrow> epoch_manager \<Rightarrow> epoch_manager" where
  "Retire ptr em =
     (case ptr of
        None \<Rightarrow> em
      | Some p \<Rightarrow>
          let epoch = em_globalEpoch em;
              em = em\<lparr>em_retired := em_retired em @ [(p, epoch)]\<rparr>
          in em\<lparr>em_retiredN := em_retiredN em + 1\<rparr>)"

definition em_Clean :: "epoch_manager \<Rightarrow> epoch_manager" where
  "em_Clean em = em\<lparr>em_retired := []\<rparr>"

definition AdvanceEpoch :: "epoch_manager \<Rightarrow> epoch_manager" where
  "AdvanceEpoch em = em\<lparr>em_globalEpoch := em_globalEpoch em + 1\<rparr>"

definition em_Stats :: "epoch_manager \<Rightarrow> int \<times> nat" where
  "em_Stats em = (ActiveReaders em, length (em_retired em))"

section \<open>Readers against Reset\<close>

text \<open>
  A reader inside its critical section remembers the generation of the arena it entered on and
  whether it entered after \<^verbatim>\<open>Quiesce\<close> had returned. \<open>ep_gen\<close> counts the arena resets.
\<close>

datatype reset_pc = RIdle | RWaiting | RQuiesced | RReset

record ep_sys =
  ep_em :: epoch_manager
  ep_gen :: nat
  ep_readers :: "nat \<rightharpoonup> nat \<times> bool"
  ep_pc :: reset_pc

definition ep_init :: ep_sys where
  "ep_init = \<lparr>ep_em = NewEpochManager 1000, ep_gen = 0, ep_readers = Map.empty, ep_pc = RIdle\<rparr>"

inductive ep_step :: "ep_sys \<Rightarrow> ep_sys \<Rightarrow> bool" where
  enter: "ep_readers s t = None \<Longrightarrow>
    ep_step s (s\<lparr>ep_em := snd (EnterEpoch (ep_em s)),
                 ep_readers := (ep_readers s)(t \<mapsto> (ep_gen s, ep_pc s = RQuiesced))\<rparr>)"
| exit: "ep_readers s t = Some r \<Longrightarrow>
    ep_step s (s\<lparr>ep_em := ExitEpoch (ep_em s), ep_readers := (ep_readers s)(t := None)\<rparr>)"
| retire: "ep_step s (s\<lparr>ep_em := Retire p (ep_em s)\<rparr>)"
| advance: "ep_step s (s\<lparr>ep_em := AdvanceEpoch (ep_em s)\<rparr>)"
| reset_call: "ep_pc s = RIdle \<Longrightarrow> ep_step s (s\<lparr>ep_pc := RWaiting\<rparr>)"
| reset_quiesced: "ep_pc s = RWaiting \<Longrightarrow> WaitForReaders_done (ep_em s) \<Longrightarrow>
    ep_step s (s\<lparr>ep_pc := RQuiesced\<rparr>)"
| reset_arena: "ep_pc s = RQuiesced \<Longrightarrow>
    ep_step s (s\<lparr>ep_em := em_Clean (ep_em s), ep_gen := ep_gen s + 1, ep_pc := RReset\<rparr>)"
| reset_resume: "ep_pc s = RReset \<Longrightarrow>
    ep_step s (s\<lparr>ep_em := ResumeQuiescence (ep_em s), ep_pc := RIdle\<rparr>)"

inductive ep_reachable :: "ep_sys \<Rightarrow> bool" where
  init: "ep_reachable ep_init"
| step: "ep_reachable s \<Longrightarrow> ep_step s s' \<Longrightarrow> ep_reachable s'"

definition ep_inv :: "ep_sys \<Rightarrow> bool" where
  "ep_inv s \<longleftrightarrow>
     finite (dom (ep_readers s)) \<and>
     em_activeReaders (ep_em s) = int (card (dom (ep_readers s))) \<and>
     (\<forall>t r. ep_readers s t = Some r \<longrightarrow> fst r \<le> ep_gen s \<and> (snd r \<or> fst r = ep_gen s)) \<and>
     (ep_pc s = RQuiesced \<longrightarrow> (\<forall>t r. ep_readers s t = Some r \<longrightarrow> snd r))"

lemma ep_step_inv: "ep_step s s' \<Longrightarrow> ep_inv s \<Longrightarrow> ep_inv s'"
proof (induction rule: ep_step.induct)
  case (exit s t r)
  then have "t \<in> dom (ep_readers s)" by blast
  moreover have "finite (dom (ep_readers s))" using exit by (simp add: ep_inv_def)
  ultimately have "0 < card (dom (ep_readers s))" by (auto simp: card_gt_0_iff)
  with exit \<open>t \<in> dom (ep_readers s)\<close> show ?case
    unfolding ep_inv_def ExitEpoch_def by (auto simp: card_Diff_singleton of_nat_diff) blast
next
  case (reset_quiesced s)
  then have "dom (ep_readers s) = {}"
    by (auto simp: ep_inv_def WaitForReaders_done_def)
  with reset_quiesced show ?case by (auto simp: ep_inv_def)
next
  case (retire s p)
  have "em_activeReaders (Retire p em) = em_activeReaders em" for em
    by (cases p) (simp_all add: Retire_def Let_def)
  with retire show ?case by (simp add: ep_inv_def del: split_paired_All)
next
  case (enter s t)
  then have "t \<notin> dom (ep_readers s)" by blast
  with enter show ?case by (auto simp: ep_inv_def EnterEpoch_def Let_def) blast
next
  case (reset_arena s)
  then show ?case
    by (simp add: ep_inv_def em_Clean_def del: split_paired_All) (blast intro: le_SucI)
qed (auto simp: ep_inv_def ResumeQuiescence_def AdvanceEpoch_def)

lemma ep_reachable_inv: "ep_reachable s \<Longrightarrow> ep_inv s"
proof (induction rule: ep_reachable.induct)
  case init
  show ?case by (simp add: ep_inv_def ep_init_def NewEpochManager_def)
qed (blast intro: ep_step_inv)

text \<open>
  C3. In every interleaving of readers, writers and one resetting thread the counter
  \<open>activeReaders\<close> is the number of readers inside, and the only readers that can be inside on
  an arena that has since been reset are those that entered between the return of \<open>Quiesce\<close>
  and the reset of the arena: a reader that was inside when \<open>Quiesce\<close> was called, or that
  entered at any other moment, reads the arena it entered on.
\<close>

theorem readers_counted_and_stale_only_in_window:
  assumes "ep_reachable s"
  shows "ActiveReaders (ep_em s) = int (card (dom (ep_readers s))) \<and>
         (\<forall>t g w. ep_readers s t = Some (g, w) \<and> g \<noteq> ep_gen s \<longrightarrow> w)"
  using ep_reachable_inv [OF assms] by (fastforce simp: ep_inv_def ActiveReaders_def)

text \<open>
  The window is really open: \<open>Quiesce\<close> closes no gate, so a run exists in which a reader
  enters after it has returned and is still inside when the arena has been reset.
\<close>

definition ep_run :: "ep_sys list" where
  "ep_run =
     (let s1 = ep_init\<lparr>ep_pc := RWaiting\<rparr>;
          s2 = s1\<lparr>ep_pc := RQuiesced\<rparr>;
          s3 = s2\<lparr>ep_em := snd (EnterEpoch (ep_em s2)), ep_readers := [7 \<mapsto> (ep_gen s2, True)]\<rparr>;
          s4 = s3\<lparr>ep_em := em_Clean (ep_em s3), ep_gen := ep_gen s3 + 1, ep_pc := RReset\<rparr>
      in [ep_init, s1, s2, s3, s4])"

lemma ep_run_reachable: "s \<in> set ep_run \<Longrightarrow> ep_reachable s"
proof -
  define s1 where "s1 = ep_init\<lparr>ep_pc := RWaiting\<rparr>"
  define s2 where "s2 = s1\<lparr>ep_pc := RQuiesced\<rparr>"
  define s3 where "s3 = s2\<lparr>ep_em := snd (EnterEpoch (ep_em s2)),
    ep_readers := [7 \<mapsto> (ep_gen s2, True)]\<rparr>"
  define s4 where "s4 = s3\<lparr>ep_em := em_Clean (ep_em s3), ep_gen := ep_gen s3 + 1, ep_pc := RReset\<rparr>"
  have r1: "ep_reachable s1"
    unfolding s1_def by (rule ep_reachable.step [OF ep_reachable.init ep_step.reset_call])
      (simp add: ep_init_def)
  have r2: "ep_reachable s2"
    unfolding s2_def by (rule ep_reachable.step [OF r1 ep_step.reset_quiesced])
      (simp_all add: s1_def ep_init_def WaitForReaders_done_def NewEpochManager_def)
  have "ep_readers s2 7 = None" "ep_pc s2 = RQuiesced" "ep_readers s2 = Map.empty"
    by (simp_all add: s2_def s1_def ep_init_def)
  then have r3: "ep_reachable s3"
    unfolding s3_def using ep_reachable.step [OF r2 ep_step.enter, of 7] by simp
  have r4: "ep_reachable s4"
    unfolding s4_def by (rule ep_reachable.step [OF r3 ep_step.reset_arena])
      (simp add: s3_def s2_def)
  assume "s \<in> set ep_run"
  then show ?thesis
    using ep_reachable.init r1 r2 r3 r4
    by (auto simp: ep_run_def Let_def s4_def s3_def s2_def s1_def)
qed

theorem reset_gate_open:
  "\<exists>s. ep_reachable s \<and> ep_readers s 7 = Some (0, True) \<and> ep_gen s = 1"
  by (rule exI [of _ "last ep_run"], intro conjI ep_run_reachable)
    (simp_all add: ep_run_def Let_def ep_init_def)

theorem readers_counted_witness:
  "ActiveReaders (ep_em (last ep_run)) = int (card (dom (ep_readers (last ep_run))))"
  by (rule readers_counted_and_stale_only_in_window [THEN conjunct1], rule ep_run_reachable)
    (simp add: ep_run_def Let_def)

end
