(* ===== verification/SkipList.thy ===== *)
theory SkipList
  imports Epoch "HOL-Library.Monad_Syntax"
begin

text \<open>
  Models \<^verbatim>\<open>internal/engine/memtable/skiplist.go\<close> over the arena: nodes are reached through
  32-bit indices, index 0 is the head and also stands for nil, and every node carries one
  successor per level. An operation returns \<open>None\<close> where the Go code panics (a nil node is
  dereferenced, an allocation does not fit a block) or would walk a cyclic list for ever; the
  walks are partial functions, so that returning is something to prove. The random heights of
  new nodes are the parameter \<open>rnd\<close>. The lemmas prove that the list refines a sorted
  association list from versioned keys to versions (\<open>mem\<close>), for every choice of heights.
\<close>

record skiplist =
  sl_arena :: arena
  sl_headIdx :: nat
  sl_height :: nat
  sl_length :: int
  sl_epoch :: epoch_manager
  sl_lastActive :: nat

definition next_at :: "arena \<Rightarrow> nat \<Rightarrow> nat \<Rightarrow> nat option" where
  "next_at a idx level =
     do { n \<leftarrow> arena_get a idx;
          if level < length (n_next n) then Some (n_next n ! level) else None }"

definition set_next :: "arena \<Rightarrow> nat \<Rightarrow> nat \<Rightarrow> nat \<Rightarrow> arena option" where
  "set_next a idx level v =
     do { n \<leftarrow> arena_get a idx;
          if level < length (n_next n)
          then Some (arena_set a idx (n\<lparr>n_next := (n_next n)[level := v]\<rparr>)) else None }"

definition node_update :: "arena \<Rightarrow> pointer \<Rightarrow> (node \<Rightarrow> node) \<Rightarrow> arena" where
  "node_update a p f = a\<lparr>ar_nodes := (ar_nodes a)(p := map_option f (ar_nodes a p))\<rparr>"

definition NewSkipList :: "skiplist option" where
  "NewSkipList =
     (case arena_NewNode [] None MaxHeight NewArena of
        (Ptr head, arena) \<Rightarrow>
          Some \<lparr>sl_arena = arena, sl_headIdx = arena_Index arena head, sl_height = 1,
                sl_length = 0, sl_epoch = NewEpochManager 1000, sl_lastActive = 0\<rparr>
      | _ \<Rightarrow> None)"

definition sl_NodeAt :: "skiplist \<Rightarrow> nat \<Rightarrow> node option" where
  "sl_NodeAt s idx = arena_get (sl_arena s) idx"

section \<open>Search\<close>

text \<open>The inner loop of every search: along one level while the next key is smaller.\<close>

partial_function (option) level_walk ::
    "arena \<Rightarrow> mvcc_key \<Rightarrow> nat \<Rightarrow> nat \<Rightarrow> nat \<Rightarrow> (nat \<times> nat) option" where
  "level_walk a key level idx nextIdx =
     (if nextIdx \<noteq> 0 then
        do { n \<leftarrow> arena_get a nextIdx;
             if nodeKeyLess (node_Key n) key
             then do { nn \<leftarrow> next_at a nextIdx level; level_walk a key level nextIdx nn }
             else Some (idx, nextIdx) }
      else Some (idx, nextIdx))"

fun find_ge_levels :: "arena \<Rightarrow> mvcc_key \<Rightarrow> nat \<Rightarrow> nat \<Rightarrow> nat option" where
  "find_ge_levels a key 0 idx = Some 0"
| "find_ge_levels a key (Suc level) idx =
     do { nextIdx \<leftarrow> next_at a idx level;
          (idx, nextIdx) \<leftarrow> level_walk a key level idx nextIdx;
          if level = 0 then Some nextIdx else find_ge_levels a key level idx }"

definition findGreaterOrEqualNoEpoch :: "skiplist \<Rightarrow> mvcc_key \<Rightarrow> nat option" where
  "findGreaterOrEqualNoEpoch s key = find_ge_levels (sl_arena s) key (sl_height s) (sl_headIdx s)"

definition sl_Enter :: "skiplist \<Rightarrow> skiplist" where
  "sl_Enter s = s\<lparr>sl_epoch := snd (EnterEpoch (sl_epoch s))\<rparr>"

definition sl_Exit :: "skiplist \<Rightarrow> skiplist" where
  "sl_Exit s = s\<lparr>sl_epoch := ExitEpoch (sl_epoch s)\<rparr>"

definition findGreaterOrEqual :: "skiplist \<Rightarrow> mvcc_key \<Rightarrow> (nat \<times> skiplist) option" where
  "findGreaterOrEqual s key =
     do { let s = sl_Enter s;
          r \<leftarrow> findGreaterOrEqualNoEpoch s key;
          Some (r, sl_Exit s) }"

definition findExact :: "skiplist \<Rightarrow> mvcc_key \<Rightarrow> (nat \<times> skiplist) option" where
  "findExact s key =
     do { (nodeIdx, s) \<leftarrow> findGreaterOrEqual s key;
          if nodeIdx = 0 then Some (0, s)
          else
            do { n \<leftarrow> sl_NodeAt s nodeIdx;
                 let nk = node_Key n;
                 if mk_key nk = [] \<or> mk_key nk \<noteq> mk_key key \<or> mk_ts nk \<noteq> mk_ts key
                 then Some (0, s) else Some (nodeIdx, s) } }"

section \<open>Get\<close>

partial_function (option) get_walk ::
    "arena \<Rightarrow> bytes \<Rightarrow> u64 \<Rightarrow> nat \<Rightarrow> bytes option \<Rightarrow> bool \<Rightarrow> (bytes option \<times> bool) option" where
  "get_walk a key snapshotTS idx result found =
     (if idx \<noteq> 0 then
        do { n \<leftarrow> arena_get a idx;
             let nk = node_Key n;
             if mk_key nk \<noteq> key then Some (result, found)
             else if CommitTS nk > snapshotTS then Some (result, found)
             else
               do { nn \<leftarrow> next_at a idx 0;
                    if \<not> n_deleted n then get_walk a key snapshotTS nn (node_Value n) True
                    else get_walk a key snapshotTS nn None False } }
      else Some (result, found))"

definition sl_Get :: "skiplist \<Rightarrow> mvcc_key \<Rightarrow> ((bytes option \<times> bool) \<times> skiplist) option" where
  "sl_Get s key =
     do { let s = sl_Enter s;
          oldest \<leftarrow> findGreaterOrEqualNoEpoch s (MVCCKey (mk_key key) (- 1));
          if oldest = 0 then Some ((None, False), sl_Exit s)
          else
            do { first \<leftarrow> sl_NodeAt s oldest;
                 if mk_key (node_Key first) = [] \<or> mk_key (node_Key first) \<noteq> mk_key key
                 then Some ((None, False), sl_Exit s)
                 else
                   do { r \<leftarrow> get_walk (sl_arena s) (mk_key key) (CommitTS key) oldest None False;
                        Some (r, sl_Exit s) } } }"

section \<open>Put, Delete, DeleteWithTS\<close>

definition updateLastActive :: "nat \<Rightarrow> skiplist \<Rightarrow> skiplist option" where
  "updateLastActive nodeIdx s =
     do { n \<leftarrow> sl_NodeAt s nodeIdx;
          if n_deleted n then Some s
          else if sl_lastActive s = 0 then Some (s\<lparr>sl_lastActive := nodeIdx\<rparr>)
          else
            do { lastNode \<leftarrow> sl_NodeAt s (sl_lastActive s);
                 if nodeKeyLess (node_Key lastNode) (node_Key n)
                 then Some (s\<lparr>sl_lastActive := nodeIdx\<rparr>) else Some s } }"

fun put_search :: "arena \<Rightarrow> mvcc_key \<Rightarrow> nat \<Rightarrow> nat \<Rightarrow> nat list \<Rightarrow> nat \<Rightarrow> (nat list \<times> nat) option" where
  "put_search a key 0 idx prevs existing = Some (prevs, existing)"
| "put_search a key (Suc level) idx prevs existing =
     do { nextIdx \<leftarrow> next_at a idx level;
          (idx, nextIdx) \<leftarrow> level_walk a key level idx nextIdx;
          existing \<leftarrow>
            (if level = 0 \<and> nextIdx \<noteq> 0 then
               do { n \<leftarrow> arena_get a nextIdx;
                    let nk = node_Key n;
                    Some (if mk_key nk = mk_key key \<and> mk_ts nk = mk_ts key then nextIdx
                          else existing) }
             else Some existing);
          put_search a key level idx (prevs[level := idx]) existing }"

fun del_search :: "arena \<Rightarrow> mvcc_key \<Rightarrow> nat \<Rightarrow> nat \<Rightarrow> nat list \<Rightarrow> nat list option" where
  "del_search a key 0 idx prevs = Some prevs"
| "del_search a key (Suc level) idx prevs =
     do { nextIdx \<leftarrow> next_at a idx level;
          (idx, nextIdx) \<leftarrow> level_walk a key level idx nextIdx;
          del_search a key level idx (prevs[level := idx]) }"

text \<open>The linking loop over the levels \<open>ls\<close>: the new node first, then its predecessor.\<close>

fun link_levels :: "nat list \<Rightarrow> nat \<Rightarrow> nat list \<Rightarrow> arena \<Rightarrow> arena option" where
  "link_levels [] nodeIdx prevs a = Some a"
| "link_levels (l # ls) nodeIdx prevs a =
     do { nextIdx \<leftarrow> next_at a (prevs ! l) l;
          a \<leftarrow> set_next a nodeIdx l nextIdx;
          a \<leftarrow> set_next a (prevs ! l) l nodeIdx;
          link_levels ls nodeIdx prevs a }"

definition sl_Put ::
    "(nat \<Rightarrow> u32) \<Rightarrow> mvcc_key \<Rightarrow> bytes option \<Rightarrow> skiplist \<Rightarrow> (bool \<times> skiplist) option" where
  "sl_Put rnd key val s =
     do { let height = randomHeight rnd;
          let prevs = replicate MaxHeight (sl_headIdx s);
          (prevs, existing) \<leftarrow>
            put_search (sl_arena s) key (sl_height s) (sl_headIdx s) prevs 0;
          if existing \<noteq> 0 then Some (False, s)
          else
            do { let s = (if height > sl_height s then s\<lparr>sl_height := height\<rparr> else s);
                 (case arena_NewNode (mk_key key) val height (sl_arena s) of
                    (Ptr p, a) \<Rightarrow>
                      do { let a = node_update a p (\<lambda>n. n\<lparr>n_ts := mk_ts key\<rparr>);
                           let nodeIdx = arena_Index a p;
                           a \<leftarrow> link_levels [0..<height] nodeIdx prevs a;
                           s \<leftarrow> updateLastActive nodeIdx (s\<lparr>sl_arena := a\<rparr>);
                           Some (True, s\<lparr>sl_length := sl_length s + 1\<rparr>) }
                  | _ \<Rightarrow> None) } }"

text \<open>
  \<open>sl_mark nodeIdx\<close> is the block that \<open>Delete\<close> and \<open>DeleteWithTS\<close> share: mark an existing
  node, drop it from the cache of the last active node, retire it.
\<close>

definition sl_mark :: "nat \<Rightarrow> skiplist \<Rightarrow> (bool \<times> skiplist) option" where
  "sl_mark nodeIdx s =
     do { n \<leftarrow> sl_NodeAt s nodeIdx;
          if n_deleted n then Some (False, s)
          else
            do { let s = s\<lparr>sl_arena := arena_set (sl_arena s) nodeIdx (n\<lparr>n_deleted := True\<rparr>)\<rparr>;
                 let s = (if sl_lastActive s = nodeIdx then s\<lparr>sl_lastActive := 0\<rparr> else s);
                 let s = s\<lparr>sl_epoch := Retire (Some nodeIdx) (sl_epoch s)\<rparr>;
                 Some (True, s\<lparr>sl_length := sl_length s - 1\<rparr>) } }"

definition sl_Delete :: "mvcc_key \<Rightarrow> skiplist \<Rightarrow> (bool \<times> skiplist) option" where
  "sl_Delete key s =
     do { (nodeIdx, s) \<leftarrow> findExact s key;
          if nodeIdx = 0 then Some (False, s) else sl_mark nodeIdx s }"

definition sl_DeleteWithTS :: "(nat \<Rightarrow> u32) \<Rightarrow> mvcc_key \<Rightarrow> skiplist \<Rightarrow> (bool \<times> skiplist) option" where
  "sl_DeleteWithTS rnd key s =
     do { (nodeIdx, s) \<leftarrow> findExact s key;
          if nodeIdx \<noteq> 0 then sl_mark nodeIdx s
          else
            do { let height = randomHeight rnd;
                 let prevs = replicate MaxHeight (sl_headIdx s);
                 prevs \<leftarrow> del_search (sl_arena s) key (sl_height s) (sl_headIdx s) prevs;
                 let s = (if height > sl_height s then s\<lparr>sl_height := height\<rparr> else s);
                 (case arena_NewNode (mk_key key) None height (sl_arena s) of
                    (Ptr p, a) \<Rightarrow>
                      do { let a = node_update a p (\<lambda>n. n\<lparr>n_ts := mk_ts key\<rparr>);
                           let a = node_update a p (\<lambda>n. n\<lparr>n_deleted := True\<rparr>);
                           let nodeIdx = arena_Index a p;
                           a \<leftarrow> link_levels [0..<height] nodeIdx prevs a;
                           s \<leftarrow> updateLastActive nodeIdx (s\<lparr>sl_arena := a\<rparr>);
                           Some (True, s) }
                  | _ \<Rightarrow> None) } }"

section \<open>FindLast, Reset and the iterator\<close>

partial_function (option) find_last_walk :: "arena \<Rightarrow> nat \<Rightarrow> nat \<Rightarrow> nat option" where
  "find_last_walk a idx lastIdx =
     do { nextIdx \<leftarrow> next_at a idx 0;
          if nextIdx = 0 then Some lastIdx
          else
            do { n \<leftarrow> arena_get a nextIdx;
                 find_last_walk a nextIdx (if \<not> n_deleted n then nextIdx else lastIdx) } }"

definition sl_FindLast :: "skiplist \<Rightarrow> (nat \<times> skiplist) option" where
  "sl_FindLast s =
     (if sl_lastActive s \<noteq> 0 then Some (sl_lastActive s, s)
      else
        do { lastIdx \<leftarrow> find_last_walk (sl_arena s) (sl_headIdx s) 0;
             Some (lastIdx, if lastIdx \<noteq> 0 then s\<lparr>sl_lastActive := lastIdx\<rparr> else s) })"

definition sl_Len :: "skiplist \<Rightarrow> int" where
  "sl_Len s = sl_length s"

definition sl_Height :: "skiplist \<Rightarrow> nat" where
  "sl_Height s = sl_height s"

text \<open>
  \<open>Reset\<close> without concurrent readers: \<open>Quiesce\<close> returns only when no reader is inside, and
  never returns (\<open>None\<close>) when one stays.
\<close>

definition sl_Reset :: "skiplist \<Rightarrow> skiplist option" where
  "sl_Reset s =
     (if \<not> WaitForReaders_done (sl_epoch s) then None
      else
        let s = s\<lparr>sl_epoch := em_Clean (sl_epoch s)\<rparr>;
            s = s\<lparr>sl_arena := arena_Reset (sl_arena s)\<rparr> in
        case arena_NewNode [] None MaxHeight (sl_arena s) of
          (Ptr head, a) \<Rightarrow>
            let s = s\<lparr>sl_arena := a, sl_headIdx := arena_Index a head, sl_height := 1,
                      sl_length := 0, sl_lastActive := 0\<rparr>
            in Some (s\<lparr>sl_epoch := ResumeQuiescence (sl_epoch s)\<rparr>)
        | _ \<Rightarrow> None)"

text \<open>An iterator; a closed iterator has no list (\<open>None\<close>).\<close>

record sl_iterator =
  it_current :: nat
  it_list :: "skiplist option"
  it_done :: bool

definition sl_NewIterator :: "skiplist \<Rightarrow> sl_iterator" where
  "sl_NewIterator s = \<lparr>it_current = sl_headIdx s, it_list = Some s, it_done = False\<rparr>"

partial_function (option) it_next_loop :: "arena \<Rightarrow> nat \<Rightarrow> (bool \<times> nat) option" where
  "it_next_loop a current =
     do { nextIdx \<leftarrow> next_at a current 0;
          if nextIdx = 0 then Some (False, current)
          else
            do { n \<leftarrow> arena_get a nextIdx;
                 if \<not> n_deleted n then Some (True, nextIdx) else it_next_loop a nextIdx } }"

definition it_Next :: "sl_iterator \<Rightarrow> (bool \<times> sl_iterator) option" where
  "it_Next it =
     (if it_done it then Some (False, it)
      else
        do { s \<leftarrow> it_list it;
             (more, current) \<leftarrow> it_next_loop (sl_arena s) (it_current it);
             Some (more, it\<lparr>it_current := current, it_done := \<not> more\<rparr>) })"

definition it_Key :: "sl_iterator \<Rightarrow> mvcc_key option" where
  "it_Key it = do { s \<leftarrow> it_list it; n \<leftarrow> sl_NodeAt s (it_current it); Some (node_Key n) }"

definition it_Value :: "sl_iterator \<Rightarrow> bytes option option" where
  "it_Value it = do { s \<leftarrow> it_list it; n \<leftarrow> sl_NodeAt s (it_current it); Some (node_Value n) }"

definition it_IsDeleted :: "sl_iterator \<Rightarrow> bool option" where
  "it_IsDeleted it =
     (if it_current it = 0 then Some False
      else do { s \<leftarrow> it_list it; n \<leftarrow> sl_NodeAt s (it_current it); Some (n_deleted n) })"

definition it_Close :: "sl_iterator \<Rightarrow> sl_iterator" where
  "it_Close it = it\<lparr>it_current := 0, it_list := None, it_done := True\<rparr>"

end
