(* ===== verification/MemSpec.thy ===== *)
theory MemSpec
  imports Keys
begin

text \<open>
  The contract of a memtable: a list of versioned keys with their versions, sorted by the order
  of \<open>nodeKeyLess\<close> (so the versions of a key are adjacent, oldest first). \<open>SkipListRefine\<close>
  proves that the skip list implements these operations; the engine theories build on them.
\<close>

datatype version = Live "bytes option" | Tomb

type_synonym mem = "(mvcc_key \<times> version) list"

definition mem_inv :: "mem \<Rightarrow> bool" where
  "mem_inv m \<longleftrightarrow> sorted_wrt (<) (map fst m)"

definition mem_has :: "mvcc_key \<Rightarrow> mem \<Rightarrow> bool" where
  "mem_has k m \<longleftrightarrow> k \<in> fst ` set m"

fun mem_insert :: "mvcc_key \<Rightarrow> version \<Rightarrow> mem \<Rightarrow> mem" where
  "mem_insert k v [] = [(k, v)]"
| "mem_insert k v (e # m) = (if fst e < k then e # mem_insert k v m else (k, v) # e # m)"

definition mem_put :: "mvcc_key \<Rightarrow> bytes option \<Rightarrow> mem \<Rightarrow> bool \<times> mem" where
  "mem_put k v m = (if mem_has k m then (False, m) else (True, mem_insert k (Live v) m))"

definition mem_mark :: "mvcc_key \<Rightarrow> mem \<Rightarrow> mem" where
  "mem_mark k m = map (\<lambda>e. if fst e = k then (k, Tomb) else e) m"

definition mem_is_live :: "mvcc_key \<Rightarrow> mem \<Rightarrow> bool" where
  "mem_is_live k m \<longleftrightarrow> (\<exists>e \<in> set m. fst e = k \<and> snd e \<noteq> Tomb)"

definition mem_delete :: "mvcc_key \<Rightarrow> mem \<Rightarrow> bool \<times> mem" where
  "mem_delete k m =
     (if mk_key k \<noteq> [] \<and> mem_is_live k m then (True, mem_mark k m) else (False, m))"

text \<open>
  \<open>DeleteWithTS\<close> for a key that is not empty. (The search of the skip list never finds an empty
  key, so that deleting a version of it inserts one more node each time; the statements about
  deletes assume a key that is not empty.)
\<close>

definition mem_delete_ts :: "mvcc_key \<Rightarrow> mem \<Rightarrow> bool \<times> mem" where
  "mem_delete_ts k m =
     (if mem_has k m then (if mem_is_live k m then (True, mem_mark k m) else (False, m))
      else (True, mem_insert k Tomb m))"

definition mem_chain :: "bytes \<Rightarrow> mem \<Rightarrow> mem" where
  "mem_chain key m = filter (\<lambda>e. mk_key (fst e) = key) m"

definition mem_visible :: "bytes \<Rightarrow> u64 \<Rightarrow> mem \<Rightarrow> mem" where
  "mem_visible key ts m = filter (\<lambda>e. CommitTS (fst e) \<le> ts) (mem_chain key m)"

text \<open>The version a snapshot sees: the newest one committed at or before it.\<close>

definition mem_version :: "bytes \<Rightarrow> u64 \<Rightarrow> mem \<Rightarrow> version option" where
  "mem_version key ts m =
     (case mem_visible key ts m of [] \<Rightarrow> None | ys \<Rightarrow> Some (snd (last ys)))"

definition mem_get :: "bytes \<Rightarrow> u64 \<Rightarrow> mem \<Rightarrow> bytes option \<times> bool" where
  "mem_get key ts m =
     (if key = [] then (None, False)
      else case mem_version key ts m of Some (Live v) \<Rightarrow> (v, True) | _ \<Rightarrow> (None, False))"

definition mem_live :: "mem \<Rightarrow> mem" where
  "mem_live m = filter (\<lambda>e. snd e \<noteq> Tomb) m"

definition mem_len :: "mem \<Rightarrow> nat" where
  "mem_len m = length (mem_live m)"

text \<open>
  What \<^verbatim>\<open>MemTable.GetLatest\<close> returns: the newest live version of the key even when a newer
  tombstone exists, and the newest tombstone's timestamp only when no version is live.
\<close>

definition mem_get_latest :: "bytes \<Rightarrow> mem \<Rightarrow> bytes option \<times> u64 \<times> bool" where
  "mem_get_latest key m =
     (let chain = mem_chain key m; live = mem_live chain in
      if live \<noteq> [] then
        (case last live of (k, Live v) \<Rightarrow> (v, CommitTS k, True) | (k, Tomb) \<Rightarrow> (None, 0, False))
      else if chain \<noteq> [] then (None, CommitTS (fst (last chain)), False)
      else (None, 0, False))"

text \<open>
  The last live version, and how the cache behind \<^verbatim>\<open>LastKey\<close> moves: a new version replaces the
  cached one when it is larger or the cache is empty, marking the cached version empties it.
\<close>

definition mem_last :: "mem \<Rightarrow> mvcc_key" where
  "mem_last m = (if mem_live m = [] then MVCCKey [] 0 else fst (last (mem_live m)))"

definition last_put :: "mvcc_key \<Rightarrow> mvcc_key option \<Rightarrow> mvcc_key option" where
  "last_put k c = (case c of None \<Rightarrow> Some k | Some l \<Rightarrow> Some (if l < k then k else l))"

definition last_drop :: "mvcc_key \<Rightarrow> mvcc_key option \<Rightarrow> mvcc_key option" where
  "last_drop k c = (if c = Some k then None else c)"

section \<open>Laws\<close>

lemma set_mem_insert [simp]: "set (mem_insert k v m) = insert (k, v) (set m)"
  by (induction m) auto

lemma mem_inv_Nil [simp]: "mem_inv []"
  by (simp add: mem_inv_def)

lemma mem_inv_distinct: "mem_inv m \<Longrightarrow> distinct (map fst m)"
  unfolding mem_inv_def by (rule sorted_wrt_less_distinct)

lemma mem_inv_insert: "mem_inv m \<Longrightarrow> \<not> mem_has k m \<Longrightarrow> mem_inv (mem_insert k v m)"
proof (induction m)
  case (Cons e m)
  then show ?case
    by (auto simp: mem_inv_def mem_has_def image_iff dest: order.strict_trans)
qed (simp add: mem_inv_def)

lemma map_fst_mem_mark [simp]: "map fst (mem_mark k m) = map fst m"
  by (induction m) (auto simp: mem_mark_def)

lemma mem_inv_mark: "mem_inv m \<Longrightarrow> mem_inv (mem_mark k m)"
  by (simp add: mem_inv_def)

lemma mem_inv_put: "mem_inv m \<Longrightarrow> mem_inv (snd (mem_put k v m))"
  by (simp add: mem_put_def mem_inv_insert)

lemma mem_inv_delete_ts: "mem_inv m \<Longrightarrow> mem_inv (snd (mem_delete_ts k m))"
  by (simp add: mem_delete_ts_def mem_inv_insert mem_inv_mark)

lemma mem_inv_unique:
  "mem_inv m \<Longrightarrow> (k, v) \<in> set m \<Longrightarrow> (k, v') \<in> set m \<Longrightarrow> v = v'"
  using mem_inv_distinct by (metis eq_key_imp_eq_value)

lemma mem_inv_filter: "mem_inv m \<Longrightarrow> mem_inv (filter P m)"
  unfolding mem_inv_def sorted_wrt_map by (rule filter_sorted_wrt)

text \<open>The visible version as an extremum: no member of the list is newer and still visible.\<close>

lemma mem_visible_last:
  assumes inv: "mem_inv m" and e: "(k, v) \<in> set m" "mk_key k = key" "CommitTS k \<le> ts"
    and max: "\<And>k' v'. (k', v') \<in> set m \<Longrightarrow> mk_key k' = key \<Longrightarrow> CommitTS k' \<le> ts \<Longrightarrow>
        CommitTS k' \<le> CommitTS k"
  shows "mem_version key ts m = Some v"
proof -
  let ?ys = "mem_visible key ts m"
  have ys: "(k', v') \<in> set ?ys \<longleftrightarrow> (k', v') \<in> set m \<and> mk_key k' = key \<and> CommitTS k' \<le> ts" for k' v'
    by (auto simp: mem_visible_def mem_chain_def)
  have inv': "mem_inv ?ys"
    unfolding mem_visible_def mem_chain_def by (intro mem_inv_filter inv)
  have ne: "?ys \<noteq> []" using ys [of k v] e by auto
  obtain k' v' where last: "last ?ys = (k', v')" by (cases "last ?ys")
  then have in_last: "(k', v') \<in> set ?ys" using ne by (metis last_in_set)
  have "k' = k"
  proof (rule ccontr)
    assume neq: "k' \<noteq> k"
    have "(k, v) \<in> set ?ys" using ys e by simp
    then have "k < k'"
      using sorted_wrt_last [of "(<)" fst ?ys "(k, v)"] inv' last neq by (auto simp: mem_inv_def)
    then have "CommitTS k < CommitTS k'"
      using ys in_last e(2) by (simp add: same_key_less_iff)
    moreover have "CommitTS k' \<le> CommitTS k" using max ys in_last by blast
    ultimately show False by simp
  qed
  then have "v' = v" using ys in_last e(1) mem_inv_unique [OF inv] by blast
  with ne last show ?thesis by (cases ?ys) (simp_all add: mem_version_def)
qed

lemma mem_live_le_last: "mem_inv m \<Longrightarrow> (y, w) \<in> set (mem_live m) \<Longrightarrow> y \<le> mem_last m"
proof -
  assume a: "mem_inv m" "(y, w) \<in> set (mem_live m)"
  have "mem_inv (mem_live m)" unfolding mem_live_def by (rule mem_inv_filter [OF a(1)])
  then have "(y, w) = last (mem_live m) \<or> y < fst (last (mem_live m))"
    using sorted_wrt_last [of "(<)" fst "mem_live m" "(y, w)"] a(2) by (simp add: mem_inv_def)
  moreover have "mem_live m \<noteq> []" using a(2) by auto
  ultimately show "y \<le> mem_last m" by (auto simp: mem_last_def dest: arg_cong [where f = fst])
qed

lemma mem_last_eq:
  assumes "mem_inv m" "(x, v) \<in> set (mem_live m)" "\<And>y w. (y, w) \<in> set (mem_live m) \<Longrightarrow> y \<le> x"
  shows "mem_last m = x"
proof -
  have inv: "mem_inv (mem_live m)" unfolding mem_live_def by (rule mem_inv_filter [OF assms(1)])
  have ne: "mem_live m \<noteq> []" using assms(2) by auto
  then have le: "fst (last (mem_live m)) \<le> x"
    using assms(3) last_in_set [OF ne] by (metis prod.collapse)
  have "last (mem_live m) = (x, v) \<or> x < fst (last (mem_live m))"
    using sorted_wrt_last [of "(<)" fst "mem_live m" "(x, v)"] inv assms(2) by (auto simp: mem_inv_def)
  with le ne show ?thesis by (auto simp: mem_last_def)
qed

text \<open>A put moves the last live version as \<open>last_put\<close> moves the cache.\<close>

lemma mem_last_put:
  assumes "mem_inv m" "\<not> mem_has k m"
  shows "Some (mem_last (snd (mem_put k v m))) =
    last_put k (if mem_live m = [] then None else Some (mem_last m))"
proof -
  have inv: "mem_inv (mem_insert k (Live v) m)" by (rule mem_inv_insert) fact+
  have mem: "e \<in> set (mem_live (mem_insert k (Live v) m)) \<longleftrightarrow> e = (k, Live v) \<or> e \<in> set (mem_live m)" for e
    by (auto simp: mem_live_def)
  have "mem_last (mem_insert k (Live v) m) = k" if "\<And>y w. (y, w) \<in> set (mem_live m) \<Longrightarrow> y \<le> k"
    by (rule mem_last_eq [OF inv, where v = "Live v"]) (use mem that in auto)
  moreover have "mem_last (mem_insert k (Live v) m) = mem_last m"
    if "mem_live m \<noteq> []" "\<not> mem_last m < k"
  proof (rule mem_last_eq [OF inv, where v = "snd (last (mem_live m))"])
    show "(mem_last m, snd (last (mem_live m))) \<in> set (mem_live (mem_insert k (Live v) m))"
      using that(1) mem by (simp add: mem_last_def)
    show "y \<le> mem_last m" if "(y, w) \<in> set (mem_live (mem_insert k (Live v) m))" for y w
      using that mem [of "(y, w)"] \<open>\<not> mem_last m < k\<close> mem_live_le_last [OF assms(1)] by auto
  qed
  ultimately have m: "mem_last (mem_insert k (Live v) m) =
      (if mem_live m = [] \<or> mem_last m < k then k else mem_last m)"
    using mem_live_le_last [OF assms(1)] by (auto, meson order.strict_implies_order order.trans)
  then show ?thesis using assms(2) by (simp add: mem_put_def last_put_def)
qed

lemma mem_version_None:
  "mem_version key ts m = None \<longleftrightarrow>
   (\<forall>(k, v) \<in> set m. \<not> (mk_key k = key \<and> CommitTS k \<le> ts))"
proof -
  have "mem_version key ts m = None \<longleftrightarrow> mem_visible key ts m = []"
    by (simp add: mem_version_def split: list.split)
  then show ?thesis by (auto simp: mem_visible_def mem_chain_def filter_empty_conv)
qed

text \<open>Reads after an insertion.\<close>

lemma mem_version_insert_newest:
  assumes "mem_inv m" "\<not> mem_has k m" "mk_key k = key" "CommitTS k \<le> ts"
    and "\<And>k' v'. (k', v') \<in> set m \<Longrightarrow> mk_key k' = key \<Longrightarrow> CommitTS k' \<le> ts \<Longrightarrow>
        CommitTS k' \<le> CommitTS k"
  shows "mem_version key ts (mem_insert k v m) = Some v"
proof (rule mem_visible_last [where k = k])
  show "mem_inv (mem_insert k v m)" by (rule mem_inv_insert) fact+
qed (use assms(3-5) in \<open>auto simp del: CommitTS_le_iff\<close>)

lemma filter_mem_insert:
  "\<not> P (k, v) \<Longrightarrow> filter P (mem_insert k v m) = filter P m"
  by (induction m) auto

lemma mem_version_insert_other:
  assumes "mk_key k \<noteq> key \<or> ts < CommitTS k"
  shows "mem_version key ts (mem_insert k v m) = mem_version key ts m"
proof -
  have "mem_visible key ts (mem_insert k v m) = mem_visible key ts m"
    using assms unfolding mem_visible_def mem_chain_def filter_filter
    by (intro filter_mem_insert) auto
  then show ?thesis by (simp add: mem_version_def)
qed

end
