(* ===== verification/SkipListRefine.thy ===== *)
theory SkipListRefine
  imports SkipList MemSpec
begin

text \<open>
  Correctness of the skip list: the representation invariant \<open>sl_rep s xs\<close> (\<open>xs\<close> lists the
  indices of the nodes in the order of level 0; level \<open>l\<close> links exactly the nodes higher than
  \<open>l\<close>), its abstraction to the sorted association list \<open>sl_abs s xs\<close> of type \<open>mem\<close>, and the
  simulation of every operation by the operation on that list.
\<close>

section \<open>Memory\<close>

named_theorems node_simps "fields that survive an update of another field"

lemma arena_get_set:
  "arena_get a i = Some n0 \<Longrightarrow> arena_get (arena_set a i n) j = (if j = i then Some n else arena_get a j)"
proof -
  have inj: "i div ArenaBlockSize = j div ArenaBlockSize \<Longrightarrow>
      i mod ArenaBlockSize = j mod ArenaBlockSize \<Longrightarrow> i = j" for i j
    by (metis div_mult_mod_eq)
  assume "arena_get a i = Some n0"
  then show ?thesis
    by (auto simp: arena_get_def arena_set_def arena_NodeAt_def Let_def dest: inj
        split: option.splits if_splits)
qed

lemma arena_set_blocks [simp]: "ar_blocks (arena_set a i n) = ar_blocks a"
  by (simp add: arena_set_def split: option.split)

lemma arena_inv_set:
  assumes inv: "arena_inv a" and get: "arena_get a i = Some n0" and e: "node_extent n = node_extent n0"
  shows "arena_inv (arena_set a i n)"
proof -
  obtain p where p: "arena_NodeAt a i = Some p" "ar_nodes a p = Some n0"
    using get by (auto simp: arena_get_def split: option.splits)
  then have eq: "arena_set a i n = a\<lparr>ar_nodes := (ar_nodes a)(p \<mapsto> n)\<rparr>"
    by (simp add: arena_set_def)
  have old: "\<exists>m'. ar_nodes a (b, off) = Some m' \<and> node_extent m' = node_extent m"
    if "ar_nodes (arena_set a i n) (b, off) = Some m" for b off m
    using that p e unfolding eq by (auto split: if_splits)
  show ?thesis
  proof (rule arena_invI)
    fix b off m assume "ar_nodes (arena_set a i n) (b, off) = Some m"
    then obtain m' where "ar_nodes a (b, off) = Some m'" "node_extent m' = node_extent m"
      using old by blast
    with arena_inv_node [OF inv this(1)]
    show "b < ar_blocks (arena_set a i n) \<and> off + node_extent m \<le>
        (if b = ar_blockIdx (arena_set a i n) then ar_head (arena_set a i n) else ArenaBlockSize)"
      by (auto simp: eq)
  next
    fix b off off' m m'
    assume "ar_nodes (arena_set a i n) (b, off) = Some m"
      "ar_nodes (arena_set a i n) (b, off') = Some m'" "off < off'"
    then show "off + node_extent m \<le> off'"
      using old arena_inv_disjoint [OF inv] by metis
  qed (use inv in \<open>auto simp: eq arena_inv_def\<close>)
qed

definition strip :: "node \<Rightarrow> node" where
  "strip n = n\<lparr>n_next := []\<rparr>"

text \<open>\<open>same_payload a a'\<close>: the two arenas differ at most in the successors of their nodes.\<close>

definition same_payload :: "arena \<Rightarrow> arena \<Rightarrow> bool" where
  "same_payload a a' \<longleftrightarrow>
     (\<forall>i. map_option strip (arena_get a' i) = map_option strip (arena_get a i)) \<and>
     (\<forall>i. map_option (\<lambda>n. length (n_next n)) (arena_get a' i)
         = map_option (\<lambda>n. length (n_next n)) (arena_get a i)) \<and>
     ar_blocks a' = ar_blocks a \<and> (arena_inv a \<longrightarrow> arena_inv a')"

lemma same_payload_refl [simp]: "same_payload a a"
  by (simp add: same_payload_def)

lemma same_payload_trans [trans]: "same_payload a b \<Longrightarrow> same_payload b c \<Longrightarrow> same_payload a c"
  by (simp add: same_payload_def)

text \<open>The fields of the node at an index, and what they depend on.\<close>

definition nkey :: "arena \<Rightarrow> nat \<Rightarrow> mvcc_key" where
  "nkey a i = node_Key (the (arena_get a i))"

definition nht :: "arena \<Rightarrow> nat \<Rightarrow> nat" where
  "nht a i = n_height (the (arena_get a i))"

definition ndel :: "arena \<Rightarrow> nat \<Rightarrow> bool" where
  "ndel a i = n_deleted (the (arena_get a i))"

definition nval :: "arena \<Rightarrow> nat \<Rightarrow> bytes option" where
  "nval a i = node_Value (the (arena_get a i))"

definition is_node :: "arena \<Rightarrow> nat \<Rightarrow> bool" where
  "is_node a i \<longleftrightarrow> (\<exists>n. arena_get a i = Some n \<and> length (n_next n) = MaxHeight)"

lemma strip_fields:
  "node_Key (strip n) = node_Key n" "n_height (strip n) = n_height n"
  "n_deleted (strip n) = n_deleted n" "node_Value (strip n) = node_Value n"
  by (simp_all add: strip_def node_Key_def node_Value_def)

lemma same_payload_fields:
  assumes "same_payload a a'" "is_node a i"
  shows "is_node a' i" "nkey a' i = nkey a i" "nht a' i = nht a i" "ndel a' i = ndel a i"
    "nval a' i = nval a i"
proof -
  obtain n where n: "arena_get a i = Some n" "length (n_next n) = MaxHeight"
    using assms(2) by (auto simp: is_node_def)
  have "map_option strip (arena_get a' i) = Some (strip n)"
    "map_option (\<lambda>n. length (n_next n)) (arena_get a' i) = Some MaxHeight"
    using assms(1) n by (simp_all add: same_payload_def)
  then obtain n' where n': "arena_get a' i = Some n'" "strip n' = strip n"
    "length (n_next n') = MaxHeight"
    by auto
  have "node_Key n' = node_Key n" "n_height n' = n_height n" "n_deleted n' = n_deleted n"
    "node_Value n' = node_Value n"
    using n'(2) strip_fields by metis+
  with n n' show "is_node a' i" "nkey a' i = nkey a i" "nht a' i = nht a i" "ndel a' i = ndel a i"
    "nval a' i = nval a i"
    by (simp_all add: is_node_def nkey_def nht_def ndel_def nval_def)
qed

lemma next_at_node: "is_node a i \<Longrightarrow> l < MaxHeight \<Longrightarrow> \<exists>j. next_at a i l = Some j"
  by (auto simp: is_node_def next_at_def)

lemma set_next_spec:
  assumes "is_node a i" "l < MaxHeight"
  obtains a' where "set_next a i l v = Some a'" "same_payload a a'"
    "\<And>j m. next_at a' j m = (if j = i \<and> m = l then Some v else next_at a j m)"
proof -
  obtain n where n: "arena_get a i = Some n" "length (n_next n) = MaxHeight"
    using assms by (auto simp: is_node_def)
  let ?n = "n\<lparr>n_next := (n_next n)[l := v]\<rparr>"
  let ?a = "arena_set a i ?n"
  note get = arena_get_set [OF n(1), of ?n]
  have "set_next a i l v = Some ?a" using n assms(2) by (simp add: set_next_def)
  moreover have "same_payload a ?a"
    using n arena_inv_set [OF _ n(1), of ?n]
    by (auto simp: same_payload_def get strip_def)
  moreover have "next_at ?a j m = (if j = i \<and> m = l then Some v else next_at a j m)" for j m
    using n assms(2) by (auto simp: next_at_def get)
  ultimately show thesis by (rule that)
qed

section \<open>Levels\<close>

fun linked :: "arena \<Rightarrow> nat \<Rightarrow> nat \<Rightarrow> nat list \<Rightarrow> bool" where
  "linked a l i [] \<longleftrightarrow> next_at a i l = Some 0"
| "linked a l i (j # js) \<longleftrightarrow> next_at a i l = Some j \<and> j \<noteq> 0 \<and> linked a l j js"

lemma linked_suffix: "linked a l i (A @ B) \<Longrightarrow> linked a l (last (i # A)) B"
  by (induction A arbitrary: i) auto

lemma linked_mid: "linked a l i (A @ x # B) \<Longrightarrow> linked a l x B"
  using linked_suffix [of a l i "A @ [x]" B] by simp

lemma linked_cong:
  "linked a l i xs \<Longrightarrow> (\<And>j. j \<in> set (i # xs) \<Longrightarrow> next_at a' j l = next_at a j l) \<Longrightarrow> linked a' l i xs"
  by (induction xs arbitrary: i) auto

lemma linked_nonzero: "linked a l i xs \<Longrightarrow> 0 \<notin> set xs"
  by (induction xs arbitrary: i) auto

lemma linked_next: "linked a l i xs \<Longrightarrow> next_at a i l = Some (case xs of [] \<Rightarrow> 0 | x # _ \<Rightarrow> x)"
  by (cases xs) auto

text \<open>Inserting \<open>x\<close> after the last element of \<open>A\<close>.\<close>

lemma linked_insert:
  assumes "linked a l i (A @ B)" "distinct (i # A @ B)" "x \<notin> set (i # A @ B)" "x \<noteq> 0"
    and "\<And>j. next_at a' j l = (if j = x then next_at a (last (i # A)) l
                                else if j = last (i # A) then Some x else next_at a j l)"
  shows "linked a' l i (A @ x # B)"
  using assms
proof (induction A arbitrary: i)
  case Nil
  have "linked a l x B \<or> B = B" by simp
  from Nil have *: "next_at a' x l = next_at a i l" "next_at a' i l = Some x" by auto
  show ?case
  proof (cases B)
    case Nil
    with * \<open>linked a l i ([] @ B)\<close> \<open>x \<noteq> 0\<close> show ?thesis by simp
  next
    case (Cons b B')
    with Nil.prems(1) have b: "next_at a i l = Some b" "b \<noteq> 0" "linked a l b B'" by auto
    have "linked a' l b B'"
      by (rule linked_cong [OF b(3)]) (use Nil.prems Cons in auto)
    with * b Cons \<open>x \<noteq> 0\<close> show ?thesis by simp
  qed
next
  case (Cons j A)
  then have "linked a' l j (A @ x # B)" by (intro Cons.IH) auto
  moreover have "i \<noteq> last (j # A)" "i \<noteq> x"
    using Cons.prems(2,3) by (auto dest: in_set_butlastD split: if_splits)
  ultimately show ?case using Cons.prems by simp
qed

lemma level_walk_linked:
  assumes "linked a l i (A @ B)" "\<And>j. j \<in> set A \<Longrightarrow> is_node a j \<and> nkey a j < k"
    and "\<And>j. j \<in> set B \<Longrightarrow> is_node a j \<and> \<not> nkey a j < k"
    and "next_at a i l = Some nx"
  shows "level_walk a k l i nx = Some (last (i # A), case B of [] \<Rightarrow> 0 | b # _ \<Rightarrow> b)"
  using assms
proof (induction A arbitrary: i nx)
  case Nil
  show ?case
  proof (cases B)
    case Nil
    with \<open>linked a l i ([] @ B)\<close> \<open>next_at a i l = Some nx\<close> show ?thesis
      by (simp add: level_walk.simps)
  next
    case (Cons b B')
    with Nil.prems(1,4) have "nx = b" by simp
    moreover obtain n where "arena_get a b = Some n" "\<not> node_Key n < k"
      using Nil.prems(3) [of b] Cons by (auto simp: is_node_def nkey_def)
    ultimately show ?thesis
      using Cons by (simp add: level_walk.simps [of a k l i b])
  qed
next
  case (Cons j A)
  then have nx: "nx = j" "j \<noteq> 0" and l: "linked a l j (A @ B)" by auto
  obtain n where n: "arena_get a j = Some n" "node_Key n < k"
    using Cons.prems(2) [of j] by (auto simp: is_node_def nkey_def)
  obtain nn where nn: "next_at a j l = Some nn" using linked_next [OF l] by blast
  have "level_walk a k l j nn = Some (last (j # A), case B of [] \<Rightarrow> 0 | b # _ \<Rightarrow> b)"
    using Cons.prems(2,3) by (intro Cons.IH l nn) auto
  with nx n nn show ?case by (simp add: level_walk.simps [of a k l i j])
qed

section \<open>The representation invariant\<close>

definition level :: "arena \<Rightarrow> nat \<Rightarrow> nat list \<Rightarrow> nat list" where
  "level a l xs = filter (\<lambda>i. l < nht a i) xs"

definition sl_rep :: "skiplist \<Rightarrow> nat list \<Rightarrow> bool" where
  "sl_rep s xs \<longleftrightarrow>
     (let a = sl_arena s in
      arena_inv a \<and> ar_blocks a \<le> 1024 \<and> sl_headIdx s = 0 \<and>
      (\<forall>i \<in> set (0 # xs). is_node a i) \<and> distinct (0 # xs) \<and>
      sorted_wrt (<) (map (nkey a) xs) \<and>
      (\<forall>i \<in> set xs. 0 < nht a i \<and> nht a i \<le> sl_height s) \<and>
      1 \<le> sl_height s \<and> sl_height s \<le> MaxHeight \<and>
      (\<forall>l < MaxHeight. linked a l 0 (level a l xs)) \<and>
      sl_length s = int (length (filter (\<lambda>i. \<not> ndel a i) xs)) \<and>
      (sl_lastActive s \<noteq> 0 \<longrightarrow> sl_lastActive s \<in> set xs \<and> \<not> ndel a (sl_lastActive s)))"

lemma level_append [simp]: "level a l (xs @ ys) = level a l xs @ level a l ys"
  by (simp add: level_def)

lemma level_Nil [simp]: "level a l [] = []"
  by (simp add: level_def)

lemma set_level: "i \<in> set (level a l xs) \<longleftrightarrow> i \<in> set xs \<and> l < nht a i"
  by (auto simp: level_def)

lemma level_zero: "(\<And>i. i \<in> set xs \<Longrightarrow> 0 < nht a i) \<Longrightarrow> level a 0 xs = xs"
  by (simp add: level_def)

text \<open>
  One level of a search: starting at the last smaller node of some level above, the walk ends
  at the last smaller node of this level.
\<close>

definition below :: "arena \<Rightarrow> mvcc_key \<Rightarrow> nat list \<Rightarrow> nat list" where
  "below a k xs = takeWhile (\<lambda>i. nkey a i < k) xs"

definition not_below :: "arena \<Rightarrow> mvcc_key \<Rightarrow> nat list \<Rightarrow> nat list" where
  "not_below a k xs = dropWhile (\<lambda>i. nkey a i < k) xs"

definition prev_at :: "arena \<Rightarrow> mvcc_key \<Rightarrow> nat list \<Rightarrow> nat \<Rightarrow> nat" where
  "prev_at a k xs l = last (0 # level a l (below a k xs))"

definition first_of :: "nat list \<Rightarrow> nat" where
  "first_of xs = (case xs of [] \<Rightarrow> 0 | x # _ \<Rightarrow> x)"

lemma first_of_simps [simp]: "first_of [] = 0" "first_of (x # xs) = x"
  by (simp_all add: first_of_def)

lemma below_not_below: "below a k xs @ not_below a k xs = xs"
  by (simp add: below_def not_below_def)

lemma in_below: "i \<in> set (below a k xs) \<Longrightarrow> i \<in> set xs \<and> nkey a i < k"
  unfolding below_def by (blast dest: set_takeWhileD)

lemma in_not_below:
  assumes "sorted_wrt (<) (map (nkey a) xs)" "i \<in> set (not_below a k xs)"
  shows "i \<in> set xs" "\<not> nkey a i < k"
proof -
  have "\<not> nkey a i < k" if "sorted_wrt (<) (map (nkey a) xs)" "i \<in> set (not_below a k xs)" for xs
    using that by (induction xs) (auto simp: not_below_def split: if_splits dest: order.strict_trans)
  with assms show "\<not> nkey a i < k" by blast
  show "i \<in> set xs" using assms(2) unfolding not_below_def by (rule set_dropWhileD)
qed

lemma walk_prev_at:
  assumes rep: "sl_rep s xs" and l: "l < MaxHeight" and m: "l \<le> m"
  defines "a \<equiv> sl_arena s"
  shows "\<exists>nx. next_at a (prev_at a k xs m) l = Some nx \<and>
           level_walk a k l (prev_at a k xs m) nx =
             Some (prev_at a k xs l, first_of (level a l (not_below a k xs)))"
proof -
  let ?A = "level a l (below a k xs)" and ?B = "level a l (not_below a k xs)"
  have nodes: "\<And>i. i \<in> set (0 # xs) \<Longrightarrow> is_node a i"
    and srt: "sorted_wrt (<) (map (nkey a) xs)"
    and lk: "linked a l 0 (?A @ ?B)"
    using rep l below_not_below [of a k xs] level_append [of a l "below a k xs" "not_below a k xs"]
    by (auto simp: sl_rep_def Let_def a_def)
  obtain A1 A2 where A: "?A = A1 @ A2" and p: "prev_at a k xs m = last (0 # A1)"
  proof (cases "prev_at a k xs m = 0")
    case True
    then show thesis using that [of "[]" ?A] by simp
  next
    case False
    then have "level a m (below a k xs) \<noteq> []" by (auto simp: prev_at_def)
    then have "prev_at a k xs m \<in> set (level a m (below a k xs))"
      by (simp add: prev_at_def)
    then have "prev_at a k xs m \<in> set ?A" using m by (auto simp: set_level)
    then obtain A1 A2 where "?A = A1 @ prev_at a k xs m # A2" by (auto simp: in_set_conv_decomp)
    then show thesis using that [of "A1 @ [prev_at a k xs m]" A2] by simp
  qed
  have lk2: "linked a l (last (0 # A1)) (A2 @ ?B)"
    using linked_suffix [of a l 0 A1 "A2 @ ?B"] lk A by simp
  then obtain nx where nx: "next_at a (prev_at a k xs m) l = Some nx"
    using linked_next p by metis
  have mem: "j \<in> set (below a k xs)" if "j \<in> set A2" for j
    using that A set_level [of j a l "below a k xs"] by auto
  have "level_walk a k l (last (0 # A1)) nx =
      Some (last (last (0 # A1) # A2), case ?B of [] \<Rightarrow> 0 | b # _ \<Rightarrow> b)"
  proof (rule level_walk_linked [OF lk2])
    show "is_node a j \<and> nkey a j < k" if "j \<in> set A2" for j
      using in_below [OF mem [OF that]] nodes by simp
    show "is_node a j \<and> \<not> nkey a j < k" if "j \<in> set ?B" for j
      using in_not_below [OF srt] that nodes by (auto simp: set_level)
    show "next_at a (last (0 # A1)) l = Some nx" using nx p by simp
  qed
  moreover have "last (last (0 # A1) # A2) = prev_at a k xs l"
    by (simp add: prev_at_def A)
  ultimately show ?thesis using nx p by (auto simp: first_of_def)
qed

section \<open>Search\<close>

lemma sl_repD:
  assumes "sl_rep s xs"
  shows "arena_inv (sl_arena s)" "ar_blocks (sl_arena s) \<le> 1024" "sl_headIdx s = 0"
    "\<And>i. i \<in> set (0 # xs) \<Longrightarrow> is_node (sl_arena s) i" "distinct (0 # xs)"
    "sorted_wrt (<) (map (nkey (sl_arena s)) xs)"
    "\<And>i. i \<in> set xs \<Longrightarrow> 0 < nht (sl_arena s) i \<and> nht (sl_arena s) i \<le> sl_height s"
    "1 \<le> sl_height s" "sl_height s \<le> MaxHeight"
    "\<And>l. l < MaxHeight \<Longrightarrow> linked (sl_arena s) l 0 (level (sl_arena s) l xs)"
    "sl_length s = int (length (filter (\<lambda>i. \<not> ndel (sl_arena s) i) xs))"
    "sl_lastActive s \<noteq> 0 \<Longrightarrow>
     sl_lastActive s \<in> set xs \<and> \<not> ndel (sl_arena s) (sl_lastActive s)"
  using assms by (auto simp: sl_rep_def Let_def)

lemma level0_not_below:
  "sl_rep s xs \<Longrightarrow> level (sl_arena s) 0 (not_below (sl_arena s) k xs) = not_below (sl_arena s) k xs"
  by (rule level_zero) (use in_not_below(1) sl_repD(6,7) in blast)

lemma prev_at_high:
  assumes "sl_rep s xs" "sl_height s \<le> l"
  shows "prev_at (sl_arena s) k xs l = 0"
proof -
  have "level (sl_arena s) l (below (sl_arena s) k xs) = []"
    using assms(2) in_below sl_repD(7) [OF assms(1)]
    by (fastforce simp: level_def filter_empty_conv not_less)
  then show ?thesis by (simp add: prev_at_def)
qed

lemma prev_at_mem: "prev_at a k xs l \<noteq> 0 \<Longrightarrow> prev_at a k xs l \<in> set xs"
proof -
  assume *: "prev_at a k xs l \<noteq> 0"
  then have ne: "level a l (below a k xs) \<noteq> []" by (auto simp: prev_at_def)
  then have "prev_at a k xs l = last (level a l (below a k xs))" by (simp add: prev_at_def)
  with ne have "prev_at a k xs l \<in> set (level a l (below a k xs))" by simp
  then show ?thesis using in_below set_level by blast
qed

lemma find_ge_prev:
  assumes rep: "sl_rep s xs"
  shows "0 < h \<Longrightarrow> h \<le> MaxHeight \<Longrightarrow>
    find_ge_levels (sl_arena s) k h (prev_at (sl_arena s) k xs h) =
    Some (first_of (not_below (sl_arena s) k xs))"
proof (induction h)
  case (Suc h)
  let ?a = "sl_arena s"
  obtain nx where "next_at ?a (prev_at ?a k xs (Suc h)) h = Some nx"
    "level_walk ?a k h (prev_at ?a k xs (Suc h)) nx =
       Some (prev_at ?a k xs h, first_of (level ?a h (not_below ?a k xs)))"
    using walk_prev_at [OF rep, of h "Suc h" k] Suc.prems by auto
  then show ?case
    using Suc level0_not_below [OF rep] by (cases h) simp_all
qed simp

lemma findGreaterOrEqual_ok:
  assumes rep: "sl_rep s xs"
  shows "findGreaterOrEqualNoEpoch s k = Some (first_of (not_below (sl_arena s) k xs))"
proof -
  have "findGreaterOrEqualNoEpoch s k =
      find_ge_levels (sl_arena s) k (sl_height s) (prev_at (sl_arena s) k xs (sl_height s))"
    using prev_at_high [OF rep, of "sl_height s" k] sl_repD(3) [OF rep]
    by (simp add: findGreaterOrEqualNoEpoch_def)
  then show ?thesis using find_ge_prev [OF rep] sl_repD(8,9) [OF rep] by simp
qed

text \<open>The node with exactly this versioned key, or 0.\<close>

definition exact_at :: "arena \<Rightarrow> mvcc_key \<Rightarrow> nat list \<Rightarrow> nat" where
  "exact_at a k xs =
     (case not_below a k xs of [] \<Rightarrow> 0 | i # _ \<Rightarrow> if nkey a i = k then i else 0)"

lemma not_below_nonzero: "sl_rep s xs \<Longrightarrow> i \<in> set (not_below (sl_arena s) k xs) \<Longrightarrow> i \<noteq> 0"
  using in_not_below(1) [OF sl_repD(6)] sl_repD(5) by fastforce

lemma exact_at_iff:
  assumes rep: "sl_rep s xs"
  shows "exact_at (sl_arena s) k xs = 0 \<longleftrightarrow> k \<notin> nkey (sl_arena s) ` set xs"
    and "exact_at (sl_arena s) k xs \<noteq> 0 \<Longrightarrow>
      exact_at (sl_arena s) k xs \<in> set xs \<and> nkey (sl_arena s) (exact_at (sl_arena s) k xs) = k"
proof -
  let ?a = "sl_arena s" and ?B = "not_below (sl_arena s) k xs"
  note srt = sl_repD(6) [OF rep]
  have split: "set xs = set (below ?a k xs) \<union> set ?B"
    by (metis below_not_below set_append)
  have srtB: "sorted_wrt (<) (map (nkey ?a) ?B)"
    using srt by (metis below_not_below map_append sorted_wrt_append)
  show ne: "exact_at ?a k xs \<in> set xs \<and> nkey ?a (exact_at ?a k xs) = k" if "exact_at ?a k xs \<noteq> 0"
    using that split by (auto simp: exact_at_def split: list.splits if_splits)
  show "exact_at ?a k xs = 0 \<longleftrightarrow> k \<notin> nkey ?a ` set xs"
  proof
    show "exact_at ?a k xs = 0" if "k \<notin> nkey ?a ` set xs"
      using that ne by (metis image_eqI)
  next
    assume z: "exact_at ?a k xs = 0"
    show "k \<notin> nkey ?a ` set xs"
    proof
      assume "k \<in> nkey ?a ` set xs"
      then obtain j where j: "j \<in> set xs" "nkey ?a j = k" by auto
      then have jB: "j \<in> set ?B" using split in_below by fastforce
      then obtain i B' where B: "?B = i # B'" by (cases ?B) auto
      have "nkey ?a i \<noteq> k"
        using z B not_below_nonzero [OF rep, of i k] by (auto simp: exact_at_def split: if_splits)
      with jB B j have "nkey ?a i < k" using srtB by auto
      then show False using in_not_below(2) [OF srt, of i k] B by simp
    qed
  qed
qed

lemma mvcc_key_eq_iff: "k = k' \<longleftrightarrow> mk_key k = mk_key k' \<and> mk_ts k = mk_ts k'"
  by (cases k; cases k') simp

lemma sl_rep_epoch: "sl_rep s xs \<Longrightarrow> sl_rep (s\<lparr>sl_epoch := e\<rparr>) xs"
  by (simp add: sl_rep_def)

lemma sl_rep_Enter: "sl_rep s xs \<Longrightarrow> sl_rep (sl_Enter s) xs"
  "sl_rep s xs \<Longrightarrow> sl_rep (sl_Exit s) xs"
  by (simp_all add: sl_Enter_def sl_Exit_def sl_rep_epoch)

lemma sl_Enter_sel [simp]:
  "sl_arena (sl_Enter s) = sl_arena s" "sl_arena (sl_Exit s) = sl_arena s"
  by (simp_all add: sl_Enter_def sl_Exit_def)

lemma is_node_get:
  "is_node a i \<Longrightarrow> \<exists>n. arena_get a i = Some n \<and> node_Key n = nkey a i \<and> n_deleted n = ndel a i \<and>
     node_Value n = nval a i \<and> n_height n = nht a i"
  by (auto simp: is_node_def nkey_def ndel_def nval_def nht_def)

lemma first_not_below:
  assumes rep: "sl_rep s xs"
  shows "first_of (not_below (sl_arena s) k xs) = 0 \<longleftrightarrow> not_below (sl_arena s) k xs = []"
  using not_below_nonzero [OF rep, of _ k] by (cases "not_below (sl_arena s) k xs") auto

lemma findExact_ok:
  assumes rep: "sl_rep s xs"
  shows "findExact s k =
     Some (if mk_key k = [] then 0 else exact_at (sl_arena s) k xs, sl_Exit (sl_Enter s))"
proof (cases "not_below (sl_arena s) k xs")
  case Nil
  then show ?thesis
    using findGreaterOrEqual_ok [OF sl_rep_Enter(1) [OF rep], of k]
    by (simp add: findExact_def findGreaterOrEqual_def exact_at_def)
next
  case (Cons i B)
  then have i: "i \<in> set xs" "i \<noteq> 0"
    using in_not_below(1) [OF sl_repD(6) [OF rep], of i k] not_below_nonzero [OF rep, of i k] by auto
  then obtain n where "arena_get (sl_arena s) i = Some n" "node_Key n = nkey (sl_arena s) i"
    using is_node_get sl_repD(4) [OF rep, of i] by fastforce
  with Cons i(2) show ?thesis
    using findGreaterOrEqual_ok [OF sl_rep_Enter(1) [OF rep], of k]
    by (auto simp: findExact_def findGreaterOrEqual_def exact_at_def sl_NodeAt_def Let_def
        mvcc_key_eq_iff)
qed

lemma put_search_prev:
  assumes rep: "sl_rep s xs"
  shows "h \<le> MaxHeight \<Longrightarrow> length prevs = MaxHeight \<Longrightarrow>
    put_search (sl_arena s) k h (prev_at (sl_arena s) k xs h) prevs 0 =
    Some (map (\<lambda>l. if l < h then prev_at (sl_arena s) k xs l else prevs ! l) [0..<MaxHeight],
          if 0 < h then exact_at (sl_arena s) k xs else 0)"
proof (induction h arbitrary: prevs)
  case 0
  then show ?case using map_nth [of prevs] by simp
next
  case (Suc h)
  let ?a = "sl_arena s" and ?B = "not_below (sl_arena s) k xs"
  obtain nx where w: "next_at ?a (prev_at ?a k xs (Suc h)) h = Some nx"
    "level_walk ?a k h (prev_at ?a k xs (Suc h)) nx =
       Some (prev_at ?a k xs h, first_of (level ?a h ?B))"
    using walk_prev_at [OF rep, of h "Suc h" k] Suc.prems by auto
  have upd: "map (\<lambda>l. if l < h then prev_at ?a k xs l else prevs[h := prev_at ?a k xs h] ! l)
      [0..<MaxHeight] = map (\<lambda>l. if l < Suc h then prev_at ?a k xs l else prevs ! l) [0..<MaxHeight]"
    using Suc.prems by (auto simp: nth_list_update less_Suc_eq)
  have upd2: "prevs[0 := prev_at ?a k xs 0] =
      map (\<lambda>l. if l = 0 then prev_at ?a k xs l else prevs ! l) [0..<MaxHeight]"
    using Suc.prems by (intro nth_equalityI) auto
  have IH: "put_search ?a k h (prev_at ?a k xs h) (prevs[h := prev_at ?a k xs h]) 0 =
     Some (map (\<lambda>l. if l < Suc h then prev_at ?a k xs l else prevs ! l) [0..<MaxHeight],
           if 0 < h then exact_at ?a k xs else 0)"
    using Suc.IH [of "prevs[h := prev_at ?a k xs h]"] Suc.prems upd by simp
  show ?case
  proof (cases "h = 0")
    case False
    then show ?thesis using w IH by simp
  next
    case True
    then have B: "level ?a h ?B = ?B" using level0_not_below [OF rep] by simp
    show ?thesis
    proof (cases ?B)
      case Nil
      then show ?thesis using w IH True B by (simp add: exact_at_def)
    next
      case (Cons i B')
      then have i: "i \<in> set xs" "i \<noteq> 0"
        using in_not_below(1) [OF sl_repD(6) [OF rep], of i k] not_below_nonzero [OF rep, of i k]
        by auto
      then obtain n where "arena_get ?a i = Some n" "node_Key n = nkey ?a i"
        using is_node_get sl_repD(4) [OF rep, of i] by fastforce
      then show ?thesis
        using w True B Cons i(2)
        by (auto simp: exact_at_def Let_def mvcc_key_eq_iff upd2)
    qed
  qed
qed

lemma del_search_put_search:
  "put_search a k h idx prevs ex = Some (p, e) \<Longrightarrow> del_search a k h idx prevs = Some p"
  by (induction h arbitrary: idx prevs ex) (fastforce split: bind_splits)+

lemma search_prevs:
  fixes k :: mvcc_key
  assumes rep: "sl_rep s xs"
  defines "ps \<equiv> map (prev_at (sl_arena s) k xs) [0..<MaxHeight]"
  shows "put_search (sl_arena s) k (sl_height s) (sl_headIdx s) (replicate MaxHeight (sl_headIdx s)) 0
      = Some (ps, exact_at (sl_arena s) k xs)"
    and "del_search (sl_arena s) k (sl_height s) (sl_headIdx s) (replicate MaxHeight (sl_headIdx s))
      = Some ps"
proof -
  have "map (\<lambda>l. if l < sl_height s then prev_at (sl_arena s) k xs l
        else replicate MaxHeight (sl_headIdx s) ! l) [0..<MaxHeight] = ps"
    using prev_at_high [OF rep] sl_repD(3) [OF rep] by (auto simp: ps_def)
  then show 1: "put_search (sl_arena s) k (sl_height s) (sl_headIdx s)
      (replicate MaxHeight (sl_headIdx s)) 0 = Some (ps, exact_at (sl_arena s) k xs)"
    using put_search_prev [OF rep, of "sl_height s" "replicate MaxHeight (sl_headIdx s)" k]
      prev_at_high [OF rep, of "sl_height s" k] sl_repD(3,8,9) [OF rep] by simp
  show "del_search (sl_arena s) k (sl_height s) (sl_headIdx s)
      (replicate MaxHeight (sl_headIdx s)) = Some ps"
    by (rule del_search_put_search [OF 1])
qed

section \<open>Abstraction and Get\<close>

definition entry :: "arena \<Rightarrow> nat \<Rightarrow> mvcc_key \<times> version" where
  "entry a i = (nkey a i, if ndel a i then Tomb else Live (nval a i))"

definition sl_abs :: "skiplist \<Rightarrow> nat list \<Rightarrow> mem" where
  "sl_abs s xs = map (entry (sl_arena s)) xs"

lemma fst_entry [simp]: "fst (entry a i) = nkey a i"
  by (simp add: entry_def)

lemma map_fst_abs [simp]: "map fst (sl_abs s xs) = map (nkey (sl_arena s)) xs"
  by (simp add: sl_abs_def)

lemma sl_abs_inv: "sl_rep s xs \<Longrightarrow> mem_inv (sl_abs s xs)"
  using sl_repD(6) by (simp add: mem_inv_def)

lemma takeWhile_filter:
  "sorted_wrt R xs \<Longrightarrow> (\<And>x y. x \<in> set xs \<Longrightarrow> y \<in> set xs \<Longrightarrow> R x y \<Longrightarrow> P y \<Longrightarrow> P x) \<Longrightarrow>
   takeWhile P xs = filter P xs"
proof (induction xs)
  case (Cons x xs)
  show ?case
  proof (cases "P x")
    case True
    with Cons show ?thesis by auto
  next
    case False
    then have "\<not> P y" if "y \<in> set xs" for y using that Cons.prems by auto
    with False show ?thesis by (simp add: filter_empty_conv)
  qed
qed simp

lemma get_walk_linked:
  fixes key :: bytes and ts :: u64
  assumes "linked a 0 i xs" "\<And>j. j \<in> set xs \<Longrightarrow> is_node a j"
  defines "P \<equiv> \<lambda>j. mk_key (nkey a j) = key \<and> CommitTS (nkey a j) \<le> ts"
  shows "get_walk a key ts (first_of xs) r f =
    Some (case takeWhile P xs of [] \<Rightarrow> (r, f)
          | ys \<Rightarrow> if ndel a (last ys) then (None, False) else (nval a (last ys), True))"
  using assms(1,2)
proof (induction xs arbitrary: i r f)
  case Nil
  then show ?case by (simp add: get_walk.simps)
next
  case (Cons x xs)
  then have x: "x \<noteq> 0" "linked a 0 x xs" by auto
  obtain n where n: "arena_get a x = Some n" "node_Key n = nkey a x" "n_deleted n = ndel a x"
    "node_Value n = nval a x"
    using Cons.prems(2) [of x] is_node_get by fastforce
  have nn: "next_at a x 0 = Some (first_of xs)"
    using linked_next [OF x(2)] by (simp add: first_of_def)
  have IH: "get_walk a key ts (first_of xs) r f =
    Some (case takeWhile P xs of [] \<Rightarrow> (r, f)
          | ys \<Rightarrow> if ndel a (last ys) then (None, False) else (nval a (last ys), True))" for r f
    using Cons.IH [OF x(2)] Cons.prems(2) by simp
  show ?case
  proof (cases "P x")
    case True
    then have "mk_key (nkey a x) = key" "\<not> ts < CommitTS (nkey a x)"
      by (simp_all add: P_def not_less)
    then have "get_walk a key ts x r f =
        get_walk a key ts (first_of xs) (if ndel a x then None else nval a x) (\<not> ndel a x)"
      using x n nn by (simp add: get_walk.simps [of a key ts x] Let_def)
    with True IH show ?thesis
      by (cases "takeWhile P xs") auto
  next
    case False
    then show ?thesis
      using x n by (auto simp: get_walk.simps [of a key ts x] P_def Let_def not_less)
  qed
qed

lemma not_below_oldest:
  fixes key :: bytes and ts :: u64
  assumes "sorted_wrt (<) (map (nkey a) xs)"
  defines "P \<equiv> \<lambda>j. mk_key (nkey a j) = key \<and> CommitTS (nkey a j) \<le> ts"
  shows "takeWhile P (not_below a (MVCCKey key (- 1)) xs) = filter P xs"
proof -
  let ?k = "MVCCKey key (- 1)" and ?B = "not_below a (MVCCKey key (- 1)) xs"
  have srtB: "sorted_wrt (\<lambda>x y. nkey a x < nkey a y) ?B"
    using assms(1) by (metis below_not_below sorted_wrt_append sorted_wrt_map)
  have "takeWhile P ?B = filter P ?B"
  proof (rule takeWhile_filter [OF srtB])
    fix x y assume xy: "x \<in> set ?B" "y \<in> set ?B" "nkey a x < nkey a y" "P y"
    have "\<not> nkey a x < ?k" using in_not_below(2) [OF assms(1) xy(1)] .
    then have "mk_key (nkey a x) = key"
      using xy(3,4) by (auto simp: mvcc_less_iff P_def)
    moreover have "CommitTS (nkey a x) < CommitTS (nkey a y)"
      using calculation xy(3,4) same_key_less_iff [of "nkey a x" "nkey a y"] by (simp add: P_def)
    ultimately show "P x"
      using xy(4) unfolding P_def by (meson less_imp_le order_trans)
  qed
  moreover have "filter P (below a ?k xs) = []"
  proof -
    have "\<not> P i" if "i \<in> set (below a ?k xs)" for i
    proof -
      have "nkey a i < ?k" using in_below [OF that] ..
      moreover have "\<not> - 1 < mk_ts (nkey a i)" by (simp add: not_less)
      ultimately show ?thesis by (auto simp: P_def mvcc_less_iff)
    qed
    then show ?thesis by (simp add: filter_empty_conv)
  qed
  ultimately show ?thesis
    by (metis append_Nil below_not_below filter_append)
qed

lemma filter_abs:
  "filter (\<lambda>e. Q (fst e)) (sl_abs s xs) = map (entry (sl_arena s)) (filter (\<lambda>i. Q (nkey (sl_arena s) i)) xs)"
  by (simp add: sl_abs_def filter_map comp_def)

lemma linked_from:
  assumes rep: "sl_rep s xs"
  shows "linked (sl_arena s) 0 (last (0 # below (sl_arena s) k xs)) (not_below (sl_arena s) k xs)"
proof -
  have "level (sl_arena s) 0 xs = xs" by (rule level_zero) (use sl_repD(7) [OF rep] in blast)
  moreover have "0 < MaxHeight" by (simp add: MaxHeight_def)
  ultimately have "linked (sl_arena s) 0 0 xs" using sl_repD(10) [OF rep] by metis
  then show ?thesis
    using linked_suffix [of _ _ _ "below (sl_arena s) k xs" "not_below (sl_arena s) k xs"]
    by (simp add: below_not_below)
qed

lemma sl_Get_refines:
  assumes rep: "sl_rep s xs"
  shows "sl_Get s key =
    Some (mem_get (mk_key key) (CommitTS key) (sl_abs s xs), sl_Exit (sl_Enter s))"
proof -
  let ?a = "sl_arena s" and ?k = "MVCCKey (mk_key key) (- 1)"
  let ?B = "not_below ?a ?k xs"
  let ?P = "\<lambda>j. mk_key (nkey ?a j) = mk_key key \<and> CommitTS (nkey ?a j) \<le> CommitTS key"
  have nodeB: "is_node ?a j" if "j \<in> set ?B" for j
    using that in_not_below(1) [OF sl_repD(6) [OF rep]] sl_repD(4) [OF rep] by simp
  have filt: "takeWhile ?P ?B = filter ?P xs"
    by (rule not_below_oldest) (rule sl_repD(6) [OF rep])
  have vis: "mem_visible (mk_key key) (CommitTS key) (sl_abs s xs) = map (entry ?a) (filter ?P xs)"
    using filter_abs [of "\<lambda>k. mk_key k = mk_key key \<and> CommitTS k \<le> CommitTS key" s xs]
    by (simp add: mem_visible_def mem_chain_def conj_commute)
  have fge: "findGreaterOrEqualNoEpoch (sl_Enter s) ?k = Some (first_of ?B)"
    using findGreaterOrEqual_ok [OF sl_rep_Enter(1) [OF rep]] by simp
  show ?thesis
  proof (cases ?B)
    case Nil
    then have "filter ?P xs = []" using filt by simp
    then have "mem_get (mk_key key) (CommitTS key) (sl_abs s xs) = (None, False)"
      by (simp add: mem_get_def mem_version_def vis)
    with Nil fge show ?thesis by (simp add: sl_Get_def Let_def)
  next
    case (Cons b B)
    then have b: "is_node ?a b" "b \<noteq> 0"
      using nodeB not_below_nonzero [OF rep, of b ?k] by auto
    obtain n where n: "arena_get ?a b = Some n" "node_Key n = nkey ?a b"
      using is_node_get [OF b(1)] by blast
    have walk: "get_walk ?a (mk_key key) (CommitTS key) b None False =
        Some (case filter ?P xs of [] \<Rightarrow> (None, False)
          | ys \<Rightarrow> if ndel ?a (last ys) then (None, False) else (nval ?a (last ys), True))"
      using get_walk_linked [OF linked_from [OF rep, of ?k] nodeB, of "mk_key key" "CommitTS key"]
        Cons filt by simp
    have get: "mem_get (mk_key key) (CommitTS key) (sl_abs s xs) =
       (if mk_key key = [] then (None, False) else
        case filter ?P xs of [] \<Rightarrow> (None, False)
          | ys \<Rightarrow> if ndel ?a (last ys) then (None, False) else (nval ?a (last ys), True))"
      unfolding mem_get_def mem_version_def vis
      by (cases "filter ?P xs") (simp_all add: entry_def last_map)
    show ?thesis
    proof (cases "mk_key (nkey ?a b) = [] \<or> mk_key (nkey ?a b) \<noteq> mk_key key")
      case True
      then have "mk_key key = [] \<or> filter ?P xs = []"
        unfolding filt [symmetric] Cons by auto
      then have "mem_get (mk_key key) (CommitTS key) (sl_abs s xs) = (None, False)"
        by (auto simp: get)
      with True fge Cons b n show ?thesis by (auto simp: sl_Get_def sl_NodeAt_def Let_def)
    next
      case False
      then have "mk_key key \<noteq> []" by auto
      with False fge Cons b n walk show ?thesis
        by (simp add: sl_Get_def sl_NodeAt_def Let_def get)
    qed
  qed
qed

section \<open>Insertion\<close>

lemma link_levels_spec:
  assumes "distinct ls" "\<And>l. l \<in> set ls \<Longrightarrow> l < MaxHeight \<and> is_node a (ps ! l) \<and> ps ! l \<noteq> x"
    and "is_node a x"
  shows "\<exists>a'. link_levels ls x ps a = Some a' \<and> same_payload a a' \<and>
    (\<forall>j m. next_at a' j m =
       (if m \<in> set ls then
          if j = x then next_at a (ps ! m) m
          else if j = ps ! m then Some x else next_at a j m
        else next_at a j m))"
  using assms
proof (induction ls arbitrary: a)
  case (Cons l ls)
  have l: "l < MaxHeight" "is_node a (ps ! l)" "ps ! l \<noteq> x" using Cons.prems(2) by auto
  obtain nx where nx: "next_at a (ps ! l) l = Some nx" using next_at_node [OF l(2,1)] by blast
  obtain a1 where a1: "set_next a x l nx = Some a1" "same_payload a a1"
    "\<And>j m. next_at a1 j m = (if j = x \<and> m = l then Some nx else next_at a j m)"
    using set_next_spec [OF Cons.prems(3) l(1)] by metis
  have "is_node a1 (ps ! l)" using same_payload_fields(1) [OF a1(2) l(2)] .
  then obtain a2 where a2: "set_next a1 (ps ! l) l x = Some a2" "same_payload a1 a2"
    "\<And>j m. next_at a2 j m = (if j = ps ! l \<and> m = l then Some x else next_at a1 j m)"
    using set_next_spec [OF _ l(1)] by metis
  have sp: "same_payload a a2" using a1(2) a2(2) by (rule same_payload_trans)
  obtain a' where a': "link_levels ls x ps a2 = Some a'" "same_payload a2 a'"
    "\<forall>j m. next_at a' j m =
       (if m \<in> set ls then
          if j = x then next_at a2 (ps ! m) m
          else if j = ps ! m then Some x else next_at a2 j m
        else next_at a2 j m)"
    using Cons.IH [of a2] Cons.prems same_payload_fields(1) [OF sp] by auto
  have "next_at a' j m =
       (if m \<in> set (l # ls) then
          if j = x then next_at a (ps ! m) m
          else if j = ps ! m then Some x else next_at a j m
        else next_at a j m)" for j m
    using Cons.prems(1) l(3) nx by (auto simp: a'(3) a2(3) a1(3))
  moreover have "link_levels (l # ls) x ps a = Some a'"
    using nx a1(1) a2(1) a'(1) by simp
  ultimately show ?case
    using same_payload_trans [OF sp a'(2)] by blast
qed simp

text \<open>The arena after \<open>NewNode\<close> and the stores to the fields of the new node.\<close>

lemma NewNode_get:
  assumes inv: "arena_inv a" and h: "height < 2 ^ 32"
    and new: "arena_NewNode key val height a = (Ptr p, a')" and bl: "ar_blocks a' \<le> 1024"
    and ext: "\<And>n. node_extent (f n) = node_extent n"
  defines "a2 \<equiv> node_update a' p f"
  shows "arena_inv a2" "ar_blocks a2 = ar_blocks a'"
    "arena_get a2 j = (if j = arena_Index a2 p then Some (f (mk_node key val height)) else arena_get a j)"
    "arena_get a (arena_Index a2 p) = None"
proof -
  note N = NewNode_Ptr [OF inv h new]
  have nodes: "ar_nodes a2 = (ar_nodes a)(p \<mapsto> f (mk_node key val height))"
    using N(3) by (simp add: a2_def node_update_def)
  have sel: "ar_blocks a2 = ar_blocks a'" "ar_blockIdx a2 = ar_blockIdx a'" "ar_head a2 = ar_head a'"
    by (simp_all add: a2_def node_update_def)
  show "ar_blocks a2 = ar_blocks a'" by (rule sel)
  have idx: "arena_NodeAt a2 (arena_Index a2 p) = Some p"
    using NodeAt_Index(1) [of a2 p] bl N(5,6) sel by simp
  have old: "\<exists>m'. ar_nodes a' q = Some m' \<and> node_extent m' = node_extent m"
    if "ar_nodes a2 q = Some m" for q m
    using that nodes N(3) ext by (auto split: if_splits)
  show "arena_inv a2"
  proof (rule arena_invI)
    fix b off m assume "ar_nodes a2 (b, off) = Some m"
    then obtain m' where "ar_nodes a' (b, off) = Some m'" "node_extent m' = node_extent m"
      using old by blast
    with arena_inv_node [OF N(1) this(1)]
    show "b < ar_blocks a2 \<and> off + node_extent m \<le>
        (if b = ar_blockIdx a2 then ar_head a2 else ArenaBlockSize)"
      by (auto simp: sel)
  next
    fix b off off' m m'
    assume "ar_nodes a2 (b, off) = Some m" "ar_nodes a2 (b, off') = Some m'" "off < off'"
    then show "off + node_extent m \<le> off'"
      using old arena_inv_disjoint [OF N(1)] by metis
  qed (use N(1) in \<open>auto simp: sel arena_inv_def\<close>)
  have none: "ar_nodes a (b, off) = None" if "\<not> b < ar_blocks a" for b off
    using that arena_inv_node(1) [OF inv, of b off] by (cases "ar_nodes a (b, off)") auto
  have geta: "arena_get a j = ar_nodes a (j div ArenaBlockSize, j mod ArenaBlockSize)" for j
    using none [of "j div ArenaBlockSize" "j mod ArenaBlockSize"]
    by (auto simp: arena_get_def arena_NodeAt_def Let_def not_le split: option.split)
  have none2: "ar_nodes a2 (b, off) = None" if "\<not> b < ar_blocks a2" for b off
    using that arena_inv_node(1) [OF \<open>arena_inv a2\<close>, of b off] by (cases "ar_nodes a2 (b, off)") auto
  have geta2: "arena_get a2 j = ar_nodes a2 (j div ArenaBlockSize, j mod ArenaBlockSize)" for j
    using none2 [of "j div ArenaBlockSize" "j mod ArenaBlockSize"]
    by (auto simp: arena_get_def arena_NodeAt_def Let_def not_le split: option.split)
  have p: "p = (arena_Index a2 p div ArenaBlockSize, arena_Index a2 p mod ArenaBlockSize)"
    using idx by (auto simp: arena_NodeAt_def Let_def split: if_splits)
  show "arena_get a2 j = (if j = arena_Index a2 p then Some (f (mk_node key val height)) else arena_get a j)"
  proof (cases "j = arena_Index a2 p")
    case True
    then show ?thesis using geta2 nodes p by simp
  next
    case False
    then have "(j div ArenaBlockSize, j mod ArenaBlockSize) \<noteq> p"
      using p by (metis div_mult_mod_eq prod.inject)
    then show ?thesis using geta geta2 nodes False by simp
  qed
  show "arena_get a (arena_Index a2 p) = None"
    using geta p N(2) by simp
qed

lemma sorted_wrt_insert:
  assumes "sorted_wrt (<) (map f (xs @ ys))" "\<And>i. i \<in> set xs \<Longrightarrow> f i < f x"
    and "\<And>i. i \<in> set ys \<Longrightarrow> f x < f i"
  shows "sorted_wrt (<) (map f (xs @ x # ys))"
  using assms by (auto simp: sorted_wrt_append)

lemma mem_insert_split:
  "(\<And>e. e \<in> set xs \<Longrightarrow> fst e < k) \<Longrightarrow> (\<And>e. e \<in> set ys \<Longrightarrow> \<not> fst e < k) \<Longrightarrow>
   mem_insert k v (xs @ ys) = xs @ (k, v) # ys"
proof (induction xs)
  case Nil
  then show ?case by (cases ys) auto
qed auto

text \<open>The nodes below a key, a new node and the others: their order, their levels and their number.\<close>

lemma set_below: "j \<in> set (below a k xs) \<or> j \<in> set (not_below a k xs) \<longleftrightarrow> j \<in> set xs"
  by (metis Un_iff set_append below_not_below)

lemma below_subset: "set (below a k xs) \<subseteq> set xs" "set (not_below a k xs) \<subseteq> set xs"
  using set_below by fast+

lemma insert_sorted:
  assumes sorted: "sorted_wrt (<) (map (nkey a) xs)" and new: "k \<notin> nkey a ` set xs"
    and key: "\<And>j. j \<in> set xs \<Longrightarrow> key j = nkey a j" "key x = k"
  shows "sorted_wrt (<) (map key (below a k xs @ x # not_below a k xs))"
proof (rule sorted_wrt_insert)
  have "map key (below a k xs @ not_below a k xs) = map (nkey a) (below a k xs @ not_below a k xs)"
    by (rule map_cong [OF refl]) (use key(1) set_below [of _ a k xs] in auto)
  then show "sorted_wrt (<) (map key (below a k xs @ not_below a k xs))"
    using sorted by (simp only: below_not_below)
  show "key i < key x" if "i \<in> set (below a k xs)" for i
    using in_below [OF that] key set_below [of i a k xs] that by auto
  show "key x < key i" if "i \<in> set (not_below a k xs)" for i
    using in_not_below(2) [OF sorted that] key set_below [of i a k xs] that new by (metis image_eqI neqE)
qed

lemma insert_level:
  assumes "\<And>j. j \<in> set xs \<Longrightarrow> nht a3 j = nht a j" "nht a3 x = height"
  shows "level a3 l (below a k xs @ x # not_below a k xs) =
    level a l (below a k xs) @ (if l < height then [x] else []) @ level a l (not_below a k xs)"
proof -
  have "level a3 l zs = level a l zs" if "set zs \<subseteq> set xs" for zs
    using that assms(1) unfolding level_def by (intro filter_cong refl) auto
  moreover note below_subset [of a k xs]
  ultimately show ?thesis using assms(2) by (simp add: level_def)
qed

lemma insert_count:
  assumes "\<And>j. j \<in> set xs \<Longrightarrow> ndel a3 j = ndel a j"
  shows "length (filter (\<lambda>i. \<not> ndel a3 i) (below a k xs @ x # not_below a k xs)) =
    length (filter (\<lambda>i. \<not> ndel a i) xs) + (if ndel a3 x then 0 else 1)"
proof -
  have "filter (\<lambda>i. \<not> ndel a3 i) zs = filter (\<lambda>i. \<not> ndel a i) zs" if "set zs \<subseteq> set xs" for zs
    by (rule filter_cong [OF refl]) (use that assms in auto)
  moreover note below_subset [of a k xs]
  moreover have "filter (\<lambda>i. \<not> ndel a i) xs =
      filter (\<lambda>i. \<not> ndel a i) (below a k xs) @ filter (\<lambda>i. \<not> ndel a i) (not_below a k xs)"
    by (metis below_not_below filter_append)
  ultimately show ?thesis by simp
qed

lemma insert_linked_level:
  assumes base: "linked a l 0 (level a l xs)" and dist: "distinct (0 # xs)" and x: "x \<notin> set (0 # xs)"
    and lev: "level a3 l ys = level a l (below a k xs) @ (if l < height then [x] else []) @ level a l (not_below a k xs)"
    and nx: "\<And>j. j \<noteq> x \<or> l < height \<Longrightarrow> next_at a3 j l =
      (if l < height then
         if j = x then next_at a (prev_at a k xs l) l else if j = prev_at a k xs l then Some x else next_at a j l
       else next_at a j l)"
  shows "linked a3 l 0 (level a3 l ys)"
proof -
  let ?A = "level a l (below a k xs)" and ?B = "level a l (not_below a k xs)"
  have sub: "set ?A \<subseteq> set xs" "set ?B \<subseteq> set xs" using below_subset [of a k xs] by (auto simp: set_level)
  have b: "linked a l 0 (?A @ ?B)" using base by (metis below_not_below level_append)
  have "distinct (?A @ ?B)" using dist by (metis below_not_below distinct.simps(2) distinct_filter level_append level_def)
  then have d: "distinct (0 # ?A @ ?B)" using sub dist by auto
  have xn: "x \<notin> set (0 # ?A @ ?B)" "x \<noteq> 0" using sub x by auto
  show ?thesis
  proof (cases "l < height")
    case True
    have "linked a3 l 0 (?A @ x # ?B)"
    proof (rule linked_insert [OF b d xn])
      show "next_at a3 j l = (if j = x then next_at a (last (0 # ?A)) l
            else if j = last (0 # ?A) then Some x else next_at a j l)" for j
        using True nx by (auto simp: prev_at_def)
    qed
    with True lev show ?thesis by simp
  next
    case False
    have "linked a3 l 0 (?A @ ?B)"
    proof (rule linked_cong [OF b])
      fix j assume "j \<in> set (0 # ?A @ ?B)"
      then have "j \<noteq> x" using xn(1) by blast
      then show "next_at a3 j l = next_at a j l" using False nx by simp
    qed
    with False lev show ?thesis by simp
  qed
qed

lemma insert_entries:
  assumes sorted: "sorted_wrt (<) (map (nkey a) xs)" and old: "\<And>j. j \<in> set xs \<Longrightarrow> entry a2 j = entry a j" and new: "entry a2 x = (k, v)"
  shows "map (entry a2) (below a k xs @ x # not_below a k xs) = mem_insert k v (map (entry a) xs)"
proof -
  have "map (entry a2) (below a k xs @ x # not_below a k xs) =
      map (entry a) (below a k xs) @ (k, v) # map (entry a) (not_below a k xs)"
    using old new below_subset [of a k xs] by (simp add: subset_iff)
  also have "\<dots> = mem_insert k v (map (entry a) (below a k xs) @ map (entry a) (not_below a k xs))"
    by (rule mem_insert_split [symmetric]) (use in_below in_not_below(2) [OF sorted] in auto)
  also have "map (entry a) (below a k xs) @ map (entry a) (not_below a k xs) = map (entry a) xs"
    by (metis below_not_below map_append)
  finally show ?thesis .
qed

text \<open>An arena that differs in \<open>x\<close> only, which was no node before, has the old nodes.\<close>

lemma old_nodes:
  assumes old: "\<forall>j. j \<noteq> x \<longrightarrow> arena_get a2 j = arena_get a j" and fresh: "arena_get a x = None" and j: "is_node a j"
  shows "is_node a2 j" "nkey a2 j = nkey a j" "nht a2 j = nht a j" "ndel a2 j = ndel a j"
    "nval a2 j = nval a j" "j \<noteq> x" "next_at a2 j m = next_at a j m"
proof -
  show "j \<noteq> x" using fresh j by (auto simp: is_node_def)
  with old j show "is_node a2 j" "nkey a2 j = nkey a j" "nht a2 j = nht a j"
    "ndel a2 j = ndel a j" "nval a2 j = nval a j" "next_at a2 j m = next_at a j m"
    by (simp_all add: is_node_def nkey_def nht_def ndel_def nval_def next_at_def)
qed

text \<open>
  Linking a new node \<open>x\<close> with key \<open>k\<close> into an arena \<open>a2\<close> that agrees with the old one
  elsewhere gives a representation of the list with \<open>x\<close> at its place.
\<close>

lemma insert_linked:
  assumes rep: "sl_rep s xs" and new: "k \<notin> nkey (sl_arena s) ` set xs"
    and inv: "arena_inv a2" "ar_blocks a2 \<le> 1024"
    and old: "\<And>j. j \<noteq> x \<Longrightarrow> arena_get a2 j = arena_get (sl_arena s) j"
    and fresh: "arena_get (sl_arena s) x = None"
    and node: "is_node a2 x" "nkey a2 x = k" "nht a2 x = height"
    and h: "1 \<le> height" "height \<le> MaxHeight"
  defines "ps \<equiv> map (prev_at (sl_arena s) k xs) [0..<MaxHeight]"
    and "ys \<equiv> below (sl_arena s) k xs @ x # not_below (sl_arena s) k xs"
  shows "\<exists>a3. link_levels [0..<height] x ps a2 = Some a3 \<and> same_payload a2 a3 \<and> x \<noteq> 0 \<and>
    (\<forall>la. (la \<noteq> 0 \<longrightarrow> la \<in> set ys \<and> \<not> ndel a3 la) \<longrightarrow>
      sl_rep (s\<lparr>sl_arena := a3, sl_height := max height (sl_height s),
                sl_length := sl_length s + (if ndel a2 x then 0 else 1), sl_lastActive := la\<rparr>) ys)"
    and "map (entry a2) ys =
      mem_insert k (if ndel a2 x then Tomb else Live (nval a2 x)) (sl_abs s xs)"
proof -
  let ?a = "sl_arena s"
  let ?A = "below ?a k xs" and ?B = "not_below ?a k xs"
  note R = sl_repD [OF rep]
  have xs: "xs = ?A @ ?B" by (simp add: below_not_below)
  have "\<forall>j. j \<noteq> x \<longrightarrow> arena_get a2 j = arena_get ?a j" using old by blast
  note nodes = old_nodes [OF this fresh R(4)]
  have x0: "x \<noteq> 0" using nodes(6) [of 0] by simp
  have psl: "ps ! l = prev_at ?a k xs l" if "l < MaxHeight" for l using that by (simp add: ps_def)
  have pmem: "prev_at ?a k xs l \<in> set (0 # xs)" for l using prev_at_mem [of ?a k xs l] by auto
  have ls: "l < MaxHeight \<and> is_node a2 (ps ! l) \<and> ps ! l \<noteq> x" if "l \<in> set [0..<height]" for l
  proof -
    have "l < MaxHeight" using that h(2) by simp
    with psl nodes(1,6) [OF pmem] show ?thesis by simp
  qed
  obtain a3 where a3: "link_levels [0..<height] x ps a2 = Some a3" "same_payload a2 a3"
    and nx: "\<And>j m. next_at a3 j m =
       (if m \<in> set [0..<height] then
          if j = x then next_at a2 (ps ! m) m
          else if j = ps ! m then Some x else next_at a2 j m
        else next_at a2 j m)"
    using link_levels_spec [OF distinct_upt ls node(1)] by blast
  have AB: "j \<in> set xs" if "j \<in> set ?A \<or> j \<in> set ?B" for j
    using that xs by (metis Un_iff set_append)
  have node2: "is_node a2 j" if "j \<in> set (0 # ys)" for j
    using that nodes(1) [of j] node(1) AB [of j] by (auto simp: ys_def)
  have f3: "is_node a3 j" "nkey a3 j = nkey a2 j" "nht a3 j = nht a2 j" "ndel a3 j = ndel a2 j"
    if "j \<in> set (0 # ys)" for j
    using same_payload_fields [OF a3(2) node2 [OF that]] by simp_all
  have old3: "nkey a3 j = nkey ?a j" "nht a3 j = nht ?a j" "ndel a3 j = ndel ?a j" if "j \<in> set xs" for j
    using f3 [of j] nodes [of j] that set_below [of j ?a k xs] by (auto simp: ys_def)
  have new3: "nkey a3 x = k" "nht a3 x = height" "ndel a3 x = ndel a2 x" using f3 [of x] node by (auto simp: ys_def)
  have xn: "x \<notin> set (0 # xs)" using nodes(6) by blast
  have sorted3: "sorted_wrt (<) (map (nkey a3) ys)"
    unfolding ys_def by (rule insert_sorted [OF R(6) new old3(1) new3(1)])
  have nx_old: "next_at a2 j m = next_at ?a j m" if "j \<noteq> x" for j m
    using old [OF that] by (simp add: next_at_def)
  have linked3: "linked a3 l 0 (level a3 l ys)" if l: "l < MaxHeight" for l
  proof (rule insert_linked_level [OF R(10) [OF l] R(5) xn, where k = k])
    show "level a3 l ys = level ?a l ?A @ (if l < height then [x] else []) @ level ?a l ?B"
      unfolding ys_def by (rule insert_level [OF old3(2) new3(2)])
    show "next_at a3 j l = (if l < height then
        if j = x then next_at ?a (prev_at ?a k xs l) l else if j = prev_at ?a k xs l then Some x else next_at ?a j l
      else next_at ?a j l)" if "j \<noteq> x \<or> l < height" for j
      using that nx psl [OF l] nx_old nodes(6) [OF pmem] by auto
  qed
  have count: "length (filter (\<lambda>i. \<not> ndel a3 i) ys) = length (filter (\<lambda>i. \<not> ndel ?a i) xs) + (if ndel a2 x then 0 else 1)"
    using insert_count [OF old3(3), where xs = xs and k = k and x = x] unfolding ys_def new3(3) by simp
  have dist3: "distinct (0 # ys)"
  proof -
    have "distinct (?A @ ?B)" "0 \<notin> set (?A @ ?B)" "x \<notin> set (?A @ ?B)"
      using R(5) xs nodes(6) AB by auto
    then show ?thesis using x0 by (auto simp: ys_def)
  qed
  have nodes3: "is_node a3 j" if "j \<in> set (0 # ys)" for j using f3(1) [OF that] .
  have ht3: "0 < nht a3 j \<and> nht a3 j \<le> max height (sl_height s)" if "j \<in> set ys" for j
    using that f3(3) [of j] nodes(3) [of j] node(3) h(1) R(7) [of j] AB [of j]
    by (auto simp: ys_def max_def)
  have inv3: "arena_inv a3" "ar_blocks a3 \<le> 1024"
    using a3(2) inv by (auto simp: same_payload_def)
  show "\<exists>a3. link_levels [0..<height] x ps a2 = Some a3 \<and> same_payload a2 a3 \<and> x \<noteq> 0 \<and>
    (\<forall>la. (la \<noteq> 0 \<longrightarrow> la \<in> set ys \<and> \<not> ndel a3 la) \<longrightarrow>
      sl_rep (s\<lparr>sl_arena := a3, sl_height := max height (sl_height s),
                sl_length := sl_length s + (if ndel a2 x then 0 else 1), sl_lastActive := la\<rparr>) ys)"
    using a3 x0 inv3 nodes3 dist3 sorted3 ht3 linked3 count R(3,8,9,11) h
    by (intro exI [of _ a3]) (simp add: sl_rep_def Let_def max_def)
  have "entry a2 j = entry ?a j" if "j \<in> set xs" for j
    using nodes [of j] that by (simp add: entry_def)
  moreover have "entry a2 x = (k, if ndel a2 x then Tomb else Live (nval a2 x))" using node(2) by (simp add: entry_def)
  ultimately show "map (entry a2) ys =
      mem_insert k (if ndel a2 x then Tomb else Live (nval a2 x)) (sl_abs s xs)"
    unfolding ys_def sl_abs_def by (rule insert_entries [OF R(6)])
qed

section \<open>Put and the deletes\<close>

lemma random_height_loop_bounds:
  "1 \<le> h \<Longrightarrow> h \<le> MaxHeight \<Longrightarrow>
   h \<le> random_height_loop rnd h \<and> random_height_loop rnd h \<le> MaxHeight"
proof (induction rnd h rule: random_height_loop.induct)
  case (1 rnd h)
  then show ?case by (subst (1 2) random_height_loop.simps) auto
qed

lemma randomHeight_bounds: "1 \<le> randomHeight rnd" "randomHeight rnd \<le> MaxHeight"
  using random_height_loop_bounds [of 1 rnd] by (simp_all add: randomHeight_def MaxHeight_def)

text \<open>The key of the cached last active node.\<close>

definition sl_cached :: "skiplist \<Rightarrow> mvcc_key option" where
  "sl_cached s =
     (if sl_lastActive s = 0 then None else Some (nkey (sl_arena s) (sl_lastActive s)))"

lemma updateLastActive_ok:
  assumes "is_node (sl_arena s) x" "x \<noteq> 0"
    and "sl_lastActive s \<noteq> 0 \<Longrightarrow> is_node (sl_arena s) (sl_lastActive s)"
  shows "\<exists>la. updateLastActive x s = Some (s\<lparr>sl_lastActive := la\<rparr>) \<and>
    la = (if ndel (sl_arena s) x \<or>
            sl_lastActive s \<noteq> 0 \<and> \<not> nkey (sl_arena s) (sl_lastActive s) < nkey (sl_arena s) x
          then sl_lastActive s else x)"
proof -
  obtain n where n: "arena_get (sl_arena s) x = Some n" "n_deleted n = ndel (sl_arena s) x"
    "node_Key n = nkey (sl_arena s) x"
    using is_node_get [OF assms(1)] by blast
  show ?thesis
  proof (cases "n_deleted n \<or> sl_lastActive s = 0")
    case True
    with n show ?thesis
      by (cases "n_deleted n") (simp_all add: updateLastActive_def sl_NodeAt_def)
  next
    case False
    then obtain m where "arena_get (sl_arena s) (sl_lastActive s) = Some m"
      "node_Key m = nkey (sl_arena s) (sl_lastActive s)"
      using is_node_get assms(3) by blast
    with False n show ?thesis
      by (cases "nkey (sl_arena s) (sl_lastActive s) < nkey (sl_arena s) x")
        (simp_all add: updateLastActive_def sl_NodeAt_def)
  qed
qed

lemma node_update_update: "node_update (node_update a p f) p g = node_update a p (g \<circ> f)"
  by (simp add: node_update_def option.map_comp)

lemma node_Key_mk_node:
  "node_Key ((mk_node key val h)\<lparr>n_ts := ts, n_deleted := d\<rparr>) = MVCCKey key ts"
  using node_read_back(1) [of key val h] by (auto simp: node_Key_def)

lemma node_Value_mk_node:
  "node_Value ((mk_node key val h)\<lparr>n_ts := ts, n_deleted := d\<rparr>) = (if d then None else val)"
  using node_read_back(3) [of key val h] by (auto simp: node_Value_def mk_node_def)

text \<open>
  The common tail of \<open>Put\<close> and \<open>DeleteWithTS\<close>: allocate, initialise, link, and refresh the
  cache of the last active node.
\<close>

lemma insert_tail:
  fixes k :: mvcc_key and f :: "node \<Rightarrow> node"
  assumes rep: "sl_rep s xs" and absent: "k \<notin> nkey (sl_arena s) ` set xs"
    and room: "ar_blocks (sl_arena s) < 1024"
    and fit: "node_size (mk_key k) val + 7 \<le> ArenaBlockSize"
    and h: "1 \<le> height" "height \<le> MaxHeight"
    and f: "\<And>key v h. f (mk_node key v h) = (mk_node key v h)\<lparr>n_ts := mk_ts k, n_deleted := d\<rparr>"
    and ext: "\<And>n. node_extent (f n) = node_extent n"
  defines "s1 \<equiv> s\<lparr>sl_height := max height (sl_height s)\<rparr>"
    and "ps \<equiv> map (prev_at (sl_arena s) k xs) [0..<MaxHeight]"
  shows "\<exists>p a a3 la ys.
    arena_NewNode (mk_key k) val height (sl_arena s) = (Ptr p, a) \<and>
    link_levels [0..<height] (arena_Index (node_update a p f) p) ps (node_update a p f) = Some a3 \<and>
    updateLastActive (arena_Index (node_update a p f) p) (s1\<lparr>sl_arena := a3\<rparr>) =
      Some (s1\<lparr>sl_arena := a3, sl_lastActive := la\<rparr>) \<and>
    sl_rep (s1\<lparr>sl_arena := a3, sl_lastActive := la,
              sl_length := sl_length s + (if d then 0 else 1)\<rparr>) ys \<and>
    sl_abs (s1\<lparr>sl_arena := a3, sl_lastActive := la,
              sl_length := sl_length s + (if d then 0 else 1)\<rparr>) ys =
      mem_insert k (if d then Tomb else Live val) (sl_abs s xs) \<and>
    sl_cached (s1\<lparr>sl_arena := a3, sl_lastActive := la,
              sl_length := sl_length s + (if d then 0 else 1)\<rparr>) =
      (if d then sl_cached s else last_put k (sl_cached s)) \<and>
    ar_blocks a3 \<le> ar_blocks (sl_arena s) + 1"
proof -
  note R = sl_repD [OF rep]
  have h32: "height < 2 ^ 32" using h(2) by (simp add: MaxHeight_def)
  obtain p a where new: "arena_NewNode (mk_key k) val height (sl_arena s) = (Ptr p, a)"
    and bl: "ar_blocks a \<le> ar_blocks (sl_arena s) + 1"
    by (rule NewNode_total [OF R(1) h32 fit])
  have bl': "ar_blocks a \<le> 1024" using bl room by simp
  let ?a2 = "node_update a p f"
  let ?x = "arena_Index ?a2 p" and ?n = "f (mk_node (mk_key k) val height)"
  note G = NewNode_get [OF R(1) h32 new bl' ext]
  have x: "arena_get ?a2 ?x = Some ?n" using G(3) [of ?x] by simp
  have node: "is_node ?a2 ?x" "nkey ?a2 ?x = k" "nht ?a2 ?x = height" "ndel ?a2 ?x = d"
    "nval ?a2 ?x = (if d then None else val)"
    using x by (simp_all add: is_node_def nkey_def nht_def ndel_def nval_def f
        node_Key_mk_node node_Value_mk_node) (simp_all add: mk_node_def)
  have old: "arena_get ?a2 j = arena_get (sl_arena s) j" if "j \<noteq> ?x" for j
    using G(3) [of j] that by simp
  have bl2: "ar_blocks ?a2 \<le> 1024" using G(2) bl' by simp
  let ?ys = "below (sl_arena s) k xs @ ?x # not_below (sl_arena s) k xs"
  note I = insert_linked [OF rep absent G(1) bl2 old G(4) node(1-3) h, folded ps_def]
  obtain a3 where a3: "link_levels [0..<height] ?x ps ?a2 = Some a3" "same_payload ?a2 a3" "?x \<noteq> 0"
    and rep3: "\<And>la. (la \<noteq> 0 \<longrightarrow> la \<in> set ?ys \<and> \<not> ndel a3 la) \<Longrightarrow>
      sl_rep (s\<lparr>sl_arena := a3, sl_height := max height (sl_height s),
                sl_length := sl_length s + (if d then 0 else 1), sl_lastActive := la\<rparr>) ?ys"
    using I(1) node(4) by auto
  have la_old: "sl_lastActive s \<noteq> 0 \<Longrightarrow> sl_lastActive s \<in> set ?ys \<and> \<not> ndel a3 (sl_lastActive s) \<and>
      is_node a3 (sl_lastActive s) \<and> nkey a3 (sl_lastActive s) = nkey (sl_arena s) (sl_lastActive s)"
  proof -
    assume nz: "sl_lastActive s \<noteq> 0"
    from R(12) [OF nz] have la: "sl_lastActive s \<in> set xs" "\<not> ndel (sl_arena s) (sl_lastActive s)" by auto
    then have nd: "is_node (sl_arena s) (sl_lastActive s)" using R(4) by simp
    then have "sl_lastActive s \<noteq> ?x" using G(4) by (auto simp: is_node_def)
    then have "is_node ?a2 (sl_lastActive s)" "\<not> ndel ?a2 (sl_lastActive s)"
      "nkey ?a2 (sl_lastActive s) = nkey (sl_arena s) (sl_lastActive s)"
      using nd old la(2) by (simp_all add: is_node_def ndel_def nkey_def)
    moreover have "sl_lastActive s \<in> set ?ys"
      using la(1) below_not_below [of "sl_arena s" k xs]
      by (metis Un_iff insert_iff list.set(2) set_append)
    ultimately show ?thesis using same_payload_fields [OF a3(2)] by simp
  qed
  have x3: "is_node a3 ?x" "ndel a3 ?x = d" "nkey a3 ?x = k"
    using same_payload_fields [OF a3(2) node(1)] node(2,4) by simp_all
  have la0: "sl_lastActive (s1\<lparr>sl_arena := a3\<rparr>) = sl_lastActive s" by (simp add: s1_def)
  let ?s3 = "s1\<lparr>sl_arena := a3\<rparr>"
  obtain la where la1: "updateLastActive ?x ?s3 = Some (?s3\<lparr>sl_lastActive := la\<rparr>)"
    and la2: "la = (if ndel (sl_arena ?s3) ?x \<or> sl_lastActive ?s3 \<noteq> 0 \<and>
        \<not> nkey (sl_arena ?s3) (sl_lastActive ?s3) < nkey (sl_arena ?s3) ?x
      then sl_lastActive ?s3 else ?x)"
    using updateLastActive_ok [of ?s3 ?x] x3(1) a3(3) la_old la0 by (simp only: la0) auto
  have la: "updateLastActive ?x ?s3 = Some (?s3\<lparr>sl_lastActive := la\<rparr>)"
    "la = (if d \<or> sl_lastActive s \<noteq> 0 \<and> \<not> nkey a3 (sl_lastActive s) < k
           then sl_lastActive s else ?x)"
    using la1 la2 x3 la0 by simp_all
  have la_ok: "la \<noteq> 0 \<longrightarrow> la \<in> set ?ys \<and> \<not> ndel a3 la"
    using la(2) la_old x3 by (auto split: if_splits)
  have cached: "sl_cached (s1\<lparr>sl_arena := a3, sl_lastActive := la,
              sl_length := sl_length s + (if d then 0 else 1)\<rparr>) =
      (if d then sl_cached s else last_put k (sl_cached s))"
    using la(2) la_old x3 a3(3) by (auto simp: sl_cached_def last_put_def)
  from rep3 [OF la_ok] have rep': "sl_rep (s1\<lparr>sl_arena := a3, sl_lastActive := la,
              sl_length := sl_length s + (if d then 0 else 1)\<rparr>) ?ys"
    by (simp add: s1_def sl_rep_def Let_def)
  have "entry a3 j = entry ?a2 j" if "j \<in> set ?ys" for j
  proof -
    have "is_node ?a2 j"
    proof (cases "j = ?x")
      case False
      then have "j \<in> set xs" using that below_not_below [of "sl_arena s" k xs]
        by (metis Un_iff insert_iff list.set(2) set_append)
      then show ?thesis using R(4) [of j] old [OF False] by (simp add: is_node_def)
    qed (use node(1) in simp)
    then show ?thesis using same_payload_fields [OF a3(2)] by (simp add: entry_def)
  qed
  then have "map (entry a3) ?ys = map (entry ?a2) ?ys" by (intro map_cong) auto
  also note I(2)
  also have "(if ndel ?a2 ?x then Tomb else Live (nval ?a2 ?x)) = (if d then Tomb else Live val)"
    using node(4,5) by simp
  finally have "map (entry a3) ?ys = mem_insert k (if d then Tomb else Live val) (sl_abs s xs)" .
  moreover have "ar_blocks a3 \<le> ar_blocks (sl_arena s) + 1"
    using a3(2) G(2) bl by (simp add: same_payload_def)
  ultimately show ?thesis
    using new a3(1) la(1) rep' cached
    by (intro exI [of _ p] exI [of _ a] exI [of _ a3] exI [of _ la] exI [of _ ?ys] conjI)
      (simp_all add: sl_abs_def)
qed

lemma mem_has_abs: "mem_has k (sl_abs s xs) \<longleftrightarrow> k \<in> nkey (sl_arena s) ` set xs"
  by (metis list.set_map map_fst_abs mem_has_def)

lemma height_if: "(if height > sl_height s then s\<lparr>sl_height := height\<rparr> else s) =
    s\<lparr>sl_height := max height (sl_height s)\<rparr>"
  by (simp add: max_def)

lemma sl_Put_refines:
  assumes rep: "sl_rep s xs" and room: "ar_blocks (sl_arena s) < 1024"
    and fit: "node_size (mk_key k) val + 7 \<le> ArenaBlockSize"
  shows "\<exists>s' ys. sl_Put rnd k val s = Some (fst (mem_put k val (sl_abs s xs)), s') \<and>
    sl_rep s' ys \<and> sl_abs s' ys = snd (mem_put k val (sl_abs s xs)) \<and>
    sl_cached s' = (if mem_has k (sl_abs s xs) then sl_cached s else last_put k (sl_cached s)) \<and>
    ar_blocks (sl_arena s') \<le> ar_blocks (sl_arena s) + 1"
proof (cases "mem_has k (sl_abs s xs)")
  case True
  then have "exact_at (sl_arena s) k xs \<noteq> 0"
    using exact_at_iff(1) [OF rep] by (simp add: mem_has_abs)
  with True rep show ?thesis
    by (auto simp: sl_Put_def search_prevs(1) [OF rep] mem_put_def Let_def)
next
  case False
  then have absent: "k \<notin> nkey (sl_arena s) ` set xs" by (simp add: mem_has_abs)
  then have ex: "exact_at (sl_arena s) k xs = 0" using exact_at_iff(1) [OF rep] by simp
  let ?s1 = "s\<lparr>sl_height := max (randomHeight rnd) (sl_height s)\<rparr>"
  let ?f = "\<lambda>n. n\<lparr>n_ts := mk_ts k\<rparr>" and ?ps = "map (prev_at (sl_arena s) k xs) [0..<MaxHeight]"
  obtain p a a3 la ys where T:
    "arena_NewNode (mk_key k) val (randomHeight rnd) (sl_arena s) = (Ptr p, a)"
    "link_levels [0..<randomHeight rnd] (arena_Index (node_update a p ?f) p) ?ps
       (node_update a p ?f) = Some a3"
    "updateLastActive (arena_Index (node_update a p ?f) p) (?s1\<lparr>sl_arena := a3\<rparr>) =
      Some (?s1\<lparr>sl_arena := a3, sl_lastActive := la\<rparr>)"
    "sl_rep (?s1\<lparr>sl_arena := a3, sl_lastActive := la, sl_length := sl_length s + 1\<rparr>) ys"
    "sl_abs (?s1\<lparr>sl_arena := a3, sl_lastActive := la, sl_length := sl_length s + 1\<rparr>) ys =
      mem_insert k (Live val) (sl_abs s xs)"
    "sl_cached (?s1\<lparr>sl_arena := a3, sl_lastActive := la, sl_length := sl_length s + 1\<rparr>) =
      last_put k (sl_cached s)"
    "ar_blocks a3 \<le> ar_blocks (sl_arena s) + 1"
    using insert_tail [OF rep absent room fit randomHeight_bounds, of ?f False rnd]
    by (auto simp: mk_node_def)
  have "sl_Put rnd k val s = Some (True,
      ?s1\<lparr>sl_arena := a3, sl_lastActive := la, sl_length := sl_length s + 1\<rparr>)"
    using ex T(1-3) by (simp add: sl_Put_def search_prevs(1) [OF rep] Let_def height_if)
  with T(4-7) False show ?thesis by (auto simp: mem_put_def)
qed

lemma sl_mark_refines:
  assumes rep: "sl_rep s xs" and x: "x \<in> set xs"
  shows "\<exists>s'. sl_mark x s = Some (\<not> ndel (sl_arena s) x, s') \<and> sl_rep s' xs \<and>
    sl_abs s' xs = mem_mark (nkey (sl_arena s) x) (sl_abs s xs) \<and>
    sl_cached s' = last_drop (nkey (sl_arena s) x) (sl_cached s) \<and>
    ar_blocks (sl_arena s') = ar_blocks (sl_arena s)"
proof -
  let ?a = "sl_arena s"
  note R = sl_repD [OF rep]
  have x0: "x \<noteq> 0" and nx: "is_node ?a x" using R(4) [of x] R(5) x by (metis distinct.simps(2), simp)
  obtain n where n: "arena_get ?a x = Some n" "n_deleted n = ndel ?a x"
    using is_node_get [OF nx] by blast
  have len: "length (n_next n) = MaxHeight" using nx n by (simp add: is_node_def)
  have same_key: "i = x" if "i \<in> set xs" "nkey ?a i = nkey ?a x" for i
    using R(6) that x by (metis distinct_map inj_onD sorted_wrt_less_distinct)
  show ?thesis
  proof (cases "n_deleted n")
    case True
    have "mem_mark (nkey ?a x) (sl_abs s xs) = sl_abs s xs"
      unfolding mem_mark_def sl_abs_def map_map
      by (rule map_cong [OF refl]) (use same_key True n in \<open>auto simp: entry_def\<close>)
    moreover have "last_drop (nkey ?a x) (sl_cached s) = sl_cached s"
      using R(12) same_key True n by (auto simp: last_drop_def sl_cached_def)
    ultimately show ?thesis using True n rep by (simp add: sl_mark_def sl_NodeAt_def)
  next
    case False
    let ?n = "n\<lparr>n_deleted := True\<rparr>"
    let ?a' = "arena_set ?a x ?n"
    let ?la = "if sl_lastActive s = x then 0 else sl_lastActive s"
    let ?s' = "s\<lparr>sl_arena := ?a', sl_lastActive := ?la,
                  sl_epoch := Retire (Some x) (sl_epoch s), sl_length := sl_length s - 1\<rparr>"
    note get = arena_get_set [OF n(1), of ?n]
    have keep: "is_node ?a' i = is_node ?a i" "nkey ?a' i = nkey ?a i" "nht ?a' i = nht ?a i"
      "next_at ?a' i l = next_at ?a i l" "ndel ?a' i = (if i = x then True else ndel ?a i)"
      "nval ?a' i = (if i = x then None else nval ?a i)" for i l
      using n by (auto simp: get is_node_def nkey_def nht_def next_at_def ndel_def nval_def
          node_Key_def node_Value_def)
    have nk: "nkey ?a' = nkey ?a" by (rule ext) (rule keep(2))
    have linked: "linked ?a' l i zs = linked ?a l i zs" for l i zs
      by (induction zs arbitrary: i) (simp_all add: keep)
    have level: "level ?a' l zs = level ?a l zs" for l zs
      by (simp add: level_def keep)
    have count: "int (length (filter (\<lambda>i. \<not> ndel ?a' i) xs)) =
        int (length (filter (\<lambda>i. \<not> ndel ?a i) xs)) - 1"
    proof -
      obtain A B where AB: "xs = A @ x # B" using x by (auto simp: in_set_conv_decomp)
      then have "x \<notin> set A" "x \<notin> set B" using R(5) by auto
      then have "filter (\<lambda>i. \<not> ndel ?a' i) A = filter (\<lambda>i. \<not> ndel ?a i) A"
        "filter (\<lambda>i. \<not> ndel ?a' i) B = filter (\<lambda>i. \<not> ndel ?a i) B"
        by (auto simp: keep intro!: filter_cong)
      then show ?thesis using False n AB by (simp add: keep)
    qed
    have inv: "arena_inv ?a'" using arena_inv_set [OF R(1) n(1)] by simp
    have "sl_rep ?s' xs"
      using rep inv count unfolding sl_rep_def Let_def
      by (auto simp: nk keep linked level)
    moreover have "sl_mark x s = Some (True, ?s')"
      using False n x0 by (simp add: sl_mark_def sl_NodeAt_def Let_def)
    moreover have "sl_abs ?s' xs = mem_mark (nkey ?a x) (sl_abs s xs)"
      unfolding mem_mark_def sl_abs_def map_map
      by (rule map_cong [OF refl]) (use same_key in \<open>auto simp: entry_def keep\<close>)
    moreover have "sl_cached ?s' = last_drop (nkey ?a x) (sl_cached s)"
      using R(12) same_key x0 by (auto simp: sl_cached_def last_drop_def keep)
    ultimately show ?thesis using False n by simp
  qed
qed

lemma mem_is_live_abs:
  assumes rep: "sl_rep s xs" and x: "x \<in> set xs"
  shows "mem_is_live (nkey (sl_arena s) x) (sl_abs s xs) \<longleftrightarrow> \<not> ndel (sl_arena s) x"
proof -
  have "i = x" if "i \<in> set xs" "nkey (sl_arena s) i = nkey (sl_arena s) x" for i
    using sl_repD(6) [OF rep] that x by (metis distinct_map inj_onD sorted_wrt_less_distinct)
  then show ?thesis using x by (force simp: mem_is_live_def sl_abs_def entry_def)
qed

lemma sl_cached_live:
  assumes "sl_rep s xs" "sl_cached s = Some l"
  shows "mem_is_live l (sl_abs s xs)"
proof -
  have "sl_lastActive s \<in> set xs" "\<not> ndel (sl_arena s) (sl_lastActive s)"
    "l = nkey (sl_arena s) (sl_lastActive s)"
    using assms sl_repD(12) [OF assms(1)] by (auto simp: sl_cached_def split: if_splits)
  then show ?thesis using mem_is_live_abs [OF assms(1)] by simp
qed

lemma last_drop_dead:
  "sl_rep s xs \<Longrightarrow> \<not> mem_is_live k (sl_abs s xs) \<Longrightarrow> last_drop k (sl_cached s) = sl_cached s"
  using sl_cached_live [of s xs k] by (auto simp: last_drop_def)

lemma sl_cached_Enter [simp]: "sl_cached (sl_Exit (sl_Enter s)) = sl_cached s"
  by (simp add: sl_cached_def sl_Enter_def sl_Exit_def)

lemma sl_abs_Enter [simp]: "sl_abs (sl_Exit s) xs = sl_abs s xs" "sl_abs (sl_Enter s) xs = sl_abs s xs"
  by (simp_all add: sl_abs_def)

lemma sl_mark_exact:
  assumes rep: "sl_rep s xs" and has: "mem_has k (sl_abs s xs)"
  shows "\<exists>s'. sl_mark (exact_at (sl_arena s) k xs) s =
      Some (mem_is_live k (sl_abs s xs), s') \<and> sl_rep s' xs \<and>
    sl_abs s' xs = (if mem_is_live k (sl_abs s xs) then mem_mark k (sl_abs s xs) else sl_abs s xs) \<and>
    sl_cached s' = last_drop k (sl_cached s) \<and>
    ar_blocks (sl_arena s') = ar_blocks (sl_arena s)"
proof -
  let ?x = "exact_at (sl_arena s) k xs"
  have x: "?x \<in> set xs" "nkey (sl_arena s) ?x = k"
    using exact_at_iff [OF rep] has by (simp_all add: mem_has_abs)
  have live: "mem_is_live k (sl_abs s xs) \<longleftrightarrow> \<not> ndel (sl_arena s) ?x"
    using mem_is_live_abs [OF rep x(1)] x(2) by simp
  have "mem_mark k (sl_abs s xs) = sl_abs s xs" if "\<not> mem_is_live k (sl_abs s xs)"
    using that unfolding mem_mark_def by (intro map_idI) (force simp: mem_is_live_def)
  then show ?thesis using sl_mark_refines [OF rep x(1)] x(2) live by (auto split: if_splits)
qed

lemma sl_Delete_refines:
  assumes rep: "sl_rep s xs"
  shows "\<exists>s'. sl_Delete k s = Some (fst (mem_delete k (sl_abs s xs)), s') \<and> sl_rep s' xs \<and>
    sl_abs s' xs = snd (mem_delete k (sl_abs s xs)) \<and>
    sl_cached s' = (if fst (mem_delete k (sl_abs s xs)) then last_drop k (sl_cached s) else sl_cached s) \<and>
    ar_blocks (sl_arena s') = ar_blocks (sl_arena s)"
proof (cases "mk_key k = [] \<or> \<not> mem_has k (sl_abs s xs)")
  case True
  then have "mem_delete k (sl_abs s xs) = (False, sl_abs s xs)"
    by (auto simp: mem_delete_def mem_has_def mem_is_live_def)
  moreover have "sl_Delete k s = Some (False, sl_Exit (sl_Enter s))"
    using True exact_at_iff(1) [OF rep, of k] by (auto simp: sl_Delete_def findExact_ok [OF rep] mem_has_abs)
  ultimately show ?thesis using sl_rep_Enter rep by simp
next
  case False
  then have nz: "exact_at (sl_arena s) k xs \<noteq> 0" "mk_key k \<noteq> []"
    using exact_at_iff(1) [OF rep] by (auto simp: mem_has_abs)
  have rep': "sl_rep (sl_Exit (sl_Enter s)) xs" using rep sl_rep_Enter by blast
  from sl_mark_exact [OF rep', of k] False nz last_drop_dead [OF rep, of k] show ?thesis
    by (auto simp: sl_Delete_def findExact_ok [OF rep] mem_delete_def)
qed

lemma sl_DeleteWithTS_refines:
  assumes rep: "sl_rep s xs" and room: "ar_blocks (sl_arena s) < 1024"
    and fit: "node_size (mk_key k) None + 7 \<le> ArenaBlockSize" and key: "mk_key k \<noteq> []"
  shows "\<exists>s' ys. sl_DeleteWithTS rnd k s = Some (fst (mem_delete_ts k (sl_abs s xs)), s') \<and>
    sl_rep s' ys \<and> sl_abs s' ys = snd (mem_delete_ts k (sl_abs s xs)) \<and>
    sl_cached s' = last_drop k (sl_cached s) \<and>
    ar_blocks (sl_arena s') \<le> ar_blocks (sl_arena s) + 1"
proof -
  let ?s0 = "sl_Exit (sl_Enter s)"
  have rep': "sl_rep ?s0 xs" using rep sl_rep_Enter by blast
  show ?thesis
  proof (cases "mem_has k (sl_abs s xs)")
    case True
    then have nz: "exact_at (sl_arena s) k xs \<noteq> 0"
      using exact_at_iff(1) [OF rep] by (auto simp: mem_has_abs)
    from sl_mark_exact [OF rep', of k] True nz key show ?thesis
      by (auto simp: sl_DeleteWithTS_def findExact_ok [OF rep] mem_delete_ts_def intro!: exI [of _ xs])
  next
    case False
    then have absent: "k \<notin> nkey (sl_arena ?s0) ` set xs" by (simp add: mem_has_abs)
    then have ex: "exact_at (sl_arena s) k xs = 0" using exact_at_iff(1) [OF rep] by simp
    let ?s1 = "?s0\<lparr>sl_height := max (randomHeight rnd) (sl_height ?s0)\<rparr>"
    let ?f = "(\<lambda>n. n\<lparr>n_deleted := True\<rparr>) \<circ> (\<lambda>n. n\<lparr>n_ts := mk_ts k\<rparr>)"
    let ?ps = "map (prev_at (sl_arena s) k xs) [0..<MaxHeight]"
    have room': "ar_blocks (sl_arena ?s0) < 1024" using room by simp
    obtain p a a3 la ys where T:
      "arena_NewNode (mk_key k) None (randomHeight rnd) (sl_arena s) = (Ptr p, a)"
      "link_levels [0..<randomHeight rnd] (arena_Index (node_update a p ?f) p) ?ps
         (node_update a p ?f) = Some a3"
      "updateLastActive (arena_Index (node_update a p ?f) p) (?s1\<lparr>sl_arena := a3\<rparr>) =
        Some (?s1\<lparr>sl_arena := a3, sl_lastActive := la\<rparr>)"
      "sl_rep (?s1\<lparr>sl_arena := a3, sl_lastActive := la, sl_length := sl_length ?s0\<rparr>) ys"
      "sl_abs (?s1\<lparr>sl_arena := a3, sl_lastActive := la, sl_length := sl_length ?s0\<rparr>) ys =
        mem_insert k Tomb (sl_abs s xs)"
      "sl_cached (?s1\<lparr>sl_arena := a3, sl_lastActive := la, sl_length := sl_length ?s0\<rparr>) = sl_cached s"
      "ar_blocks a3 \<le> ar_blocks (sl_arena s) + 1"
      using insert_tail [OF rep' absent room' fit randomHeight_bounds, of ?f True rnd]
      by auto
    have drop: "last_drop k (sl_cached s) = sl_cached s"
      by (rule last_drop_dead [OF rep]) (use False in \<open>auto simp: mem_is_live_def mem_has_def\<close>)
    have "sl_DeleteWithTS rnd k s = Some (True, ?s1\<lparr>sl_arena := a3, sl_lastActive := la\<rparr>)"
      using ex T(1-3) search_prevs(2) [OF rep']
      by (simp add: sl_DeleteWithTS_def findExact_ok [OF rep] Let_def height_if node_update_update)
    with T(4-7) False drop show ?thesis by (auto simp: mem_delete_ts_def)
  qed
qed

end
