(* ===== verification/MemTable.thy ===== *)
theory MemTable
  imports SkipListRefine
begin

text \<open>
  Models \<^verbatim>\<open>internal/engine/memtable/memtable.go\<close>, the wrapper around the skip list the engine
  uses, states the interface the engine relies on as the locale \<open>memtable\<close>, and interprets
  it with the skip list. The client lemmas of the locale (a version that was put is read back
  at every later snapshot until a newer version hides it, a tombstone hides the older
  versions) therefore hold of the code's model for every choice of random heights.
\<close>

section \<open>The wrapper\<close>

record memtable =
  mt_sl :: skiplist

definition NewMemTable :: "memtable option" where
  "NewMemTable = map_option (\<lambda>sl. \<lparr>mt_sl = sl\<rparr>) NewSkipList"

definition NewMemTableWithArena :: "arena \<Rightarrow> memtable option" where
  "NewMemTableWithArena a =
     do { sl \<leftarrow> NewSkipList; let sl = sl\<lparr>sl_arena := a\<rparr>; Some \<lparr>mt_sl = sl\<rparr> }"

definition mt_Put ::
    "(nat \<Rightarrow> u32) \<Rightarrow> mvcc_key \<Rightarrow> bytes option \<Rightarrow> memtable \<Rightarrow> (bool \<times> memtable) option" where
  "mt_Put rnd key val m =
     do { (r, sl) \<leftarrow> sl_Put rnd key val (mt_sl m); Some (r, m\<lparr>mt_sl := sl\<rparr>) }"

definition mt_Get :: "mvcc_key \<Rightarrow> memtable \<Rightarrow> ((bytes option \<times> bool) \<times> memtable) option" where
  "mt_Get key m = do { (r, sl) \<leftarrow> sl_Get (mt_sl m) key; Some (r, m\<lparr>mt_sl := sl\<rparr>) }"

definition mt_Delete :: "mvcc_key \<Rightarrow> memtable \<Rightarrow> (bool \<times> memtable) option" where
  "mt_Delete key m = do { (r, sl) \<leftarrow> sl_Delete key (mt_sl m); Some (r, m\<lparr>mt_sl := sl\<rparr>) }"

definition mt_DeleteWithTS ::
    "(nat \<Rightarrow> u32) \<Rightarrow> mvcc_key \<Rightarrow> memtable \<Rightarrow> (bool \<times> memtable) option" where
  "mt_DeleteWithTS rnd key m =
     do { (r, sl) \<leftarrow> sl_DeleteWithTS rnd key (mt_sl m); Some (r, m\<lparr>mt_sl := sl\<rparr>) }"

definition mt_Len :: "memtable \<Rightarrow> int" where
  "mt_Len m = sl_Len (mt_sl m)"

definition mt_Size :: "memtable \<Rightarrow> int" where
  "mt_Size m = sl_Len (mt_sl m)"

definition mt_SizeBytes :: "memtable \<Rightarrow> nat" where
  "mt_SizeBytes m = arena_Size (sl_arena (mt_sl m))"

definition mt_LastKey :: "memtable \<Rightarrow> (mvcc_key \<times> memtable) option" where
  "mt_LastKey m =
     do { (idx, sl) \<leftarrow> sl_FindLast (mt_sl m);
          if idx = 0 then Some (MVCCKey [] 0, m\<lparr>mt_sl := sl\<rparr>)
          else do { n \<leftarrow> sl_NodeAt sl idx; Some (node_Key n, m\<lparr>mt_sl := sl\<rparr>) } }"

definition mt_Close :: "memtable \<Rightarrow> memtable option" where
  "mt_Close m = do { sl \<leftarrow> sl_Reset (mt_sl m); Some (m\<lparr>mt_sl := sl\<rparr>) }"

definition mt_NewIterator :: "memtable \<Rightarrow> sl_iterator" where
  "mt_NewIterator m = sl_NewIterator (mt_sl m)"

text \<open>The loop of \<open>GetLatest\<close>; \<open>live\<close> and \<open>tomb\<close> are the last live version and tombstone met.\<close>

partial_function (option) latest_walk ::
    "arena \<Rightarrow> bytes \<Rightarrow> nat \<Rightarrow> (bytes option \<times> u64) option \<Rightarrow> u64 option \<Rightarrow>
     ((bytes option \<times> u64) option \<times> u64 option) option" where
  "latest_walk a key idx live tomb =
     (if idx \<noteq> 0 then
        do { n \<leftarrow> arena_get a idx;
             let nk = node_Key n;
             if mk_key nk \<noteq> key then Some (live, tomb)
             else
               do { let ts = CommitTS nk;
                    nn \<leftarrow> next_at a idx 0;
                    if \<not> n_deleted n then latest_walk a key nn (Some (node_Value n, ts)) tomb
                    else latest_walk a key nn live (Some ts) } }
      else Some (live, tomb))"

definition mt_GetLatest :: "bytes \<Rightarrow> memtable \<Rightarrow> ((bytes option \<times> u64 \<times> bool) \<times> memtable) option" where
  "mt_GetLatest key m =
     do { let sl = sl_Enter (mt_sl m);
          idx \<leftarrow> findGreaterOrEqualNoEpoch sl (MVCCKey key (- 1));
          if idx = 0 then Some ((None, 0, False), m\<lparr>mt_sl := sl_Exit sl\<rparr>)
          else
            do { (live, tomb) \<leftarrow> latest_walk (sl_arena sl) key idx None None;
                 Some ((case live of
                          Some (v, ts) \<Rightarrow> (v, ts, True)
                        | None \<Rightarrow>
                            (case tomb of Some ts \<Rightarrow> (None, ts, False) | None \<Rightarrow> (None, 0, False))),
                       m\<lparr>mt_sl := sl_Exit sl\<rparr>) } }"

text \<open>
  A client's loop \<^verbatim>\<open>for it.Next() { use(it.Key(), it.Value()) }\<close>, as the flush runs it.
\<close>

partial_function (option) it_collect :: "sl_iterator \<Rightarrow> (mvcc_key \<times> bytes option) list option" where
  "it_collect it =
     do { (more, it) \<leftarrow> it_Next it;
          if \<not> more then Some []
          else
            do { k \<leftarrow> it_Key it;
                 v \<leftarrow> it_Value it;
                 rest \<leftarrow> it_collect it;
                 Some ((k, v) # rest) } }"

section \<open>Refinement of the remaining operations\<close>

definition mt_rep :: "memtable \<Rightarrow> mem \<Rightarrow> bool" where
  "mt_rep m ms \<longleftrightarrow> (\<exists>xs. sl_rep (mt_sl m) xs \<and> sl_abs (mt_sl m) xs = ms)"

lemma mt_rep_inv: "mt_rep m ms \<Longrightarrow> mem_inv ms"
  by (auto simp: mt_rep_def sl_abs_inv)

lemma mt_rep_epoch:
  assumes "mt_rep m ms"
  shows "mt_rep (m\<lparr>mt_sl := sl_Exit (sl_Enter (mt_sl m))\<rparr>) ms"
proof -
  obtain xs where "sl_rep (mt_sl m) xs" "sl_abs (mt_sl m) xs = ms"
    using assms by (auto simp: mt_rep_def)
  then show ?thesis unfolding mt_rep_def by (intro exI [of _ xs]) (simp add: sl_rep_Enter)
qed

lemma head_rep:
  assumes inv: "arena_inv a" "ar_nodes a = Map.empty" "ar_blocks a = 1" "ar_head a = 0"
  obtains a' where "arena_NewNode [] None MaxHeight a = (Ptr (0, 0), a')"
    "arena_Index a' (0, 0) = 0"
    "\<And>s. sl_arena s = a' \<Longrightarrow> sl_headIdx s = 0 \<Longrightarrow> sl_height s = 1 \<Longrightarrow> sl_length s = 0 \<Longrightarrow>
       sl_lastActive s = 0 \<Longrightarrow> sl_rep s []"
proof -
  have h: "MaxHeight < 2 ^ 32" by (simp add: MaxHeight_def)
  obtain p a' where new: "arena_NewNode [] None MaxHeight a = (Ptr p, a')"
    by (rule NewNode_total [OF inv(1) h, of "[]" None])
      (simp_all add: node_size_def sizeof_Node_def ArenaBlockSize_def)
  have bi: "ar_blockIdx a = 0" using inv by (simp add: arena_inv_def)
  have al: "arena_Alloc 112 a = (Ptr (0, 0), a\<lparr>ar_head := 112, ar_total := ar_total a + 112\<rparr>)"
    using Alloc_cases [of 112 a] inv(3,4) bi by (simp add: ArenaBlockSize_def)
  have p: "p = (0, 0)" "ar_blocks a' = 1"
    using new inv(3) bi al by (auto simp: NewNode_eq [OF _ _ h] node_size_def sizeof_Node_def)
  note N = NewNode_Ptr [OF inv(1) h new]
  have idx: "arena_Index a' (0, 0) = 0" by (simp add: arena_Index_def)
  have get: "arena_get a' 0 = Some (mk_node [] None MaxHeight)"
    using N(3) p by (simp add: arena_get_def arena_NodeAt_def Let_def)
  show thesis
  proof (rule that [of a'])
    show "sl_rep s []" if "sl_arena s = a'" "sl_headIdx s = 0" "sl_height s = 1" "sl_length s = 0"
      "sl_lastActive s = 0" for s
      using that N(1) p(2) get
      by (auto simp: sl_rep_def Let_def is_node_def next_at_def mk_node_def MaxHeight_def)
  qed (use new p idx in auto)
qed

lemma NewMemTable_rep: "\<exists>m. NewMemTable = Some m \<and> mt_rep m [] \<and> ar_blocks (sl_arena (mt_sl m)) \<le> 1024"
proof -
  obtain a' where new: "arena_NewNode [] None MaxHeight NewArena = (Ptr (0, 0), a')"
    "arena_Index a' (0, 0) = 0"
    and rep: "\<And>s. sl_arena s = a' \<Longrightarrow> sl_headIdx s = 0 \<Longrightarrow> sl_height s = 1 \<Longrightarrow> sl_length s = 0 \<Longrightarrow>
       sl_lastActive s = 0 \<Longrightarrow> sl_rep s []"
    by (rule head_rep [OF arena_inv_New]) (simp_all add: NewArena_def)
  have "NewMemTable = Some \<lparr>mt_sl = \<lparr>sl_arena = a', sl_headIdx = 0, sl_height = 1,
      sl_length = 0, sl_epoch = NewEpochManager 1000, sl_lastActive = 0\<rparr>\<rparr>"
    using new by (simp add: NewMemTable_def NewSkipList_def)
  moreover have "sl_rep \<lparr>sl_arena = a', sl_headIdx = 0, sl_height = 1,
      sl_length = 0, sl_epoch = NewEpochManager 1000, sl_lastActive = 0\<rparr> []"
    by (rule rep) simp_all
  moreover from this have "ar_blocks a' \<le> 1024" by (auto dest: sl_repD(2))
  ultimately show ?thesis by (auto simp: mt_rep_def sl_abs_def intro!: exI [of _ "[]"])
qed

lemma latest_walk_linked:
  assumes "linked a 0 i xs" "\<And>j. j \<in> set xs \<Longrightarrow> is_node a j"
  shows "latest_walk a key (first_of xs) live tomb =
    (let ys = takeWhile (\<lambda>j. mk_key (nkey a j) = key) xs;
         ls = filter (\<lambda>j. \<not> ndel a j) ys; ts = filter (ndel a) ys
     in Some (if ls = [] then live else Some (nval a (last ls), CommitTS (nkey a (last ls))),
              if ts = [] then tomb else Some (CommitTS (nkey a (last ts)))))"
  using assms
proof (induction xs arbitrary: i live tomb)
  case Nil
  then show ?case by (simp add: latest_walk.simps)
next
  case (Cons x xs)
  then have x: "x \<noteq> 0" "linked a 0 x xs" by auto
  obtain n where n: "arena_get a x = Some n" "node_Key n = nkey a x" "n_deleted n = ndel a x"
    "node_Value n = nval a x"
    using Cons.prems(2) [of x] is_node_get by fastforce
  have nn: "next_at a x 0 = Some (first_of xs)"
    using linked_next [OF x(2)] by (simp add: first_of_def)
  note IH = Cons.IH [OF x(2)]
  show ?case
    using x n nn Cons.prems(2)
    by (cases "mk_key (nkey a x) = key"; cases "ndel a x")
      (simp_all add: latest_walk.simps [of a key x] IH Let_def)
qed

lemma mt_GetLatest_refines:
  assumes "mt_rep m ms"
  shows "\<exists>m'. mt_GetLatest key m = Some (mem_get_latest key ms, m') \<and> mt_rep m' ms"
proof -
  obtain xs where rep: "sl_rep (mt_sl m) xs" and ms: "ms = sl_abs (mt_sl m) xs"
    using assms by (auto simp: mt_rep_def)
  let ?a = "sl_arena (mt_sl m)" and ?k = "MVCCKey key (- 1)"
  let ?B = "not_below ?a ?k xs" and ?P = "\<lambda>j. mk_key (nkey ?a j) = key"
  let ?m' = "m\<lparr>mt_sl := sl_Exit (sl_Enter (mt_sl m))\<rparr>"
  have nodeB: "is_node ?a j" if "j \<in> set ?B" for j
    using that in_not_below(1) [OF sl_repD(6) [OF rep]] sl_repD(4) [OF rep] by simp
  have "CommitTS k \<le> - 1" for k by simp
  then have filt: "takeWhile ?P ?B = filter ?P xs"
    using not_below_oldest [OF sl_repD(6) [OF rep], of key "- 1"] by simp
  have chain: "mem_chain key ms = map (entry ?a) (filter ?P xs)"
    using filter_abs [of "\<lambda>k. mk_key k = key" "mt_sl m" xs] by (simp add: mem_chain_def ms)
  let ?ls = "filter (\<lambda>j. \<not> ndel ?a j) (filter ?P xs)" and ?ts = "filter (ndel ?a) (filter ?P xs)"
  have live: "mem_live (mem_chain key ms) = map (entry ?a) ?ls"
    unfolding chain mem_live_def by (auto simp: filter_map comp_def entry_def intro!: arg_cong [of _ _ "map (entry _)"] filter_cong)
  have all_tomb: "?ts = filter ?P xs" if "?ls = []"
    using that by (auto simp: filter_empty_conv intro!: filter_cong)
  have fge: "findGreaterOrEqualNoEpoch (sl_Enter (mt_sl m)) ?k = Some (first_of ?B)"
    using findGreaterOrEqual_ok [OF sl_rep_Enter(1) [OF rep]] by simp
  have rep': "mt_rep ?m' ms" by (rule mt_rep_epoch [OF assms])
  have walk: "latest_walk ?a key (first_of ?B) None None =
      Some (if ?ls = [] then None else Some (nval ?a (last ?ls), CommitTS (nkey ?a (last ?ls))),
            if ?ts = [] then None else Some (CommitTS (nkey ?a (last ?ts))))"
    using latest_walk_linked [OF linked_from [OF rep, of ?k] nodeB, of key None None] filt
    by (simp only: Let_def if_False simp_thms)
  have spec: "mem_get_latest key ms =
      (if ?ls \<noteq> [] then (nval ?a (last ?ls), CommitTS (nkey ?a (last ?ls)), True)
       else if ?ts \<noteq> [] then (None, CommitTS (nkey ?a (last ?ts)), False) else (None, 0, False))"
  proof (cases "?ls = []")
    case True
    then show ?thesis
      using live chain all_tomb [OF True] by (simp add: mem_get_latest_def Let_def last_map)
  next
    case False
    then have "\<not> ndel ?a (last ?ls)"
      using last_in_set [OF False] by simp
    then show ?thesis
      using False unfolding mem_get_latest_def Let_def live
      by (simp add: last_map entry_def)
  qed
  show ?thesis
  proof (cases "first_of ?B = 0")
    case True
    then have "?B = []" using first_not_below [OF rep] by blast
    then have "filter ?P xs = []" using filt by simp
    then have "mem_get_latest key ms = (None, 0, False)" using spec by simp
    with True fge rep' show ?thesis by (simp add: mt_GetLatest_def Let_def)
  next
    case False
    then have "mt_GetLatest key m = Some (mem_get_latest key ms, ?m')"
      using fge walk unfolding spec by (simp add: mt_GetLatest_def Let_def)
    with rep' show ?thesis by blast
  qed
qed


section \<open>Iteration, the last key and closing\<close>

lemma it_next_loop_linked:
  assumes "linked a 0 i xs" "\<And>j. j \<in> set xs \<Longrightarrow> is_node a j"
  shows "it_next_loop a i =
    Some (case dropWhile (ndel a) xs of [] \<Rightarrow> (False, last (i # xs)) | y # _ \<Rightarrow> (True, y))"
  using assms
proof (induction xs arbitrary: i)
  case Nil
  then show ?case by (simp add: it_next_loop.simps)
next
  case (Cons x xs)
  then have x: "next_at a i 0 = Some x" "x \<noteq> 0" "linked a 0 x xs" by auto
  obtain n where n: "arena_get a x = Some n" "n_deleted n = ndel a x"
    using Cons.prems(2) [of x] is_node_get by fastforce
  note IH = Cons.IH [OF x(3)]
  show ?case
  proof (cases "dropWhile (ndel a) xs")
    case Nil
    have "it_next_loop a x = Some (False, last (x # xs))"
      using IH Nil Cons.prems(2) by simp
    then show ?thesis
      using x n Nil
      by (cases "ndel a x") (simp_all add: it_next_loop.simps [of a i] del: dropWhile_eq_Nil_conv)
  next
    case (Cons y ys)
    then show ?thesis using x n \<open>\<And>j. j \<in> set (x # xs) \<Longrightarrow> is_node a j\<close>
      by (simp add: it_next_loop.simps [of a i] IH)
  qed
qed

lemma linked_dropWhile:
  "linked a l i xs \<Longrightarrow> dropWhile P xs = y # ys \<Longrightarrow> linked a l y ys"
  using linked_mid [of a l i "takeWhile P xs" y ys] takeWhile_dropWhile_id [of P xs] by simp

lemma it_collect_linked:
  assumes "linked (sl_arena s) 0 i xs" "\<And>j. j \<in> set xs \<Longrightarrow> is_node (sl_arena s) j"
  shows "it_collect \<lparr>it_current = i, it_list = Some s, it_done = False\<rparr> =
    Some (map (\<lambda>j. (nkey (sl_arena s) j, nval (sl_arena s) j)) (filter (\<lambda>j. \<not> ndel (sl_arena s) j) xs))"
  using assms
proof (induction "length xs" arbitrary: i xs rule: less_induct)
  case less
  let ?a = "sl_arena s"
  note loop = it_next_loop_linked [OF less.prems]
  show ?case
  proof (cases "dropWhile (ndel ?a) xs")
    case Nil
    then have "filter (\<lambda>j. \<not> ndel ?a j) xs = []" by (simp add: filter_empty_conv)
    moreover have "it_next_loop ?a i = Some (False, last (i # xs))" using loop Nil by simp
    ultimately show ?thesis by (subst it_collect.simps) (simp add: it_Next_def)
  next
    case (Cons y ys)
    then have xs: "xs = takeWhile (ndel ?a) xs @ y # ys" by (metis takeWhile_dropWhile_id)
    have y: "\<not> ndel ?a y" using Cons by (metis hd_dropWhile list.discI list.sel(1))
    have "filter (\<lambda>j. \<not> ndel ?a j) (takeWhile (ndel ?a) xs) = []"
      by (auto simp: filter_empty_conv dest: set_takeWhileD)
    then have filt: "filter (\<lambda>j. \<not> ndel ?a j) xs = y # filter (\<lambda>j. \<not> ndel ?a j) ys"
      using y by (subst xs) simp
    have mem: "set (y # ys) \<subseteq> set xs" using xs by (metis Un_iff set_append subsetI)
    have len: "length ys < length xs" by (subst xs) simp
    have IH: "it_collect \<lparr>it_current = y, it_list = Some s, it_done = False\<rparr> =
      Some (map (\<lambda>j. (nkey ?a j, nval ?a j)) (filter (\<lambda>j. \<not> ndel ?a j) ys))"
      using less.hyps [OF len linked_dropWhile [OF less.prems(1) Cons]] less.prems(2) mem by auto
    obtain n where n: "arena_get ?a y = Some n" "node_Key n = nkey ?a y" "node_Value n = nval ?a y"
      using less.prems(2) mem is_node_get by (metis insert_subset list.set(2))
    have "it_next_loop ?a i = Some (True, y)" using loop Cons by simp
    then show ?thesis
      using IH n filt
      by (subst it_collect.simps) (simp add: it_Next_def it_Key_def it_Value_def sl_NodeAt_def)
  qed
qed

lemma sl_rep_linked0: "sl_rep s xs \<Longrightarrow> linked (sl_arena s) 0 0 xs"
proof -
  assume rep: "sl_rep s xs"
  have "level (sl_arena s) 0 xs = xs" by (rule level_zero) (use sl_repD(7) [OF rep] in blast)
  moreover have "0 < MaxHeight" by (simp add: MaxHeight_def)
  ultimately show ?thesis using sl_repD(10) [OF rep] by metis
qed

definition live_pairs :: "mem \<Rightarrow> (mvcc_key \<times> bytes option) list" where
  "live_pairs ms = map (\<lambda>e. (fst e, case snd e of Live v \<Rightarrow> v | Tomb \<Rightarrow> None)) (mem_live ms)"

lemma mt_collect_refines:
  assumes "mt_rep m ms"
  shows "it_collect (mt_NewIterator m) = Some (live_pairs ms)"
proof -
  obtain xs where rep: "sl_rep (mt_sl m) xs" and ms: "ms = sl_abs (mt_sl m) xs"
    using assms by (auto simp: mt_rep_def)
  let ?a = "sl_arena (mt_sl m)"
  have "mem_live ms = map (entry ?a) (filter (\<lambda>j. \<not> ndel ?a j) xs)"
    unfolding ms sl_abs_def mem_live_def filter_map
    by (auto simp: comp_def entry_def intro!: arg_cong [of _ _ "map (entry _)"] filter_cong)
  then have "live_pairs ms = map (\<lambda>j. (nkey ?a j, nval ?a j)) (filter (\<lambda>j. \<not> ndel ?a j) xs)"
    by (simp add: live_pairs_def entry_def)
  moreover have "it_collect (mt_NewIterator m) =
      Some (map (\<lambda>j. (nkey ?a j, nval ?a j)) (filter (\<lambda>j. \<not> ndel ?a j) xs))"
    using it_collect_linked [OF sl_rep_linked0 [OF rep]] sl_repD(3,4) [OF rep]
    by (simp add: mt_NewIterator_def sl_NewIterator_def)
  ultimately show ?thesis by simp
qed

lemma find_last_walk_linked:
  assumes "linked a 0 i xs" "\<And>j. j \<in> set xs \<Longrightarrow> is_node a j"
  shows "find_last_walk a i r =
    Some (let ls = filter (\<lambda>j. \<not> ndel a j) xs in if ls = [] then r else last ls)"
  using assms
proof (induction xs arbitrary: i r)
  case Nil
  then show ?case by (simp add: find_last_walk.simps)
next
  case (Cons x xs)
  then have x: "next_at a i 0 = Some x" "x \<noteq> 0" "linked a 0 x xs" by auto
  obtain n where n: "arena_get a x = Some n" "n_deleted n = ndel a x"
    using Cons.prems(2) [of x] is_node_get by fastforce
  note IH = Cons.IH [OF x(3)]
  show ?case
    using x n Cons.prems(2) by (simp add: find_last_walk.simps [of a i] IH Let_def)
qed

text \<open>
  \<open>LastKey\<close> answers from the cache of the last active node and scans the list only when the cache
  is empty. The cached key need not be the last one: a delete empties the cache, and the next
  insertion fills it whatever larger versions are live.
\<close>

definition mt_cached :: "memtable \<Rightarrow> mvcc_key option" where
  "mt_cached m = sl_cached (mt_sl m)"

lemma mt_cached_live: "mt_rep m ms \<Longrightarrow> mt_cached m = Some l \<Longrightarrow> mem_is_live l ms"
  using sl_cached_live by (auto simp: mt_rep_def mt_cached_def)

lemma mt_LastKey_exact:
  assumes "mt_rep m ms"
  defines "l \<equiv> case mt_cached m of None \<Rightarrow> mem_last ms | Some l \<Rightarrow> l"
  shows "\<exists>m'. mt_LastKey m = Some (l, m') \<and> mt_rep m' ms \<and>
    mt_cached m' = (if mem_live ms = [] then None else Some l)"
proof -
  obtain xs where rep: "sl_rep (mt_sl m) xs" and ms: "ms = sl_abs (mt_sl m) xs"
    using assms by (auto simp: mt_rep_def)
  let ?s = "mt_sl m" and ?a = "sl_arena (mt_sl m)"
  let ?ls = "filter (\<lambda>j. \<not> ndel ?a j) xs"
  note R = sl_repD [OF rep]
  have live: "mem_live ms = map (entry ?a) ?ls"
    unfolding ms sl_abs_def mem_live_def filter_map
    by (auto simp: comp_def entry_def intro!: arg_cong [of _ _ "map (entry _)"] filter_cong)
  have rep': "mt_rep (m\<lparr>mt_sl := ?s\<lparr>sl_lastActive := la\<rparr>\<rparr>) ms" if "la \<noteq> 0 \<longrightarrow> la \<in> set ?ls" for la
  proof -
    have "sl_rep (?s\<lparr>sl_lastActive := la\<rparr>) xs" using rep that by (simp add: sl_rep_def Let_def)
    then show ?thesis using ms by (auto simp: mt_rep_def sl_abs_def)
  qed
  have at: "sl_NodeAt sl j = Some n \<Longrightarrow> node_Key n = nkey ?a j"
    if "sl_arena sl = ?a" "j \<in> set xs" for sl j n
    using that R(4) [of j] is_node_get [of ?a j] by (auto simp: sl_NodeAt_def split: if_splits)
  have get: "\<exists>n. sl_NodeAt sl j = Some n" if "sl_arena sl = ?a" "j \<in> set xs" for sl j
    using that R(4) [of j] R(5) is_node_get [of ?a j] by (auto simp: sl_NodeAt_def)
  show ?thesis
  proof (cases "sl_lastActive ?s = 0")
    case False
    note la = R(12) [OF False]
    have FL: "sl_FindLast ?s = Some (sl_lastActive ?s, ?s)" using False by (simp add: sl_FindLast_def)
    obtain n where "sl_NodeAt ?s (sl_lastActive ?s) = Some n" using get la(1) by blast
    then have "mt_LastKey m = Some (l, m)"
      using FL False at [of ?s "sl_lastActive ?s"] la(1) by (simp add: mt_LastKey_def l_def mt_cached_def sl_cached_def)
    moreover have "mem_live ms \<noteq> []" using la live by (auto simp: filter_empty_conv)
    ultimately show ?thesis using assms(1) False by (simp add: l_def mt_cached_def sl_cached_def)
  next
    case True
    have w: "find_last_walk ?a 0 0 = Some (if ?ls = [] then 0 else last ?ls)"
      using find_last_walk_linked [OF sl_rep_linked0 [OF rep]] R(4) by (simp add: Let_def)
    have l: "l = mem_last ms" using True by (simp add: l_def mt_cached_def sl_cached_def)
    show ?thesis
    proof (cases "?ls = []")
      case empty: True
      with w True R(3) have "sl_FindLast ?s = Some (0, ?s)" by (simp add: sl_FindLast_def)
      then show ?thesis using assms(1) empty live l True
        by (simp add: mt_LastKey_def mem_last_def mt_cached_def sl_cached_def)
    next
      case False
      let ?j = "last ?ls" let ?s' = "?s\<lparr>sl_lastActive := ?j\<rparr>"
      have j1: "?j \<in> set ?ls" by (rule last_in_set [OF False])
      then have j2: "?j \<in> set xs" by simp
      have "0 \<notin> set xs" using R(5) by simp
      then have "?j \<noteq> 0" using j2 by metis
      note j = j1 j2 this
      have key: "l = nkey ?a ?j" using l False live by (simp add: mem_last_def last_map entry_def)
      have FL: "sl_FindLast ?s = Some (?j, ?s')" using w False True R(3) j(3) by (simp add: sl_FindLast_def)
      obtain n where n: "sl_NodeAt ?s' ?j = Some n" using get [OF _ j(2), of ?s'] by auto
      have "node_Key n = l" using at [OF _ j(2) n] key by simp
      then have "mt_LastKey m = Some (l, m\<lparr>mt_sl := ?s'\<rparr>)"
        using FL j(3) n by (simp add: mt_LastKey_def)
      moreover have "mt_cached (m\<lparr>mt_sl := ?s'\<rparr>) = Some l"
        using j(3) key by (simp add: mt_cached_def sl_cached_def)
      moreover have "mem_live ms \<noteq> []" using False live by simp
      ultimately show ?thesis using rep' [of ?j] j(1) by auto
    qed
  qed
qed

lemma mt_Close_refines:
  assumes "WaitForReaders_done (sl_epoch (mt_sl m))"
  shows "\<exists>m'. mt_Close m = Some m' \<and> mt_rep m' [] \<and> mt_Len m' = 0"
proof -
  let ?a = "arena_Reset (sl_arena (mt_sl m))"
  have r: "ar_nodes ?a = Map.empty" "ar_blocks ?a = 1" "ar_head ?a = 0"
    by (simp_all add: arena_Reset_def)
  obtain a' where new: "arena_NewNode [] None MaxHeight ?a = (Ptr (0, 0), a')"
    "arena_Index a' (0, 0) = 0"
    and rep: "\<And>s. sl_arena s = a' \<Longrightarrow> sl_headIdx s = 0 \<Longrightarrow> sl_height s = 1 \<Longrightarrow> sl_length s = 0 \<Longrightarrow>
       sl_lastActive s = 0 \<Longrightarrow> sl_rep s []"
    by (rule head_rep [OF arena_inv_Reset r]) blast
  obtain sl where sl: "sl_Reset (mt_sl m) = Some sl" "sl_arena sl = a'" "sl_headIdx sl = 0"
    "sl_height sl = 1" "sl_length sl = 0" "sl_lastActive sl = 0"
    using assms new by (simp add: sl_Reset_def Let_def)
  with rep [of sl] show ?thesis
    by (auto simp: mt_Close_def mt_rep_def mt_Len_def sl_Len_def sl_abs_def intro!: exI [of _ "[]"])
qed

section \<open>The interface of a memtable and its clients\<close>

text \<open>
  \<open>rep m ms\<close> relates a memtable to its contents, \<open>room m key v\<close> says that one more version
  fits. The provider promises that every operation returns and does what it does on the list.
\<close>

locale memtable_interface =
  fixes rep :: "'m \<Rightarrow> mem \<Rightarrow> bool"
    and room :: "'m \<Rightarrow> bytes \<Rightarrow> bytes option \<Rightarrow> bool"
    and put :: "'r \<Rightarrow> mvcc_key \<Rightarrow> bytes option \<Rightarrow> 'm \<Rightarrow> (bool \<times> 'm) option"
    and del_ts :: "'r \<Rightarrow> mvcc_key \<Rightarrow> 'm \<Rightarrow> (bool \<times> 'm) option"
    and get :: "mvcc_key \<Rightarrow> 'm \<Rightarrow> ((bytes option \<times> bool) \<times> 'm) option"
  assumes rep_inv: "rep m ms \<Longrightarrow> mem_inv ms"
    and put_ok: "rep m ms \<Longrightarrow> room m (mk_key k) v \<Longrightarrow>
      \<exists>m'. put r k v m = Some (fst (mem_put k v ms), m') \<and> rep m' (snd (mem_put k v ms))"
    and del_ts_ok: "rep m ms \<Longrightarrow> room m (mk_key k) None \<Longrightarrow> mk_key k \<noteq> [] \<Longrightarrow>
      \<exists>m'. del_ts r k m = Some (fst (mem_delete_ts k ms), m') \<and> rep m' (snd (mem_delete_ts k ms))"
    and get_ok: "rep m ms \<Longrightarrow>
      \<exists>m'. get k m = Some (mem_get (mk_key k) (CommitTS k) ms, m') \<and> rep m' ms"
begin

text \<open>What a read at a snapshot returns, without the memtable it leaves.\<close>

definition read :: "bytes \<Rightarrow> u64 \<Rightarrow> 'm \<Rightarrow> (bytes option \<times> bool) option" where
  "read key ts m = map_option fst (get (NewMVCCKey key ts) m)"

lemma read_eq: "rep m ms \<Longrightarrow> read key ts m = Some (mem_get key ts ms)"
  using get_ok [of m ms "NewMVCCKey key ts"] by (auto simp: read_def simp del: split_paired_Ex)

lemma read_own_put:
  assumes "rep m ms" "room m key v" "key \<noteq> []" "\<not> mem_has (NewMVCCKey key ts) ms" "ts \<le> snap"
    and "\<And>k v. (k, v) \<in> set ms \<Longrightarrow> mk_key k = key \<Longrightarrow> CommitTS k \<le> snap \<Longrightarrow> CommitTS k \<le> ts"
  shows "\<exists>m'. put r (NewMVCCKey key ts) v m = Some (True, m') \<and> read key snap m' = Some (v, True)"
proof -
  let ?k = "NewMVCCKey key ts"
  obtain m' where m': "put r ?k v m = Some (True, m')" "rep m' (mem_insert ?k (Live v) ms)"
    using put_ok [of m ms ?k v r] assms(1,2,4) by (auto simp: mem_put_def)
  have "mem_version key snap (mem_insert ?k (Live v) ms) = Some (Live v)"
    by (rule mem_version_insert_newest [OF rep_inv])
      (use assms in \<open>auto simp del: CommitTS_le_iff\<close>)
  with m' assms(3) show ?thesis by (auto simp: read_eq mem_get_def)
qed

lemma read_own_delete:
  assumes "rep m ms" "room m key None" "key \<noteq> []" "\<not> mem_has (NewMVCCKey key ts) ms" "ts \<le> snap"
    and "\<And>k v. (k, v) \<in> set ms \<Longrightarrow> mk_key k = key \<Longrightarrow> CommitTS k \<le> snap \<Longrightarrow> CommitTS k \<le> ts"
  shows "\<exists>m'. del_ts r (NewMVCCKey key ts) m = Some (True, m') \<and> read key snap m' = Some (None, False)"
proof -
  let ?k = "NewMVCCKey key ts"
  obtain m' where m': "del_ts r ?k m = Some (True, m')" "rep m' (mem_insert ?k Tomb ms)"
    using del_ts_ok [of m ms ?k r] assms(1,2,3,4) by (auto simp: mem_delete_ts_def)
  have "mem_version key snap (mem_insert ?k Tomb ms) = Some Tomb"
    by (rule mem_version_insert_newest [OF rep_inv])
      (use assms in \<open>auto simp del: CommitTS_le_iff\<close>)
  with m' show ?thesis by (auto simp: read_eq mem_get_def)
qed

lemma read_unaffected:
  assumes "rep m ms" "room m (mk_key k) v" "put r k v m = Some (b, m')"
    and "mk_key k \<noteq> key \<or> snap < CommitTS k"
  shows "read key snap m' = read key snap m"
proof -
  have "rep m' (snd (mem_put k v ms))"
    using put_ok [OF assms(1,2), of r] assms(3) by auto
  moreover have "mem_get key snap (snd (mem_put k v ms)) = mem_get key snap ms"
    using assms(4) by (simp add: mem_put_def mem_get_def mem_version_insert_other)
  ultimately show ?thesis using assms(1) by (simp add: read_eq)
qed

end

definition mt_room :: "memtable \<Rightarrow> bytes \<Rightarrow> bytes option \<Rightarrow> bool" where
  "mt_room m key v \<longleftrightarrow>
     ar_blocks (sl_arena (mt_sl m)) < 1024 \<and> node_size key v + 7 \<le> ArenaBlockSize"

lemma mt_repI: "sl_rep s ys \<Longrightarrow> sl_abs s ys = ms \<Longrightarrow> mt_rep (m\<lparr>mt_sl := s\<rparr>) ms"
  by (auto simp: mt_rep_def)

lemma mt_Put_refines:
  assumes "mt_rep m ms" "mt_room m (mk_key k) v"
  shows "\<exists>m'. mt_Put rnd k v m = Some (fst (mem_put k v ms), m') \<and> mt_rep m' (snd (mem_put k v ms))"
proof -
  obtain xs where rep: "sl_rep (mt_sl m) xs" and ms: "sl_abs (mt_sl m) xs = ms"
    using assms(1) by (auto simp: mt_rep_def)
  obtain s' ys where "sl_Put rnd k v (mt_sl m) = Some (fst (mem_put k v ms), s')" "sl_rep s' ys" "sl_abs s' ys = snd (mem_put k v ms)"
    using sl_Put_refines [OF rep, of k v rnd] assms(2)[unfolded mt_room_def] unfolding ms by blast
  then show ?thesis by (auto simp: mt_Put_def intro: mt_repI)
qed

lemma mt_Delete_refines:
  assumes "mt_rep m ms"
  shows "\<exists>m'. mt_Delete k m = Some (fst (mem_delete k ms), m') \<and> mt_rep m' (snd (mem_delete k ms))"
proof -
  obtain xs where rep: "sl_rep (mt_sl m) xs" and ms: "sl_abs (mt_sl m) xs = ms"
    using assms(1) by (auto simp: mt_rep_def)
  obtain s' ys where "sl_Delete k (mt_sl m) = Some (fst (mem_delete k ms), s')" "sl_rep s' ys" "sl_abs s' ys = snd (mem_delete k ms)"
    using sl_Delete_refines [OF rep, of k] unfolding ms by blast
  then show ?thesis by (auto simp: mt_Delete_def intro: mt_repI)
qed

lemma mt_DeleteWithTS_refines:
  assumes "mt_rep m ms" "mt_room m (mk_key k) None" "mk_key k \<noteq> []"
  shows "\<exists>m'. mt_DeleteWithTS rnd k m = Some (fst (mem_delete_ts k ms), m') \<and> mt_rep m' (snd (mem_delete_ts k ms))"
proof -
  obtain xs where rep: "sl_rep (mt_sl m) xs" and ms: "sl_abs (mt_sl m) xs = ms"
    using assms(1) by (auto simp: mt_rep_def)
  obtain s' ys where "sl_DeleteWithTS rnd k (mt_sl m) = Some (fst (mem_delete_ts k ms), s')" "sl_rep s' ys" "sl_abs s' ys = snd (mem_delete_ts k ms)"
    using sl_DeleteWithTS_refines [OF rep, of k rnd] assms(2,3)[unfolded mt_room_def] unfolding ms by blast
  then show ?thesis by (auto simp: mt_DeleteWithTS_def intro: mt_repI)
qed

text \<open>The cache through the operations that change the memtable.\<close>

lemma mt_cached_Put:
  assumes "mt_rep m ms" "mt_room m (mk_key k) v" "mt_Put rnd k v m = Some (b, m')"
  shows "mt_cached m' = (if mem_has k ms then mt_cached m else last_put k (mt_cached m))"
proof -
  obtain xs where rep: "sl_rep (mt_sl m) xs" and ms: "sl_abs (mt_sl m) xs = ms"
    using assms(1) by (auto simp: mt_rep_def)
  obtain s' where "sl_Put rnd k v (mt_sl m) = Some (fst (mem_put k v ms), s')"
    "sl_cached s' = (if mem_has k ms then sl_cached (mt_sl m) else last_put k (sl_cached (mt_sl m)))"
    using sl_Put_refines [OF rep, of k v rnd] assms(2)[unfolded mt_room_def] unfolding ms by blast
  then show ?thesis using assms(3) by (auto simp: mt_Put_def mt_cached_def)
qed

lemma mt_cached_Delete:
  assumes "mt_rep m ms" "mt_Delete k m = Some (b, m')"
  shows "mt_cached m' = (if b then last_drop k (mt_cached m) else mt_cached m)"
proof -
  obtain xs where rep: "sl_rep (mt_sl m) xs" and ms: "sl_abs (mt_sl m) xs = ms"
    using assms(1) by (auto simp: mt_rep_def)
  obtain s' where "sl_Delete k (mt_sl m) = Some (fst (mem_delete k ms), s')"
    "sl_cached s' = (if fst (mem_delete k ms) then last_drop k (sl_cached (mt_sl m)) else sl_cached (mt_sl m))"
    using sl_Delete_refines [OF rep, of k] unfolding ms by blast
  then show ?thesis using assms(2) by (auto simp: mt_Delete_def mt_cached_def)
qed

lemma mt_Delete_room:
  assumes "mt_rep m ms" "mt_Delete k m = Some (b, m')"
  shows "mt_room m' key v = mt_room m key v"
proof -
  obtain xs where rep: "sl_rep (mt_sl m) xs" using assms(1) by (auto simp: mt_rep_def)
  obtain s' where "sl_Delete k (mt_sl m) = Some (fst (mem_delete k (sl_abs (mt_sl m) xs)), s')"
    "ar_blocks (sl_arena s') = ar_blocks (sl_arena (mt_sl m))"
    using sl_Delete_refines [OF rep, of k] by blast
  then show ?thesis using assms(2) by (auto simp: mt_Delete_def mt_room_def)
qed

lemma mt_cached_DeleteWithTS:
  assumes "mt_rep m ms" "mt_room m (mk_key k) None" "mk_key k \<noteq> []"
    and "mt_DeleteWithTS rnd k m = Some (b, m')"
  shows "mt_cached m' = last_drop k (mt_cached m)"
proof -
  obtain xs where rep: "sl_rep (mt_sl m) xs" and ms: "sl_abs (mt_sl m) xs = ms"
    using assms(1) by (auto simp: mt_rep_def)
  obtain s' where "sl_DeleteWithTS rnd k (mt_sl m) = Some (fst (mem_delete_ts k ms), s')"
    "sl_cached s' = last_drop k (sl_cached (mt_sl m))"
    using sl_DeleteWithTS_refines [OF rep, of k rnd] assms(2,3)[unfolded mt_room_def] unfolding ms by blast
  then show ?thesis using assms(4) by (auto simp: mt_DeleteWithTS_def mt_cached_def)
qed

lemma mt_Get_refines:
  assumes "mt_rep m ms"
  shows "\<exists>m'. mt_Get k m = Some (mem_get (mk_key k) (CommitTS k) ms, m') \<and> mt_rep m' ms"
proof -
  obtain xs where "sl_rep (mt_sl m) xs" "ms = sl_abs (mt_sl m) xs"
    using assms by (auto simp: mt_rep_def)
  then have "mt_Get k m = Some (mem_get (mk_key k) (CommitTS k) ms,
      m\<lparr>mt_sl := sl_Exit (sl_Enter (mt_sl m))\<rparr>)"
    by (simp add: mt_Get_def sl_Get_refines)
  with mt_rep_epoch [OF assms] show ?thesis by blast
qed

interpretation mti: memtable_interface mt_rep mt_room mt_Put mt_DeleteWithTS mt_Get
  by unfold_locales
    (blast intro: mt_rep_inv mt_Put_refines mt_DeleteWithTS_refines mt_Get_refines)+

lemma mt_Len_refines: "mt_rep m ms \<Longrightarrow> mt_Len m = int (mem_len ms)"
proof -
  assume "mt_rep m ms"
  then obtain xs where rep: "sl_rep (mt_sl m) xs" and ms: "ms = sl_abs (mt_sl m) xs"
    by (auto simp: mt_rep_def)
  have "length (mem_live ms) = length (filter (\<lambda>j. \<not> ndel (sl_arena (mt_sl m)) j) xs)"
    unfolding ms sl_abs_def mem_live_def
    by (induction xs) (auto simp: entry_def)
  then show ?thesis using sl_repD(11) [OF rep] by (simp add: mt_Len_def sl_Len_def mem_len_def)
qed

section \<open>Properties\<close>

text \<open>
  C4. The skip list behind a memtable is a sorted map from versioned keys to versions, for
  every choice of random tower heights. Whenever the arena has room, \<open>Put\<close>, \<open>Delete\<close> and
  \<open>DeleteWithTS\<close> return (no nil node is dereferenced, no walk cycles), report exactly what
  the map operation reports (a \<open>Put\<close> of an existing version is refused and changes nothing,
  a delete of a version that is absent or already deleted is refused) and lead to a memtable
  that represents the updated map, whose list is strictly sorted and whose \<open>Len\<close> counts the
  live versions.
\<close>

theorem memtable_writes_refine:
  assumes "mt_rep m ms" and "mt_room m (mk_key k) v" and "mt_room m (mk_key k) None"
    and "mk_key k \<noteq> []"
  shows "mem_inv ms \<and> mt_Len m = int (mem_len ms) \<and>
    (\<exists>m'. mt_Put rnd k v m = Some (fst (mem_put k v ms), m') \<and>
          mt_rep m' (snd (mem_put k v ms))) \<and>
    (\<exists>m'. mt_Delete k m = Some (fst (mem_delete k ms), m') \<and>
          mt_rep m' (snd (mem_delete k ms))) \<and>
    (\<exists>m'. mt_DeleteWithTS rnd k m = Some (fst (mem_delete_ts k ms), m') \<and>
          mt_rep m' (snd (mem_delete_ts k ms)))"
  using mt_rep_inv [OF assms(1)] mt_Len_refines [OF assms(1)] mt_Put_refines [OF assms(1,2)]
    mt_Delete_refines [OF assms(1)] mt_DeleteWithTS_refines [OF assms(1,3,4)]
  by blast

lemma New_room:
  assumes "NewMemTable = Some m" "node_size key v + 7 \<le> ArenaBlockSize"
  shows "mt_room m key v"
proof -
  obtain p a where new: "arena_NewNode [] None MaxHeight NewArena = (Ptr p, a)"
    "ar_blocks a \<le> ar_blocks NewArena + 1"
    by (rule NewNode_total [OF arena_inv_New, of MaxHeight "[]" None])
      (simp_all add: node_size_def sizeof_Node_def ArenaBlockSize_def MaxHeight_def)
  then have "ar_blocks (sl_arena (mt_sl m)) = ar_blocks a" "ar_blocks a \<le> 2"
    using assms(1) by (auto simp: NewMemTable_def NewSkipList_def NewArena_def)
  with assms(2) show ?thesis by (simp add: mt_room_def)
qed

theorem memtable_writes_refine_witness:
  "\<exists>m m'. NewMemTable = Some m \<and>
     mt_Put (\<lambda>_. 0) (NewMVCCKey [97] 1) (Some [5]) m = Some (True, m') \<and>
     mt_rep m' [(NewMVCCKey [97] 1, Live (Some [5]))]"
proof -
  obtain m where m: "NewMemTable = Some m" "mt_rep m []"
    using NewMemTable_rep by blast
  have room: "mt_room m (mk_key (NewMVCCKey [97] 1)) (Some [5])"
    "mt_room m (mk_key (NewMVCCKey [97] 1)) None"
    by (rule New_room [OF m(1)]; simp add: node_size_def sizeof_Node_def ArenaBlockSize_def)+
  from memtable_writes_refine [OF m(2) room, of "\<lambda>_. 0"] m(1) show ?thesis
    by (auto simp: mem_put_def mem_has_def)
qed

text \<open>
  C5. Every read of a memtable returns and answers from the represented map: \<open>Get\<close> gives the
  newest version committed at or before the snapshot (a tombstone hides the older ones),
  \<open>GetLatest\<close> the newest live version, the iterator run to its end yields exactly the live
  versions in order, oldest version of a key first. \<open>LastKey\<close> gives the last live version when
  the cache of the last active node is empty, and the cached version otherwise. The cache is
  exactly this: a new version replaces a smaller one or fills the empty cache, deleting the
  cached version empties it, \<open>LastKey\<close> fills it. So \<open>LastKey\<close> is the last live version, as its
  comment says, until the cached version is deleted and another one inserted before the next
  \<open>LastKey\<close>; then it may be a smaller one (\<open>LastKey_after_delete_and_put\<close> below).
\<close>

theorem memtable_reads_refine:
  assumes "mt_rep m ms"
  shows "(\<exists>m'. mt_Get k m = Some (mem_get (mk_key k) (CommitTS k) ms, m') \<and> mt_rep m' ms) \<and>
    (\<exists>m'. mt_GetLatest key m = Some (mem_get_latest key ms, m') \<and> mt_rep m' ms) \<and>
    it_collect (mt_NewIterator m) = Some (live_pairs ms) \<and>
    (\<exists>l m'. mt_LastKey m = Some (l, m') \<and> mt_rep m' ms \<and>
       l = (case mt_cached m of None \<Rightarrow> mem_last ms | Some c \<Rightarrow> c) \<and>
       mt_cached m' = (if mem_live ms = [] then None else Some l)) \<and>
    (\<forall>c. mt_cached m = Some c \<longrightarrow> mem_is_live c ms) \<and>
    (\<forall>b m'. mt_room m (mk_key k) v \<longrightarrow> mt_Put rnd k v m = Some (b, m') \<longrightarrow>
       mt_cached m' = (if b then last_put k (mt_cached m) else mt_cached m) \<and>
       (mt_cached m = (if mem_live ms = [] then None else Some (mem_last ms)) \<longrightarrow> b \<longrightarrow>
          mt_cached m' = Some (mem_last (snd (mem_put k v ms))))) \<and>
    (\<forall>b m'. mt_Delete k m = Some (b, m') \<longrightarrow>
       mt_cached m' = (if b then last_drop k (mt_cached m) else mt_cached m)) \<and>
    (\<forall>b m'. mt_room m (mk_key k) None \<longrightarrow> mk_key k \<noteq> [] \<longrightarrow> mt_DeleteWithTS rnd k m = Some (b, m') \<longrightarrow>
       mt_cached m' = last_drop k (mt_cached m))"
proof -
  have put: "mt_cached m' = (if b then last_put k (mt_cached m) else mt_cached m) \<and>
       (mt_cached m = (if mem_live ms = [] then None else Some (mem_last ms)) \<longrightarrow> b \<longrightarrow>
          mt_cached m' = Some (mem_last (snd (mem_put k v ms))))"
    if "mt_room m (mk_key k) v" "mt_Put rnd k v m = Some (b, m')" for b m'
  proof -
    have b: "b = (\<not> mem_has k ms)"
      using mt_Put_refines [OF assms that(1), of rnd] that(2) by (auto simp: mem_put_def split: if_splits)
    then show ?thesis
      using mt_cached_Put [OF assms that] mem_last_put [OF mt_rep_inv [OF assms], of k v] by auto
  qed
  show ?thesis
    using mt_Get_refines [OF assms, of k] mt_GetLatest_refines [OF assms, of key]
      mt_collect_refines [OF assms] mt_LastKey_exact [OF assms] mt_cached_live [OF assms]
      put mt_cached_Delete [OF assms] mt_cached_DeleteWithTS [OF assms]
    by blast
qed

theorem memtable_reads_refine_witness:
  "\<exists>m0 m. NewMemTable = Some m0 \<and>
     mt_Put (\<lambda>_. 0) (NewMVCCKey [97] 1) (Some [5]) m0 = Some (True, m) \<and>
     map_option fst (mt_Get (NewMVCCKey [97] 7) m) = Some (Some [5], True) \<and>
     map_option fst (mt_GetLatest [97] m) = Some (Some [5], 1, True) \<and>
     it_collect (mt_NewIterator m) = Some [(NewMVCCKey [97] 1, Some [5])] \<and>
     map_option fst (mt_LastKey m) = Some (NewMVCCKey [97] 1)"
proof -
  let ?k = "NewMVCCKey [97] 1" let ?ms = "[(?k, Live (Some [5]))]"
  obtain m0 where m0: "NewMemTable = Some m0" "mt_rep m0 []"
    using NewMemTable_rep by blast
  have room: "mt_room m0 (mk_key ?k) (Some [5])"
    by (rule New_room [OF m0(1)]) (simp add: node_size_def sizeof_Node_def ArenaBlockSize_def)
  obtain m where m: "mt_Put (\<lambda>_. 0) ?k (Some [5]) m0 = Some (True, m)" "mt_rep m ?ms"
    using mt_Put_refines [OF m0(2) room, of "\<lambda>_. 0"] by (auto simp: mem_put_def mem_has_def)
  have live: "mem_live ?ms = ?ms" by (simp add: mem_live_def)
  have only: "c = ?k" if "mem_is_live c ?ms" for c
    using that by (auto simp: mem_is_live_def)
  note R = memtable_reads_refine [OF m(2), of "NewMVCCKey [97] 7" "[97]" None "\<lambda>_. 0"]
  have "map_option fst (mt_LastKey m) = Some (case mt_cached m of None \<Rightarrow> mem_last ?ms | Some c \<Rightarrow> c)"
    using R by fastforce
  moreover have "(case mt_cached m of None \<Rightarrow> mem_last ?ms | Some c \<Rightarrow> c) = ?k"
    using R only live by (cases "mt_cached m") (auto simp: mem_last_def)
  moreover have "map_option fst (mt_Get (NewMVCCKey [97] 7) m) = Some (mem_get [97] 7 ?ms)"
    using R by fastforce
  moreover have "mem_get [97] 7 ?ms = (Some [5], True)"
    by (simp add: mem_get_def mem_version_def mem_visible_def mem_chain_def del: CommitTS_le_iff)
  moreover have "map_option fst (mt_GetLatest [97] m) = Some (mem_get_latest [97] ?ms)"
    using R by fastforce
  moreover have "mem_get_latest [97] ?ms = (Some [5], 1, True)"
    by (simp add: mem_get_latest_def mem_chain_def mem_live_def Let_def)
  moreover have "it_collect (mt_NewIterator m) = Some (live_pairs ?ms)" using R by blast
  moreover have "live_pairs ?ms = [(?k, Some [5])]" by (simp add: live_pairs_def live)
  ultimately show ?thesis using m0(1) m(1) by auto
qed

text \<open>
  C6. Snapshot reads: after a version of a key has been put at \<open>ts\<close>, a read of the key at any
  snapshot \<open>snap \<ge> ts\<close> that no newer version reaches returns it, while reads of other keys and
  reads at snapshots before \<open>ts\<close> return what they returned before the put.
\<close>

theorem memtable_snapshot_reads:
  assumes "mt_rep m ms" and "mt_room m key v" and "key \<noteq> []"
    and "\<not> mem_has (NewMVCCKey key ts) ms" and "ts \<le> snap"
    and "\<And>k v. (k, v) \<in> set ms \<Longrightarrow> mk_key k = key \<Longrightarrow> CommitTS k \<le> snap \<Longrightarrow> CommitTS k \<le> ts"
  shows "\<exists>m'. mt_Put rnd (NewMVCCKey key ts) v m = Some (True, m') \<and>
    map_option fst (mt_Get (NewMVCCKey key snap) m') = Some (v, True) \<and>
    (\<forall>key' snap'. key' \<noteq> key \<or> snap' < ts \<longrightarrow>
       map_option fst (mt_Get (NewMVCCKey key' snap') m') =
       map_option fst (mt_Get (NewMVCCKey key' snap') m))"
proof -
  have "\<exists>m'. mt_Put rnd (NewMVCCKey key ts) v m = Some (True, m') \<and>
      mti.read key snap m' = Some (v, True)"
    by (rule mti.read_own_put [OF assms(1-5)]) (rule assms(6))
  then obtain m' where put: "mt_Put rnd (NewMVCCKey key ts) v m = Some (True, m')"
    and own: "mti.read key snap m' = Some (v, True)"
    by blast
  have "mti.read key' snap' m' = mti.read key' snap' m" if "key' \<noteq> key \<or> snap' < ts" for key' snap'
    by (rule mti.read_unaffected [OF assms(1) _ put]) (use assms(2) that in auto)
  with put own show ?thesis by (auto simp: mti.read_def)
qed

theorem memtable_snapshot_reads_witness:
  "\<exists>m m'. NewMemTable = Some m \<and>
     mt_Put (\<lambda>_. 0) (NewMVCCKey [97] 3) (Some [5]) m = Some (True, m') \<and>
     map_option fst (mt_Get (NewMVCCKey [97] 7) m') = Some (Some [5], True) \<and>
     map_option fst (mt_Get (NewMVCCKey [97] 2) m') =
     map_option fst (mt_Get (NewMVCCKey [97] 2) m)"
proof -
  obtain m where m: "NewMemTable = Some m" "mt_rep m []"
    using NewMemTable_rep by blast
  have room: "mt_room m [97] (Some [5])"
    by (rule New_room [OF m(1)]) (simp add: node_size_def sizeof_Node_def ArenaBlockSize_def)
  obtain m' where m': "mt_Put (\<lambda>_. 0) (NewMVCCKey [97] 3) (Some [5]) m = Some (True, m')"
    "map_option fst (mt_Get (NewMVCCKey [97] 7) m') = Some (Some [5], True)"
    "\<forall>key' snap'. key' \<noteq> [97] \<or> snap' < 3 \<longrightarrow>
       map_option fst (mt_Get (NewMVCCKey key' snap') m') =
       map_option fst (mt_Get (NewMVCCKey key' snap') m)"
  proof -
    have "[97 :: u8] \<noteq> []" "\<not> mem_has (NewMVCCKey [97] 3) []" "(3 :: u64) \<le> 7"
      by (simp_all add: mem_has_def)
    moreover have "CommitTS k \<le> 3" if "(k, v) \<in> set ([] :: mem)" "mk_key k = [97]" "CommitTS k \<le> 7"
      for k v using that(1) by simp
    ultimately have "\<exists>m'. mt_Put (\<lambda>_. 0) (NewMVCCKey [97] 3) (Some [5]) m = Some (True, m') \<and>
      map_option fst (mt_Get (NewMVCCKey [97] 7) m') = Some (Some [5], True) \<and>
      (\<forall>key' snap'. key' \<noteq> [97] \<or> snap' < 3 \<longrightarrow>
         map_option fst (mt_Get (NewMVCCKey key' snap') m') =
         map_option fst (mt_Get (NewMVCCKey key' snap') m))"
      by (rule memtable_snapshot_reads [OF m(2) room])
    then show thesis using that by blast
  qed
  have "(2::u64) < 3" by simp
  then have "map_option fst (mt_Get (NewMVCCKey [97] 2) m') = map_option fst (mt_Get (NewMVCCKey [97] 2) m)"
    using m'(3) [rule_format, of "[97]" 2] by blast
  with m(1) m'(1,2) show ?thesis by (intro exI [of _ m] exI [of _ m'] conjI)
qed

section \<open>Where the code departs from its comments\<close>

text \<open>
  \<open>GetLatest\<close> skips tombstones: after a key was put at 1 and deleted at 2 it still returns the
  version at 1 as the latest live value.
\<close>

theorem GetLatest_ignores_newer_tombstone:
  "mt_rep m [(NewMVCCKey [97] 1, Live (Some [5])), (NewMVCCKey [97] 2, Tomb)] \<Longrightarrow>
   map_option fst (mt_GetLatest [97] m) = Some (Some [5], 1, True) \<and>
   map_option fst (mt_Get (NewMVCCKey [97] 2) m) = Some (None, False)"
  using mt_GetLatest_refines [of m _ "[97]"] mt_Get_refines [of m _ "NewMVCCKey [97] 2"]
  by (fastforce simp: mem_get_latest_def mem_chain_def mem_live_def Let_def mem_get_def
      mem_version_def mem_visible_def simp del: CommitTS_le_iff)

text \<open>
  \<open>LastKey\<close> need not be the last key: after the cached version \<open>l\<close> was deleted, the next version
  inserted is what \<open>LastKey\<close> returns, however many larger versions are live.
\<close>

theorem LastKey_after_delete_and_put:
  assumes "mt_rep m ms" "mt_cached m = Some l" "mk_key l \<noteq> []"
    and "mt_room m (mk_key k) v" "\<not> mem_has k ms"
  shows "\<exists>m1 m2 m3. mt_Delete l m = Some (True, m1) \<and> mt_Put rnd k v m1 = Some (True, m2) \<and>
    mt_LastKey m2 = Some (k, m3)"
proof -
  have live: "mem_is_live l ms" by (rule mt_cached_live [OF assms(1,2)])
  obtain m1 where m1: "mt_Delete l m = Some (True, m1)" "mt_rep m1 (mem_mark l ms)"
    using mt_Delete_refines [OF assms(1), of l] live assms(3) by (auto simp: mem_delete_def)
  have room: "mt_room m1 (mk_key k) v" using mt_Delete_room [OF assms(1) m1(1)] assms(4) by simp
  have c1: "mt_cached m1 = None" using mt_cached_Delete [OF assms(1) m1(1)] assms(2) by (simp add: last_drop_def)
  have absent: "\<not> mem_has k (mem_mark l ms)"
    using assms(5) map_fst_mem_mark [of l ms] unfolding mem_has_def by (metis list.set_map)
  then obtain m2 where m2: "mt_Put rnd k v m1 = Some (True, m2)" "mt_rep m2 (snd (mem_put k v (mem_mark l ms)))"
    using mt_Put_refines [OF m1(2) room, of rnd] by (auto simp: mem_put_def)
  have "mt_cached m2 = Some k"
    using mt_cached_Put [OF m1(2) room m2(1)] absent c1 by (simp add: last_put_def)
  with mt_LastKey_exact [OF m2(2)] m1(1) m2(1) show ?thesis by auto
qed

text \<open>
  An empty user key can be stored but never read back: \<open>Get\<close> takes the nil key of the node it
  finds for the end of the list.
\<close>

theorem empty_key_unreadable:
  "mt_rep m ms \<Longrightarrow> map_option fst (mt_Get (NewMVCCKey [] ts) m) = Some (None, False)"
  using mt_Get_refines [of m ms "NewMVCCKey [] ts"] by (auto simp: mem_get_def)

end
