(* ===== verification/Bloom.thy ===== *)
theory Bloom
  imports Prelude
begin

text \<open>
  Models \<^verbatim>\<open>internal/engine/sstable/bloom.go\<close>: the Bloom filter of an SSTable with its seeded
  FNV-1a double hashing and its storage format. The floating-point sizing formulas are
  parameters (\<open>raw_bits\<close>, \<open>raw_hashes\<close>: the rounded-up results before clamping), and so are the
  two draws of the runtime's random generator behind a new seed.
\<close>

record bloom_filter =
  bf_bits :: "u64 list"
  bf_m :: u64
  bf_k :: u64
  bf_n :: u64
  bf_seed :: u64

definition MinBits :: u64 where "MinBits = 64"
definition MaxBits :: u64 where "MaxBits = 10000000"
definition MinKeys :: int where "MinKeys = 1"
definition MaxKeys :: int where "MaxKeys = 1000000"
definition bloomFormatVersion :: u8 where "bloomFormatVersion = 1"

definition empty_bloom :: bloom_filter where
  "empty_bloom = \<lparr>bf_bits = [], bf_m = 0, bf_k = 0, bf_n = 0, bf_seed = 0\<rparr>"

definition optimalBits :: "(u64 \<Rightarrow> u64) \<Rightarrow> u64 \<Rightarrow> u64" where
  "optimalBits raw_bits n =
     (if n = 0 then MinBits
      else
        let mBits = raw_bits n;
            mBits = (mBits + 63) AND NOT 63;
            mBits = (if mBits < MinBits then MinBits else mBits)
        in if mBits > MaxBits then MaxBits else mBits)"

definition optimalHashCount :: "(u64 \<Rightarrow> u64 \<Rightarrow> u64) \<Rightarrow> u64 \<Rightarrow> u64 \<Rightarrow> u64" where
  "optimalHashCount raw_hashes m n =
     (if n = 0 then 1
      else
        let k = raw_hashes m n in
        if k < 1 then 1 else if k > 30 then 30 else k)"

definition fresh_seed :: "u32 \<Rightarrow> u32 \<Rightarrow> u64" where
  "fresh_seed r1 r2 = push_bit 32 (ucast r1) OR ucast r2"

definition NewBloomFilter ::
    "(u64 \<Rightarrow> u64) \<Rightarrow> (u64 \<Rightarrow> u64 \<Rightarrow> u64) \<Rightarrow> u32 \<Rightarrow> u32 \<Rightarrow> int \<Rightarrow> bloom_filter" where
  "NewBloomFilter raw_bits raw_hashes r1 r2 expectedKeys =
     (let expectedKeys = (if expectedKeys \<le> 0 then MinKeys else expectedKeys);
          expectedKeys = (if expectedKeys > MaxKeys then MaxKeys else expectedKeys);
          n = word_of_int expectedKeys;
          m = optimalBits raw_bits n;
          k = optimalHashCount raw_hashes m n
      in \<lparr>bf_bits = replicate (unat ((m + 63) div 64)) 0, bf_m = m, bf_k = k, bf_n = 0,
          bf_seed = fresh_seed r1 r2\<rparr>)"

definition bloom_hash :: "bloom_filter \<Rightarrow> bytes \<Rightarrow> u64 \<times> u64" where
  "bloom_hash b key =
     (let h = foldl (\<lambda>h c. (h XOR ucast c) * 0x100000001b3) (bf_seed b) key;
          h1 = h;
          h2 = h1 XOR 0x9e3779b97f4a7c15;
          h2 = h2 XOR drop_bit 33 h2;
          h2 = h2 * 0xff51afd7ed558ccd;
          h2 = h2 XOR drop_bit 33 h2;
          h2 = h2 * 0xc4ceb9fe1a85ec53;
          h2 = h2 XOR drop_bit 33 h2
      in (h1, h2))"

definition bloom_pos :: "u64 \<Rightarrow> u64 \<Rightarrow> u64 \<Rightarrow> u64 \<Rightarrow> u64" where
  "bloom_pos h1 h2 m i = (h1 + i * h2) mod m"

definition set_pos :: "u64 \<Rightarrow> u64 list \<Rightarrow> u64 list" where
  "set_pos pos bits =
     (let w = unat (pos div 64)
      in bits[w := bits ! w OR push_bit (unat (pos mod 64)) 1])"

definition test_pos :: "u64 \<Rightarrow> u64 list \<Rightarrow> bool" where
  "test_pos pos bits \<longleftrightarrow> bits ! unat (pos div 64) AND push_bit (unat (pos mod 64)) 1 \<noteq> 0"

text \<open>The loops over \<open>i < k\<close>, as recursion on the number of rounds left.\<close>

fun bloom_set_loop :: "nat \<Rightarrow> u64 \<Rightarrow> u64 \<Rightarrow> u64 \<Rightarrow> u64 \<Rightarrow> u64 list \<Rightarrow> u64 list" where
  "bloom_set_loop 0 i h1 h2 m bits = bits"
| "bloom_set_loop (Suc n) i h1 h2 m bits =
     bloom_set_loop n (i + 1) h1 h2 m (set_pos (bloom_pos h1 h2 m i) bits)"

fun bloom_test_loop :: "nat \<Rightarrow> u64 \<Rightarrow> u64 \<Rightarrow> u64 \<Rightarrow> u64 \<Rightarrow> u64 list \<Rightarrow> bool" where
  "bloom_test_loop 0 i h1 h2 m bits = True"
| "bloom_test_loop (Suc n) i h1 h2 m bits =
     (if \<not> test_pos (bloom_pos h1 h2 m i) bits then False
      else bloom_test_loop n (i + 1) h1 h2 m bits)"

definition bloom_Add :: "bytes \<Rightarrow> bloom_filter \<Rightarrow> bloom_filter" where
  "bloom_Add key b =
     (if bf_m b = 0 \<or> bf_k b = 0 then b
      else
        let (h1, h2) = bloom_hash b key
        in b\<lparr>bf_bits := bloom_set_loop (unat (bf_k b)) 0 h1 h2 (bf_m b) (bf_bits b),
             bf_n := bf_n b + 1\<rparr>)"

definition MayContain :: "bloom_filter \<Rightarrow> bytes \<Rightarrow> bool" where
  "MayContain b key =
     (if bf_m b = 0 \<or> bf_k b = 0 then False
      else
        let (h1, h2) = bloom_hash b key
        in bloom_test_loop (unat (bf_k b)) 0 h1 h2 (bf_m b) (bf_bits b))"

definition bloom_Encode :: "bloom_filter \<Rightarrow> bytes" where
  "bloom_Encode b =
     [bloomFormatVersion] @ put_le64 (bf_m b) @ put_le64 (bf_k b) @ put_le64 (bf_n b) @
     put_le64 (bf_seed b) @ concat (map put_le64 (bf_bits b))"

text \<open>\<open>count\<close> words of 64 bits from the start of the slice.\<close>

fun get_words :: "nat \<Rightarrow> bytes \<Rightarrow> u64 list" where
  "get_words 0 d = []"
| "get_words (Suc n) d = get_le64 d # get_words n (drop 8 d)"

definition decodeNewFormat :: "bytes \<Rightarrow> bloom_filter" where
  "decodeNewFormat d =
     (if length d < 1 + 8 + 8 + 8 + 8 then empty_bloom
      else
        let m = get_le64 (drop 1 d); k = get_le64 (drop 9 d); n = get_le64 (drop 17 d);
            seed = get_le64 (drop 25 d);
            bitsLen = unat ((m + 63) div 64); bitsBytes = bitsLen * 8 in
        if 33 + bitsBytes > length d then empty_bloom
        else \<lparr>bf_bits = get_words bitsLen (drop 33 d), bf_m = m, bf_k = k, bf_n = n, bf_seed = seed\<rparr>)"

text \<open>
  The legacy format has no header: the bytes after the 4-byte seed are the bits. \<open>est\<close> is the
  floating-point estimate of the number of keys.
\<close>

fun legacy_words :: "nat \<Rightarrow> bytes \<Rightarrow> u64 list" where
  "legacy_words 0 d = []"
| "legacy_words (Suc n) d = word_of_nat (nat_le (take 8 d)) # legacy_words n (drop 8 d)"

definition decodeLegacyFormat ::
    "(u64 \<Rightarrow> u64) \<Rightarrow> (u64 \<Rightarrow> u64 \<Rightarrow> u64) \<Rightarrow> u32 \<Rightarrow> u32 \<Rightarrow> bytes \<Rightarrow> bloom_filter" where
  "decodeLegacyFormat est raw_hashes r1 r2 d =
     (if length d < 4 then empty_bloom
      else
        let bitsBytes = length d - 4;
            m = word_of_nat (bitsBytes * 8);
            n = est m;
            k = optimalHashCount raw_hashes m n;
            numUint64 = (bitsBytes + 7) div 8
        in \<lparr>bf_bits = legacy_words numUint64 (drop 4 d), bf_m = m, bf_k = k, bf_n = 0,
            bf_seed = fresh_seed r1 r2\<rparr>)"

definition DecodeBloomFilter ::
    "(u64 \<Rightarrow> u64) \<Rightarrow> (u64 \<Rightarrow> u64 \<Rightarrow> u64) \<Rightarrow> u32 \<Rightarrow> u32 \<Rightarrow> bytes \<Rightarrow> bloom_filter" where
  "DecodeBloomFilter est raw_hashes r1 r2 d =
     (if d = [] then empty_bloom
      else if length d \<ge> 1 \<and> d ! 0 = bloomFormatVersion then decodeNewFormat d
      else decodeLegacyFormat est raw_hashes r1 r2 d)"

definition bloom_Len :: "bloom_filter \<Rightarrow> int" where
  "bloom_Len b = sint (bf_n b)"

section \<open>No false negatives\<close>

definition bloom_wf :: "bloom_filter \<Rightarrow> bool" where
  "bloom_wf b \<longleftrightarrow> 0 < bf_m b \<and> 0 < bf_k b \<and> bf_m b \<le> MaxBits \<and>
     length (bf_bits b) = unat ((bf_m b + 63) div 64)"

lemma optimalBits_bounds: "0 < optimalBits f n" "optimalBits f n \<le> MaxBits"
  by (auto simp: optimalBits_def MinBits_def MaxBits_def Let_def not_less word_less_nat_alt
      word_le_nat_alt)

lemma optimalHashCount_pos: "0 < optimalHashCount f m n"
proof -
  have "x \<noteq> 0 \<Longrightarrow> 0 < (x :: u64)" for x by (simp add: word_neq_0_conv)
  moreover have "\<not> x < 1 \<Longrightarrow> x \<noteq> 0" for x :: u64 by (auto simp: word_less_1)
  ultimately show ?thesis by (simp add: optimalHashCount_def Let_def)
qed

lemma bloom_wf_New: "bloom_wf (NewBloomFilter f g r1 r2 n)"
  using optimalBits_bounds optimalHashCount_pos by (simp add: NewBloomFilter_def bloom_wf_def Let_def)

lemma length_set_pos [simp]: "length (set_pos p bits) = length bits"
  by (simp add: set_pos_def Let_def)

lemma length_set_loop [simp]: "length (bloom_set_loop n i h1 h2 m bits) = length bits"
  by (induction n arbitrary: i bits) auto

lemma bloom_wf_Add: "bloom_wf b \<Longrightarrow> bloom_wf (bloom_Add key b)"
  by (simp add: bloom_wf_def bloom_Add_def Let_def split: prod.split)

lemma test_pos_bit: "test_pos p bits \<longleftrightarrow> bit (bits ! unat (p div 64)) (unat (p mod 64))"
proof -
  have "p mod 64 < 64" by (rule word_mod_less_divisor) simp
  then have "unat (p mod 64) < 64" by (simp add: word_less_nat_alt)
  then have "w AND push_bit (unat (p mod 64)) 1 \<noteq> 0 \<longleftrightarrow> bit w (unat (p mod 64))" for w :: u64
    using and_exp_eq_0_iff_not_bit [of w "unat (p mod 64)"] by (simp add: push_bit_eq_mult)
  then show ?thesis by (simp add: test_pos_def)
qed

lemma test_set_pos:
  assumes "unat (p div 64) < length bits"
  shows "test_pos p (set_pos p bits)"
proof -
  have "p mod 64 < 64" by (rule word_mod_less_divisor) simp
  then have "unat (p mod 64) < 64" by (simp add: word_less_nat_alt)
  then show ?thesis using assms by (simp add: test_pos_bit set_pos_def Let_def bit_simps)
qed

lemma test_pos_mono: "test_pos q bits \<Longrightarrow> test_pos q (set_pos p bits)"
  by (cases "unat (p div 64) < length bits")
    (auto simp: test_pos_bit set_pos_def Let_def nth_list_update bit_simps not_less list_update_beyond)

lemma test_pos_loop_mono: "test_pos q bits \<Longrightarrow> test_pos q (bloom_set_loop n i h1 h2 m bits)"
  by (induction n arbitrary: i bits) (auto intro: test_pos_mono)

lemma test_loop_mono:
  "bloom_test_loop n i h1 h2 m bits \<Longrightarrow>
   bloom_test_loop n i h1 h2 m (bloom_set_loop n' i' h1' h2' m' bits)"
  by (induction n arbitrary: i) (auto intro: test_pos_loop_mono split: if_splits)

lemma pos_in_range:
  assumes "0 < m" "m \<le> MaxBits" "length bits = unat ((m + 63) div 64)"
  shows "unat (bloom_pos h1 h2 m i div 64) < length bits"
proof -
  have "unat (bloom_pos h1 h2 m i) < unat m"
    using assms(1) unfolding bloom_pos_def
    by (metis unat_mono word_mod_less_divisor)
  moreover have "unat m \<le> 10000000" using assms(2) by (simp add: MaxBits_def word_le_nat_alt)
  moreover from this have "unat (m + 63) = unat m + 63" by (simp add: unat_word_ariths)
  ultimately show ?thesis using assms(3) by (simp add: unat_div)
qed

lemma set_loop_test:
  assumes "0 < m" "m \<le> MaxBits"
  shows "length bits = unat ((m + 63) div 64) \<Longrightarrow>
    bloom_test_loop n i h1 h2 m (bloom_set_loop n i h1 h2 m bits)"
proof (induction n arbitrary: i bits)
  case (Suc n)
  let ?p = "bloom_pos h1 h2 m i"
  have "test_pos ?p (set_pos ?p bits)"
    by (rule test_set_pos) (rule pos_in_range [OF assms Suc.prems])
  then have "test_pos ?p (bloom_set_loop n (i + 1) h1 h2 m (set_pos ?p bits))"
    by (rule test_pos_loop_mono)
  with Suc show ?case by simp
qed simp

lemma MayContain_Add: "bloom_wf b \<Longrightarrow> MayContain (bloom_Add key b) key"
  using set_loop_test [of "bf_m b" "bf_bits b" "unat (bf_k b)" 0]
  by (auto simp: MayContain_def bloom_Add_def bloom_wf_def bloom_hash_def Let_def)

lemma MayContain_mono: "MayContain b key \<Longrightarrow> MayContain (bloom_Add key' b) key"
  using test_loop_mono
  by (auto simp: MayContain_def bloom_Add_def bloom_hash_def Let_def split: if_splits)

lemma bloom_wf_fold: "bloom_wf b \<Longrightarrow> bloom_wf (fold bloom_Add ks b)"
  by (induction ks arbitrary: b) (simp_all add: bloom_wf_Add)

lemma MayContain_fold_mono: "MayContain b key \<Longrightarrow> MayContain (fold bloom_Add ks b) key"
  by (induction ks arbitrary: b) (simp_all add: MayContain_mono)

lemma MayContain_fold: "bloom_wf b \<Longrightarrow> key \<in> set ks \<Longrightarrow> MayContain (fold bloom_Add ks b) key"
  by (induction ks arbitrary: b) (auto intro: MayContain_fold_mono MayContain_Add bloom_wf_Add)

section \<open>Storage\<close>

lemma get_words_concat: "get_words (length ws) (concat (map put_le64 ws) @ r) = ws"
  by (induction ws) (simp_all add: codec_simps)

lemma length_concat_words: "length (concat (map put_le64 ws)) = 8 * length ws"
  by (induction ws) auto

lemma Decode_Encode:
  assumes "bloom_wf b"
  shows "DecodeBloomFilter est g r1 r2 (bloom_Encode b) = b"
proof -
  have drops: "drop (Suc n) (x # xs) = drop n xs" for n and x :: u8 and xs by simp
  have d: "drop 1 (bloom_Encode b) = put_le64 (bf_m b) @ put_le64 (bf_k b) @ put_le64 (bf_n b) @
     put_le64 (bf_seed b) @ concat (map put_le64 (bf_bits b))"
    by (simp add: bloom_Encode_def)
  then have "drop 9 (bloom_Encode b) = put_le64 (bf_k b) @ put_le64 (bf_n b) @
     put_le64 (bf_seed b) @ concat (map put_le64 (bf_bits b))"
    "drop 17 (bloom_Encode b) = put_le64 (bf_n b) @
     put_le64 (bf_seed b) @ concat (map put_le64 (bf_bits b))"
    "drop 25 (bloom_Encode b) = put_le64 (bf_seed b) @ concat (map put_le64 (bf_bits b))"
    "drop 33 (bloom_Encode b) = concat (map put_le64 (bf_bits b))"
    by (simp_all add: bloom_Encode_def)
  moreover have "length (bloom_Encode b) = 33 + 8 * length (bf_bits b)"
    by (simp add: bloom_Encode_def length_concat_words)
  moreover have "bloom_Encode b \<noteq> []" "bloom_Encode b ! 0 = bloomFormatVersion"
    by (simp_all add: bloom_Encode_def)
  moreover have "length (bf_bits b) = unat ((bf_m b + 63) div 64)"
    using assms by (simp add: bloom_wf_def)
  moreover have "get_words (length (bf_bits b)) (concat (map put_le64 (bf_bits b))) = bf_bits b"
    using get_words_concat [of "bf_bits b" "[]"] by simp
  ultimately show ?thesis
    using d by (cases b) (simp add: DecodeBloomFilter_def decodeNewFormat_def Let_def codec_simps)
qed

text \<open>
  C9. The Bloom filter has no false negatives: in a filter built for any expected number of
  keys, whatever the floating-point sizing formulas and the random seed give, every key that
  was added is reported as possibly present, also after the filter was written to an SSTable
  and read back.
\<close>

theorem bloom_no_false_negatives:
  fixes raw_bits :: "u64 \<Rightarrow> u64" and raw_hashes :: "u64 \<Rightarrow> u64 \<Rightarrow> u64" and r1 r2 :: u32 and expected :: int
  assumes "key \<in> set ks"
  defines "b \<equiv> fold bloom_Add ks (NewBloomFilter raw_bits raw_hashes r1 r2 expected)"
  shows "MayContain b key \<and> DecodeBloomFilter est g r3 r4 (bloom_Encode b) = b"
  using MayContain_fold [OF bloom_wf_New assms(1)] Decode_Encode [OF bloom_wf_fold [OF bloom_wf_New]]
  by (simp add: b_def)

theorem bloom_no_false_negatives_witness:
  "MayContain (fold bloom_Add [[1], [2]] (NewBloomFilter (\<lambda>n. 20) (\<lambda>m n. 7) 3 4 2)) [1]"
  using bloom_no_false_negatives [of "[1]" "[[1], [2]]" "\<lambda>n. 20" "\<lambda>m n. 7" 3 4 2] by simp

end
