(* ===== verification/ValuePointer.thy ===== *)
theory ValuePointer
  imports Prelude
begin

text \<open>
  Models \<^verbatim>\<open>internal/engine/value_pointer.go\<close> and the tagging of stored values: a stored value is
  a tag byte (inline, pointer into the value log, tombstone) and its payload; a value without a
  valid tag is in the old format, where 12 bytes mean a pointer. A nil slice is \<open>None\<close>. The
  fields of a pointer are signed in Go; they are words here and are read with \<open>sint\<close>.
\<close>

definition ValuePointerSize :: nat where "ValuePointerSize = 12"

definition TypeInline :: u8 where "TypeInline = 0"
definition TypeValuePointer :: u8 where "TypeValuePointer = 1"
definition TypeTombstone :: u8 where "TypeTombstone = 2"

lemmas value_tags = TypeInline_def TypeValuePointer_def TypeTombstone_def

definition IsValidValueTag :: "u8 \<Rightarrow> bool" where
  "IsValidValueTag b \<longleftrightarrow> b = TypeInline \<or> b = TypeValuePointer \<or> b = TypeTombstone"

definition TaggedStorageSize :: "bytes option \<Rightarrow> nat" where
  "TaggedStorageSize v = (case v of None \<Rightarrow> 1 | Some v \<Rightarrow> 1 + length v)"

text \<open>Writes into \<open>dst\<close>; \<open>None\<close> is the panic of \<^verbatim>\<open>dst[0]\<close> on an empty slice.\<close>

definition EncodeTaggedValue :: "bytes option \<Rightarrow> bytes \<Rightarrow> (nat \<times> bytes) option" where
  "EncodeTaggedValue v dst =
     (if dst = [] then None
      else case v of
        None \<Rightarrow> Some (1, dst[0 := TypeTombstone])
      | Some v \<Rightarrow>
          let dst = dst[0 := TypeInline];
              n = min (length v) (length dst - 1)
          in Some (1 + n, copy_at 1 v dst))"

definition IsStoredValuePointer :: "bytes \<Rightarrow> bool" where
  "IsStoredValuePointer stored =
     (if stored = [] then False
      else if IsValidValueTag (hd stored) then hd stored = TypeValuePointer
      else length stored = ValuePointerSize)"

record value_pointer =
  vp_Offset :: u64
  vp_Size :: u32

definition EncodeValuePointer :: "value_pointer \<Rightarrow> bytes" where
  "EncodeValuePointer vp = put_be64 (vp_Offset vp) @ put_be32 (vp_Size vp)"

definition DecodeValuePointer :: "bytes \<Rightarrow> value_pointer option" where
  "DecodeValuePointer d =
     (if length d \<noteq> ValuePointerSize then None
      else Some \<lparr>vp_Offset = get_be64 (subslice 0 8 d), vp_Size = get_be32 (subslice 8 12 d)\<rparr>)"

text \<open>\<^verbatim>\<open>tagStoredValue\<close> of \<^verbatim>\<open>recovery.go\<close>: any 12-byte value is tagged as a pointer.\<close>

definition tagStoredValue :: "bytes option \<Rightarrow> bytes" where
  "tagStoredValue v =
     (case v of
        None \<Rightarrow> [TypeTombstone]
      | Some v \<Rightarrow>
          let isPtr = (length v = ValuePointerSize \<and> DecodeValuePointer v \<noteq> None) in
          if isPtr then TypeValuePointer # v else TypeInline # v)"

lemma Decode_Encode_vp [simp]: "DecodeValuePointer (EncodeValuePointer vp) = Some vp"
  by (simp add: DecodeValuePointer_def EncodeValuePointer_def ValuePointerSize_def subslice_def
      codec_simps)

lemma length_Encode_vp [simp]: "length (EncodeValuePointer vp) = 12"
  by (simp add: EncodeValuePointer_def)

lemma Decode_vp_12: "DecodeValuePointer d \<noteq> None \<longleftrightarrow> length d = 12"
  by (simp add: DecodeValuePointer_def ValuePointerSize_def)

lemma EncodeTaggedValue_exact:
  "length dst = TaggedStorageSize v \<Longrightarrow>
   EncodeTaggedValue v dst =
     Some (TaggedStorageSize v, case v of None \<Rightarrow> [TypeTombstone] | Some v \<Rightarrow> TypeInline # v)"
  by (cases dst) (auto simp: EncodeTaggedValue_def TaggedStorageSize_def copy_at_def Let_def
      split: option.splits)

lemma IsStored_tag:
  "IsStoredValuePointer (TypeInline # v) = False"
  "IsStoredValuePointer (TypeValuePointer # v) = True"
  "IsStoredValuePointer (TypeTombstone # v) = False"
  by (simp_all add: IsStoredValuePointer_def IsValidValueTag_def value_tags)

end
