(* ===== verification/Wal.thy ===== *)
theory Wal
  imports ValuePointer
begin

text \<open>
  Models \<^verbatim>\<open>internal/engine/wal.go\<close> and \<^verbatim>\<open>wal_group.go\<close>: the record format of the write-ahead log,
  its buffered group-commit writer, recovery, and closing. The log file is the list of bytes
  written so far; the outcome of every write system call is a parameter (\<open>None\<close> success,
  \<open>Some k\<close> an error after \<open>k\<close> bytes). The flush ticker is the step \<open>gc_tick\<close>, free to happen
  between any two operations; fsync moves no bytes and is only counted.
\<close>

section \<open>Records\<close>

datatype wal_error = WalEOF | WalUnexpectedEOF | WalCrcMismatch | WalTooSmall | WalClosed | WalIO | WalCallback

definition OpPut :: u8 where "OpPut = 1"
definition OpDelete :: u8 where "OpDelete = 2"
definition OpBatch :: u8 where "OpBatch = 3"

record wal_entry =
  we_Op :: u8
  we_Key :: bytes
  we_Value :: bytes
  we_Timestamp :: u64
  we_IsLarge :: bool

definition maxWalEntrySize :: nat where "maxWalEntrySize = 1 * 1024 * 1024"

definition walFlagIsLarge :: u8 where "walFlagIsLarge = 1"

text \<open>Encodes into \<open>dst\<close> and returns the number of bytes and the buffer.\<close>

definition encodeWalEntryTo :: "wal_entry \<Rightarrow> bytes \<Rightarrow> wal_error + nat \<times> bytes" where
  "encodeWalEntryTo e dst =
     (let keyLen = length (we_Key e);
          valLen = length (we_Value e);
          totalSize = 1 + 1 + 8 + 2 + 4 + keyLen + valLen + 4 in
      if totalSize > length dst then Inl WalTooSmall
      else
        let flags = (if we_IsLarge e then 0 OR walFlagIsLarge else 0);
            dst = copy_at 0 [we_Op e, flags] dst;
            dst = copy_at 2 (put_be64 (we_Timestamp e)) dst;
            dst = copy_at 10 (put_be16 (word_of_nat keyLen)) dst;
            dst = copy_at 12 (put_be32 (word_of_nat valLen)) dst;
            dst = copy_at 16 (we_Key e) dst;
            pos = 16 + keyLen;
            dst = copy_at pos (we_Value e) dst;
            pos = pos + valLen;
            crc = crc32_ieee (take pos dst);
            dst = copy_at pos (put_be32 crc) dst
        in Inr (pos + 4, dst))"

text \<open>\<^verbatim>\<open>io.ReadFull\<close> on the rest of the log.\<close>

definition read_full :: "nat \<Rightarrow> bytes \<Rightarrow> wal_error + bytes \<times> bytes" where
  "read_full n r =
     (if n \<le> length r then Inr (take n r, drop n r)
      else if r = [] then Inl WalEOF else Inl WalUnexpectedEOF)"

definition decodeWalEntry :: "bytes \<Rightarrow> wal_error + wal_entry \<times> bytes" where
  "decodeWalEntry r =
     (case read_full (1 + 1 + 8 + 2 + 4) r of Inl err \<Rightarrow> Inl err | Inr (header, r) \<Rightarrow>
        let op = header ! 0;
            flags = header ! 1;
            timestamp = get_be64 (subslice 2 10 header);
            keyLen = unat (get_be16 (subslice 10 12 header));
            valLen = unat (get_be32 (subslice 12 16 header)) in
        case read_full keyLen r of Inl err \<Rightarrow> Inl err | Inr (key, r) \<Rightarrow>
        case read_full valLen r of Inl err \<Rightarrow> Inl err | Inr (val, r) \<Rightarrow>
        case read_full 4 r of Inl err \<Rightarrow> Inl err | Inr (crcBuf, r) \<Rightarrow>
          let crcStored = get_be32 crcBuf;
              data = header @ key @ val in
          if crc32_ieee data \<noteq> crcStored then Inl WalCrcMismatch
          else Inr (\<lparr>we_Op = op, we_Key = key, we_Value = val, we_Timestamp = timestamp,
                     we_IsLarge = (flags AND walFlagIsLarge \<noteq> 0)\<rparr>, r))"

lemma read_full_shorter: "read_full n r = Inr (a, r') \<Longrightarrow> length r' + n = length r \<and> length a = n"
  by (auto simp: read_full_def split: if_splits)

lemma decodeWalEntry_shorter: "decodeWalEntry r = Inr (e, r') \<Longrightarrow> length r' < length r"
  by (auto simp: decodeWalEntry_def Let_def split: sum.splits prod.splits if_splits
      dest!: read_full_shorter)

text \<open>
  The recovery loop: entries are handed to the callback, which threads the state \<open>s\<close>, until
  the callback fails or decoding does; a decoding error only stops the loop.
\<close>

function recover_loop :: "('s \<Rightarrow> wal_entry \<Rightarrow> bool \<times> 's) \<Rightarrow> bytes \<Rightarrow> 's \<Rightarrow> wal_error option \<times> 's" where
  "recover_loop cb r s =
     (case decodeWalEntry r of
        Inl err \<Rightarrow> (None, s)
      | Inr (e, r') \<Rightarrow>
          (case cb s e of
             (False, s) \<Rightarrow> (Some WalCallback, s)
           | (True, s) \<Rightarrow> recover_loop cb r' s))"
  by pat_completeness auto
termination
  by (relation "measure (\<lambda>(cb, r, s). length r)") (auto dest: decodeWalEntry_shorter)

declare recover_loop.simps [simp del]

section \<open>The group-commit writer\<close>

definition groupCommitPageSize :: nat where "groupCommitPageSize = 64 * 1024"
definition groupCommitNumPages :: nat where "groupCommitNumPages = 4"
definition groupCommitBufSize :: nat where
  "groupCommitBufSize = groupCommitPageSize * groupCommitNumPages"

record gc_writer =
  gc_buf :: bytes
  gc_bufSize :: nat
  gc_bufCap :: nat
  gc_file :: bytes
  gc_flushErr :: bool
  gc_closed :: bool
  gc_syncMode :: bool
  gc_syncPending :: bool

definition newGroupCommitWriter :: "bytes \<Rightarrow> bool \<Rightarrow> gc_writer" where
  "newGroupCommitWriter file syncMode =
     \<lparr>gc_buf = replicate groupCommitBufSize 0, gc_bufSize = 0, gc_bufCap = groupCommitBufSize,
      gc_file = file, gc_flushErr = False, gc_closed = False, gc_syncMode = syncMode,
      gc_syncPending = False\<rparr>"

definition file_write :: "nat option \<Rightarrow> bytes \<Rightarrow> bytes \<Rightarrow> bool \<times> bytes" where
  "file_write io d file =
     (case io of None \<Rightarrow> (True, file @ d) | Some k \<Rightarrow> (False, file @ take k d))"

definition gc_flushLocked :: "nat option \<Rightarrow> gc_writer \<Rightarrow> bool \<times> gc_writer" where
  "gc_flushLocked io w =
     (if gc_bufSize w = 0 then (True, w)
      else
        case file_write io (take (gc_bufSize w) (gc_buf w)) (gc_file w) of
          (False, f) \<Rightarrow> (False, w\<lparr>gc_file := f, gc_flushErr := True\<rparr>)
        | (True, f) \<Rightarrow>
            let w = w\<lparr>gc_file := f, gc_bufSize := 0\<rparr>
            in (True, if gc_syncMode w then w\<lparr>gc_syncPending := True\<rparr> else w))"

definition gc_Write :: "nat option \<Rightarrow> bytes \<Rightarrow> gc_writer \<Rightarrow> wal_error option \<times> gc_writer" where
  "gc_Write io d w =
     (if gc_closed w then (Some WalClosed, w)
      else
        let (ok, w) = (if gc_bufSize w + length d > gc_bufCap w then gc_flushLocked io w
                       else (True, w)) in
        if \<not> ok then (Some WalIO, w)
        else
          let n = min (length d) (length (gc_buf w) - gc_bufSize w) in
          (None, w\<lparr>gc_buf := copy_at (gc_bufSize w) d (gc_buf w), gc_bufSize := gc_bufSize w + n\<rparr>))"

definition gc_Flush :: "nat option \<Rightarrow> gc_writer \<Rightarrow> bool \<times> gc_writer" where
  "gc_Flush io w = gc_flushLocked io w"

text \<open>One turn of \<^verbatim>\<open>flushLoop\<close>; the error of the flush is only remembered.\<close>

definition gc_tick :: "nat option \<Rightarrow> gc_writer \<Rightarrow> gc_writer" where
  "gc_tick io w =
     (let (ok, w) = gc_flushLocked io w in if ok then w else w\<lparr>gc_flushErr := True\<rparr>)"

text \<open>One turn of \<^verbatim>\<open>syncLoop\<close>: \<open>ok\<close> is the outcome of \<^verbatim>\<open>file.Sync\<close>.\<close>

definition gc_sync :: "bool \<Rightarrow> gc_writer \<Rightarrow> gc_writer" where
  "gc_sync ok w =
     (if \<not> gc_syncPending w then w
      else
        let w = w\<lparr>gc_syncPending := False\<rparr> in
        if ok then w else w\<lparr>gc_flushErr := True\<rparr>)"

definition gc_Close :: "nat option \<Rightarrow> gc_writer \<Rightarrow> bool \<times> gc_writer" where
  "gc_Close io w =
     (if gc_closed w then (True, w)
      else let w = w\<lparr>gc_closed := True\<rparr> in gc_flushLocked io w)"

definition gc_Error :: "gc_writer \<Rightarrow> bool" where
  "gc_Error w = gc_flushErr w"

section \<open>The log\<close>

text \<open>
  The log owns its file; with group commit the writer holds it (\<open>wal_group\<close>), without it the
  records go straight to \<open>wal_file\<close>.
\<close>

record wal =
  wal_file :: bytes
  wal_offset :: nat
  wal_group :: "gc_writer option"
  wal_encodeBuf :: bytes

definition OpenWAL :: "bytes \<Rightarrow> bool \<Rightarrow> bool \<Rightarrow> wal" where
  "OpenWAL file groupCommitEnabled syncMode =
     \<lparr>wal_file = file, wal_offset = length file,
      wal_group = (if groupCommitEnabled then Some (newGroupCommitWriter file syncMode) else None),
      wal_encodeBuf = replicate maxWalEntrySize 0\<rparr>"

definition wal_Write ::
    "nat option \<Rightarrow> bool \<Rightarrow> wal_entry \<Rightarrow> wal \<Rightarrow> wal_error option \<times> wal" where
  "wal_Write io sync_ok e w =
     (case encodeWalEntryTo e (wal_encodeBuf w) of
        Inl err \<Rightarrow> (Some err, w)
      | Inr (n, dst) \<Rightarrow>
          let w = w\<lparr>wal_encodeBuf := dst\<rparr>;
              buf = take n dst in
          case wal_group w of
            Some g \<Rightarrow>
              (case gc_Write io buf g of
                 (Some err, g) \<Rightarrow> (Some err, w\<lparr>wal_group := Some g\<rparr>)
               | (None, g) \<Rightarrow>
                   (None, w\<lparr>wal_group := Some g, wal_offset := wal_offset w + n\<rparr>))
          | None \<Rightarrow>
              (case file_write io buf (wal_file w) of
                 (False, f) \<Rightarrow> (Some WalIO, w\<lparr>wal_file := f\<rparr>)
               | (True, f) \<Rightarrow>
                   let w = w\<lparr>wal_file := f\<rparr> in
                   if \<not> sync_ok then (Some WalIO, w)
                   else (None, w\<lparr>wal_offset := wal_offset w + n\<rparr>)))"

definition wal_Flush :: "nat option \<Rightarrow> wal \<Rightarrow> bool \<times> wal" where
  "wal_Flush io w =
     (case wal_group w of
        Some g \<Rightarrow> (case gc_Flush io g of (ok, g) \<Rightarrow> (ok, w\<lparr>wal_group := Some g\<rparr>))
      | None \<Rightarrow> (True, w))"

text \<open>The bytes on disk.\<close>

definition wal_disk :: "wal \<Rightarrow> bytes" where
  "wal_disk w = (case wal_group w of Some g \<Rightarrow> gc_file g | None \<Rightarrow> wal_file w)"

definition wal_Recover ::
    "('s \<Rightarrow> wal_entry \<Rightarrow> bool \<times> 's) \<Rightarrow> wal \<Rightarrow> 's \<Rightarrow> wal_error option \<times> 's" where
  "wal_Recover cb w s = recover_loop cb (wal_disk w) s"

definition wal_Close :: "nat option \<Rightarrow> wal \<Rightarrow> bool \<times> wal" where
  "wal_Close io w =
     (case wal_group w of
        Some g \<Rightarrow> (case gc_Close io g of (ok, g) \<Rightarrow> (ok, w\<lparr>wal_group := Some g\<rparr>))
      | None \<Rightarrow> (True, w))"

section \<open>Round trip of a record\<close>

definition wal_body :: "wal_entry \<Rightarrow> bytes" where
  "wal_body e =
     [we_Op e, if we_IsLarge e then 1 else 0] @ put_be64 (we_Timestamp e) @
     put_be16 (word_of_nat (length (we_Key e))) @ put_be32 (word_of_nat (length (we_Value e))) @
     we_Key e @ we_Value e"

definition wal_enc :: "wal_entry \<Rightarrow> bytes" where
  "wal_enc e = wal_body e @ put_be32 (crc32_ieee (wal_body e))"

definition wal_size :: "wal_entry \<Rightarrow> nat" where
  "wal_size e = 20 + length (we_Key e) + length (we_Value e)"

lemma length_wal_body: "length (wal_body e) = 16 + length (we_Key e) + length (we_Value e)"
  by (simp add: wal_body_def)

lemma length_wal_enc [simp]: "length (wal_enc e) = wal_size e"
  by (simp add: wal_enc_def wal_size_def length_wal_body)

lemma encode_wal_eq:
  assumes "wal_size e \<le> length dst"
  shows "encodeWalEntryTo e dst = Inr (wal_size e, wal_enc e @ drop (wal_size e) dst)"
proof -
  let ?k = "length (we_Key e)" and ?v = "length (we_Value e)"
  have len: "20 + ?k + ?v \<le> length dst" using assms by (simp add: wal_size_def)
  let ?f = "if we_IsLarge e then 0 OR walFlagIsLarge else 0"
  have f: "?f = (if we_IsLarge e then 1 else 0)" by (simp add: walFlagIsLarge_def)
  define p1 where "p1 = [we_Op e, ?f]"
  define p2 where "p2 = p1 @ put_be64 (we_Timestamp e)"
  define p3 where "p3 = p2 @ put_be16 (word_of_nat ?k)"
  define p4 where "p4 = p3 @ put_be32 (word_of_nat ?v)"
  define p5 where "p5 = p4 @ we_Key e"
  have l: "length p1 = 2" "length p2 = 10" "length p3 = 12" "length p4 = 16" "length p5 = 16 + ?k"
    by (simp_all add: p1_def p2_def p3_def p4_def p5_def)
  have body: "p5 @ we_Value e = wal_body e"
    by (simp add: p1_def p2_def p3_def p4_def p5_def wal_body_def f)
  have 1: "copy_at 0 [we_Op e, ?f] dst = p1 @ drop 2 dst"
    using copy_at_append [of 0 "[]" "[we_Op e, ?f]" dst] len
    by (simp add: p1_def numeral_2_eq_2)
  have 2: "copy_at 2 (put_be64 (we_Timestamp e)) (p1 @ drop 2 dst) = p2 @ drop 10 dst"
    using copy_at_append [of 2 p1 "put_be64 (we_Timestamp e)" "drop 2 dst"] len l by (simp add: p2_def)
  have 3: "copy_at 10 (put_be16 (word_of_nat ?k)) (p2 @ drop 10 dst) = p3 @ drop 12 dst"
    using copy_at_append [of 10 p2 "put_be16 (word_of_nat ?k)" "drop 10 dst"] len l by (simp add: p3_def)
  have 4: "copy_at 12 (put_be32 (word_of_nat ?v)) (p3 @ drop 12 dst) = p4 @ drop 16 dst"
    using copy_at_append [of 12 p3 "put_be32 (word_of_nat ?v)" "drop 12 dst"] len l by (simp add: p4_def)
  have 5: "copy_at 16 (we_Key e) (p4 @ drop 16 dst) = p5 @ drop (16 + ?k) dst"
    using copy_at_append [of 16 p4 "we_Key e" "drop 16 dst"] len l by (simp add: p5_def add.commute)
  have 6: "copy_at (16 + ?k) (we_Value e) (p5 @ drop (16 + ?k) dst) = wal_body e @ drop (16 + ?k + ?v) dst"
    using copy_at_append [of "16 + ?k" p5 "we_Value e" "drop (16 + ?k) dst"] len l body
    by (simp add: add.commute add.left_commute)
  have 7: "copy_at (16 + ?k + ?v) (put_be32 c) (wal_body e @ drop (16 + ?k + ?v) dst) =
      wal_body e @ put_be32 c @ drop (20 + ?k + ?v) dst" for c
    using copy_at_append [of "16 + ?k + ?v" "wal_body e" "put_be32 c" "drop (16 + ?k + ?v) dst"] len
    by (simp add: length_wal_body add.commute add.left_commute)
  have 8: "take (16 + ?k + ?v) (wal_body e @ drop (16 + ?k + ?v) dst) = wal_body e"
    by (simp add: length_wal_body)
  show ?thesis
    using len unfolding encodeWalEntryTo_def Let_def 1 2 3 4 5 6 7 8
    by (simp add: wal_enc_def wal_size_def)
qed

definition wal_fits :: "wal_entry \<Rightarrow> bool" where
  "wal_fits e \<longleftrightarrow> length (we_Key e) < 2 ^ 16 \<and> wal_size e \<le> groupCommitBufSize"

lemma groupCommitBufSize_eq: "groupCommitBufSize = 262144"
  by (simp add: groupCommitBufSize_def groupCommitPageSize_def groupCommitNumPages_def)

lemma decode_wal_enc:
  assumes "wal_fits e"
  shows "decodeWalEntry (wal_enc e @ r) = Inr (e, r)"
proof -
  let ?k = "length (we_Key e)" and ?v = "length (we_Value e)"
  let ?h = "[we_Op e, if we_IsLarge e then 1 else 0] @ put_be64 (we_Timestamp e) @
     put_be16 (word_of_nat ?k) @ put_be32 (word_of_nat ?v)"
  have v: "?v < 2 ^ 32" using assms by (simp add: wal_fits_def wal_size_def groupCommitBufSize_eq)
  have k: "?k < 2 ^ 16" using assms by (simp add: wal_fits_def)
  have enc: "wal_enc e @ r = ?h @ we_Key e @ we_Value e @ put_be32 (crc32_ieee (wal_body e)) @ r"
    by (simp add: wal_enc_def wal_body_def)
  have h: "read_full 16 (?h @ xs) = Inr (?h, xs)" for xs
    by (simp add: read_full_def)
  have sel: "subslice 2 10 ?h = put_be64 (we_Timestamp e)" "subslice 10 12 ?h = put_be16 (word_of_nat ?k)"
    "subslice 12 16 ?h = put_be32 (word_of_nat ?v)"
    by (simp_all add: subslice_def)
  have r: "read_full ?k (we_Key e @ xs) = Inr (we_Key e, xs)"
    "read_full ?v (we_Value e @ xs) = Inr (we_Value e, xs)"
    "read_full 4 (put_be32 c @ xs) = Inr (put_be32 c, xs)" for xs c
    by (simp_all add: read_full_def)
  have body: "?h @ we_Key e @ we_Value e = wal_body e" by (simp add: wal_body_def)
  have one: "(1 :: u8) AND 1 = 1" by simp
  show ?thesis
    unfolding decodeWalEntry_def enc
    using k v
    by (simp only: h sel r body Let_def sum.case prod.case get_put_nil unat_of_nat_small
        one_add_one numeral_plus_one add_numeral_special arith_simps) (simp add: walFlagIsLarge_def)
qed

section \<open>Recovery after a crash\<close>

text \<open>A decoded record was there in full.\<close>

lemma decode_length:
  assumes "decodeWalEntry r = Inr x"
  shows "16 \<le> length r \<and>
    20 + unat (get_be16 (subslice 10 12 (take 16 r))) + unat (get_be32 (subslice 12 16 (take 16 r)))
      \<le> length r"
  using assms
  by (auto simp: decodeWalEntry_def read_full_def Let_def split: if_splits)

lemma decode_truncated:
  assumes "wal_fits e" "n < wal_size e"
  shows "\<exists>err. decodeWalEntry (take n (wal_enc e)) = Inl err"
proof (rule ccontr)
  let ?r = "take n (wal_enc e)"
  assume "\<not> ?thesis"
  then obtain x where d: "decodeWalEntry ?r = Inr x" by (cases "decodeWalEntry ?r") auto
  note L = decode_length [OF d]
  let ?h = "[we_Op e, if we_IsLarge e then 1 else 0] @ put_be64 (we_Timestamp e) @
     put_be16 (word_of_nat (length (we_Key e))) @ put_be32 (word_of_nat (length (we_Value e)))"
  have n: "16 \<le> n" "length ?r = n" using L assms(2) by simp_all
  have "take 16 (wal_enc e) = ?h" by (simp add: wal_enc_def wal_body_def)
  then have h: "take 16 ?r = ?h" using n(1) by (simp add: min_absorb1)
  have "subslice 10 12 ?h = put_be16 (word_of_nat (length (we_Key e)))"
    "subslice 12 16 ?h = put_be32 (word_of_nat (length (we_Value e)))"
    by (simp_all add: subslice_def)
  moreover have "length (we_Key e) < 2 ^ 16" "length (we_Value e) < 2 ^ 32"
    using assms(1) by (simp_all add: wal_fits_def wal_size_def groupCommitBufSize_eq)
  ultimately have "wal_size e \<le> n"
    using L n(2) unfolding h by (simp add: get_put_nil unat_of_nat_small wal_size_def)
  with assms(2) show False by simp
qed

lemma decode_Nil: "decodeWalEntry [] = Inl WalEOF"
  by (simp add: decodeWalEntry_def read_full_def)

text \<open>What recovery hands to its callback: the fold over the entries, stopped by a failure.\<close>

fun deliver :: "('s \<Rightarrow> wal_entry \<Rightarrow> bool \<times> 's) \<Rightarrow> wal_entry list \<Rightarrow> 's \<Rightarrow> wal_error option \<times> 's" where
  "deliver cb [] s = (None, s)"
| "deliver cb (e # es) s =
     (case cb s e of (False, s) \<Rightarrow> (Some WalCallback, s) | (True, s) \<Rightarrow> deliver cb es s)"

definition wal_encs :: "wal_entry list \<Rightarrow> bytes" where
  "wal_encs es = concat (map wal_enc es)"

lemma wal_encs_simps [simp]:
  "wal_encs [] = []" "wal_encs (e # es) = wal_enc e @ wal_encs es"
  "wal_encs (es @ es') = wal_encs es @ wal_encs es'"
  by (simp_all add: wal_encs_def)

lemma recover_deliver:
  assumes "\<forall>e \<in> set es. wal_fits e" "decodeWalEntry tail = Inl err"
  shows "recover_loop cb (wal_encs es @ tail) s = deliver cb es s"
  using assms(1)
proof (induction es arbitrary: s)
  case Nil
  then show ?case using assms(2) by (simp add: recover_loop.simps [of cb tail])
next
  case (Cons e es)
  have "decodeWalEntry (wal_enc e @ wal_encs es @ tail) = Inr (e, wal_encs es @ tail)"
    using Cons.prems by (simp add: decode_wal_enc)
  with Cons show ?case
    by (simp add: recover_loop.simps [of cb "wal_enc e @ wal_encs es @ tail"] split: prod.split bool.split)
qed

lemma take_wal_encs:
  "\<exists>m \<le> length es. \<exists>k. take n (wal_encs es) = wal_encs (take m es) @ k \<and>
     (k = [] \<or> m < length es \<and> (\<exists>i < wal_size (es ! m). k = take i (wal_enc (es ! m)))) \<and>
     (\<forall>j \<le> length es. j \<le> m \<longleftrightarrow> length (wal_encs (take j es)) \<le> n)"
proof (induction es arbitrary: n)
  case Nil
  then show ?case by (intro exI [of _ 0]) simp
next
  case (Cons e es)
  have pos: "0 < wal_size e" by (simp add: wal_size_def)
  show ?case
  proof (cases "n < wal_size e")
    case True
    have "j \<le> 0 \<longleftrightarrow> length (wal_encs (take j (e # es))) \<le> n" for j
      using True by (cases j) simp_all
    with True show ?thesis
      by (intro exI [of _ 0] conjI exI [of _ "take n (wal_enc e)"]) auto
  next
    case False
    then obtain m k where IH: "m \<le> length es" "take (n - wal_size e) (wal_encs es) = wal_encs (take m es) @ k"
      "k = [] \<or> m < length es \<and> (\<exists>i < wal_size (es ! m). k = take i (wal_enc (es ! m)))"
      "\<forall>j \<le> length es. j \<le> m \<longleftrightarrow> length (wal_encs (take j es)) \<le> n - wal_size e"
      using Cons.IH by blast
    have "j \<le> Suc m \<longleftrightarrow> length (wal_encs (take j (e # es))) \<le> n" if "j \<le> length (e # es)" for j
      using that IH(4) False by (cases j) auto
    then show ?thesis
      using IH(1-3) False by (intro exI [of _ "Suc m"] conjI exI [of _ k]) auto
  qed
qed

text \<open>
  Recovery of a log that was cut anywhere hands out exactly the records that are complete in it,
  and nothing from the torn one.
\<close>

lemma recover_prefix:
  assumes "\<forall>e \<in> set es. wal_fits e"
  shows "\<exists>m \<le> length es. (\<forall>cb s. recover_loop cb (take n (wal_encs es)) (s :: 's) = deliver cb (take m es) s) \<and>
    (\<forall>j \<le> length es. j \<le> m \<longleftrightarrow> length (wal_encs (take j es)) \<le> n)"
proof -
  obtain m k where mk: "m \<le> length es" "take n (wal_encs es) = wal_encs (take m es) @ k"
    "k = [] \<or> m < length es \<and> (\<exists>i < wal_size (es ! m). k = take i (wal_enc (es ! m)))"
    "\<forall>j \<le> length es. j \<le> m \<longleftrightarrow> length (wal_encs (take j es)) \<le> n"
    using take_wal_encs by blast
  obtain err where "decodeWalEntry k = Inl err"
    using mk(3) decode_Nil decode_truncated assms by (metis nth_mem)
  then have "recover_loop cb (take n (wal_encs es)) s = deliver cb (take m es) s" for cb and s :: 's
    unfolding mk(2) by (intro recover_deliver) (auto dest: in_set_takeD simp: assms)
  with mk(1,4) show ?thesis by blast
qed

section \<open>The group-commit writer loses nothing that fits\<close>

definition gc_inv :: "gc_writer \<Rightarrow> bool" where
  "gc_inv g \<longleftrightarrow> length (gc_buf g) = groupCommitBufSize \<and> gc_bufCap g = groupCommitBufSize \<and>
     gc_bufSize g \<le> groupCommitBufSize \<and> \<not> gc_closed g"

definition gc_log :: "gc_writer \<Rightarrow> bytes" where
  "gc_log g = gc_file g @ take (gc_bufSize g) (gc_buf g)"

lemma gc_flushLocked_ok:
  assumes "gc_inv g"
  shows "\<exists>g'. gc_flushLocked None g = (True, g') \<and> gc_inv g' \<and> gc_log g' = gc_log g \<and>
    gc_file g' = gc_log g \<and> gc_bufSize g' = 0"
  using assms by (auto simp: gc_flushLocked_def file_write_def gc_inv_def gc_log_def Let_def)

lemma gc_Write_room:
  assumes "gc_inv g" "gc_bufSize g + length d \<le> groupCommitBufSize"
  defines "g' \<equiv> g\<lparr>gc_buf := copy_at (gc_bufSize g) d (gc_buf g),
    gc_bufSize := gc_bufSize g + min (length d) (length (gc_buf g) - gc_bufSize g)\<rparr>"
  shows "gc_inv g'" "gc_log g' = gc_log g @ d"
proof -
  have "take (gc_bufSize g + length d) (copy_at (gc_bufSize g) d (gc_buf g)) =
      take (gc_bufSize g) (gc_buf g) @ d"
    using assms(1,2) by (simp add: copy_at_full gc_inv_def)
  then show "gc_inv g'" "gc_log g' = gc_log g @ d"
    using assms(1,2) by (simp_all add: g'_def gc_inv_def gc_log_def min_absorb1)
qed

lemma gc_Write_ok:
  assumes inv: "gc_inv g" and d: "length d \<le> groupCommitBufSize"
  shows "\<exists>g'. gc_Write None d g = (None, g') \<and> gc_inv g' \<and> gc_log g' = gc_log g @ d"
proof (cases "gc_bufSize g + length d > gc_bufCap g")
  case False
  then show ?thesis
    using gc_Write_room [OF inv, of d] inv by (simp add: gc_Write_def gc_inv_def Let_def)
next
  case True
  obtain g1 where g1: "gc_flushLocked None g = (True, g1)" "gc_inv g1" "gc_log g1 = gc_log g"
    "gc_bufSize g1 = 0"
    using gc_flushLocked_ok [OF inv] by blast
  then show ?thesis
    using gc_Write_room [OF g1(2), of d] True d inv by (simp add: gc_Write_def gc_inv_def Let_def)
qed

text \<open>
  The operations of a writer on an open log, in any order, with ticks of the two background
  loops between them; every system call succeeds.
\<close>

datatype wal_op = WWrite wal_entry | WTick | WSync bool | WFlush

definition wal_step :: "wal \<Rightarrow> wal_op \<Rightarrow> wal" where
  "wal_step w op =
     (case op of
        WWrite e \<Rightarrow> snd (wal_Write None True e w)
      | WTick \<Rightarrow> w\<lparr>wal_group := map_option (gc_tick None) (wal_group w)\<rparr>
      | WSync ok \<Rightarrow> w\<lparr>wal_group := map_option (gc_sync ok) (wal_group w)\<rparr>
      | WFlush \<Rightarrow> snd (wal_Flush None w))"

definition wal_writes :: "wal_op list \<Rightarrow> wal_entry list" where
  "wal_writes ops = concat (map (\<lambda>op. case op of WWrite e \<Rightarrow> [e] | _ \<Rightarrow> []) ops)"

definition wal_inv :: "wal \<Rightarrow> bool" where
  "wal_inv w \<longleftrightarrow> length (wal_encodeBuf w) = maxWalEntrySize \<and>
     (case wal_group w of None \<Rightarrow> True | Some g \<Rightarrow> gc_inv g)"

definition wal_log :: "wal \<Rightarrow> bytes" where
  "wal_log w = (case wal_group w of None \<Rightarrow> wal_file w | Some g \<Rightarrow> gc_log g)"

lemma wal_Write_ok:
  assumes inv: "wal_inv w" and fits: "wal_fits e"
  shows "\<exists>w'. wal_Write None True e w = (None, w') \<and> wal_inv w' \<and> wal_log w' = wal_log w @ wal_enc e \<and>
    (wal_group w' = None \<longleftrightarrow> wal_group w = None)"
proof -
  have sz: "wal_size e \<le> groupCommitBufSize" using fits by (simp add: wal_fits_def)
  have le: "wal_size e \<le> length (wal_encodeBuf w)"
    using sz inv by (simp add: wal_inv_def maxWalEntrySize_def groupCommitBufSize_eq)
  have enc: "take (wal_size e) (wal_enc e @ drop (wal_size e) (wal_encodeBuf w)) = wal_enc e"
    by simp
  show ?thesis
  proof (cases "wal_group w")
    case None
    then show ?thesis
      using inv le by (simp add: wal_Write_def encode_wal_eq [OF le] file_write_def wal_inv_def
          wal_log_def Let_def)
  next
    case (Some g)
    then have "gc_inv g" using inv by (simp add: wal_inv_def)
    then obtain g' where "gc_Write None (wal_enc e) g = (None, g')" "gc_inv g'"
      "gc_log g' = gc_log g @ wal_enc e"
      using gc_Write_ok [of g "wal_enc e"] sz by auto
    then show ?thesis
      using Some inv le by (simp add: wal_Write_def encode_wal_eq [OF le] wal_inv_def wal_log_def Let_def)
  qed
qed

lemma wal_step_ok:
  assumes inv: "wal_inv w" and fits: "\<forall>e \<in> set (wal_writes [op]). wal_fits e"
  shows "wal_inv (wal_step w op) \<and> wal_log (wal_step w op) = wal_log w @ wal_encs (wal_writes [op])"
proof (cases op)
  case (WWrite e)
  then show ?thesis using wal_Write_ok [OF inv, of e] fits by (auto simp: wal_step_def wal_writes_def)
next
  case WTick
  show ?thesis
  proof (cases "wal_group w")
    case (Some g)
    then obtain g' where "gc_flushLocked None g = (True, g')" "gc_inv g'" "gc_log g' = gc_log g"
      using gc_flushLocked_ok [of g] inv by (auto simp: wal_inv_def)
    then show ?thesis using WTick Some inv
      by (simp add: wal_step_def wal_writes_def gc_tick_def wal_inv_def wal_log_def)
  qed (use WTick inv in \<open>simp add: wal_step_def wal_writes_def wal_inv_def wal_log_def\<close>)
next
  case (WSync ok)
  then show ?thesis using inv
    by (cases "wal_group w")
      (auto simp: wal_step_def wal_writes_def gc_sync_def wal_inv_def wal_log_def gc_inv_def gc_log_def Let_def)
next
  case WFlush
  show ?thesis
  proof (cases "wal_group w")
    case (Some g)
    then obtain g' where "gc_flushLocked None g = (True, g')" "gc_inv g'" "gc_log g' = gc_log g"
      using gc_flushLocked_ok [of g] inv by (auto simp: wal_inv_def)
    then show ?thesis using WFlush Some inv
      by (simp add: wal_step_def wal_writes_def wal_Flush_def gc_Flush_def wal_inv_def wal_log_def)
  qed (use WFlush inv in \<open>simp add: wal_step_def wal_writes_def wal_inv_def wal_log_def wal_Flush_def\<close>)
qed

lemma wal_writes_Cons: "wal_writes (op # ops) = wal_writes [op] @ wal_writes ops"
  by (simp add: wal_writes_def)

lemma wal_run_ok:
  "wal_inv w \<Longrightarrow> \<forall>e \<in> set (wal_writes ops). wal_fits e \<Longrightarrow>
   wal_inv (foldl wal_step w ops) \<and> wal_log (foldl wal_step w ops) = wal_log w @ wal_encs (wal_writes ops)"
proof (induction ops arbitrary: w)
  case Nil
  then show ?case by (simp add: wal_writes_def)
next
  case (Cons op ops)
  have "\<forall>e \<in> set (wal_writes [op]). wal_fits e" "\<forall>e \<in> set (wal_writes ops). wal_fits e"
    using Cons.prems(2) wal_writes_Cons [of op ops] by auto
  with Cons.IH [of "wal_step w op"] wal_step_ok [OF Cons.prems(1)] show ?case
    by (simp add: wal_writes_Cons [of op ops])
qed

lemma wal_inv_Open: "wal_inv (OpenWAL f gc sm)" "wal_log (OpenWAL f gc sm) = f"
  by (simp_all add: wal_inv_def OpenWAL_def newGroupCommitWriter_def gc_inv_def wal_log_def gc_log_def)

lemma wal_disk_prefix: "\<exists>n. wal_disk w = take n (wal_log w)"
proof (cases "wal_group w")
  case None
  then show ?thesis by (intro exI [of _ "length (wal_file w)"]) (simp add: wal_disk_def wal_log_def)
next
  case (Some g)
  then show ?thesis by (intro exI [of _ "length (gc_file g)"]) (simp add: wal_disk_def wal_log_def gc_log_def)
qed

lemma wal_Flush_disk:
  assumes "wal_inv w"
  shows "fst (wal_Flush None w)" "wal_disk (snd (wal_Flush None w)) = wal_log w"
proof -
  have "fst (wal_Flush None w) \<and> wal_disk (snd (wal_Flush None w)) = wal_log w"
  proof (cases "wal_group w")
    case (Some g)
    then obtain g' where "gc_flushLocked None g = (True, g')" "gc_file g' = gc_log g"
      using gc_flushLocked_ok [of g] assms by (auto simp: wal_inv_def)
    with Some show ?thesis
      by (simp add: wal_Flush_def gc_Flush_def wal_disk_def wal_log_def)
  qed (simp add: wal_Flush_def wal_disk_def wal_log_def)
  then show "fst (wal_Flush None w)" "wal_disk (snd (wal_Flush None w)) = wal_log w" by blast+
qed

text \<open>The file only grows.\<close>

lemma gc_flushLocked_grows:
  "gc_flushLocked None g = (b, g') \<Longrightarrow> \<exists>z. gc_file g' = gc_file g @ z"
  by (auto simp: gc_flushLocked_def file_write_def Let_def split: if_splits)

lemma gc_Write_grows:
  assumes "gc_Write None d g = (r, g')" shows "\<exists>z. gc_file g' = gc_file g @ z"
proof -
  obtain b g1 where "gc_flushLocked None g = (b, g1)" by (metis surj_pair)
  with gc_flushLocked_grows [OF this] assms show ?thesis
    by (auto simp: gc_Write_def Let_def split: if_splits)
qed

lemma wal_step_grows: "\<exists>z. wal_disk (wal_step w op) = wal_disk w @ z"
proof (cases "wal_group w")
  case None
  then show ?thesis
    by (cases op) (auto simp: wal_step_def wal_disk_def wal_Write_def wal_Flush_def file_write_def Let_def
        split: sum.split)
next
  case (Some g)
  obtain b g1 where fl: "gc_flushLocked None g = (b, g1)" by (metis surj_pair)
  note gr = gc_flushLocked_grows [OF fl]
  show ?thesis
  proof (cases op)
    case (WWrite e)
    show ?thesis
    proof (cases "encodeWalEntryTo e (wal_encodeBuf w)")
      case (Inl err)
      then show ?thesis using WWrite by (simp add: wal_step_def wal_Write_def)
    next
      case (Inr p)
      obtain n dst where p: "p = (n, dst)" by (cases p)
      obtain r g2 where g2: "gc_Write None (take n dst) g = (r, g2)" by (metis surj_pair)
      show ?thesis
        using gc_Write_grows [OF g2] WWrite Inr p g2 Some
        by (cases r) (simp_all add: wal_step_def wal_Write_def wal_disk_def Let_def)
    qed
  qed (use Some fl gr in \<open>auto simp: wal_step_def wal_disk_def gc_tick_def gc_sync_def wal_Flush_def
         gc_Flush_def Let_def\<close>)
qed

lemma wal_run_grows: "\<exists>z. wal_disk (foldl wal_step w ops) = wal_disk w @ z"
proof (induction ops arbitrary: w)
  case (Cons op ops)
  obtain z where "wal_disk (wal_step w op) = wal_disk w @ z" using wal_step_grows by blast
  with Cons.IH [of "wal_step w op"] show ?case by auto
qed simp

lemma wal_writes_append: "wal_writes (ops1 @ ops2) = wal_writes ops1 @ wal_writes ops2"
  by (simp add: wal_writes_def)

text \<open>
  C7. Crash consistency of the write-ahead log, with or without group commit. Take any
  sequence of writes, flushes and background ticks on a new log, a \<open>Flush\<close>, and any further
  sequence, where the system calls succeed, every record fits the 256 KB group-commit buffer and
  every key is shorter than 64 KB. If a crash leaves the first \<open>n\<close> bytes of the file, recovery
  calls back with exactly the written entries whose records are complete in these bytes, each
  with the fields that were written and in order, and never with anything from a torn record.
  When the bytes the file had after the \<open>Flush\<close> survive, these include every entry written before
  it. After another \<open>Flush\<close> recovery delivers every entry.
\<close>

theorem wal_crash_recovery:
  fixes gc sm :: bool
  assumes "\<forall>e \<in> set (wal_writes (ops1 @ ops2)). wal_fits e"
  defines "w0 \<equiv> foldl wal_step (OpenWAL [] gc sm) ops1"
  defines "w1 \<equiv> snd (wal_Flush None w0)"
  defines "w2 \<equiv> foldl wal_step w1 ops2"
  shows "fst (wal_Flush None w0) \<and>
    (\<exists>m \<le> length (wal_writes (ops1 @ ops2)).
      (\<forall>cb s. recover_loop cb (take n (wal_disk w2)) (s :: 's) =
         deliver cb (take m (wal_writes (ops1 @ ops2))) s) \<and>
      (\<forall>j \<le> length (wal_writes (ops1 @ ops2)).
         j \<le> m \<longleftrightarrow> length (wal_encs (take j (wal_writes (ops1 @ ops2)))) \<le> min n (length (wal_disk w2))) \<and>
      (length (wal_disk w1) \<le> n \<longrightarrow> length (wal_writes ops1) \<le> m)) \<and>
    (\<forall>cb s. wal_Recover cb w1 (s :: 's) = deliver cb (wal_writes ops1) s) \<and>
    fst (wal_Flush None w2) \<and>
    (\<forall>cb s. wal_Recover cb (snd (wal_Flush None w2)) (s :: 's) = deliver cb (wal_writes (ops1 @ ops2)) s)"
proof -
  let ?es = "wal_writes (ops1 @ ops2)"
  have f1: "\<forall>e \<in> set (wal_writes ops1). wal_fits e" using assms(1) by (simp add: wal_writes_append)
  have inv0: "wal_inv w0" and log0: "wal_log w0 = wal_encs (wal_writes ops1)"
    using wal_run_ok [OF wal_inv_Open(1) f1] wal_inv_Open(2) by (simp_all add: w0_def)
  have w1: "w1 = foldl wal_step (OpenWAL [] gc sm) (ops1 @ [WFlush])" by (simp add: w1_def w0_def wal_step_def)
  have w2: "w2 = foldl wal_step (OpenWAL [] gc sm) (ops1 @ [WFlush] @ ops2)" by (simp add: w2_def w1)
  have wr: "wal_writes (ops1 @ [WFlush] @ ops2) = ?es" by (simp add: wal_writes_def)
  have inv: "wal_inv w2" and log: "wal_log w2 = wal_encs ?es"
    using wal_run_ok [OF wal_inv_Open(1), of "ops1 @ [WFlush] @ ops2"] assms(1) wal_inv_Open(2)
    unfolding w2 wr by simp_all
  have d1: "wal_disk w1 = wal_encs (wal_writes ops1)" using wal_Flush_disk(2) [OF inv0] log0 by (simp add: w1_def)
  obtain n' where n': "wal_disk w2 = take n' (wal_encs ?es)" using wal_disk_prefix [of w2] log by auto
  let ?N = "min n (length (wal_disk w2))"
  have cut: "take n (wal_disk w2) = take ?N (wal_encs ?es)"
    by (simp add: n') (metis min.left_commute take_all_iff take_take order_refl length_take)
  obtain m where m: "m \<le> length ?es"
    "\<forall>cb s. recover_loop cb (take ?N (wal_encs ?es)) (s :: 's) = deliver cb (take m ?es) s"
    "\<forall>j \<le> length ?es. j \<le> m \<longleftrightarrow> length (wal_encs (take j ?es)) \<le> ?N"
    using recover_prefix [OF assms(1)] by blast
  have "length (wal_writes ops1) \<le> m" if "length (wal_disk w1) \<le> n"
  proof -
    have "length (wal_disk w1) \<le> length (wal_disk w2)"
      using wal_run_grows [of w1 ops2] by (auto simp: w2_def)
    then have "length (wal_encs (take (length (wal_writes ops1)) ?es)) \<le> ?N"
      using that by (simp add: d1 wal_writes_append)
    then show ?thesis using m(3) by (simp add: wal_writes_append)
  qed
  with m cut have crash: "\<exists>m \<le> length ?es.
      (\<forall>cb s. recover_loop cb (take n (wal_disk w2)) (s :: 's) = deliver cb (take m ?es) s) \<and>
      (\<forall>j \<le> length ?es. j \<le> m \<longleftrightarrow> length (wal_encs (take j ?es)) \<le> ?N) \<and>
      (length (wal_disk w1) \<le> n \<longrightarrow> length (wal_writes ops1) \<le> m)"
    by (intro exI [of _ m]) simp
  have all: "recover_loop cb (wal_encs es @ []) s = deliver cb es s"
    if "\<forall>e \<in> set es. wal_fits e" for cb es and s :: 's
    by (rule recover_deliver [OF that decode_Nil])
  have "wal_Recover cb w1 s = deliver cb (wal_writes ops1) s" for cb and s :: 's
    using all [OF f1] by (simp add: wal_Recover_def d1)
  moreover have "wal_Recover cb (snd (wal_Flush None w2)) s = deliver cb ?es s" for cb and s :: 's
    using all [OF assms(1)] by (simp add: wal_Recover_def wal_Flush_disk(2) [OF inv] log)
  ultimately show ?thesis using crash wal_Flush_disk(1) [OF inv0] wal_Flush_disk(1) [OF inv] by blast
qed

definition wal_example :: wal_entry where
  "wal_example = \<lparr>we_Op = OpPut, we_Key = [107], we_Value = [1, 2], we_Timestamp = 5, we_IsLarge = False\<rparr>"

text \<open>A record is written, flushed, and a second one torn by a crash after two of its bytes.\<close>

theorem wal_crash_recovery_witness:
  "\<exists>w. w = snd (wal_Flush None (foldl wal_step (OpenWAL [] True True) [WWrite wal_example, WTick])) \<and>
     length (wal_disk w) = 23 \<and>
     (\<forall>s. recover_loop (\<lambda>es e. (True, es @ [e]))
        (take 25 (wal_disk (foldl wal_step w [WWrite wal_example, WFlush]))) s = (None, s @ [wal_example]))"
proof -
  let ?w0 = "foldl wal_step (OpenWAL [] True True) [WWrite wal_example, WTick]"
  let ?w1 = "snd (wal_Flush None ?w0)"
  let ?w2 = "foldl wal_step ?w1 [WWrite wal_example, WFlush]"
  have sz: "wal_size wal_example = 23" by (simp add: wal_size_def wal_example_def)
  have fit: "wal_fits wal_example" by (simp add: wal_fits_def sz groupCommitBufSize_eq) (simp add: wal_example_def)
  have ws: "wal_writes ([WWrite wal_example, WTick] @ [WWrite wal_example, WFlush]) = [wal_example, wal_example]"
    by (simp add: wal_writes_def)
  have "\<forall>e \<in> set (wal_writes ([WWrite wal_example, WTick] @ [WWrite wal_example, WFlush])). wal_fits e"
    unfolding ws using fit by simp
  note C = wal_crash_recovery [OF this, where gc = True and sm = True and n = 25 and 's = "wal_entry list",
      unfolded ws, THEN conjunct2, THEN conjunct1]
  obtain m where m:
    "\<forall>cb s. recover_loop cb (take 25 (wal_disk ?w2)) (s :: wal_entry list) =
       deliver cb (take m [wal_example, wal_example]) s"
    "\<forall>j \<le> length [wal_example, wal_example]. j \<le> m \<longleftrightarrow>
       length (wal_encs (take j [wal_example, wal_example])) \<le> min 25 (length (wal_disk ?w2))"
    "length (wal_disk ?w1) \<le> 25 \<longrightarrow> length (wal_writes [WWrite wal_example, WTick]) \<le> m"
    using C by (elim exE conjE) (rule that)
  have inv: "wal_inv ?w0" "wal_log ?w0 = wal_enc wal_example"
    using wal_run_ok [OF wal_inv_Open(1), of "[WWrite wal_example, WTick]" "[]" True True] fit wal_inv_Open(2) [of "[]" True True]
    by (simp_all add: wal_writes_def)
  have d1: "length (wal_disk ?w1) = 23" using wal_Flush_disk(2) [OF inv(1)] inv(2) sz by simp
  have "1 \<le> m" using m(3) d1 by (simp add: wal_writes_def)
  moreover have "\<not> 2 \<le> m" using m(2) [rule_format, of 2] sz by simp
  ultimately have "m = 1" by linarith
  then have "recover_loop (\<lambda>es e. (True, es @ [e])) (take 25 (wal_disk ?w2)) s = (None, s @ [wal_example])" for s
    using m(1) by simp
  then show ?thesis using d1 by blast
qed

section \<open>Where records are lost\<close>

text \<open>
  A record of more than 256 KB passes the 1 MB check of the encoder; the group-commit buffer
  then keeps only its head, and \<open>Write\<close> still reports success.
\<close>

theorem group_commit_truncates:
  assumes "gc_inv g" "groupCommitBufSize < length d"
  shows "\<exists>g'. gc_Write None d g = (None, g') \<and> gc_log g' = gc_log g @ take groupCommitBufSize d"
proof -
  obtain g1 where g1: "gc_flushLocked None g = (True, g1)" "gc_inv g1" "gc_log g1 = gc_log g"
    "gc_bufSize g1 = 0" "gc_file g1 = gc_log g"
    using gc_flushLocked_ok [OF assms(1)] by blast
  have "gc_bufSize g + length d > gc_bufCap g" using assms by (simp add: gc_inv_def)
  then show ?thesis
    using g1 assms by (simp add: gc_Write_def gc_inv_def Let_def gc_log_def copy_at_def)
qed

text \<open>
  \<open>Recover\<close> stops at a torn record but does not cut it off, and the file is opened for
  appending: everything a later session writes lies behind the torn record and is never
  recovered.
\<close>

theorem torn_tail_hides_later_records:
  "recover_loop (\<lambda>es e. (True, es @ [e])) (take 16 (wal_enc wal_example) @ wal_enc wal_example) [] =
   (None, [])"
proof -
  have crc1: "crc32_ieee [1, 0, 0, 0, 0, 0, 0, 0, 0, 5, 0, 1, 0, 0, 0, 2, 107, 1, 2] = 1056390858"
    by code_simp
  have crc2: "crc32_ieee [1, 0, 0, 0, 0, 0, 0, 0, 0, 5, 0, 1, 0, 0, 0, 2, 1, 0, 0] = 2359435345"
    by code_simp
  have body: "wal_body wal_example = [1, 0, 0, 0, 0, 0, 0, 0, 0, 5, 0, 1, 0, 0, 0, 2, 107, 1, 2]"
    by (simp add: wal_body_def wal_example_def OpPut_def put_be64_def put_be32_def put_be16_def
        le_nat_numeral)
  have enc: "wal_enc wal_example = [1, 0, 0, 0, 0, 0, 0, 0, 0, 5, 0, 1, 0, 0, 0, 2, 107, 1, 2, 62, 247, 62, 202]"
    unfolding wal_enc_def body crc1 by (simp add: put_be32_def le_nat_numeral)
  have "decodeWalEntry ([1, 0, 0, 0, 0, 0, 0, 0, 0, 5, 0, 1, 0, 0, 0, 2, 1, 0, 0, 0, 0, 0, 0, 0, 0, 5, 0, 1, 0, 0, 0, 2, 107, 1, 2, 62, 247, 62, 202]) =
      Inl WalCrcMismatch"
    using crc2
    by (simp add: decodeWalEntry_def read_full_def subslice_def get_be16_def get_be32_def)
  then show ?thesis
    unfolding enc by (simp add: recover_loop.simps)
qed

end
