(* ===== verification/Batch.thy ===== *)
theory Batch
  imports Prelude
begin

text \<open>
  Models \<^verbatim>\<open>internal/txn/batch.go\<close> and the second decoder \<^verbatim>\<open>decodeBatchLocal\<close> of
  \<^verbatim>\<open>internal/engine/recovery.go\<close>: write batches and their wire format. The encoder fills a
  buffer of exactly the right size field after field, so the model appends the fields; the
  decoders keep the position in the data and its bounds checks.
\<close>

datatype batch_error =
  BatchTooShort | MissingOpType | MissingKeyLen | KeyTooLong | MissingValueLen | ValueTooLong
| UnknownOp

definition txn_OpPut :: int where "txn_OpPut = 0"
definition txn_OpDelete :: int where "txn_OpDelete = 1"

record batch_op =
  bo_Type :: int
  bo_Key :: bytes
  bo_Value :: "bytes option"

record write_batch =
  wb_ops :: "batch_op list"

definition NewWriteBatch :: write_batch where
  "NewWriteBatch = \<lparr>wb_ops = []\<rparr>"

definition AddPut :: "bytes \<Rightarrow> bytes option \<Rightarrow> write_batch \<Rightarrow> write_batch" where
  "AddPut key val b =
     b\<lparr>wb_ops := wb_ops b @ [\<lparr>bo_Type = txn_OpPut, bo_Key = key, bo_Value = val\<rparr>]\<rparr>"

definition AddDelete :: "bytes \<Rightarrow> write_batch \<Rightarrow> write_batch" where
  "AddDelete key b =
     b\<lparr>wb_ops := wb_ops b @ [\<lparr>bo_Type = txn_OpDelete, bo_Key = key, bo_Value = None\<rparr>]\<rparr>"

definition wb_Size :: "write_batch \<Rightarrow> nat" where
  "wb_Size b = length (wb_ops b)"

definition wb_Clear :: "write_batch \<Rightarrow> write_batch" where
  "wb_Clear b = b\<lparr>wb_ops := []\<rparr>"

fun encode_ops :: "batch_op list \<Rightarrow> batch_error + bytes" where
  "encode_ops [] = Inr []"
| "encode_ops (op # ops) =
     (if bo_Type op \<noteq> txn_OpPut \<and> bo_Type op \<noteq> txn_OpDelete then Inl UnknownOp
      else
        case encode_ops ops of
          Inl err \<Rightarrow> Inl err
        | Inr rest \<Rightarrow>
            Inr ([if bo_Type op = txn_OpPut then 1 else 2] @
                 put_be16 (word_of_nat (length (bo_Key op))) @ bo_Key op @
                 put_be32 (word_of_nat (length (slice_of (bo_Value op)))) @ slice_of (bo_Value op) @
                 rest))"

definition EncodeBatch :: "write_batch \<Rightarrow> batch_error + bytes" where
  "EncodeBatch b =
     (case encode_ops (wb_ops b) of
        Inl err \<Rightarrow> Inl err
      | Inr body \<Rightarrow> Inr (put_be16 (word_of_nat (length (wb_ops b))) @ body))"

text \<open>The fields of one operation at \<open>pos\<close>: type, key, value and the next position.\<close>

definition decode_op :: "bytes \<Rightarrow> nat \<Rightarrow> batch_error + u8 \<times> bytes \<times> bytes \<times> nat" where
  "decode_op d pos =
     (if pos + 1 > length d then Inl MissingOpType
      else
        let opType = d ! pos; pos = pos + 1 in
        if pos + 2 > length d then Inl MissingKeyLen
        else
          let keyLen = unat (get_be16 (subslice pos (pos + 2) d)); pos = pos + 2 in
          if pos + keyLen > length d then Inl KeyTooLong
          else
            let key = subslice pos (pos + keyLen) d; pos = pos + keyLen in
            if pos + 4 > length d then Inl MissingValueLen
            else
              let valLen = unat (get_be32 (subslice pos (pos + 4) d)); pos = pos + 4 in
              if pos + valLen > length d then Inl ValueTooLong
              else Inr (opType, key, subslice pos (pos + valLen) d, pos + valLen))"

fun decode_batch_loop :: "nat \<Rightarrow> bytes \<Rightarrow> nat \<Rightarrow> write_batch \<Rightarrow> batch_error + write_batch" where
  "decode_batch_loop 0 d pos b = Inr b"
| "decode_batch_loop (Suc n) d pos b =
     (case decode_op d pos of
        Inl err \<Rightarrow> Inl err
      | Inr (opType, key, val, pos) \<Rightarrow>
          if opType = 1 then decode_batch_loop n d pos (AddPut key (Some val) b)
          else if opType = 2 then decode_batch_loop n d pos (AddDelete key b)
          else Inl UnknownOp)"

definition DecodeBatch :: "bytes \<Rightarrow> batch_error + write_batch" where
  "DecodeBatch d =
     (if length d < 2 then Inl BatchTooShort
      else decode_batch_loop (unat (get_be16 (subslice 0 2 d))) d 2 NewWriteBatch)"

text \<open>The engine's own decoder: an operation is a flag, a key and a value.\<close>

record local_op =
  lo_IsDelete :: bool
  lo_Key :: bytes
  lo_Value :: bytes

fun decode_local_loop :: "nat \<Rightarrow> bytes \<Rightarrow> nat \<Rightarrow> local_op list \<Rightarrow> batch_error + local_op list" where
  "decode_local_loop 0 d pos ops = Inr ops"
| "decode_local_loop (Suc n) d pos ops =
     (case decode_op d pos of
        Inl err \<Rightarrow> Inl err
      | Inr (opType, key, val, pos) \<Rightarrow>
          decode_local_loop n d pos
            (ops @ [\<lparr>lo_IsDelete = (opType = 2), lo_Key = key, lo_Value = val\<rparr>]))"

definition decodeBatchLocal :: "bytes \<Rightarrow> batch_error + local_op list" where
  "decodeBatchLocal d =
     (if length d < 2 then Inl BatchTooShort
      else decode_local_loop (unat (get_be16 (subslice 0 2 d))) d 2 [])"

section \<open>Round trip\<close>

definition op_fits :: "batch_op \<Rightarrow> bool" where
  "op_fits op \<longleftrightarrow>
     length (bo_Key op) < 2 ^ 16 \<and> length (slice_of (bo_Value op)) < 2 ^ 32 \<and>
     (bo_Type op = txn_OpPut \<and> bo_Value op \<noteq> None \<or> bo_Type op = txn_OpDelete \<and> bo_Value op = None)"

definition op_enc :: "batch_op \<Rightarrow> bytes" where
  "op_enc op =
     [if bo_Type op = txn_OpPut then 1 else 2] @
     put_be16 (word_of_nat (length (bo_Key op))) @ bo_Key op @
     put_be32 (word_of_nat (length (slice_of (bo_Value op)))) @ slice_of (bo_Value op)"

lemma encode_ops_eq: "\<forall>op \<in> set ops. op_fits op \<Longrightarrow> encode_ops ops = Inr (concat (map op_enc ops))"
  by (induction ops) (auto simp: op_fits_def op_enc_def)

lemma decode_op_enc:
  assumes "op_fits op"
  shows "decode_op (pre @ op_enc op @ rest) (length pre) =
    Inr (if bo_Type op = txn_OpPut then 1 else 2, bo_Key op, slice_of (bo_Value op),
         length pre + length (op_enc op))"
proof -
  let ?d = "pre @ op_enc op @ rest" and ?p = "length pre"
  let ?k = "length (bo_Key op)" and ?v = "length (slice_of (bo_Value op))"
  let ?t = "if bo_Type op = txn_OpPut then 1 else (2 :: u8)"
  have len: "length ?d = ?p + (7 + ?k + ?v) + length rest" by (simp add: op_enc_def)
  have d1: "?d = (pre @ [?t]) @ put_be16 (word_of_nat ?k) @ bo_Key op @
      put_be32 (word_of_nat ?v) @ slice_of (bo_Value op) @ rest"
    by (simp add: op_enc_def)
  have d2: "?d = (pre @ [?t] @ put_be16 (word_of_nat ?k)) @ bo_Key op @
      put_be32 (word_of_nat ?v) @ slice_of (bo_Value op) @ rest"
    by (simp add: op_enc_def)
  have d3: "?d = (pre @ [?t] @ put_be16 (word_of_nat ?k) @ bo_Key op) @
      put_be32 (word_of_nat ?v) @ slice_of (bo_Value op) @ rest"
    by (simp add: op_enc_def)
  have d4: "?d = (pre @ [?t] @ put_be16 (word_of_nat ?k) @ bo_Key op @ put_be32 (word_of_nat ?v)) @
      slice_of (bo_Value op) @ rest"
    by (simp add: op_enc_def)
  have sub: "subslice (length xs) (length xs + length ys) (xs @ ys @ zs) = ys" for xs ys zs :: bytes
    by (simp add: subslice_def)
  have t: "?d ! ?p = ?t" by (simp add: op_enc_def nth_append)
  have p: "?p + 1 = length (pre @ [?t])"
    "?p + 1 + 2 = length (pre @ [?t] @ put_be16 (word_of_nat ?k))"
    "?p + 1 + 2 + ?k = length (pre @ [?t] @ put_be16 (word_of_nat ?k) @ bo_Key op)"
    "?p + 1 + 2 + ?k + 4 =
      length (pre @ [?t] @ put_be16 (word_of_nat ?k) @ bo_Key op @ put_be32 (word_of_nat ?v))"
    by simp_all
  have s1: "subslice (?p + 1) (?p + 1 + 2) ?d = put_be16 (word_of_nat ?k)"
    using sub [of "pre @ [?t]" "put_be16 (word_of_nat ?k)"] unfolding p(1) length_put by (metis d1)
  have s2: "subslice (?p + 1 + 2) (?p + 1 + 2 + ?k) ?d = bo_Key op"
    unfolding p(2) by (subst d2) (rule sub)
  have s3: "subslice (?p + 1 + 2 + ?k) (?p + 1 + 2 + ?k + 4) ?d = put_be32 (word_of_nat ?v)"
    using sub [of "pre @ [?t] @ put_be16 (word_of_nat ?k) @ bo_Key op" "put_be32 (word_of_nat ?v)"]
    unfolding p(3) length_put by (metis d3)
  have s4: "subslice (?p + 1 + 2 + ?k + 4) (?p + 1 + 2 + ?k + 4 + ?v) ?d = slice_of (bo_Value op)"
    unfolding p(4) by (subst d4) (rule sub)
  have u: "unat (get_be16 (put_be16 (word_of_nat ?k))) = ?k"
    "unat (get_be32 (put_be32 (word_of_nat ?v))) = ?v"
    using assms by (simp_all add: op_fits_def codec_simps)
  have e: "length (op_enc op) = 7 + ?k + ?v" by (simp add: op_enc_def)
  show ?thesis
    unfolding decode_op_def Let_def s1 u s2 s3 s4 t using len e by simp
qed

lemma decode_batch_loop_enc:
  "\<forall>op \<in> set ops. op_fits op \<Longrightarrow>
   decode_batch_loop (length ops) (pre @ concat (map op_enc ops)) (length pre) b =
   Inr (b\<lparr>wb_ops := wb_ops b @ ops\<rparr>)"
proof (induction ops arbitrary: pre b)
  case Nil
  then show ?case by simp
next
  case (Cons op ops)
  then have op: "op_fits op" by simp
  have IH: "decode_batch_loop (length ops) ((pre @ op_enc op) @ concat (map op_enc ops))
      (length (pre @ op_enc op)) b' = Inr (b'\<lparr>wb_ops := wb_ops b' @ ops\<rparr>)" for b'
    by (rule Cons.IH) (use Cons.prems in simp)
  have b: "(if bo_Type op = txn_OpPut then AddPut (bo_Key op) (Some (slice_of (bo_Value op))) b
      else AddDelete (bo_Key op) b) = b\<lparr>wb_ops := wb_ops b @ [op]\<rparr>"
    using op by (cases op)
      (auto simp: op_fits_def AddPut_def AddDelete_def txn_OpPut_def txn_OpDelete_def slice_of_def)
  show ?case
    using IH b decode_op_enc [OF op, of pre "concat (map op_enc ops)"]
    by (simp split: if_splits)
qed

lemma decode_local_loop_enc:
  "\<forall>op \<in> set ops. op_fits op \<Longrightarrow>
   decode_local_loop (length ops) (pre @ concat (map op_enc ops)) (length pre) los =
   Inr (los @ map (\<lambda>op. \<lparr>lo_IsDelete = (bo_Type op = txn_OpDelete), lo_Key = bo_Key op,
                         lo_Value = slice_of (bo_Value op)\<rparr>) ops)"
proof (induction ops arbitrary: pre los)
  case Nil
  then show ?case by simp
next
  case (Cons op ops)
  then have op: "op_fits op" by simp
  have IH: "decode_local_loop (length ops) ((pre @ op_enc op) @ concat (map op_enc ops))
      (length (pre @ op_enc op)) los' =
      Inr (los' @ map (\<lambda>op. \<lparr>lo_IsDelete = (bo_Type op = txn_OpDelete), lo_Key = bo_Key op,
                         lo_Value = slice_of (bo_Value op)\<rparr>) ops)" for los'
    by (rule Cons.IH) (use Cons.prems in simp)
  have "bo_Type op = txn_OpDelete \<longleftrightarrow> bo_Type op \<noteq> txn_OpPut"
    using op by (auto simp: op_fits_def txn_OpPut_def txn_OpDelete_def)
  with IH decode_op_enc [OF op, of pre "concat (map op_enc ops)"] show ?case
    by simp
qed

definition batch_fits :: "write_batch \<Rightarrow> bool" where
  "batch_fits b \<longleftrightarrow> length (wb_ops b) < 2 ^ 16 \<and> (\<forall>op \<in> set (wb_ops b). op_fits op)"

lemma EncodeBatch_eq:
  "batch_fits b \<Longrightarrow> EncodeBatch b =
   Inr (put_be16 (word_of_nat (length (wb_ops b))) @ concat (map op_enc (wb_ops b)))"
  by (simp add: EncodeBatch_def batch_fits_def encode_ops_eq)

lemma subslice_put_be16: "subslice 0 2 (put_be16 n @ xs) = put_be16 n"
  by (simp add: subslice_def)

lemma decode_encoded:
  assumes "batch_fits b" "EncodeBatch b = Inr d"
  shows "DecodeBatch d = Inr b"
    "decodeBatchLocal d =
      Inr (map (\<lambda>op. \<lparr>lo_IsDelete = (bo_Type op = txn_OpDelete), lo_Key = bo_Key op,
                      lo_Value = slice_of (bo_Value op)\<rparr>) (wb_ops b))"
proof -
  let ?n = "put_be16 (word_of_nat (length (wb_ops b)))"
  have d: "d = ?n @ concat (map op_enc (wb_ops b))" using assms EncodeBatch_eq by simp
  have fits: "\<forall>op \<in> set (wb_ops b). op_fits op" and n: "length (wb_ops b) < 2 ^ 16"
    using assms(1) by (auto simp: batch_fits_def)
  have count: "unat (get_be16 (subslice 0 2 d)) = length (wb_ops b)"
    using n by (simp add: d subslice_put_be16 codec_simps)
  show "DecodeBatch d = Inr b"
    unfolding DecodeBatch_def count
    using decode_batch_loop_enc [OF fits, of ?n NewWriteBatch] by (simp add: d NewWriteBatch_def)
  show "decodeBatchLocal d =
      Inr (map (\<lambda>op. \<lparr>lo_IsDelete = (bo_Type op = txn_OpDelete), lo_Key = bo_Key op,
                      lo_Value = slice_of (bo_Value op)\<rparr>) (wb_ops b))"
    unfolding decodeBatchLocal_def count
    using decode_local_loop_enc [OF fits, of ?n "[]"] by (simp add: d)
qed

text \<open>
  C8. A batch of fewer than 65536 operations with keys shorter than 64 KB is encoded without
  error, and both decoders recover it: \<open>DecodeBatch\<close> the very batch, the engine's
  \<open>decodeBatchLocal\<close> its operations in order.
\<close>

theorem batch_roundtrip:
  assumes "batch_fits b"
  shows "\<exists>d. EncodeBatch b = Inr d \<and> DecodeBatch d = Inr b \<and>
    decodeBatchLocal d =
      Inr (map (\<lambda>op. \<lparr>lo_IsDelete = (bo_Type op = txn_OpDelete), lo_Key = bo_Key op,
                      lo_Value = slice_of (bo_Value op)\<rparr>) (wb_ops b))"
  using decode_encoded [OF assms] EncodeBatch_eq [OF assms] by blast

theorem batch_roundtrip_witness:
  "\<exists>d. EncodeBatch (AddDelete [2] (AddPut [1] (Some [9]) NewWriteBatch)) = Inr d \<and>
       DecodeBatch d = Inr (AddDelete [2] (AddPut [1] (Some [9]) NewWriteBatch))"
proof -
  have "batch_fits (AddDelete [2] (AddPut [1] (Some [9]) NewWriteBatch))"
    by (simp add: batch_fits_def op_fits_def AddPut_def AddDelete_def NewWriteBatch_def
        txn_OpPut_def txn_OpDelete_def slice_of_def)
  from batch_roundtrip [OF this] show ?thesis by blast
qed

text \<open>
  The two decoders disagree on an unknown operation byte: \<open>DecodeBatch\<close> rejects it, the engine
  replays it as a put.
\<close>

theorem decoders_disagree_on_unknown_op:
  "DecodeBatch [0, 1, 7, 0, 1, 65, 0, 0, 0, 0] = Inl UnknownOp \<and>
   decodeBatchLocal [0, 1, 7, 0, 1, 65, 0, 0, 0, 0] =
     Inr [\<lparr>lo_IsDelete = False, lo_Key = [65], lo_Value = []\<rparr>]"
  by (simp add: DecodeBatch_def decodeBatchLocal_def decode_op_def subslice_def get_be16_def
      get_be32_def Let_def)

end
