(* ===== verification/Recovery.thy ===== *)
theory Recovery
  imports MemSpec Wal Batch
begin

text \<open>
  Models \<^verbatim>\<open>internal/engine/recovery.go\<close>: the replay of a shard's write-ahead log into its memtable.
  The memtable is the sorted map of \<open>MemSpec\<close>, which the skip list implements; the value log
  enters with its size, the routing of keys to shards as a function.
\<close>

definition isLargeForRecovery :: "wal_entry option \<Rightarrow> bytes \<Rightarrow> bool" where
  "isLargeForRecovery entry val =
     (if (case entry of Some e \<Rightarrow> we_IsLarge e | None \<Rightarrow> False) then True
      else length val = ValuePointerSize)"

text \<open>The bounds check of a pointer against the value log; the sum is computed in 64 bits.\<close>

definition pointer_out_of_bounds :: "nat \<Rightarrow> value_pointer \<Rightarrow> bool" where
  "pointer_out_of_bounds vlogSize vp \<longleftrightarrow>
     sint (vp_Offset vp) < 0 \<or> sint (vp_Size vp) \<le> 0 \<or>
     sint (vp_Offset vp + scast (vp_Size vp) + 8) > int vlogSize"

text \<open>The loop over the operations of a batch record.\<close>

fun replay_batch ::
    "nat \<Rightarrow> (bytes \<Rightarrow> nat) \<Rightarrow> nat \<Rightarrow> u64 \<Rightarrow> local_op list \<Rightarrow> mem \<Rightarrow> mem" where
  "replay_batch vlogSize shardIndex shardID ts [] m = m"
| "replay_batch vlogSize shardIndex shardID ts (op # ops) m =
     (let mvccKey = NewMVCCKey (lo_Key op) ts;
          m = (if shardIndex (lo_Key op) \<noteq> shardID then m
               else if lo_IsDelete op then snd (mem_delete_ts mvccKey m)
               else if isLargeForRecovery None (lo_Value op) then
                 (case DecodeValuePointer (lo_Value op) of
                    Some vp \<Rightarrow>
                      if pointer_out_of_bounds vlogSize vp
                      then snd (mem_put mvccKey (Some (tagStoredValue None)) m)
                      else snd (mem_put mvccKey (Some (tagStoredValue (Some (lo_Value op)))) m)
                  | None \<Rightarrow> snd (mem_put mvccKey (Some (tagStoredValue None)) m))
               else snd (mem_put mvccKey (Some (tagStoredValue (Some (lo_Value op)))) m))
      in replay_batch vlogSize shardIndex shardID ts ops m)"

text \<open>The callback of the log's recovery; it never fails. The state is the memtable and \<open>maxTS\<close>.\<close>

definition recover_entry ::
    "nat \<Rightarrow> (bytes \<Rightarrow> nat) \<Rightarrow> nat \<Rightarrow> mem \<times> u64 \<Rightarrow> wal_entry \<Rightarrow> bool \<times> mem \<times> u64" where
  "recover_entry vlogSize shardIndex shardID st entry =
     (let (m, maxTS) = st;
          maxTS = (if we_Timestamp entry > maxTS then we_Timestamp entry else maxTS) in
      if we_Op entry = OpPut then
        let mvccKey = NewMVCCKey (we_Key entry) (we_Timestamp entry);
            stored = tagStoredValue (Some (we_Value entry)) in
        if isLargeForRecovery (Some entry) (we_Value entry) \<and>
           (case DecodeValuePointer (we_Value entry) of
              Some vp \<Rightarrow> pointer_out_of_bounds vlogSize vp
            | None \<Rightarrow> False)
        then (True, m, maxTS)
        else (True, snd (mem_put mvccKey (Some stored) m), maxTS)
      else if we_Op entry = OpDelete then
        (True, snd (mem_delete_ts (NewMVCCKey (we_Key entry) (we_Timestamp entry)) m), maxTS)
      else if we_Op entry = OpBatch then
        (case decodeBatchLocal (we_Value entry) of
           Inl err \<Rightarrow> (True, m, maxTS)
         | Inr ops \<Rightarrow> (True, replay_batch vlogSize shardIndex shardID (we_Timestamp entry) ops m, maxTS))
      else (True, m, maxTS))"

definition recoverFromWAL ::
    "nat \<Rightarrow> (bytes \<Rightarrow> nat) \<Rightarrow> nat \<Rightarrow> wal \<Rightarrow> mem \<Rightarrow> (wal_error + u64) \<times> mem" where
  "recoverFromWAL vlogSize shardIndex shardID w m =
     (case wal_Recover (recover_entry vlogSize shardIndex shardID) w (m, 0) of
        (Some err, (m, _)) \<Rightarrow> (Inl err, m)
      | (None, (m, maxTS)) \<Rightarrow> (Inr maxTS, m))"

section \<open>A log as a sequence of memtable operations\<close>

datatype mem_op = MPut mvcc_key bytes | MDel mvcc_key

primrec mem_step :: "mem_op \<Rightarrow> mem \<Rightarrow> mem" where
  "mem_step (MPut k v) m = snd (mem_put k (Some v) m)"
| "mem_step (MDel k) m = snd (mem_delete_ts k m)"

abbreviation mem_run :: "mem_op list \<Rightarrow> mem \<Rightarrow> mem" where
  "mem_run ops m \<equiv> fold mem_step ops m"

primrec mo_key :: "mem_op \<Rightarrow> mvcc_key" where
  "mo_key (MPut k v) = k"
| "mo_key (MDel k) = k"

definition bad_pointer :: "nat \<Rightarrow> bytes \<Rightarrow> bool" where
  "bad_pointer vlogSize val \<longleftrightarrow>
     (case DecodeValuePointer val of Some vp \<Rightarrow> pointer_out_of_bounds vlogSize vp | None \<Rightarrow> False)"

definition batch_mem_op :: "nat \<Rightarrow> u64 \<Rightarrow> local_op \<Rightarrow> mem_op" where
  "batch_mem_op vlogSize ts op =
     (if lo_IsDelete op then MDel (NewMVCCKey (lo_Key op) ts)
      else MPut (NewMVCCKey (lo_Key op) ts)
        (tagStoredValue (if bad_pointer vlogSize (lo_Value op) then None else Some (lo_Value op))))"

definition entry_mem_ops :: "nat \<Rightarrow> (bytes \<Rightarrow> nat) \<Rightarrow> nat \<Rightarrow> wal_entry \<Rightarrow> mem_op list" where
  "entry_mem_ops vlogSize shardIndex shardID e =
     (let k = NewMVCCKey (we_Key e) (we_Timestamp e) in
      if we_Op e = OpPut then
        if bad_pointer vlogSize (we_Value e) then [] else [MPut k (tagStoredValue (Some (we_Value e)))]
      else if we_Op e = OpDelete then [MDel k]
      else if we_Op e = OpBatch then
        (case decodeBatchLocal (we_Value e) of
           Inl _ \<Rightarrow> []
         | Inr ops \<Rightarrow> map (batch_mem_op vlogSize (we_Timestamp e)) (filter (\<lambda>op. shardIndex (lo_Key op) = shardID) ops))
      else [])"

definition log_mem_ops :: "nat \<Rightarrow> (bytes \<Rightarrow> nat) \<Rightarrow> nat \<Rightarrow> wal_entry list \<Rightarrow> mem_op list" where
  "log_mem_ops vlogSize shardIndex shardID es = concat (map (entry_mem_ops vlogSize shardIndex shardID) es)"

definition max_ts :: "wal_entry list \<Rightarrow> u64" where
  "max_ts es = fold (\<lambda>e t. max t (we_Timestamp e)) es 0"

lemma bad_pointer_length: "bad_pointer vlogSize val \<Longrightarrow> length val = ValuePointerSize"
  by (simp add: bad_pointer_def DecodeValuePointer_def split: option.splits if_splits)

lemma replay_batch_run:
  "replay_batch vlogSize shardIndex shardID ts ops m =
   mem_run (map (batch_mem_op vlogSize ts) (filter (\<lambda>op. shardIndex (lo_Key op) = shardID) ops)) m"
proof (induction ops arbitrary: m)
  case (Cons op ops)
  have "length (lo_Value op) = ValuePointerSize \<longleftrightarrow> DecodeValuePointer (lo_Value op) \<noteq> None"
    by (simp add: DecodeValuePointer_def)
  with Cons show ?case
    by (auto simp: Let_def batch_mem_op_def isLargeForRecovery_def bad_pointer_def split: option.splits)
qed simp

lemma recover_entry_run:
  "recover_entry vlogSize shardIndex shardID (m, t) e =
   (True, mem_run (entry_mem_ops vlogSize shardIndex shardID e) m, max t (we_Timestamp e))"
proof -
  have t: "(if we_Timestamp e > t then we_Timestamp e else t) = max t (we_Timestamp e)"
    by (auto simp: max_def)
  have bp: "isLargeForRecovery (Some e) (we_Value e) \<and>
      (case DecodeValuePointer (we_Value e) of Some vp \<Rightarrow> pointer_out_of_bounds vlogSize vp | None \<Rightarrow> False)
      \<longleftrightarrow> bad_pointer vlogSize (we_Value e)"
    using bad_pointer_length [of vlogSize "we_Value e"]
    by (auto simp: bad_pointer_def isLargeForRecovery_def)
  show ?thesis
    unfolding recover_entry_def Let_def prod.case t bp
    by (auto simp: entry_mem_ops_def replay_batch_run split: sum.split)
qed

lemma deliver_run:
  "deliver (recover_entry vlogSize shardIndex shardID) es (m, t) =
   (None, mem_run (log_mem_ops vlogSize shardIndex shardID es) m,
    fold (\<lambda>e t. max t (we_Timestamp e)) es t)"
proof (induction es arbitrary: m t)
  case (Cons e es)
  then show ?case by (simp add: recover_entry_run log_mem_ops_def)
qed (simp add: log_mem_ops_def)

lemma recoverFromWAL_run:
  assumes "\<forall>e \<in> set es. wal_fits e" "wal_disk w = wal_encs es @ torn" "decodeWalEntry torn = Inl err"
  shows "recoverFromWAL vlogSize shardIndex shardID w m =
    (Inr (max_ts es), mem_run (log_mem_ops vlogSize shardIndex shardID es) m)"
  using recover_deliver [OF assms(1,3), of "recover_entry vlogSize shardIndex shardID" "(m, 0)"]
  by (simp add: recoverFromWAL_def wal_Recover_def assms(2) deliver_run max_ts_def)

section \<open>Replaying twice\<close>

definition absorbed :: "mem_op \<Rightarrow> mem \<Rightarrow> bool" where
  "absorbed op m \<longleftrightarrow> mem_has (mo_key op) m \<and> (case op of MPut _ _ \<Rightarrow> True | MDel k \<Rightarrow> \<not> mem_is_live k m)"

lemma absorbed_step: "absorbed op m \<Longrightarrow> mem_step op m = m"
  by (cases op) (simp_all add: absorbed_def mem_put_def mem_delete_ts_def)

lemma mem_has_mark [simp]: "mem_has k (mem_mark k' m) = mem_has k m"
  unfolding mem_has_def by (metis map_fst_mem_mark set_map)

lemma mem_live_mark: "mem_is_live k (mem_mark k' m) \<Longrightarrow> k \<noteq> k' \<and> mem_is_live k m"
  by (auto simp: mem_is_live_def mem_mark_def split: if_splits)

lemma absorbed_after: "absorbed op (mem_step op m)"
proof (cases op)
  case (MPut k v)
  then show ?thesis by (simp add: absorbed_def mem_put_def mem_has_def)
next
  case (MDel k)
  have "\<not> mem_is_live k (mem_mark k m)" using mem_live_mark by blast
  moreover have "\<not> mem_is_live k (mem_insert k Tomb m)" if "\<not> mem_has k m"
    using that by (auto simp: mem_is_live_def mem_has_def)
  ultimately show ?thesis
    using MDel by (auto simp: absorbed_def mem_delete_ts_def) (auto simp: mem_has_def)
qed

lemma absorbed_keep: "absorbed op m \<Longrightarrow> absorbed op (mem_step op' m)"
proof -
  assume a: "absorbed op m"
  have has: "mem_has k (mem_step op' m)" if "mem_has k m" for k
    using that by (cases op') (auto simp: mem_put_def mem_delete_ts_def, auto simp: mem_has_def)
  have live: "mem_is_live k m" if "mem_is_live k (mem_step op' m)" "mem_has k m" for k
  proof (cases op')
    case (MPut k' v)
    then show ?thesis using that by (auto simp: mem_put_def mem_is_live_def mem_has_def split: if_splits)
  next
    case (MDel k')
    then show ?thesis
      using that mem_live_mark [of k k' m]
      by (auto simp: mem_delete_ts_def split: if_splits) (auto simp: mem_is_live_def)
  qed
  show ?thesis using a has live by (auto simp: absorbed_def split: mem_op.splits)
qed

lemma absorbed_run: "absorbed op m \<Longrightarrow> absorbed op (mem_run ops m)"
  by (induction ops arbitrary: m) (auto intro: absorbed_keep)

lemma all_absorbed: "\<forall>op \<in> set ops. absorbed op (mem_run ops m)"
  by (induction ops arbitrary: m) (auto intro: absorbed_after absorbed_run)

lemma run_absorbed: "\<forall>op \<in> set ops. absorbed op m \<Longrightarrow> mem_run ops m = m"
  by (induction ops) (auto simp: absorbed_step)

lemma mem_run_idem: "mem_run ops (mem_run ops m) = mem_run ops m"
  by (rule run_absorbed [OF all_absorbed])

lemma mem_inv_run: "mem_inv m \<Longrightarrow> mem_inv (mem_run ops m)"
proof (induction ops arbitrary: m)
  case (Cons op ops)
  then show ?case by (cases op) (simp_all add: mem_inv_put mem_inv_delete_ts)
qed simp

lemma max_ts_ge: "e \<in> set es \<Longrightarrow> we_Timestamp e \<le> max_ts es"
proof -
  have "t \<le> fold (\<lambda>e t. max t (we_Timestamp e)) es t \<and>
      (\<forall>e \<in> set es. we_Timestamp e \<le> fold (\<lambda>e t. max t (we_Timestamp e)) es t)" for t
  proof (induction es arbitrary: t)
    case (Cons e es)
    from Cons.IH [of "max t (we_Timestamp e)"] show ?case by auto
  qed simp
  then show "e \<in> set es \<Longrightarrow> we_Timestamp e \<le> max_ts es" unfolding max_ts_def by blast
qed

lemma max_ts_mem: "es \<noteq> [] \<Longrightarrow> max_ts es = 0 \<or> max_ts es \<in> we_Timestamp ` set es"
proof -
  have "fold (\<lambda>e t. max t (we_Timestamp e)) es t \<in> insert t (we_Timestamp ` set es)" for t
    by (induction es arbitrary: t) (auto simp: max_def split: if_splits)
  then show ?thesis by (auto simp: max_ts_def)
qed

text \<open>
  What a run of operations makes of a versioned key: a delete makes it a tombstone for good, and a
  put counts only when it is the first to mention the key.
\<close>

definition mem_puts :: "mem_op list \<Rightarrow> (mvcc_key \<times> version) list" where
  "mem_puts ops = concat (map (\<lambda>op. case op of MPut k v \<Rightarrow> [(k, Live (Some v))] | MDel k \<Rightarrow> []) ops)"

lemma mem_puts_simps [simp]:
  "mem_puts [] = []" "mem_puts (MPut k v # ops) = (k, Live (Some v)) # mem_puts ops"
  "mem_puts (MDel k # ops) = mem_puts ops"
  by (simp_all add: mem_puts_def)

lemma map_of_mem_insert:
  "k \<notin> fst ` set m \<Longrightarrow> map_of (mem_insert k v m) = (map_of m)(k \<mapsto> v)"
  by (induction m) (auto simp: fun_eq_iff)

lemma map_of_mem_mark: "k \<in> fst ` set m \<Longrightarrow> map_of (mem_mark k m) = (map_of m)(k \<mapsto> Tomb)"
proof -
  have "map_of (mem_mark k m) j = (if j = k \<and> k \<in> fst ` set m then Some Tomb else map_of m j)" for j
    by (induction m) (force simp: mem_mark_def)+
  then show "k \<in> fst ` set m \<Longrightarrow> map_of (mem_mark k m) = (map_of m)(k \<mapsto> Tomb)" by (auto simp: fun_eq_iff)
qed

lemma map_of_mem_step:
  assumes "mem_inv m"
  shows "map_of (mem_step (MPut k v) m) j =
      (if j = k \<and> map_of m k = None then Some (Live (Some v)) else map_of m j)"
    and "map_of (mem_step (MDel k) m) j = (if j = k then Some Tomb else map_of m j)"
proof -
  have has: "mem_has k m \<longleftrightarrow> map_of m k \<noteq> None" by (simp add: mem_has_def map_of_eq_None_iff)
  show "map_of (mem_step (MPut k v) m) j =
      (if j = k \<and> map_of m k = None then Some (Live (Some v)) else map_of m j)"
    using has by (auto simp: mem_put_def mem_has_def map_of_mem_insert)
  have dead: "map_of m k = Some Tomb" if h: "mem_has k m" "\<not> mem_is_live k m"
  proof -
    obtain ver where ver: "map_of m k = Some ver" using h(1) has by auto
    then have "(k, ver) \<in> set m" by (rule map_of_SomeD)
    then have "ver = Tomb" using h(2) by (force simp: mem_is_live_def)
    then show ?thesis using ver by simp
  qed
  show "map_of (mem_step (MDel k) m) j = (if j = k then Some Tomb else map_of m j)"
    using dead by (auto simp: mem_delete_ts_def mem_has_def map_of_mem_insert map_of_mem_mark)
qed

lemma map_of_mem_run:
  "mem_inv m \<Longrightarrow> map_of (mem_run ops m) k =
    (if MDel k \<in> set ops then Some Tomb
     else case map_of m k of Some ver \<Rightarrow> Some ver | None \<Rightarrow> map_of (mem_puts ops) k)"
proof (induction ops arbitrary: m)
  case Nil
  then show ?case by (simp split: option.split)
next
  case (Cons op ops)
  have inv: "mem_inv (mem_step op m)" using mem_inv_run [OF Cons.prems, of "[op]"] by simp
  show ?case
    using Cons.IH [OF inv] map_of_mem_step [OF Cons.prems]
    by (cases op) (auto simp del: mem_step.simps split: option.split)
qed

text \<open>
  C18. Replaying a log. If the log on disk holds the records \<open>es\<close>, which fit the group-commit
  buffer and delete no empty key, and possibly a torn record behind them, recovery returns no
  error and the largest timestamp of the records, and keeps the memtable sorted. Its content is
  determined key by key: a versioned key that some record deletes is a tombstone; any other keeps
  the version it had, and if it had none it gets the value of the first record that puts it; keys
  that no record mentions do not change. (The operations of a record are \<open>entry_mem_ops\<close>: those of
  a batch that route to the shard, and none for a put of a 12-byte value that reads as a pointer
  outside the value log, which recovery skips.) The engine replays every log twice when it starts:
  a second replay changes nothing and reports the same timestamp.
\<close>

theorem wal_replay_is_idempotent:
  fixes vlogSize shardID :: nat and shardIndex :: "bytes \<Rightarrow> nat"
  assumes "\<forall>e \<in> set es. wal_fits e" "wal_disk w = wal_encs es @ torn" "decodeWalEntry torn = Inl err"
    and "mem_inv m"
  defines "ops \<equiv> log_mem_ops vlogSize shardIndex shardID es"
  assumes "\<forall>k. MDel k \<in> set ops \<longrightarrow> mk_key k \<noteq> []"
  shows "\<exists>m' t. recoverFromWAL vlogSize shardIndex shardID w m = (Inr t, m') \<and> mem_inv m' \<and>
    (\<forall>e \<in> set es. we_Timestamp e \<le> t) \<and> (t = 0 \<or> t \<in> we_Timestamp ` set es) \<and>
    recoverFromWAL vlogSize shardIndex shardID w m' = (Inr t, m') \<and>
    (\<forall>k. map_of m' k =
       (if MDel k \<in> set ops then Some Tomb
        else case map_of m k of Some ver \<Rightarrow> Some ver | None \<Rightarrow> map_of (mem_puts ops) k))"
proof -
  note run = recoverFromWAL_run [OF assms(1-3), of vlogSize shardIndex shardID, folded ops_def]
  have "max_ts es = 0 \<or> max_ts es \<in> we_Timestamp ` set es"
    using max_ts_mem [of es] by (cases "es = []") (auto simp: max_ts_def)
  then show ?thesis
    using run [of m] run [of "mem_run ops m"] mem_run_idem mem_inv_run [OF assms(4)] max_ts_ge
      map_of_mem_run [OF assms(4), of ops]
    by (intro exI [of _ "mem_run ops m"] exI [of _ "max_ts es"]) auto
qed

text \<open>A put and the delete of another version of its key.\<close>

definition wal_example_delete :: wal_entry where
  "wal_example_delete = \<lparr>we_Op = OpDelete, we_Key = [107], we_Value = [], we_Timestamp = 6, we_IsLarge = False\<rparr>"

theorem wal_replay_is_idempotent_witness:
  "\<exists>m. recoverFromWAL 8 (\<lambda>_. 0) 0 (OpenWAL (wal_encs [wal_example, wal_example_delete]) False True) [] = (Inr 6, m) \<and>
     map_of m (NewMVCCKey [107] 5) = Some (Live (Some (tagStoredValue (Some [1, 2])))) \<and>
     map_of m (NewMVCCKey [107] 6) = Some Tomb \<and>
     recoverFromWAL 8 (\<lambda>_. 0) 0 (OpenWAL (wal_encs [wal_example, wal_example_delete]) False True) m = (Inr 6, m)"
proof -
  let ?es = "[wal_example, wal_example_delete]" let ?w = "OpenWAL (wal_encs ?es) False True"
  have fits: "\<forall>e \<in> set ?es. wal_fits e"
    by (simp add: wal_fits_def wal_size_def wal_example_def wal_example_delete_def groupCommitBufSize_eq)
  have disk: "wal_disk ?w = wal_encs ?es @ []" by (simp add: wal_disk_def OpenWAL_def)
  have ops: "log_mem_ops 8 (\<lambda>_. 0) 0 ?es =
      [MPut (NewMVCCKey [107] 5) (tagStoredValue (Some [1, 2])), MDel (NewMVCCKey [107] 6)]"
    by (simp add: log_mem_ops_def entry_mem_ops_def wal_example_def wal_example_delete_def OpPut_def OpDelete_def
        bad_pointer_def DecodeValuePointer_def ValuePointerSize_def)
  have ne: "\<forall>k. MDel k \<in> set (log_mem_ops 8 (\<lambda>_. 0) 0 ?es) \<longrightarrow> mk_key k \<noteq> []" unfolding ops by simp
  obtain m' t where r: "recoverFromWAL 8 (\<lambda>_. 0) 0 ?w [] = (Inr t, m')"
    "\<forall>e \<in> set ?es. we_Timestamp e \<le> t" "t = 0 \<or> t \<in> we_Timestamp ` set ?es"
    "recoverFromWAL 8 (\<lambda>_. 0) 0 ?w m' = (Inr t, m')"
    "\<forall>k. map_of m' k = (if MDel k \<in> set (log_mem_ops 8 (\<lambda>_. 0) 0 ?es) then Some Tomb
        else case map_of [] k of Some ver \<Rightarrow> Some ver | None \<Rightarrow> map_of (mem_puts (log_mem_ops 8 (\<lambda>_. 0) 0 ?es)) k)"
    using wal_replay_is_idempotent [OF fits disk decode_Nil mem_inv_Nil ne] by (elim exE conjE) (rule that)
  have "t = 6" using r(2,3) by (auto simp: wal_example_def wal_example_delete_def)
  moreover have "map_of m' (NewMVCCKey [107] 5) = Some (Live (Some (tagStoredValue (Some [1, 2]))))"
    "map_of m' (NewMVCCKey [107] 6) = Some Tomb"
    using r(5) unfolding ops by (simp_all add: NewMVCCKey_def InvertTimestamp_def)
  ultimately show ?thesis using r(1,4) by blast
qed

section \<open>Values of twelve bytes\<close>

text \<open>
  Recovery takes every value of 12 bytes for a pointer. A user's 12-byte text reads as an offset
  far beyond the value log, so its record is skipped: an acknowledged and durable put is gone
  after a restart.
\<close>

theorem twelve_byte_value_lost:
  assumes "vlogSize < 2 ^ 62"
  shows "recover_entry vlogSize shardIndex shardID (m, t)
    \<lparr>we_Op = OpPut, we_Key = key, we_Value = [104, 101, 108, 108, 111, 32, 119, 111, 114, 108, 100, 33],
     we_Timestamp = ts, we_IsLarge = False\<rparr> = (True, m, max t ts)"
proof -
  let ?v = "[104, 101, 108, 108, 111, 32, 119, 111, 114, 108, 100, 33] :: bytes"
  have "DecodeValuePointer ?v = Some \<lparr>vp_Offset = 0x68656C6C6F20776F, vp_Size = 0x726C6421\<rparr>"
    by (simp add: DecodeValuePointer_def ValuePointerSize_def subslice_def get_be64_def get_be32_def)
  then have "bad_pointer vlogSize ?v"
    using assms by (simp add: bad_pointer_def pointer_out_of_bounds_def)
  then show ?thesis by (simp add: recover_entry_run entry_mem_ops_def)
qed

end
