(* ===== verification/VLog.thy ===== *)
theory VLog
  imports ValuePointer
begin

text \<open>
  Models \<^verbatim>\<open>internal/engine/vlog.go\<close>: the value log. The file is mapped twice, once for
  reading (\<^verbatim>\<open>data\<close>) and once for writing (\<^verbatim>\<open>writeData\<close>). \<open>vl_data\<close> is the part of the file that is
  mapped, so its length is \<^verbatim>\<open>mmapSize\<close>, and \<open>vl_slack\<close> counts the zero bytes that a failed extension
  left behind it in the file; \<open>vl_readable\<close> and \<open>vl_mapped\<close> say whether the two slices still point
  to mapped memory; \<open>vl_dataSize\<close> is the logical end.
  Pointers are 64-bit and 32-bit words read as signed numbers, sizes stay below \<^verbatim>\<open>2^63\<close> and are
  natural numbers. The extension step \<^verbatim>\<open>VLogExtendSize\<close> is a variable of the program and an
  argument here, and so is the outcome of the system calls. A slice out of range is \<open>VlPanic\<close>,
  an access to a region that is no longer mapped \<open>VlFault\<close>; both end the process in Go, and the
  models of the callers pass them on as the outcome of the call.
\<close>

datatype vlog_error = VlHeader | VlIO | VlClosed | VlClosing | VlZero | VlRange | VlSize | VlCrc | VlPanic | VlFault

definition VLogMagic :: u32 where "VLogMagic = 0x53434F52"
definition VLogVersion :: u32 where "VLogVersion = 1"
definition MaxInlineSize :: nat where "MaxInlineSize = 64"

record vlog =
  vl_data :: bytes
  vl_slack :: nat
  vl_readable :: bool
  vl_dataSize :: nat
  vl_mapped :: bool
  vl_closed :: bool
  vl_closing :: bool
  vl_refCount :: int
  vl_waiting :: nat
  vl_syncMode :: bool

definition alignTo :: "nat \<Rightarrow> nat \<Rightarrow> nat" where
  "alignTo size' align = (if size' mod align = 0 then size' else (size' div align + 1) * align)"

definition vlog_header :: bytes where
  "vlog_header = put_be32 VLogMagic @ put_be32 VLogVersion"

text \<open>\<open>ensureFileCapacity\<close> extends the file with zeros.\<close>

definition ensureFileCapacity :: "bool \<Rightarrow> nat \<Rightarrow> bytes \<Rightarrow> vlog_error + bytes" where
  "ensureFileCapacity io_ok required file =
     (if required = 0 then Inr file
      else if \<not> io_ok then Inl VlIO
      else Inr (take required file @ replicate (required - length file) 0))"

text \<open>
  \<open>OpenVLog\<close>: a file with a foreign header is removed (or renamed away) and the log starts anew;
  \<open>remove_ok\<close> says whether one of the two succeeded.
\<close>

definition OpenVLog :: "nat \<Rightarrow> bool \<Rightarrow> bool \<Rightarrow> bytes \<Rightarrow> vlog_error + vlog" where
  "OpenVLog ext io_ok remove_ok file =
     (let start = (\<lambda>content.
            let dataSize = length content;
                mmapSize = alignTo dataSize ext;
                mmapSize = (if mmapSize < ext then ext else mmapSize) in
            case ensureFileCapacity io_ok mmapSize content of
              Inl err \<Rightarrow> Inl err
            | Inr d \<Rightarrow> Inr \<lparr>vl_data = d, vl_slack = 0, vl_readable = True, vl_dataSize = dataSize, vl_mapped = True, vl_closed = False,
                vl_closing = False, vl_refCount = 0, vl_waiting = 0, vl_syncMode = False\<rparr>) in
      if file = [] then start vlog_header
      else if length file < 8 then Inl VlHeader
      else if get_be32 (subslice 0 4 file) \<noteq> VLogMagic \<or> get_be32 (subslice 4 8 file) \<noteq> VLogVersion then
        if remove_ok then start vlog_header else Inl VlIO
      else start file)"

text \<open>
  Extending the mapping has four outcomes. \<open>CapFails\<close>: the file could not be extended.
  \<open>MapFails\<close>: the file was extended, but it could not be inspected or mapped for reading; the
  slices are the old ones. \<open>RemapFails\<close>: the new read mapping replaced the old one, which is
  unmapped, and then the mapping for writing failed: the new read mapping is given back and
  \<^verbatim>\<open>v.data\<close> still points to the old, unmapped region. \<^verbatim>\<open>v.writeData\<close> is untouched in all three.
\<close>

datatype map_outcome = MapOk | CapFails | MapFails | RemapFails

definition vl_file :: "vlog \<Rightarrow> bytes" where
  "vl_file v = vl_data v @ replicate (vl_slack v) 0"

definition vl_extendMmap ::
    "nat \<Rightarrow> map_outcome \<Rightarrow> nat \<Rightarrow> vlog \<Rightarrow> vlog_error option \<times> vlog" where
  "vl_extendMmap ext outcome newDataSize v =
     (case ensureFileCapacity (outcome \<noteq> CapFails) (alignTo newDataSize ext) (vl_file v) of
        Inl err \<Rightarrow> (Some err, v)
      | Inr d \<Rightarrow>
          let v' = v\<lparr>vl_slack := length d - length (vl_data v)\<rparr> in
          if outcome = MapFails then (Some VlIO, v')
          else if outcome = RemapFails then (Some VlIO, v'\<lparr>vl_readable := False\<rparr>)
          else (None, v\<lparr>vl_data := d, vl_slack := 0, vl_readable := True\<rparr>))"

definition vl_Write ::
    "nat \<Rightarrow> map_outcome \<Rightarrow> bool \<Rightarrow> bytes \<Rightarrow> vlog \<Rightarrow> (vlog_error + value_pointer) \<times> vlog" where
  "vl_Write ext outcome sync_ok val v =
     (if length val \<le> MaxInlineSize then (Inr \<lparr>vp_Offset = 0, vp_Size = 0\<rparr>, v)
      else if vl_closed v then (Inl VlClosed, v)
      else
        let totalSize = 8 + length val;
            newDataSize = vl_dataSize v + totalSize in
        case (if newDataSize > length (vl_data v) then vl_extendMmap ext outcome newDataSize v else (None, v)) of
          (Some err, v) \<Rightarrow> (Inl err, v)
        | (None, v) \<Rightarrow>
            if \<not> vl_mapped v then (Inl VlFault, v)
            else
              let offset = vl_dataSize v;
                  d = copy_at (offset + 4) (put_be32 (word_of_nat (length val))) (vl_data v);
                  d = copy_at (offset + 8) val d;
                  crc = crc32_ieee (subslice (offset + 8) (offset + 8 + length val) d);
                  d = copy_at offset (put_be32 crc) d;
                  v = v\<lparr>vl_data := d, vl_dataSize := newDataSize\<rparr> in
              if vl_syncMode v \<and> \<not> sync_ok then (Inl VlIO, v)
              else (Inr \<lparr>vp_Offset = word_of_nat offset, vp_Size = word_of_nat (length val)\<rparr>, v))"

text \<open>The checks all readers share.\<close>

definition vl_fetch :: "value_pointer \<Rightarrow> vlog \<Rightarrow> vlog_error + bytes" where
  "vl_fetch vp v =
     (let d = vl_data v;
          start = vp_Offset vp;
          end' = start + 8 + scast (vp_Size vp) in
      if sint end' > int (length d) then Inl VlRange
      else if sint start < 0 \<or> sint start + 4 > int (length d) then Inl VlPanic
      else if \<not> vl_readable v then Inl VlFault
      else if sint start + 8 > int (length d) then Inl VlPanic
      else
        let crcStored = get_be32 (drop (unat start) d);
            sizeStored = get_be32 (drop (unat start + 4) d) in
        if sizeStored \<noteq> vp_Size vp then Inl VlSize
        else if sint start + 8 > sint end' then Inl VlPanic
        else
          let val = subslice (unat start + 8) (unat end') d in
          if crc32_ieee val \<noteq> crcStored then Inl VlCrc else Inr val)"

definition readDirectLocked :: "value_pointer \<Rightarrow> vlog \<Rightarrow> vlog_error + bytes" where
  "readDirectLocked vp v = (if vp_Size vp = 0 then Inl VlZero else vl_fetch vp v)"

definition vl_ReadDirect :: "value_pointer \<Rightarrow> vlog \<Rightarrow> vlog_error + bytes" where
  "vl_ReadDirect vp v =
     (if vp_Size vp = 0 then Inl VlZero
      else if vl_closed v then Inl VlClosed
      else vl_fetch vp v)"

text \<open>\<open>Read\<close> copies what \<open>ReadDirect\<close> returns.\<close>

definition vl_Read :: "value_pointer \<Rightarrow> vlog \<Rightarrow> vlog_error + bytes" where
  "vl_Read vp v =
     (if vp_Size vp = 0 then Inl VlZero
      else if vl_closed v then Inl VlClosed
      else vl_fetch vp v)"

record vlog_view =
  vv_live :: bool
  vv_data :: bytes
  vv_vp :: value_pointer

definition IncRef :: "vlog \<Rightarrow> vlog" where
  "IncRef v = v\<lparr>vl_refCount := vl_refCount v + 1\<rparr>"

text \<open>\<open>None\<close> is the panic on one release too many.\<close>

definition DecRef :: "vlog \<Rightarrow> vlog option" where
  "DecRef v =
     (let v = v\<lparr>vl_refCount := vl_refCount v - 1\<rparr> in if vl_refCount v < 0 then None else Some v)"

definition vl_ReadView :: "value_pointer \<Rightarrow> vlog \<Rightarrow> (vlog_error + vlog_view) \<times> vlog" where
  "vl_ReadView vp v =
     (if vl_closed v then (Inl VlClosed, v)
      else if vl_closing v then (Inl VlClosing, v)
      else
        case vl_fetch vp v of
          Inl err \<Rightarrow> (Inl err, v)
        | Inr val \<Rightarrow>
            let v = IncRef v;
                v = v\<lparr>vl_waiting := vl_waiting v + 1\<rparr>
            in (Inr \<lparr>vv_live = True, vv_data = val, vv_vp = vp\<rparr>, v))"

definition vv_Release :: "vlog_view \<Rightarrow> vlog \<Rightarrow> (vlog_view \<times> vlog) option" where
  "vv_Release vw v =
     (if \<not> vv_live vw then Some (vw, v)
      else
        case DecRef v of
          None \<Rightarrow> None
        | Some v \<Rightarrow>
            if vl_waiting v = 0 then None
            else Some (vw\<lparr>vv_live := False, vv_data := []\<rparr>, v\<lparr>vl_waiting := vl_waiting v - 1\<rparr>))"

definition vl_Size :: "vlog \<Rightarrow> nat" where
  "vl_Size v = vl_dataSize v"

section \<open>Garbage collection\<close>

text \<open>The copy loop of \<open>GC\<close>: the new file so far and the translation.\<close>

fun gc_copy ::
    "vlog \<Rightarrow> value_pointer list \<Rightarrow> bytes \<Rightarrow> (value_pointer \<rightharpoonup> value_pointer) \<Rightarrow>
     vlog_error + bytes \<times> (value_pointer \<rightharpoonup> value_pointer)" where
  "gc_copy v [] out tr = Inr (out, tr)"
| "gc_copy v (vp # vps) out tr =
     (case readDirectLocked vp v of
        Inl err \<Rightarrow> Inl err
      | Inr val \<Rightarrow>
          gc_copy v vps (out @ put_be32 (crc32_ieee val) @ put_be32 (word_of_nat (length val)) @ val)
            (tr(vp \<mapsto> \<lparr>vp_Offset = word_of_nat (length out), vp_Size = vp_Size vp\<rparr>)))"

text \<open>
  \<open>live\<close> is the set of live pointers in the order in which Go ranges over the map. \<open>tmp_ok\<close> is the
  outcome of writing the temporary file, \<open>swap_ok\<close> that of replacing the log after its regions
  were unmapped. A read slice that is unmapped already cannot be unmapped: \<^verbatim>\<open>Munmap\<close> fails and
  the collection ends there.
\<close>

definition vl_GC ::
    "bool \<Rightarrow> bool \<Rightarrow> value_pointer list \<Rightarrow> vlog \<Rightarrow>
     (vlog_error + (value_pointer \<rightharpoonup> value_pointer)) \<times> vlog" where
  "vl_GC tmp_ok swap_ok live v =
     (if vl_closed v then (Inl VlClosed, v)
      else if \<not> tmp_ok then (Inl VlIO, v)
      else
        let pointers = sort_key (\<lambda>vp. sint (vp_Offset vp)) (filter (\<lambda>vp. sint (vp_Size vp) > 0) live) in
        case gc_copy v pointers vlog_header Map.empty of
          Inl err \<Rightarrow> (Inl err, v)
        | Inr (out, tr) \<Rightarrow>
            if \<not> vl_readable v then (Inl VlIO, v)
            else
              let v = v\<lparr>vl_readable := False, vl_mapped := False\<rparr> in
              if \<not> swap_ok then (Inl VlIO, v)
              else (Inr tr, v\<lparr>vl_data := out, vl_slack := 0, vl_dataSize := length out,
                               vl_readable := True, vl_mapped := True\<rparr>))"

section \<open>Shutting down\<close>

text \<open>
  \<open>Shutdown\<close> has two critical sections; views may be released between them. The second one
  runs when no view is left, or when the time is over. The result says whether it returns
  without an error: it also fails when the read slice was unmapped before, and then leaves the
  slices as they are.
\<close>

definition vl_Shutdown_begin :: "vlog \<Rightarrow> vlog" where
  "vl_Shutdown_begin v = (if vl_closed v then v else v\<lparr>vl_closing := True\<rparr>)"

definition vl_unmap :: "vlog \<Rightarrow> vlog" where
  "vl_unmap v = v\<lparr>vl_closed := True, vl_data := [], vl_readable := False, vl_mapped := False\<rparr>"

definition vl_Shutdown_finish :: "vlog \<Rightarrow> bool \<times> vlog" where
  "vl_Shutdown_finish v =
     (if vl_waiting v = 0 then
        if vl_closed v then (True, v)
        else if \<not> vl_readable v then (False, v\<lparr>vl_closed := True\<rparr>)
        else (True, vl_unmap v)
      else (False, if vl_closed v then v else vl_unmap v))"

definition vl_Close :: "vlog \<Rightarrow> vlog" where
  "vl_Close v = (if vl_closed v then v else vl_unmap v)"

section \<open>Entries stay where they are\<close>

definition vl_enc :: "bytes \<Rightarrow> bytes" where
  "vl_enc val = put_be32 (crc32_ieee val) @ put_be32 (word_of_nat (length val)) @ val"

lemma length_vl_enc [simp]: "length (vl_enc val) = 8 + length val"
  by (simp add: vl_enc_def)

lemma length_vlog_header [simp]: "length vlog_header = 8"
  by (simp add: vlog_header_def)

definition vl_ptr :: "nat \<Rightarrow> bytes \<Rightarrow> value_pointer" where
  "vl_ptr off val = \<lparr>vp_Offset = word_of_nat off, vp_Size = word_of_nat (length val)\<rparr>"

text \<open>The entries known to be in the log, by offset.\<close>

definition vl_has :: "vlog \<Rightarrow> nat \<Rightarrow> bytes \<Rightarrow> bool" where
  "vl_has v off val \<longleftrightarrow> off + 8 + length val \<le> vl_dataSize v \<and> MaxInlineSize < length val \<and>
     length val < 2 ^ 31 \<and> subslice off (off + 8 + length val) (vl_data v) = vl_enc val"

definition vl_inv :: "vlog \<Rightarrow> bool" where
  "vl_inv v \<longleftrightarrow> vl_mapped v \<and> \<not> vl_closed v \<and> 8 \<le> vl_dataSize v \<and> vl_dataSize v \<le> length (vl_data v) \<and>
     take 8 (vl_data v) = vlog_header"

lemma alignTo_ge: "0 < ext \<Longrightarrow> n \<le> alignTo n ext"
proof -
  assume "0 < ext"
  have "n = n div ext * ext + n mod ext" by simp
  also have "\<dots> \<le> n div ext * ext + ext" using mod_less_divisor [OF \<open>0 < ext\<close>, of n] by linarith
  finally have "n \<le> (n div ext + 1) * ext" by simp
  then show ?thesis by (simp add: alignTo_def)
qed

lemma get_be32_at:
  assumes "subslice a b d = put_be32 w @ x" "a + 4 \<le> b"
  shows "get_be32 (drop a d) = w"
proof -
  have "take 4 (drop a d) = take 4 (subslice a b d)" using assms(2) by (simp add: subslice_def)
  also have "\<dots> = put_be32 w" by (simp add: assms(1))
  finally have "get_be32 (drop a d) = get_be32 (put_be32 w)" by (simp add: get_be32_def)
  then show ?thesis by (simp add: codec_simps)
qed

lemma subslice_tail:
  assumes "subslice a b d = x @ y" "a + length x \<le> b"
  shows "subslice (a + length x) b d = y"
proof -
  have "drop (length x) (subslice a b d) = y" by (simp add: assms(1))
  then show ?thesis by (simp add: subslice_def drop_take add.commute)
qed

lemma vl_fetch_has:
  assumes has: "vl_has v off val" and inv: "vl_inv v" and rd: "vl_readable v"
    and small: "length (vl_data v) < 2 ^ 63"
  shows "vl_fetch (vl_ptr off val) v = Inr val"
proof -
  let ?d = "vl_data v" and ?n = "length val"
  have le: "off + 8 + ?n \<le> length ?d" using has inv by (simp add: vl_has_def vl_inv_def)
  have n31: "?n < 2 ^ 31" using has by (simp add: vl_has_def)
  have s: "sint (word_of_nat k :: u64) = int k" if "k \<le> length ?d" for k
    using that small by (simp add: signed_of_nat signed_take_bit_int_eq_self)
  have u: "unat (word_of_nat k :: u64) = k" if "k \<le> length ?d" for k
    using that small by (intro unat_of_nat_small) simp
  have "sint (word_of_nat ?n :: u32) = int ?n"
    using n31 by (simp add: signed_of_nat signed_take_bit_int_eq_self)
  then have "scast (word_of_nat ?n :: u32) = (word_of_nat ?n :: u64)"
    by (metis of_int_of_nat_eq of_int_sint)
  then have e: "word_of_nat off + 8 + scast (word_of_nat ?n :: u32) = (word_of_nat (off + 8 + ?n) :: u64)"
    by simp
  have enc: "subslice off (off + 8 + ?n) ?d = put_be32 (crc32_ieee val) @ put_be32 (word_of_nat ?n) @ val"
    using has by (simp add: vl_has_def vl_enc_def)
  have crc: "get_be32 (drop off ?d) = crc32_ieee val" by (rule get_be32_at [OF enc]) simp
  have enc4: "subslice (off + 4) (off + 8 + ?n) ?d = put_be32 (word_of_nat ?n) @ val"
    using subslice_tail [OF enc] by simp
  have sz: "get_be32 (drop (off + 4) ?d) = word_of_nat ?n" by (rule get_be32_at [OF enc4]) simp
  have val: "subslice (off + 8) (off + 8 + ?n) ?d = val"
    using subslice_tail [OF enc4] by (simp add: add.commute)
  have f: "unat (word_of_nat off :: u64) = off" "unat (word_of_nat (off + 8 + ?n) :: u64) = off + 8 + ?n"
    "sint (word_of_nat off :: u64) = int off" "sint (word_of_nat (off + 8 + ?n) :: u64) = int (off + 8 + ?n)"
    using u [of off] u [of "off + 8 + ?n"] s [of off] s [of "off + 8 + ?n"] le by (simp_all del: of_nat_add)
  show ?thesis
    unfolding vl_fetch_def vl_ptr_def Let_def value_pointer.select_convs e f crc sz val
    using le rd by simp
qed

lemma vl_size_pos: "vl_has v off val \<Longrightarrow> vp_Size (vl_ptr off val) \<noteq> 0"
  by (auto simp: vl_has_def vl_ptr_def MaxInlineSize_def word_of_nat_eq_0_iff dest!: dvd_imp_le)

lemma vl_readers:
  assumes "vl_has v off val" "vl_inv v" "vl_readable v" "length (vl_data v) < 2 ^ 63"
  shows "vl_Read (vl_ptr off val) v = Inr val" "vl_ReadDirect (vl_ptr off val) v = Inr val"
    "readDirectLocked (vl_ptr off val) v = Inr val"
  using vl_fetch_has [OF assms] vl_size_pos [OF assms(1)] assms(2)
  by (simp_all add: vl_Read_def vl_ReadDirect_def readDirectLocked_def vl_inv_def)

text \<open>Once the read slice is unmapped, a pointer to a value faults.\<close>

lemma vl_Read_unmapped:
  assumes "vl_has v off val" "vl_inv v" "\<not> vl_readable v" "length (vl_data v) < 2 ^ 63"
  shows "vl_Read (vl_ptr off val) v = Inl VlFault"
proof -
  have "vl_has (v\<lparr>vl_readable := True\<rparr>) off val" "vl_inv (v\<lparr>vl_readable := True\<rparr>)"
    using assms(1,2) by (simp_all add: vl_has_def vl_inv_def)
  from vl_fetch_has [OF this] assms(4)
  have "vl_fetch (vl_ptr off val) (v\<lparr>vl_readable := True\<rparr>) = Inr val" by simp
  then have "vl_fetch (vl_ptr off val) v = Inl VlFault"
    using assms(3) by (auto simp: vl_fetch_def Let_def split: if_splits)
  then show ?thesis using vl_size_pos [OF assms(1)] assms(2) by (simp add: vl_Read_def vl_inv_def)
qed

lemma vl_extend_ok:
  assumes "0 < ext" "vl_extendMmap ext out n v = (r, v')" "length (vl_data v) < n"
  shows "(r = None \<longleftrightarrow> out = MapOk) \<and> (\<exists>z. vl_data v' = vl_data v @ z) \<and> vl_dataSize v' = vl_dataSize v \<and>
    vl_mapped v' = vl_mapped v \<and> vl_closed v' = vl_closed v \<and> vl_syncMode v' = vl_syncMode v \<and>
    (out = MapOk \<longrightarrow> n \<le> length (vl_data v')) \<and>
    (out = RemapFails \<longrightarrow> \<not> vl_readable v') \<and> (out = MapOk \<longrightarrow> vl_readable v') \<and>
    (out \<noteq> RemapFails \<longrightarrow> vl_readable v \<longrightarrow> vl_readable v')"
proof -
  have "n \<le> alignTo n ext" by (rule alignTo_ge [OF assms(1)])
  then show ?thesis
    using assms(2,3) by (cases out)
      (auto simp: vl_extendMmap_def ensureFileCapacity_def vl_file_def Let_def split: if_splits)
qed

lemma copy_at_mid:
  "length src = length mid \<Longrightarrow> copy_at (length pre) src (pre @ mid @ post) = pre @ src @ post"
  by (simp add: copy_at_full)

lemma split_region:
  assumes "off + 8 + n \<le> length d"
  obtains pre m1 m2 m3 post where "d = pre @ m1 @ m2 @ m3 @ post" "length pre = off" "length m1 = 4"
    "length m2 = 4" "length m3 = n"
proof -
  have e: "d = take off d @ take 4 (drop off d) @ take 4 (drop (off + 4) d) @ take n (drop (off + 8) d) @ drop (off + 8 + n) d"
    by (metis append_take_drop_id drop_drop add.assoc add.commute numeral_Bit0)
  from that [OF e] show thesis using assms by simp
qed

lemma write_region:
  assumes "off + 8 + length val \<le> length d"
  defines "d1 \<equiv> copy_at (off + 8) val (copy_at (off + 4) (put_be32 (word_of_nat (length val))) d)"
  defines "d2 \<equiv> copy_at off (put_be32 (crc32_ieee (subslice (off + 8) (off + 8 + length val) d1))) d1"
  shows "d2 = take off d @ vl_enc val @ drop (off + 8 + length val) d"
proof -
  obtain pre m1 m2 m3 post where d: "d = pre @ m1 @ m2 @ m3 @ post" and l: "length pre = off"
    "length m1 = 4" "length m2 = 4" "length m3 = length val"
    using split_region [OF assms(1)] .
  let ?s = "put_be32 (word_of_nat (length val))"
  have a: "copy_at (off + 4) ?s d = pre @ m1 @ ?s @ m3 @ post"
    using copy_at_mid [of ?s m2 "pre @ m1" "m3 @ post"] l by (simp add: d add.commute)
  have b: "d1 = pre @ m1 @ ?s @ val @ post"
    using copy_at_mid [of val m3 "pre @ m1 @ ?s" post] l unfolding d1_def a by (simp add: add.commute)
  have c: "subslice (off + 8) (off + 8 + length val) d1 = val"
    unfolding b subslice_def using l by simp
  have "d2 = pre @ put_be32 (crc32_ieee val) @ ?s @ val @ post"
    unfolding d2_def c unfolding b using copy_at_mid [of "put_be32 (crc32_ieee val)" m1 pre "?s @ val @ post"] l
    by simp
  then show ?thesis using l by (simp add: d vl_enc_def)
qed

lemma vl_has_append:
  "vl_has v off val \<Longrightarrow> vl_dataSize v \<le> length (vl_data v) \<Longrightarrow> vl_data v' = vl_data v @ z \<Longrightarrow>
   vl_dataSize v \<le> vl_dataSize v' \<Longrightarrow> vl_has v' off val"
  by (auto simp: vl_has_def subslice_append_left)

lemma vl_inv_append:
  "vl_inv v \<Longrightarrow> vl_data v' = vl_data v @ z \<Longrightarrow> vl_dataSize v' = vl_dataSize v \<Longrightarrow> vl_mapped v' \<Longrightarrow>
   \<not> vl_closed v' \<Longrightarrow> vl_inv v'"
  by (auto simp: vl_inv_def)

text \<open>A write keeps the entries; a successful one adds its own.\<close>

lemma vl_Write_step:
  assumes ext: "0 < ext" and inv: "vl_inv v" and len: "length val < 2 ^ 31"
    and w: "vl_Write ext out sync_ok val v = (r, v')"
  shows "vl_inv v'" "out \<noteq> RemapFails \<Longrightarrow> vl_readable v \<Longrightarrow> vl_readable v'"
    "vl_has v off x \<Longrightarrow> vl_has v' off x"
    "r = Inr vp \<Longrightarrow> MaxInlineSize < length val \<Longrightarrow> \<exists>off. vp = vl_ptr off val \<and> vl_has v' off val"
proof -
  have "vl_inv v' \<and> (out \<noteq> RemapFails \<longrightarrow> vl_readable v \<longrightarrow> vl_readable v') \<and>
    (\<forall>off x. vl_has v off x \<longrightarrow> vl_has v' off x) \<and>
    (\<forall>vp. r = Inr vp \<longrightarrow> MaxInlineSize < length val \<longrightarrow> (\<exists>off. vp = vl_ptr off val \<and> vl_has v' off val))"
  proof (cases "length val \<le> MaxInlineSize")
    case True
    then show ?thesis using w inv by (auto simp: vl_Write_def)
  next
    case large: False
    let ?o = "vl_dataSize v" let ?n = "?o + (8 + length val)"
    obtain e v1 where g: "(if ?n > length (vl_data v) then vl_extendMmap ext out ?n v else (None, v)) = (e, v1)"
      by (metis surj_pair)
    have v1: "\<exists>z. vl_data v1 = vl_data v @ z" "vl_dataSize v1 = ?o" "vl_mapped v1" "\<not> vl_closed v1"
      "e = None \<longrightarrow> ?n \<le> length (vl_data v1)"
      "out \<noteq> RemapFails \<longrightarrow> vl_readable v \<longrightarrow> vl_readable v1"
      using g vl_extend_ok [OF ext, of out ?n v e v1] inv by (auto simp: vl_inv_def split: if_splits)
    have inv1: "vl_inv v1" using v1 vl_inv_append [OF inv] by blast
    have has1: "vl_has v1 off x" if "vl_has v off x" for off x
      using vl_has_append [OF that] v1(1,2) inv by (auto simp: vl_inv_def)
    have nc: "\<not> vl_closed v" using inv by (simp add: vl_inv_def)
    show ?thesis
    proof (cases e)
      case (Some err)
      then have "(r, v') = (Inl err, v1)"
        using w large g nc by (simp add: vl_Write_def Let_def)
      then show ?thesis using inv1 has1 v1(6) by simp
    next
      case None
      then have fit: "?o + 8 + length val \<le> length (vl_data v1)" using v1(5) by simp
      let ?d = "take ?o (vl_data v1) @ vl_enc val @ drop (?o + 8 + length val) (vl_data v1)"
      let ?v2 = "v1\<lparr>vl_data := ?d, vl_dataSize := ?n\<rparr>"
      have vv: "v' = ?v2" "r = Inr vp \<Longrightarrow> vp = vl_ptr ?o val" for vp
        using w large g nc None v1(2,3) write_region [OF fit] by (auto simp: vl_Write_def Let_def vl_ptr_def split: if_splits)
      have sub: "subslice a b ?d = subslice a b (vl_data v1)" if "b \<le> ?o" for a b
      proof -
        have l: "b \<le> length (take ?o (vl_data v1))" using that fit by simp
        have "subslice a b ?d = subslice a b (take ?o (vl_data v1))" by (rule subslice_append_left [OF l])
        also have "\<dots> = subslice a b (take ?o (vl_data v1) @ drop ?o (vl_data v1))"
          by (rule subslice_append_left [OF l, symmetric])
        finally show ?thesis by simp
      qed
      have new: "vl_has ?v2 ?o val"
        using large len fit by (simp add: vl_has_def subslice_def)
      have old: "vl_has ?v2 off x" if "vl_has v1 off x" for off x
        using that sub [of "off + 8 + length x" off] v1(2) by (auto simp: vl_has_def)
      have "take 8 ?d = take 8 (vl_data v1)" using inv1 v1(2) fit by (simp add: vl_inv_def min_absorb1)
      then have "vl_inv ?v2" using inv1 v1(2) fit by (simp add: vl_inv_def)
      moreover have "vl_readable ?v2 = vl_readable v1" by simp
      ultimately show ?thesis using vv new old has1 v1(6) by blast
    qed
  qed
  then show "vl_inv v'" "out \<noteq> RemapFails \<Longrightarrow> vl_readable v \<Longrightarrow> vl_readable v'" "vl_has v off x \<Longrightarrow> vl_has v' off x"
    "r = Inr vp \<Longrightarrow> MaxInlineSize < length val \<Longrightarrow> \<exists>off. vp = vl_ptr off val \<and> vl_has v' off val"
    by blast+
qed

lemma OpenVLog_inv:
  assumes "0 < ext" "OpenVLog ext io_ok rm file = Inr v"
  shows "vl_inv v" "vl_readable v"
    "file \<noteq> [] \<Longrightarrow> take 8 file = vlog_header \<Longrightarrow> vl_dataSize v = length file \<and> (\<exists>z. vl_data v = file @ z)"
proof -
  let ?st = "\<lambda>c. case ensureFileCapacity io_ok (if alignTo (length c) ext < ext then ext else alignTo (length c) ext) c of
              Inl err \<Rightarrow> Inl err
            | Inr d \<Rightarrow> Inr \<lparr>vl_data = d, vl_slack = 0, vl_readable = True, vl_dataSize = length c, vl_mapped = True, vl_closed = False,
                vl_closing = False, vl_refCount = 0, vl_waiting = 0, vl_syncMode = False\<rparr>"
  have st: "vl_inv v \<and> vl_readable v \<and> vl_dataSize v = length c \<and> (\<exists>z. vl_data v = c @ z)"
    if "?st c = Inr v" "8 \<le> length c" "take 8 c = vlog_header" for c
  proof -
    have "length c \<le> (if alignTo (length c) ext < ext then ext else alignTo (length c) ext)"
      using alignTo_ge [OF assms(1), of "length c"] by simp
    then show ?thesis
      using that assms(1) by (auto simp: ensureFileCapacity_def vl_inv_def split: if_splits)
  qed
  have hd: "take 8 file = vlog_header" if "get_be32 (subslice 0 4 file) = VLogMagic"
    "get_be32 (subslice 4 8 file) = VLogVersion" "8 \<le> length file"
  proof -
    have put_get: "put_be32 (get_be32 x) = x" if "length x = 4" for x
    proof -
      have "nat_le (rev x) < 2 ^ 32" using nat_le_bound [of "rev x"] that by simp
      then show ?thesis
        using le_nat_nat_le [of "rev x"] that by (simp add: put_be32_def get_be32_def unat_of_nat_small)
    qed
    have "take 8 file = subslice 0 4 file @ subslice 4 8 file"
      by (simp add: subslice_def flip: take_add)
    also have "subslice 0 4 file = put_be32 VLogMagic" using put_get [of "subslice 0 4 file"] that by simp
    also have "subslice 4 8 file = put_be32 VLogVersion" using put_get [of "subslice 4 8 file"] that by simp
    finally show ?thesis by (simp add: vlog_header_def)
  qed
  have cases: "?st vlog_header = Inr v \<and> (file \<noteq> [] \<longrightarrow> take 8 file \<noteq> vlog_header) \<or>
      ?st file = Inr v \<and> 8 \<le> length file \<and> take 8 file = vlog_header"
  proof -
    have hh: "get_be32 (subslice 0 4 file) = VLogMagic \<and> get_be32 (subslice 4 8 file) = VLogVersion"
      if "take 8 file = vlog_header"
    proof -
      have "subslice 0 4 file = take 4 (take 8 file)" "subslice 4 8 file = drop 4 (take 8 file)"
        by (simp_all add: subslice_def min_absorb1 drop_take)
      then show ?thesis unfolding that by (simp add: vlog_header_def codec_simps)
    qed
    show ?thesis
      using assms(2) hd hh unfolding OpenVLog_def Let_def by (auto split: if_splits)
  qed
  then show "vl_inv v" "vl_readable v"
    "file \<noteq> [] \<Longrightarrow> take 8 file = vlog_header \<Longrightarrow> vl_dataSize v = length file \<and> (\<exists>z. vl_data v = file @ z)"
    using st [of vlog_header] st [of "file"] by auto
qed

section \<open>Sessions\<close>

text \<open>
  The operations on a log between a first opening and the last read: writes whose extension
  and fsync may fail, and closing and reopening. A failed reopening ends the run.
\<close>

datatype vlog_op = VWrite map_outcome bool bytes | VReopen bool

fun vl_run :: "nat \<Rightarrow> vlog_op list \<Rightarrow> vlog \<Rightarrow> ((bytes \<times> value_pointer) list \<times> vlog) option" where
  "vl_run ext [] v = Some ([], v)"
| "vl_run ext (VReopen io_ok # ops) v =
     (let d = vl_file v; v = vl_Close v in
      case OpenVLog ext io_ok True d of Inl err \<Rightarrow> None | Inr v \<Rightarrow> vl_run ext ops v)"
| "vl_run ext (VWrite outcome sync_ok val # ops) v =
     (let (r, v) = vl_Write ext outcome sync_ok val v in
      case vl_run ext ops v of
        None \<Rightarrow> None
      | Some (res, v) \<Rightarrow>
          Some (case r of Inr vp \<Rightarrow> if MaxInlineSize < length val then (val, vp) # res else res | Inl _ \<Rightarrow> res, v))"

lemma OpenVLog_reopen:
  assumes "0 < ext" "OpenVLog ext io_ok rm (vl_file v) = Inr v1" "vl_inv v"
  shows "vl_inv v1" "vl_readable v1" "vl_has v off x \<Longrightarrow> vl_has v1 off x"
proof -
  have ne: "vl_file v \<noteq> []" "take 8 (vl_file v) = vlog_header" "vl_dataSize v \<le> length (vl_data v)"
    using assms(3) by (auto simp: vl_inv_def vl_file_def)
  note o = OpenVLog_inv [OF assms(1,2)]
  then show "vl_inv v1" "vl_readable v1" by blast+
  obtain z where "vl_dataSize v1 = length (vl_file v)" "vl_data v1 = vl_file v @ z"
    using o(3) [OF ne(1,2)] by blast
  then show "vl_has v1 off x" if "vl_has v off x"
    using vl_has_append [OF that ne(3), of v1 "replicate (vl_slack v) 0 @ z"] ne(3)
    by (simp add: vl_file_def)
qed

lemma vl_run_keeps:
  assumes "0 < ext" "vl_inv v" "vl_run ext ops v = Some (res, v')"
    and "\<forall>io sy val. VWrite io sy val \<in> set ops \<longrightarrow> length val < 2 ^ 31"
  shows "vl_inv v' \<and> (\<forall>off x. vl_has v off x \<longrightarrow> vl_has v' off x) \<and>
    ((\<forall>sy val. VWrite RemapFails sy val \<notin> set ops) \<longrightarrow> vl_readable v \<longrightarrow> vl_readable v') \<and>
    (\<forall>(val, vp) \<in> set res. \<exists>off. vp = vl_ptr off val \<and> vl_has v' off val)"
  using assms(2-4)
proof (induction ops arbitrary: v res)
  case Nil
  then show ?case by simp
next
  case (Cons op ops)
  have small: "\<forall>io sy val. VWrite io sy val \<in> set ops \<longrightarrow> length val < 2 ^ 31" using Cons.prems(3) by simp
  show ?case
  proof (cases op)
    case (VReopen io_ok)
    obtain v1 where v1: "OpenVLog ext io_ok True (vl_file v) = Inr v1" "vl_run ext ops v1 = Some (res, v')"
      using Cons.prems(2) VReopen by (auto simp: Let_def split: sum.splits)
    note re = OpenVLog_reopen [OF assms(1) v1(1) Cons.prems(1)]
    show ?thesis using Cons.IH [OF re(1) v1(2) small] re(2,3) VReopen by auto
  next
    case (VWrite out sync_ok val)
    obtain r v1 where w: "vl_Write ext out sync_ok val v = (r, v1)" by (metis surj_pair)
    obtain res1 where r: "vl_run ext ops v1 = Some (res1, v')"
      "res = (case r of Inr vp \<Rightarrow> if MaxInlineSize < length val then (val, vp) # res1 else res1 | Inl _ \<Rightarrow> res1)"
      using Cons.prems(2) VWrite w by (auto split: option.splits)
    have len: "length val < 2 ^ 31" using Cons.prems(3) VWrite by auto
    note st = vl_Write_step [OF assms(1) Cons.prems(1) len w]
    note IH = Cons.IH [OF st(1) r(1) small]
    show ?thesis
    proof (intro conjI ballI)
      show "vl_inv v'" using IH by blast
      show "\<forall>off x. vl_has v off x \<longrightarrow> vl_has v' off x" using IH st(3) by blast
      show "(\<forall>sy val. VWrite RemapFails sy val \<notin> set (op # ops)) \<longrightarrow> vl_readable v \<longrightarrow> vl_readable v'"
        using IH st(2) VWrite by auto
      fix p assume p: "p \<in> set res"
      show "case p of (val, vp) \<Rightarrow> \<exists>off. vp = vl_ptr off val \<and> vl_has v' off val"
      proof (cases "p \<in> set res1")
        case True
        then show ?thesis using IH by blast
      next
        case False
        then obtain vp where "r = Inr vp" "p = (val, vp)" "MaxInlineSize < length val"
          using p r(2) by (auto split: sum.splits if_splits)
        then show ?thesis using st(4) IH by blast
      qed
    qed
  qed
qed

text \<open>
  C16. The value log keeps what it acknowledged. Start from any file that opens, new or old, and
  run any sequence of writes of values below 2 GB, where extending the log may fail at each of
  its steps and syncing may fail, and of reopenings, with any extension step. Every pointer that
  a write returned for a value above the inline limit reads that value back, by \<open>Read\<close>, by
  \<open>ReadDirect\<close> and through a view, as long as the region is below \<^verbatim>\<open>2^63\<close> bytes and the read slice
  points to mapped memory. It does unless an extension failed at the second mapping; the reads
  then fault, until an extension succeeds or the log is reopened: the bytes themselves are never
  lost.
\<close>

theorem vlog_keeps_acknowledged_values:
  assumes "0 < ext" "OpenVLog ext io_ok rm_ok file = Inr v0" "vl_run ext ops v0 = Some (res, v)"
    and "\<forall>out sy val. VWrite out sy val \<in> set ops \<longrightarrow> length val < 2 ^ 31"
    and "length (vl_data v) < 2 ^ 63" "(val, vp) \<in> set res"
  shows "(vl_readable v \<longrightarrow> vl_Read vp v = Inr val \<and> vl_ReadDirect vp v = Inr val \<and>
      (\<not> vl_closing v \<longrightarrow> (\<exists>vw v'. vl_ReadView vp v = (Inr vw, v') \<and> vv_data vw = val))) \<and>
    (\<not> vl_readable v \<longrightarrow> vl_Read vp v = Inl VlFault) \<and>
    ((\<forall>sy val. VWrite RemapFails sy val \<notin> set ops) \<longrightarrow> vl_readable v) \<and>
    (\<forall>v'. OpenVLog ext True True (vl_file v) = Inr v' \<longrightarrow> length (vl_data v') < 2 ^ 63 \<longrightarrow>
      vl_Read vp v' = Inr val)"
proof -
  note o = OpenVLog_inv [OF assms(1,2)]
  note run = vl_run_keeps [OF assms(1) o(1) assms(3,4)]
  obtain off where h: "vl_inv v" "vp = vl_ptr off val" "vl_has v off val" using run assms(6) by blast
  show ?thesis
  proof (intro conjI impI allI)
    show "vl_readable v" if "\<forall>sy val. VWrite RemapFails sy val \<notin> set ops" using run o(2) that by blast
    show "vl_Read vp v = Inl VlFault" if "\<not> vl_readable v"
      unfolding h(2) by (rule vl_Read_unmapped [OF h(3,1) that assms(5)])
    show "vl_Read vp v' = Inr val"
      if "OpenVLog ext True True (vl_file v) = Inr v'" "length (vl_data v') < 2 ^ 63" for v'
      using OpenVLog_reopen [OF assms(1) that(1) h(1)] vl_readers(1) h(2,3) that(2) by blast
  next
    assume rd: "vl_readable v"
    note rds = vl_readers [OF h(3,1) rd assms(5)]
    show "vl_Read vp v = Inr val" "vl_ReadDirect vp v = Inr val" using rds h(2) by simp_all
    show "\<exists>vw v'. vl_ReadView vp v = (Inr vw, v') \<and> vv_data vw = val" if "\<not> vl_closing v"
      using vl_fetch_has [OF h(3,1) rd assms(5)] h(1) that
      by (auto simp: h(2) vl_ReadView_def vl_inv_def Let_def)
  qed
qed

lemma header_of_inv:
  assumes "vl_inv v"
  shows "get_be32 (subslice 0 4 (vl_data v)) = VLogMagic" "get_be32 (subslice 4 8 (vl_data v)) = VLogVersion"
proof -
  have h: "take 8 (vl_data v) = put_be32 VLogMagic @ put_be32 VLogVersion"
    using assms by (simp add: vl_inv_def vlog_header_def)
  have "subslice 0 4 (vl_data v) = take 4 (take 8 (vl_data v))" by (simp add: subslice_def min_absorb1)
  then show "get_be32 (subslice 0 4 (vl_data v)) = VLogMagic" unfolding h by (simp add: codec_simps)
  have "subslice 4 8 (vl_data v) = drop 4 (take 8 (vl_data v))" by (simp add: subslice_def drop_take)
  then show "get_be32 (subslice 4 8 (vl_data v)) = VLogVersion" unfolding h by (simp add: codec_simps)
qed

theorem vlog_keeps_acknowledged_values_witness:
  "\<exists>v. vl_run 100 [VWrite MapOk True (replicate 70 7), VReopen True] (the (case OpenVLog 100 True True [] of Inr v \<Rightarrow> Some v | Inl _ \<Rightarrow> None)) =
      Some ([(replicate 70 7, vl_ptr 8 (replicate 70 7))], v) \<and>
    vl_Read (vl_ptr 8 (replicate 70 7)) v = Inr (replicate 70 7)"
proof -
  have al: "alignTo 8 100 = 100" "alignTo 100 100 = 100" by (simp_all add: alignTo_def)
  obtain v0 where o: "OpenVLog 100 True True [] = Inr v0" "length (vl_data v0) = 100" "vl_dataSize v0 = 8"
    "\<not> vl_closed v0" "vl_mapped v0" "\<not> vl_syncMode v0" "vl_slack v0 = 0"
    by (simp add: OpenVLog_def Let_def ensureFileCapacity_def al)
  have inv: "vl_inv v0" by (rule OpenVLog_inv(1) [OF _ o(1)]) simp
  obtain r v1 where w: "vl_Write 100 MapOk True (replicate 70 7) v0 = (r, v1)" by (metis surj_pair)
  have r: "r = Inr (vl_ptr 8 (replicate 70 7))" "length (vl_data v1) = 100" "vl_slack v1 = 0"
    using w o by (auto simp: vl_Write_def Let_def MaxInlineSize_def vl_ptr_def)
  have inv1: "vl_inv v1" by (rule vl_Write_step(1) [OF _ inv _ w]) simp_all
  note hd = header_of_inv [OF inv1]
  have f: "vl_file v1 = vl_data v1" using r(3) by (simp add: vl_file_def)
  obtain v where v: "OpenVLog 100 True True (vl_data v1) = Inr v" "length (vl_data v) = 100"
    using hd r(2) by (cases "vl_data v1") (auto simp: OpenVLog_def Let_def ensureFileCapacity_def al)
  have run: "vl_run 100 [VWrite MapOk True (replicate 70 7), VReopen True] v0 = Some ([(replicate 70 7, vl_ptr 8 (replicate 70 7))], v)"
    by (simp add: w r(1) f v MaxInlineSize_def Let_def)
  have "vl_Read (vl_ptr 8 (replicate 70 7)) v = Inr (replicate 70 7)"
    using vlog_keeps_acknowledged_values [OF _ o(1) run, of "replicate 70 7" "vl_ptr 8 (replicate 70 7)"] v(2)
    by auto
  with run o(1) show ?thesis by simp
qed

section \<open>Garbage collection keeps the live values\<close>

lemma gc_copy_spec:
  assumes "\<forall>vp \<in> set vps. \<exists>off x. vp = vl_ptr off x \<and> vl_has v off x" "vl_inv v" "length (vl_data v) < 2 ^ 63"
    and "distinct vps" "vl_readable v"
  shows "\<exists>out' tr'. gc_copy v vps out tr = Inr (out', tr') \<and> (\<exists>z. out' = out @ z) \<and>
    dom tr' = dom tr \<union> set vps \<and> (\<forall>vp. vp \<notin> set vps \<longrightarrow> tr' vp = tr vp) \<and>
    (\<forall>off x. vl_ptr off x \<in> set vps \<longrightarrow> vl_has v off x \<longrightarrow>
       (\<exists>n. tr' (vl_ptr off x) = Some (vl_ptr n x) \<and> length out \<le> n \<and> n + 8 + length x \<le> length out' \<and>
         subslice n (n + 8 + length x) out' = vl_enc x)) \<and>
    int (length out') = int (length out) + (\<Sum>vp \<leftarrow> vps. 8 + uint (vp_Size vp))"
  using assms(1,4)
proof (induction vps arbitrary: out tr)
  case Nil
  then show ?case by simp
next
  case (Cons vp vps)
  obtain off x where vp: "vp = vl_ptr off x" "vl_has v off x" using Cons.prems(1) by auto
  let ?out = "out @ vl_enc x" let ?new = "vl_ptr (length out) x"
  have rd: "readDirectLocked vp v = Inr x" unfolding vp(1) by (rule vl_readers(3) [OF vp(2) assms(2,5,3)])
  have new: "\<lparr>vp_Offset = word_of_nat (length out), vp_Size = vp_Size vp\<rparr> = ?new"
    by (simp add: vp(1) vl_ptr_def)
  have prem: "\<forall>vp \<in> set vps. \<exists>off x. vp = vl_ptr off x \<and> vl_has v off x" "distinct vps"
    using Cons.prems by simp_all
  obtain out' tr' z where IH: "gc_copy v vps ?out (tr(vp \<mapsto> ?new)) = Inr (out', tr')" "out' = ?out @ z"
    "dom tr' = dom (tr(vp \<mapsto> ?new)) \<union> set vps" "\<forall>w. w \<notin> set vps \<longrightarrow> tr' w = (tr(vp \<mapsto> ?new)) w"
    "\<forall>off x. vl_ptr off x \<in> set vps \<longrightarrow> vl_has v off x \<longrightarrow>
       (\<exists>n. tr' (vl_ptr off x) = Some (vl_ptr n x) \<and> length ?out \<le> n \<and> n + 8 + length x \<le> length out' \<and>
         subslice n (n + 8 + length x) out' = vl_enc x)"
    "int (length out') = int (length ?out) + (\<Sum>vp \<leftarrow> vps. 8 + uint (vp_Size vp))"
    using Cons.IH [OF prem, where out = ?out and tr = "tr(vp \<mapsto> ?new)"] by (elim exE conjE) (rule that)
  have run: "gc_copy v (vp # vps) out tr = Inr (out', tr')"
    using IH(1) by (simp add: rd new vl_enc_def)
  have same: "x' = x" if "vl_ptr off' x' = vp" "vl_has v off' x'" for off' x'
    using vl_readers(1) [OF that(2) assms(2,5,3)] vl_readers(1) [OF vp(2) assms(2,5,3)] that(1) vp(1) by simp
  note z = IH(2)
  have own: "tr' vp = Some ?new" using IH(4) Cons.prems(2) by simp
  have sub: "subslice (length out) (length out + 8 + length x) out' = vl_enc x"
    by (simp add: z subslice_def)
  have "length x < 2 ^ 32" using vp(2) by (simp add: vl_has_def)
  then have sz: "uint (vp_Size vp) = int (length x)"
    by (simp add: vp(1) vl_ptr_def uint_nat unat_of_nat_small)
  show ?case
  proof (rule exI [of _ out'], rule exI [of _ tr'], intro conjI)
    show "\<forall>off' x'. vl_ptr off' x' \<in> set (vp # vps) \<longrightarrow> vl_has v off' x' \<longrightarrow>
       (\<exists>n. tr' (vl_ptr off' x') = Some (vl_ptr n x') \<and> length out \<le> n \<and> n + 8 + length x' \<le> length out' \<and>
         subslice n (n + 8 + length x') out' = vl_enc x')"
    proof (intro allI impI)
      fix off' x' assume a: "vl_ptr off' x' \<in> set (vp # vps)" "vl_has v off' x'"
      show "\<exists>n. tr' (vl_ptr off' x') = Some (vl_ptr n x') \<and> length out \<le> n \<and> n + 8 + length x' \<le> length out' \<and>
         subslice n (n + 8 + length x') out' = vl_enc x'"
      proof (cases "vl_ptr off' x' = vp")
        case True
        then show ?thesis using same [OF True a(2)] own sub by (intro exI [of _ "length out"]) (simp add: z)
      next
        case False
        then show ?thesis using a IH(5) by fastforce
      qed
    qed
    show "\<exists>z. out' = out @ z" by (simp add: z)
    show "gc_copy v (vp # vps) out tr = Inr (out', tr')" by (rule run)
    show "int (length out') = int (length out) + (\<Sum>vp \<leftarrow> vp # vps. 8 + uint (vp_Size vp))"
      using IH(6) sz by simp
  qed (use IH(3,4) in auto)
qed

text \<open>
  C17. Garbage collection of the value log. After any run as in C16 that leaves the read slice
  mapped (no extension failed at its second mapping, or one succeeded since), a collection whose
  file operations succeed, with any set of live pointers of acknowledged values in any iteration
  order, succeeds and translates exactly these pointers; every one of them reads its value
  through its translation, also after the collected log is closed and reopened, and the new log
  holds the live values and nothing else.
\<close>

theorem vlog_gc_keeps_live_values:
  assumes "0 < ext" "OpenVLog ext io_ok rm_ok file = Inr v0" "vl_run ext ops v0 = Some (res, v)"
    and "\<forall>out sy val. VWrite out sy val \<in> set ops \<longrightarrow> length val < 2 ^ 31"
    and "length (vl_data v) < 2 ^ 63" "vl_readable v" "distinct live" "set live \<subseteq> snd ` set res"
  shows "\<exists>tr v'. vl_GC True True live v = (Inr tr, v') \<and> dom tr = set live \<and>
    int (vl_dataSize v') = 8 + (\<Sum>vp \<leftarrow> live. 8 + uint (vp_Size vp)) \<and>
    (\<forall>v2. v2 = v' \<or> OpenVLog ext True True (vl_file v') = Inr v2 \<longrightarrow> length (vl_data v2) < 2 ^ 63 \<longrightarrow>
      (\<forall>(val, vp) \<in> set res. vp \<in> set live \<longrightarrow> (\<exists>vp'. tr vp = Some vp' \<and> vl_Read vp' v2 = Inr val)))"
proof -
  note run = vl_run_keeps [OF assms(1) OpenVLog_inv(1) [OF assms(1,2)] assms(3,4)]
  have inv: "vl_inv v" using run by blast
  have res: "\<exists>off. vp = vl_ptr off val \<and> vl_has v off val" if "(val, vp) \<in> set res" for val vp
    using run that by blast
  have live: "\<exists>off x. vp = vl_ptr off x \<and> vl_has v off x" if "vp \<in> set live" for vp
    using assms(8) that res by force
  have pos: "sint (vp_Size vp) > 0" if h: "vp \<in> set live" for vp
  proof -
    obtain off x where x: "vp = vl_ptr off x" "vl_has v off x" using live [OF h] by blast
    then have "sint (word_of_nat (length x) :: u32) = int (length x)"
      by (simp add: vl_has_def signed_of_nat signed_take_bit_int_eq_self)
    then show ?thesis using x by (auto simp: vl_ptr_def vl_has_def)
  qed
  let ?ps = "sort_key (\<lambda>vp. sint (vp_Offset vp)) (filter (\<lambda>vp. sint (vp_Size vp) > 0) live)"
  have fl: "filter (\<lambda>vp. sint (vp_Size vp) > 0) live = live" using pos by (simp add: filter_id_conv)
  have ps: "set ?ps = set live" "distinct ?ps" using assms(7) by (simp_all add: fl)
  have sum: "(\<Sum>vp \<leftarrow> ?ps. 8 + uint (vp_Size vp)) = (\<Sum>vp \<leftarrow> live. 8 + uint (vp_Size vp))"
    using ps assms(7) by (simp add: sum_list_distinct_conv_sum_set)
  have prem: "\<forall>vp \<in> set ?ps. \<exists>off x. vp = vl_ptr off x \<and> vl_has v off x" using live ps(1) by blast
  obtain out tr z where g: "gc_copy v ?ps vlog_header Map.empty = Inr (out, tr)" "out = vlog_header @ z"
    "dom tr = dom (Map.empty :: value_pointer \<rightharpoonup> value_pointer) \<union> set ?ps" "\<forall>vp. vp \<notin> set ?ps \<longrightarrow> tr vp = Map.empty vp"
    "\<forall>off x. vl_ptr off x \<in> set ?ps \<longrightarrow> vl_has v off x \<longrightarrow>
       (\<exists>n. tr (vl_ptr off x) = Some (vl_ptr n x) \<and> length vlog_header \<le> n \<and> n + 8 + length x \<le> length out \<and>
         subslice n (n + 8 + length x) out = vl_enc x)"
    "int (length out) = int (length vlog_header) + (\<Sum>vp \<leftarrow> ?ps. 8 + uint (vp_Size vp))"
    using gc_copy_spec [OF prem inv assms(5) ps(2) assms(6), of vlog_header Map.empty] by (elim exE conjE) (rule that)
  let ?v = "v\<lparr>vl_data := out, vl_slack := 0, vl_dataSize := length out, vl_readable := True, vl_mapped := True\<rparr>"
  have gc: "vl_GC True True live v = (Inr tr, ?v)"
    using inv g(1) assms(6) by (simp add: vl_GC_def Let_def vl_inv_def)
  have inv': "vl_inv ?v" using inv g(2) by (simp add: vl_inv_def)
  have rd: "\<exists>vp'. tr vp = Some vp' \<and> vl_Read vp' v2 = Inr val"
    if v2: "v2 = ?v \<or> OpenVLog ext True True (vl_file ?v) = Inr v2" "length (vl_data v2) < 2 ^ 63"
      and vp: "(val, vp) \<in> set res" "vp \<in> set live" for v2 val vp
  proof -
    obtain off where off: "vp = vl_ptr off val" "vl_has v off val" using res [OF vp(1)] by blast
    then obtain n where n: "tr vp = Some (vl_ptr n val)" "n + 8 + length val \<le> length out"
      "subslice n (n + 8 + length val) out = vl_enc val"
      using g(5) [rule_format, of off val] vp(2) ps(1) by blast
    then have has: "vl_has ?v n val" using off(2) by (simp add: vl_has_def)
    have "vl_inv v2 \<and> vl_readable v2 \<and> vl_has v2 n val"
    proof (cases "v2 = ?v")
      case True
      then show ?thesis using inv' has by simp
    next
      case False
      then have "OpenVLog ext True True (vl_file ?v) = Inr v2" using v2(1) by blast
      from OpenVLog_reopen [OF assms(1) this inv'] has show ?thesis by blast
    qed
    then show ?thesis using vl_readers(1) v2(2) n(1) by blast
  qed
  show ?thesis
    using gc g(3,6) ps(1) sum rd by (intro exI [of _ tr] exI [of _ ?v]) (auto simp: split_beta)
qed

text \<open>One live value of two.\<close>

theorem vlog_gc_keeps_live_values_witness:
  "\<exists>v tr v'. vl_run 1000 [VWrite MapOk True (replicate 70 7), VWrite MapOk True (replicate 80 8)]
        (the (case OpenVLog 1000 True True [] of Inr v \<Rightarrow> Some v | Inl _ \<Rightarrow> None)) =
      Some ([(replicate 70 7, vl_ptr 8 (replicate 70 7)), (replicate 80 8, vl_ptr 86 (replicate 80 8))], v) \<and>
    vl_GC True True [vl_ptr 86 (replicate 80 8)] v = (Inr tr, v') \<and> vl_dataSize v' = 96 \<and>
    (\<exists>vp'. tr (vl_ptr 86 (replicate 80 8)) = Some vp' \<and> vl_Read vp' v' = Inr (replicate 80 8))"
proof -
  let ?a = "replicate 70 7 :: bytes" and ?b = "replicate 80 8 :: bytes"
  have al: "alignTo 8 1000 = 1000" by (simp add: alignTo_def)
  obtain v0 where o: "OpenVLog 1000 True True [] = Inr v0" "length (vl_data v0) = 1000" "vl_dataSize v0 = 8"
    "\<not> vl_closed v0" "vl_mapped v0" "\<not> vl_syncMode v0"
    by (simp add: OpenVLog_def Let_def ensureFileCapacity_def al)
  obtain r v1 where w: "vl_Write 1000 MapOk True ?a v0 = (r, v1)" by (metis surj_pair)
  have r: "r = Inr (vl_ptr 8 ?a)" "length (vl_data v1) = 1000" "vl_dataSize v1 = 86" "\<not> vl_closed v1" "vl_mapped v1"
    "\<not> vl_syncMode v1"
    using w o by (auto simp: vl_Write_def Let_def MaxInlineSize_def vl_ptr_def)
  obtain r' v where w': "vl_Write 1000 MapOk True ?b v1 = (r', v)" by (metis surj_pair)
  have r': "r' = Inr (vl_ptr 86 ?b)" "length (vl_data v) = 1000"
    using w' r by (auto simp: vl_Write_def Let_def MaxInlineSize_def vl_ptr_def)
  have run: "vl_run 1000 [VWrite MapOk True ?a, VWrite MapOk True ?b] v0 = Some ([(?a, vl_ptr 8 ?a), (?b, vl_ptr 86 ?b)], v)"
    by (simp add: w r(1) w' r'(1) MaxInlineSize_def)
  have rd: "vl_readable v"
    using vl_run_keeps [OF _ OpenVLog_inv(1) [OF _ o(1)] run] OpenVLog_inv(2) [OF _ o(1)] by auto
  have sz: "uint (vp_Size (vl_ptr 86 ?b)) = 80" by (simp add: vl_ptr_def)
  obtain tr v' where g: "vl_GC True True [vl_ptr 86 ?b] v = (Inr tr, v')" "int (vl_dataSize v') = 96"
    "\<forall>v2. v2 = v' \<or> OpenVLog 1000 True True (vl_file v') = Inr v2 \<longrightarrow> length (vl_data v2) < 2 ^ 63 \<longrightarrow>
      (\<forall>(val, vp) \<in> set [(?a, vl_ptr 8 ?a), (?b, vl_ptr 86 ?b)]. vp \<in> set [vl_ptr 86 ?b] \<longrightarrow>
        (\<exists>vp'. tr vp = Some vp' \<and> vl_Read vp' v2 = Inr val))"
    using vlog_gc_keeps_live_values [OF _ o(1) run, of "[vl_ptr 86 ?b]"] r'(2) rd sz by auto
  have "length (vl_data v') = vl_dataSize v'"
    using g(1) by (auto simp: vl_GC_def Let_def split: if_splits sum.splits)
  then have "length (vl_data v') < 2 ^ 63" using g(2) by simp
  then have "\<exists>vp'. tr (vl_ptr 86 ?b) = Some vp' \<and> vl_Read vp' v' = Inr ?b"
    using g(3) [rule_format, of v'] by auto
  then show ?thesis using run g(1,2) o(1) by auto
qed

text \<open>
  \<open>GC\<close> unmaps the regions without looking at the reference count: a view taken before it is
  still counted, and its bytes are gone.
\<close>

theorem gc_unmaps_under_views:
  assumes "vl_ReadView vp v = (Inr vw, v1)" "vl_refCount v \<ge> 0"
    and "vl_GC True True [] v1 = (r, v2)"
  shows "r = Inr Map.empty \<and> vl_refCount v2 > 0 \<and> vl_data v2 = vlog_header"
proof -
  have "vl_fetch vp v \<noteq> Inl VlFault" using assms(1) by (auto simp: vl_ReadView_def split: if_splits)
  moreover have "vl_readable v" if "vl_fetch vp v = Inr x" for x
    using that by (auto simp: vl_fetch_def Let_def split: if_splits)
  ultimately show ?thesis
    using assms by (auto simp: vl_ReadView_def vl_GC_def IncRef_def Let_def split: if_splits sum.splits)
qed

text \<open>
  \<open>extendMmap\<close> unmaps the old read region before the mapping for writing has succeeded. When it
  fails, the write is refused, \<^verbatim>\<open>v.data\<close> keeps pointing to the unmapped region, and the next read
  of any stored value faults.
\<close>

theorem failed_remap_faults_reads:
  assumes "0 < ext" "vl_inv v" "vl_has v off val" "length (vl_data v) < 2 ^ 63"
    and "MaxInlineSize < length x" "length (vl_data v) < vl_dataSize v + (8 + length x)"
  shows "\<exists>v'. vl_Write ext RemapFails sync_ok x v = (Inl VlIO, v') \<and> vl_data v' = vl_data v \<and>
    vl_Read (vl_ptr off val) v' = Inl VlFault"
proof -
  let ?n = "vl_dataSize v + (8 + length x)"
  let ?d = "take (alignTo ?n ext) (vl_file v) @ replicate (alignTo ?n ext - length (vl_file v)) 0"
  let ?v = "v\<lparr>vl_slack := length ?d - length (vl_data v), vl_readable := False\<rparr>"
  have "0 < alignTo ?n ext" using alignTo_ge [OF assms(1), of ?n] by simp
  then have "vl_extendMmap ext RemapFails ?n v = (Some VlIO, ?v)"
    by (simp add: vl_extendMmap_def ensureFileCapacity_def Let_def)
  then have "vl_Write ext RemapFails sync_ok x v = (Inl VlIO, ?v)"
    using assms(2,5,6) by (simp add: vl_Write_def Let_def vl_inv_def)
  moreover have "vl_Read (vl_ptr off val) ?v = Inl VlFault"
    by (rule vl_Read_unmapped) (use assms in \<open>simp_all add: vl_has_def vl_inv_def\<close>)
  ultimately show ?thesis by (intro exI [of _ ?v]) simp
qed

end
