(* ===== verification/SSTable.thy ===== *)
theory SSTable
  imports Keys Bloom
begin

text \<open>
  Models \<^verbatim>\<open>internal/engine/sstable/encoding.go\<close> and \<^verbatim>\<open>writer.go\<close>: the encoding of keys and entries,
  the buffering writer, the division of the sorted entries into blocks, and the layout of the
  file: blocks with their checksums, the block index, the Bloom filter, the smallest and the
  largest key, and the 80-byte footer. Offsets are natural numbers that are stored in 64 bits.
  \<open>sort.Slice\<close> is a stable sort here; with pairwise different versioned keys, as the memtable
  delivers them, every sort gives the same list.
\<close>

datatype sst_error = SstCorrupted | SstPanic | SstTooSmall | SstBadMagic | SstRange | SstTruncated | SstCrc | SstIO

text \<open>Go's \<^verbatim>\<open>d[a:b]\<close>, with its panic.\<close>

definition go_slice :: "nat \<Rightarrow> nat \<Rightarrow> bytes \<Rightarrow> sst_error + bytes" where
  "go_slice a b d = (if a \<le> b \<and> b \<le> length d then Inr (subslice a b d) else Inl SstPanic)"

definition tagInline :: u8 where "tagInline = 0"
definition tagValuePtr :: u8 where "tagValuePtr = 1"
definition tagTombstone :: u8 where "tagTombstone = 2"

definition isValidValueTag :: "u8 \<Rightarrow> bool" where
  "isValidValueTag b \<longleftrightarrow> b = tagInline \<or> b = tagValuePtr \<or> b = tagTombstone"

lemmas sst_tags = tagInline_def tagValuePtr_def tagTombstone_def

definition encodeMVCCKey :: "mvcc_key \<Rightarrow> bytes" where
  "encodeMVCCKey key =
     put_le32 (word_of_nat (length (mk_key key))) @ mk_key key @ put_le64 (mk_ts key)"

text \<open>The sums \<^verbatim>\<open>4+kl\<close> and \<^verbatim>\<open>4+kl+8\<close> are computed in 32 bits.\<close>

definition decodeMVCCKey :: "bytes \<Rightarrow> sst_error + mvcc_key" where
  "decodeMVCCKey d =
     (if length d < 4 then Inl SstCorrupted
      else
        let kl = get_le32 (take 4 d) in
        if length d < unat (4 + kl + 8) then Inl SstCorrupted
        else
          case go_slice 4 (unat (4 + kl)) d of
            Inl err \<Rightarrow> Inl err
          | Inr userKey \<Rightarrow>
              let rest = drop (unat (4 + kl)) d in
              if length rest < 8 then Inl SstPanic
              else Inr (MVCCKey userKey (get_le64 rest)))"

definition encodeEntry :: "bytes \<Rightarrow> bytes option \<Rightarrow> bytes" where
  "encodeEntry key val =
     (let storedLen = (case val of None \<Rightarrow> 1 | Some v \<Rightarrow> 1 + length v) in
      put_le32 (word_of_nat (length key)) @ put_le32 (word_of_nat storedLen) @ key @
      (case val of None \<Rightarrow> [tagTombstone] | Some v \<Rightarrow> tagInline # v))"

definition encodeEntryTagged :: "bytes \<Rightarrow> bytes option \<Rightarrow> bytes" where
  "encodeEntryTagged key val =
     (let storedLen = (case val of None \<Rightarrow> 1 | Some v \<Rightarrow> length v) in
      put_le32 (word_of_nat (length key)) @ put_le32 (word_of_nat storedLen) @ key @
      (case val of None \<Rightarrow> [tagTombstone] | Some v \<Rightarrow> v))"

section \<open>The writer\<close>

definition BlockSize :: nat where "BlockSize = 16 * 1024"

definition MagicNumber :: u64 where "MagicNumber = 0x53434F5249415F53"

record raw_entry =
  re_key :: mvcc_key
  re_value :: "bytes option"
  re_tagged :: bool

record sst_writer =
  wr_entries :: "raw_entry list"
  wr_bloom :: bloom_filter
  wr_minKey :: "bytes option"
  wr_maxKey :: "bytes option"

definition sst_NewWriter :: "bloom_filter \<Rightarrow> sst_writer" where
  "sst_NewWriter bloom =
     \<lparr>wr_entries = [], wr_bloom = bloom, wr_minKey = None, wr_maxKey = None\<rparr>"

definition appendInternal :: "mvcc_key \<Rightarrow> bytes option \<Rightarrow> bool \<Rightarrow> sst_writer \<Rightarrow> sst_writer" where
  "appendInternal key val tagged w =
     (let w = w\<lparr>wr_bloom := bloom_Add (mk_key key) (wr_bloom w)\<rparr>;
          w = (case wr_minKey w of
                 None \<Rightarrow> w\<lparr>wr_minKey := Some (mk_key key)\<rparr>
               | Some mn \<Rightarrow> if CompareKeys (mk_key key) mn < 0 then w\<lparr>wr_minKey := Some (mk_key key)\<rparr> else w);
          w = (case wr_maxKey w of
                 None \<Rightarrow> w\<lparr>wr_maxKey := Some (mk_key key)\<rparr>
               | Some mx \<Rightarrow> if CompareKeys (mk_key key) mx > 0 then w\<lparr>wr_maxKey := Some (mk_key key)\<rparr> else w)
      in w\<lparr>wr_entries := wr_entries w @ [\<lparr>re_key = key, re_value = val, re_tagged = tagged\<rparr>]\<rparr>)"

definition sst_Append :: "mvcc_key \<Rightarrow> bytes option \<Rightarrow> sst_writer \<Rightarrow> sst_writer" where
  "sst_Append key val w = appendInternal key val False w"

definition sst_AppendTagged :: "mvcc_key \<Rightarrow> bytes option \<Rightarrow> sst_writer \<Rightarrow> sst_writer" where
  "sst_AppendTagged key val w = appendInternal key val True w"

definition entry_bytes :: "raw_entry \<Rightarrow> bytes" where
  "entry_bytes e =
     (let keyBytes = encodeMVCCKey (re_key e) in
      if re_tagged e then encodeEntryTagged keyBytes (re_value e)
      else encodeEntry keyBytes (re_value e))"

text \<open>Step 2 of \<open>Finish\<close>: the blocks with the user key of their first entry.\<close>

fun form_blocks :: "raw_entry list \<Rightarrow> bytes \<Rightarrow> raw_entry list \<Rightarrow> (bytes \<times> bytes) list" where
  "form_blocks [] currentBlock blockEntries =
     (if length currentBlock > 0
      then [(mk_key (re_key (blockEntries ! 0)), currentBlock)] else [])"
| "form_blocks (e # es) currentBlock blockEntries =
     (let eb = entry_bytes e in
      if length currentBlock + length eb > BlockSize \<and> length currentBlock > 0
      then (mk_key (re_key (blockEntries ! 0)), currentBlock) # form_blocks es eb [e]
      else form_blocks es (currentBlock @ eb) (blockEntries @ [e]))"

text \<open>Step 3: the bytes of the blocks, the index, and the offset behind them.\<close>

fun write_blocks :: "(bytes \<times> bytes) list \<Rightarrow> nat \<Rightarrow> bytes \<times> (bytes \<times> nat) list \<times> nat" where
  "write_blocks [] offset = ([], [], offset)"
| "write_blocks ((firstKey, d) # bs) offset =
     (let (out, idx, fin) = write_blocks bs (offset + 4 + length d + 4)
      in (put_le32 (word_of_nat (length d)) @ d @ put_le32 (crc32_ieee d) @ out,
          (firstKey, offset) # idx, fin))"

record footer =
  ft_IndexOffset :: u64
  ft_IndexSize :: u64
  ft_BloomOffset :: u64
  ft_BloomSize :: u64
  ft_NumKeys :: u64
  ft_Magic :: u64
  ft_MinKeyOffset :: u64
  ft_MinKeyLength :: u64
  ft_MaxKeyOffset :: u64
  ft_MaxKeyLength :: u64

definition footer_bytes :: "footer \<Rightarrow> bytes" where
  "footer_bytes f =
     put_le64 (ft_IndexOffset f) @ put_le64 (ft_IndexSize f) @ put_le64 (ft_BloomOffset f) @
     put_le64 (ft_BloomSize f) @ put_le64 (ft_NumKeys f) @ put_le64 (ft_Magic f) @
     put_le64 (ft_MinKeyOffset f) @ put_le64 (ft_MinKeyLength f) @
     put_le64 (ft_MaxKeyOffset f) @ put_le64 (ft_MaxKeyLength f)"

definition index_bytes :: "(bytes \<times> nat) list \<Rightarrow> bytes" where
  "index_bytes idx =
     concat (map (\<lambda>(key, off). put_le32 (word_of_nat (length key)) @ key @ put_le64 (word_of_nat off)) idx)"

definition key_section :: "bytes option \<Rightarrow> bytes" where
  "key_section k =
     (case k of None \<Rightarrow> put_le32 0 | Some k \<Rightarrow> put_le32 (word_of_nat (length k)) @ k)"

definition len_of :: "bytes option \<Rightarrow> nat" where
  "len_of k = (case k of None \<Rightarrow> 0 | Some k \<Rightarrow> length k)"

text \<open>
  \<open>writeFooter\<close>: everything behind the blocks, which end at \<open>offset\<close>. The offset is not
  advanced when the two key sections are written, so both are recorded at the same place.
\<close>

definition writeFooter ::
    "nat \<Rightarrow> (bytes \<times> nat) list \<Rightarrow> bytes option \<Rightarrow> bytes option \<Rightarrow> sst_writer \<Rightarrow> bytes" where
  "writeFooter offset idx minKey maxKey w =
     (let indexStart = offset;
          ib = index_bytes idx;
          offset = offset + length ib;
          indexSize = offset - indexStart;
          bloomStart = offset;
          bloomBytes = bloom_Encode (wr_bloom w);
          bb = put_le32 (word_of_nat (length bloomBytes)) @ bloomBytes;
          offset = offset + 4;
          offset = offset + length bloomBytes;
          bloomSize = offset - bloomStart;
          minKeyStart = offset;
          maxKeyStart = offset;
          f = \<lparr>ft_IndexOffset = word_of_nat indexStart, ft_IndexSize = word_of_nat indexSize,
               ft_BloomOffset = word_of_nat bloomStart, ft_BloomSize = word_of_nat bloomSize,
               ft_NumKeys = word_of_nat (length (wr_entries w)), ft_Magic = MagicNumber,
               ft_MinKeyOffset = word_of_nat minKeyStart, ft_MinKeyLength = word_of_nat (len_of minKey),
               ft_MaxKeyOffset = word_of_nat maxKeyStart, ft_MaxKeyLength = word_of_nat (len_of maxKey)\<rparr>
      in ib @ bb @ key_section minKey @ key_section maxKey @ footer_bytes f)"

text \<open>
  Step 1 of \<open>Finish\<close> calls \<^verbatim>\<open>sort.Slice\<close>, which may return any sorted arrangement. \<open>sort_key\<close> is one of
  them, and the only one when no versioned key occurs twice (\<open>sort_unique\<close> in \<open>SSTProofs\<close>); the
  statements that depend on the order of a table assume that.
\<close>

definition sst_Finish :: "sst_writer \<Rightarrow> bytes" where
  "sst_Finish w =
     (if wr_entries w = [] then writeFooter 0 [] None None w
      else
        let entries = sort_key re_key (wr_entries w);
            blocks = form_blocks entries [] [];
            (out, idx, offset) = write_blocks blocks 0
        in out @ writeFooter offset idx (wr_minKey w) (wr_maxKey w) w)"

end
