(* ===== verification/SSTReader.thy ===== *)
theory SSTReader
  imports SSTable
begin

text \<open>
  Models \<^verbatim>\<open>internal/engine/sstable/reader.go\<close> and \<^verbatim>\<open>iterator.go\<close>: opening a table from its bytes
  on the mapped and on the fallback path, the parsers of its sections, reading a block with its
  checksum, \<open>Lookup\<close>, the reference count that delays the unmapping, and the iterator. The
  64-bit and 32-bit sums of the code are word sums; a slice out of range is the error
  \<open>SstPanic\<close>. \<^verbatim>\<open>DecodeBloomFilter\<close> is used with fixed values of its floating-point parameters,
  which only matter for filters in the legacy format.
\<close>

section \<open>Opening a table\<close>

type_synonym bloom_decoder = "bytes \<Rightarrow> bloom_filter"

definition footerSize :: nat where "footerSize = 80"

definition parse_footer :: "bytes \<Rightarrow> footer" where
  "parse_footer d =
     \<lparr>ft_IndexOffset = get_le64 (subslice 0 8 d), ft_IndexSize = get_le64 (subslice 8 16 d),
      ft_BloomOffset = get_le64 (subslice 16 24 d), ft_BloomSize = get_le64 (subslice 24 32 d),
      ft_NumKeys = get_le64 (subslice 32 40 d), ft_Magic = get_le64 (subslice 40 48 d),
      ft_MinKeyOffset = get_le64 (subslice 48 56 d), ft_MinKeyLength = get_le64 (subslice 56 64 d),
      ft_MaxKeyOffset = get_le64 (subslice 64 72 d), ft_MaxKeyLength = get_le64 (subslice 72 80 d)\<rparr>"

text \<open>The loop of \<open>parseIndex\<close> over the index data from \<open>pos\<close>.\<close>

function parse_index_loop :: "bytes \<Rightarrow> nat \<Rightarrow> (bytes \<times> u64) list \<Rightarrow> sst_error + (bytes \<times> u64) list" where
  "parse_index_loop d pos acc =
     (if pos < length d then
        if pos + 4 > length d then Inl SstTruncated
        else
          let keyLen = unat (get_le32 (drop pos d)); pos = pos + 4 in
          if pos + keyLen + 8 > length d then Inl SstTruncated
          else
            let key = subslice pos (pos + keyLen) d; pos = pos + keyLen;
                entryOffset = get_le64 (drop pos d); pos = pos + 8
            in parse_index_loop d pos (acc @ [(key, entryOffset)])
      else Inr acc)"
  by pat_completeness auto
termination
  by (relation "measure (\<lambda>(d, pos, acc). length d - pos)") auto

declare parse_index_loop.simps [simp del]

definition parseIndex :: "bytes \<Rightarrow> u64 \<Rightarrow> u64 \<Rightarrow> sst_error + (bytes \<times> u64) list" where
  "parseIndex d offset size' =
     (if offset + size' > word_of_nat (length d) then Inl SstRange
      else
        case go_slice (unat offset) (unat (offset + size')) d of
          Inl err \<Rightarrow> Inl err
        | Inr indexData \<Rightarrow> parse_index_loop indexData 0 [])"

text \<open>\<open>parseIndexBytes\<close>, the tolerant version of the fallback path.\<close>

function parse_index_bytes_loop :: "bytes \<Rightarrow> nat \<Rightarrow> (bytes \<times> u64) list \<Rightarrow> (bytes \<times> u64) list" where
  "parse_index_bytes_loop d pos acc =
     (if pos + 4 \<le> length d then
        let keyLen = unat (get_le32 (drop pos d)); pos = pos + 4 in
        if pos + keyLen + 8 > length d then acc
        else
          let key = subslice pos (pos + keyLen) d; pos = pos + keyLen;
              offset = get_le64 (drop pos d); pos = pos + 8
          in parse_index_bytes_loop d pos (acc @ [(key, offset)])
      else acc)"
  by pat_completeness auto
termination
  by (relation "measure (\<lambda>(d, pos, acc). length d - pos)") auto

declare parse_index_bytes_loop.simps [simp del]

definition parseIndexBytes :: "bytes \<Rightarrow> (bytes \<times> u64) list" where
  "parseIndexBytes d = parse_index_bytes_loop d 0 []"

definition bloom_section :: "bloom_decoder \<Rightarrow> bytes \<Rightarrow> bloom_filter" where
  "bloom_section dec s =
     (if length s < 4 then dec []
      else
        let bloomSize = unat (get_le32 (take 4 s)) in
        if bloomSize > length s - 4 then dec []
        else dec (subslice 4 (4 + bloomSize) s))"

definition parseBloomFilter :: "bloom_decoder \<Rightarrow> bytes \<Rightarrow> u64 \<Rightarrow> u64 \<Rightarrow> sst_error + bloom_filter" where
  "parseBloomFilter dec d offset size' =
     (if offset + size' > word_of_nat (length d) then Inl SstRange
      else
        case go_slice (unat offset) (unat (offset + size')) d of
          Inl err \<Rightarrow> Inl err
        | Inr s \<Rightarrow> Inr (bloom_section dec s))"

text \<open>A nil key and an empty one are not distinguished by the reader.\<close>

definition parseKey :: "bytes \<Rightarrow> u64 \<Rightarrow> u64 \<Rightarrow> sst_error + bytes" where
  "parseKey d offset len =
     (if len = 0 \<or> offset + 4 + len > word_of_nat (length d) then Inr []
      else
        case go_slice (unat offset) (unat (offset + 4 + len)) d of
          Inl err \<Rightarrow> Inl err
        | Inr s \<Rightarrow>
            if length s < 4 then Inl SstPanic
            else
              let keyLen = get_le32 (take 4 s) in
              if uint keyLen \<noteq> sint len then Inr []
              else if 4 + unat keyLen \<le> length s then Inr (subslice 4 (4 + unat keyLen) s)
              else Inl SstPanic)"

record reader =
  rd_data :: bytes
  rd_isMmap :: bool
  rd_footer :: footer
  rd_index :: "(bytes \<times> u64) list"
  rd_bloom :: bloom_filter
  rd_minKey :: bytes
  rd_maxKey :: bytes
  rd_closed :: bool
  rd_refCount :: int
  rd_mapped :: bool

definition mk_reader ::
    "bytes \<Rightarrow> bool \<Rightarrow> footer \<Rightarrow> (bytes \<times> u64) list \<Rightarrow> bloom_filter \<Rightarrow> bytes \<Rightarrow> bytes \<Rightarrow> reader" where
  "mk_reader d mm f idx bl mn mx =
     \<lparr>rd_data = d, rd_isMmap = mm, rd_footer = f, rd_index = idx, rd_bloom = bl, rd_minKey = mn,
      rd_maxKey = mx, rd_closed = False, rd_refCount = 0, rd_mapped = True\<rparr>"

definition sst_Open :: "bloom_decoder \<Rightarrow> bytes \<Rightarrow> sst_error + reader" where
  "sst_Open dec d =
     (if length d < footerSize then Inl SstTooSmall
      else
        let f = parse_footer (drop (length d - footerSize) d) in
        if ft_Magic f \<noteq> MagicNumber then Inl SstBadMagic
        else
          case parseIndex d (ft_IndexOffset f) (ft_IndexSize f) of Inl err \<Rightarrow> Inl err | Inr idx \<Rightarrow>
          case parseBloomFilter dec d (ft_BloomOffset f) (ft_BloomSize f) of Inl err \<Rightarrow> Inl err | Inr bl \<Rightarrow>
          case parseKey d (ft_MinKeyOffset f) (ft_MinKeyLength f) of Inl err \<Rightarrow> Inl err | Inr mn \<Rightarrow>
          case parseKey d (ft_MaxKeyOffset f) (ft_MaxKeyLength f) of Inl err \<Rightarrow> Inl err | Inr mx \<Rightarrow>
          Inr (mk_reader d True f idx bl mn mx))"

text \<open>\<^verbatim>\<open>ReadAt(buf, off)\<close> with \<^verbatim>\<open>len(buf) = n\<close>: an error unless all \<open>n\<close> bytes are there.\<close>

definition read_at :: "nat \<Rightarrow> u64 \<Rightarrow> bytes \<Rightarrow> sst_error + bytes" where
  "read_at n off d =
     (if 0 \<le> sint off \<and> unat off + n \<le> length d then Inr (subslice (unat off) (unat off + n) d)
      else Inl SstIO)"

definition fallback_key :: "bytes \<Rightarrow> u64 \<Rightarrow> u64 \<Rightarrow> bytes" where
  "fallback_key d offset len =
     (if len > 0 then
        case read_at (unat (4 + len)) offset d of
          Inl err \<Rightarrow> []
        | Inr buf \<Rightarrow>
            let keyLen = get_le32 (take 4 buf) in
            if uint keyLen = sint len then subslice 4 (4 + unat keyLen) buf else []
      else [])"

definition openFallback :: "bloom_decoder \<Rightarrow> bytes \<Rightarrow> sst_error + reader" where
  "openFallback dec d =
     (if length d < footerSize then Inl SstTooSmall
      else
        let f = parse_footer (drop (length d - footerSize) d) in
        if ft_Magic f \<noteq> MagicNumber then Inl SstBadMagic
        else
          case read_at (unat (ft_IndexSize f)) (ft_IndexOffset f) d of Inl err \<Rightarrow> Inl err | Inr indexBuf \<Rightarrow>
          case read_at (unat (ft_BloomSize f)) (ft_BloomOffset f) d of Inl err \<Rightarrow> Inl err | Inr bloomBuf \<Rightarrow>
          Inr (mk_reader d False f (parseIndexBytes indexBuf) (bloom_section dec bloomBuf)
                 (fallback_key d (ft_MinKeyOffset f) (ft_MinKeyLength f))
                 (fallback_key d (ft_MaxKeyOffset f) (ft_MaxKeyLength f))))"

section \<open>Blocks\<close>

definition verifyBlockCRC :: "bytes \<Rightarrow> sst_error option" where
  "verifyBlockCRC buf =
     (if length buf < 4 then Some SstTooSmall
      else
        let d = take (length buf - 4) buf;
            storedCRC = get_le32 (drop (length buf - 4) buf)
        in if storedCRC \<noteq> crc32_ieee d then Some SstCrc else None)"

definition readBlockFromMmap :: "bytes \<Rightarrow> u64 \<Rightarrow> sst_error + bytes" where
  "readBlockFromMmap d offset =
     (if sint (offset + 4) > int (length d) then Inl SstRange
      else
        case go_slice (unat offset) (length d) d of Inl err \<Rightarrow> Inl err | Inr rest \<Rightarrow>
        if length rest < 4 then Inl SstPanic
        else
          let blockSize = get_le32 (take 4 rest);
              totalSize = ucast blockSize + 4 in
          if sint (offset + 4 + totalSize) > int (length d) then Inl SstRange
          else
            case go_slice (unat offset) (unat (offset + 4 + totalSize)) d of
              Inl err \<Rightarrow> Inl err
            | Inr blockData \<Rightarrow>
                (case verifyBlockCRC (drop 4 blockData) of
                   Some err \<Rightarrow> Inl err
                 | None \<Rightarrow> go_slice 4 (unat (4 + blockSize)) blockData))"

definition readBlockFromFile :: "bytes \<Rightarrow> u64 \<Rightarrow> sst_error + bytes" where
  "readBlockFromFile d offset =
     (case read_at 4 offset d of Inl err \<Rightarrow> Inl err | Inr sizeBuf \<Rightarrow>
        let blockSize = get_le32 sizeBuf;
            totalSize = ucast blockSize + 4 in
        if offset + 4 + totalSize > word_of_nat (length d) then Inl SstRange
        else
          case read_at (unat (totalSize :: u64)) (offset + 4) d of
            Inl err \<Rightarrow> Inl err
          | Inr buf \<Rightarrow>
              (case verifyBlockCRC buf of
                 Some err \<Rightarrow> Inl err
               | None \<Rightarrow> go_slice 0 (unat blockSize) buf))"

definition readBlock :: "reader \<Rightarrow> u64 \<Rightarrow> sst_error + bytes" where
  "readBlock r offset =
     (if rd_isMmap r then readBlockFromMmap (rd_data r) offset
      else readBlockFromFile (rd_data r) offset)"

section \<open>Lookup\<close>

text \<open>\<^verbatim>\<open>sort.Search\<close>: binary search between \<open>i\<close> and \<open>j\<close>.\<close>

function sort_Search :: "(nat \<Rightarrow> bool) \<Rightarrow> nat \<Rightarrow> nat \<Rightarrow> nat" where
  "sort_Search f i j =
     (if i < j then
        let h = (i + j) div 2 in
        if \<not> f h then sort_Search f (h + 1) j else sort_Search f i h
      else i)"
  by pat_completeness auto
termination
  by (relation "measure (\<lambda>(f, i, j). j - i)") auto

declare sort_Search.simps [simp del]

text \<open>
  The scan of a block from \<open>pos\<close> for a user key: \<open>best\<close> is the newest visible version met so
  far with its tombstone flag. A malformed entry ends the scan, an undecodable key is skipped.
\<close>

function lookup_scan ::
    "bytes \<Rightarrow> bytes \<Rightarrow> u64 \<Rightarrow> nat \<Rightarrow> (bytes \<times> bool) option \<Rightarrow> sst_error + (bytes \<times> bool) option" where
  "lookup_scan d userKey snapshotTS pos best =
     (if pos < length d then
        if pos + 8 > length d then Inr best
        else
          let keyLen = unat (get_le32 (drop pos d));
              valLen = unat (get_le32 (drop (pos + 4) d)) in
          if pos + 8 + keyLen + valLen > length d then Inr best
          else
            let entryKey = subslice (pos + 8) (pos + 8 + keyLen) d;
                entryVal = subslice (pos + 8 + keyLen) (pos + 8 + keyLen + valLen) d;
                pos = pos + (8 + keyLen + valLen) in
            case decodeMVCCKey entryKey of
              Inl SstPanic \<Rightarrow> Inl SstPanic
            | Inl _ \<Rightarrow> lookup_scan d userKey snapshotTS pos best
            | Inr mvccKey \<Rightarrow>
                let cmp = CompareKeys (mk_key mvccKey) userKey in
                if cmp = 0 then
                  if CommitTS mvccKey > snapshotTS then lookup_scan d userKey snapshotTS pos best
                  else
                    let isTomb = (length entryVal = 0 \<or> length entryVal = 1 \<and> entryVal ! 0 = tagTombstone);
                        val = (if \<not> isTomb \<and> isValidValueTag (entryVal ! 0) then drop 1 entryVal
                               else entryVal)
                    in lookup_scan d userKey snapshotTS pos (Some (val, isTomb))
                else if cmp > 0 then Inr best
                else lookup_scan d userKey snapshotTS pos best
      else Inr best)"
  by pat_completeness auto
termination
  by (relation "measure (\<lambda>(d, userKey, snapshotTS, pos, best). length d - pos)") auto

declare lookup_scan.simps [simp del]

definition lookup_block :: "reader \<Rightarrow> bytes \<Rightarrow> nat" where
  "lookup_block r userKey =
     (let n = length (rd_index r);
          idx = sort_Search (\<lambda>i. CompareKeys (fst (rd_index r ! i)) userKey \<ge> 0) 0 n in
      if idx = n then n - 1
      else if idx > 0 \<and> CompareKeys (fst (rd_index r ! idx)) userKey \<noteq> 0 then idx - 1
      else idx)"

definition sst_Lookup :: "reader \<Rightarrow> mvcc_key \<Rightarrow> sst_error + bytes option \<times> bool" where
  "sst_Lookup r key =
     (if rd_closed r then Inr (None, False)
      else
        let userKey = mk_key key in
        if length (rd_minKey r) > 0 \<and> CompareKeys userKey (rd_minKey r) < 0 then Inr (None, False)
        else if length (rd_maxKey r) > 0 \<and> CompareKeys userKey (rd_maxKey r) > 0 then Inr (None, False)
        else if \<not> MayContain (rd_bloom r) userKey then Inr (None, False)
        else if rd_index r = [] then Inr (None, False)
        else
          let blockIdx = lookup_block r userKey in
          if blockIdx \<ge> length (rd_index r) then Inr (None, False)
          else
            case readBlock r (snd (rd_index r ! blockIdx)) of
              Inl SstPanic \<Rightarrow> Inl SstPanic
            | Inl _ \<Rightarrow> Inr (None, False)
            | Inr blockData \<Rightarrow>
                (case lookup_scan blockData userKey (CommitTS key) 0 None of
                   Inl err \<Rightarrow> Inl err
                 | Inr None \<Rightarrow> Inr (None, False)
                 | Inr (Some (val, isTomb)) \<Rightarrow>
                     if isTomb then Inr (None, False) else Inr (Some val, True)))"

section \<open>Reference counting\<close>

definition rd_Acquire :: "reader \<Rightarrow> reader" where
  "rd_Acquire r = r\<lparr>rd_refCount := rd_refCount r + 1\<rparr>"

text \<open>\<open>None\<close> is the panic on an unbalanced release.\<close>

definition rd_Release :: "reader \<Rightarrow> reader option" where
  "rd_Release r =
     (let r = r\<lparr>rd_refCount := rd_refCount r - 1\<rparr> in
      if rd_refCount r < 0 then None
      else if rd_closed r \<and> rd_refCount r = 0 \<and> rd_mapped r then Some (r\<lparr>rd_mapped := False\<rparr>)
      else Some r)"

definition rd_Close :: "reader \<Rightarrow> reader" where
  "rd_Close r =
     (if rd_closed r then r
      else
        let r = r\<lparr>rd_closed := True\<rparr> in
        if \<not> rd_mapped r then r
        else if rd_refCount r > 0 then r
        else r\<lparr>rd_mapped := False\<rparr>)"

definition rd_NumKeys :: "reader \<Rightarrow> u64" where
  "rd_NumKeys r = ft_NumKeys (rd_footer r)"

section \<open>The iterator\<close>

record sst_iter =
  si_reader :: reader
  si_blockIdx :: int
  si_blockData :: bytes
  si_pos :: nat
  si_key :: mvcc_key
  si_val :: bytes
  si_err :: "sst_error option"
  si_ended :: bool

definition si_nextBlock :: "sst_iter \<Rightarrow> bool \<times> sst_iter" where
  "si_nextBlock it =
     (let it = it\<lparr>si_blockIdx := si_blockIdx it + 1\<rparr> in
      if si_blockIdx it \<ge> int (length (rd_index (si_reader it))) then (False, it\<lparr>si_ended := True\<rparr>)
      else
        let it = (if \<not> rd_isMmap (si_reader it) then it\<lparr>si_blockData := []\<rparr> else it);
            blockOffset = snd (rd_index (si_reader it) ! nat (si_blockIdx it)) in
        case readBlock (si_reader it) blockOffset of
          Inl err \<Rightarrow> (False, it\<lparr>si_err := Some err\<rparr>)
        | Inr d \<Rightarrow> (True, it\<lparr>si_blockData := d, si_pos := 0\<rparr>))"

definition si_New :: "reader \<Rightarrow> sst_error + sst_iter" where
  "si_New r =
     (let it = \<lparr>si_reader = r, si_blockIdx = -1, si_blockData = [], si_pos = 0,
                si_key = MVCCKey [] 0, si_val = [], si_err = None, si_ended = False\<rparr>;
          (ok, it) = si_nextBlock it in
      if \<not> ok then
        (case si_err it of Some err \<Rightarrow> Inl err | None \<Rightarrow> Inr (it\<lparr>si_ended := True\<rparr>))
      else Inr it)"

text \<open>The part of \<open>Next\<close> that reads an entry of the current block.\<close>

definition si_entry :: "sst_iter \<Rightarrow> bool \<times> sst_iter" where
  "si_entry it =
     (let d = si_blockData it; pos = si_pos it in
      if pos + 8 > length d then (False, it\<lparr>si_err := Some SstCorrupted\<rparr>)
      else
        let keyLen = unat (get_le32 (drop pos d));
            valLen = unat (get_le32 (drop (pos + 4) d)) in
        if pos + 8 + keyLen + valLen > length d then (False, it\<lparr>si_err := Some SstCorrupted\<rparr>)
        else
          let entryKey = subslice (pos + 8) (pos + 8 + keyLen) d;
              entryVal = subslice (pos + 8 + keyLen) (pos + 8 + keyLen + valLen) d;
              it = it\<lparr>si_pos := pos + (8 + keyLen + valLen)\<rparr> in
          case decodeMVCCKey entryKey of
            Inl err \<Rightarrow> (False, it\<lparr>si_err := Some err\<rparr>)
          | Inr mvccKey \<Rightarrow>
              let val = (if length entryVal > 0 \<and> isValidValueTag (entryVal ! 0) then drop 1 entryVal
                         else entryVal)
              in (True, it\<lparr>si_key := mvccKey, si_val := val\<rparr>))"

text \<open>
  \<open>Next\<close>: the loop goes around once per exhausted block; \<open>fuel\<close> bounds the blocks, and one
  more than the length of the index is enough.
\<close>

fun si_next_loop :: "nat \<Rightarrow> sst_iter \<Rightarrow> bool \<times> sst_iter" where
  "si_next_loop 0 it = (False, it)"
| "si_next_loop (Suc fuel) it =
     (if si_pos it < length (si_blockData it) then si_entry it
      else
        let (ok, it) = si_nextBlock it in
        if \<not> ok then (False, it) else si_next_loop fuel it)"

definition si_Next :: "sst_iter \<Rightarrow> bool \<times> sst_iter" where
  "si_Next it =
     (if si_ended it \<or> si_err it \<noteq> None then (False, it)
      else si_next_loop (length (rd_index (si_reader it)) + 2) it)"

definition si_Close :: "sst_iter \<Rightarrow> sst_iter" where
  "si_Close it =
     (let it = (if \<not> rd_isMmap (si_reader it) then it\<lparr>si_blockData := []\<rparr> else it)
      in it\<lparr>si_ended := True\<rparr>)"

text \<open>The loop \<^verbatim>\<open>for iter.Next()\<close> of the callers, at most \<open>n\<close> rounds: the entries and the last state.\<close>

fun si_run :: "nat \<Rightarrow> sst_iter \<Rightarrow> (mvcc_key \<times> bytes) list \<times> sst_iter" where
  "si_run 0 it = ([], it)"
| "si_run (Suc n) it =
     (let (ok, it) = si_Next it in
      if ok then (let (kvs, it') = si_run n it in ((si_key it, si_val it) # kvs, it')) else ([], it))"

text \<open>
  Every entry takes at least 8 bytes of one of the blocks, so this bound is never reached.
\<close>

definition sst_rounds :: "reader \<Rightarrow> nat" where
  "sst_rounds r = (length (rd_index r) + 1) * (length (rd_data r) + 1)"

definition sst_entries :: "reader \<Rightarrow> sst_error + (mvcc_key \<times> bytes) list" where
  "sst_entries r =
     (case si_New r of Inl err \<Rightarrow> Inl err | Inr it \<Rightarrow> Inr (fst (si_run (sst_rounds r) it)))"

lemma go_slice_le: "go_slice a b d = Inr x \<Longrightarrow> length x \<le> length d"
  by (auto simp: go_slice_def split: if_splits)

lemma readBlock_le: "readBlock r off = Inr d \<Longrightarrow> length d \<le> length (rd_data r)"
proof -
  assume a: "readBlock r off = Inr d"
  show ?thesis
  proof (cases "rd_isMmap r")
    case True
    then obtain b u where b: "go_slice (unat off) u (rd_data r) = Inr b" "\<exists>x y. go_slice x y b = Inr d"
      using a by (auto simp: readBlock_def readBlockFromMmap_def Let_def split: if_splits sum.splits option.splits)
    then show ?thesis using go_slice_le by (metis order.trans)
  next
    case False
    then obtain n u b where "read_at n u (rd_data r) = Inr b" "\<exists>x y. go_slice x y b = Inr d"
      using a by (auto simp: readBlock_def readBlockFromFile_def Let_def split: if_splits sum.splits option.splits) blast
    moreover from this(1) have "length b \<le> length (rd_data r)"
      by (auto simp: read_at_def split: if_splits)
    ultimately show ?thesis using go_slice_le by (metis order.trans)
  qed
qed

definition si_room :: "sst_iter \<Rightarrow> nat" where
  "si_room it = (length (rd_index (si_reader it)) - nat (si_blockIdx it + 1)) * (length (rd_data (si_reader it)) + 1) +
     (length (si_blockData it) - si_pos it)"

definition si_ok :: "reader \<Rightarrow> sst_iter \<Rightarrow> bool" where
  "si_ok r it \<longleftrightarrow> si_reader it = r \<and> -1 \<le> si_blockIdx it \<and> length (si_blockData it) \<le> length (rd_data r)"

lemma si_entry_room:
  assumes "si_entry it = (True, it')" "si_ok r it"
  shows "si_ok r it' \<and> si_room it' < si_room it"
proof -
  have "si_reader it' = si_reader it \<and> si_blockIdx it' = si_blockIdx it \<and> si_blockData it' = si_blockData it \<and>
      si_pos it < si_pos it' \<and> si_pos it' \<le> length (si_blockData it)"
    using assms(1) by (auto simp: si_entry_def Let_def split: if_splits sum.splits)
  moreover from this have "length (si_blockData it) - si_pos it' < length (si_blockData it) - si_pos it" by linarith
  ultimately show ?thesis using assms(2) by (auto simp only: si_ok_def si_room_def add_less_cancel_left)
qed

lemma si_nextBlock_room:
  assumes "si_nextBlock it = (True, it')" "si_ok r it"
  shows "si_ok r it' \<and> si_room it' < si_room it"
proof -
  let ?L = "length (rd_data r)" and ?n = "length (rd_index r)" and ?i = "si_blockIdx it + 1"
  have it': "?i < int ?n" "si_reader it' = r" "si_blockIdx it' = ?i" "length (si_blockData it') \<le> ?L" "si_pos it' = 0"
    using assms readBlock_le [of r] by (auto simp: si_nextBlock_def si_ok_def Let_def split: if_splits sum.splits)
  have i: "0 \<le> ?i" using assms(2) by (simp add: si_ok_def)
  define c where "c = ?n - nat (?i + 1)"
  have c: "?n - nat ?i = Suc c" using i it'(1) by (simp add: c_def nat_add_distrib)
  have "si_room it' = c * (?L + 1) + length (si_blockData it')" using it'(2,3,5) by (simp add: si_room_def c_def)
  also have "\<dots> < (?n - nat ?i) * (?L + 1)" unfolding c using it'(4) by simp
  finally have "si_room it' < (?n - nat ?i) * (?L + 1)" .
  also have "\<dots> \<le> si_room it" using assms(2) by (simp add: si_room_def si_ok_def)
  finally show ?thesis using it' i by (simp add: si_ok_def)
qed

lemma si_next_loop_room:
  "si_next_loop fuel it = (True, it') \<Longrightarrow> si_ok r it \<Longrightarrow> si_ok r it' \<and> si_room it' < si_room it"
proof (induction fuel arbitrary: it)
  case (Suc fuel)
  show ?case
  proof (cases "si_pos it < length (si_blockData it)")
    case True
    then show ?thesis using Suc.prems si_entry_room by simp
  next
    case False
    then obtain it1 where "si_nextBlock it = (True, it1)" "si_next_loop fuel it1 = (True, it')"
      using Suc.prems(1) by (auto split: prod.splits if_splits)
    then show ?thesis using Suc.IH [of it1] si_nextBlock_room [of it it1 r] Suc.prems(2) by auto
  qed
qed simp

lemma si_run_enough:
  assumes "si_ok r it" "si_room it < m" "m \<le> n"
  shows "si_run n it = si_run m it"
  using assms
proof (induction m arbitrary: it n)
  case (Suc m)
  then obtain n' where n: "n = Suc n'" "m \<le> n'" by (cases n) auto
  obtain ok it' where nx: "si_Next it = (ok, it')" by (metis surj_pair)
  show ?case
  proof (cases ok)
    case True
    then have "si_next_loop (length (rd_index (si_reader it)) + 2) it = (True, it')"
      using nx by (auto simp: si_Next_def split: if_splits)
    then have "si_ok r it'" "si_room it' < si_room it" using si_next_loop_room Suc.prems(1) by blast+
    then have "si_run n' it' = si_run m it'" using Suc.IH [of it' n'] Suc.prems(2) n(2) by simp
    then show ?thesis by (simp add: n(1) nx True)
  qed (simp add: n(1) nx)
qed simp

lemma sst_entries_enough:
  assumes "si_New r = Inr it" "sst_rounds r \<le> n"
  shows "sst_entries r = Inr (fst (si_run n it))"
proof -
  let ?it = "\<lparr>si_reader = r, si_blockIdx = -1, si_blockData = [], si_pos = 0,
                si_key = MVCCKey [] 0, si_val = [], si_err = None, si_ended = False\<rparr>"
  have ok: "si_ok r ?it" "si_room ?it < sst_rounds r" by (simp_all add: si_ok_def si_room_def sst_rounds_def)
  obtain b it1 where nb: "si_nextBlock ?it = (b, it1)" by (metis surj_pair)
  have "si_run n it = si_run (sst_rounds r) it"
  proof (cases b)
    case True
    then have "it = it1" using assms(1) nb by (simp add: si_New_def Let_def)
    moreover have "si_ok r it1" "si_room it1 < si_room ?it" using si_nextBlock_room [OF _ ok(1)] nb True by auto
    ultimately show ?thesis using si_run_enough [of r it1 "sst_rounds r" n] ok(2) assms(2) by simp
  next
    case False
    then have "si_ended it" using assms(1) nb by (auto simp: si_New_def Let_def split: option.splits)
    then have "si_Next it = (False, it)" by (simp add: si_Next_def)
    then show ?thesis using assms(2) by (cases n; cases "sst_rounds r") (auto simp: sst_rounds_def)
  qed
  then show ?thesis by (simp add: sst_entries_def assms(1))
qed

end
