(* ===== verification/Manifest.thy ===== *)
theory Manifest
  imports Prelude
begin

text \<open>
  Models \<^verbatim>\<open>internal/engine/manifest.go\<close>: the list of table files per level, the next file number
  and the last timestamp, the edits that change them, and the file of length-prefixed records.
  The JSON encoding of an edit, its decoding, and the edits the legacy stream decoder delivers
  before its first error are parameters. Levels are natural numbers; a negative level in an edit
  would be an index out of range. A write goes to the current file position and its outcome is
  an argument: \<open>None\<close> if everything including the sync succeeded, \<open>Some n\<close> if an error came
  after \<open>n\<close> bytes.
\<close>

definition manifestMagic :: u32 where "manifestMagic = 0x53434F52"
definition manifestVersion :: u32 where "manifestVersion = 1"
definition manifestDefaultLevels :: nat where "manifestDefaultLevels = 10"

record sst_info =
  fi_FileNum :: u64
  fi_Level :: nat
  fi_MinKey :: "bytes option"
  fi_MaxKey :: "bytes option"
  fi_Size :: u64

record version_edit =
  ve_NewFiles :: "sst_info list"
  ve_DeletedFiles :: "(u64 \<times> nat) list"
  ve_NextFileNum :: u64
  ve_LastTS :: u64

text \<open>The cached state and the file with its position.\<close>

record mf_state =
  mf_levels :: "sst_info list list"
  mf_nextFileNum :: u64
  mf_lastTS :: u64

record manifest =
  mf_st :: mf_state
  mf_file :: bytes
  mf_pos :: nat

datatype mf_error = MfVersion | MfCorrupted | MfIO

section \<open>Edits\<close>

definition mf_addFile :: "sst_info \<Rightarrow> mf_state \<Rightarrow> mf_state" where
  "mf_addFile info m =
     (let m = (if fi_Level info \<ge> length (mf_levels m)
               then m\<lparr>mf_levels := mf_levels m @ replicate (fi_Level info + 1 - length (mf_levels m)) []\<rparr> else m)
      in m\<lparr>mf_levels := (mf_levels m)[fi_Level info := mf_levels m ! fi_Level info @ [info]]\<rparr>)"

fun remove_file :: "u64 \<Rightarrow> sst_info list \<Rightarrow> sst_info list" where
  "remove_file fileNum [] = []"
| "remove_file fileNum (info # infos) =
     (if fi_FileNum info = fileNum then infos else info # remove_file fileNum infos)"

definition mf_deleteFile :: "u64 \<Rightarrow> nat \<Rightarrow> mf_state \<Rightarrow> mf_state" where
  "mf_deleteFile fileNum level m =
     (if level \<ge> length (mf_levels m) then m
      else m\<lparr>mf_levels := (mf_levels m)[level := remove_file fileNum (mf_levels m ! level)]\<rparr>)"

definition applyEdit :: "version_edit \<Rightarrow> mf_state \<Rightarrow> mf_state" where
  "applyEdit edit m =
     (let m = fold (\<lambda>(fileNum, level). mf_deleteFile fileNum level) (ve_DeletedFiles edit) m;
          m = fold mf_addFile (ve_NewFiles edit) m;
          m = (if ve_NextFileNum edit > 0 then m\<lparr>mf_nextFileNum := ve_NextFileNum edit\<rparr> else m)
      in if ve_LastTS edit > mf_lastTS m then m\<lparr>mf_lastTS := ve_LastTS edit\<rparr> else m)"

definition mf_reset :: mf_state where
  "mf_reset = \<lparr>mf_levels = replicate manifestDefaultLevels [], mf_nextFileNum = 0, mf_lastTS = 0\<rparr>"

definition first_file_num :: "mf_state \<Rightarrow> mf_state" where
  "first_file_num m = (if mf_nextFileNum m = 0 then m\<lparr>mf_nextFileNum := 1\<rparr> else m)"

section \<open>The file\<close>

definition write_at :: "nat \<Rightarrow> bytes \<Rightarrow> bytes \<Rightarrow> bytes" where
  "write_at pos d file = take pos file @ d @ drop (pos + length d) file"

definition mf_record :: "(version_edit \<Rightarrow> bytes) \<Rightarrow> bytes \<Rightarrow> version_edit \<Rightarrow> bytes" where
  "mf_record enc file edit =
     (if file = [] then put_le32 manifestMagic @ put_le32 manifestVersion else []) @
     put_le32 (word_of_nat (length (enc edit))) @ enc edit"

definition writeEdit ::
    "(version_edit \<Rightarrow> bytes) \<Rightarrow> nat option \<Rightarrow> version_edit \<Rightarrow> manifest \<Rightarrow> bool \<times> manifest" where
  "writeEdit enc io edit m =
     (let d = mf_record enc (mf_file m) edit;
          d = (case io of None \<Rightarrow> d | Some n \<Rightarrow> take n d)
      in (io = None, m\<lparr>mf_file := write_at (mf_pos m) d (mf_file m), mf_pos := mf_pos m + length d\<rparr>))"

text \<open>\<open>Apply\<close> changes the cached state first and keeps the change when the write fails.\<close>

definition mf_Apply ::
    "(version_edit \<Rightarrow> bytes) \<Rightarrow> nat option \<Rightarrow> version_edit \<Rightarrow> manifest \<Rightarrow> bool \<times> manifest" where
  "mf_Apply enc io edit m = writeEdit enc io edit (m\<lparr>mf_st := applyEdit edit (mf_st m)\<rparr>)"

function recover_records ::
    "(bytes \<Rightarrow> version_edit option) \<Rightarrow> bytes \<Rightarrow> mf_state \<Rightarrow> mf_error + mf_state" where
  "recover_records dec rest m =
     (if length rest < 4 then Inr m
      else
        let len = unat (get_le32 (take 4 rest)); rest = drop 4 rest in
        if length rest < len then Inr m
        else
          case dec (take len rest) of
            None \<Rightarrow> if drop len rest \<noteq> [] then Inl MfCorrupted else Inr m
          | Some edit \<Rightarrow> recover_records dec (drop len rest) (applyEdit edit m))"
  by pat_completeness auto
termination
  by (relation "measure (\<lambda>(dec, rest, m). length rest)") auto

declare recover_records.simps [simp del]

definition recoverLegacy :: "version_edit list \<Rightarrow> mf_state" where
  "recoverLegacy edits = first_file_num (fold applyEdit edits mf_reset)"

definition mf_recover ::
    "(bytes \<Rightarrow> version_edit option) \<Rightarrow> (bytes \<Rightarrow> version_edit list) \<Rightarrow> bytes \<Rightarrow> mf_error + mf_state" where
  "mf_recover dec legacy file =
     (if file = [] then Inr (first_file_num mf_reset)
      else if length file < 4 then Inr (recoverLegacy (legacy file))
      else if get_le32 (take 4 file) \<noteq> manifestMagic then Inr (recoverLegacy (legacy file))
      else if length file < 8 then Inl MfIO
      else if get_le32 (take 4 (drop 4 file)) \<noteq> manifestVersion then Inl MfVersion
      else
        case recover_records dec (drop 8 file) mf_reset of
          Inl err \<Rightarrow> Inl err
        | Inr m \<Rightarrow> Inr (first_file_num m))"

definition NewManifest ::
    "(bytes \<Rightarrow> version_edit option) \<Rightarrow> (bytes \<Rightarrow> version_edit list) \<Rightarrow> bytes \<Rightarrow> mf_error + manifest" where
  "NewManifest dec legacy file =
     (case mf_recover dec legacy file of
        Inl err \<Rightarrow> Inl err
      | Inr st \<Rightarrow> Inr \<lparr>mf_st = st, mf_file = file, mf_pos = length file\<rparr>)"

definition mf_GetLevels :: "manifest \<Rightarrow> sst_info list list" where
  "mf_GetLevels m = mf_levels (mf_st m)"

definition mf_NextFileNum :: "manifest \<Rightarrow> u64 \<times> manifest" where
  "mf_NextFileNum m =
     (let num = mf_nextFileNum (mf_st m)
      in (num, m\<lparr>mf_st := (mf_st m)\<lparr>mf_nextFileNum := num + 1\<rparr>\<rparr>))"

definition mf_LastTS :: "manifest \<Rightarrow> u64" where
  "mf_LastTS m = mf_lastTS (mf_st m)"

definition mf_SetLastTS :: "u64 \<Rightarrow> manifest \<Rightarrow> manifest" where
  "mf_SetLastTS ts m = (if ts > mf_LastTS m then m\<lparr>mf_st := (mf_st m)\<lparr>mf_lastTS := ts\<rparr>\<rparr> else m)"

section \<open>Recovery\<close>

definition edit_fits :: "(version_edit \<Rightarrow> bytes) \<Rightarrow> (bytes \<Rightarrow> version_edit option) \<Rightarrow> version_edit \<Rightarrow> bool" where
  "edit_fits enc dec e \<longleftrightarrow> dec (enc e) = Some e \<and> length (enc e) < 2 ^ 32"

definition edit_rec :: "(version_edit \<Rightarrow> bytes) \<Rightarrow> version_edit \<Rightarrow> bytes" where
  "edit_rec enc e = put_le32 (word_of_nat (length (enc e))) @ enc e"

definition edit_recs :: "(version_edit \<Rightarrow> bytes) \<Rightarrow> version_edit list \<Rightarrow> bytes" where
  "edit_recs enc es = concat (map (edit_rec enc) es)"

definition mf_header :: bytes where
  "mf_header = put_le32 manifestMagic @ put_le32 manifestVersion"

lemma length_mf_header [simp]: "length mf_header = 8"
  by (simp add: mf_header_def)

lemma mf_header_nonempty [simp]: "mf_header \<noteq> []"
  using length_mf_header by (metis list.size(3) zero_neq_numeral)

lemma edit_recs_simps [simp]:
  "edit_recs enc [] = []" "edit_recs enc (e # es) = edit_rec enc e @ edit_recs enc es"
  "edit_recs enc (es @ fs) = edit_recs enc es @ edit_recs enc fs"
  by (simp_all add: edit_recs_def)

lemma recover_record:
  assumes "edit_fits enc dec e"
  shows "recover_records dec (edit_rec enc e @ rest) m = recover_records dec rest (applyEdit e m)"
proof -
  have "unat (word_of_nat (length (enc e)) :: u32) = length (enc e)" "dec (enc e) = Some e"
    using assms by (simp_all add: edit_fits_def codec_simps)
  then show ?thesis
    by (subst recover_records.simps) (simp add: edit_rec_def codec_simps)
qed

text \<open>A record that is cut off anywhere is ignored, and so are its predecessors never.\<close>

lemma recover_torn:
  assumes "edit_fits enc dec e" "n < length (edit_rec enc e)"
  shows "recover_records dec (take n (edit_rec enc e)) m = Inr m"
proof (cases "n < 4")
  case True
  then show ?thesis by (simp add: recover_records.simps edit_rec_def)
next
  case False
  let ?t = "take n (edit_rec enc e)" let ?lw = "word_of_nat (length (enc e)) :: u32"
  have t: "?t = put_le32 ?lw @ take (n - 4) (enc e)"
    using False by (simp add: edit_rec_def)
  have "unat ?lw = length (enc e)" using assms(1) by (simp add: edit_fits_def codec_simps)
  moreover have "n - 4 < length (enc e)" using assms(2) False by (simp add: edit_rec_def)
  ultimately show ?thesis
    unfolding t by (subst recover_records.simps) (simp add: codec_simps)
qed

lemma mf_recover_prefix:
  assumes "\<forall>e \<in> set es. edit_fits enc dec e"
  shows "\<exists>k \<le> length es. recover_records dec (take n (edit_recs enc es)) m = Inr (fold applyEdit (take k es) m) \<and>
    (\<forall>j \<le> length es. j \<le> k \<longleftrightarrow> length (edit_recs enc (take j es)) \<le> n)"
  using assms
proof (induction es arbitrary: n m)
  case Nil
  then show ?case by (simp add: recover_records.simps)
next
  case (Cons e es)
  show ?case
  proof (cases "n < length (edit_rec enc e)")
    case True
    have "j \<le> 0 \<longleftrightarrow> length (edit_recs enc (take j (e # es))) \<le> n" for j
      using True by (cases j) simp_all
    then show ?thesis using recover_torn [of enc dec e n m] Cons.prems True by (intro exI [of _ 0]) simp
  next
    case False
    let ?n = "n - length (edit_rec enc e)"
    have t: "take n (edit_recs enc (e # es)) = edit_rec enc e @ take ?n (edit_recs enc es)"
      using False by simp
    obtain k where k: "k \<le> length es"
      "recover_records dec (take ?n (edit_recs enc es)) (applyEdit e m) =
        Inr (fold applyEdit (take k es) (applyEdit e m))"
      "\<forall>j \<le> length es. j \<le> k \<longleftrightarrow> length (edit_recs enc (take j es)) \<le> ?n"
      using Cons.IH [of ?n "applyEdit e m"] Cons.prems by auto
    have "j \<le> Suc k \<longleftrightarrow> length (edit_recs enc (take j (e # es))) \<le> n" if "j \<le> length (e # es)" for j
      using that k(3) False by (cases j) auto
    then show ?thesis
      using Cons.prems k(1,2) unfolding t by (intro exI [of _ "Suc k"]) (simp add: recover_record)
  qed
qed

lemma recover_all:
  "\<forall>e \<in> set es. edit_fits enc dec e \<Longrightarrow> recover_records dec (edit_recs enc es) m = Inr (fold applyEdit es m)"
  by (induction es arbitrary: m) (simp_all add: recover_record recover_records.simps [of dec "[]"])

section \<open>A session of the manifest\<close>

datatype mf_op = MApply version_edit | MNextFileNum | MSetLastTS u64

primrec mf_step :: "(version_edit \<Rightarrow> bytes) \<Rightarrow> mf_op \<Rightarrow> manifest \<Rightarrow> manifest" where
  "mf_step enc (MApply e) m = snd (mf_Apply enc None e m)"
| "mf_step enc MNextFileNum m = snd (mf_NextFileNum m)"
| "mf_step enc (MSetLastTS ts) m = mf_SetLastTS ts m"

definition mf_edits :: "mf_op list \<Rightarrow> version_edit list" where
  "mf_edits ops = concat (map (\<lambda>op. case op of MApply e \<Rightarrow> [e] | _ \<Rightarrow> []) ops)"

definition mf_bytes :: "(version_edit \<Rightarrow> bytes) \<Rightarrow> version_edit list \<Rightarrow> bytes" where
  "mf_bytes enc es = (if es = [] then [] else mf_header @ edit_recs enc es)"

definition mf_rep :: "(version_edit \<Rightarrow> bytes) \<Rightarrow> version_edit list \<Rightarrow> manifest \<Rightarrow> bool" where
  "mf_rep enc es m \<longleftrightarrow> mf_file m = mf_bytes enc es \<and> mf_pos m = length (mf_file m) \<and>
     mf_levels (mf_st m) = mf_levels (fold applyEdit es mf_reset) \<and>
     mf_lastTS (fold applyEdit es mf_reset) \<le> mf_lastTS (mf_st m)"

lemma levels_add: "mf_levels m = mf_levels m' \<Longrightarrow> mf_levels (mf_addFile i m) = mf_levels (mf_addFile i m')"
  by (simp add: mf_addFile_def)

lemma levels_del: "mf_levels m = mf_levels m' \<Longrightarrow> mf_levels (mf_deleteFile f l m) = mf_levels (mf_deleteFile f l m')"
  by (simp add: mf_deleteFile_def)

lemma fold_cong_view:
  assumes "\<And>x m m'. f m = f m' \<Longrightarrow> f (g x m) = f (g x m')"
  shows "f m = f m' \<Longrightarrow> f (fold g xs m) = f (fold g xs m')"
proof (induction xs arbitrary: m m')
  case (Cons x xs)
  show ?case unfolding fold_simps by (rule Cons.IH, rule assms, rule Cons.prems)
qed simp

lemma levels_fold_add:
  "mf_levels m = mf_levels m' \<Longrightarrow> mf_levels (fold mf_addFile xs m) = mf_levels (fold mf_addFile xs m')"
  by (rule fold_cong_view [where g = mf_addFile and f = mf_levels, OF levels_add])

lemma levels_fold_del:
  "mf_levels m = mf_levels m' \<Longrightarrow>
   mf_levels (fold (\<lambda>(f, l). mf_deleteFile f l) xs m) = mf_levels (fold (\<lambda>(f, l). mf_deleteFile f l) xs m')"
  by (rule fold_cong_view) (auto intro: levels_del split: prod.split)

lemma lastTS_file [simp]: "mf_lastTS (mf_deleteFile f l m) = mf_lastTS m" "mf_lastTS (mf_addFile i m) = mf_lastTS m"
  by (simp_all add: mf_deleteFile_def mf_addFile_def Let_def)

lemma fold_keeps: "(\<And>x m. f (g x m) = f m) \<Longrightarrow> f (fold g xs m) = f m"
  by (induction xs arbitrary: m) auto

lemma lastTS_fold:
  "mf_lastTS (fold (\<lambda>(f, l). mf_deleteFile f l) xs m) = mf_lastTS m"
  "mf_lastTS (fold mf_addFile ys m) = mf_lastTS m"
  by (rule fold_keeps, simp split: prod.split)+

lemma applyEdit_levels: "mf_levels m = mf_levels m' \<Longrightarrow> mf_levels (applyEdit e m) = mf_levels (applyEdit e m')"
  using levels_fold_add [OF levels_fold_del, of m m'] by (simp add: applyEdit_def Let_def)

lemma applyEdit_lastTS: "mf_lastTS (applyEdit e m) = max (mf_lastTS m) (ve_LastTS e)"
  by (auto simp: applyEdit_def Let_def lastTS_fold max_def)


lemma mf_step_rep:
  assumes "mf_rep enc es m"
  shows "mf_rep enc (es @ mf_edits [op]) (mf_step enc op m)"
proof (cases op)
  case (MApply e)
  have pos: "mf_pos m = length (mf_file m)" and fl: "mf_file m = mf_bytes enc es"
    using assms by (simp_all add: mf_rep_def)
  have ne: "mf_file m = [] \<longleftrightarrow> es = []"
    using fl length_mf_header by (auto simp: mf_bytes_def)
  have "mf_file m @ mf_record enc (mf_file m) e = mf_bytes enc (es @ [e])"
    using fl ne by (auto simp: mf_record_def mf_bytes_def mf_header_def edit_rec_def)
  then have "mf_file (mf_step enc op m) = mf_bytes enc (es @ [e])"
    using pos by (simp add: MApply mf_Apply_def writeEdit_def write_at_def Let_def)
  moreover have "mf_pos (mf_step enc op m) = length (mf_file (mf_step enc op m))"
    using pos by (simp add: MApply mf_Apply_def writeEdit_def write_at_def Let_def)
  moreover have st: "mf_st (mf_step enc op m) = applyEdit e (mf_st m)"
    by (simp add: MApply mf_Apply_def writeEdit_def Let_def)
  moreover have "mf_levels (applyEdit e (mf_st m)) = mf_levels (applyEdit e (fold applyEdit es mf_reset))"
    by (rule applyEdit_levels) (use assms in \<open>simp add: mf_rep_def\<close>)
  moreover have "mf_lastTS (applyEdit e (fold applyEdit es mf_reset)) \<le> mf_lastTS (applyEdit e (mf_st m))"
    using assms unfolding applyEdit_lastTS mf_rep_def by (metis max.mono order_refl)
  ultimately show ?thesis by (simp add: mf_rep_def MApply mf_edits_def)
next
  case (MSetLastTS ts)
  then show ?thesis
    using assms by (auto simp: mf_rep_def mf_edits_def mf_SetLastTS_def mf_LastTS_def)
qed (use assms in \<open>simp add: mf_rep_def mf_edits_def mf_NextFileNum_def Let_def\<close>)

lemma mf_run_rep:
  "mf_rep enc es m \<Longrightarrow> mf_rep enc (es @ mf_edits ops) (fold (mf_step enc) ops m)"
proof (induction ops arbitrary: es m)
  case (Cons op ops)
  have "mf_edits (op # ops) = mf_edits [op] @ mf_edits ops" by (simp add: mf_edits_def)
  then show ?case using Cons.IH [OF mf_step_rep [OF Cons.prems, of op]] by simp
qed (simp add: mf_edits_def)

lemma mf_recover_bytes:
  assumes "es \<noteq> []" "8 \<le> n"
  shows "mf_recover dec legacy (take n (mf_bytes enc es)) =
    (case recover_records dec (take (n - 8) (edit_recs enc es)) mf_reset of
       Inl err \<Rightarrow> Inl err | Inr m \<Rightarrow> Inr (first_file_num m))"
proof -
  have t: "take n (mf_bytes enc es) = put_le32 manifestMagic @ put_le32 manifestVersion @ take (n - 8) (edit_recs enc es)"
    using assms by (simp add: mf_bytes_def mf_header_def)
  have "take n (mf_bytes enc es) \<noteq> []" unfolding t by (metis append_is_Nil_conv length_put(1) list.size(3) zero_neq_numeral)
  moreover have "\<not> length (take n (mf_bytes enc es)) < 8" unfolding t by simp
  moreover have "get_le32 (take 4 (take n (mf_bytes enc es))) = manifestMagic"
    "get_le32 (take 4 (drop 4 (take n (mf_bytes enc es)))) = manifestVersion"
    "drop 8 (take n (mf_bytes enc es)) = take (n - 8) (edit_recs enc es)"
    unfolding t by (simp_all add: codec_simps)
  ultimately show ?thesis by (simp add: mf_recover_def)
qed

text \<open>
  C14. The manifest survives a restart and a crash. Take a session on a new manifest in which
  edits are applied, file numbers drawn and the last timestamp raised, with all writes
  successful, and a JSON codec that decodes what it encodes to records below 4 GB. Reopening
  the file gives the levels of the session and the state of all its edits; the last timestamp is
  that of the edits, so it may be below the one of the session (\<open>SetLastTS\<close> is not recorded).
  Reopening what a crash left of the file, as long as its 8-byte header is complete, gives the
  state after exactly the edits whose records are complete in it, never an error and never part
  of an edit.
\<close>

theorem manifest_crash_recovery:
  fixes dec :: "bytes \<Rightarrow> version_edit option" and enc :: "version_edit \<Rightarrow> bytes"
  assumes "\<forall>e \<in> set (mf_edits ops). edit_fits enc dec e" "NewManifest dec legacy [] = Inr m0"
  defines "m \<equiv> fold (mf_step enc) ops m0"
  shows "(\<exists>m'. NewManifest dec legacy (mf_file m) = Inr m' \<and> mf_GetLevels m' = mf_GetLevels m \<and>
      mf_st m' = first_file_num (fold applyEdit (mf_edits ops) mf_reset) \<and> mf_LastTS m' \<le> mf_LastTS m) \<and>
    (n = 0 \<or> 8 \<le> n \<longrightarrow> (\<exists>k \<le> length (mf_edits ops).
      mf_recover dec legacy (take n (mf_file m)) = Inr (first_file_num (fold applyEdit (take k (mf_edits ops)) mf_reset)) \<and>
      (\<forall>j \<le> length (mf_edits ops). j \<le> k \<longleftrightarrow> length (mf_bytes enc (take j (mf_edits ops))) \<le> n)))"
proof -
  let ?es = "mf_edits ops"
  have "m0 = \<lparr>mf_st = first_file_num mf_reset, mf_file = [], mf_pos = 0\<rparr>"
    using assms(2) by (simp add: NewManifest_def mf_recover_def)
  then have "mf_rep enc [] m0" by (simp add: mf_rep_def mf_bytes_def first_file_num_def)
  from mf_run_rep [OF this, of ops] have rep: "mf_rep enc ?es m" by (simp add: m_def)
  have fl: "mf_file m = mf_bytes enc ?es" using rep by (simp add: mf_rep_def)
  have levels: "mf_levels (first_file_num s) = mf_levels s" "mf_lastTS (first_file_num s) = mf_lastTS s" for s
    by (simp_all add: first_file_num_def)
  have all: "mf_recover dec legacy (mf_file m) = Inr (first_file_num (fold applyEdit ?es mf_reset))"
  proof (cases "?es = []")
    case True
    then show ?thesis by (simp add: fl mf_bytes_def mf_recover_def)
  next
    case False
    have "8 \<le> length (mf_bytes enc ?es)" using False by (simp add: mf_bytes_def)
    from mf_recover_bytes [OF False this, of dec legacy enc] show ?thesis
      using False recover_all [OF assms(1)] by (simp add: fl) (simp add: mf_bytes_def)
  qed
  have prefix: "\<exists>k \<le> length ?es. mf_recover dec legacy (take n (mf_file m)) =
      Inr (first_file_num (fold applyEdit (take k ?es) mf_reset)) \<and>
      (\<forall>j \<le> length ?es. j \<le> k \<longleftrightarrow> length (mf_bytes enc (take j ?es)) \<le> n)" if "n = 0 \<or> 8 \<le> n"
  proof (cases "n = 0 \<or> ?es = []")
    case True
    then have "take n (mf_file m) = []" by (auto simp: fl mf_bytes_def)
    moreover have "j \<le> 0 \<longleftrightarrow> length (mf_bytes enc (take j ?es)) \<le> n" if "j \<le> length ?es" for j
      using True that by (cases j) (auto simp: mf_bytes_def)
    ultimately show ?thesis by (intro exI [of _ 0]) (simp add: mf_recover_def)
  next
    case False
    obtain k where k: "k \<le> length ?es"
      "recover_records dec (take (n - 8) (edit_recs enc ?es)) mf_reset = Inr (fold applyEdit (take k ?es) mf_reset)"
      "\<forall>j \<le> length ?es. j \<le> k \<longleftrightarrow> length (edit_recs enc (take j ?es)) \<le> n - 8"
      using mf_recover_prefix [OF assms(1), of "n - 8" mf_reset] by blast
    have "j \<le> k \<longleftrightarrow> length (mf_bytes enc (take j ?es)) \<le> n" if "j \<le> length ?es" for j
      using k(3) that False \<open>n = 0 \<or> 8 \<le> n\<close> by (cases j) (auto simp: mf_bytes_def)
    then show ?thesis
      using k(1,2) False \<open>n = 0 \<or> 8 \<le> n\<close> mf_recover_bytes [of ?es n dec legacy enc]
      by (intro exI [of _ k]) (simp add: fl)
  qed
  have "mf_GetLevels m = mf_levels (fold applyEdit ?es mf_reset)"
    "mf_lastTS (fold applyEdit ?es mf_reset) \<le> mf_LastTS m"
    using rep by (simp_all add: mf_rep_def mf_GetLevels_def mf_LastTS_def)
  with all prefix show ?thesis
    by (simp add: NewManifest_def mf_GetLevels_def mf_LastTS_def levels)
qed

text \<open>A codec for edits that carry nothing but a next file number, for the witness.\<close>

definition tiny_enc :: "version_edit \<Rightarrow> bytes" where
  "tiny_enc e = put_le64 (ve_NextFileNum e)"

definition tiny_edit :: "u64 \<Rightarrow> version_edit" where
  "tiny_edit n = \<lparr>ve_NewFiles = [], ve_DeletedFiles = [], ve_NextFileNum = n, ve_LastTS = 0\<rparr>"

definition tiny_dec :: "bytes \<Rightarrow> version_edit option" where
  "tiny_dec d = (if length d = 8 then Some (tiny_edit (get_le64 d)) else None)"

text \<open>Two edits, and a crash that tears the second record.\<close>

theorem manifest_crash_recovery_witness:
  "\<exists>m'. NewManifest tiny_dec (\<lambda>d. [])
      (mf_file (fold (mf_step tiny_enc) [MApply (tiny_edit 2), MNextFileNum, MApply (tiny_edit 9)]
        \<lparr>mf_st = first_file_num mf_reset, mf_file = [], mf_pos = 0\<rparr>)) = Inr m' \<and> fst (mf_NextFileNum m') = 9 \<and>
    mf_recover tiny_dec (\<lambda>d. [])
      (take 25 (mf_file (fold (mf_step tiny_enc) [MApply (tiny_edit 2), MNextFileNum, MApply (tiny_edit 9)]
        \<lparr>mf_st = first_file_num mf_reset, mf_file = [], mf_pos = 0\<rparr>))) = Inr (applyEdit (tiny_edit 2) mf_reset)"
proof -
  let ?ops = "[MApply (tiny_edit 2), MNextFileNum, MApply (tiny_edit 9)]"
  let ?m0 = "\<lparr>mf_st = first_file_num mf_reset, mf_file = [], mf_pos = 0\<rparr>"
  have es: "mf_edits ?ops = [tiny_edit 2, tiny_edit 9]" by (simp add: mf_edits_def)
  have "\<forall>e \<in> set (mf_edits ?ops). edit_fits tiny_enc tiny_dec e"
    by (simp add: mf_edits_def edit_fits_def tiny_enc_def tiny_dec_def tiny_edit_def codec_simps)
  moreover have "NewManifest tiny_dec (\<lambda>d. []) [] = Inr ?m0"
    by (simp add: NewManifest_def mf_recover_def)
  ultimately have C: "(\<exists>m'. NewManifest tiny_dec (\<lambda>d. []) (mf_file (fold (mf_step tiny_enc) ?ops ?m0)) = Inr m' \<and>
      mf_GetLevels m' = mf_GetLevels (fold (mf_step tiny_enc) ?ops ?m0) \<and>
      mf_st m' = first_file_num (fold applyEdit (mf_edits ?ops) mf_reset) \<and>
      mf_LastTS m' \<le> mf_LastTS (fold (mf_step tiny_enc) ?ops ?m0)) \<and>
    (25 = (0::nat) \<or> 8 \<le> (25::nat) \<longrightarrow> (\<exists>k \<le> length (mf_edits ?ops).
      mf_recover tiny_dec (\<lambda>d. []) (take 25 (mf_file (fold (mf_step tiny_enc) ?ops ?m0))) =
        Inr (first_file_num (fold applyEdit (take k (mf_edits ?ops)) mf_reset)) \<and>
      (\<forall>j \<le> length (mf_edits ?ops). j \<le> k \<longleftrightarrow> length (mf_bytes tiny_enc (take j (mf_edits ?ops))) \<le> 25)))"
    by (rule manifest_crash_recovery)
  obtain k where k: "mf_recover tiny_dec (\<lambda>d. []) (take 25 (mf_file (fold (mf_step tiny_enc) ?ops ?m0))) =
        Inr (first_file_num (fold applyEdit (take k [tiny_edit 2, tiny_edit 9]) mf_reset))"
      "\<forall>j \<le> length [tiny_edit 2, tiny_edit 9]. j \<le> k \<longleftrightarrow>
         length (mf_bytes tiny_enc (take j [tiny_edit 2, tiny_edit 9])) \<le> 25"
    using C [THEN conjunct2] unfolding es by auto
  have "length (edit_rec tiny_enc (tiny_edit n)) = 12" for n by (simp add: edit_rec_def tiny_enc_def)
  then have "1 \<le> k" "\<not> 2 \<le> k"
    using k(2) [rule_format, of 1] k(2) [rule_format, of 2] by (simp_all add: mf_bytes_def)
  then have "k = 1" by linarith
  then have "mf_recover tiny_dec (\<lambda>d. []) (take 25 (mf_file (fold (mf_step tiny_enc) ?ops ?m0))) =
      Inr (applyEdit (tiny_edit 2) mf_reset)"
    using k(1) by (simp add: first_file_num_def applyEdit_def tiny_edit_def Let_def)
  moreover obtain m' where "NewManifest tiny_dec (\<lambda>d. []) (mf_file (fold (mf_step tiny_enc) ?ops ?m0)) = Inr m'"
    "mf_st m' = first_file_num (fold applyEdit (mf_edits ?ops) mf_reset)"
    using C [THEN conjunct1] by blast
  ultimately show ?thesis
    by (simp add: mf_edits_def applyEdit_def tiny_edit_def first_file_num_def mf_NextFileNum_def Let_def)
qed

section \<open>Where the manifest goes wrong\<close>

text \<open>
  \<open>SetLastTS\<close> raises only the timestamp in memory; a manifest that is reopened has lost it.
\<close>

theorem SetLastTS_is_lost_at_reopening:
  "\<exists>m. NewManifest dec legacy [] = Inr m \<and> mf_LastTS (mf_SetLastTS 7 m) = 7 \<and>
    (\<exists>m'. NewManifest dec legacy (mf_file (mf_SetLastTS 7 m)) = Inr m' \<and> mf_LastTS m' = 0)"
  by (simp add: NewManifest_def mf_recover_def mf_SetLastTS_def mf_LastTS_def first_file_num_def mf_reset_def)

text \<open>A failed write leaves the edit applied in memory although nothing reached the file.\<close>

theorem failed_apply_is_not_rolled_back:
  "mf_Apply enc (Some 0) e m = (False, m\<lparr>mf_st := applyEdit e (mf_st m)\<rparr>)" if "mf_pos m = length (mf_file m)"
  using that by (simp add: mf_Apply_def writeEdit_def write_at_def Let_def)

text \<open>
  After a crash in the middle of a record the next session appends behind the torn record. Its
  own records then complete the torn one, and if that does not decode, opening the manifest
  fails although every record of that session was synced.
\<close>

theorem torn_record_breaks_next_session:
  assumes torn: "n < length (enc e)" "length (enc e) < 2 ^ 32"
    and next_session: "length (enc e) < n + length (edit_recs enc es)"
    and garbage: "dec (take (length (enc e)) (take n (enc e) @ edit_recs enc es)) = None"
  shows "NewManifest dec legacy (mf_header @ take (4 + n) (edit_rec enc e) @ edit_recs enc es) = Inl MfCorrupted"
proof -
  let ?lw = "word_of_nat (length (enc e)) :: u32"
  have t: "take (4 + n) (edit_rec enc e) @ edit_recs enc es = put_le32 ?lw @ take n (enc e) @ edit_recs enc es"
    by (simp add: edit_rec_def)
  have l: "unat ?lw = length (enc e)" using torn(2) by (simp add: codec_simps)
  have g: "dec (take n (enc e) @ take (length (enc e) - n) (edit_recs enc es)) = None"
    using garbage torn(1) by (simp add: min_absorb2)
  have r: "recover_records dec (put_le32 ?lw @ take n (enc e) @ edit_recs enc es) m = Inl MfCorrupted" for m
    using g torn(1) next_session
    by (subst recover_records.simps) (simp add: codec_simps l min_absorb2 min_absorb1)
  have h: "get_le32 (take 4 (mf_header @ x)) = manifestMagic" "get_le32 (take 4 (drop 4 (mf_header @ x))) = manifestVersion" for x
    by (simp_all add: mf_header_def codec_simps)
  show ?thesis
    unfolding t NewManifest_def mf_recover_def h by (simp add: r)
qed

end
