(* ===== verification/Shard.thy ===== *)
theory Shard
  imports Recovery VLog SSTReader Manifest
begin

text \<open>
  Models \<^verbatim>\<open>internal/engine/shard.go\<close>: a storage partition with its memtables, logs, manifest and
  table levels. Memtables are the sorted maps of \<open>MemSpec\<close>. The directory of table files maps
  file numbers to bytes; the channels of capacity one are flags. Parameters: the outcomes of
  the system calls, the JSON codec of the manifest (\<open>enc\<close>, \<open>dec\<close>, \<open>legacy\<close>), the Bloom decoder
  \<open>bd\<close>, the empty filter \<open>bl\<close> of a new table, and \<open>mm\<close>, whether tables are mapped.
\<close>

datatype shard_error =
  ShClosed | ShVlog vlog_error | ShWal wal_error | ShManifest mf_error | ShSst sst_error | ShIO | ShPanic

definition shardFlushThreshold :: int where "shardFlushThreshold = 4 * 1024 * 1024"
definition shardMaxLevel0Files :: nat where "shardMaxLevel0Files = 4"
definition shardFileNumStride :: u64 where "shardFileNumStride = 1000000"

type_synonym sst_dir = "u64 \<rightharpoonup> bytes"

record shard =
  sh_id :: nat
  sh_mem :: mem
  sh_frozen :: "mem option"
  sh_wal :: wal
  sh_vlog :: vlog
  sh_levels :: "reader list list"
  sh_manifest :: manifest
  sh_memSize :: int
  sh_closed :: bool
  sh_flushCh :: bool
  sh_compactCh :: bool
  sh_recoveredMaxTS :: u64

definition sst_open_file :: "bool \<Rightarrow> bloom_decoder \<Rightarrow> bytes \<Rightarrow> sst_error + reader" where
  "sst_open_file mm bd d = (if mm then sst_Open bd d else openFallback bd d)"

text \<open>The loop of \<open>rebuildLevels\<close> over one level; tables that cannot be opened are skipped.\<close>

fun open_infos :: "bool \<Rightarrow> bloom_decoder \<Rightarrow> sst_dir \<Rightarrow> sst_info list \<Rightarrow> reader list" where
  "open_infos mm bd dir [] = []"
| "open_infos mm bd dir (info # infos) =
     (case dir (fi_FileNum info) of
        None \<Rightarrow> open_infos mm bd dir infos
      | Some d \<Rightarrow>
          (case sst_open_file mm bd d of
             Inl err \<Rightarrow> open_infos mm bd dir infos
           | Inr r \<Rightarrow> r # open_infos mm bd dir infos))"

definition rebuildLevels :: "bool \<Rightarrow> bloom_decoder \<Rightarrow> sst_dir \<Rightarrow> shard \<Rightarrow> shard" where
  "rebuildLevels mm bd dir s =
     (let ml = mf_GetLevels (sh_manifest s)
      in s\<lparr>sh_levels := map (\<lambda>lvl. sh_levels s ! lvl @
             (if lvl < length ml then open_infos mm bd dir (ml ! lvl) else [])) [0..<length (sh_levels s)]\<rparr>)"

definition NewShard ::
    "nat \<Rightarrow> bool \<Rightarrow> (bytes \<Rightarrow> version_edit option) \<Rightarrow> (bytes \<Rightarrow> version_edit list) \<Rightarrow> bool \<Rightarrow> bloom_decoder \<Rightarrow>
     sst_dir \<Rightarrow> nat \<Rightarrow> bytes \<Rightarrow> wal \<Rightarrow> bytes \<Rightarrow> shard_error + shard" where
  "NewShard ext io_ok dec legacy mm bd dir id' vlogFile w manifestFile =
     (case OpenVLog ext io_ok True vlogFile of Inl err \<Rightarrow> Inl (ShVlog err) | Inr vlog \<Rightarrow>
      case NewManifest dec legacy manifestFile of Inl err \<Rightarrow> Inl (ShManifest err) | Inr manifest \<Rightarrow>
      let s = \<lparr>sh_id = id', sh_mem = [], sh_frozen = None, sh_wal = w, sh_vlog = vlog,
               sh_levels = replicate 10 [], sh_manifest = manifest, sh_memSize = 0, sh_closed = False,
               sh_flushCh = False, sh_compactCh = False, sh_recoveredMaxTS = 0\<rparr> in
      case recoverFromWAL (vl_Size vlog) (\<lambda>_. id') id' w (sh_mem s) of
        (Inl err, m) \<Rightarrow> Inl (ShWal err)
      | (Inr maxTS, m) \<Rightarrow>
          Inr (rebuildLevels mm bd dir (s\<lparr>sh_mem := m, sh_recoveredMaxTS := maxTS\<rparr>)))"

section \<open>Stored values\<close>

text \<open>\<open>decodeStoredValue\<close> of \<^verbatim>\<open>shard.go\<close>: strips the tag and leaves pointers unresolved.\<close>

definition sh_decodeStoredValue :: "bytes option \<Rightarrow> bytes option" where
  "sh_decodeStoredValue stored =
     (case stored of
        None \<Rightarrow> None
      | Some [] \<Rightarrow> Some []
      | Some (b # rest) \<Rightarrow>
          if IsValidValueTag b then
            if b = TypeTombstone then None
            else if b = TypeValuePointer \<or> b = TypeInline then Some rest
            else Some (b # rest)
          else Some (b # rest))"

text \<open>A view that is copied and released at once.\<close>

definition view_copy :: "value_pointer \<Rightarrow> vlog \<Rightarrow> bytes option" where
  "view_copy vp v = (case vl_ReadView vp v of (Inl err, v) \<Rightarrow> None | (Inr vw, v) \<Rightarrow> Some (vv_data vw))"

definition unusable_pointer :: "value_pointer \<Rightarrow> bool" where
  "unusable_pointer vp \<longleftrightarrow> sint (vp_Offset vp) < 0 \<or> sint (vp_Size vp) \<le> 0"

definition resolveSSTableValue :: "shard \<Rightarrow> bytes option \<Rightarrow> bytes option" where
  "resolveSSTableValue s payload =
     (if length (slice_of payload) \<noteq> ValuePointerSize then payload
      else
        case DecodeValuePointer (slice_of payload) of
          None \<Rightarrow> payload
        | Some vp \<Rightarrow> if unusable_pointer vp then payload else view_copy vp (sh_vlog s))"

definition resolveStoredValue :: "shard \<Rightarrow> bytes option \<Rightarrow> bytes option" where
  "resolveStoredValue s stored =
     (case slice_of stored of
        [] \<Rightarrow> None
      | b # rest \<Rightarrow>
          if \<not> IsValidValueTag b then stored
          else if b = TypeTombstone then None
          else if b = TypeValuePointer then
            if length (b # rest) < 1 + ValuePointerSize then None
            else
              case DecodeValuePointer rest of
                None \<Rightarrow> None
              | Some vp \<Rightarrow> if unusable_pointer vp then None else view_copy vp (sh_vlog s)
          else Some rest)"

definition encodeStoredValue :: "bool \<Rightarrow> bytes \<Rightarrow> value_pointer \<Rightarrow> bytes" where
  "encodeStoredValue isLarge inl vp =
     (if isLarge then TypeValuePointer # EncodeValuePointer vp else TypeInline # inl)"

section \<open>Reads\<close>

text \<open>The first table of a list, or of the levels, that has a visible version; \<open>Inl\<close> is a panic.\<close>

fun lookup_tables :: "mvcc_key \<Rightarrow> reader list \<Rightarrow> sst_error + bytes option option" where
  "lookup_tables key [] = Inr None"
| "lookup_tables key (r # rs) =
     (case sst_Lookup r key of
        Inl err \<Rightarrow> Inl err
      | Inr (val, True) \<Rightarrow> Inr (Some val)
      | Inr (val, False) \<Rightarrow> lookup_tables key rs)"

definition lookup_levels :: "mvcc_key \<Rightarrow> reader list list \<Rightarrow> sst_error + bytes option option" where
  "lookup_levels key levels = lookup_tables key (concat levels)"

definition sh_Get :: "bytes \<Rightarrow> u64 \<Rightarrow> shard \<Rightarrow> shard_error + bytes option" where
  "sh_Get key snapshotTS s =
     (if sh_closed s then Inl ShClosed
      else
        case mem_get key snapshotTS (sh_mem s) of
          (val, True) \<Rightarrow> Inr (resolveStoredValue s val)
        | (_, False) \<Rightarrow>
            (case (case sh_frozen s of None \<Rightarrow> (None, False) | Some m \<Rightarrow> mem_get key snapshotTS m) of
               (val, True) \<Rightarrow> Inr (resolveStoredValue s val)
             | (_, False) \<Rightarrow>
                 (case lookup_levels (NewMVCCKey key snapshotTS) (sh_levels s) of
                    Inl err \<Rightarrow> Inl (ShSst err)
                  | Inr (Some val) \<Rightarrow> Inr (resolveSSTableValue s val)
                  | Inr None \<Rightarrow> Inr None)))"

definition sh_GetLatest :: "bytes \<Rightarrow> shard \<Rightarrow> shard_error + bytes option \<times> u64 \<times> bool" where
  "sh_GetLatest key s =
     (if sh_closed s then Inl ShClosed
      else
        case mem_get_latest key (sh_mem s) of
          (val, ts, True) \<Rightarrow> Inr (sh_decodeStoredValue val, ts, True)
        | (_, _, False) \<Rightarrow>
            (case (case sh_frozen s of None \<Rightarrow> (None, 0, False) | Some m \<Rightarrow> mem_get_latest key m) of
               (val, ts, True) \<Rightarrow> Inr (sh_decodeStoredValue val, ts, True)
             | (_, _, False) \<Rightarrow>
                 (case lookup_levels (NewMVCCKey key (- 1)) (sh_levels s) of
                    Inl err \<Rightarrow> Inl (ShSst err)
                  | Inr (Some val) \<Rightarrow> Inr (val, mf_LastTS (sh_manifest s), True)
                  | Inr None \<Rightarrow> Inr (None, 0, False))))"

definition memSizeLoad :: "shard \<Rightarrow> int" where
  "memSizeLoad s = sh_memSize s"

section \<open>Writes\<close>

definition put_entry :: "bytes \<Rightarrow> bytes \<Rightarrow> u64 \<Rightarrow> wal_entry" where
  "put_entry key val ts =
     \<lparr>we_Op = OpPut, we_Key = key, we_Value = val, we_Timestamp = ts, we_IsLarge = False\<rparr>"

definition delete_entry :: "bytes \<Rightarrow> u64 \<Rightarrow> wal_entry" where
  "delete_entry key ts =
     \<lparr>we_Op = OpDelete, we_Key = key, we_Value = [], we_Timestamp = ts, we_IsLarge = False\<rparr>"

definition sh_Put ::
    "nat \<Rightarrow> map_outcome \<Rightarrow> bool \<Rightarrow> nat option \<Rightarrow> bool \<Rightarrow> bytes \<Rightarrow> bytes \<Rightarrow> u64 \<Rightarrow> shard \<Rightarrow> shard_error option \<times> shard" where
  "sh_Put ext vio vsync io sync_ok key val commitTS s =
     (if sh_closed s then (Some ShClosed, s)
      else
        let isLarge = (length val > MaxInlineSize);
            (vr, vlog) = (if isLarge then vl_Write ext vio vsync val (sh_vlog s)
                          else (Inr \<lparr>vp_Offset = 0, vp_Size = 0\<rparr>, sh_vlog s));
            s = s\<lparr>sh_vlog := vlog\<rparr> in
        case vr of
          Inl err \<Rightarrow> (Some (ShVlog err), s)
        | Inr vp \<Rightarrow>
            let stored = encodeStoredValue isLarge val vp;
                (wr, w) = (if isLarge then (None, sh_wal s)
                           else wal_Write io sync_ok (put_entry key val commitTS) (sh_wal s));
                s = s\<lparr>sh_wal := w\<rparr> in
            case wr of
              Some err \<Rightarrow> (Some (ShWal err), s)
            | None \<Rightarrow>
                let s = s\<lparr>sh_mem := snd (mem_put (NewMVCCKey key commitTS) (Some stored) (sh_mem s)),
                          sh_memSize := sh_memSize s + int (length key + length val)\<rparr>;
                    s = (if commitTS > 0 then s\<lparr>sh_manifest := mf_SetLastTS commitTS (sh_manifest s)\<rparr> else s);
                    s = (if sh_memSize s > shardFlushThreshold then s\<lparr>sh_flushCh := True\<rparr> else s)
                in (None, s))"

definition sh_Delete ::
    "nat option \<Rightarrow> bool \<Rightarrow> bytes \<Rightarrow> u64 \<Rightarrow> shard \<Rightarrow> shard_error option \<times> shard" where
  "sh_Delete io sync_ok key commitTS s =
     (if sh_closed s then (Some ShClosed, s)
      else
        case wal_Write io sync_ok (delete_entry key commitTS) (sh_wal s) of
          (Some err, w) \<Rightarrow> (Some (ShWal err), s\<lparr>sh_wal := w\<rparr>)
        | (None, w) \<Rightarrow>
            (None, s\<lparr>sh_wal := w, sh_mem := snd (mem_delete_ts (NewMVCCKey key commitTS) (sh_mem s)),
                     sh_memSize := sh_memSize s + int (length key)\<rparr>))"

section \<open>Flush\<close>

text \<open>The table that \<open>writeMemTableToSST\<close> writes: the live entries with their tags.\<close>

definition memtable_table :: "bloom_filter \<Rightarrow> mem \<Rightarrow> bytes" where
  "memtable_table bl m =
     sst_Finish (fold (\<lambda>(k, v) w. sst_AppendTagged k (case v of Live x \<Rightarrow> x | Tomb \<Rightarrow> None) w)
       (mem_live m) (sst_NewWriter bl))"

definition writeMemTableToSST ::
    "bool \<Rightarrow> bloom_filter \<Rightarrow> bool \<Rightarrow> bloom_decoder \<Rightarrow> mem \<Rightarrow> u64 \<Rightarrow> sst_dir \<Rightarrow> (shard_error + reader) \<times> sst_dir" where
  "writeMemTableToSST write_ok bl mm bd m fileNum dir =
     (if \<not> write_ok then (Inl ShIO, dir)
      else
        let d = memtable_table bl m; dir = dir(fileNum \<mapsto> d) in
        case sst_open_file mm bd d of Inl err \<Rightarrow> (Inl (ShSst err), dir) | Inr r \<Rightarrow> (Inr r, dir))"

definition sh_flushMemTable ::
    "bool \<Rightarrow> bloom_filter \<Rightarrow> bool \<Rightarrow> bloom_decoder \<Rightarrow> (version_edit \<Rightarrow> bytes) \<Rightarrow> nat option \<Rightarrow> (mem \<Rightarrow> int) \<Rightarrow>
     sst_dir \<Rightarrow> shard \<Rightarrow> shard_error option \<times> shard \<times> sst_dir" where
  "sh_flushMemTable write_ok bl mm bd enc mio sizeBytes dir s =
     (if sh_closed s then (Some ShClosed, s, dir)
      else if mem_len (sh_mem s) = 0 then (None, s, dir)
      else
        let old = sh_mem s;
            s = s\<lparr>sh_mem := [], sh_frozen := Some old, sh_memSize := 0\<rparr>;
            (num, manifest) = mf_NextFileNum (sh_manifest s);
            s = s\<lparr>sh_manifest := manifest\<rparr>;
            fileNum = num + word_of_nat (sh_id s) * shardFileNumStride in
        case writeMemTableToSST write_ok bl mm bd old fileNum dir of
          (Inl err, dir) \<Rightarrow> (Some err, s\<lparr>sh_mem := old, sh_frozen := None, sh_memSize := sizeBytes old\<rparr>, dir)
        | (Inr r, dir) \<Rightarrow>
            let edit = \<lparr>ve_NewFiles = [\<lparr>fi_FileNum = fileNum, fi_Level = 0, fi_MinKey = None, fi_MaxKey = None, fi_Size = 0\<rparr>],
                        ve_DeletedFiles = [], ve_NextFileNum = fileNum + 1, ve_LastTS = mf_LastTS (sh_manifest s)\<rparr> in
            case mf_Apply enc mio edit (sh_manifest s) of
              (False, manifest) \<Rightarrow> (Some ShIO, s\<lparr>sh_manifest := manifest\<rparr>, dir)
            | (True, manifest) \<Rightarrow>
                (None, s\<lparr>sh_manifest := manifest, sh_levels := (sh_levels s)[0 := sh_levels s ! 0 @ [r]],
                         sh_frozen := None\<rparr>, dir))"

definition sh_compactLevel0 :: "shard \<Rightarrow> shard_error option \<times> shard" where
  "sh_compactLevel0 s = (None, s)"

definition level0Files :: "shard \<Rightarrow> nat" where
  "level0Files s = length (sh_levels s ! 0)"

text \<open>The workers: a tick raises the signal, a signal runs the job.\<close>

definition sh_flush_tick :: "shard \<Rightarrow> shard" where
  "sh_flush_tick s = (if sh_memSize s > shardFlushThreshold then s\<lparr>sh_flushCh := True\<rparr> else s)"

definition sh_compact_tick :: "shard \<Rightarrow> shard" where
  "sh_compact_tick s = (if level0Files s > shardMaxLevel0Files then s\<lparr>sh_compactCh := True\<rparr> else s)"

definition sh_flush_signal ::
    "bool \<Rightarrow> bloom_filter \<Rightarrow> bool \<Rightarrow> bloom_decoder \<Rightarrow> (version_edit \<Rightarrow> bytes) \<Rightarrow> nat option \<Rightarrow> (mem \<Rightarrow> int) \<Rightarrow>
     sst_dir \<Rightarrow> shard \<Rightarrow> shard \<times> sst_dir" where
  "sh_flush_signal write_ok bl mm bd enc mio sizeBytes dir s =
     (if \<not> sh_flushCh s then (s, dir)
      else snd (sh_flushMemTable write_ok bl mm bd enc mio sizeBytes dir (s\<lparr>sh_flushCh := False\<rparr>)))"

definition sh_compact_signal :: "shard \<Rightarrow> shard" where
  "sh_compact_signal s =
     (if \<not> sh_compactCh s then s else snd (sh_compactLevel0 (s\<lparr>sh_compactCh := False\<rparr>)))"

definition sh_Close :: "nat option \<Rightarrow> shard \<Rightarrow> shard" where
  "sh_Close io s =
     (if sh_closed s then s
      else s\<lparr>sh_closed := True, sh_levels := [], sh_mem := [], sh_frozen := map_option (\<lambda>_. []) (sh_frozen s),
             sh_wal := snd (wal_Close io (sh_wal s)), sh_vlog := vl_Close (sh_vlog s)\<rparr>)"

end
