(* ===== verification/CommitCache.thy ===== *)
theory CommitCache
  imports Prelude
begin

text \<open>
  Models \<^verbatim>\<open>internal/engine/cache.go\<close>: the bounded LRU cache of last commit timestamps. The
  elements of Go's \<^verbatim>\<open>container/list\<close> are numbers with their contents in \<open>cc_elem\<close>, the list is
  the sequence of the elements from the front, and the map goes from a key to its element, so
  the two views of the cache can disagree and the invariant \<open>cc_inv\<close> says that they do not.
  A lookup is two critical sections, \<open>cc_find\<close> and \<open>cc_promote\<close>, with other operations
  possibly between them.
\<close>

definition maxLastCommitCacheEntries :: nat where "maxLastCommitCacheEntries = 10000"

record commit_cache =
  cc_map :: "bytes \<rightharpoonup> nat"
  cc_lru :: "nat list"
  cc_elem :: "nat \<rightharpoonup> bytes \<times> u64"
  cc_next :: nat

definition new_commit_cache :: commit_cache where
  "new_commit_cache = \<lparr>cc_map = Map.empty, cc_lru = [], cc_elem = Map.empty, cc_next = 0\<rparr>"

definition MoveToFront :: "nat \<Rightarrow> commit_cache \<Rightarrow> commit_cache" where
  "MoveToFront el c = (if el \<in> set (cc_lru c) then c\<lparr>cc_lru := el # remove1 el (cc_lru c)\<rparr> else c)"

text \<open>The eviction loop; each round drops the element at the back of the list.\<close>

function cc_evict :: "commit_cache \<Rightarrow> commit_cache" where
  "cc_evict c =
     (if length (cc_lru c) > maxLastCommitCacheEntries then
        let oldest = last (cc_lru c) in
        cc_evict (c\<lparr>cc_map := (case cc_elem c oldest of Some (key, _) \<Rightarrow> (cc_map c)(key := None) | None \<Rightarrow> cc_map c),
                    cc_lru := butlast (cc_lru c)\<rparr>)
      else c)"
  by pat_completeness auto
termination
  by (relation "measure (\<lambda>c. length (cc_lru c))") (auto simp: maxLastCommitCacheEntries_def)

declare cc_evict.simps [simp del]

definition updateLastCommitCache :: "bytes \<Rightarrow> u64 \<Rightarrow> commit_cache \<Rightarrow> commit_cache" where
  "updateLastCommitCache key commitTS c =
     (case cc_map c key of
        Some el \<Rightarrow>
          MoveToFront el (c\<lparr>cc_elem := (cc_elem c)(el \<mapsto>
            (case cc_elem c el of Some (k, _) \<Rightarrow> (k, commitTS) | None \<Rightarrow> (key, commitTS)))\<rparr>)
      | None \<Rightarrow>
          let el = cc_next c;
              c = c\<lparr>cc_next := el + 1, cc_elem := (cc_elem c)(el \<mapsto> (key, commitTS)),
                    cc_lru := el # cc_lru c, cc_map := (cc_map c)(key \<mapsto> el)\<rparr>
          in cc_evict c)"

text \<open>The two critical sections of \<open>getLastCommitCache\<close>.\<close>

definition cc_find :: "bytes \<Rightarrow> commit_cache \<Rightarrow> nat option" where
  "cc_find key c = cc_map c key"

definition cc_promote :: "bytes \<Rightarrow> nat \<Rightarrow> commit_cache \<Rightarrow> u64 \<times> commit_cache" where
  "cc_promote key el c =
     (let c' = (case cc_map c key of Some el' \<Rightarrow> MoveToFront el' c | None \<Rightarrow> c)
      in (case cc_elem c el of Some (_, ts) \<Rightarrow> ts | None \<Rightarrow> 0, c'))"

definition getLastCommitCache :: "bytes \<Rightarrow> commit_cache \<Rightarrow> u64 option \<times> commit_cache" where
  "getLastCommitCache key c =
     (case cc_find key c of
        None \<Rightarrow> (None, c)
      | Some el \<Rightarrow> (let (ts, c) = cc_promote key el c in (Some ts, c)))"

section \<open>The abstract cache\<close>

text \<open>The contents from the most to the least recently used entry.\<close>

definition cc_list :: "commit_cache \<Rightarrow> (bytes \<times> u64) list" where
  "cc_list c = map (\<lambda>el. the (cc_elem c el)) (cc_lru c)"

definition cc_inv :: "commit_cache \<Rightarrow> bool" where
  "cc_inv c \<longleftrightarrow>
     distinct (cc_lru c) \<and> set (cc_lru c) \<subseteq> dom (cc_elem c) \<and> dom (cc_elem c) \<subseteq> {..<cc_next c} \<and>
     distinct (map fst (cc_list c)) \<and> length (cc_lru c) \<le> maxLastCommitCacheEntries \<and>
     (\<forall>key el. cc_map c key = Some el \<longleftrightarrow> el \<in> set (cc_lru c) \<and> fst (the (cc_elem c el)) = key)"

definition lru_touch :: "bytes \<Rightarrow> u64 \<Rightarrow> (bytes \<times> u64) list \<Rightarrow> (bytes \<times> u64) list" where
  "lru_touch key ts xs = (key, ts) # filter (\<lambda>p. fst p \<noteq> key) xs"

lemma cc_inv_new: "cc_inv new_commit_cache"
  by (simp add: cc_inv_def new_commit_cache_def cc_list_def)

lemma cc_map_iff:
  "cc_inv c \<Longrightarrow> cc_map c key = Some el \<longleftrightarrow> el \<in> set (cc_lru c) \<and> fst (the (cc_elem c el)) = key"
  by (simp add: cc_inv_def)

lemma cc_key_iff:
  assumes "cc_inv c" "cc_map c key = Some el" "x \<in> set (cc_lru c)"
  shows "fst (the (cc_elem c x)) = key \<longleftrightarrow> x = el"
  using cc_map_iff [OF assms(1), of key x] cc_map_iff [OF assms(1), of key el] assms(2,3) by auto

lemma cc_map_list:
  assumes "cc_inv c"
  shows "cc_map c key = Some el \<Longrightarrow> \<exists>ts. cc_elem c el = Some (key, ts) \<and> map_of (cc_list c) key = Some ts"
    and "cc_map c key = None \<longleftrightarrow> map_of (cc_list c) key = None"
proof -
  have d: "distinct (map fst (cc_list c))" using assms by (simp add: cc_inv_def)
  have el: "el \<in> set (cc_lru c) \<Longrightarrow> \<exists>p. cc_elem c el = Some p" for el
    using assms by (auto simp: cc_inv_def)
  show "\<exists>ts. cc_elem c el = Some (key, ts) \<and> map_of (cc_list c) key = Some ts" if "cc_map c key = Some el"
  proof -
    have m: "el \<in> set (cc_lru c)" "fst (the (cc_elem c el)) = key"
      using that unfolding cc_map_iff [OF assms] by auto
    then obtain ts where ts: "cc_elem c el = Some (key, ts)" using el by force
    have "(key, ts) \<in> set (cc_list c)" using m ts by (auto simp: cc_list_def image_iff intro!: bexI [of _ el])
    then show ?thesis using ts d by (simp add: map_of_eq_Some_distinct)
  qed
  have "cc_map c key = None \<longleftrightarrow> (\<forall>el \<in> set (cc_lru c). fst (the (cc_elem c el)) \<noteq> key)"
    using cc_map_iff [OF assms, of key] by (metis not_None_eq)
  then show "cc_map c key = None \<longleftrightarrow> map_of (cc_list c) key = None"
    by (auto simp: map_of_eq_None_iff cc_list_def)
qed

lemma cc_list_move:
  assumes inv: "cc_inv c" and el: "cc_map c key = Some el"
  shows "cc_inv (MoveToFront el c)"
    and "cc_list (MoveToFront el c) = lru_touch key (the (map_of (cc_list c) key)) (cc_list c)"
proof -
  obtain ts where ts: "cc_elem c el = Some (key, ts)" "map_of (cc_list c) key = Some ts"
    using cc_map_list(1) [OF inv el] by blast
  have d: "distinct (cc_lru c)" "el \<in> set (cc_lru c)"
    using inv el cc_map_iff [OF inv] by (simp_all add: cc_inv_def)
  note k = cc_key_iff [OF inv el]
  have rest: "remove1 el (cc_lru c) = filter (\<lambda>x. x \<noteq> el) (cc_lru c)"
    using d by (simp add: distinct_remove1_removeAll removeAll_filter_not_eq) (metis)
  have m: "map (\<lambda>x. the (cc_elem c x)) (filter (\<lambda>x. x \<noteq> el) (cc_lru c)) = filter (\<lambda>p. fst p \<noteq> key) (cc_list c)"
    using k by (simp add: cc_list_def filter_map comp_def cong: filter_cong)
  show l: "cc_list (MoveToFront el c) = lru_touch key (the (map_of (cc_list c) key)) (cc_list c)"
    using d ts m by (simp add: MoveToFront_def cc_list_def lru_touch_def rest)
  have "distinct (map fst (lru_touch key ts (cc_list c)))"
    using inv by (auto simp: lru_touch_def cc_inv_def distinct_map_filter)
  then have dk: "distinct (map fst (cc_list (MoveToFront el c)))" using l ts by simp
  have st: "set (el # remove1 el (cc_lru c)) = set (cc_lru c)" "length (el # remove1 el (cc_lru c)) = length (cc_lru c)"
    using d by (auto simp: length_remove1 set_remove1_eq intro: Suc_pred length_pos_if_in_set)
  show "cc_inv (MoveToFront el c)"
    using inv d dk st by (simp add: cc_inv_def MoveToFront_def)
qed

lemma cc_inv_set_ts:
  assumes "cc_inv c" "cc_map c key = Some el"
  shows "cc_inv (c\<lparr>cc_elem := (cc_elem c)(el \<mapsto> (key, ts))\<rparr>)"
    and "filter (\<lambda>p. fst p \<noteq> key) (cc_list (c\<lparr>cc_elem := (cc_elem c)(el \<mapsto> (key, ts))\<rparr>)) =
      filter (\<lambda>p. fst p \<noteq> key) (cc_list c)"
    and "map_of (cc_list (c\<lparr>cc_elem := (cc_elem c)(el \<mapsto> (key, ts))\<rparr>)) key = Some ts"
proof -
  let ?c = "c\<lparr>cc_elem := (cc_elem c)(el \<mapsto> (key, ts))\<rparr>"
  note k = cc_key_iff [OF assms]
  have el: "el \<in> set (cc_lru c)" using assms cc_map_iff by blast
  then have ed: "el \<in> dom (cc_elem c)" using assms(1) by (auto simp: cc_inv_def)
  have keys: "map fst (cc_list ?c) = map fst (cc_list c)"
    using k el by (auto simp: cc_list_def)
  show inv: "cc_inv ?c"
    using assms el k keys by (auto simp: cc_inv_def)
  show "filter (\<lambda>p. fst p \<noteq> key) (cc_list ?c) = filter (\<lambda>p. fst p \<noteq> key) (cc_list c)"
  proof -
    have "filter (\<lambda>p. fst p \<noteq> key) (map (\<lambda>x. the (((cc_elem c)(el \<mapsto> (key, ts))) x)) xs) =
        filter (\<lambda>p. fst p \<noteq> key) (map (\<lambda>x. the (cc_elem c x)) xs)" if "set xs \<subseteq> set (cc_lru c)" for xs
      using that k el by (induction xs) auto
    then show ?thesis by (simp add: cc_list_def)
  qed
  show "map_of (cc_list ?c) key = Some ts"
    using cc_map_list(1) [OF inv, of key el] assms(2) by auto
qed

lemma map_of_touch: "map_of (lru_touch key ts xs) k = (if k = key then Some ts else map_of xs k)"
  by (induction xs) (auto simp: lru_touch_def)

text \<open>The state inside \<open>updateLastCommitCache\<close> between the insertion and the eviction.\<close>

lemma cc_evict_ok:
  assumes "distinct (cc_lru c)" "set (cc_lru c) \<subseteq> dom (cc_elem c)" "dom (cc_elem c) \<subseteq> {..<cc_next c}"
    "distinct (map fst (cc_list c))"
    "\<forall>key el. cc_map c key = Some el \<longleftrightarrow> el \<in> set (cc_lru c) \<and> fst (the (cc_elem c el)) = key"
  shows "cc_inv (cc_evict c) \<and> cc_list (cc_evict c) = take maxLastCommitCacheEntries (cc_list c)"
  using assms
proof (induction c rule: cc_evict.induct)
  case (1 c)
  show ?case
  proof (cases "length (cc_lru c) > maxLastCommitCacheEntries")
    case False
    then show ?thesis
      using "1.prems" by (simp add: cc_evict.simps [of c] cc_inv_def) (simp add: cc_list_def)
  next
    case True
    then have ne: "cc_lru c \<noteq> []" by auto
    define el where "el = last (cc_lru c)"
    define xs where "xs = butlast (cc_lru c)"
    have lru: "cc_lru c = xs @ [el]" using ne by (simp add: el_def xs_def)
    obtain k ts where k: "cc_elem c el = Some (k, ts)" using "1.prems"(2) lru by force
    define c' where "c' = c\<lparr>cc_map := (cc_map c)(k := None), cc_lru := xs\<rparr>"
    have step: "cc_evict c = cc_evict c'"
      using True k by (simp add: cc_evict.simps [of c] Let_def c'_def el_def xs_def)
    have list: "cc_list c = cc_list c' @ [(k, ts)]" by (simp add: cc_list_def lru c'_def k)
    have fresh: "fst (the (cc_elem c x)) \<noteq> k" if "x \<in> set xs" for x
    proof -
      have "fst (the (cc_elem c x)) \<in> fst ` set (cc_list c')" using that by (simp add: cc_list_def c'_def)
      then show ?thesis using "1.prems"(4) by (auto simp: list)
    qed
    have e: "c\<lparr>cc_map := (case cc_elem c (last (cc_lru c)) of Some (key, _) \<Rightarrow> (cc_map c)(key := None) | None \<Rightarrow> cc_map c),
        cc_lru := butlast (cc_lru c)\<rparr> = c'"
      using k by (simp add: c'_def el_def xs_def)
    have p: "distinct (cc_lru c')" "set (cc_lru c') \<subseteq> dom (cc_elem c')" "dom (cc_elem c') \<subseteq> {..<cc_next c'}"
      "distinct (map fst (cc_list c'))"
      using "1.prems"(1-4) by (auto simp: c'_def lru list)
    have "\<forall>key el. cc_map c' key = Some el \<longleftrightarrow> el \<in> set (cc_lru c') \<and> fst (the (cc_elem c' el)) = key"
      using "1.prems"(1,5) fresh k by (auto simp: c'_def lru)
    with p have "cc_inv (cc_evict c') \<and> cc_list (cc_evict c') = take maxLastCommitCacheEntries (cc_list c')"
      using "1.IH" [OF True refl, unfolded e] by blast
    moreover have "length (cc_list c') \<ge> maxLastCommitCacheEntries"
      using True lru by (simp add: cc_list_def c'_def)
    ultimately show ?thesis by (simp add: step list)
  qed
qed

lemma update_refines:
  assumes inv: "cc_inv c"
  shows "cc_inv (updateLastCommitCache key ts c) \<and>
    cc_list (updateLastCommitCache key ts c) = take maxLastCommitCacheEntries (lru_touch key ts (cc_list c))"
proof (cases "cc_map c key")
  case (Some el)
  obtain ts0 where el: "cc_elem c el = Some (key, ts0)" "map_of (cc_list c) key = Some ts0"
    using cc_map_list(1) [OF inv Some] by blast
  let ?c = "c\<lparr>cc_elem := (cc_elem c)(el \<mapsto> (key, ts))\<rparr>"
  have u: "updateLastCommitCache key ts c = MoveToFront el ?c"
    using Some el by (simp add: updateLastCommitCache_def)
  note s = cc_inv_set_ts [OF inv Some, of ts]
  have "cc_map ?c key = Some el" using Some by simp
  note m = cc_list_move [OF s(1) this]
  have l: "cc_list (MoveToFront el ?c) = lru_touch key ts (cc_list c)"
    using m(2) s(2,3) by (simp add: lru_touch_def)
  moreover have "length (cc_list (MoveToFront el ?c)) \<le> maxLastCommitCacheEntries"
    using m(1) by (simp add: cc_inv_def cc_list_def)
  ultimately show ?thesis using m(1) by (simp add: u)
next
  case None
  let ?el = "cc_next c"
  let ?c = "c\<lparr>cc_next := ?el + 1, cc_elem := (cc_elem c)(?el \<mapsto> (key, ts)), cc_lru := ?el # cc_lru c,
      cc_map := (cc_map c)(key \<mapsto> ?el)\<rparr>"
  have u: "updateLastCommitCache key ts c = cc_evict ?c"
    using None by (simp add: updateLastCommitCache_def Let_def)
  have fresh: "x \<in> set (cc_lru c) \<Longrightarrow> x \<noteq> ?el" for x using inv by (auto simp: cc_inv_def)
  have list: "cc_list ?c = (key, ts) # cc_list c" using fresh by (simp add: cc_list_def)
  have notin: "key \<notin> fst ` set (cc_list c)" using None cc_map_list(2) [OF inv] by (simp add: map_of_eq_None_iff)
  have t: "lru_touch key ts (cc_list c) = (key, ts) # cc_list c"
    using notin by (auto simp: lru_touch_def filter_id_conv)
  have nk: "fst (the (cc_elem c x)) \<noteq> key" if "x \<in> set (cc_lru c)" for x
    using notin that by (auto simp: cc_list_def)
  have "cc_inv (cc_evict ?c) \<and> cc_list (cc_evict ?c) = take maxLastCommitCacheEntries (cc_list ?c)"
  proof (rule cc_evict_ok)
    show "distinct (cc_lru ?c)" "set (cc_lru ?c) \<subseteq> dom (cc_elem ?c)" "dom (cc_elem ?c) \<subseteq> {..<cc_next ?c}"
      using inv fresh by (auto simp: cc_inv_def less_Suc_eq)
    show "distinct (map fst (cc_list ?c))" unfolding list using inv notin by (simp add: cc_inv_def)
    show "\<forall>k el. cc_map ?c k = Some el \<longleftrightarrow> el \<in> set (cc_lru ?c) \<and> fst (the (cc_elem ?c el)) = k"
      using inv fresh nk by (auto simp: cc_inv_def)
  qed
  then show ?thesis unfolding u t list .
qed

lemma get_refines:
  assumes inv: "cc_inv c"
  shows "fst (getLastCommitCache key c) = map_of (cc_list c) key \<and> cc_inv (snd (getLastCommitCache key c)) \<and>
    cc_list (snd (getLastCommitCache key c)) =
      (case map_of (cc_list c) key of None \<Rightarrow> cc_list c | Some ts \<Rightarrow> lru_touch key ts (cc_list c))"
proof (cases "cc_map c key")
  case None
  then have "map_of (cc_list c) key = None" using cc_map_list(2) [OF inv] by blast
  then show ?thesis using inv by (simp add: getLastCommitCache_def cc_find_def None)
next
  case (Some el)
  obtain ts where el: "cc_elem c el = Some (key, ts)" "map_of (cc_list c) key = Some ts"
    using cc_map_list(1) [OF inv Some] by blast
  then show ?thesis
    using Some cc_list_move [OF inv Some] by (simp add: getLastCommitCache_def cc_find_def cc_promote_def)
qed

section \<open>Sequences of operations\<close>

datatype cache_op = CUpdate bytes u64 | CGet bytes

primrec cc_step :: "cache_op \<Rightarrow> commit_cache \<Rightarrow> commit_cache" where
  "cc_step (CUpdate key ts) c = updateLastCommitCache key ts c"
| "cc_step (CGet key) c = snd (getLastCommitCache key c)"

text \<open>The same operation on the abstract list.\<close>

primrec lru_step :: "cache_op \<Rightarrow> (bytes \<times> u64) list \<Rightarrow> (bytes \<times> u64) list" where
  "lru_step (CUpdate key ts) xs = take maxLastCommitCacheEntries (lru_touch key ts xs)"
| "lru_step (CGet key) xs = (case map_of xs key of None \<Rightarrow> xs | Some ts \<Rightarrow> lru_touch key ts xs)"

primrec op_key :: "cache_op \<Rightarrow> bytes" where
  "op_key (CUpdate key ts) = key"
| "op_key (CGet key) = key"

lemma cc_run:
  "cc_inv c \<Longrightarrow> cc_inv (fold cc_step ops c) \<and> cc_list (fold cc_step ops c) = fold lru_step ops (cc_list c)"
proof (induction ops arbitrary: c)
  case (Cons op ops)
  have "cc_inv (cc_step op c) \<and> cc_list (cc_step op c) = lru_step op (cc_list c)"
    using update_refines [OF Cons.prems] get_refines [OF Cons.prems] by (cases op) auto
  then show ?case using Cons.IH [of "cc_step op c"] by simp
qed simp

lemma touch_keeps:
  assumes "xs = pre @ (key, ts) # post" "fst ` set pre \<subseteq> K" "k \<in> K" "k \<noteq> key"
  shows "\<exists>pre' post'. lru_touch k t xs = pre' @ (key, ts) # post' \<and> fst ` set pre' \<subseteq> K"
proof (intro exI conjI)
  show "lru_touch k t xs = ((k, t) # filter (\<lambda>p. fst p \<noteq> k) pre) @ (key, ts) # filter (\<lambda>p. fst p \<noteq> k) post"
    using assms(1,4) by (simp add: lru_touch_def)
  show "fst ` set ((k, t) # filter (\<lambda>p. fst p \<noteq> k) pre) \<subseteq> K"
    using assms(2,3) by (auto simp: image_subset_iff)
qed

lemma distinct_touch: "distinct (map fst xs) \<Longrightarrow> distinct (map fst (lru_touch k t xs))"
  by (auto simp: lru_touch_def distinct_map_filter)

lemma lru_keeps:
  assumes "finite K" "card K < maxLastCommitCacheEntries"
    and "\<forall>op \<in> set ops. op_key op \<in> K" "key \<notin> K"
  shows "xs = pre @ (key, ts) # post \<Longrightarrow> fst ` set pre \<subseteq> K \<Longrightarrow> distinct (map fst xs) \<Longrightarrow>
    map_of (fold lru_step ops xs) key = Some ts"
  using assms(3)
proof (induction ops arbitrary: xs pre post)
  case Nil
  then show ?case using assms(4) by (auto simp: map_of_append map_add_def split: option.split dest: map_of_SomeD)
next
  case (Cons op ops)
  have d: "distinct (map fst (lru_touch k t xs))" for k t using Cons.prems(3) by (rule distinct_touch)
  have k: "op_key op \<in> K" "op_key op \<noteq> key" using Cons.prems(4) assms(4) by auto
  have keep: "map_of (fold lru_step ops (take maxLastCommitCacheEntries ys)) key = Some ts \<and>
      map_of (fold lru_step ops ys) key = Some ts"
    if t: "ys = pre' @ (key, ts) # post'" "fst ` set pre' \<subseteq> K" "distinct (map fst ys)" for ys pre' post'
  proof -
    have "length pre' = card (fst ` set pre')"
      using t(1,3) distinct_card [of "map fst pre'"] by simp
    also have "\<dots> \<le> card K" using t(2) assms(1) by (rule card_mono [rotated])
    finally have "length pre' < maxLastCommitCacheEntries" using assms(2) by simp
    then have "take maxLastCommitCacheEntries ys =
        pre' @ (key, ts) # take (maxLastCommitCacheEntries - length pre' - 1) post'"
      using t(1) by (cases "maxLastCommitCacheEntries - length pre'") auto
    moreover have "distinct (map fst (take maxLastCommitCacheEntries ys))"
      using t(3) by (simp flip: take_map)
    ultimately show ?thesis using Cons.IH t Cons.prems(4) by simp
  qed
  show ?case
  proof (cases op)
    case (CUpdate k' t')
    obtain pre' post' where "lru_touch k' t' xs = pre' @ (key, ts) # post'" "fst ` set pre' \<subseteq> K"
      using touch_keeps [OF Cons.prems(1,2), of k' t'] k CUpdate by auto
    from keep [OF this d] show ?thesis by (simp add: CUpdate)
  next
    case (CGet k')
    show ?thesis
    proof (cases "map_of xs k'")
      case None
      then show ?thesis using keep [OF Cons.prems(1-3)] by (simp add: CGet)
    next
      case (Some t')
      obtain pre' post' where "lru_touch k' t' xs = pre' @ (key, ts) # post'" "fst ` set pre' \<subseteq> K"
        using touch_keeps [OF Cons.prems(1,2), of k' t'] k CGet by auto
      from keep [OF this d] show ?thesis by (simp add: CGet Some)
    qed
  qed
qed

text \<open>
  C12. The commit cache, with its map, its list and its elements, behaves as an abstract LRU
  list bounded by 10,000 entries, for every sequence of updates and lookups: its map and list
  agree, lookups answer from the abstract list, and the timestamp of the last update of a key
  is still found as long as fewer than 10,000 other keys were used since.
\<close>

theorem commit_cache_is_bounded_lru:
  fixes ops ops' :: "cache_op list"
  assumes "card (op_key ` set ops') < maxLastCommitCacheEntries" "key \<notin> op_key ` set ops'"
  defines "c \<equiv> fold cc_step ops new_commit_cache"
  shows "cc_inv c \<and> cc_list c = fold lru_step ops [] \<and> length (cc_lru c) \<le> maxLastCommitCacheEntries \<and>
    fst (getLastCommitCache k c) = map_of (fold lru_step ops []) k \<and>
    fst (getLastCommitCache key (fold cc_step ops' (updateLastCommitCache key ts c))) = Some ts"
proof -
  have nl: "cc_list new_commit_cache = []" by (simp add: cc_list_def new_commit_cache_def)
  have c: "cc_inv c" "cc_list c = fold lru_step ops []"
    using cc_run [OF cc_inv_new, of ops] by (simp_all add: c_def nl)
  let ?u = "updateLastCommitCache key ts c"
  have u: "cc_inv ?u" "cc_list ?u = take maxLastCommitCacheEntries (lru_touch key ts (cc_list c))"
    using update_refines [OF c(1)] by auto
  then have l: "cc_list ?u = [] @ (key, ts) # take (maxLastCommitCacheEntries - 1) (filter (\<lambda>p. fst p \<noteq> key) (cc_list c))"
    by (simp add: lru_touch_def maxLastCommitCacheEntries_def)
  have d: "distinct (map fst (cc_list ?u))" using u(1) by (simp add: cc_inv_def)
  have "map_of (fold lru_step ops' (cc_list ?u)) key = Some ts"
    by (rule lru_keeps [OF _ assms(1) _ assms(2) l _ d]) auto
  moreover note r = cc_run [OF u(1), of ops']
  ultimately have "fst (getLastCommitCache key (fold cc_step ops' ?u)) = Some ts"
    using get_refines [of "fold cc_step ops' ?u" key] by simp
  moreover have "length (cc_lru c) \<le> maxLastCommitCacheEntries" using c(1) by (simp add: cc_inv_def)
  ultimately show ?thesis using c get_refines [OF c(1), of k] by simp
qed

theorem commit_cache_is_bounded_lru_witness:
  "fst (getLastCommitCache [1] (fold cc_step [CGet [2], CUpdate [3] 9]
     (updateLastCommitCache [1] 7 (fold cc_step [CUpdate [1] 5] new_commit_cache)))) = Some 7"
  using commit_cache_is_bounded_lru [of "[CGet [2], CUpdate [3] 9]" "[1]" "[CUpdate [1] 5]" "[1]" 7]
  by (simp add: maxLastCommitCacheEntries_def)

section \<open>Where the cache misleads the conflict check\<close>

text \<open>
  The cache keeps the timestamp of the last update, not the newest one: two commits of one key
  whose updates arrive in the opposite order leave the older timestamp.
\<close>

theorem cache_keeps_last_not_newest:
  "fst (getLastCommitCache [1] (updateLastCommitCache [1] 5 (updateLastCommitCache [1] 6 new_commit_cache))) = Some 5"
  by (simp add: getLastCommitCache_def cc_find_def cc_promote_def updateLastCommitCache_def new_commit_cache_def
      cc_evict.simps MoveToFront_def maxLastCommitCacheEntries_def)

text \<open>
  Between the two critical sections of a lookup the entry may be evicted and inserted again;
  the lookup then still answers with the timestamp of the evicted element.
\<close>

theorem cache_lookup_race:
  assumes "cc_elem c el = Some (key, 5)" "el < cc_next c" "cc_map c key = None" "length (cc_lru c) < maxLastCommitCacheEntries"
  shows "fst (cc_promote key el (updateLastCommitCache key 6 c)) = 5"
  using assms by (simp add: updateLastCommitCache_def cc_promote_def Let_def cc_evict.simps)

end
