(* ===== verification/Snapshot.thy ===== *)
theory Snapshot
  imports Prelude "HOL-Library.AList" "HOL-Library.Multiset"
begin

text \<open>
  Models \<^verbatim>\<open>internal/engine/snapshot.go\<close>: the registry of active snapshots with one reference
  count per timestamp and the cached minimum that compaction uses as its watermark. The map
  is an association list, so that the loop over it in \<open>recomputeMinLocked\<close> has an order; the
  results do not depend on it. Every operation is one critical section.
\<close>

record snapshot_registry =
  sr_counts :: "(u64 \<times> int) list"
  sr_min :: u64

definition newSnapshotRegistry :: snapshot_registry where
  "newSnapshotRegistry = \<lparr>sr_counts = [], sr_min = 0\<rparr>"

definition sr_count :: "snapshot_registry \<Rightarrow> u64 \<Rightarrow> int" where
  "sr_count r ts = (case map_of (sr_counts r) ts of None \<Rightarrow> 0 | Some n \<Rightarrow> n)"

definition sr_Register :: "u64 \<Rightarrow> snapshot_registry \<Rightarrow> snapshot_registry" where
  "sr_Register snapshotTS r =
     (let r = r\<lparr>sr_counts := AList.update snapshotTS (sr_count r snapshotTS + 1) (sr_counts r)\<rparr>
      in if sr_min r = 0 \<or> snapshotTS < sr_min r then r\<lparr>sr_min := snapshotTS\<rparr> else r)"

fun min_loop :: "u64 list \<Rightarrow> u64 \<Rightarrow> bool \<Rightarrow> u64" where
  "min_loop [] newMin first = newMin"
| "min_loop (ts # rest) newMin first =
     (if first \<or> ts < newMin then min_loop rest ts False else min_loop rest newMin first)"

definition recomputeMinLocked :: "snapshot_registry \<Rightarrow> snapshot_registry" where
  "recomputeMinLocked r =
     (if sr_counts r = [] then r\<lparr>sr_min := 0\<rparr>
      else r\<lparr>sr_min := min_loop (map fst (sr_counts r)) 0 True\<rparr>)"

definition sr_Unregister :: "u64 \<Rightarrow> snapshot_registry \<Rightarrow> snapshot_registry" where
  "sr_Unregister snapshotTS r =
     (case map_of (sr_counts r) snapshotTS of
        None \<Rightarrow> r
      | Some n \<Rightarrow>
          recomputeMinLocked
            (if n > 1 then r\<lparr>sr_counts := AList.update snapshotTS (n - 1) (sr_counts r)\<rparr>
             else r\<lparr>sr_counts := AList.delete snapshotTS (sr_counts r)\<rparr>))"

definition sr_Min :: "snapshot_registry \<Rightarrow> u64" where
  "sr_Min r = sr_min r"

section \<open>The registry is the multiset of active snapshots\<close>

datatype snap_op = SReg u64 | SUnreg u64

primrec sr_step :: "snap_op \<Rightarrow> snapshot_registry \<Rightarrow> snapshot_registry" where
  "sr_step (SReg ts) r = sr_Register ts r"
| "sr_step (SUnreg ts) r = sr_Unregister ts r"

primrec active_step :: "snap_op \<Rightarrow> u64 multiset \<Rightarrow> u64 multiset" where
  "active_step (SReg ts) M = add_mset ts M"
| "active_step (SUnreg ts) M = M - {#ts#}"

primrec snap_ts :: "snap_op \<Rightarrow> u64" where
  "snap_ts (SReg ts) = ts"
| "snap_ts (SUnreg ts) = ts"

definition sr_counts_ok :: "snapshot_registry \<Rightarrow> u64 multiset \<Rightarrow> bool" where
  "sr_counts_ok r M \<longleftrightarrow> distinct (map fst (sr_counts r)) \<and>
     map_of (sr_counts r) = (\<lambda>ts. if ts \<in># M then Some (int (count M ts)) else None)"

definition watermark :: "u64 multiset \<Rightarrow> u64" where
  "watermark M = (if M = {#} then 0 else Min (set_mset M))"

definition sr_rep :: "snapshot_registry \<Rightarrow> u64 multiset \<Rightarrow> bool" where
  "sr_rep r M \<longleftrightarrow> sr_counts_ok r M \<and> sr_min r = watermark M"

lemma sr_counts_dom: "sr_counts_ok r M \<Longrightarrow> fst ` set (sr_counts r) = set_mset M"
  by (auto simp: sr_counts_ok_def dom_map_of_conv_image_fst [symmetric] dom_def split: if_splits)

lemma sr_count_eq: "sr_counts_ok r M \<Longrightarrow> sr_count r ts = int (count M ts)"
  by (simp add: sr_count_def sr_counts_ok_def not_in_iff)

lemma min_loop_Min:
  "min_loop xs m False = (if xs = [] then m else min m (Min (set xs)))"
proof (induction xs arbitrary: m)
  case (Cons x xs)
  then show ?case by (cases "xs = []") (auto simp: min_def)
qed simp

lemma recompute_min: "sr_counts_ok r M \<Longrightarrow> sr_rep (recomputeMinLocked r) M"
proof -
  assume ok: "sr_counts_ok r M"
  note dom = sr_counts_dom [OF ok]
  have ok': "sr_counts_ok (recomputeMinLocked r) M"
    using ok by (cases "sr_counts r = []") (simp_all add: sr_counts_ok_def recomputeMinLocked_def)
  show ?thesis
  proof (cases "sr_counts r")
    case Nil
    then have "M = {#}" using dom by (metis image_empty list.set(1) set_mset_eq_empty_iff)
    then show ?thesis using Nil ok' by (simp add: sr_rep_def recomputeMinLocked_def watermark_def)
  next
    case (Cons p ps)
    have ne: "M \<noteq> {#}" using dom Cons by auto
    have "Min (set_mset M) = min_loop (map fst (sr_counts r)) 0 True"
      unfolding dom [symmetric] by (simp add: Cons min_loop_Min)
    then show ?thesis using ne ok' Cons by (simp add: sr_rep_def recomputeMinLocked_def watermark_def)
  qed
qed

lemma sr_step_rep:
  assumes rep: "sr_rep r M" and nz: "snap_ts op \<noteq> 0" "0 \<notin># M"
  shows "sr_rep (sr_step op r) (active_step op M)"
proof -
  have ok: "sr_counts_ok r M" and mn: "sr_min r = watermark M" using rep by (auto simp: sr_rep_def)
  note cnt = sr_count_eq [OF ok]
  show ?thesis
  proof (cases op)
    case (SReg ts)
    have ok': "sr_counts_ok (r\<lparr>sr_counts := AList.update ts (sr_count r ts + 1) (sr_counts r)\<rparr>) (add_mset ts M)"
      using ok cnt [of ts] by (auto simp: sr_counts_ok_def update_conv' distinct_update fun_eq_iff)
    have "watermark (add_mset ts M) = (if sr_min r = 0 \<or> ts < sr_min r then ts else sr_min r)"
    proof (cases "M = {#}")
      case False
      then have "Min (set_mset M) \<in># M" by simp
      then have "sr_min r \<noteq> 0" using nz(2) mn False by (metis watermark_def)
      moreover have "sr_min r = Min (set_mset M)" using mn False by (simp add: watermark_def)
      moreover have "Min (set_mset (add_mset ts M)) = min ts (Min (set_mset M))" using False by simp
      ultimately show ?thesis by (auto simp: watermark_def min_def not_less not_le)
    qed (use mn in \<open>simp add: watermark_def\<close>)
    then show ?thesis
      using ok' by (simp add: SReg sr_Register_def Let_def sr_rep_def sr_counts_ok_def)
  next
    case (SUnreg ts)
    show ?thesis
    proof (cases "map_of (sr_counts r) ts")
      case None
      then have "ts \<notin># M" using ok by (auto simp: sr_counts_ok_def split: if_splits)
      then show ?thesis using rep None by (simp add: SUnreg sr_Unregister_def)
    next
      case (Some n)
      then have n: "n = int (count M ts)" "ts \<in># M" using ok by (auto simp: sr_counts_ok_def split: if_splits)
      have "sr_counts_ok (if n > 1 then r\<lparr>sr_counts := AList.update ts (n - 1) (sr_counts r)\<rparr>
             else r\<lparr>sr_counts := AList.delete ts (sr_counts r)\<rparr>) (M - {#ts#})"
        using ok n
        by (auto simp: sr_counts_ok_def update_conv' distinct_update delete_conv' distinct_delete fun_eq_iff in_diff_count)
      then show ?thesis using Some by (simp add: SUnreg sr_Unregister_def recompute_min)
    qed
  qed
qed


text \<open>
  C13. The watermark of compaction is the oldest active snapshot. After any sequence of
  registrations and releases at timestamps other than 0, where releases without a matching
  registration are ignored, the reference counts are those of the multiset of active
  snapshots, and \<open>Min\<close> is its least element, or 0 exactly when none is active.
\<close>

theorem watermark_is_oldest_active:
  assumes "\<forall>op \<in> set ops. snap_ts op \<noteq> 0"
  defines "r \<equiv> fold sr_step ops newSnapshotRegistry" and "M \<equiv> fold active_step ops {#}"
  shows "(\<forall>ts. sr_count r ts = int (count M ts)) \<and> sr_Min r = (if M = {#} then 0 else Min (set_mset M)) \<and>
    (sr_Min r = 0 \<longleftrightarrow> M = {#})"
proof -
  have "sr_rep (fold sr_step ops r0) (fold active_step ops M0) \<and> 0 \<notin># fold active_step ops M0"
    if "sr_rep r0 M0" "0 \<notin># M0" for r0 M0
    using assms(1) that
  proof (induction ops arbitrary: r0 M0)
    case (Cons op ops)
    have "sr_rep (sr_step op r0) (active_step op M0)"
      by (rule sr_step_rep) (use Cons.prems in auto)
    moreover have "0 \<notin># active_step op M0" using Cons.prems by (cases op) (auto dest: in_diffD)
    ultimately show ?case using Cons by simp
  qed simp
  moreover have "sr_rep newSnapshotRegistry {#}"
    by (simp add: sr_rep_def sr_counts_ok_def newSnapshotRegistry_def watermark_def)
  ultimately have r: "sr_rep r M" "0 \<notin># M" unfolding r_def M_def by auto
  have "Min (set_mset M) \<noteq> 0" if "M \<noteq> {#}"
    using r(2) that Min_in [of "set_mset M"] by (metis finite_set_mset set_mset_eq_empty_iff)
  then show ?thesis
    using r(1) sr_count_eq [of r M] by (auto simp: sr_rep_def sr_Min_def watermark_def)
qed

theorem watermark_is_oldest_active_witness:
  "sr_Min (fold sr_step [SReg 7, SReg 5, SReg 5, SUnreg 5, SUnreg 9] newSnapshotRegistry) = 5"
  using watermark_is_oldest_active [of "[SReg 7, SReg 5, SReg 5, SUnreg 5, SUnreg 9]"] by simp

text \<open>
  A snapshot registered at timestamp 0 makes the minimum look like "none active": the next
  registration raises the watermark above snapshots that are still active.
\<close>

theorem snapshot_zero_raises_watermark:
  "sr_Min (fold sr_step [SReg 5, SReg 0, SReg 7] newSnapshotRegistry) = 7"
  by (simp add: newSnapshotRegistry_def sr_Register_def sr_count_def sr_Min_def)

end
