(* ===== verification/UnifiedMmap.thy ===== *)
theory UnifiedMmap
  imports Wal ValuePointer
begin

text \<open>
  Models \<^verbatim>\<open>internal/engine/unified_mmap.go\<close>: the memory-mapped append buffer that holds the large
  values. \<open>um_data\<close> is the mapped region, its length the map size, and \<open>um_head\<close> the write
  offset. The fields of an entry are written one behind the other, which is one copy here; the
  offsets stay below \<^verbatim>\<open>2^63\<close> and are natural numbers. Whether the file can be extended and
  remapped is an argument of a write.
\<close>

datatype um_error = UmExtend | UmRange | UmTruncated | UmCrc | UmPanic

definition UnifiedMmapSize :: nat where "UnifiedMmapSize = 256 * 1024 * 1024"
definition UnifiedMmapExtendSize :: nat where "UnifiedMmapExtendSize = 256 * 1024 * 1024"

record unified_mmap =
  um_data :: bytes
  um_head :: nat
  um_closed :: bool

definition OpenUnifiedMmap :: "bytes \<Rightarrow> unified_mmap" where
  "OpenUnifiedMmap file =
     (if file = [] then \<lparr>um_data = replicate UnifiedMmapSize 0, um_head = 0, um_closed = False\<rparr>
      else \<lparr>um_data = file, um_head = length file, um_closed = False\<rparr>)"

definition extendMmap :: "bool \<Rightarrow> nat \<Rightarrow> unified_mmap \<Rightarrow> bool \<times> unified_mmap" where
  "extendMmap ext_ok neededSize um =
     (let newMmapSize = neededSize;
          remainder = newMmapSize mod UnifiedMmapExtendSize;
          newMmapSize = (if remainder \<noteq> 0 then newMmapSize + (UnifiedMmapExtendSize - remainder) else newMmapSize)
      in if \<not> ext_ok then (False, um)
         else (True, um\<lparr>um_data := take newMmapSize (um_data um) @
                          replicate (newMmapSize - length (um_data um)) 0\<rparr>))"

definition um_WriteEntry ::
    "bool \<Rightarrow> u8 \<Rightarrow> bytes \<Rightarrow> bytes \<Rightarrow> u64 \<Rightarrow> unified_mmap \<Rightarrow> (um_error + nat) \<times> unified_mmap" where
  "um_WriteEntry ext_ok opc key val timestamp um =
     (let keyLen = length key;
          valLen = length val;
          totalSize = 1 + 1 + 8 + 2 + 4 + keyLen + valLen + 4;
          offset = um_head um;
          um = um\<lparr>um_head := um_head um + totalSize\<rparr>;
          (ok, um) = (if offset + totalSize > length (um_data um) then extendMmap ext_ok (offset + totalSize) um
                      else (True, um)) in
      if \<not> ok then (Inl UmExtend, um)
      else if um_closed um then (Inl UmPanic, um)
      else
        let flags = (if valLen = ValuePointerSize then 0 OR walFlagIsLarge else 0);
            body = [opc, flags] @ put_be64 timestamp @ put_be16 (word_of_nat keyLen) @
                   put_be32 (word_of_nat valLen) @ key @ val;
            crc = crc32_ieee body
        in (Inr (offset + (1 + 1 + 8 + 2 + 4 + keyLen)),
            um\<lparr>um_data := copy_at offset (body @ put_be32 crc) (um_data um)\<rparr>))"

text \<open>
  \<open>Close\<close> sets the slice to nil and leaves \<^verbatim>\<open>mmapSize\<close>: the range checks of the readers still pass
  afterwards, and slicing panics unless the bounds are 0.
\<close>

definition um_slice :: "unified_mmap \<Rightarrow> bytes" where
  "um_slice um = (if um_closed um then [] else um_data um)"

definition um_ReadValue :: "u64 \<Rightarrow> u32 \<Rightarrow> unified_mmap \<Rightarrow> um_error + bytes" where
  "um_ReadValue valueOffset valueSize um =
     (if sint valueOffset + sint valueSize > int (length (um_data um)) then Inl UmRange
      else
        let hi = valueOffset + scast valueSize in
        if valueOffset \<le> hi \<and> unat hi \<le> length (um_slice um)
        then Inr (subslice (unat valueOffset) (unat hi) (um_slice um))
        else Inl UmPanic)"

definition um_ReadEntry :: "nat \<Rightarrow> unified_mmap \<Rightarrow> um_error + wal_entry" where
  "um_ReadEntry offset um =
     (if offset + 16 > length (um_data um) then Inl UmRange
      else if um_closed um then Inl UmPanic
      else
        let d = drop offset (um_data um);
            opc = d ! 0;
            flags = d ! 1;
            timestamp = get_be64 (drop 2 d);
            keyLen = unat (get_be16 (drop 10 d));
            valLen = unat (get_be32 (drop 12 d));
            pos = 16 in
        if pos + keyLen + valLen + 4 > length d then Inl UmTruncated
        else
          let key = subslice pos (pos + keyLen) d; pos = pos + keyLen;
              val = subslice pos (pos + valLen) d; pos = pos + valLen;
              crcStored = get_be32 (drop pos d) in
          if crc32_ieee (take pos d) \<noteq> crcStored then Inl UmCrc
          else Inr \<lparr>we_Op = opc, we_Key = key, we_Value = val, we_Timestamp = timestamp,
                    we_IsLarge = (flags AND walFlagIsLarge \<noteq> 0)\<rparr>)"

definition um_Size :: "unified_mmap \<Rightarrow> nat" where
  "um_Size um = um_head um"

text \<open>
  \<open>Close\<close> syncs and unmaps; what is on disk afterwards is the region, followed by zeros when an
  extension enlarged the file and could not map it.
\<close>

definition um_Close :: "unified_mmap \<Rightarrow> unified_mmap" where
  "um_Close um = (if um_closed um then um else um\<lparr>um_closed := True\<rparr>)"

section \<open>Entries stay where they are\<close>

definition um_entry :: "u8 \<Rightarrow> bytes \<Rightarrow> bytes \<Rightarrow> u64 \<Rightarrow> wal_entry" where
  "um_entry opc key val ts =
     \<lparr>we_Op = opc, we_Key = key, we_Value = val, we_Timestamp = ts, we_IsLarge = (length val = ValuePointerSize)\<rparr>"

text \<open>The entries known to be in the region, by offset.\<close>

definition um_rep :: "unified_mmap \<Rightarrow> (nat \<times> wal_entry) set \<Rightarrow> bool" where
  "um_rep um E \<longleftrightarrow> \<not> um_closed um \<and>
     (\<forall>(off, e) \<in> E. off + wal_size e \<le> um_head um \<and> off + wal_size e \<le> length (um_data um) \<and>
        subslice off (off + wal_size e) (um_data um) = wal_enc e)"

lemma extend_keeps:
  assumes "extendMmap ext_ok n um = (ok, um')" "length (um_data um) < n"
  shows "um_head um' = um_head um" "um_closed um' = um_closed um" "ok = ext_ok"
    "\<exists>z. um_data um' = um_data um @ z" "ok \<Longrightarrow> n \<le> length (um_data um')"
proof -
  let ?new = "if n mod UnifiedMmapExtendSize \<noteq> 0 then n + (UnifiedMmapExtendSize - n mod UnifiedMmapExtendSize) else n"
  have ge: "n \<le> ?new" by simp
  have e: "(ok, um') = (if \<not> ext_ok then (False, um) else
      (True, um\<lparr>um_data := take ?new (um_data um) @ replicate (?new - length (um_data um)) 0\<rparr>))"
    using assms(1) by (simp add: extendMmap_def Let_def split: if_splits)
  show "um_head um' = um_head um" "um_closed um' = um_closed um" "ok = ext_ok"
    using e by (simp_all split: if_splits)
  show "\<exists>z. um_data um' = um_data um @ z" "ok \<Longrightarrow> n \<le> length (um_data um')"
    using e assms(2) ge by (auto split: if_splits)
qed

lemma um_write_rep:
  assumes rep: "um_rep um E" and w: "um_WriteEntry ext_ok opc key val ts um = (res, um')"
  shows "case res of Inl err \<Rightarrow> err = UmExtend \<and> \<not> ext_ok \<and> um_rep um' E
    | Inr off \<Rightarrow> off = um_head um + 16 + length key \<and> um_rep um' (insert (um_head um, um_entry opc key val ts) E)"
proof -
  let ?e = "um_entry opc key val ts" let ?o = "um_head um" let ?t = "wal_size ?e"
  have t: "1 + 1 + 8 + 2 + 4 + length key + length val + 4 = ?t" by (simp add: wal_size_def um_entry_def)
  let ?u = "um\<lparr>um_head := ?o + ?t\<rparr>"
  obtain ok um1 where g: "(if ?o + ?t > length (um_data ?u) then extendMmap ext_ok (?o + ?t) ?u else (True, ?u)) = (ok, um1)"
    by (metis surj_pair)
  have g1: "um_head um1 = ?o + ?t" "um_closed um1 = um_closed um" "\<exists>z. um_data um1 = um_data um @ z"
    "ok \<Longrightarrow> ?o + ?t \<le> length (um_data um1)" "\<not> ok \<Longrightarrow> \<not> ext_ok"
    using g extend_keeps [of ext_ok "?o + ?t" ?u ok um1] by (auto split: if_splits)
  have rep1: "um_rep um1 E"
  proof -
    obtain z where z: "um_data um1 = um_data um @ z" using g1(3) by blast
    show ?thesis
      using rep g1(1,2) by (fastforce simp: um_rep_def z subslice_append_left)
  qed
  have body: "[opc, if length val = ValuePointerSize then 0 OR walFlagIsLarge else 0] @ put_be64 ts @
      put_be16 (word_of_nat (length key)) @ put_be32 (word_of_nat (length val)) @ key @ val = wal_body ?e"
    by (simp add: wal_body_def um_entry_def walFlagIsLarge_def)
  have res: "(res, um') = (if \<not> ok then (Inl UmExtend, um1) else if um_closed um1 then (Inl UmPanic, um1)
      else (Inr (?o + (1 + 1 + 8 + 2 + 4 + length key)), um1\<lparr>um_data := copy_at ?o (wal_enc ?e) (um_data um1)\<rparr>))"
    using w unfolding um_WriteEntry_def Let_def t g body prod.case by (simp only: wal_enc_def)
  show ?thesis
  proof (cases ok)
    case False
    then show ?thesis using res rep1 g1(5) by simp
  next
    case True
    have r: "res = Inr (?o + 16 + length key)" "um' = um1\<lparr>um_data := copy_at ?o (wal_enc ?e) (um_data um1)\<rparr>"
      using res True rep g1(2) by (auto simp: um_rep_def)
    have fit: "?o + length (wal_enc ?e) \<le> length (um_data um1)" using g1(4) [OF True] by simp
    have new: "subslice ?o (?o + ?t) (um_data um') = wal_enc ?e"
      using subslice_copy_at [OF fit] by (simp add: r(2))
    have old: "subslice off (off + wal_size e) (um_data um') = wal_enc e" if "(off, e) \<in> E" for off e
    proof -
      have "off + wal_size e \<le> ?o" using rep that by (auto simp: um_rep_def)
      then have "subslice off (off + wal_size e) (um_data um') = subslice off (off + wal_size e) (um_data um1)"
        using subslice_copy_at_before [OF fit] by (simp add: r(2))
      then show ?thesis using rep1 that by (auto simp: um_rep_def)
    qed
    have "um_rep um' (insert (?o, ?e) E)"
      using rep1 g1(1) fit new old by (auto simp: um_rep_def r(2))
    then show ?thesis using r(1) by simp
  qed
qed

definition um_fits :: "wal_entry \<Rightarrow> bool" where
  "um_fits e \<longleftrightarrow> length (we_Key e) < 2 ^ 16 \<and> length (we_Value e) < 2 ^ 31"

lemma subslice_drop_prefix:
  assumes "subslice off (off + n) d = x" "off + n \<le> length d"
  shows "\<exists>r. drop off d = x @ r"
  using assms by (metis append_take_drop_id diff_add_inverse subslice_def)

lemma drop_step: "drop n d = x @ y \<Longrightarrow> length x = m \<Longrightarrow> drop (n + m) d = y"
  by (metis add.commute append_eq_conv_conj drop_drop)

lemma um_read_entry:
  assumes rep: "um_rep um E" and e: "(off, e) \<in> E" and fits: "um_fits e"
    and large: "we_IsLarge e = (length (we_Value e) = ValuePointerSize)"
  shows "um_ReadEntry off um = Inr e"
proof -
  let ?k = "length (we_Key e)" let ?v = "length (we_Value e)"
  have o: "off + wal_size e \<le> length (um_data um)" "subslice off (off + wal_size e) (um_data um) = wal_enc e"
    using rep e by (auto simp: um_rep_def)
  obtain r where d: "drop off (um_data um) = wal_enc e @ r" using subslice_drop_prefix [OF o(2,1)] by blast
  let ?fl = "if we_IsLarge e then 1 else 0 :: u8"
  let ?r1 = "put_be32 (crc32_ieee (wal_body e)) @ r"
  have d': "drop off (um_data um) = we_Op e # ?fl # put_be64 (we_Timestamp e) @ put_be16 (word_of_nat ?k) @
      put_be32 (word_of_nat ?v) @ we_Key e @ we_Value e @ ?r1"
    by (simp add: d wal_enc_def wal_body_def)
  let ?d = "drop off (um_data um)"
  have f: "?d ! 0 = we_Op e" "?d ! 1 = ?fl" by (simp_all add: d')
  have d2: "drop 2 ?d = put_be64 (we_Timestamp e) @ put_be16 (word_of_nat ?k) @ put_be32 (word_of_nat ?v) @
      we_Key e @ we_Value e @ ?r1" unfolding d' by (simp add: numeral_2_eq_2)
  have d10: "drop 10 ?d = put_be16 (word_of_nat ?k) @ put_be32 (word_of_nat ?v) @ we_Key e @ we_Value e @ ?r1"
    using arg_cong [OF d2, of "drop 8"] by (simp add: drop_drop)
  have d12: "drop 12 ?d = put_be32 (word_of_nat ?v) @ we_Key e @ we_Value e @ ?r1"
    using arg_cong [OF d10, of "drop 2"] by (simp add: drop_drop)
  have d16: "drop 16 ?d = we_Key e @ we_Value e @ ?r1"
    using arg_cong [OF d12, of "drop 4"] by (simp add: drop_drop)
  have d16k: "drop (16 + ?k) ?d = we_Value e @ ?r1"
    by (rule drop_step [OF d16 refl])
  have d16kv: "drop (16 + ?k + ?v) ?d = ?r1"
    by (rule drop_step [OF d16k refl])
  have lens: "unat (get_be16 (drop 10 ?d)) = ?k" "unat (get_be32 (drop 12 ?d)) = ?v"
    unfolding d10 d12 using fits by (simp_all add: um_fits_def codec_simps)
  have sl: "subslice 16 (16 + ?k) ?d = we_Key e" "subslice (16 + ?k) (16 + ?k + ?v) ?d = we_Value e"
    unfolding subslice_def using d16 d16k by simp_all
  have tk: "take (16 + ?k + ?v) ?d = wal_body e"
    unfolding d wal_enc_def by (simp add: length_wal_body)
  have ts: "get_be64 (drop 2 ?d) = we_Timestamp e" unfolding d2 by (simp add: codec_simps)
  have cr: "get_be32 (drop (16 + ?k + ?v) ?d) = crc32_ieee (wal_body e)" unfolding d16kv by (simp add: codec_simps)
  have open': "um_slice um = um_data um" "\<not> um_closed um" using rep by (simp_all add: um_slice_def um_rep_def)
  have len: "\<not> off + 16 > length (um_data um)" "\<not> 16 + ?k + ?v + 4 > length ?d"
    using o(1) by (simp_all add: wal_size_def)
  have flag: "(?fl AND walFlagIsLarge \<noteq> 0) = we_IsLarge e" by (simp add: walFlagIsLarge_def)
  show ?thesis
    by (simp only: um_ReadEntry_def Let_def open'(2) len lens f ts sl tk cr flag if_False simp_thms) simp
qed

lemma um_read_value:
  assumes rep: "um_rep um E" and e: "(off, e) \<in> E" and fits: "um_fits e"
    and small: "length (um_data um) < 2 ^ 63"
  shows "um_ReadValue (word_of_nat (off + 16 + length (we_Key e))) (word_of_nat (length (we_Value e))) um = Inr (we_Value e)"
proof -
  let ?k = "length (we_Key e)" let ?v = "length (we_Value e)" let ?d = "um_data um"
  let ?o = "off + 16 + ?k"
  have o: "off + wal_size e \<le> length ?d" "subslice off (off + wal_size e) ?d = wal_enc e"
    using rep e by (auto simp: um_rep_def)
  have le: "?o + ?v \<le> length ?d" using o(1) by (simp add: wal_size_def)
  obtain r where d: "drop off ?d = wal_enc e @ r" using subslice_drop_prefix [OF o(2,1)] by blast
  let ?h = "(if we_IsLarge e then [we_Op e, 1] else [we_Op e, 0]) @ put_be64 (we_Timestamp e) @
    put_be16 (word_of_nat ?k) @ put_be32 (word_of_nat ?v) @ we_Key e"
  have "drop off ?d = ?h @ we_Value e @ put_be32 (crc32_ieee (wal_body e)) @ r"
    by (simp add: d wal_enc_def wal_body_def)
  from drop_step [OF this, of "16 + ?k"] have "drop ?o ?d = we_Value e @ put_be32 (crc32_ieee (wal_body e)) @ r"
    by (simp add: ac_simps)
  then have v: "subslice ?o (?o + ?v) ?d = we_Value e" by (simp add: subslice_def)
  have uns: "unat (word_of_nat k :: u64) = k" if "k \<le> length ?d" for k
    using that small by (intro unat_of_nat_small) simp
  have s1: "sint (word_of_nat ?o :: u64) = int ?o"
    using le small by (simp add: signed_of_nat signed_take_bit_int_eq_self del: of_nat_add)
  have v31: "?v < 2 ^ 31" using fits by (simp add: um_fits_def)
  then have s2: "sint (word_of_nat ?v :: u32) = int ?v"
    by (simp add: signed_of_nat signed_take_bit_int_eq_self)
  then have sc: "scast (word_of_nat ?v :: u32) = (word_of_nat ?v :: u64)"
    by (metis of_int_of_nat_eq of_int_sint)
  have hi: "word_of_nat ?o + word_of_nat ?v = (word_of_nat (?o + ?v) :: u64)" by simp
  have u: "unat (word_of_nat (?o + ?v) :: u64) = ?o + ?v" "unat (word_of_nat ?o :: u64) = ?o"
    using uns [of "?o + ?v"] uns [of ?o] le by (simp_all del: of_nat_add)
  have ge: "(word_of_nat ?o :: u64) \<le> word_of_nat (?o + ?v)" unfolding word_le_nat_alt u by simp
  have open': "um_slice um = um_data um" using rep by (simp add: um_slice_def um_rep_def)
  have nr: "\<not> int ?o + int ?v > int (length ?d)" using le by linarith
  show ?thesis
    unfolding um_ReadValue_def Let_def open' s1 s2 sc hi u using ge nr le v by (simp only: if_False if_True simp_thms)
qed

section \<open>Sessions\<close>

type_synonym um_write = "bool \<times> u8 \<times> bytes \<times> bytes \<times> u64"

fun um_run :: "um_write list \<Rightarrow> unified_mmap \<Rightarrow> ((um_error + nat) \<times> wal_entry) list \<times> unified_mmap" where
  "um_run [] um = ([], um)"
| "um_run ((ext_ok, opc, key, val, ts) # ws) um =
     (let (res, um) = um_WriteEntry ext_ok opc key val ts um;
          (rs, um) = um_run ws um
      in ((res, um_entry opc key val ts) # rs, um))"

lemma um_rep_mono: "um_rep um E \<Longrightarrow> E' \<subseteq> E \<Longrightarrow> um_rep um E'"
  by (auto simp: um_rep_def)

lemma um_run_rep:
  assumes "um_rep um E" "um_run ws um = (rs, um')"
  shows "\<exists>E'. E \<subseteq> E' \<and> um_rep um' E' \<and>
    (\<forall>off e. (Inr off, e) \<in> set rs \<longrightarrow> 16 + length (we_Key e) \<le> off \<and> (off - 16 - length (we_Key e), e) \<in> E')"
  using assms
proof (induction ws arbitrary: um E rs)
  case Nil
  then show ?case by auto
next
  case (Cons w ws)
  obtain ext_ok opc key val ts where w: "w = (ext_ok, opc, key, val, ts)" by (cases w)
  obtain res um1 where s: "um_WriteEntry ext_ok opc key val ts um = (res, um1)" by (metis surj_pair)
  obtain rs1 where r: "um_run ws um1 = (rs1, um')" "rs = (res, um_entry opc key val ts) # rs1"
    using Cons.prems(2) by (auto simp: w s split: prod.splits)
  note st = um_write_rep [OF Cons.prems(1) s]
  define E1 where "E1 = (case res of Inl err \<Rightarrow> E | Inr off \<Rightarrow> insert (um_head um, um_entry opc key val ts) E)"
  have rep1: "um_rep um1 E1" and sub: "E \<subseteq> E1" using st by (auto simp: E1_def split: sum.splits)
  from Cons.IH [OF rep1 r(1)] obtain E' where E': "E1 \<subseteq> E'" "um_rep um' E'"
    "\<forall>off e. (Inr off, e) \<in> set rs1 \<longrightarrow> 16 + length (we_Key e) \<le> off \<and> (off - 16 - length (we_Key e), e) \<in> E'"
    by (elim exE conjE) (rule that)
  have "16 + length (we_Key e) \<le> off \<and> (off - 16 - length (we_Key e), e) \<in> E'"
    if "(Inr off, e) = (res, um_entry opc key val ts)" for off e
    using that st E'(1) by (auto simp: E1_def um_entry_def)
  with E' sub show ?case unfolding r(2) by (intro exI [of _ E']) auto
qed

lemma um_run_flag:
  assumes "um_run ws um = (rs, um')" "(res, e) \<in> set rs"
  shows "we_IsLarge e = (length (we_Value e) = ValuePointerSize)"
  using assms
proof (induction ws arbitrary: um rs)
  case Nil
  then show ?case by simp
next
  case (Cons w ws)
  obtain ext_ok opc key val ts where w: "w = (ext_ok, opc, key, val, ts)" by (cases w)
  obtain res1 um1 where s: "um_WriteEntry ext_ok opc key val ts um = (res1, um1)" by (metis surj_pair)
  obtain rs1 where r: "um_run ws um1 = (rs1, um')" "rs = (res1, um_entry opc key val ts) # rs1"
    using Cons.prems(1) by (auto simp: w s split: prod.splits)
  show ?case
  proof (cases "(res, e) \<in> set rs1")
    case True
    then show ?thesis by (rule Cons.IH [OF r(1)])
  next
    case False
    then have "e = um_entry opc key val ts" using Cons.prems(2) by (simp add: r(2))
    then show ?thesis by (simp add: um_entry_def)
  qed
qed

text \<open>
  C15. A large value stays where its pointer says. For any sequence of writes to the buffer,
  where extending the file may fail (and may then leave \<open>k\<close> zero bytes in the file behind the
  mapped region), with keys below 64 KB and values below 2 GB in a region
  below \<^verbatim>\<open>2^63\<close> bytes: every write that returned an offset can be read back, at the end of the
  session and after reopening the file, by \<open>ReadValue\<close> with the returned offset, and
  \<open>ReadEntry\<close> decodes the entry in front of it with the fields that were written.
\<close>

theorem unified_mmap_values_stay_readable:
  assumes "um_run ws (OpenUnifiedMmap file) = (rs, um)" "(Inr off, e) \<in> set rs"
    and "length (we_Key e) < 2 ^ 16" "length (we_Value e) < 2 ^ 31" "length (um_data um) + k < 2 ^ 63"
    and "um' = um \<or> um' = OpenUnifiedMmap (um_data (um_Close um) @ replicate k 0)"
  shows "um_ReadValue (word_of_nat off) (word_of_nat (length (we_Value e))) um' = Inr (we_Value e) \<and>
    um_ReadEntry (off - 16 - length (we_Key e)) um' = Inr e"
proof -
  have "um_rep (OpenUnifiedMmap file) {}" by (simp add: um_rep_def OpenUnifiedMmap_def)
  from um_run_rep [OF this assms(1)] assms(2) obtain E where E: "um_rep um E"
    "16 + length (we_Key e) \<le> off" "(off - 16 - length (we_Key e), e) \<in> E"
    by (elim exE conjE allE [of _ off] allE [of _ e] impE)
  let ?o = "off - 16 - length (we_Key e)"
  have o: "?o + 16 + length (we_Key e) = off" using E(2) by simp
  have ne: "um_data um \<noteq> []" using E(1,3) by (auto simp: um_rep_def wal_size_def)
  have len: "?o + wal_size e \<le> length (um_data um)" using E(1,3) by (auto simp: um_rep_def)
  have same: "um_data um' = um_data um \<or> um_data um' = um_data um @ replicate k 0" "\<not> um_closed um'"
    "um_head um' = um_head um \<or> um_head um' = length (um_data um')"
    using assms(6) ne E(1) by (auto simp: OpenUnifiedMmap_def um_Close_def um_rep_def)
  then have rep: "um_rep um' {(?o, e)}" using E(1,3) len by (auto simp: um_rep_def subslice_append_left)
  have small: "length (um_data um') < 2 ^ 63" using same(1) assms(5) by auto
  have fits: "um_fits e" using assms(3,4) by (simp add: um_fits_def)
  have large: "we_IsLarge e = (length (we_Value e) = ValuePointerSize)"
    by (rule um_run_flag [OF assms(1,2)])
  show ?thesis
    using um_read_value [OF rep _ fits, of ?o] um_read_entry [OF rep _ fits large, of ?o] small
    unfolding o by simp
qed

lemma extend_first:
  assumes "0 < n" "n \<le> UnifiedMmapExtendSize" "length (um_data um) < n"
  shows "\<exists>um'. extendMmap True n um = (True, um') \<and> length (um_data um') = UnifiedMmapExtendSize \<and>
    um_closed um' = um_closed um"
proof -
  have new: "(if n mod UnifiedMmapExtendSize \<noteq> 0 then n + (UnifiedMmapExtendSize - n mod UnifiedMmapExtendSize) else n) =
    UnifiedMmapExtendSize"
    using assms(1,2) by (cases "n = UnifiedMmapExtendSize") auto
  show ?thesis unfolding extendMmap_def Let_def new using assms by simp
qed

lemma um_write_ok:
  assumes "\<not> um_closed um" "um_WriteEntry True opc key val ts um = (res, um')"
    and "length (um_data um) < um_head um + (20 + length key + length val)"
    and "um_head um + (20 + length key + length val) \<le> UnifiedMmapExtendSize"
  shows "res = Inr (um_head um + 16 + length key) \<and> length (um_data um') = UnifiedMmapExtendSize"
proof -
  have t: "1 + 1 + 8 + 2 + 4 + length key + length val + 4 = 20 + length key + length val" by simp
  let ?t = "20 + length key + length val"
  let ?n = "um_head um + ?t" and ?u = "um\<lparr>um_head := um_head um + ?t\<rparr>"
  obtain um1 where u1: "extendMmap True ?n ?u = (True, um1)" "length (um_data um1) = UnifiedMmapExtendSize"
    "\<not> um_closed um1"
    using extend_first [of ?n ?u] assms by auto
  have c: "um_head um + ?t > length (um_data ?u)" using assms(3) by simp
  have le: "um_head um \<le> UnifiedMmapExtendSize" using assms(4) by simp
  from assms(2) show ?thesis
    unfolding um_WriteEntry_def Let_def t if_P [OF c] u1(1) by (auto simp: u1 le)
qed

text \<open>One write of three bytes behind a file of one byte.\<close>

theorem unified_mmap_values_stay_readable_witness:
  "\<exists>um. um_run [(True, 1, [107], [1, 2, 3], 5)] (OpenUnifiedMmap [7]) =
      ([(Inr 18, um_entry 1 [107] [1, 2, 3] 5)], um) \<and>
    um_ReadValue 18 3 (OpenUnifiedMmap (um_data (um_Close um))) = Inr [1, 2, 3] \<and>
    um_ReadEntry 1 um = Inr (um_entry 1 [107] [1, 2, 3] 5)"
proof -
  let ?u = "OpenUnifiedMmap [7]" let ?e = "um_entry 1 [107] [1, 2, 3] 5"
  have u: "um_head ?u = 1" "\<not> um_closed ?u" "length (um_data ?u) = 1" by (simp_all add: OpenUnifiedMmap_def)
  obtain res um where s: "um_WriteEntry True 1 [107] [1, 2, 3] 5 ?u = (res, um)" by (metis surj_pair)
  have r: "res = Inr 18" "length (um_data um) = UnifiedMmapExtendSize"
    using um_write_ok [OF u(2) s] by (simp_all add: u UnifiedMmapExtendSize_def)
  have run: "um_run [(True, 1, [107], [1, 2, 3], 5)] ?u = ([(Inr 18, ?e)], um)" by (simp add: s r)
  have small: "length (um_data um) < 2 ^ 63" by (simp add: r UnifiedMmapExtendSize_def)
  have k: "length (we_Key ?e) = 1" "we_Value ?e = [1, 2, 3]" by (simp_all add: um_entry_def)
  have "um_ReadValue 18 3 (OpenUnifiedMmap (um_data (um_Close um))) = Inr [1, 2, 3]"
    using unified_mmap_values_stay_readable [OF run, of 18 ?e 0 "OpenUnifiedMmap (um_data (um_Close um))"] small
    by (simp add: k)
  moreover have "um_ReadEntry 1 um = Inr ?e"
    using unified_mmap_values_stay_readable [OF run, of 18 ?e 0 um] small by (simp add: k)
  ultimately show ?thesis using run by blast
qed

end
