(* ===== verification/LSM.thy ===== *)
theory LSM
  imports Shard CommitCache Snapshot UnifiedMmap
begin

text \<open>
  Models the operations of \<^verbatim>\<open>internal/engine/lsm.go\<close>: routing by hash, timestamps, puts, deletes,
  atomic batches, snapshot reads, the latest version of a key, conflict checks, opening and
  closing. The state is the record \<open>lsm\<close>; its shards carry the memtables and the logs, the table
  levels and the caches are shared. The outcomes of the system calls, the order in which Go
  ranges over the set of affected shards and the number of shards are parameters.
\<close>

datatype lsm_error =
  EClosed | EUnified um_error | EWal wal_error | EBatch batch_error | EVlog vlog_error | ESst sst_error
| EManifest mf_error | EShard shard_error

record lsm =
  e_shards :: "shard list"
  e_vlog :: vlog
  e_unified :: unified_mmap
  e_manifest :: manifest
  e_levels :: "reader list list"
  e_LastTS :: u64
  e_snapshots :: snapshot_registry
  e_closed :: bool
  e_cache :: commit_cache
  e_flushCh :: bool
  e_compactCh :: bool

section \<open>Routing and timestamps\<close>

text \<open>FNV-1a with a prime and an offset of its own.\<close>

definition hashKey :: "bytes \<Rightarrow> u64" where
  "hashKey key = fold (\<lambda>b h. (h XOR ucast b) * 1099511628211) key 1469598103934665603"

definition route :: "nat \<Rightarrow> bytes \<Rightarrow> nat" where
  "route n key = (if n = 0 then 0 else unat (hashKey key mod word_of_nat n))"

definition e_shardIndex :: "lsm \<Rightarrow> bytes \<Rightarrow> nat" where
  "e_shardIndex e key = route (length (e_shards e)) key"

definition DefaultShardCount :: "int \<Rightarrow> nat" where
  "DefaultShardCount maxprocs = (if maxprocs > 16 then 16 else if maxprocs < 1 then 1 else nat maxprocs)"

definition e_NextTimestamp :: "lsm \<Rightarrow> u64 \<times> lsm" where
  "e_NextTimestamp e = (let e = e\<lparr>e_LastTS := e_LastTS e + 1\<rparr> in (e_LastTS e, e))"

definition upd_shard :: "nat \<Rightarrow> (shard \<Rightarrow> shard) \<Rightarrow> lsm \<Rightarrow> lsm" where
  "upd_shard i f e = e\<lparr>e_shards := (e_shards e)[i := f (e_shards e ! i)]\<rparr>"

definition e_updateCache :: "bytes \<Rightarrow> u64 \<Rightarrow> lsm \<Rightarrow> lsm" where
  "e_updateCache key ts e = e\<lparr>e_cache := updateLastCommitCache key ts (e_cache e)\<rparr>"

definition e_RegisterSnapshot :: "u64 \<Rightarrow> lsm \<Rightarrow> lsm" where
  "e_RegisterSnapshot ts e = e\<lparr>e_snapshots := sr_Register ts (e_snapshots e)\<rparr>"

definition e_UnregisterSnapshot :: "u64 \<Rightarrow> lsm \<Rightarrow> lsm" where
  "e_UnregisterSnapshot ts e = e\<lparr>e_snapshots := sr_Unregister ts (e_snapshots e)\<rparr>"

definition e_GetMinActiveSnapshotTS :: "lsm \<Rightarrow> u64" where
  "e_GetMinActiveSnapshotTS e = sr_Min (e_snapshots e)"

definition e_SetMinActiveSnapshotTS :: "u64 \<Rightarrow> lsm \<Rightarrow> lsm" where
  "e_SetMinActiveSnapshotTS ts e = e_RegisterSnapshot ts e"

section \<open>Writes\<close>

text \<open>
  \<open>um_ok\<close>: whether the buffer of large values can be extended; \<open>io\<close>, \<open>sync_ok\<close>: the outcome of
  the log write.
\<close>

definition e_PutWithTS ::
    "bool \<Rightarrow> nat option \<Rightarrow> bool \<Rightarrow> bytes \<Rightarrow> bytes \<Rightarrow> u64 \<Rightarrow> lsm \<Rightarrow> lsm_error option \<times> lsm" where
  "e_PutWithTS um_ok io sync_ok key val commitTS e =
     (if e_closed e then (Some EClosed, e)
      else
        let isLarge = (length val > MaxInlineSize);
            (ur, um) = (if isLarge then um_WriteEntry um_ok OpPut key val commitTS (e_unified e)
                        else (Inr 0, e_unified e));
            e = e\<lparr>e_unified := um\<rparr> in
        case ur of
          Inl err \<Rightarrow> (Some (EUnified err), e)
        | Inr offset \<Rightarrow>
            let vp = \<lparr>vp_Offset = word_of_nat offset, vp_Size = word_of_nat (length val)\<rparr>;
                mvccKey = NewMVCCKey key commitTS;
                storedValue = (if isLarge then TypeValuePointer # EncodeValuePointer vp else TypeInline # val);
                i = e_shardIndex e key;
                (wr, w) = (if isLarge then (None, sh_wal (e_shards e ! i))
                           else wal_Write io sync_ok (put_entry key val commitTS) (sh_wal (e_shards e ! i)));
                e = upd_shard i (sh_wal_update (\<lambda>_. w)) e in
            case wr of
              Some err \<Rightarrow> (Some (EWal err), e)
            | None \<Rightarrow>
                let e = upd_shard i (sh_mem_update (\<lambda>m. snd (mem_put mvccKey (Some storedValue) m))) e;
                    e = upd_shard i (sh_memSize_update (\<lambda>n. n + int (length key + length val))) e
                in (None, e_updateCache key commitTS e))"

definition e_DeleteWithTS ::
    "nat option \<Rightarrow> bool \<Rightarrow> bytes \<Rightarrow> u64 \<Rightarrow> lsm \<Rightarrow> lsm_error option \<times> lsm" where
  "e_DeleteWithTS io sync_ok key commitTS e =
     (if e_closed e then (Some EClosed, e)
      else
        let i = e_shardIndex e key;
            (wr, w) = wal_Write io sync_ok (delete_entry key commitTS) (sh_wal (e_shards e ! i));
            e = upd_shard i (sh_wal_update (\<lambda>_. w)) e in
        case wr of
          Some err \<Rightarrow> (Some (EWal err), e)
        | None \<Rightarrow>
            let e = upd_shard i (sh_mem_update (\<lambda>m. snd (mem_delete_ts (NewMVCCKey key commitTS) m))) e;
                e = upd_shard i (sh_memSize_update (\<lambda>n. n - int (length key))) e
            in (None, e_updateCache key commitTS e))"

definition batch_entry :: "bytes \<Rightarrow> u64 \<Rightarrow> wal_entry" where
  "batch_entry d ts = \<lparr>we_Op = OpBatch, we_Key = [], we_Value = d, we_Timestamp = ts, we_IsLarge = False\<rparr>"

text \<open>The log writes of a batch, one per affected shard; the first failure ends the batch.\<close>

fun log_batch ::
    "(nat \<Rightarrow> nat option \<times> bool) \<Rightarrow> wal_entry \<Rightarrow> nat list \<Rightarrow> lsm \<Rightarrow> lsm_error option \<times> lsm" where
  "log_batch io entry [] e = (None, e)"
| "log_batch io entry (i # is) e =
     (let (wr, w) = wal_Write (fst (io i)) (snd (io i)) entry (sh_wal (e_shards e ! i));
          e = upd_shard i (sh_wal_update (\<lambda>_. w)) e in
      case wr of
        Some err \<Rightarrow> (Some (EWal err), e)
      | None \<Rightarrow> log_batch io entry is e)"

fun apply_batch :: "u64 \<Rightarrow> local_op list \<Rightarrow> lsm \<Rightarrow> lsm" where
  "apply_batch commitTS [] e = e"
| "apply_batch commitTS (op # ops) e =
     (let mvccKey = NewMVCCKey (lo_Key op) commitTS;
          i = e_shardIndex e (lo_Key op);
          e = (if lo_IsDelete op
               then upd_shard i (sh_mem_update (\<lambda>m. snd (mem_delete_ts mvccKey m))) e
               else upd_shard i (sh_mem_update
                      (\<lambda>m. snd (mem_put mvccKey (Some (tagStoredValue (Some (lo_Value op)))) m))) e)
      in apply_batch commitTS ops (e_updateCache (lo_Key op) commitTS e))"

text \<open>The sizes, summed per shard by the code and added at the end.\<close>

fun add_deltas :: "local_op list \<Rightarrow> lsm \<Rightarrow> lsm" where
  "add_deltas [] e = e"
| "add_deltas (op # ops) e =
     (let e = (if lo_IsDelete op then e
               else upd_shard (e_shardIndex e (lo_Key op))
                 (sh_memSize_update (\<lambda>n. n + int (length (lo_Key op) + length (lo_Value op)))) e)
      in add_deltas ops e)"

definition affected_shards :: "lsm \<Rightarrow> local_op list \<Rightarrow> nat list" where
  "affected_shards e ops = remdups (map (\<lambda>op. e_shardIndex e (lo_Key op)) ops)"

definition e_WriteAtomicBatch ::
    "(nat list \<Rightarrow> nat list) \<Rightarrow> (nat \<Rightarrow> nat option \<times> bool) \<Rightarrow> bytes \<Rightarrow> u64 \<Rightarrow> lsm \<Rightarrow> lsm_error option \<times> lsm" where
  "e_WriteAtomicBatch ord io d commitTS e =
     (if e_closed e then (Some EClosed, e)
      else
        case decodeBatchLocal d of
          Inl err \<Rightarrow> (Some (EBatch err), e)
        | Inr ops \<Rightarrow>
            (case log_batch io (batch_entry d commitTS) (ord (affected_shards e ops)) e of
               (Some err, e) \<Rightarrow> (Some err, e)
             | (None, e) \<Rightarrow> (None, add_deltas ops (apply_batch commitTS ops e))))"

section \<open>Reads\<close>

text \<open>A pointer is looked up in the buffer of large values first, then in the value log.\<close>

definition decodeStoredValue :: "lsm \<Rightarrow> bytes option \<Rightarrow> bool \<Rightarrow> lsm_error + bytes option" where
  "decodeStoredValue e stored fromSSTable =
     (case stored of
        None \<Rightarrow> Inr None
      | Some [] \<Rightarrow> Inr (Some [])
      | Some (b # rest) \<Rightarrow>
          let (tomb, isPtr, payload) =
                (if IsValidValueTag b then (b = TypeTombstone, b = TypeValuePointer, rest)
                 else (False, length (b # rest) = ValuePointerSize, b # rest)) in
          if tomb then Inr None
          else if isPtr then
            (case DecodeValuePointer payload of
               None \<Rightarrow> Inr (Some payload)
             | Some vp \<Rightarrow>
                 if unusable_pointer vp then Inr (Some payload)
                 else if sint (vp_Offset vp) < int (um_Size (e_unified e)) then
                   (case um_ReadValue (vp_Offset vp) (vp_Size vp) (e_unified e) of
                      Inl err \<Rightarrow> Inl (EUnified err)
                    | Inr val \<Rightarrow> Inr (Some val))
                 else if sint (vp_Offset vp + scast (vp_Size vp) + 8) \<le> int (vl_Size (e_vlog e)) then
                   (case vl_ReadDirect vp (e_vlog e) of
                      Inl err \<Rightarrow> Inl (EVlog err)
                    | Inr val \<Rightarrow> Inr (Some val))
                 else Inr (Some payload))
          else Inr (Some payload))"

text \<open>The first memtable that has a visible live version; frozen memtables are not searched.\<close>

fun get_memtables :: "bytes \<Rightarrow> u64 \<Rightarrow> mem list \<Rightarrow> bytes option option" where
  "get_memtables key ts [] = None"
| "get_memtables key ts (m # ms) =
     (case mem_get key ts m of (val, True) \<Rightarrow> Some val | (_, False) \<Rightarrow> get_memtables key ts ms)"

definition e_GetWithTS :: "bytes \<Rightarrow> u64 \<Rightarrow> lsm \<Rightarrow> lsm_error + bytes option" where
  "e_GetWithTS key snapshotTS e =
     (if e_closed e then Inl EClosed
      else
        case get_memtables key snapshotTS (map sh_mem (e_shards e)) of
          Some val \<Rightarrow> decodeStoredValue e val False
        | None \<Rightarrow>
            (case lookup_levels (NewMVCCKey key snapshotTS) (e_levels e) of
               Inl err \<Rightarrow> Inl (ESst err)
             | Inr (Some val) \<Rightarrow> decodeStoredValue e val True
             | Inr None \<Rightarrow> Inr None))"

definition mt_list :: "lsm \<Rightarrow> mem list" where
  "mt_list e = concat (map (\<lambda>s. sh_mem s # (case sh_frozen s of None \<Rightarrow> [] | Some m \<Rightarrow> [m])) (e_shards e))"

fun latest_memtables :: "bytes \<Rightarrow> mem list \<Rightarrow> (bytes option \<times> u64 \<times> bool) option" where
  "latest_memtables key [] = None"
| "latest_memtables key (m # ms) =
     (let (val, ts, found) = mem_get_latest key m in
      if ts = 0 then latest_memtables key ms else Some (val, ts, found))"

text \<open>The newest version of a key in a table, as an iteration over all of it finds it.\<close>

definition table_latest :: "bytes \<Rightarrow> (mvcc_key \<times> bytes) list \<Rightarrow> bytes \<times> u64" where
  "table_latest key kvs =
     fold (\<lambda>(k, v) (bestValue, bestTS).
         if mk_key k = key \<and> CommitTS k > bestTS then (v, CommitTS k) else (bestValue, bestTS))
       kvs ([], 0)"

fun latest_tables :: "bytes \<Rightarrow> reader list \<Rightarrow> (bytes \<times> u64) option" where
  "latest_tables key [] = None"
| "latest_tables key (r # rs) =
     (case sst_entries r of
        Inl err \<Rightarrow> latest_tables key rs
      | Inr kvs \<Rightarrow>
          let (val, ts) = table_latest key kvs in
          if ts > 0 then Some (val, ts) else latest_tables key rs)"

definition e_GetLatestInfo :: "bytes \<Rightarrow> lsm \<Rightarrow> lsm_error + bytes option \<times> u64 \<times> bool" where
  "e_GetLatestInfo key e =
     (if e_closed e then Inl EClosed
      else
        case latest_memtables key (mt_list e) of
          Some (val, ts, found) \<Rightarrow>
            if found then
              (case decodeStoredValue e val False of Inl err \<Rightarrow> Inl err | Inr v \<Rightarrow> Inr (v, ts, True))
            else Inr (None, ts, False)
        | None \<Rightarrow>
            (case latest_tables key (concat (e_levels e)) of
               Some (val, ts) \<Rightarrow>
                 if val = [] then Inr (None, ts, False)
                 else
                   (case decodeStoredValue e (Some val) True of Inl err \<Rightarrow> Inl err | Inr v \<Rightarrow> Inr (v, ts, True))
             | None \<Rightarrow> Inr (None, 0, False)))"

definition e_CheckConflict :: "bytes \<Rightarrow> u64 \<Rightarrow> lsm \<Rightarrow> (lsm_error + bool) \<times> lsm" where
  "e_CheckConflict key startTS e =
     (let (hit, c) = getLastCommitCache key (e_cache e); e = e\<lparr>e_cache := c\<rparr> in
      case hit of
        Some lastTS \<Rightarrow> (Inr (lastTS > startTS), e)
      | None \<Rightarrow>
          (case e_GetLatestInfo key e of
             Inl err \<Rightarrow> (Inl err, e)
           | Inr (_, lastTS, _) \<Rightarrow>
               if lastTS > startTS then (Inr True, e_updateCache key lastTS e)
               else (Inr False, if lastTS > 0 then e_updateCache key lastTS e else e)))"

section \<open>Opening and closing\<close>

fun open_shards ::
    "(nat \<Rightarrow> shard_error + shard) \<Rightarrow> nat list \<Rightarrow> shard_error + shard list" where
  "open_shards new [] = Inr []"
| "open_shards new (i # is) =
     (case new i of
        Inl err \<Rightarrow> Inl err
      | Inr s \<Rightarrow> (case open_shards new is of Inl err \<Rightarrow> Inl err | Inr ss \<Rightarrow> Inr (s # ss)))"

text \<open>The second replay of every log, now with the routing of the engine.\<close>

fun recover_shards ::
    "nat \<Rightarrow> (bytes \<Rightarrow> nat) \<Rightarrow> shard list \<Rightarrow> u64 \<Rightarrow> lsm_error + shard list \<times> u64" where
  "recover_shards vlogSize shardIndex [] walMaxTS = Inr ([], walMaxTS)"
| "recover_shards vlogSize shardIndex (s # ss) walMaxTS =
     (case recoverFromWAL vlogSize shardIndex (sh_id s) (sh_wal s) (sh_mem s) of
        (Inl err, m) \<Rightarrow> Inl (EWal err)
      | (Inr maxTS, m) \<Rightarrow>
          (case recover_shards vlogSize shardIndex ss (if maxTS > walMaxTS then maxTS else walMaxTS) of
             Inl err \<Rightarrow> Inl err
           | Inr (ss, t) \<Rightarrow> Inr (s\<lparr>sh_mem := m\<rparr> # ss, t)))"

text \<open>
  \<open>InvalidateVLogPointers\<close> of \<^verbatim>\<open>gc.go\<close>: every pointer in a memtable is deleted.
\<close>

definition invalidate_table :: "mem \<Rightarrow> mem" where
  "invalidate_table m =
     fold (\<lambda>k m. snd (mem_delete_ts k m))
       (map fst (filter (\<lambda>(k, v). case v of Live x \<Rightarrow> IsStoredValuePointer (slice_of x) | Tomb \<Rightarrow> False) (mem_live m))) m"

definition e_InvalidateVLogPointers :: "lsm \<Rightarrow> lsm" where
  "e_InvalidateVLogPointers e =
     (if e_closed e then e
      else e\<lparr>e_shards := map (\<lambda>s. s\<lparr>sh_mem := invalidate_table (sh_mem s),
                                     sh_frozen := map_option invalidate_table (sh_frozen s)\<rparr>) (e_shards e)\<rparr>)"

text \<open>
  \<open>NewLSMEngine\<close> on the files of a data directory: the engine's manifest, value log and buffer of
  large values, and for each of the \<open>n\<close> shards its log, value log and manifest. Every shard opens
  its log twice; the engine's handle, with the same bytes, replaces the shard's.
\<close>

definition NewLSMEngine ::
    "nat \<Rightarrow> (bytes \<Rightarrow> version_edit option) \<Rightarrow> (bytes \<Rightarrow> version_edit list) \<Rightarrow> bool \<Rightarrow> bloom_decoder \<Rightarrow> nat \<Rightarrow>
     bool \<Rightarrow> bool \<Rightarrow> sst_dir \<Rightarrow> bytes \<Rightarrow> bytes \<Rightarrow> bytes \<Rightarrow> (nat \<Rightarrow> bytes) \<Rightarrow> (nat \<Rightarrow> bytes) \<Rightarrow> (nat \<Rightarrow> bytes) \<Rightarrow>
     lsm_error + lsm" where
  "NewLSMEngine ext dec legacy mm bd n gc sync dir manifestFile vlogFile unifiedFile walFile shVlogFile shManifestFile =
     (case NewManifest dec legacy manifestFile of Inl err \<Rightarrow> Inl (EManifest err) | Inr manifest \<Rightarrow>
      case OpenVLog ext True True vlogFile of Inl err \<Rightarrow> Inl (EVlog err) | Inr vlog \<Rightarrow>
      let unified = OpenUnifiedMmap unifiedFile;
          lastTS = mf_LastTS manifest;
          lastTS = (if lastTS < 1 then 1 else lastTS);
          ml = mf_GetLevels manifest;
          levels = map (\<lambda>lvl. if lvl < length ml then open_infos mm bd dir (ml ! lvl) else []) [0..<10] in
      case open_shards (\<lambda>i. NewShard ext True dec legacy mm bd dir i (shVlogFile i)
                              (OpenWAL (walFile i) gc sync) (shManifestFile i)) [0..<n] of
        Inl err \<Rightarrow> Inl (EShard err)
      | Inr shards \<Rightarrow>
          let shards = map (\<lambda>s. s\<lparr>sh_wal := OpenWAL (walFile (sh_id s)) gc sync\<rparr>) shards;
              e = \<lparr>e_shards = shards, e_vlog = vlog, e_unified = unified, e_manifest = manifest,
                   e_levels = levels, e_LastTS = lastTS, e_snapshots = newSnapshotRegistry, e_closed = False,
                   e_cache = new_commit_cache, e_flushCh = False, e_compactCh = False\<rparr>;
              e = e_InvalidateVLogPointers e in
          case recover_shards (vl_Size vlog) (e_shardIndex e) (e_shards e) 0 of
            Inl err \<Rightarrow> Inl err
          | Inr (shards, walMaxTS) \<Rightarrow>
              Inr (e\<lparr>e_shards := shards, e_LastTS := if walMaxTS > e_LastTS e then walMaxTS else e_LastTS e\<rparr>))"

text \<open>\<open>Close\<close> leaves the value log open; \<open>Shutdown\<close> closes it too.\<close>

definition close_parts :: "(nat \<Rightarrow> nat option) \<Rightarrow> lsm \<Rightarrow> lsm" where
  "close_parts io e =
     e\<lparr>e_shards := map (\<lambda>i. let s = e_shards e ! i in
           s\<lparr>sh_mem := [], sh_frozen := map_option (\<lambda>_. []) (sh_frozen s), sh_wal := snd (wal_Close (io i) (sh_wal s))\<rparr>)
         [0..<length (e_shards e)],
       e_levels := map (map rd_Close) (e_levels e), e_unified := um_Close (e_unified e)\<rparr>"

definition e_Close :: "(nat \<Rightarrow> nat option) \<Rightarrow> lsm \<Rightarrow> lsm" where
  "e_Close io e = (if e_closed e then e else close_parts io (e\<lparr>e_closed := True\<rparr>))"

definition e_Shutdown :: "(nat \<Rightarrow> nat option) \<Rightarrow> lsm \<Rightarrow> lsm" where
  "e_Shutdown io e =
     (if e_closed e then e
      else
        let e = close_parts io (e\<lparr>e_closed := True\<rparr>);
            v = vl_Shutdown_begin (e_vlog e)
        in e\<lparr>e_vlog := (if vl_closed v then v else snd (vl_Shutdown_finish v))\<rparr>)"

end
