(* ===== verification/Heap.thy ===== *)
theory Heap
  imports Prelude "HOL-Library.Multiset"
begin

text \<open>
  The algorithms of Go's \<^verbatim>\<open>container/heap\<close> on an array, with the order of the elements as a
  parameter, as the merge iterators of the engine and of the tables use them. The locale states
  the interface: the order is a strict weak order; its lemmas show that the heap order is kept,
  no element is lost, and \<open>Pop\<close> gives a least one.
\<close>

definition heap_swap :: "nat \<Rightarrow> nat \<Rightarrow> 'a list \<Rightarrow> 'a list" where
  "heap_swap i j h = h[i := h ! j, j := h ! i]"

function heap_up :: "('a \<Rightarrow> 'a \<Rightarrow> bool) \<Rightarrow> nat \<Rightarrow> 'a list \<Rightarrow> 'a list" where
  "heap_up lt j h =
     (let i = (j - 1) div 2 in
      if i = j \<or> \<not> lt (h ! j) (h ! i) then h else heap_up lt i (heap_swap i j h))"
  by pat_completeness auto
termination
  by (relation "measure (\<lambda>(lt, j, h). j)") auto

declare heap_up.simps [simp del]

text \<open>The child of \<open>i\<close> that \<open>down\<close> looks at: the smaller one.\<close>

definition heap_child :: "('a \<Rightarrow> 'a \<Rightarrow> bool) \<Rightarrow> nat \<Rightarrow> nat \<Rightarrow> 'a list \<Rightarrow> nat" where
  "heap_child lt i n h =
     (let j1 = 2 * i + 1; j2 = j1 + 1 in if j2 < n \<and> lt (h ! j2) (h ! j1) then j2 else j1)"

function heap_down :: "('a \<Rightarrow> 'a \<Rightarrow> bool) \<Rightarrow> nat \<Rightarrow> nat \<Rightarrow> 'a list \<Rightarrow> 'a list" where
  "heap_down lt i n h =
     (if n \<le> 2 * i + 1 then h
      else
        let j = heap_child lt i n h in
        if \<not> lt (h ! j) (h ! i) then h else heap_down lt j n (heap_swap i j h))"
  by pat_completeness auto
termination
  by (relation "measure (\<lambda>(lt, i, n, h). n - i)") (auto simp: heap_child_def Let_def)

declare heap_down.simps [simp del]

definition heap_Init :: "('a \<Rightarrow> 'a \<Rightarrow> bool) \<Rightarrow> 'a list \<Rightarrow> 'a list" where
  "heap_Init lt h = fold (\<lambda>i h. heap_down lt i (length h) h) (rev [0..<length h div 2]) h"

definition heap_Push :: "('a \<Rightarrow> 'a \<Rightarrow> bool) \<Rightarrow> 'a \<Rightarrow> 'a list \<Rightarrow> 'a list" where
  "heap_Push lt x h = heap_up lt (length h) (h @ [x])"

definition heap_Pop :: "('a \<Rightarrow> 'a \<Rightarrow> bool) \<Rightarrow> 'a list \<Rightarrow> 'a \<times> 'a list" where
  "heap_Pop lt h =
     (let n = length h - 1;
          h = heap_down lt 0 n (heap_swap 0 n h)
      in (last h, butlast h))"

section \<open>Nothing is lost\<close>

lemma length_swap [simp]: "length (heap_swap i j h) = length h"
  by (simp add: heap_swap_def)

lemma mset_heap_swap [simp]: "i < length h \<Longrightarrow> j < length h \<Longrightarrow> mset (heap_swap i j h) = mset h"
  by (simp add: heap_swap_def Multiset.mset_swap)

lemma nth_swap:
  "i < length h \<Longrightarrow> j < length h \<Longrightarrow> heap_swap i j h ! k = (if k = j then h ! i else if k = i then h ! j else h ! k)"
  by (simp add: heap_swap_def nth_list_update)

lemma heap_child_less: "2 * i + 1 < n \<Longrightarrow> i < heap_child lt i n h \<and> heap_child lt i n h < n"
  by (auto simp: heap_child_def Let_def)

lemma heap_up_mset: "j < length h \<Longrightarrow> mset (heap_up lt j h) = mset h"
proof (induction lt j h rule: heap_up.induct)
  case (1 lt j h)
  then show ?case by (subst heap_up.simps) (auto simp: Let_def)
qed

lemma heap_down_mset: "n \<le> length h \<Longrightarrow> mset (heap_down lt i n h) = mset h"
proof (induction lt i n h rule: heap_down.induct)
  case (1 lt i n h)
  have "\<not> n \<le> 2 * i + 1 \<Longrightarrow> i < length h \<and> heap_child lt i n h < length h"
    using heap_child_less [of i n lt h] "1.prems" by auto
  with 1 show ?case by (subst heap_down.simps) (auto simp: Let_def)
qed

lemma heap_up_length: "j < length h \<Longrightarrow> length (heap_up lt j h) = length h"
  by (metis heap_up_mset size_mset)

lemma heap_down_length: "n \<le> length h \<Longrightarrow> length (heap_down lt i n h) = length h"
  by (metis heap_down_mset size_mset)

text \<open>\<open>down\<close> leaves everything from \<open>n\<close> on alone.\<close>

lemma heap_down_above: "n \<le> length h \<Longrightarrow> n \<le> k \<Longrightarrow> heap_down lt i n h ! k = h ! k"
proof (induction lt i n h rule: heap_down.induct)
  case (1 lt i n h)
  show ?case
  proof (cases "n \<le> 2 * i + 1 \<or> \<not> lt (h ! heap_child lt i n h) (h ! i)")
    case True
    then show ?thesis by (subst heap_down.simps) (auto simp: Let_def)
  next
    case False
    let ?j = "heap_child lt i n h"
    have j: "i < ?j" "?j < n" using heap_child_less [of i n lt h] False by auto
    have "heap_down lt i n h = heap_down lt ?j n (heap_swap i ?j h)"
      using False by (subst heap_down.simps) (simp add: Let_def)
    moreover have "heap_down lt ?j n (heap_swap i ?j h) ! k = heap_swap i ?j h ! k"
      using 1 False by auto
    ultimately show ?thesis using j 1(2,3) by (simp add: nth_swap)
  qed
qed

lemma heap_Push_mset: "mset (heap_Push lt x h) = add_mset x (mset h)"
  by (simp add: heap_Push_def heap_up_mset)

lemma heap_Init_mset: "mset (heap_Init lt h) = mset h"
proof -
  have "mset (fold (\<lambda>i h. heap_down lt i (length h) h) is h) = mset h" for "is" and h :: "'a list"
    by (induction "is" arbitrary: h) (simp_all add: heap_down_mset)
  then show ?thesis by (simp add: heap_Init_def)
qed

lemma heap_Pop_mset:
  assumes ne: "h \<noteq> []" and pop: "heap_Pop lt h = (x, h')"
  shows "mset h = add_mset x (mset h')"
proof -
  let ?n = "length h - 1"
  let ?d = "heap_down lt 0 ?n (heap_swap 0 ?n h)"
  have "?n < length h" "0 < length h" using ne by simp_all
  then have m: "mset ?d = mset h" by (simp add: heap_down_mset)
  then have "?d \<noteq> []" using ne by (metis mset_zero_iff)
  then have "?d = h' @ [x]" using pop by (auto simp: heap_Pop_def Let_def)
  then have "mset ?d = add_mset x (mset h')" by simp
  with m show ?thesis by simp
qed

section \<open>The heap order\<close>

definition parent :: "nat \<Rightarrow> nat" where
  "parent k = (k - 1) div 2"

lemma parent_less [simp]: "0 < k \<Longrightarrow> parent k < k"
  by (simp add: parent_def)

lemma parent_child: "parent k = i \<and> 0 < k \<longleftrightarrow> k = 2 * i + 1 \<or> k = 2 * i + 2"
  by (auto simp: parent_def)

text \<open>In the range from \<open>a\<close> to \<open>n\<close> no element is less than its parent.\<close>

definition heap_from :: "('a \<Rightarrow> 'a \<Rightarrow> bool) \<Rightarrow> nat \<Rightarrow> nat \<Rightarrow> 'a list \<Rightarrow> bool" where
  "heap_from lt a n h \<longleftrightarrow> (\<forall>k. k < n \<longrightarrow> 0 < k \<longrightarrow> a \<le> parent k \<longrightarrow> \<not> lt (h ! k) (h ! parent k))"

definition heap_ok :: "('a \<Rightarrow> 'a \<Rightarrow> bool) \<Rightarrow> 'a list \<Rightarrow> bool" where
  "heap_ok lt h \<longleftrightarrow> heap_from lt 0 (length h) h"

locale heap_order =
  fixes lt :: "'a \<Rightarrow> 'a \<Rightarrow> bool"
  assumes irrefl: "\<not> lt x x"
    and weak: "lt x z \<Longrightarrow> lt x y \<or> lt y z"
    and asym: "lt x y \<Longrightarrow> \<not> lt y x"
begin

lemma not_less_trans: "\<not> lt y x \<Longrightarrow> \<not> lt z y \<Longrightarrow> \<not> lt z x"
  using weak by blast

text \<open>The first element is a least one.\<close>

lemma first_least: "heap_from lt 0 n h \<Longrightarrow> k < n \<Longrightarrow> \<not> lt (h ! k) (h ! 0)"
proof (induction k rule: less_induct)
  case (less k)
  show ?case
  proof (cases "k = 0")
    case False
    then have "\<not> lt (h ! parent k) (h ! 0)" using less by (meson le_less_trans less_imp_le_nat parent_less gr0I)
    moreover have "\<not> lt (h ! k) (h ! parent k)" using less False by (simp add: heap_from_def)
    ultimately show ?thesis using not_less_trans by blast
  qed (simp add: irrefl)
qed

text \<open>\<open>down\<close>: the order holds except at the children of \<open>i\<close>.\<close>

lemma down_heap:
  assumes "\<forall>k. k < n \<longrightarrow> 0 < k \<longrightarrow> a \<le> parent k \<longrightarrow> parent k \<noteq> i \<longrightarrow> \<not> lt (h ! k) (h ! parent k)"
    and "\<forall>k. k < n \<longrightarrow> 0 < k \<longrightarrow> parent k = i \<longrightarrow> 0 < i \<longrightarrow> a \<le> parent i \<longrightarrow> \<not> lt (h ! k) (h ! parent i)"
    and "n \<le> length h"
  shows "heap_from lt a n (heap_down lt i n h)"
  using assms
proof (induction "n - i" arbitrary: i h rule: less_induct)
  case (less i h)
  let ?j = "heap_child lt i n h"
  note p1 = less.prems(1) [rule_format] and p2 = less.prems(2) [rule_format]
  show ?case
  proof (cases "n \<le> 2 * i + 1")
    case True
    then have "parent k \<noteq> i" if "k < n" "0 < k" for k using that parent_child [of k i] by auto
    with p1 True show ?thesis by (simp add: heap_down.simps [of _ i] heap_from_def)
  next
    case False
    have j: "i < ?j" "?j < n" "parent ?j = i" "0 < ?j"
      using heap_child_less [of i n _ h] False parent_child [of ?j i] by (auto simp: heap_child_def Let_def)
    have least: "\<not> lt (h ! k) (h ! ?j)" if "k < n" "parent k = i" "0 < k" for k
    proof -
      have "k = 2 * i + 1 \<or> k = 2 * i + 2" using that parent_child by blast
      then show ?thesis using that(1) irrefl asym by (auto simp: heap_child_def Let_def)
    qed
    show ?thesis
    proof (cases "lt (h ! ?j) (h ! i)")
      case stop: False
      have "\<not> lt (h ! k) (h ! parent k)" if "k < n" "0 < k" "a \<le> parent k" for k
        using p1 [OF that] least [OF that(1) _ that(2)] stop not_less_trans by blast
      then show ?thesis using False stop by (simp add: heap_down.simps [of _ i] heap_from_def Let_def)
    next
      case go: True
      let ?h = "heap_swap i ?j h"
      have il: "i < length h" "?j < length h" using j less.prems(3) by simp_all
      note at = nth_swap [OF il]
      have "heap_from lt a n (heap_down lt ?j n ?h)"
      proof (rule less.hyps)
        show "n - ?j < n - i" using j by simp
        show "n \<le> length ?h" using less.prems(3) by simp
        show "\<forall>k. k < n \<longrightarrow> 0 < k \<longrightarrow> a \<le> parent k \<longrightarrow> parent k \<noteq> ?j \<longrightarrow> \<not> lt (?h ! k) (?h ! parent k)"
        proof (intro allI impI)
          fix k assume k: "k < n" "0 < k" "a \<le> parent k" "parent k \<noteq> ?j"
          consider "k = ?j" | "k \<noteq> ?j" "parent k = i" | "k = i" | "k \<noteq> ?j" "k \<noteq> i" "parent k \<noteq> i" by blast
          then show "\<not> lt (?h ! k) (?h ! parent k)"
          proof cases
            case 1
            then show ?thesis using j go asym by (simp add: at)
          next
            case 2
            have "k \<noteq> i" using 2 k(2) parent_less [of k] by auto
            then show ?thesis using 2 j k least [of k] by (simp add: at)
          next
            case 3
            have "parent i < i" using 3 k(2) by simp
            then have "parent i \<noteq> i" "parent i \<noteq> ?j" using j(1) by simp_all
            then show ?thesis using 3 k p2 [of ?j] j by (simp add: at)
          next
            case 4
            then show ?thesis using k p1 [of k] by (simp add: at)
          qed
        qed
        show "\<forall>k. k < n \<longrightarrow> 0 < k \<longrightarrow> parent k = ?j \<longrightarrow> 0 < ?j \<longrightarrow> a \<le> parent ?j \<longrightarrow>
          \<not> lt (?h ! k) (?h ! parent ?j)"
        proof (intro allI impI)
          fix k assume k: "k < n" "0 < k" "parent k = ?j" "a \<le> parent ?j"
          have "k \<noteq> ?j" "k \<noteq> i" using k(2,3) parent_less [of k] j by auto
          moreover have "a \<le> ?j" using k(4) j by simp
          ultimately show "\<not> lt (?h ! k) (?h ! parent ?j)" using k j p1 [of k] by (simp add: at)
        qed
      qed
      then show ?thesis using False go by (simp add: heap_down.simps [of _ i] Let_def)
    qed
  qed
qed

text \<open>\<open>up\<close>: the order holds except at \<open>j\<close>.\<close>

lemma up_heap:
  assumes "\<forall>k. k < length h \<longrightarrow> 0 < k \<longrightarrow> k \<noteq> j \<longrightarrow> \<not> lt (h ! k) (h ! parent k)"
    and "\<forall>k. k < length h \<longrightarrow> 0 < k \<longrightarrow> parent k = j \<longrightarrow> 0 < j \<longrightarrow> \<not> lt (h ! k) (h ! parent j)"
    and "j < length h"
  shows "heap_ok lt (heap_up lt j h)"
  using assms
proof (induction j arbitrary: h rule: less_induct)
  case (less j)
  note p1 = less.prems(1) [rule_format] and p2 = less.prems(2) [rule_format]
  let ?i = "parent j"
  show ?case
  proof (cases "j = 0 \<or> \<not> lt (h ! j) (h ! ?i)")
    case True
    then have "heap_up lt j h = h" by (subst heap_up.simps) (auto simp: parent_def Let_def)
    moreover have "\<not> lt (h ! k) (h ! parent k)" if "k < length h" "0 < k" for k
      using True that p1 [of k] by (cases "k = j") auto
    ultimately show ?thesis by (simp add: heap_ok_def heap_from_def)
  next
    case False
    then have j: "0 < j" "?i < j" and go: "lt (h ! j) (h ! ?i)" by simp_all
    let ?h = "heap_swap ?i j h"
    have il: "?i < length h" "j < length h" using j less.prems(3) by simp_all
    note at = nth_swap [OF il]
    have nb: "\<not> lt (h ! ?i) (h ! j)" using go asym by blast
    have "heap_ok lt (heap_up lt ?i ?h)"
    proof (rule less.IH [OF j(2)])
      show "?i < length ?h" using il by simp
      show "\<forall>k. k < length ?h \<longrightarrow> 0 < k \<longrightarrow> k \<noteq> ?i \<longrightarrow> \<not> lt (?h ! k) (?h ! parent k)"
      proof (intro allI impI)
        fix k assume k: "k < length ?h" "0 < k" "k \<noteq> ?i"
        consider "k = j" | "k \<noteq> j" "parent k = ?i" | "parent k = j" | "k \<noteq> j" "parent k \<noteq> ?i" "parent k \<noteq> j" by blast
        then show "\<not> lt (?h ! k) (?h ! parent k)"
        proof cases
          case 1
          then show ?thesis using j nb by (simp add: at)
        next
          case 2
          then have "\<not> lt (h ! k) (h ! ?i)" using p1 [of k] k by simp
          then have "\<not> lt (h ! k) (h ! j)" using nb not_less_trans by blast
          then show ?thesis using 2 k j by (simp add: at)
        next
          case 3
          have "k \<noteq> j" using 3 k(2) parent_less [of k] by auto
          then show ?thesis using 3 k j p2 [of k] by (simp add: at)
        next
          case 4
          then show ?thesis using k p1 [of k] by (simp add: at)
        qed
      qed
      show "\<forall>k. k < length ?h \<longrightarrow> 0 < k \<longrightarrow> parent k = ?i \<longrightarrow> 0 < ?i \<longrightarrow> \<not> lt (?h ! k) (?h ! parent ?i)"
      proof (intro allI impI)
        fix k assume k: "k < length ?h" "0 < k" "parent k = ?i" "0 < ?i"
        have "parent ?i < ?i" using k(4) by (rule parent_less)
        then have pi: "parent ?i \<noteq> ?i" "parent ?i \<noteq> j" using j(2) by linarith+
        have i: "\<not> lt (h ! ?i) (h ! parent ?i)" using p1 [of ?i] k(4) il j by simp
        have "k \<noteq> ?i" using k(2,3) parent_less [of k] by auto
        moreover have "\<not> lt (h ! k) (h ! parent ?i)" if "k \<noteq> j"
          using that p1 [of k] k not_less_trans [OF i] by simp
        ultimately show "\<not> lt (?h ! k) (?h ! parent ?i)" using i pi by (simp add: at)
      qed
    qed
    moreover have "heap_up lt j h = heap_up lt ?i ?h"
      using False by (subst heap_up.simps) (auto simp: parent_def Let_def)
    ultimately show ?thesis by simp
  qed
qed

lemma Push_ok:
  assumes "heap_ok lt h"
  shows "heap_ok lt (heap_Push lt x h) \<and> mset (heap_Push lt x h) = add_mset x (mset h)"
proof
  show "heap_ok lt (heap_Push lt x h)"
    unfolding heap_Push_def
  proof (rule up_heap)
    show "\<forall>k. k < length (h @ [x]) \<longrightarrow> 0 < k \<longrightarrow> k \<noteq> length h \<longrightarrow> \<not> lt ((h @ [x]) ! k) ((h @ [x]) ! parent k)"
    proof (intro allI impI)
      fix k assume k: "k < length (h @ [x])" "0 < k" "k \<noteq> length h"
      have "parent k < length h" using k parent_less [OF k(2)] by simp
      then show "\<not> lt ((h @ [x]) ! k) ((h @ [x]) ! parent k)"
        using assms k by (simp add: nth_append heap_ok_def heap_from_def)
    qed
    show "\<forall>k. k < length (h @ [x]) \<longrightarrow> 0 < k \<longrightarrow> parent k = length h \<longrightarrow> 0 < length h \<longrightarrow>
      \<not> lt ((h @ [x]) ! k) ((h @ [x]) ! parent (length h))"
    proof (intro allI impI)
      fix k assume k: "k < length (h @ [x])" "0 < k" "parent k = length h"
      then show "\<not> lt ((h @ [x]) ! k) ((h @ [x]) ! parent (length h))" using parent_less [OF k(2)] by simp
    qed
  qed simp
  show "mset (heap_Push lt x h) = add_mset x (mset h)" by (rule heap_Push_mset)
qed

lemma Pop_ok:
  assumes ok: "heap_ok lt h" and ne: "h \<noteq> []" and pop: "heap_Pop lt h = (x, h')"
  shows "x = h ! 0" "heap_ok lt h'" "mset h = add_mset x (mset h')" "\<forall>y \<in> set h. \<not> lt y x"
proof -
  let ?n = "length h - 1"
  let ?s = "heap_swap 0 ?n h"
  let ?d = "heap_down lt 0 ?n ?s"
  have n: "?n < length h" "0 < length h" using ne by simp_all
  have len: "length ?d = length h" by (simp add: heap_down_length)
  then have dne: "?d \<noteq> []" using ne by (metis length_0_conv)
  have x: "x = last ?d" "h' = butlast ?d" using pop by (simp_all add: heap_Pop_def Let_def)
  have "last ?d = ?d ! ?n" using dne len by (simp add: last_conv_nth)
  also have "\<dots> = ?s ! ?n" by (rule heap_down_above) simp_all
  also have "\<dots> = h ! 0" using n by (simp add: nth_swap)
  finally show x0: "x = h ! 0" using x(1) by simp
  show "mset h = add_mset x (mset h')" by (rule heap_Pop_mset [OF ne pop])
  have "heap_from lt 0 ?n ?d"
  proof (rule down_heap)
    show "\<forall>k. k < ?n \<longrightarrow> 0 < k \<longrightarrow> 0 \<le> parent k \<longrightarrow> parent k \<noteq> 0 \<longrightarrow> \<not> lt (?s ! k) (?s ! parent k)"
    proof (intro allI impI)
      fix k assume k: "k < ?n" "0 < k" "parent k \<noteq> 0"
      have "parent k < ?n" using k parent_less [OF k(2)] by simp
      then show "\<not> lt (?s ! k) (?s ! parent k)"
        using k n ok by (simp add: nth_swap heap_ok_def heap_from_def)
    qed
  qed simp_all
  moreover have "h' ! k = ?d ! k" if "k < ?n" for k using that len by (simp add: x(2) nth_butlast)
  moreover have l: "length h' = ?n" using len by (simp add: x(2))
  ultimately have "\<not> lt (h' ! k) (h' ! parent k)" if "k < ?n" "0 < k" for k
    using that order.strict_trans [OF parent_less [OF that(2)] that(1)] by (simp add: heap_from_def)
  then show "heap_ok lt h'" unfolding heap_ok_def heap_from_def l by blast
  show "\<forall>y \<in> set h. \<not> lt y x"
    using first_least [of "length h" h] ok unfolding x0 heap_ok_def by (auto simp: in_set_conv_nth)
qed

lemma Init_ok: "heap_ok lt (heap_Init lt h) \<and> mset (heap_Init lt h) = mset h"
proof -
  let ?n = "length h"
  have "length g = ?n \<and> mset g = mset h \<and> heap_from lt a ?n g"
    if "a \<le> ?n div 2" "g = fold (\<lambda>i h. heap_down lt i (length h) h) (rev [a..<?n div 2]) h" for a g
    using that
  proof (induction "?n div 2 - a" arbitrary: a g)
    case 0
    then have "a = ?n div 2" by simp
    then have "\<not> (k < ?n \<and> 0 < k \<and> a \<le> parent k)" for k by (auto simp: parent_def)
    with 0 show ?case by (auto simp: heap_from_def)
  next
    case (Suc d)
    let ?g = "fold (\<lambda>i h. heap_down lt i (length h) h) (rev [Suc a..<?n div 2]) h"
    have a: "d = ?n div 2 - Suc a" "Suc a \<le> ?n div 2" using Suc.hyps(2) by simp_all
    note ih = Suc.hyps(1) [OF a refl]
    have "[a..<?n div 2] = a # [Suc a..<?n div 2]" using a(2) by (simp add: upt_conv_Cons)
    then have g: "g = heap_down lt a ?n ?g" using Suc.prems(2) ih by simp
    have "heap_from lt a ?n (heap_down lt a ?n ?g)"
    proof (rule down_heap)
      show "\<forall>k. k < ?n \<longrightarrow> 0 < k \<longrightarrow> a \<le> parent k \<longrightarrow> parent k \<noteq> a \<longrightarrow> \<not> lt (?g ! k) (?g ! parent k)"
        using ih by (auto simp: heap_from_def)
      show "\<forall>k. k < ?n \<longrightarrow> 0 < k \<longrightarrow> parent k = a \<longrightarrow> 0 < a \<longrightarrow> a \<le> parent a \<longrightarrow> \<not> lt (?g ! k) (?g ! parent a)"
        using parent_less [of a] by (metis not_less)
    qed (use ih in simp)
    then show ?case unfolding g using ih by (simp add: heap_down_length heap_down_mset)
  qed
  from this [OF _ refl, of 0] show ?thesis by (simp add: heap_Init_def heap_ok_def)
qed

end

end
