(* ===== verification/Iterators.thy ===== *)
theory Iterators
  imports LSM Heap
begin

text \<open>
  Models \<^verbatim>\<open>internal/engine/iterator.go\<close> and \<^verbatim>\<open>mvcc_iterator.go\<close>: the iterators over a memtable
  and over a table, the merge iterator with its heap, the filter for versions, and \<open>Scan\<close>. The
  iterator of a skip list is its contract: it walks the sorted list of the memtable and skips
  deleted nodes; the iterator of a table walks the entries that \<open>SSTProofs\<close> shows it to yield.
  A nil slice is \<open>None\<close>; a run-time fault of the Go code is the error \<open>ItPanic\<close>.
\<close>

datatype it_error = ItPanic | ItSst sst_error | ItVlog vlog_error | ItRange

definition HasPrefix :: "bytes \<Rightarrow> bytes \<Rightarrow> bool" where
  "HasPrefix s p \<longleftrightarrow> length p \<le> length s \<and> take (length p) s = p"

section \<open>Memtables\<close>

text \<open>
  \<open>SkipListIterator\<close>: the current node and the nodes behind it. At the end of the list the last
  node stays current.
\<close>

record mem_it =
  ii_cur :: "mvcc_key \<times> version"
  ii_rest :: mem
  ii_done :: bool

definition mem_it_New :: "mem \<Rightarrow> mem_it" where
  "mem_it_New m = \<lparr>ii_cur = (MVCCKey [] 0, Live None), ii_rest = m, ii_done = False\<rparr>"

fun mem_it_loop :: "mvcc_key \<times> version \<Rightarrow> mem \<Rightarrow> bool \<times> (mvcc_key \<times> version) \<times> mem" where
  "mem_it_loop cur [] = (False, cur, [])"
| "mem_it_loop cur (x # xs) = (if snd x \<noteq> Tomb then (True, x, xs) else mem_it_loop x xs)"

definition mem_it_Next :: "mem_it \<Rightarrow> bool \<times> mem_it" where
  "mem_it_Next it =
     (if ii_done it then (False, it)
      else
        let (ok, cur, rest) = mem_it_loop (ii_cur it) (ii_rest it)
        in (ok, it\<lparr>ii_cur := cur, ii_rest := rest, ii_done := \<not> ok\<rparr>))"

definition mem_it_Key :: "mem_it \<Rightarrow> mvcc_key" where
  "mem_it_Key it = fst (ii_cur it)"

definition mem_it_Value :: "mem_it \<Rightarrow> bytes option" where
  "mem_it_Value it = (case snd (ii_cur it) of Live v \<Rightarrow> v | Tomb \<Rightarrow> None)"

definition mem_it_IsDeleted :: "mem_it \<Rightarrow> bool" where
  "mem_it_IsDeleted it \<longleftrightarrow> snd (ii_cur it) = Tomb"

lemma mem_it_loop_less: "mem_it_loop cur m = (True, cur', rest) \<Longrightarrow> length rest < length m"
  by (induction cur m rule: mem_it_loop.induct) (auto split: if_splits)

lemma mem_it_loop_le: "mem_it_loop cur m = (ok, cur', rest) \<Longrightarrow> length rest \<le> length m"
  by (induction cur m rule: mem_it_loop.induct) (auto split: if_splits)

lemma mem_it_Next_le: "mem_it_Next it = (ok, it') \<Longrightarrow> length (ii_rest it') \<le> length (ii_rest it)"
  by (auto simp: mem_it_Next_def dest: mem_it_loop_le split: if_splits prod.splits)

lemma mem_it_Next_less: "mem_it_Next it = (True, it') \<Longrightarrow> length (ii_rest it') < length (ii_rest it)"
  by (auto simp: mem_it_Next_def dest: mem_it_loop_less split: if_splits prod.splits)

record memtable_iter =
  mi_inner :: mem_it
  mi_prefix :: bytes
  mi_key :: bytes
  mi_value :: "bytes option"
  mi_ended :: bool
  mi_ready :: bool
  mi_isDel :: bool

definition newMemtableIter :: "mem \<Rightarrow> bytes \<Rightarrow> memtable_iter" where
  "newMemtableIter m prefix =
     \<lparr>mi_inner = mem_it_New m, mi_prefix = prefix, mi_key = [], mi_value = None, mi_ended = False,
      mi_ready = False, mi_isDel = False\<rparr>"

function skipToNewest :: "bytes \<Rightarrow> memtable_iter \<Rightarrow> memtable_iter" where
  "skipToNewest userKey it =
     (let (ok, inner) = mem_it_Next (mi_inner it); it' = it\<lparr>mi_inner := inner\<rparr> in
      if \<not> ok then it'
      else if mk_key (mem_it_Key inner) \<noteq> userKey then it'\<lparr>mi_ready := True\<rparr>
      else skipToNewest userKey (it'\<lparr>mi_value := mem_it_Value inner\<rparr>))"
  by pat_completeness auto
termination
  by (relation "measure (\<lambda>(k, it). length (ii_rest (mi_inner it)))") (auto dest: mem_it_Next_less [OF sym])

declare skipToNewest.simps [simp del]

definition mi_advance :: "memtable_iter \<Rightarrow> bool \<times> memtable_iter" where
  "mi_advance it =
     (if mi_ready it then (True, it\<lparr>mi_ready := False\<rparr>)
      else let (ok, inner) = mem_it_Next (mi_inner it) in (ok, it\<lparr>mi_inner := inner\<rparr>))"

definition mi_room :: "memtable_iter \<Rightarrow> nat" where
  "mi_room it = 2 * length (ii_rest (mi_inner it)) + (if mi_ready it then 1 else 0)"

lemma mi_advance_less: "mi_advance it = (True, it') \<Longrightarrow> mi_room it' < mi_room it"
  by (auto simp: mi_advance_def mi_room_def dest!: mem_it_Next_less split: if_splits prod.splits)

function mi_loop :: "memtable_iter \<Rightarrow> bool \<times> memtable_iter" where
  "mi_loop it =
     (let (ok, it') = mi_advance it in
      if \<not> ok then (False, it'\<lparr>mi_ended := True\<rparr>)
      else
        let userKey = mk_key (mem_it_Key (mi_inner it')) in
        if \<not> HasPrefix userKey (mi_prefix it') then mi_loop it'
        else
          let it' = it'\<lparr>mi_isDel := mem_it_IsDeleted (mi_inner it'), mi_key := userKey,
                       mi_value := mem_it_Value (mi_inner it')\<rparr>
          in (True, skipToNewest userKey it'))"
  by pat_completeness auto
termination
  by (relation "measure mi_room") (auto dest: mi_advance_less [OF sym])

declare mi_loop.simps [simp del]

definition mi_Next :: "memtable_iter \<Rightarrow> bool \<times> memtable_iter" where
  "mi_Next it = (if mi_ended it then (False, it) else mi_loop it)"

text \<open>The timestamp of the node the inner iterator stands on: after \<open>Next\<close> that of a later node.\<close>

definition mi_CommitTS :: "memtable_iter \<Rightarrow> u64" where
  "mi_CommitTS it = CommitTS (mem_it_Key (mi_inner it))"

definition mi_Close :: "memtable_iter \<Rightarrow> memtable_iter" where
  "mi_Close it = it\<lparr>mi_inner := (mi_inner it)\<lparr>ii_done := True\<rparr>, mi_ended := True\<rparr>"

lemma skipToNewest_room: "mi_room (skipToNewest k it) \<le> mi_room it"
proof (induction k it rule: skipToNewest.induct)
  case (1 k it)
  obtain ok inner where n: "mem_it_Next (mi_inner it) = (ok, inner)" by (metis surj_pair)
  have "length (ii_rest inner) \<le> length (ii_rest (mi_inner it))" by (rule mem_it_Next_le [OF n])
  moreover have "ok \<Longrightarrow> length (ii_rest inner) < length (ii_rest (mi_inner it))" using n mem_it_Next_less [of "mi_inner it"] by simp
  moreover have "ok \<Longrightarrow> mk_key (mem_it_Key inner) = k \<Longrightarrow>
      mi_room (skipToNewest k (it\<lparr>mi_inner := inner, mi_value := mem_it_Value inner\<rparr>)) \<le>
      mi_room (it\<lparr>mi_inner := inner, mi_value := mem_it_Value inner\<rparr>)"
    using 1 [OF refl n [symmetric] refl] by simp
  ultimately show ?case
    using n by (auto simp: skipToNewest.simps [of k it] mi_room_def Let_def)
qed

lemma mi_loop_less: "mi_loop it = (True, it') \<Longrightarrow> mi_room it' < mi_room it"
proof (induction it rule: mi_loop.induct)
  case (1 it)
  obtain ok it1 where a: "mi_advance it = (ok, it1)" by (metis surj_pair)
  with 1(2) have ok: "ok" by (auto simp: mi_loop.simps [of it] Let_def split: if_splits)
  then have l: "mi_room it1 < mi_room it" using a mi_advance_less [of it it1] by simp
  let ?k = "mk_key (mem_it_Key (mi_inner it1))"
  show ?case
  proof (cases "HasPrefix ?k (mi_prefix it1)")
    case True
    let ?it = "it1\<lparr>mi_isDel := mem_it_IsDeleted (mi_inner it1), mi_key := ?k, mi_value := mem_it_Value (mi_inner it1)\<rparr>"
    have "it' = skipToNewest ?k ?it" using 1(2) True a ok by (simp add: mi_loop.simps [of it] Let_def)
    moreover have "mi_room ?it = mi_room it1" by (simp add: mi_room_def)
    ultimately show ?thesis using skipToNewest_room [of ?k ?it] l by simp
  next
    case False
    then have "mi_loop it1 = (True, it')" using 1(2) a ok by (simp add: mi_loop.simps [of it] Let_def)
    with 1(1) [OF refl a [symmetric] _ refl False] ok have "mi_room it' < mi_room it1" by simp
    with l show ?thesis by simp
  qed
qed

section \<open>Tables\<close>

record table_it =
  tb_cur :: "mvcc_key \<times> bytes"
  tb_rest :: "(mvcc_key \<times> bytes) list"

text \<open>\<open>ti_inner\<close> is \<open>None\<close> when the iterator of the table could not be created.\<close>

record table_iter =
  ti_inner :: "table_it option"
  ti_prefix :: bytes
  ti_key :: bytes
  ti_value :: "bytes option"
  ti_err :: "it_error option"
  ti_ended :: bool

definition newSSTableIter :: "reader \<Rightarrow> bytes \<Rightarrow> table_iter" where
  "newSSTableIter sst prefix =
     (case sst_entries sst of
        Inl err \<Rightarrow> \<lparr>ti_inner = None, ti_prefix = [], ti_key = [], ti_value = None, ti_err = Some (ItSst err), ti_ended = True\<rparr>
      | Inr kvs \<Rightarrow> \<lparr>ti_inner = Some \<lparr>tb_cur = (MVCCKey [] 0, []), tb_rest = kvs\<rparr>, ti_prefix = prefix, ti_key = [],
                    ti_value = None, ti_err = None, ti_ended = False\<rparr>)"

text \<open>The first entry with the prefix; else the last entry stays current.\<close>

fun table_loop :: "bytes \<Rightarrow> mvcc_key \<times> bytes \<Rightarrow> (mvcc_key \<times> bytes) list \<Rightarrow> bool \<times> table_it" where
  "table_loop prefix cur [] = (False, \<lparr>tb_cur = cur, tb_rest = []\<rparr>)"
| "table_loop prefix cur (x # xs) =
     (if HasPrefix (mk_key (fst x)) prefix then (True, \<lparr>tb_cur = x, tb_rest = xs\<rparr>) else table_loop prefix x xs)"

definition ti_Next :: "table_iter \<Rightarrow> bool \<times> table_iter" where
  "ti_Next it =
     (if ti_ended it \<or> ti_err it \<noteq> None then (False, it)
      else
        case ti_inner it of
          None \<Rightarrow> (False, it)
        | Some inner \<Rightarrow>
            let (ok, inner) = table_loop (ti_prefix it) (tb_cur inner) (tb_rest inner); it = it\<lparr>ti_inner := Some inner\<rparr> in
            if ok then (True, it\<lparr>ti_key := mk_key (fst (tb_cur inner)), ti_value := Some (snd (tb_cur inner))\<rparr>)
            else (False, it\<lparr>ti_ended := True\<rparr>))"

definition ti_CommitTS :: "table_iter \<Rightarrow> u64" where
  "ti_CommitTS it = (case ti_inner it of None \<Rightarrow> 0 | Some inner \<Rightarrow> CommitTS (fst (tb_cur inner)))"

text \<open>\<open>Close\<close> calls through the inner iterator, also when there is none.\<close>

definition ti_Close :: "table_iter \<Rightarrow> it_error + table_iter" where
  "ti_Close it = (if ti_inner it = None then Inl ItPanic else Inr (it\<lparr>ti_ended := True\<rparr>))"

definition ti_room :: "table_iter \<Rightarrow> nat" where
  "ti_room it = (case ti_inner it of None \<Rightarrow> 0 | Some inner \<Rightarrow> length (tb_rest inner))"

lemma table_loop_less: "table_loop p cur xs = (True, it) \<Longrightarrow> length (tb_rest it) < length xs"
  by (induction p cur xs rule: table_loop.induct) (auto split: if_splits)

lemma ti_Next_less: "ti_Next it = (True, it') \<Longrightarrow> ti_room it' < ti_room it"
  by (auto simp: ti_Next_def ti_room_def Let_def dest!: table_loop_less split: if_splits option.splits prod.splits)

section \<open>Sources\<close>

text \<open>The interface \<open>Iterator\<close> as the merge uses it.\<close>

datatype source = MemSource memtable_iter | TableSource table_iter

fun src_Next :: "source \<Rightarrow> bool \<times> source" where
  "src_Next (MemSource it) = (let (ok, it) = mi_Next it in (ok, MemSource it))"
| "src_Next (TableSource it) = (let (ok, it) = ti_Next it in (ok, TableSource it))"

text \<open>The key of a node without key bytes is nil, that of a table entry never is.\<close>

fun src_Key :: "source \<Rightarrow> bytes option" where
  "src_Key (MemSource it) = (if mi_key it = [] then None else Some (mi_key it))"
| "src_Key (TableSource it) = Some (ti_key it)"

fun src_Value :: "source \<Rightarrow> bytes option" where
  "src_Value (MemSource it) = mi_value it"
| "src_Value (TableSource it) = ti_value it"

fun src_Err :: "source \<Rightarrow> it_error option" where
  "src_Err (MemSource it) = None"
| "src_Err (TableSource it) = ti_err it"

fun iterTimestamp :: "source \<Rightarrow> u64" where
  "iterTimestamp (MemSource it) = mi_CommitTS it"
| "iterTimestamp (TableSource it) = ti_CommitTS it"

fun src_Close :: "source \<Rightarrow> it_error + source" where
  "src_Close (MemSource it) = Inr (MemSource (mi_Close it))"
| "src_Close (TableSource it) = (case ti_Close it of Inl err \<Rightarrow> Inl err | Inr it \<Rightarrow> Inr (TableSource it))"

fun src_room :: "source \<Rightarrow> nat" where
  "src_room (MemSource it) = mi_room it"
| "src_room (TableSource it) = ti_room it"

lemma src_Next_less: "src_Next s = (True, s') \<Longrightarrow> src_room s' < src_room s"
  by (cases s) (auto simp: mi_Next_def dest: mi_loop_less ti_Next_less split: if_splits prod.splits)

section \<open>The merge iterator\<close>

record heap_iter =
  hi_iter :: source
  hi_key :: "bytes option"
  hi_ts :: u64

definition iter_less :: "heap_iter \<Rightarrow> heap_iter \<Rightarrow> bool" where
  "iter_less a b \<longleftrightarrow> slice_of (hi_key a) < slice_of (hi_key b)"

interpretation iter_heap: heap_order iter_less
  by unfold_locales (auto simp: iter_less_def)

record merge_iter =
  mg_heap :: "heap_iter list"
  mg_err :: "it_error option"
  mg_key :: "bytes option"
  mg_ts :: u64
  mg_value :: "bytes option"
  mg_views :: "vlog_view list"

definition addSource :: "source \<Rightarrow> merge_iter \<Rightarrow> it_error + merge_iter" where
  "addSource iter mi =
     (let (ok, iter) = src_Next iter in
      if \<not> ok then
        let mi = (case src_Err iter of Some err \<Rightarrow> mi\<lparr>mg_err := Some err\<rparr> | None \<Rightarrow> mi) in
        (case src_Close iter of Inl err \<Rightarrow> Inl err | Inr _ \<Rightarrow> Inr mi)
      else Inr (mi\<lparr>mg_heap := mg_heap mi @ [\<lparr>hi_iter = iter, hi_key = src_Key iter, hi_ts = iterTimestamp iter\<rparr>]\<rparr>))"

fun add_sources :: "source list \<Rightarrow> merge_iter \<Rightarrow> it_error + merge_iter" where
  "add_sources [] mi = Inr mi"
| "add_sources (s # ss) mi = (case addSource s mi of Inl err \<Rightarrow> Inl err | Inr mi \<Rightarrow> add_sources ss mi)"

definition NewMergeIteratorWithSnapshot :: "bytes \<Rightarrow> mem list \<Rightarrow> reader list list \<Rightarrow> it_error + merge_iter" where
  "NewMergeIteratorWithSnapshot prefix mtList levels =
     (case add_sources (map (\<lambda>m. MemSource (newMemtableIter m prefix)) mtList @
                        map (\<lambda>sst. TableSource (newSSTableIter sst prefix)) (concat levels))
             \<lparr>mg_heap = [], mg_err = None, mg_key = None, mg_ts = 0, mg_value = None, mg_views = []\<rparr> of
        Inl err \<Rightarrow> Inl err
      | Inr mi \<Rightarrow> Inr (mi\<lparr>mg_heap := heap_Init iter_less (mg_heap mi)\<rparr>))"

text \<open>Move the source of a popped element on and push it back; an exhausted source is closed.\<close>

definition mg_advance :: "heap_iter \<Rightarrow> merge_iter \<Rightarrow> bool \<times> merge_iter" where
  "mg_advance hi mi =
     (let (ok, iter) = src_Next (hi_iter hi) in
      if ok then
        (True, mi\<lparr>mg_heap := heap_Push iter_less \<lparr>hi_iter = iter, hi_key = src_Key iter, hi_ts = iterTimestamp iter\<rparr> (mg_heap mi)\<rparr>)
      else case src_Err iter of Some err \<Rightarrow> (False, mi\<lparr>mg_err := Some err\<rparr>) | None \<Rightarrow> (True, mi))"

definition mg_room :: "merge_iter \<Rightarrow> nat" where
  "mg_room mi = sum_list (map (\<lambda>hi. Suc (src_room (hi_iter hi))) (mg_heap mi))"

lemma mg_room_mset: "mg_room mi = (\<Sum>hi\<in>#mset (mg_heap mi). Suc (src_room (hi_iter hi)))"
  by (simp add: mg_room_def flip: sum_mset_sum_list)

lemma mg_advance_room:
  "mg_advance hi mi = (ok, mi') \<Longrightarrow> mg_room mi' < Suc (src_room (hi_iter hi)) + mg_room mi"
  by (auto simp: mg_advance_def mg_room_mset heap_Push_mset Let_def dest!: src_Next_less
      split: if_splits option.splits prod.splits)

lemma mg_pop_room:
  "mg_heap mi \<noteq> [] \<Longrightarrow> heap_Pop lt (mg_heap mi) = (hi, h) \<Longrightarrow>
   Suc (src_room (hi_iter hi)) + mg_room (mi\<lparr>mg_heap := h\<rparr>) = mg_room mi"
  using heap_Pop_mset [of "mg_heap mi" lt hi h] by (simp add: mg_room_mset)

text \<open>Entries with the same key and timestamp as the current one are dropped.\<close>

function mg_dedup :: "merge_iter \<Rightarrow> bool \<times> merge_iter" where
  "mg_dedup mi =
     (if mg_heap mi \<noteq> [] \<and> slice_of (hi_key (mg_heap mi ! 0)) = slice_of (mg_key mi) \<and> hi_ts (mg_heap mi ! 0) = mg_ts mi
      then
        let (hi, h) = heap_Pop iter_less (mg_heap mi);
            (ok, mi') = mg_advance hi (mi\<lparr>mg_heap := h\<rparr>) in
        if ok then mg_dedup mi' else (False, mi')
      else (True, mi))"
  by pat_completeness auto
termination
proof (relation "measure mg_room")
  fix mi x hi h y ok mi'
  assume a: "mg_heap mi \<noteq> [] \<and> slice_of (hi_key (mg_heap mi ! 0)) = slice_of (mg_key mi) \<and> hi_ts (mg_heap mi ! 0) = mg_ts mi"
    "x = heap_Pop iter_less (mg_heap mi)" "(hi, h) = x" "y = mg_advance hi (mi\<lparr>mg_heap := h\<rparr>)" "(ok, mi') = y" "ok"
  have "heap_Pop iter_less (mg_heap mi) = (hi, h)" using a(2,3) by simp
  from mg_pop_room [OF _ this] a(1) have "Suc (src_room (hi_iter hi)) + mg_room (mi\<lparr>mg_heap := h\<rparr>) = mg_room mi" by blast
  moreover have "mg_advance hi (mi\<lparr>mg_heap := h\<rparr>) = (ok, mi')" using a(4,5) by simp
  note mg_advance_room [OF this]
  ultimately show "(mi', mi) \<in> measure mg_room" by simp
qed simp

declare mg_dedup.simps [simp del]

definition mg_Next :: "merge_iter \<Rightarrow> bool \<times> merge_iter" where
  "mg_Next mi =
     (if mg_err mi \<noteq> None \<or> mg_heap mi = [] then (False, mi)
      else
        let (hi, h) = heap_Pop iter_less (mg_heap mi);
            mi = mi\<lparr>mg_heap := h, mg_key := hi_key hi, mg_ts := hi_ts hi, mg_value := src_Value (hi_iter hi)\<rparr>;
            (ok, mi) = mg_advance hi mi in
        if ok then mg_dedup mi else (False, mi))"

text \<open>
  \<open>Value\<close>: pointers are read from the buffer of large values, else from the value log, whose view
  is kept until \<open>Close\<close>. The tag of an empty slice cannot be read.
\<close>

definition mg_Value :: "lsm \<Rightarrow> merge_iter \<Rightarrow> (it_error + bytes option) \<times> merge_iter \<times> lsm" where
  "mg_Value e mi =
     (case mg_value mi of
        None \<Rightarrow> (Inr None, mi, e)
      | Some [] \<Rightarrow> (Inl ItPanic, mi, e)
      | Some (b # rest) \<Rightarrow>
          let (tomb, isPtr, payload) =
                (if IsValidValueTag b then (b = TypeTombstone, b = TypeValuePointer, rest)
                 else (False, length (b # rest) = ValuePointerSize, b # rest)) in
          if tomb then (Inr None, mi, e)
          else if \<not> isPtr then (Inr (Some payload), mi, e)
          else
            case DecodeValuePointer payload of
              None \<Rightarrow> (Inr (Some payload), mi, e)
            | Some vp \<Rightarrow>
                if unusable_pointer vp then (Inr (Some payload), mi, e)
                else
                  let unified = (if sint (vp_Offset vp) < int (um_Size (e_unified e))
                                 then um_ReadValue (vp_Offset vp) (vp_Size vp) (e_unified e) else Inl UmRange) in
                  case unified of
                    Inr val \<Rightarrow> (Inr (Some val), mi, e)
                  | Inl UmPanic \<Rightarrow> (Inl ItPanic, mi, e)
                  | Inl _ \<Rightarrow>
                      if sint (vp_Offset vp + scast (vp_Size vp) + 8) \<le> int (vl_Size (e_vlog e)) then
                        (case vl_ReadView vp (e_vlog e) of
                           (Inl err, v) \<Rightarrow> (Inr None, mi\<lparr>mg_err := Some (ItVlog err)\<rparr>, e\<lparr>e_vlog := v\<rparr>)
                         | (Inr view, v) \<Rightarrow>
                             (Inr (Some (vv_data view)), mi\<lparr>mg_views := mg_views mi @ [view]\<rparr>, e\<lparr>e_vlog := v\<rparr>))
                      else (Inr None, mi\<lparr>mg_err := Some ItRange\<rparr>, e))"

definition mg_IsDeleted :: "merge_iter \<Rightarrow> bool" where
  "mg_IsDeleted mi = False"

fun release_views :: "vlog_view list \<Rightarrow> vlog \<Rightarrow> vlog option" where
  "release_views [] v = Some v"
| "release_views (w # ws) v = (case vv_Release w v of None \<Rightarrow> None | Some (_, v) \<Rightarrow> release_views ws v)"

definition mg_Close :: "lsm \<Rightarrow> merge_iter \<Rightarrow> (merge_iter \<times> lsm) option" where
  "mg_Close e mi =
     (case release_views (mg_views mi) (e_vlog e) of
        None \<Rightarrow> None
      | Some v \<Rightarrow> Some (mi\<lparr>mg_heap := [], mg_key := None, mg_value := None, mg_views := []\<rparr>, e\<lparr>e_vlog := v\<rparr>))"

lemma mg_dedup_room: "mg_dedup mi = (ok, mi') \<Longrightarrow> mg_room mi' \<le> mg_room mi"
proof (induction mi rule: mg_dedup.induct)
  case (1 mi)
  show ?case
  proof (cases "mg_heap mi \<noteq> [] \<and> slice_of (hi_key (mg_heap mi ! 0)) = slice_of (mg_key mi) \<and> hi_ts (mg_heap mi ! 0) = mg_ts mi")
    case True
    obtain hi h where p: "heap_Pop iter_less (mg_heap mi) = (hi, h)" by (metis surj_pair)
    obtain ok1 mi1 where a: "mg_advance hi (mi\<lparr>mg_heap := h\<rparr>) = (ok1, mi1)" by (metis surj_pair)
    have l: "mg_room mi1 < mg_room mi" using mg_advance_room [OF a] mg_pop_room [OF _ p] True by simp
    show ?thesis
    proof (cases ok1)
      case t: True
      have "mg_dedup mi1 = (ok, mi')" using 1(2) True p a t by (simp add: mg_dedup.simps [of mi])
      from 1(1) [OF True refl p [symmetric] refl a [symmetric] t this] l show ?thesis by simp
    next
      case False
      then show ?thesis using 1(2) True p a l by (simp add: mg_dedup.simps [of mi])
    qed
  next
    case False
    then show ?thesis using 1(2) by (auto simp: mg_dedup.simps [of mi])
  qed
qed

lemma mg_Next_room: "mg_Next mi = (ok, mi') \<Longrightarrow> mg_room mi' \<le> mg_room mi \<and> (ok \<longrightarrow> mg_room mi' < mg_room mi)"
proof -
  assume n: "mg_Next mi = (ok, mi')"
  show ?thesis
  proof (cases "mg_err mi \<noteq> None \<or> mg_heap mi = []")
    case True
    then show ?thesis using n by (auto simp: mg_Next_def)
  next
    case False
    obtain hi h where p: "heap_Pop iter_less (mg_heap mi) = (hi, h)" by (metis surj_pair)
    let ?mi = "mi\<lparr>mg_heap := h, mg_key := hi_key hi, mg_ts := hi_ts hi, mg_value := src_Value (hi_iter hi)\<rparr>"
    obtain ok1 mi1 where a: "mg_advance hi ?mi = (ok1, mi1)" by (metis surj_pair)
    have "mg_room ?mi = mg_room (mi\<lparr>mg_heap := h\<rparr>)" by (simp add: mg_room_def)
    then have l: "mg_room mi1 < mg_room mi" using mg_advance_room [OF a] mg_pop_room [OF _ p] False by simp
    show ?thesis
    proof (cases ok1)
      case True
      then have "mg_dedup mi1 = (ok, mi')" using n False p a by (simp add: mg_Next_def)
      from mg_dedup_room [OF this] l show ?thesis by simp
    next
      case f: False
      then show ?thesis using n False p a l by (simp add: mg_Next_def)
    qed
  qed
qed

lemma mg_Value_room: "mg_Value e mi = (r, mi', e') \<Longrightarrow> mg_heap mi' = mg_heap mi"
  by (auto simp: mg_Value_def Let_def split: option.splits list.splits if_splits sum.splits um_error.splits prod.splits)

section \<open>The filter for versions\<close>

record mvcc_iter =
  mv_inner :: merge_iter
  mv_key :: "bytes option"
  mv_value :: "bytes option"
  mv_ended :: bool
  mv_peeked :: bool

definition NewMVCCIterator :: "merge_iter \<Rightarrow> mvcc_iter" where
  "NewMVCCIterator inner = \<lparr>mv_inner = inner, mv_key = None, mv_value = None, mv_ended = False, mv_peeked = False\<rparr>"

text \<open>One version of the current key: (best value, found, newest is a tombstone).\<close>

type_synonym version_state = "bytes option \<times> bool \<times> bool"

definition mv_version ::
    "lsm \<Rightarrow> merge_iter \<Rightarrow> version_state \<Rightarrow> (it_error + version_state) \<times> merge_iter \<times> lsm" where
  "mv_version e inner st =
     (if mg_IsDeleted inner then (case st of (best, found, _) \<Rightarrow> (Inr (best, found, True), inner, e))
      else
        case mg_Value e inner of
          (Inl err, inner, e) \<Rightarrow> (Inl err, inner, e)
        | (Inr v, inner, e) \<Rightarrow> (Inr (v, True, False), inner, e))"

lemma mv_version_heap: "mv_version e inner st = (r, inner', e') \<Longrightarrow> mg_heap inner' = mg_heap inner"
  by (auto simp: mv_version_def dest: mg_Value_room split: if_splits prod.splits sum.splits)

function mv_versions ::
    "lsm \<Rightarrow> mvcc_iter \<Rightarrow> bytes option \<Rightarrow> version_state \<Rightarrow> (it_error + version_state) \<times> mvcc_iter \<times> lsm" where
  "mv_versions e it currentKey st =
     (let (r, inner, e1) = mv_version e (mv_inner it) st in
      case r of
        Inl err \<Rightarrow> (Inl err, it\<lparr>mv_inner := inner\<rparr>, e1)
      | Inr st1 \<Rightarrow>
          let (ok, inner1) = mg_Next inner; it1 = it\<lparr>mv_inner := inner1\<rparr> in
          if \<not> ok then (Inr st1, it1\<lparr>mv_ended := True\<rparr>, e1)
          else if slice_of (mg_key inner1) \<noteq> slice_of currentKey then (Inr st1, it1\<lparr>mv_peeked := True\<rparr>, e1)
          else mv_versions e1 it1 currentKey st1)"
  by pat_completeness auto
termination
proof (relation "measure (\<lambda>(e, it, k, st). mg_room (mv_inner it))")
  fix e it currentKey st x r inner e1 st1 y z ok inner1 it1
  assume a: "x = mv_version e (mv_inner it) st" "(r, y) = x" "(inner, e1) = y" "r = Inr st1" "z = mg_Next inner"
    "(ok, inner1) = z" "it1 = it\<lparr>mv_inner := inner1\<rparr>" "\<not> \<not> ok"
  have "mg_heap inner = mg_heap (mv_inner it)" using mv_version_heap a(1-3) by metis
  then have "mg_room inner = mg_room (mv_inner it)" by (simp add: mg_room_def)
  moreover have "mg_room inner1 < mg_room inner" using mg_Next_room [of inner ok inner1] a(5,6,8) by simp
  ultimately show "((e1, it1, currentKey, st1), e, it, currentKey, st) \<in> measure (\<lambda>(e, it, k, st). mg_room (mv_inner it))"
    using a(7) by simp
qed simp

declare mv_versions.simps [simp del]

definition mv_room :: "mvcc_iter \<Rightarrow> nat" where
  "mv_room it = 2 * mg_room (mv_inner it) + (if mv_peeked it then 1 else 0) + (if mv_ended it then 0 else 1)"

lemma mv_versions_room:
  "mv_versions e it k st = (r, it', e') \<Longrightarrow> \<not> mv_peeked it \<Longrightarrow>
   mv_room it' \<le> 2 * mg_room (mv_inner it) + (if mv_ended it then 0 else 1)"
proof (induction e it k st rule: mv_versions.induct)
  case (1 e it k st)
  obtain r1 inner e1 where v: "mv_version e (mv_inner it) st = (r1, inner, e1)" by (metis surj_pair)
  have "mg_heap inner = mg_heap (mv_inner it)" by (rule mv_version_heap [OF v])
  then have room: "mg_room inner = mg_room (mv_inner it)" by (simp add: mg_room_def)
  show ?case
  proof (cases r1)
    case (Inl err)
    then show ?thesis using 1(2,3) v room by (auto simp: mv_versions.simps [of e it] mv_room_def)
  next
    case (Inr st1)
    obtain ok inner1 where n: "mg_Next inner = (ok, inner1)" by (metis surj_pair)
    note l = mg_Next_room [OF n]
    show ?thesis
    proof (cases "ok \<and> slice_of (mg_key inner1) = slice_of k")
      case True
      let ?it = "it\<lparr>mv_inner := inner1\<rparr>"
      have "mv_versions e1 ?it k st1 = (r, it', e')" using 1(2) v Inr n True by (simp add: mv_versions.simps [of e it])
      from 1(1) [OF refl v [symmetric] refl Inr refl n [symmetric] refl _ _ this] True 1(3) l room show ?thesis by simp
    next
      case False
      have "it' = it\<lparr>mv_inner := inner1, mv_ended := True\<rparr> \<or> ok \<and> it' = it\<lparr>mv_inner := inner1, mv_peeked := True\<rparr>"
        using 1(2) v Inr n False by (auto simp: mv_versions.simps [of e it] Let_def split: if_splits)
      then show ?thesis using l room 1(3) by (auto simp: mv_room_def)
    qed
  qed
qed

definition mv_position :: "mvcc_iter \<Rightarrow> bool \<times> mvcc_iter" where
  "mv_position it =
     (if mv_peeked it then (True, it\<lparr>mv_peeked := False\<rparr>)
      else let (ok, inner) = mg_Next (mv_inner it) in (ok, it\<lparr>mv_inner := inner\<rparr>))"

lemma mv_position_room:
  assumes "mv_position it = (True, it1)"
  shows "\<not> mv_peeked it1 \<and> 2 * mg_room (mv_inner it1) + (if mv_ended it1 then 0 else 1) < mv_room it"
proof (cases "mv_peeked it")
  case True
  then show ?thesis using assms by (auto simp: mv_position_def mv_room_def)
next
  case False
  then obtain inner where "mg_Next (mv_inner it) = (True, inner)" "it1 = it\<lparr>mv_inner := inner\<rparr>"
    using assms by (auto simp: mv_position_def split: prod.splits)
  then show ?thesis using mg_Next_room [of "mv_inner it" True inner] False by (simp add: mv_room_def)
qed

function mv_loop :: "lsm \<Rightarrow> mvcc_iter \<Rightarrow> (it_error + bool) \<times> mvcc_iter \<times> lsm" where
  "mv_loop e it =
     (let (ok, it1) = mv_position it in
      if \<not> ok then (Inr False, it1\<lparr>mv_ended := True\<rparr>, e)
      else
        let currentKey = mg_key (mv_inner it1) in
        if currentKey = None then mv_loop e it1
        else
          let (r, it2, e2) = mv_versions e it1 currentKey (None, False, False) in
          case r of
            Inl err \<Rightarrow> (Inl err, it2, e2)
          | Inr (best, found, tomb) \<Rightarrow>
              if found \<and> \<not> tomb \<and> best \<noteq> None then (Inr True, it2\<lparr>mv_key := currentKey, mv_value := best\<rparr>, e2)
              else mv_loop e2 it2)"
  by pat_completeness auto
termination
proof (relation "measure (\<lambda>(e, it). mv_room it)", goal_cases)
  case (2 e it x ok it1 currentKey)
  then have "mv_position it = (True, it1)" by simp
  from mv_position_room [OF this] show ?case by (simp add: mv_room_def)
next
  case (3 e it x ok it1 currentKey y r z it2 e2)
  then have p: "mv_position it = (True, it1)" and v: "mv_versions e it1 currentKey (None, False, False) = (r, it2, e2)" by simp_all
  from mv_position_room [OF p] mv_versions_room [OF v] show ?case by simp
qed simp

declare mv_loop.simps [simp del]

definition mv_Next :: "lsm \<Rightarrow> mvcc_iter \<Rightarrow> (it_error + bool) \<times> mvcc_iter \<times> lsm" where
  "mv_Next e it = (if mv_ended it then (Inr False, it, e) else mv_loop e it)"

text \<open>No error of the inner iterator is reported.\<close>

definition mv_Err :: "mvcc_iter \<Rightarrow> it_error option" where
  "mv_Err it = None"

definition mv_Close :: "lsm \<Rightarrow> mvcc_iter \<Rightarrow> (mvcc_iter \<times> lsm) option" where
  "mv_Close e it =
     (case mg_Close e (mv_inner it) of None \<Rightarrow> None | Some (inner, e) \<Rightarrow> Some (it\<lparr>mv_inner := inner\<rparr>, e))"

section \<open>Scan\<close>

datatype scan_iter = EmptyIter | MvccIter mvcc_iter

definition e_Scan :: "lsm \<Rightarrow> bytes \<Rightarrow> it_error + scan_iter" where
  "e_Scan e prefix =
     (case NewMergeIteratorWithSnapshot prefix (mt_list e) (e_levels e) of
        Inl err \<Rightarrow> Inl err
      | Inr mi \<Rightarrow>
          if mg_heap mi = [] \<and> mg_err mi = None then Inr EmptyIter else Inr (MvccIter (NewMVCCIterator mi)))"

text \<open>The loop of a client over an iterator: the keys and values it sees.\<close>

function mv_collect :: "lsm \<Rightarrow> mvcc_iter \<Rightarrow> it_error + (bytes option \<times> bytes option) list" where
  "mv_collect e it =
     (let (r, it1, e1) = mv_Next e it in
      case r of
        Inl err \<Rightarrow> Inl err
      | Inr hasNext \<Rightarrow>
          if \<not> hasNext then Inr []
          else case mv_collect e1 it1 of Inl err \<Rightarrow> Inl err | Inr kvs \<Rightarrow> Inr ((mv_key it1, mv_value it1) # kvs))"
  by pat_completeness auto

lemma mv_loop_less: "mv_loop e it = (Inr True, it', e') \<Longrightarrow> mv_room it' < mv_room it"
proof (induction e it rule: mv_loop.induct)
  case (1 e it)
  obtain ok it1 where p: "mv_position it = (ok, it1)" by (metis surj_pair)
  have ok: "ok" using 1(3) p by (auto simp: mv_loop.simps [of e it] split: if_splits)
  note l = mv_position_room [OF p [unfolded eqTrueI [OF ok]]]
  show ?case
  proof (cases "mg_key (mv_inner it1)")
    case None
    have "mv_loop e it1 = (Inr True, it', e')" using 1(3) p ok None by (simp add: mv_loop.simps [of e it])
    from 1(1) [OF refl p [symmetric] _ refl None this] ok l show ?thesis by (simp add: mv_room_def)
  next
    case (Some k)
    obtain r it2 e2 where v: "mv_versions e it1 (Some k) (None, False, False) = (r, it2, e2)" by (metis surj_pair)
    note l2 = mv_versions_room [OF v l [THEN conjunct1]]
    obtain best found tomb where r: "r = Inr (best, found, tomb)"
      using 1(3) p ok Some v by (cases r) (auto simp: mv_loop.simps [of e it])
    show ?thesis
    proof (cases "found \<and> \<not> tomb \<and> best \<noteq> None")
      case True
      then have "it' = it2\<lparr>mv_key := Some k, mv_value := best\<rparr>"
        using 1(3) p ok Some v r by (simp add: mv_loop.simps [of e it])
      then have "mv_room it' = mv_room it2" by (simp add: mv_room_def)
      with l l2 show ?thesis by simp
    next
      case False
      have "(if found \<and> \<not> tomb \<and> best \<noteq> None then (Inr True, it2\<lparr>mv_key := Some k, mv_value := best\<rparr>, e2)
          else mv_loop e2 it2) = (Inr True, it', e')"
        using 1(3) p ok Some v r by (simp add: mv_loop.simps [of e it])
      then have "mv_loop e2 it2 = (Inr True, it', e')" unfolding if_not_P [OF False] .
      note ih = 1(2) [OF refl p [symmetric] _ refl _ refl v [folded Some, symmetric] refl r refl refl False this]
      from ih ok Some l l2 show ?thesis by simp
    qed
  qed
qed

lemma mv_Next_less: "mv_Next e it = (Inr True, it', e') \<Longrightarrow> mv_room it' < mv_room it"
  by (auto simp: mv_Next_def dest: mv_loop_less split: if_splits)

termination mv_collect
proof (relation "measure (\<lambda>(e, it). mv_room it)", goal_cases)
  case (2 e it x r y it1 e1 hasNext)
  then have "mv_Next e it = (Inr True, it1, e1)" by simp
  from mv_Next_less [OF this] show ?case by simp
qed simp

declare mv_collect.simps [simp del]

fun scan_collect :: "lsm \<Rightarrow> scan_iter \<Rightarrow> it_error + (bytes option \<times> bytes option) list" where
  "scan_collect e EmptyIter = Inr []"
| "scan_collect e (MvccIter it) = mv_collect e it"

definition scan_all :: "lsm \<Rightarrow> bytes \<Rightarrow> it_error + (bytes option \<times> bytes option) list" where
  "scan_all e prefix = (case e_Scan e prefix of Inl err \<Rightarrow> Inl err | Inr it \<Rightarrow> scan_collect e it)"

end
