(* ===== verification/Txn.thy ===== *)
theory Txn
  imports Batch
begin

text \<open>
  Models \<^verbatim>\<open>internal/txn/transaction.go\<close>, \<^verbatim>\<open>interface.go\<close> and the two \<^verbatim>\<open>ApplyBatch\<close> functions of
  \<^verbatim>\<open>batch.go\<close>: optimistic transactions over the \<^verbatim>\<open>Engine\<close> interface, whose methods are the fields
  of the record \<open>engine_ops\<close>. The order in which Go ranges over the write buffer is a
  parameter. The laws a transaction relies on are the locale \<open>txn_engine\<close>; it is interpreted
  with the LSM engine in the theory that models it.
\<close>

datatype 'x txn_error = TxnConflict | TxnClosed | TxnEncode batch_error | TxnEngine 'x

text \<open>\<open>'e\<close> is the engine, \<open>'x\<close> its errors; a conflict check may change the engine's caches.\<close>

record ('e, 'x) engine_ops =
  eng_WriteAtomicBatch :: "bytes \<Rightarrow> u64 \<Rightarrow> 'e \<Rightarrow> 'x option \<times> 'e"
  eng_NextTimestamp :: "'e \<Rightarrow> u64 \<times> 'e"
  eng_RegisterSnapshot :: "u64 \<Rightarrow> 'e \<Rightarrow> 'e"
  eng_UnregisterSnapshot :: "u64 \<Rightarrow> 'e \<Rightarrow> 'e"
  eng_CheckConflict :: "bytes \<Rightarrow> u64 \<Rightarrow> 'e \<Rightarrow> ('x + bool) \<times> 'e"
  eng_GetWithTS :: "bytes \<Rightarrow> u64 \<Rightarrow> 'e \<Rightarrow> 'x + bytes option"

text \<open>\<^verbatim>\<open>ApplyBatch\<close> and \<^verbatim>\<open>ApplyBatchWithTS\<close>.\<close>

definition ApplyBatch :: "('e, 'x) engine_ops \<Rightarrow> write_batch \<Rightarrow> 'e \<Rightarrow> ('x txn_error + u64) \<times> 'e" where
  "ApplyBatch db batch e =
     (if wb_Size batch = 0 then (Inr 0, e)
      else
        let (commitTS, e) = eng_NextTimestamp db e in
        case EncodeBatch batch of
          Inl err \<Rightarrow> (Inl (TxnEncode err), e)
        | Inr encoded \<Rightarrow>
            (case eng_WriteAtomicBatch db encoded commitTS e of
               (Some err, e) \<Rightarrow> (Inl (TxnEngine err), e)
             | (None, e) \<Rightarrow> (Inr commitTS, e)))"

definition ApplyBatchWithTS ::
    "('e, 'x) engine_ops \<Rightarrow> write_batch \<Rightarrow> u64 \<Rightarrow> 'e \<Rightarrow> 'x txn_error option \<times> 'e" where
  "ApplyBatchWithTS db batch commitTS e =
     (if wb_Size batch = 0 then (None, e)
      else
        case EncodeBatch batch of
          Inl err \<Rightarrow> (Some (TxnEncode err), e)
        | Inr encoded \<Rightarrow>
            (case eng_WriteAtomicBatch db encoded commitTS e of
               (Some err, e) \<Rightarrow> (Some (TxnEngine err), e)
             | (None, e) \<Rightarrow> (None, e)))"

record pending_op =
  po_Type :: int
  po_Key :: bytes
  po_Value :: "bytes option"

record transaction =
  tx_startTS :: u64
  tx_writes :: "bytes \<rightharpoonup> pending_op"
  tx_closed :: bool

definition Begin :: "('e, 'x) engine_ops \<Rightarrow> u64 \<Rightarrow> 'e \<Rightarrow> transaction \<times> 'e" where
  "Begin db startTS e =
     (let e = eng_RegisterSnapshot db startTS e in
      (\<lparr>tx_startTS = startTS, tx_writes = Map.empty, tx_closed = False\<rparr>, e))"

definition BeginWithNextTS :: "('e, 'x) engine_ops \<Rightarrow> 'e \<Rightarrow> transaction \<times> 'e" where
  "BeginWithNextTS db e = (let (startTS, e) = eng_NextTimestamp db e in Begin db startTS e)"

definition tx_Get :: "('e, 'x) engine_ops \<Rightarrow> bytes \<Rightarrow> transaction \<Rightarrow> 'e \<Rightarrow> 'x txn_error + bytes option" where
  "tx_Get db key tx e =
     (if tx_closed tx then Inl TxnClosed
      else
        case tx_writes tx key of
          Some op \<Rightarrow> if po_Type op = txn_OpDelete then Inr None else Inr (po_Value op)
        | None \<Rightarrow>
            (case eng_GetWithTS db key (tx_startTS tx) e of
               Inl err \<Rightarrow> Inl (TxnEngine err)
             | Inr v \<Rightarrow> Inr v))"

definition tx_Put :: "bytes \<Rightarrow> bytes option \<Rightarrow> transaction \<Rightarrow> 'x txn_error option \<times> transaction" where
  "tx_Put key val tx =
     (if tx_closed tx then (Some TxnClosed, tx)
      else (None, tx\<lparr>tx_writes := (tx_writes tx)(key \<mapsto>
        \<lparr>po_Type = txn_OpPut, po_Key = key, po_Value = val\<rparr>)\<rparr>))"

definition tx_Delete :: "bytes \<Rightarrow> transaction \<Rightarrow> 'x txn_error option \<times> transaction" where
  "tx_Delete key tx =
     (if tx_closed tx then (Some TxnClosed, tx)
      else (None, tx\<lparr>tx_writes := (tx_writes tx)(key \<mapsto>
        \<lparr>po_Type = txn_OpDelete, po_Key = key, po_Value = None\<rparr>)\<rparr>))"

text \<open>The two loops of \<open>Commit\<close> over the write buffer, in the order \<open>ks\<close> and \<open>ks'\<close>.\<close>

fun check_conflicts ::
    "('e, 'x) engine_ops \<Rightarrow> u64 \<Rightarrow> (bytes \<rightharpoonup> pending_op) \<Rightarrow> bytes list \<Rightarrow> 'e \<Rightarrow> 'x txn_error option \<times> 'e" where
  "check_conflicts db startTS writes [] e = (None, e)"
| "check_conflicts db startTS writes (k # ks) e =
     (case writes k of
        None \<Rightarrow> check_conflicts db startTS writes ks e
      | Some op \<Rightarrow>
          (case eng_CheckConflict db (po_Key op) startTS e of
             (Inl err, e) \<Rightarrow> (Some (TxnEngine err), e)
           | (Inr True, e) \<Rightarrow> (Some TxnConflict, e)
           | (Inr False, e) \<Rightarrow> check_conflicts db startTS writes ks e))"

fun collect_batch :: "(bytes \<rightharpoonup> pending_op) \<Rightarrow> bytes list \<Rightarrow> write_batch \<Rightarrow> write_batch" where
  "collect_batch writes [] b = b"
| "collect_batch writes (k # ks) b =
     (case writes k of
        None \<Rightarrow> collect_batch writes ks b
      | Some op \<Rightarrow>
          if po_Type op = txn_OpPut then collect_batch writes ks (AddPut (po_Key op) (po_Value op) b)
          else if po_Type op = txn_OpDelete then collect_batch writes ks (AddDelete (po_Key op) b)
          else collect_batch writes ks b)"

definition tx_Commit ::
    "('e, 'x) engine_ops \<Rightarrow> bytes list \<Rightarrow> bytes list \<Rightarrow> transaction \<Rightarrow> 'e \<Rightarrow>
     'x txn_error option \<times> transaction \<times> 'e" where
  "tx_Commit db ks ks' tx e =
     (if tx_closed tx then (Some TxnClosed, tx, e)
      else
        let finish = (\<lambda>r e. (r, tx\<lparr>tx_closed := True\<rparr>, eng_UnregisterSnapshot db (tx_startTS tx) e)) in
        if tx_writes tx = Map.empty then finish None e
        else
          case check_conflicts db (tx_startTS tx) (tx_writes tx) ks e of
            (Some err, e) \<Rightarrow> finish (Some err) e
          | (None, e) \<Rightarrow>
              let (commitTS, e) = eng_NextTimestamp db e;
                  commitTS = (if commitTS \<le> tx_startTS tx then tx_startTS tx + 1 else commitTS);
                  batch = collect_batch (tx_writes tx) ks' NewWriteBatch;
                  (r, e) = ApplyBatchWithTS db batch commitTS e
              in finish r e)"

definition tx_Rollback :: "('e, 'x) engine_ops \<Rightarrow> transaction \<Rightarrow> 'e \<Rightarrow> 'x txn_error option \<times> transaction \<times> 'e" where
  "tx_Rollback db tx e =
     (if tx_closed tx then (Some TxnClosed, tx, e)
      else (None, tx\<lparr>tx_closed := True, tx_writes := Map.empty\<rparr>,
            eng_UnregisterSnapshot db (tx_startTS tx) e))"

definition tx_StartTS :: "transaction \<Rightarrow> u64" where
  "tx_StartTS tx = tx_startTS tx"

definition tx_IsClosed :: "transaction \<Rightarrow> bool" where
  "tx_IsClosed tx = tx_closed tx"

section \<open>Well-formed write buffers\<close>

definition pending_fits :: "bytes \<Rightarrow> pending_op \<Rightarrow> bool" where
  "pending_fits k op \<longleftrightarrow> po_Key op = k \<and> length k < 2 ^ 16 \<and>
     length (slice_of (po_Value op)) < 2 ^ 32 \<and>
     (po_Type op = txn_OpPut \<and> po_Value op \<noteq> None \<or> po_Type op = txn_OpDelete \<and> po_Value op = None)"

definition tx_wf :: "transaction \<Rightarrow> bytes list \<Rightarrow> bool" where
  "tx_wf tx ks \<longleftrightarrow> distinct ks \<and> set ks = dom (tx_writes tx) \<and> length ks < 2 ^ 16 \<and>
     (\<forall>k op. tx_writes tx k = Some op \<longrightarrow> pending_fits k op)"

definition batch_of :: "pending_op \<Rightarrow> batch_op" where
  "batch_of op = \<lparr>bo_Type = po_Type op, bo_Key = po_Key op, bo_Value = po_Value op\<rparr>"

lemma txn_ops_distinct [simp]: "txn_OpPut \<noteq> txn_OpDelete" "txn_OpDelete \<noteq> txn_OpPut"
  by (simp_all add: txn_OpPut_def txn_OpDelete_def)

lemma collect_batch_eq:
  assumes "\<And>k. k \<in> set ks \<Longrightarrow> \<exists>op. w k = Some op \<and> pending_fits k op"
  shows "collect_batch w ks b = b\<lparr>wb_ops := wb_ops b @ map (\<lambda>k. batch_of (the (w k))) ks\<rparr>"
  using assms
proof (induction ks arbitrary: b)
  case (Cons k ks)
  then obtain op where op: "w k = Some op" "pending_fits k op" by auto
  have "collect_batch w (k # ks) b = collect_batch w ks (b\<lparr>wb_ops := wb_ops b @ [batch_of op]\<rparr>)"
    using op by (auto simp: pending_fits_def AddPut_def AddDelete_def batch_of_def)
  with Cons op show ?case by simp
qed simp

definition writes_of :: "transaction \<Rightarrow> bytes list \<Rightarrow> write_batch" where
  "writes_of tx ks = \<lparr>wb_ops = map (\<lambda>k. batch_of (the (tx_writes tx k))) ks\<rparr>"

lemma tx_wf_op: "tx_wf tx ks \<Longrightarrow> k \<in> set ks \<Longrightarrow> \<exists>op. tx_writes tx k = Some op \<and> pending_fits k op"
  by (auto simp: tx_wf_def)

lemma writes_of_keys: "tx_wf tx ks \<Longrightarrow> map bo_Key (wb_ops (writes_of tx ks)) = ks"
proof -
  assume wf: "tx_wf tx ks"
  have "bo_Key (batch_of (the (tx_writes tx k))) = k" if "k \<in> set ks" for k
    using tx_wf_op [OF wf that] by (auto simp: batch_of_def pending_fits_def)
  then show ?thesis by (simp add: writes_of_def map_idI)
qed

lemma writes_of_fits: "tx_wf tx ks \<Longrightarrow> batch_fits (writes_of tx ks)"
proof -
  assume wf: "tx_wf tx ks"
  have "op_fits (batch_of (the (tx_writes tx k)))" if "k \<in> set ks" for k
    using tx_wf_op [OF wf that] by (auto simp: batch_of_def pending_fits_def op_fits_def)
  then show ?thesis using wf by (auto simp: writes_of_def batch_fits_def tx_wf_def)
qed

lemma writes_of_set:
  "tx_wf tx ks \<Longrightarrow> bo_Key ` set (wb_ops (writes_of tx ks)) = dom (tx_writes tx)"
  using writes_of_keys [of tx ks] by (auto simp: tx_wf_def simp flip: set_map)

abbreviation batch_keys :: "write_batch \<Rightarrow> bytes set" where
  "batch_keys b \<equiv> bo_Key ` set (wb_ops b)"

text \<open>\<open>e'\<close> admits what \<open>e\<close> admits among the batches on the keys of \<open>b\<close>.\<close>

definition keeps_admitted :: "('e \<Rightarrow> write_batch \<Rightarrow> bool) \<Rightarrow> write_batch \<Rightarrow> 'e \<Rightarrow> 'e \<Rightarrow> bool" where
  "keeps_admitted admits b e e' \<longleftrightarrow> (\<forall>b'. admits e b' \<and> batch_keys b' \<subseteq> batch_keys b \<longrightarrow> admits e' b')"

lemma keeps_admittedD: "keeps_admitted admits b e e' \<Longrightarrow> admits e b \<Longrightarrow> admits e' b"
  by (simp add: keeps_admitted_def)

lemma keeps_admitted_trans:
  "keeps_admitted admits b e e1 \<Longrightarrow> keeps_admitted admits b e1 e2 \<Longrightarrow> keeps_admitted admits b e e2"
  by (simp add: keeps_admitted_def)

lemma keeps_admitted_refl: "keeps_admitted admits b e e"
  by (simp add: keeps_admitted_def)

section \<open>What a transaction relies on\<close>

text \<open>
  \<open>view e k t\<close> is the value of \<open>k\<close> at snapshot \<open>t\<close>, \<open>changed e k t\<close> says that a version of \<open>k\<close>
  was committed after \<open>t\<close>, \<open>clock e\<close> bounds the timestamps handed out. \<open>ok\<close> is the provider's
  invariant, and \<open>admits e b\<close> its condition on a batch. A conflict check may move things in the
  provider's caches, but nothing of this.
\<close>

locale txn_engine =
  fixes db :: "('e, 'x) engine_ops"
    and ok :: "'e \<Rightarrow> bool"
    and view :: "'e \<Rightarrow> bytes \<Rightarrow> u64 \<Rightarrow> bytes option"
    and changed :: "'e \<Rightarrow> bytes \<Rightarrow> u64 \<Rightarrow> bool"
    and clock :: "'e \<Rightarrow> u64"
    and admits :: "'e \<Rightarrow> write_batch \<Rightarrow> bool"
  assumes get: "ok e \<Longrightarrow> eng_GetWithTS db k t e = Inr (view e k t)"
    and conflict: "ok e \<Longrightarrow> admits e b \<Longrightarrow> k \<in> batch_keys b \<Longrightarrow>
      \<exists>e'. eng_CheckConflict db k t e = (Inr (changed e k t), e') \<and> ok e' \<and> clock e' = clock e \<and>
        view e' = view e \<and> changed e' = changed e \<and>
        keeps_admitted admits b e e'"
    and changed_clock: "ok e \<Longrightarrow> changed e k t \<Longrightarrow> t < clock e"
    and next_ok: "ok e \<Longrightarrow> clock e \<noteq> - 1 \<Longrightarrow> eng_NextTimestamp db e = (t, e') \<Longrightarrow>
      ok e' \<and> clock e < t \<and> clock e' = t \<and> view e' = view e \<and> changed e' = changed e \<and>
      (admits e b \<longrightarrow> admits e' b)"
    and reg: "ok e \<Longrightarrow> e' = eng_RegisterSnapshot db t e \<or> e' = eng_UnregisterSnapshot db t e \<Longrightarrow>
      ok e' \<and> clock e' = clock e \<and> view e' = view e \<and> changed e' = changed e \<and>
      (admits e b \<longrightarrow> admits e' b)"
    and write_ok: "ok e \<Longrightarrow> batch_fits b \<Longrightarrow> admits e b \<Longrightarrow> distinct (map bo_Key (wb_ops b)) \<Longrightarrow>
      wb_ops b \<noteq> [] \<Longrightarrow> EncodeBatch b = Inr d \<Longrightarrow> t \<le> clock e \<Longrightarrow> (\<And>k. \<not> changed e k (t - 1)) \<Longrightarrow> 0 < t \<Longrightarrow>
      \<exists>e'. eng_WriteAtomicBatch db d t e = (None, e') \<and> ok e' \<and> clock e' = clock e \<and>
        (\<forall>k s. changed e' k s \<longleftrightarrow> changed e k s \<or> k \<in> batch_keys b \<and> s < t) \<and>
        (\<forall>k s. s < t \<or> k \<notin> batch_keys b \<longrightarrow> view e' k s = view e k s) \<and>
        (\<forall>op \<in> set (wb_ops b). \<forall>s. t \<le> s \<longrightarrow> view e' (bo_Key op) s = bo_Value op) \<and>
        keeps_admitted admits b e e'"
begin

text \<open>Beginning a transaction leaves the data alone.\<close>

lemma Begin_eq:
  assumes "ok e"
  shows "\<exists>e'. Begin db t e = (\<lparr>tx_startTS = t, tx_writes = Map.empty, tx_closed = False\<rparr>, e') \<and>
    ok e' \<and> clock e' = clock e \<and> view e' = view e \<and> changed e' = changed e"
  using reg [OF assms, of "eng_RegisterSnapshot db t e" t] by (simp add: Begin_def)

text \<open>A read in an open transaction: its own write if there is one, else its snapshot.\<close>

lemma tx_Get_eq:
  assumes "ok e" "\<not> tx_closed tx" "tx_wf tx ks"
  shows "tx_Get db k tx e =
    Inr (case tx_writes tx k of Some op \<Rightarrow> po_Value op | None \<Rightarrow> view e k (tx_startTS tx))"
proof (cases "tx_writes tx k")
  case None
  with assms show ?thesis by (simp add: tx_Get_def get)
next
  case (Some op)
  then have "pending_fits k op" using assms(3) by (simp add: tx_wf_def)
  with Some assms(2) show ?thesis by (auto simp: tx_Get_def pending_fits_def)
qed

text \<open>The conflict loop stops at the first changed key.\<close>

lemma check_conflicts_eq:
  assumes "ok e" "admits e b" "set ks \<subseteq> batch_keys b"
    and "\<forall>k \<in> set ks. \<exists>op. w k = Some op \<and> po_Key op = k"
  shows "\<exists>e'. check_conflicts db ts w ks e = (if \<exists>k \<in> set ks. changed e k ts then Some TxnConflict else None, e') \<and>
    ok e' \<and> clock e' = clock e \<and> view e' = view e \<and> changed e' = changed e \<and>
    keeps_admitted admits b e e'"
  using assms
proof (induction ks arbitrary: e)
  case (Cons k ks)
  obtain op where op: "w k = Some op" "po_Key op = k" using Cons.prems(4) by auto
  have "k \<in> batch_keys b" using Cons.prems(3) by simp
  from conflict [OF Cons.prems(1,2) this, of ts]
  obtain e1 where e1: "eng_CheckConflict db k ts e = (Inr (changed e k ts), e1)" "ok e1" "clock e1 = clock e"
    "view e1 = view e" "changed e1 = changed e" "keeps_admitted admits b e e1"
    by (elim exE conjE) (rule that)
  show ?case
  proof (cases "changed e k ts")
    case True
    then have "check_conflicts db ts w (k # ks) e =
        (if \<exists>k \<in> set (k # ks). changed e k ts then Some TxnConflict else None, e1)"
      using op e1(1) by simp
    then show ?thesis using e1(2-6) by blast
  next
    case False
    have h: "set ks \<subseteq> batch_keys b" "\<forall>k \<in> set ks. \<exists>op. w k = Some op \<and> po_Key op = k"
      using Cons.prems(3,4) by simp_all
    have adm: "admits e1 b" by (rule keeps_admittedD [OF e1(6) Cons.prems(2)])
    from Cons.IH [OF e1(2) adm h] obtain e2 where e2:
      "check_conflicts db ts w ks e1 = (if \<exists>k \<in> set ks. changed e1 k ts then Some TxnConflict else None, e2)"
      "ok e2" "clock e2 = clock e1" "view e2 = view e1" "changed e2 = changed e1"
      "keeps_admitted admits b e1 e2"
      by (elim exE conjE) (rule that)
    have "check_conflicts db ts w (k # ks) e =
        (if \<exists>k \<in> set (k # ks). changed e k ts then Some TxnConflict else None, e2)"
      using False op e1(1) e2(1) by (simp add: e1(5))
    moreover have "keeps_admitted admits b e e2" by (rule keeps_admitted_trans [OF e1(6) e2(6)])
    ultimately show ?thesis using e2(2-5) unfolding e1(3-5) by blast
  qed
qed (auto intro: keeps_admitted_refl)

lemma conflict_loop:
  assumes "ok e" "admits e (writes_of tx ks')" "tx_wf tx ks" "tx_wf tx ks'"
  shows "\<exists>e'. check_conflicts db (tx_startTS tx) (tx_writes tx) ks e =
      (if \<exists>k \<in> dom (tx_writes tx). changed e k (tx_startTS tx) then Some TxnConflict else None, e') \<and>
    ok e' \<and> clock e' = clock e \<and> view e' = view e \<and> changed e' = changed e \<and>
    keeps_admitted admits (writes_of tx ks') e e'"
proof -
  have ks: "set ks = dom (tx_writes tx)" using assms(3) by (simp add: tx_wf_def)
  have k: "\<forall>k \<in> set ks. \<exists>op. tx_writes tx k = Some op \<and> po_Key op = k"
    using tx_wf_op [OF assms(3)] by (fastforce simp: pending_fits_def)
  have sub: "set ks \<subseteq> bo_Key ` set (wb_ops (writes_of tx ks'))" using writes_of_set [OF assms(4)] ks by simp
  show ?thesis using check_conflicts_eq [OF assms(1,2) sub k] unfolding ks by blast
qed

lemma commit_conflict:
  assumes "ok e" "\<not> tx_closed tx" "tx_wf tx ks" "tx_wf tx ks'" "admits e (writes_of tx ks')"
    and "k \<in> dom (tx_writes tx)" "changed e k (tx_startTS tx)"
  shows "\<exists>e'. tx_Commit db ks ks' tx e = (Some TxnConflict, tx\<lparr>tx_closed := True\<rparr>, e') \<and>
    ok e' \<and> clock e' = clock e \<and> view e' = view e \<and> changed e' = changed e"
proof -
  have "\<exists>k \<in> dom (tx_writes tx). changed e k (tx_startTS tx)" using assms(6,7) by blast
  then obtain e1 where e1: "check_conflicts db (tx_startTS tx) (tx_writes tx) ks e = (Some TxnConflict, e1)"
    "ok e1" "clock e1 = clock e" "view e1 = view e" "changed e1 = changed e"
    using conflict_loop [OF assms(1,5,3,4)] by (elim exE conjE) (simp add: that)
  moreover have "tx_writes tx \<noteq> Map.empty" using assms(6) by auto
  ultimately show ?thesis
    using assms(2) reg [OF e1(2), of "eng_UnregisterSnapshot db (tx_startTS tx) e1" "tx_startTS tx"]
    by (simp add: tx_Commit_def Let_def)
qed

lemma commit_ok:
  assumes ok: "ok e" and open_tx: "\<not> tx_closed tx" and wf: "tx_wf tx ks" "tx_wf tx ks'"
    and ne: "tx_writes tx \<noteq> Map.empty" and clock: "tx_startTS tx \<le> clock e" "clock e \<noteq> - 1"
    and free: "\<And>k. k \<in> dom (tx_writes tx) \<Longrightarrow> \<not> changed e k (tx_startTS tx)"
    and adm: "admits e (writes_of tx ks')"
  shows "\<exists>t e'. tx_Commit db ks ks' tx e = (None, tx\<lparr>tx_closed := True\<rparr>, e') \<and>
    ok e' \<and> clock e < t \<and> clock e' = t \<and>
    (\<forall>k s. changed e' k s \<longleftrightarrow> changed e k s \<or> k \<in> dom (tx_writes tx) \<and> s < t) \<and>
    (\<forall>k s. view e' k s =
       (case tx_writes tx k of Some op \<Rightarrow> if t \<le> s then po_Value op else view e k s
        | None \<Rightarrow> view e k s)) \<and> keeps_admitted admits (writes_of tx ks') e e'"
proof -
  let ?b = "writes_of tx ks'"
  obtain e0 where e0: "check_conflicts db (tx_startTS tx) (tx_writes tx) ks e = (None, e0)"
    "ok e0" "clock e0 = clock e" "view e0 = view e" "changed e0 = changed e" "keeps_admitted admits ?b e e0"
    using conflict_loop [OF ok adm wf] free by (elim exE conjE) (simp add: that)
  obtain t e1 where nt: "eng_NextTimestamp db e0 = (t, e1)" by (cases "eng_NextTimestamp db e0")
  have "clock e0 \<noteq> - 1" using clock(2) e0(3) by simp
  note n = next_ok [OF e0(2) this nt]
  have e1: "ok e1" "clock e1 = t" "view e1 = view e" "changed e1 = changed e" "keeps_admitted admits ?b e0 e1"
    and lt: "clock e < t" using n e0 by (auto simp: keeps_admitted_def)
  have k1: "keeps_admitted admits ?b e e1" by (rule keeps_admitted_trans [OF e0(6) e1(5)])
  have adm1: "admits e1 ?b" by (rule keeps_admittedD [OF k1 adm])
  have gt: "\<not> t \<le> tx_startTS tx" using lt clock(1) by simp
  have t0: "0 < t" using lt by (simp add: word_less_nat_alt)
  have fresh: "\<not> changed e1 k (t - 1)" for k
  proof
    assume "changed e1 k (t - 1)"
    then have "t - 1 < clock e" using changed_clock [OF ok] e1(4) by simp
    moreover have "unat (t - 1) = unat t - 1" using t0 by (intro unat_minus_one) auto
    ultimately show False using lt t0 by (simp add: word_less_nat_alt)
  qed
  have keys: "map bo_Key (wb_ops ?b) = ks'" by (rule writes_of_keys [OF wf(2)])
  then have keyset: "bo_Key ` set (wb_ops ?b) = dom (tx_writes tx)" and dist: "distinct (map bo_Key (wb_ops ?b))"
    using wf(2) by (auto simp: tx_wf_def simp flip: set_map)
  have nonempty: "wb_ops ?b \<noteq> []" using keyset ne by (metis dom_eq_empty_conv image_is_empty set_empty)
  have fits: "batch_fits ?b" by (rule writes_of_fits [OF wf(2)])
  obtain d where d: "EncodeBatch ?b = Inr d" using EncodeBatch_eq [OF fits] by blast
  have "t \<le> clock e1" using e1(2) by simp
  from write_ok [OF e1(1) fits adm1 dist nonempty d this fresh t0]
  obtain e2 where e2: "eng_WriteAtomicBatch db d t e1 = (None, e2)" "ok e2"
    "clock e2 = clock e1"
    "\<forall>k s. changed e2 k s \<longleftrightarrow> changed e1 k s \<or> k \<in> bo_Key ` set (wb_ops ?b) \<and> s < t"
    "\<forall>k s. s < t \<or> k \<notin> bo_Key ` set (wb_ops ?b) \<longrightarrow> view e2 k s = view e1 k s"
    "\<forall>op \<in> set (wb_ops ?b). \<forall>s. t \<le> s \<longrightarrow> view e2 (bo_Key op) s = bo_Value op"
    "keeps_admitted admits ?b e1 e2"
    by blast
  have coll: "collect_batch (tx_writes tx) ks' NewWriteBatch = ?b"
    using collect_batch_eq [of ks' "tx_writes tx"] tx_wf_op [OF wf(2)]
    by (simp add: NewWriteBatch_def writes_of_def)
  have applied: "ApplyBatchWithTS db ?b t e1 = (None, e2)"
    using nonempty d e2(1) by (simp add: ApplyBatchWithTS_def wb_Size_def)
  let ?e3 = "eng_UnregisterSnapshot db (tx_startTS tx) e2"
  have e3: "ok ?e3" "view ?e3 = view e2" "changed ?e3 = changed e2" "clock ?e3 = clock e2"
    "keeps_admitted admits ?b e2 ?e3"
    using reg [OF e2(2), of ?e3 "tx_startTS tx"] by (auto simp: keeps_admitted_def)
  have k3: "keeps_admitted admits ?b e ?e3"
    by (rule keeps_admitted_trans [OF keeps_admitted_trans [OF k1 e2(7)] e3(5)])
  have run: "tx_Commit db ks ks' tx e = (None, tx\<lparr>tx_closed := True\<rparr>, ?e3)"
    using open_tx ne e0(1) nt gt coll applied by (simp add: tx_Commit_def Let_def)
  have own: "view e2 k s = po_Value op" if "tx_writes tx k = Some op" "t \<le> s" for k op s
  proof -
    have k: "k \<in> set ks'" using that(1) wf(2) by (auto simp: tx_wf_def)
    then have "batch_of op \<in> set (wb_ops ?b)" using that(1) by (force simp: writes_of_def)
    moreover have "bo_Key (batch_of op) = k" "bo_Value (batch_of op) = po_Value op"
      using tx_wf_op [OF wf(2) k] that(1) by (auto simp: batch_of_def pending_fits_def)
    ultimately show ?thesis using e2(6) that(2) by metis
  qed
  have "view ?e3 k s =
       (case tx_writes tx k of Some op \<Rightarrow> if t \<le> s then po_Value op else view e k s
        | None \<Rightarrow> view e k s)" for k s
    using own [of k _ s] e2(5) keyset e1(3) e3(2)
    by (auto split: option.split simp: not_le)
  with run e3(1-4) k3 lt e2(3,4) e1(2,4) keyset show ?thesis by auto
qed

end

end
