(* ===== verification/ColumnFamily.thy ===== *)
theory ColumnFamily
  imports Txn LSM
begin

text \<open>
  Models \<^verbatim>\<open>internal/cf\<close>: the registry of column families (\<^verbatim>\<open>registry.go\<close>) and batches that span
  several of them (\<^verbatim>\<open>batch.go\<close>). Opening the engine of a directory is a parameter (\<open>opener\<close>),
  as are the results of the file-system calls and the orders in which Go ranges over its maps.
\<close>

datatype cf_error =
  CfIO | CfExists | CfNotFound | CfSystem | CfEmptyName | CfNilMap
| CfEngine lsm_error | CfTxn "lsm_error txn_error"

text \<open>The map of engines; \<open>None\<close> is the nil map that \<open>Close\<close> leaves.\<close>

record registry =
  reg_cfs :: "(string \<rightharpoonup> lsm) option"

definition cf_lookup :: "string \<Rightarrow> registry \<Rightarrow> lsm option" where
  "cf_lookup name r = (case reg_cfs r of None \<Rightarrow> None | Some m \<Rightarrow> m name)"

definition isSystemCF :: "string \<Rightarrow> bool" where
  "isSystemCF name \<longleftrightarrow> name = ''__auth__'' \<or> name = ''__meta__'' \<or> name = ''__keyspace__''"

definition reg_GetCF :: "string \<Rightarrow> registry \<Rightarrow> cf_error + lsm" where
  "reg_GetCF name r = (case cf_lookup name r of None \<Rightarrow> Inl CfNotFound | Some e \<Rightarrow> Inr e)"

text \<open>The engine behind a pointer that \<open>GetCF\<close> handed out has changed.\<close>

definition reg_set :: "string \<Rightarrow> lsm \<Rightarrow> registry \<Rightarrow> registry" where
  "reg_set name e r = r\<lparr>reg_cfs := map_option (\<lambda>m. m(name \<mapsto> e)) (reg_cfs r)\<rparr>"

text \<open>On a closed registry the engine is opened and then stored into a nil map.\<close>

definition reg_CreateCF :: "(string \<Rightarrow> lsm_error + lsm) \<Rightarrow> string \<Rightarrow> registry \<Rightarrow> cf_error option \<times> registry" where
  "reg_CreateCF opener name r =
     (if cf_lookup name r \<noteq> None then (Some CfExists, r)
      else
        case opener name of
          Inl err \<Rightarrow> (Some (CfEngine err), r)
        | Inr e \<Rightarrow>
            (case reg_cfs r of
               None \<Rightarrow> (Some CfNilMap, r)
             | Some m \<Rightarrow> (None, r\<lparr>reg_cfs := Some (m(name \<mapsto> e))\<rparr>)))"

text \<open>The entries of the root directory that are loaded; one that fails is skipped.\<close>

fun load_cfs :: "(string \<Rightarrow> lsm_error + lsm) \<Rightarrow> (string \<times> bool) list \<Rightarrow> registry \<Rightarrow> registry" where
  "load_cfs opener [] r = r"
| "load_cfs opener ((name, isDir) # entries) r =
     (if isDir \<and> name \<noteq> ''default'' \<and> cf_lookup name r = None
      then load_cfs opener entries (snd (reg_CreateCF opener name r))
      else load_cfs opener entries r)"

definition NewRegistryWithOptions ::
    "bool \<Rightarrow> (string \<Rightarrow> lsm_error + lsm) \<Rightarrow> (string \<times> bool) list option \<Rightarrow> cf_error + registry" where
  "NewRegistryWithOptions mkdir_ok opener entries =
     (if \<not> mkdir_ok then Inl CfIO
      else
        case reg_CreateCF opener ''default'' \<lparr>reg_cfs = Some Map.empty\<rparr> of
          (Some err, r) \<Rightarrow> Inl err
        | (None, r) \<Rightarrow> (case entries of None \<Rightarrow> Inl CfIO | Some es \<Rightarrow> Inr (load_cfs opener es r)))"

text \<open>The engine's \<open>Close\<close> is called before the entry is removed; its files stay.\<close>

definition reg_DropCF :: "bool \<Rightarrow> string \<Rightarrow> registry \<Rightarrow> cf_error option \<times> registry" where
  "reg_DropCF close_ok name r =
     (if isSystemCF name then (Some CfSystem, r)
      else
        case reg_cfs r of
          None \<Rightarrow> (Some CfNotFound, r)
        | Some m \<Rightarrow>
            (case m name of
               None \<Rightarrow> (Some CfNotFound, r)
             | Some e \<Rightarrow>
                 if \<not> close_ok then (Some CfIO, reg_set name (e_Close (\<lambda>_. None) e) r)
                 else (None, r\<lparr>reg_cfs := Some (m(name := None))\<rparr>)))"

definition reg_ListCFs :: "registry \<Rightarrow> string set" where
  "reg_ListCFs r = (case reg_cfs r of None \<Rightarrow> {} | Some m \<Rightarrow> dom m)"

definition reg_Close :: "bool \<Rightarrow> registry \<Rightarrow> cf_error option \<times> registry" where
  "reg_Close close_ok r = (if close_ok then None else Some CfIO, r\<lparr>reg_cfs := None\<rparr>)"

section \<open>Batches over several column families\<close>

record cf_batch_op =
  co_CF :: string
  co_Type :: int
  co_Key :: bytes
  co_Value :: "bytes option"

type_synonym cf_batch = "cf_batch_op list"

definition NewCFWriteBatch :: cf_batch where
  "NewCFWriteBatch = []"

definition cfb_AddPut :: "string \<Rightarrow> bytes \<Rightarrow> bytes option \<Rightarrow> cf_batch \<Rightarrow> cf_batch" where
  "cfb_AddPut cf key val b = b @ [\<lparr>co_CF = cf, co_Type = txn_OpPut, co_Key = key, co_Value = val\<rparr>]"

definition cfb_AddDelete :: "string \<Rightarrow> bytes \<Rightarrow> cf_batch \<Rightarrow> cf_batch" where
  "cfb_AddDelete cf key b = b @ [\<lparr>co_CF = cf, co_Type = txn_OpDelete, co_Key = key, co_Value = None\<rparr>]"

definition cfb_Size :: "cf_batch \<Rightarrow> nat" where
  "cfb_Size b = length b"

definition cfb_Clear :: "cf_batch \<Rightarrow> cf_batch" where
  "cfb_Clear b = []"

definition target_cf :: "cf_batch_op \<Rightarrow> string" where
  "target_cf op = (if co_CF op = [] then ''default'' else co_CF op)"

definition cf_group :: "cf_batch \<Rightarrow> string \<Rightarrow> batch_op list" where
  "cf_group b cf =
     map (\<lambda>op. \<lparr>bo_Type = co_Type op, bo_Key = co_Key op, bo_Value = co_Value op\<rparr>)
       (filter (\<lambda>op. target_cf op = cf) b)"

fun plain_batch :: "batch_op list \<Rightarrow> write_batch \<Rightarrow> write_batch" where
  "plain_batch [] b = b"
| "plain_batch (op # ops) b =
     (if bo_Type op = txn_OpPut then plain_batch ops (AddPut (bo_Key op) (bo_Value op) b)
      else if bo_Type op = txn_OpDelete then plain_batch ops (AddDelete (bo_Key op) b)
      else plain_batch ops b)"

fun apply_cfs ::
    "(lsm, lsm_error) engine_ops \<Rightarrow> cf_batch \<Rightarrow> u64 \<Rightarrow> string list \<Rightarrow> registry \<Rightarrow> cf_error option \<times> registry" where
  "apply_cfs db b commitTS [] r = (None, r)"
| "apply_cfs db b commitTS (cf # cfs) r =
     (case reg_GetCF cf r of
        Inl err \<Rightarrow> (Some err, r)
      | Inr e \<Rightarrow>
          (case ApplyBatchWithTS db (plain_batch (cf_group b cf) NewWriteBatch) commitTS e of
             (Some err, e) \<Rightarrow> (Some (CfTxn err), reg_set cf e r)
           | (None, e) \<Rightarrow> apply_cfs db b commitTS cfs (reg_set cf e r)))"

text \<open>
  \<open>first\<close> and \<open>ord\<close>: the family the range over the groups meets first, and the order of the
  second range. The timestamp comes from the first family only.
\<close>

definition ApplyCFBatch ::
    "(lsm, lsm_error) engine_ops \<Rightarrow> (string list \<Rightarrow> string) \<Rightarrow> (string list \<Rightarrow> string list) \<Rightarrow> cf_batch \<Rightarrow> registry \<Rightarrow>
     (cf_error + u64) \<times> registry" where
  "ApplyCFBatch db first ord b r =
     (if cfb_Size b = 0 then (Inr 0, r)
      else
        let names = remdups (map target_cf b) in
        case reg_GetCF (first names) r of
          Inl err \<Rightarrow> (Inl err, r)
        | Inr e \<Rightarrow>
            let (commitTS, e) = eng_NextTimestamp db e;
                r = reg_set (first names) e r in
            case apply_cfs db b commitTS (ord names) r of
              (Some err, r) \<Rightarrow> (Inl err, r)
            | (None, r) \<Rightarrow> (Inr commitTS, r))"

section \<open>Lookups\<close>

lemma cf_lookup_set [simp]:
  "cf_lookup n (reg_set n' e r) = (if n = n' \<and> reg_cfs r \<noteq> None then Some e else cf_lookup n r)"
  by (auto simp: cf_lookup_def reg_set_def split: option.split)

lemma cf_lookup_open: "cf_lookup n r = Some e \<Longrightarrow> reg_cfs r \<noteq> None"
  by (auto simp: cf_lookup_def split: option.splits)

lemma reg_set_open [simp]: "reg_cfs (reg_set n e r) = None \<longleftrightarrow> reg_cfs r = None"
  by (simp add: reg_set_def)

end
