(* ===== verification/Scoria.thy ===== *)
theory Scoria
  imports ColumnFamily
begin

text \<open>
  Models \<^verbatim>\<open>pkg/scoria/scoriadb.go\<close>: the public interface of the database over the registry of
  column families. The handle is the registry; the outcomes of the system calls of a write are
  arguments. Scans are in the theory of the iterators.
\<close>

text \<open>\<open>io\<close>: whether the buffer of large values can grow, and the result of the log write.\<close>

record write_io =
  io_extend :: bool
  io_log :: "nat option"
  io_sync :: bool

definition no_faults :: write_io where
  "no_faults = \<lparr>io_extend = True, io_log = None, io_sync = True\<rparr>"

definition db_GetCF :: "string \<Rightarrow> bytes \<Rightarrow> registry \<Rightarrow> cf_error + bytes option" where
  "db_GetCF cf key r =
     (case reg_GetCF cf r of
        Inl err \<Rightarrow> Inl err
      | Inr e \<Rightarrow>
          (case e_GetWithTS key (e_LastTS e) e of Inl err \<Rightarrow> Inl (CfEngine err) | Inr v \<Rightarrow> Inr v))"

definition db_PutCF :: "write_io \<Rightarrow> string \<Rightarrow> bytes \<Rightarrow> bytes \<Rightarrow> registry \<Rightarrow> cf_error option \<times> registry" where
  "db_PutCF io cf key val r =
     (case reg_GetCF cf r of
        Inl err \<Rightarrow> (Some err, r)
      | Inr e \<Rightarrow>
          let (ts, e) = e_NextTimestamp e;
              (err, e) = e_PutWithTS (io_extend io) (io_log io) (io_sync io) key val ts e
          in (map_option CfEngine err, reg_set cf e r))"

definition db_DeleteCF :: "write_io \<Rightarrow> string \<Rightarrow> bytes \<Rightarrow> registry \<Rightarrow> cf_error option \<times> registry" where
  "db_DeleteCF io cf key r =
     (case reg_GetCF cf r of
        Inl err \<Rightarrow> (Some err, r)
      | Inr e \<Rightarrow>
          let (ts, e) = e_NextTimestamp e;
              (err, e) = e_DeleteWithTS (io_log io) (io_sync io) key ts e
          in (map_option CfEngine err, reg_set cf e r))"

definition db_Get :: "bytes \<Rightarrow> registry \<Rightarrow> cf_error + bytes option" where
  "db_Get key r = db_GetCF ''default'' key r"

definition db_Put :: "write_io \<Rightarrow> bytes \<Rightarrow> bytes \<Rightarrow> registry \<Rightarrow> cf_error option \<times> registry" where
  "db_Put io key val r = db_PutCF io ''default'' key val r"

definition db_Delete :: "write_io \<Rightarrow> bytes \<Rightarrow> registry \<Rightarrow> cf_error option \<times> registry" where
  "db_Delete io key r = db_DeleteCF io ''default'' key r"

section \<open>Column families\<close>

definition db_CreateCF :: "(string \<Rightarrow> lsm_error + lsm) \<Rightarrow> string \<Rightarrow> registry \<Rightarrow> cf_error option \<times> registry" where
  "db_CreateCF opener name r = (if name = [] then (Some CfEmptyName, r) else reg_CreateCF opener name r)"

definition db_DropCF :: "bool \<Rightarrow> string \<Rightarrow> registry \<Rightarrow> cf_error option \<times> registry" where
  "db_DropCF close_ok name r =
     (if name = ''default'' \<or> name = ''__auth__'' then (Some CfSystem, r) else reg_DropCF close_ok name r)"

definition db_ListCFs :: "registry \<Rightarrow> string set" where
  "db_ListCFs r = reg_ListCFs r"

section \<open>Transactions and batches\<close>

text \<open>\<open>NewTransaction\<close> gives an error transaction when the default family is missing.\<close>

datatype db_transaction = ErrorTx cf_error | EngineTx transaction

definition db_NewTransaction :: "(lsm, lsm_error) engine_ops \<Rightarrow> registry \<Rightarrow> db_transaction \<times> registry" where
  "db_NewTransaction db r =
     (case reg_GetCF ''default'' r of
        Inl err \<Rightarrow> (ErrorTx err, r)
      | Inr e \<Rightarrow>
          let (startTS, e) = e_NextTimestamp e;
              (tx, e) = Begin db startTS e
          in (EngineTx tx, reg_set ''default'' e r))"

definition with_default :: "(lsm \<Rightarrow> 'a \<times> lsm) \<Rightarrow> 'a \<Rightarrow> registry \<Rightarrow> 'a \<times> registry" where
  "with_default f missing r =
     (case cf_lookup ''default'' r of
        None \<Rightarrow> (missing, r)
      | Some e \<Rightarrow> let (x, e) = f e in (x, reg_set ''default'' e r))"

definition dbt_Get :: "(lsm, lsm_error) engine_ops \<Rightarrow> bytes \<Rightarrow> db_transaction \<Rightarrow> registry \<Rightarrow> cf_error + bytes option" where
  "dbt_Get db key t r =
     (case t of
        ErrorTx err \<Rightarrow> Inl err
      | EngineTx tx \<Rightarrow>
          (case cf_lookup ''default'' r of
             None \<Rightarrow> Inl CfNotFound
           | Some e \<Rightarrow> (case tx_Get db key tx e of Inl err \<Rightarrow> Inl (CfTxn err) | Inr v \<Rightarrow> Inr v)))"

definition dbt_Put :: "bytes \<Rightarrow> bytes option \<Rightarrow> db_transaction \<Rightarrow> cf_error option \<times> db_transaction" where
  "dbt_Put key val t =
     (case t of
        ErrorTx err \<Rightarrow> (Some err, t)
      | EngineTx tx \<Rightarrow> let (err, tx) = tx_Put key val tx in (map_option CfTxn err, EngineTx tx))"

definition dbt_Delete :: "bytes \<Rightarrow> db_transaction \<Rightarrow> cf_error option \<times> db_transaction" where
  "dbt_Delete key t =
     (case t of
        ErrorTx err \<Rightarrow> (Some err, t)
      | EngineTx tx \<Rightarrow> let (err, tx) = tx_Delete key tx in (map_option CfTxn err, EngineTx tx))"

definition dbt_Commit ::
    "(lsm, lsm_error) engine_ops \<Rightarrow> bytes list \<Rightarrow> bytes list \<Rightarrow> db_transaction \<Rightarrow> registry \<Rightarrow>
     (cf_error option \<times> db_transaction) \<times> registry" where
  "dbt_Commit db ks ks' t r =
     (case t of
        ErrorTx err \<Rightarrow> ((Some err, t), r)
      | EngineTx tx \<Rightarrow>
          with_default (\<lambda>e. let (err, tx, e) = tx_Commit db ks ks' tx e in ((map_option CfTxn err, EngineTx tx), e))
            (Some CfNotFound, t) r)"

definition dbt_Rollback ::
    "(lsm, lsm_error) engine_ops \<Rightarrow> db_transaction \<Rightarrow> registry \<Rightarrow> (cf_error option \<times> db_transaction) \<times> registry" where
  "dbt_Rollback db t r =
     (case t of
        ErrorTx err \<Rightarrow> ((None, t), r)
      | EngineTx tx \<Rightarrow>
          with_default (\<lambda>e. let (err, tx, e) = tx_Rollback db tx e in ((map_option CfTxn err, EngineTx tx), e))
            (Some CfNotFound, t) r)"

record scoria_batch =
  sb_cfName :: string
  sb_inner :: write_batch

definition db_NewBatchForCF :: "string \<Rightarrow> scoria_batch" where
  "db_NewBatchForCF cf = \<lparr>sb_cfName = cf, sb_inner = NewWriteBatch\<rparr>"

definition db_NewBatch :: scoria_batch where
  "db_NewBatch = \<lparr>sb_cfName = ''default'', sb_inner = NewWriteBatch\<rparr>"

definition sb_AddPut :: "bytes \<Rightarrow> bytes option \<Rightarrow> scoria_batch \<Rightarrow> scoria_batch" where
  "sb_AddPut key val b = b\<lparr>sb_inner := AddPut key val (sb_inner b)\<rparr>"

definition sb_AddDelete :: "bytes \<Rightarrow> scoria_batch \<Rightarrow> scoria_batch" where
  "sb_AddDelete key b = b\<lparr>sb_inner := AddDelete key (sb_inner b)\<rparr>"

definition sb_Clear :: "scoria_batch \<Rightarrow> scoria_batch" where
  "sb_Clear b = b\<lparr>sb_inner := wb_Clear (sb_inner b)\<rparr>"

definition sb_Size :: "scoria_batch \<Rightarrow> nat" where
  "sb_Size b = wb_Size (sb_inner b)"

definition sb_Commit :: "(lsm, lsm_error) engine_ops \<Rightarrow> scoria_batch \<Rightarrow> registry \<Rightarrow> cf_error option \<times> registry" where
  "sb_Commit db b r =
     (case reg_GetCF (sb_cfName b) r of
        Inl err \<Rightarrow> (Some err, r)
      | Inr e \<Rightarrow>
          (case ApplyBatch db (sb_inner b) e of
             (Inl err, e) \<Rightarrow> (Some (CfTxn err), reg_set (sb_cfName b) e r)
           | (Inr ts, e) \<Rightarrow> (None, reg_set (sb_cfName b) e r)))"

section \<open>Opening and closing\<close>

definition NewScoriaDBWithOptions ::
    "bool \<Rightarrow> (string \<Rightarrow> lsm_error + lsm) \<Rightarrow> (string \<times> bool) list option \<Rightarrow> cf_error + registry" where
  "NewScoriaDBWithOptions mkdir_ok opener entries = NewRegistryWithOptions mkdir_ok opener entries"

definition db_Close :: "bool \<Rightarrow> registry \<Rightarrow> cf_error option \<times> registry" where
  "db_Close close_ok r = reg_Close close_ok r"

end
