(* ===== verification/LSMProofs.thy ===== *)
theory LSMProofs
  imports LSM
begin

text \<open>
  How the reads of the engine depend on its state and how one versioned write changes them:
  the reads see only the data (\<open>e_data\<close>), a key lives in the memtables of the shard it is routed
  to, and adding a version newer than everything known of a key changes the reads of that key
  at later snapshots and nothing else.
\<close>

section \<open>What reads depend on\<close>

definition e_mts :: "lsm \<Rightarrow> (mem \<times> mem option) list" where
  "e_mts e = map (\<lambda>s. (sh_mem s, sh_frozen s)) (e_shards e)"

definition e_data :: "lsm \<Rightarrow> (mem \<times> mem option) list \<times> reader list list \<times> unified_mmap \<times> vlog \<times> bool" where
  "e_data e = (e_mts e, e_levels e, e_unified e, e_vlog e, e_closed e)"

lemma decode_data:
  assumes "e_unified e' = e_unified e" "e_vlog e' = e_vlog e"
  shows "decodeStoredValue e' = decodeStoredValue e"
  unfolding decodeStoredValue_def assms ..

lemma mts_data:
  "map sh_mem (e_shards e) = map fst (e_mts e)"
  "mt_list e = concat (map (\<lambda>(m, f). m # (case f of None \<Rightarrow> [] | Some m \<Rightarrow> [m])) (e_mts e))"
  by (simp_all add: mt_list_def e_mts_def comp_def)

lemma get_data:
  assumes "e_data e' = e_data e"
  shows "e_GetWithTS k t e' = e_GetWithTS k t e"
proof -
  have d: "map sh_mem (e_shards e') = map sh_mem (e_shards e)" "e_levels e' = e_levels e" "e_closed e' = e_closed e"
    using assms by (simp_all add: e_data_def mts_data(1))
  have dec: "decodeStoredValue e' = decodeStoredValue e"
    by (rule decode_data) (use assms in \<open>simp_all add: e_data_def\<close>)
  show ?thesis unfolding e_GetWithTS_def d dec ..
qed

lemma latest_data:
  assumes "e_data e' = e_data e"
  shows "e_GetLatestInfo k e' = e_GetLatestInfo k e"
proof -
  have d: "mt_list e' = mt_list e" "e_levels e' = e_levels e" "e_closed e' = e_closed e"
    using assms by (simp_all add: e_data_def mts_data(2))
  have dec: "decodeStoredValue e' = decodeStoredValue e"
    by (rule decode_data) (use assms in \<open>simp_all add: e_data_def\<close>)
  show ?thesis unfolding e_GetLatestInfo_def d dec ..
qed

section \<open>Routing\<close>

definition routed :: "lsm \<Rightarrow> bool" where
  "routed e \<longleftrightarrow> (\<forall>i < length (e_shards e).
     (\<forall>(k, v) \<in> set (sh_mem (e_shards e ! i)). e_shardIndex e (mk_key k) = i) \<and>
     (\<forall>m. sh_frozen (e_shards e ! i) = Some m \<longrightarrow> (\<forall>(k, v) \<in> set m. e_shardIndex e (mk_key k) = i)))"

lemma route_less: "0 < n \<Longrightarrow> n < 2 ^ 64 \<Longrightarrow> route n key < n"
  by (simp add: route_def unat_mod unat_of_nat_small)

lemma mem_chain_absent: "\<forall>(k, v) \<in> set m. mk_key k \<noteq> key \<Longrightarrow> mem_chain key m = []"
  by (auto simp: mem_chain_def filter_empty_conv)

lemma mem_get_absent: "mem_chain key m = [] \<Longrightarrow> mem_get key ts m = (None, False)"
  by (simp add: mem_get_def mem_version_def mem_visible_def)

lemma mem_get_latest_absent: "mem_chain key m = [] \<Longrightarrow> mem_get_latest key m = (None, 0, False)"
  by (simp add: mem_get_latest_def Let_def mem_live_def)

lemma get_memtables_at:
  assumes "\<forall>j < length ms. j \<noteq> i \<longrightarrow> mem_chain key (ms ! j) = []" "i < length ms"
  shows "get_memtables key ts ms = (case mem_get key ts (ms ! i) of (v, True) \<Rightarrow> Some v | (_, False) \<Rightarrow> None)"
  using assms
proof (induction ms arbitrary: i)
  case (Cons m ms)
  show ?case
  proof (cases i)
    case 0
    have "mem_chain key m' = []" if "m' \<in> set ms" for m'
      using that Cons.prems(1) unfolding 0 in_set_conv_nth by (metis Suc_less_eq length_Cons nat.simps(3) nth_Cons_Suc)
    then have "get_memtables key ts ms = None"
      by (induction ms) (auto simp: mem_get_absent)
    with 0 show ?thesis by (auto split: prod.split bool.split)
  next
    case (Suc j)
    have "mem_chain key m = []" using Cons.prems(1) Suc by (metis length_greater_0_conv list.discI nat.simps(3) nth_Cons_0)
    moreover have "\<forall>l < length ms. l \<noteq> j \<longrightarrow> mem_chain key (ms ! l) = []"
      using Cons.prems(1) Suc by (metis Suc_less_eq length_Cons nat.inject nth_Cons_Suc)
    ultimately show ?thesis using Cons.IH [of j] Cons.prems(2) Suc by (simp add: mem_get_absent)
  qed
qed simp

lemma latest_append:
  "latest_memtables key (ms @ ms') = (case latest_memtables key ms of None \<Rightarrow> latest_memtables key ms' | Some r \<Rightarrow> Some r)"
  by (induction ms) (auto simp: Let_def split: prod.split)

lemma latest_absent: "\<forall>m \<in> set ms. mem_chain key m = [] \<Longrightarrow> latest_memtables key ms = None"
  by (induction ms) (auto simp: mem_get_latest_absent)

definition shard_mts :: "shard \<Rightarrow> mem list" where
  "shard_mts s = sh_mem s # (case sh_frozen s of None \<Rightarrow> [] | Some m \<Rightarrow> [m])"

lemma mt_list_shards: "mt_list e = concat (map shard_mts (e_shards e))"
  unfolding mt_list_def shard_mts_def ..

lemma latest_concat_at:
  assumes "\<forall>j < length ss. j \<noteq> i \<longrightarrow> (\<forall>m \<in> set (shard_mts (ss ! j)). mem_chain key m = [])" "i < length ss"
  shows "latest_memtables key (concat (map shard_mts ss)) = latest_memtables key (shard_mts (ss ! i))"
proof -
  have ss: "ss = take i ss @ ss ! i # drop (Suc i) ss" by (rule id_take_nth_drop [OF assms(2)])
  have a: "latest_memtables key (concat (map shard_mts (take i ss))) = None"
  proof (rule latest_absent, rule ballI)
    fix m assume "m \<in> set (concat (map shard_mts (take i ss)))"
    then obtain s where s: "s \<in> set (take i ss)" "m \<in> set (shard_mts s)" by auto
    then obtain j where "j < i" "j < length ss" "m \<in> set (shard_mts (ss ! j))"
      unfolding in_set_conv_nth [of s] by auto
    then show "mem_chain key m = []" using assms(1) by (metis nat_neq_iff)
  qed
  have b: "latest_memtables key (concat (map shard_mts (drop (Suc i) ss))) = None"
  proof (rule latest_absent, rule ballI)
    fix m assume "m \<in> set (concat (map shard_mts (drop (Suc i) ss)))"
    then obtain s where s: "s \<in> set (drop (Suc i) ss)" "m \<in> set (shard_mts s)" by auto
    then obtain j where "m \<in> set (shard_mts (ss ! (Suc i + j)))" "Suc i + j < length ss"
      unfolding in_set_conv_nth [of s] by auto
    then show "mem_chain key m = []" using assms(1) by (metis less_add_Suc1 add_Suc nat_neq_iff)
  qed
  have "latest_memtables key (concat (map shard_mts ss)) =
      latest_memtables key (concat (map shard_mts (take i ss)) @ shard_mts (ss ! i) @ concat (map shard_mts (drop (Suc i) ss)))"
    by (subst ss) simp
  also have "\<dots> = latest_memtables key (shard_mts (ss ! i))"
    by (simp add: latest_append a b split: option.split)
  finally show ?thesis .
qed

lemma routed_absent:
  assumes "routed e" "j < length (e_shards e)" "j \<noteq> e_shardIndex e key"
  shows "\<forall>m \<in> set (shard_mts (e_shards e ! j)). mem_chain key m = []"
proof
  fix m assume "m \<in> set (shard_mts (e_shards e ! j))"
  then have "m = sh_mem (e_shards e ! j) \<or> sh_frozen (e_shards e ! j) = Some m"
    by (auto simp: shard_mts_def split: option.splits)
  moreover have "\<forall>(k, v) \<in> set (sh_mem (e_shards e ! j)). e_shardIndex e (mk_key k) = j"
    "\<And>m. sh_frozen (e_shards e ! j) = Some m \<Longrightarrow> \<forall>(k, v) \<in> set m. e_shardIndex e (mk_key k) = j"
    using assms(1,2) unfolding routed_def by blast+
  ultimately have "\<forall>(k, v) \<in> set m. e_shardIndex e (mk_key k) = j" by blast
  then show "mem_chain key m = []" using assms(3) by (intro mem_chain_absent) auto
qed

definition e_shard :: "lsm \<Rightarrow> bytes \<Rightarrow> shard" where
  "e_shard e key = e_shards e ! e_shardIndex e key"

definition sized :: "lsm \<Rightarrow> bool" where
  "sized e \<longleftrightarrow> e_shards e \<noteq> [] \<and> length (e_shards e) < 2 ^ 64"

lemma index_less: "sized e \<Longrightarrow> e_shardIndex e key < length (e_shards e)"
  by (simp add: sized_def e_shardIndex_def route_less)

lemma get_routed:
  assumes "routed e" "sized e"
  shows "get_memtables key ts (map sh_mem (e_shards e)) =
    (case mem_get key ts (sh_mem (e_shard e key)) of (v, True) \<Rightarrow> Some v | (_, False) \<Rightarrow> None)"
proof -
  have "\<forall>j < length (map sh_mem (e_shards e)). j \<noteq> e_shardIndex e key \<longrightarrow> mem_chain key (map sh_mem (e_shards e) ! j) = []"
    using routed_absent [OF assms(1)] by (auto simp: shard_mts_def)
  from get_memtables_at [OF this] index_less [OF assms(2), of key] show ?thesis by (simp add: e_shard_def)
qed

lemma latest_routed:
  assumes "routed e" "sized e"
  shows "latest_memtables key (mt_list e) = latest_memtables key (shard_mts (e_shard e key))"
  unfolding mt_list_shards e_shard_def
  using routed_absent [OF assms(1)] by (intro latest_concat_at index_less [OF assms(2)]) auto

section \<open>Adding a version\<close>

text \<open>\<open>e1\<close> has one version more than \<open>e\<close>, in the active memtable of the key's shard.\<close>

definition adds :: "bytes \<Rightarrow> u64 \<Rightarrow> version \<Rightarrow> lsm \<Rightarrow> lsm \<Rightarrow> bool" where
  "adds key t v e e1 \<longleftrightarrow> length (e_shards e1) = length (e_shards e) \<and>
     (\<forall>j < length (e_shards e). sh_frozen (e_shards e1 ! j) = sh_frozen (e_shards e ! j) \<and>
        sh_mem (e_shards e1 ! j) =
          (if j = e_shardIndex e key then mem_insert (NewMVCCKey key t) v (sh_mem (e_shards e ! j))
           else sh_mem (e_shards e ! j))) \<and>
     e_levels e1 = e_levels e \<and> e_closed e1 = e_closed e"

text \<open>All versions of the key in the active memtables are older than \<open>t\<close>.\<close>

definition newer :: "bytes \<Rightarrow> u64 \<Rightarrow> lsm \<Rightarrow> bool" where
  "newer key t e \<longleftrightarrow> (\<forall>(k, v) \<in> set (sh_mem (e_shard e key)). mk_key k = key \<longrightarrow> CommitTS k < t)"

lemma adds_index: "adds key t v e e1 \<Longrightarrow> e_shardIndex e1 = e_shardIndex e"
  by (auto simp: adds_def e_shardIndex_def)

lemma adds_sized: "adds key t v e e1 \<Longrightarrow> sized e \<Longrightarrow> sized e1"
  by (auto simp: adds_def sized_def)

lemma adds_shard:
  assumes "adds key t v e e1" "sized e"
  shows "sh_frozen (e_shard e1 k) = sh_frozen (e_shard e k)"
    "sh_mem (e_shard e1 k) = (if e_shardIndex e k = e_shardIndex e key
       then mem_insert (NewMVCCKey key t) v (sh_mem (e_shard e k)) else sh_mem (e_shard e k))"
  using assms(1) index_less [OF assms(2)] unfolding adds_def e_shard_def adds_index [OF assms(1)] by auto

lemma adds_routed:
  assumes "adds key t v e e1" "routed e"
  shows "routed e1"
  unfolding routed_def
proof (intro allI impI conjI)
  fix i assume "i < length (e_shards e1)"
  then have i: "i < length (e_shards e)" using assms(1) by (simp add: adds_def)
  have r: "\<forall>(k, v) \<in> set (sh_mem (e_shards e ! i)). e_shardIndex e (mk_key k) = i"
    "\<And>m. sh_frozen (e_shards e ! i) = Some m \<Longrightarrow> \<forall>(k, v) \<in> set m. e_shardIndex e (mk_key k) = i"
    using assms(2) i unfolding routed_def by blast+
  show "\<forall>(k, v) \<in> set (sh_mem (e_shards e1 ! i)). e_shardIndex e1 (mk_key k) = i"
    using r(1) assms(1) i unfolding adds_index [OF assms(1)] by (auto simp: adds_def)
  fix m assume "sh_frozen (e_shards e1 ! i) = Some m"
  then show "\<forall>(k, v) \<in> set m. e_shardIndex e1 (mk_key k) = i"
    using r(2) [of m] assms(1) i unfolding adds_index [OF assms(1)] by (simp add: adds_def)
qed

lemma mem_get_insert_other:
  "k \<noteq> key \<or> s < t \<Longrightarrow> mem_get k s (mem_insert (NewMVCCKey key t) v m) = mem_get k s m"
  by (auto simp: mem_get_def mem_version_insert_other)

lemma mem_get_insert_own:
  assumes "mem_inv m" "\<forall>(k, v) \<in> set m. mk_key k = key \<longrightarrow> CommitTS k < t" "t \<le> s" "key \<noteq> []"
  shows "mem_get key s (mem_insert (NewMVCCKey key t) v m) = (case v of Live x \<Rightarrow> (x, True) | Tomb \<Rightarrow> (None, False))"
proof -
  have "mem_version key s (mem_insert (NewMVCCKey key t) v m) = Some v"
  proof (rule mem_version_insert_newest)
    show "\<not> mem_has (NewMVCCKey key t) m" using assms(2) by (fastforce simp: mem_has_def)
  qed (use assms in \<open>auto simp: less_imp_le\<close>)
  then show ?thesis using assms(4) by (simp add: mem_get_def split: version.split)
qed

lemma adds_get_other:
  assumes a: "adds key t v e e1" and r: "routed e" "sized e" and k: "k \<noteq> key \<or> s < t"
    and dec: "\<And>x b. decodeStoredValue e1 x b = decodeStoredValue e x b"
  shows "e_GetWithTS k s e1 = e_GetWithTS k s e"
proof -
  have "mem_get k s (sh_mem (e_shard e1 k)) = mem_get k s (sh_mem (e_shard e k))"
    using mem_get_insert_other [OF k] by (simp add: adds_shard(2) [OF a r(2)])
  then have g: "get_memtables k s (map sh_mem (e_shards e1)) = get_memtables k s (map sh_mem (e_shards e))"
    by (simp add: get_routed [OF r] get_routed [OF adds_routed [OF a r(1)] adds_sized [OF a r(2)]])
  have d: "decodeStoredValue e1 = decodeStoredValue e" using dec by blast
  have f: "e_closed e1 = e_closed e" "e_levels e1 = e_levels e" using a by (simp_all add: adds_def)
  show ?thesis unfolding e_GetWithTS_def g d f ..
qed

lemma adds_get_own:
  assumes a: "adds key t v e e1" and r: "routed e" "sized e" and nc: "\<not> e_closed e"
    and m: "mem_inv (sh_mem (e_shard e key))" "newer key t e" "t \<le> s" "key \<noteq> []"
  shows "e_GetWithTS key s e1 = (case v of Live x \<Rightarrow> decodeStoredValue e1 x False
    | Tomb \<Rightarrow> (case lookup_levels (NewMVCCKey key s) (e_levels e) of
        Inl err \<Rightarrow> Inl (ESst err) | Inr (Some val) \<Rightarrow> decodeStoredValue e1 val True | Inr None \<Rightarrow> Inr None))"
proof -
  have "mem_get key s (sh_mem (e_shard e1 key)) = (case v of Live x \<Rightarrow> (x, True) | Tomb \<Rightarrow> (None, False))"
    using mem_get_insert_own [OF m(1) _ m(3,4)] m(2) by (simp add: adds_shard(2) [OF a r(2)] newer_def)
  then have g: "get_memtables key s (map sh_mem (e_shards e1)) = (case v of Live x \<Rightarrow> Some x | Tomb \<Rightarrow> None)"
    by (simp add: get_routed [OF adds_routed [OF a r(1)] adds_sized [OF a r(2)]] split: version.split)
  have f: "e_closed e1 = e_closed e" "e_levels e1 = e_levels e" using a by (simp_all add: adds_def)
  show ?thesis unfolding e_GetWithTS_def g f using nc by (cases v) simp_all
qed

lemma mem_chain_insert_other: "k \<noteq> key \<Longrightarrow> mem_chain k (mem_insert (NewMVCCKey key t) v m) = mem_chain k m"
  unfolding mem_chain_def by (rule filter_mem_insert) simp

lemma adds_latest_other:
  assumes a: "adds key t v e e1" and r: "routed e" "sized e" and k: "k \<noteq> key"
    and dec: "\<And>x b. decodeStoredValue e1 x b = decodeStoredValue e x b"
  shows "e_GetLatestInfo k e1 = e_GetLatestInfo k e"
proof -
  have "mem_get_latest k (sh_mem (e_shard e1 k)) = mem_get_latest k (sh_mem (e_shard e k))"
    using mem_chain_insert_other [OF k] by (simp add: adds_shard(2) [OF a r(2)] mem_get_latest_def)
  then have "latest_memtables k (shard_mts (e_shard e1 k)) = latest_memtables k (shard_mts (e_shard e k))"
    by (simp add: shard_mts_def adds_shard(1) [OF a r(2)])
  then have g: "latest_memtables k (mt_list e1) = latest_memtables k (mt_list e)"
    by (simp add: latest_routed [OF r] latest_routed [OF adds_routed [OF a r(1)] adds_sized [OF a r(2)]])
  have d: "decodeStoredValue e1 = decodeStoredValue e" using dec by blast
  have f: "e_closed e1 = e_closed e" "e_levels e1 = e_levels e" using a by (simp_all add: adds_def)
  show ?thesis unfolding e_GetLatestInfo_def g d f ..
qed

text \<open>The latest version after a newer one was added.\<close>

lemma mem_chain_insert_newest:
  assumes "mem_inv m" "\<forall>(k, v) \<in> set m. mk_key k = key \<longrightarrow> CommitTS k < t"
  shows "mem_chain key (mem_insert (NewMVCCKey key t) v m) = mem_chain key m @ [(NewMVCCKey key t, v)]"
  using assms
proof (induction m)
  case (Cons e m)
  let ?k = "NewMVCCKey key t"
  have inv: "mem_inv m" and rest: "\<forall>(k, v) \<in> set m. mk_key k = key \<longrightarrow> CommitTS k < t"
    using Cons.prems by (auto simp: mem_inv_def)
  show ?case
  proof (cases "fst e < ?k")
    case True
    then show ?thesis using Cons.IH [OF inv rest] by (simp add: mem_chain_def)
  next
    case False
    have "mem_chain key (e # m) = []"
    proof (rule mem_chain_absent, clarify)
      fix k v assume k: "(k, v) \<in> set (e # m)" "key = mk_key k"
      then have "CommitTS k < t" using Cons.prems(2) by auto
      then have "k < ?k" using k(2) by (simp add: same_key_less_iff)
      moreover have "fst e \<le> k" using k(1) Cons.prems(1) by (auto simp: mem_inv_def less_imp_le)
      ultimately show False using False by simp
    qed
    then show ?thesis using False by (simp add: mem_chain_def)
  qed
qed (simp add: mem_chain_def)

lemma adds_latest_own:
  assumes a: "adds key t v e e1" and r: "routed e" "sized e" and nc: "\<not> e_closed e" and t: "0 < t"
    and m: "mem_inv (sh_mem (e_shard e key))" "newer key t e"
    and dec: "\<And>x b. decodeStoredValue e1 x b = decodeStoredValue e x b"
    and ok: "\<exists>r. e_GetLatestInfo key e = Inr r" "\<And>x. v = Live x \<Longrightarrow> \<exists>r. decodeStoredValue e x False = Inr r"
  shows "\<exists>r. e_GetLatestInfo key e1 = Inr r"
proof -
  let ?m = "sh_mem (e_shard e key)" and ?m1 = "sh_mem (e_shard e1 key)"
  have ch: "mem_chain key ?m1 = mem_chain key ?m @ [(NewMVCCKey key t, v)]"
    using mem_chain_insert_newest [OF m(1)] m(2) by (simp add: adds_shard(2) [OF a r(2)] newer_def)
  have d: "decodeStoredValue e1 = decodeStoredValue e" using dec by blast
  have f: "e_closed e1 = e_closed e" "e_levels e1 = e_levels e" using a by (simp_all add: adds_def)
  have t0: "t \<noteq> 0" using t by auto
  note L = latest_routed [OF r, of key] latest_routed [OF adds_routed [OF a r(1)] adds_sized [OF a r(2)], of key]
  show ?thesis
  proof (cases v)
    case (Live x)
    then have "mem_get_latest key ?m1 = (x, t, True)"
      by (simp add: mem_get_latest_def ch mem_live_def Let_def)
    then have g: "latest_memtables key (mt_list e1) = Some (x, t, True)"
      using t0 by (simp add: L shard_mts_def)
    show ?thesis using ok(2) [OF Live] nc by (auto simp: e_GetLatestInfo_def g f d)
  next
    case Tomb
    show ?thesis
    proof (cases "mem_live (mem_chain key ?m) = []")
      case True
      then have "mem_get_latest key ?m1 = (None, t, False)"
        using Tomb by (simp add: mem_get_latest_def ch mem_live_def Let_def)
      then have g: "latest_memtables key (mt_list e1) = Some (None, t, False)"
        using t0 by (simp add: L shard_mts_def)
      have "e_GetLatestInfo key e1 = Inr (None, t, False)" using nc by (simp add: e_GetLatestInfo_def g f)
      then show ?thesis by blast
    next
      case False
      then have "mem_get_latest key ?m1 = mem_get_latest key ?m"
        using Tomb by (simp add: mem_get_latest_def ch mem_live_def Let_def)
      then have g: "latest_memtables key (mt_list e1) = latest_memtables key (mt_list e)"
        by (simp add: L shard_mts_def adds_shard(1) [OF a r(2)])
      show ?thesis using ok(1) unfolding e_GetLatestInfo_def g f d .
    qed
  qed
qed

end
