(* ===== verification/LSMTxn.thy ===== *)
theory LSMTxn
  imports LSMProofs Txn
begin

text \<open>
  The LSM engine as the engine of a transaction: the provider's side of the contract
  \<open>txn_engine\<close>, its interpretation, and what transactions guarantee on the engine.
\<close>

section \<open>Room in the commit cache\<close>

definition cached :: "lsm \<Rightarrow> bytes \<Rightarrow> u64 option" where
  "cached e = map_of (cc_list (e_cache e))"

text \<open>Using the keys \<open>K\<close> evicts nothing.\<close>

definition room :: "lsm \<Rightarrow> bytes set \<Rightarrow> bool" where
  "room e K \<longleftrightarrow> finite K \<and> length (cc_list (e_cache e)) + card (K - dom (cached e)) \<le> maxLastCommitCacheEntries"

lemma room_mono: "room e K \<Longrightarrow> K' \<subseteq> K \<Longrightarrow> room e K'"
  unfolding room_def
  by (meson Diff_mono add_left_mono card_mono finite_Diff finite_subset order_refl order_trans)

lemma length_touch:
  assumes "distinct (map fst xs)"
  shows "length (lru_touch k t xs) = (if k \<in> fst ` set xs then length xs else length xs + 1)"
  using assms
proof (induction xs)
  case (Cons x xs)
  show ?case
  proof (cases "fst x = k")
    case True
    then have "k \<notin> fst ` set xs" using Cons.prems by auto
    then have "filter (\<lambda>p. fst p \<noteq> k) xs = xs" by (auto simp: filter_id_conv)
    with True show ?thesis by (simp add: lru_touch_def)
  next
    case False
    then show ?thesis using Cons by (auto simp: lru_touch_def)
  qed
qed (simp add: lru_touch_def)

lemma cached_dom: "dom (cached e) = fst ` set (cc_list (e_cache e))"
  by (simp add: cached_def dom_map_of_conv_image_fst)

lemma cache_touch:
  assumes inv: "cc_inv (e_cache e)" and room: "room e K" "key \<in> K"
    and c: "cc_inv (e_cache e')" "cc_list (e_cache e') = take maxLastCommitCacheEntries (lru_touch key t (cc_list (e_cache e)))"
  shows "cached e' = (cached e)(key \<mapsto> t)" "room e' K"
proof -
  let ?xs = "cc_list (e_cache e)"
  have d: "distinct (map fst ?xs)" using inv by (simp add: cc_inv_def)
  have fin: "finite K" using room(1) by (simp add: room_def)
  have len: "length (lru_touch key t ?xs) + card (K - insert key (dom (cached e))) \<le> maxLastCommitCacheEntries"
  proof (cases "key \<in> dom (cached e)")
    case True
    then show ?thesis using room(1) by (simp add: length_touch [OF d] room_def cached_dom insert_absorb)
  next
    case False
    have "card (K - dom (cached e)) = Suc (card (K - insert key (dom (cached e))))"
      using card_Suc_Diff1 [of "K - dom (cached e)" key] fin room(2) False by (simp add: Diff_insert2 [symmetric])
    then show ?thesis using room(1) False by (simp add: length_touch [OF d] room_def cached_dom)
  qed
  then have l: "cc_list (e_cache e') = lru_touch key t ?xs" by (simp add: c(2))
  show m: "cached e' = (cached e)(key \<mapsto> t)" by (rule ext) (simp add: cached_def l map_of_touch)
  show "room e' K" using len fin unfolding room_def m by (simp add: l)
qed

lemma cache_update:
  assumes "cc_inv (e_cache e)" "room e K" "key \<in> K"
  shows "cached (e_updateCache key t e) = (cached e)(key \<mapsto> t)" "room (e_updateCache key t e) K"
    "cc_inv (e_cache (e_updateCache key t e))"
proof -
  let ?e = "e_updateCache key t e"
  have c: "cc_inv (e_cache ?e)" "cc_list (e_cache ?e) = take maxLastCommitCacheEntries (lru_touch key t (cc_list (e_cache e)))"
    using update_refines [OF assms(1)] by (simp_all add: e_updateCache_def)
  show "cached ?e = (cached e)(key \<mapsto> t)" "room ?e K" by (rule cache_touch [OF assms c])+
  show "cc_inv (e_cache ?e)" by (rule c(1))
qed

lemma room_cache: "e_cache e' = e_cache e \<Longrightarrow> room e' K = room e K" "e_cache e' = e_cache e \<Longrightarrow> cached e' = cached e"
  by (simp_all add: room_def cached_def)

section \<open>The invariant of the engine\<close>

text \<open>The timestamp a conflict check compares with: from the cache, else from the data.\<close>

definition last_ts :: "lsm \<Rightarrow> bytes \<Rightarrow> u64" where
  "last_ts e key = (case cached e key of Some t \<Rightarrow> t
     | None \<Rightarrow> (case e_GetLatestInfo key e of Inr (_, t, _) \<Rightarrow> t | Inl _ \<Rightarrow> 0))"

definition logs_ok :: "lsm \<Rightarrow> bool" where
  "logs_ok e \<longleftrightarrow> (\<forall>s \<in> set (e_shards e). wal_inv (sh_wal s) \<and> mem_inv (sh_mem s))"

definition e_ok :: "lsm \<Rightarrow> bool" where
  "e_ok e \<longleftrightarrow> \<not> e_closed e \<and> sized e \<and> routed e \<and> logs_ok e \<and> cc_inv (e_cache e) \<and>
     (\<forall>k t. \<exists>v. e_GetWithTS k t e = Inr v) \<and> (\<forall>k. \<exists>r. e_GetLatestInfo k e = Inr r) \<and>
     (\<forall>k. last_ts e k \<le> e_LastTS e) \<and>
     (\<forall>s \<in> set (e_shards e). \<forall>(k, v) \<in> set (sh_mem s). CommitTS k \<le> last_ts e (mk_key k))"

definition e_view :: "lsm \<Rightarrow> bytes \<Rightarrow> u64 \<Rightarrow> bytes option" where
  "e_view e k t = (case e_GetWithTS k t e of Inr v \<Rightarrow> v | Inl _ \<Rightarrow> None)"

definition e_changed :: "lsm \<Rightarrow> bytes \<Rightarrow> u64 \<Rightarrow> bool" where
  "e_changed e k t \<longleftrightarrow> t < last_ts e k"

text \<open>
  What a batch must respect: its keys fit the cache, its record fits the log's buffer, no key
  is empty, no value has the 12 bytes that are taken for a pointer, and a deleted key has no
  version in a table.
\<close>

definition op_admitted :: "lsm \<Rightarrow> batch_op \<Rightarrow> bool" where
  "op_admitted e op \<longleftrightarrow> bo_Key op \<noteq> [] \<and>
     (case bo_Value op of
        Some v \<Rightarrow> length v \<noteq> ValuePointerSize
      | None \<Rightarrow> \<forall>s. lookup_levels (NewMVCCKey (bo_Key op) s) (e_levels e) = Inr None)"

definition e_admits :: "lsm \<Rightarrow> write_batch \<Rightarrow> bool" where
  "e_admits e b \<longleftrightarrow> room e (bo_Key ` set (wb_ops b)) \<and>
     (\<forall>d. EncodeBatch b = Inr d \<longrightarrow> wal_fits (batch_entry d 0)) \<and> (\<forall>op \<in> set (wb_ops b). op_admitted e op)"

text \<open>States that differ only in what reads, routing and invariants do not see.\<close>

definition same_state :: "lsm \<Rightarrow> lsm \<Rightarrow> bool" where
  "same_state e e' \<longleftrightarrow> e_data e' = e_data e \<and> last_ts e' = last_ts e \<and> cc_inv (e_cache e') \<and> logs_ok e'"

lemma last_data:
  assumes "e_data e' = e_data e" "cached e' = cached e"
  shows "last_ts e' = last_ts e"
  by (rule ext) (unfold last_ts_def assms(2) latest_data [OF assms(1)], rule refl)

lemma same_reads:
  assumes "same_state e e'"
  shows "e_GetWithTS k t e' = e_GetWithTS k t e" "e_GetLatestInfo k e' = e_GetLatestInfo k e" "last_ts e' = last_ts e"
    "e_view e' = e_view e" "e_changed e' = e_changed e" "op_admitted e' = op_admitted e"
proof -
  have d: "e_data e' = e_data e" using assms by (simp add: same_state_def)
  note g = get_data [OF d] latest_data [OF d]
  have l: "e_levels e' = e_levels e" using d by (simp add: e_data_def)
  show lt: "last_ts e' = last_ts e" using assms by (simp add: same_state_def)
  show "e_GetWithTS k t e' = e_GetWithTS k t e" "e_GetLatestInfo k e' = e_GetLatestInfo k e" by (rule g)+
  show "e_view e' = e_view e" by (intro ext) (unfold e_view_def g(1), rule refl)
  show "e_changed e' = e_changed e" by (intro ext) (unfold e_changed_def lt, rule refl)
  show "op_admitted e' = op_admitted e" by (intro ext) (unfold op_admitted_def l, rule refl)
qed

lemma same_shards:
  assumes "e_data e' = e_data e"
  shows "length (e_shards e') = length (e_shards e)" "e_shardIndex e' = e_shardIndex e"
    "i < length (e_shards e) \<Longrightarrow> sh_mem (e_shards e' ! i) = sh_mem (e_shards e ! i) \<and>
       sh_frozen (e_shards e' ! i) = sh_frozen (e_shards e ! i)"
proof -
  have m: "e_mts e' = e_mts e" using assms by (simp add: e_data_def)
  from arg_cong [OF m, of length] show l: "length (e_shards e') = length (e_shards e)" by (simp add: e_mts_def)
  then show "e_shardIndex e' = e_shardIndex e" by (auto simp: e_shardIndex_def)
  show "i < length (e_shards e) \<Longrightarrow> sh_mem (e_shards e' ! i) = sh_mem (e_shards e ! i) \<and>
       sh_frozen (e_shards e' ! i) = sh_frozen (e_shards e ! i)"
    using arg_cong [OF m, of "\<lambda>xs. xs ! i"] l by (simp add: e_mts_def)
qed

lemma same_ok:
  assumes ok: "e_ok e" and same: "same_state e e'" and ts: "e_LastTS e \<le> e_LastTS e'"
  shows "e_ok e'"
proof -
  have d: "e_data e' = e_data e" using same by (simp add: same_state_def)
  note sh = same_shards [OF d] and rd = same_reads [OF same]
  have "\<not> e_closed e'" using ok d by (simp add: e_ok_def e_data_def)
  moreover have "sized e'" using ok sh(1) by (simp add: e_ok_def sized_def flip: length_greater_0_conv)
  moreover have "routed e'"
    using ok sh(1) sh(3) unfolding e_ok_def routed_def sh(2) by simp
  moreover have "\<forall>s \<in> set (e_shards e'). \<forall>(k, v) \<in> set (sh_mem s). CommitTS k \<le> last_ts e (mk_key k)"
  proof
    fix s assume "s \<in> set (e_shards e')"
    then obtain i where i: "i < length (e_shards e)" "s = e_shards e' ! i" using sh(1) by (auto simp: in_set_conv_nth)
    then have m: "sh_mem s = sh_mem (e_shards e ! i)" using sh(3) by simp
    have cl: "\<forall>s \<in> set (e_shards e). \<forall>(k, v) \<in> set (sh_mem s). CommitTS k \<le> last_ts e (mk_key k)"
      using ok by (simp add: e_ok_def)
    show "\<forall>(k, v) \<in> set (sh_mem s). CommitTS k \<le> last_ts e (mk_key k)"
      unfolding m by (rule bspec [OF cl nth_mem [OF i(1)]])
  qed
  moreover have "\<forall>k. last_ts e k \<le> e_LastTS e'" using ok ts by (auto simp: e_ok_def intro: order.trans)
  ultimately show ?thesis
    using ok same unfolding e_ok_def rd same_state_def by blast
qed

text \<open>What a step that leaves the data alone must show of the laws.\<close>

definition keeps :: "lsm \<Rightarrow> write_batch \<Rightarrow> lsm \<Rightarrow> bool" where
  "keeps e b e' \<longleftrightarrow> e_ok e' \<and> e_view e' = e_view e \<and> e_changed e' = e_changed e \<and> (e_admits e b \<longrightarrow> e_admits e' b)"

lemma same_keeps:
  assumes "e_ok e" "same_state e e'" "e_LastTS e \<le> e_LastTS e'"
    and "\<And>K. room e K \<Longrightarrow> K = bo_Key ` set (wb_ops b) \<Longrightarrow> room e' K"
  shows "keeps e b e'"
  using same_ok [OF assms(1-3)] same_reads(4-6) [OF assms(2)] assms(4)
  unfolding keeps_def e_admits_def by metis

section \<open>The laws, except for writing\<close>

lemma cache_only:
  "e_data (e\<lparr>e_cache := c\<rparr>) = e_data e" "logs_ok (e\<lparr>e_cache := c\<rparr>) = logs_ok e"
  by (simp_all add: e_data_def e_mts_def logs_ok_def)

lemma touch_same:
  assumes ok: "e_ok e" and room: "room e K" "k \<in> K" and t: "t = last_ts e k"
    and c: "cc_inv c" "cc_list c = take maxLastCommitCacheEntries (lru_touch k t (cc_list (e_cache e)))"
  shows "same_state e (e\<lparr>e_cache := c\<rparr>)" "room (e\<lparr>e_cache := c\<rparr>) K"
proof -
  let ?e = "e\<lparr>e_cache := c\<rparr>"
  have inv: "cc_inv (e_cache e)" using ok by (simp add: e_ok_def)
  have c': "cc_inv (e_cache ?e)"
    "cc_list (e_cache ?e) = take maxLastCommitCacheEntries (lru_touch k t (cc_list (e_cache e)))"
    using c by simp_all
  note m = cache_touch [OF inv room c']
  have "last_ts ?e k' = last_ts e k'" for k'
  proof (cases "k' = k")
    case False
    then have u: "cached ?e k' = cached e k'" by (simp add: m(1))
    show ?thesis unfolding last_ts_def u latest_data [OF cache_only(1)] ..
  qed (simp add: last_ts_def [of ?e] m(1) t)
  moreover have "logs_ok ?e" using ok by (simp add: e_ok_def cache_only)
  ultimately show "same_state e ?e" using c(1) by (auto simp: same_state_def cache_only)
  show "room ?e K" by (rule m(2))
qed

lemma update_same:
  assumes "e_ok e" "room e K" "k \<in> K"
  shows "same_state e (e_updateCache k (last_ts e k) e)" "room (e_updateCache k (last_ts e k) e) K"
  using touch_same [OF assms refl] update_refines [of "e_cache e" k "last_ts e k"] assms(1)
  by (simp_all add: e_updateCache_def e_ok_def)

lemma cache_lookup_same:
  assumes ok: "e_ok e" and room: "room e K" "k \<in> K"
  shows "\<exists>c. getLastCommitCache k (e_cache e) = (cached e k, c) \<and>
    same_state e (e\<lparr>e_cache := c\<rparr>) \<and> room (e\<lparr>e_cache := c\<rparr>) K"
proof -
  have inv: "cc_inv (e_cache e)" using ok by (simp add: e_ok_def)
  obtain c where c: "getLastCommitCache k (e_cache e) = (cached e k, c)" "cc_inv c"
    "cc_list c = (case cached e k of None \<Rightarrow> cc_list (e_cache e) | Some ts \<Rightarrow> lru_touch k ts (cc_list (e_cache e)))"
    using get_refines [OF inv, of k] by (cases "getLastCommitCache k (e_cache e)") (auto simp: cached_def)
  have "same_state e (e\<lparr>e_cache := c\<rparr>) \<and> room (e\<lparr>e_cache := c\<rparr>) K"
  proof (cases "cached e k")
    case None
    then have l: "cc_list c = cc_list (e_cache e)" using c(3) by simp
    then have m: "cached (e\<lparr>e_cache := c\<rparr>) = cached e" by (simp add: cached_def)
    have "room (e\<lparr>e_cache := c\<rparr>) K" using room(1) unfolding room_def m by (simp add: l)
    moreover have "logs_ok e" using ok by (simp add: e_ok_def)
    ultimately show ?thesis using last_data [OF cache_only(1) m] c(2) by (simp add: same_state_def cache_only)
  next
    case (Some t)
    have "length (lru_touch k t (cc_list (e_cache e))) \<le> maxLastCommitCacheEntries"
    proof -
      have "k \<in> fst ` set (cc_list (e_cache e))" using Some by (auto simp: cached_dom [symmetric])
      moreover have "distinct (map fst (cc_list (e_cache e)))" using inv by (simp add: cc_inv_def)
      ultimately show ?thesis using room(1) by (simp add: length_touch room_def)
    qed
    then have "cc_list c = take maxLastCommitCacheEntries (lru_touch k t (cc_list (e_cache e)))"
      using Some c(3) by simp
    moreover have "t = last_ts e k" using Some by (simp add: last_ts_def)
    ultimately show ?thesis using touch_same [OF ok room _ c(2)] by blast
  qed
  with c(1) show ?thesis by blast
qed

lemma e_conflict:
  assumes ok: "e_ok e" and adm: "e_admits e b" and k: "k \<in> bo_Key ` set (wb_ops b)"
  shows "\<exists>e'. e_CheckConflict k t e = (Inr (e_changed e k t), e') \<and> e_LastTS e' = e_LastTS e \<and>
    (\<forall>b'. batch_keys b' \<subseteq> batch_keys b \<longrightarrow> keeps e b' e')"
proof -
  let ?K = "bo_Key ` set (wb_ops b)"
  have room: "room e ?K" using adm by (simp add: e_admits_def)
  obtain c where c: "getLastCommitCache k (e_cache e) = (cached e k, c)" "same_state e (e\<lparr>e_cache := c\<rparr>)"
    "room (e\<lparr>e_cache := c\<rparr>) ?K"
    using cache_lookup_same [OF ok room k] by blast
  let ?e = "e\<lparr>e_cache := c\<rparr>"
  have k1: "keeps e b' ?e" if "batch_keys b' \<subseteq> ?K" for b'
    using room_mono [OF c(3)] that by (intro same_keeps [OF ok c(2)]) simp_all
  have ok1: "e_ok ?e" using k1 [of b] by (simp add: keeps_def)
  show ?thesis
  proof (cases "cached e k")
    case (Some t')
    then have "e_CheckConflict k t e = (Inr (e_changed e k t), ?e)"
      using c(1) by (simp add: e_CheckConflict_def e_changed_def last_ts_def)
    with k1 show ?thesis by auto
  next
    case None
    have "\<exists>r. e_GetLatestInfo k e = Inr r" using ok unfolding e_ok_def by blast
    then obtain v t' f where g: "e_GetLatestInfo k e = Inr (v, t', f)" by (elim exE) (metis prod_cases3 that)
    have g': "e_GetLatestInfo k ?e = Inr (v, t', f)" using latest_data [OF cache_only(1)] g by metis
    have l: "last_ts e k = t'" using None g by (simp add: last_ts_def)
    have l': "last_ts ?e k = t'" using same_reads(3) [OF c(2)] l by simp
    let ?e2 = "e_updateCache k t' ?e"
    note u = update_same [OF ok1 c(3) k, unfolded l']
    have "same_state e ?e2" using c(2) u(1) by (auto simp: same_state_def)
    then have k2: "keeps e b' ?e2" if "batch_keys b' \<subseteq> ?K" for b'
      using room_mono [OF u(2)] that by (intro same_keeps [OF ok]) (simp_all add: e_updateCache_def)
    have r: "e_CheckConflict k t e =
        (Inr (e_changed e k t), if t' > t \<or> t' > 0 then ?e2 else ?e)"
      using c(1) None g' by (auto simp: e_CheckConflict_def Let_def e_changed_def l)
    show ?thesis using k1 k2 unfolding r by (auto simp: e_updateCache_def)
  qed
qed

lemma e_next:
  assumes ok: "e_ok e" and clock: "e_LastTS e \<noteq> - 1"
  shows "\<exists>e'. e_NextTimestamp e = (e_LastTS e + 1, e') \<and> e_LastTS e < e_LastTS e + 1 \<and>
    e_LastTS e' = e_LastTS e + 1 \<and> keeps e b e'"
proof -
  let ?e = "e\<lparr>e_LastTS := e_LastTS e + 1\<rparr>"
  have lt: "e_LastTS e < e_LastTS e + 1" 
  proof -
    have "1 + e_LastTS e \<noteq> 0" using clock by (metis add.commute add_eq_0_iff)
    from unatSuc [OF this] show ?thesis by (simp add: word_less_nat_alt add.commute)
  qed
  have "last_ts ?e = last_ts e" by (rule last_data) (simp_all add: e_data_def e_mts_def cached_def)
  then have "same_state e ?e" using ok by (simp add: same_state_def e_data_def e_mts_def e_ok_def logs_ok_def)
  then have "keeps e b ?e" using lt by (intro same_keeps [OF ok]) (simp_all add: room_def cached_def)
  then show ?thesis using lt by (simp add: e_NextTimestamp_def)
qed

lemma e_reg:
  assumes ok: "e_ok e"
  shows "keeps e b (e\<lparr>e_snapshots := r\<rparr>)"
proof -
  let ?e = "e\<lparr>e_snapshots := r\<rparr>"
  have "last_ts ?e = last_ts e" by (rule last_data) (simp_all add: e_data_def e_mts_def cached_def)
  then have "same_state e ?e" using ok by (simp add: same_state_def e_data_def e_mts_def e_ok_def logs_ok_def)
  then show ?thesis by (intro same_keeps [OF ok]) (simp_all add: room_def cached_def)
qed

section \<open>Writing a batch\<close>

text \<open>\<open>e'\<close> is \<open>e\<close> after the version \<open>t\<close> of \<open>key\<close> was committed with the value \<open>v\<close>.\<close>

definition wrote :: "bytes \<Rightarrow> u64 \<Rightarrow> bytes option \<Rightarrow> lsm \<Rightarrow> lsm \<Rightarrow> bool" where
  "wrote key t v e e' \<longleftrightarrow> e_ok e' \<and> e_LastTS e' = e_LastTS e \<and>
     (\<forall>k. last_ts e' k = (if k = key then t else last_ts e k)) \<and>
     (\<forall>k s. e_view e' k s = (if k = key \<and> t \<le> s then v else e_view e k s)) \<and>
     op_admitted e' = op_admitted e \<and> (\<forall>K. room e K \<longrightarrow> key \<in> K \<longrightarrow> room e' K)"

definition stored_version :: "bytes option \<Rightarrow> version" where
  "stored_version v = (case v of None \<Rightarrow> Tomb | Some x \<Rightarrow> Live (Some (TypeInline # x)))"

lemma decode_stored: "decodeStoredValue e (Some (TypeInline # x)) b = Inr (Some x)"
  by (simp add: decodeStoredValue_def IsValidValueTag_def value_tags Let_def)

text \<open>What an added version leaves of the parts the reads use, and its cache entry.\<close>

definition commits :: "bytes \<Rightarrow> u64 \<Rightarrow> bytes option \<Rightarrow> lsm \<Rightarrow> lsm \<Rightarrow> bool" where
  "commits key t v e e' \<longleftrightarrow> adds key t (stored_version v) e e' \<and> e_unified e' = e_unified e \<and> e_vlog e' = e_vlog e \<and>
     e_LastTS e' = e_LastTS e \<and> e_cache e' = updateLastCommitCache key t (e_cache e) \<and>
     (\<forall>j < length (e_shards e). sh_wal (e_shards e' ! j) = sh_wal (e_shards e ! j))"

lemma ok_newer:
  assumes ok: "e_ok e" and lt: "last_ts e key < t"
  shows "newer key t e"
  unfolding newer_def
proof (clarify)
  fix k v assume k: "(k, v) \<in> set (sh_mem (e_shard e (mk_key k)))" "key = mk_key k"
  have "e_shard e (mk_key k) \<in> set (e_shards e)" using index_less ok by (simp add: e_shard_def e_ok_def)
  moreover have "\<forall>s \<in> set (e_shards e). \<forall>(k, v) \<in> set (sh_mem s). CommitTS k \<le> last_ts e (mk_key k)"
    using ok by (simp add: e_ok_def)
  ultimately have "CommitTS k \<le> last_ts e (mk_key k)" using k(1) by fast
  then show "CommitTS k < t" using lt k(2) by simp
qed

lemma commits_reads:
  assumes c: "commits key t v e e'" and ok: "e_ok e" and lt: "last_ts e key < t" and ne: "key \<noteq> []"
    and adm: "v = None \<longrightarrow> (\<forall>s. lookup_levels (NewMVCCKey key s) (e_levels e) = Inr None)"
  shows "e_GetWithTS k s e' = (if k = key \<and> t \<le> s then Inr v else e_GetWithTS k s e)"
    "k \<noteq> key \<Longrightarrow> e_GetLatestInfo k e' = e_GetLatestInfo k e" "\<exists>r. e_GetLatestInfo k e' = Inr r"
proof -
  have a: "adds key t (stored_version v) e e'" and r: "routed e" "sized e" and nc: "\<not> e_closed e"
    using c ok by (simp_all add: commits_def e_ok_def)
  have "decodeStoredValue e' = decodeStoredValue e" using c by (intro decode_data) (simp_all add: commits_def)
  then have dec: "\<And>x b. decodeStoredValue e' x b = decodeStoredValue e x b" by simp
  have "e_shard e key \<in> set (e_shards e)" using index_less [OF r(2)] by (simp add: e_shard_def)
  then have inv: "mem_inv (sh_mem (e_shard e key))" using ok by (auto simp: e_ok_def logs_ok_def)
  note new = ok_newer [OF ok lt]
  show "e_GetWithTS k s e' = (if k = key \<and> t \<le> s then Inr v else e_GetWithTS k s e)"
  proof (cases "k = key \<and> t \<le> s")
    case True
    then have s: "t \<le> s" by simp
    have "e_GetWithTS key s e' = Inr v"
      using adm unfolding adds_get_own [OF a r nc inv new s ne] stored_version_def
      by (cases v) (simp_all add: decode_stored)
    then show ?thesis using True by simp
  next
    case False
    then have "k \<noteq> key \<or> s < t" by auto
    from adds_get_other [OF a r this dec] False show ?thesis by auto
  qed
  show other: "e_GetLatestInfo k e' = e_GetLatestInfo k e" if "k \<noteq> key" by (rule adds_latest_other [OF a r that dec])
  have latest: "\<And>k. \<exists>r. e_GetLatestInfo k e = Inr r" using ok by (simp only: e_ok_def)
  have t0: "0 < t" using lt by (simp add: word_less_nat_alt)
  have "\<exists>r. e_GetLatestInfo key e' = Inr r"
    by (rule adds_latest_own [OF a r nc t0 inv new dec latest])
      (auto simp: stored_version_def decode_stored split: option.splits)
  then show "\<exists>r. e_GetLatestInfo k e' = Inr r" using other latest by (cases "k = key") auto
qed

lemma commits_shards:
  assumes c: "commits key t v e e'" and ok: "e_ok e" and lt: "last_ts e key < t" and s: "s \<in> set (e_shards e')"
  shows "wal_inv (sh_wal s) \<and> mem_inv (sh_mem s) \<and>
    (\<forall>(k, x) \<in> set (sh_mem s). CommitTS k \<le> (if mk_key k = key then t else last_ts e (mk_key k)))"
proof -
  obtain j where j: "j < length (e_shards e)" "s = e_shards e' ! j"
    using s c by (auto simp: in_set_conv_nth commits_def adds_def)
  let ?s = "e_shards e ! j" and ?k = "NewMVCCKey key t"
  have in_e: "?s \<in> set (e_shards e)" using j(1) by simp
  have w: "sh_wal s = sh_wal ?s" using c j by (simp add: commits_def)
  have m: "sh_mem s = (if j = e_shardIndex e key then mem_insert ?k (stored_version v) (sh_mem ?s) else sh_mem ?s)"
    using c j by (simp add: commits_def adds_def)
  have old: "wal_inv (sh_wal ?s)" "mem_inv (sh_mem ?s)" using ok in_e by (auto simp: e_ok_def logs_ok_def)
  have cl: "\<forall>(k, x) \<in> set (sh_mem ?s). CommitTS k \<le> last_ts e (mk_key k)"
    using ok in_e unfolding e_ok_def by blast
  have bound: "CommitTS k \<le> (if mk_key k = key then t else last_ts e (mk_key k))" if "(k, x) \<in> set (sh_mem ?s)" for k x
  proof -
    have "CommitTS k \<le> last_ts e (mk_key k)" using cl that by fast
    then show ?thesis using lt by (auto simp del: CommitTS_le_iff)
  qed
  have "\<not> mem_has ?k (sh_mem ?s)"
  proof
    assume "mem_has ?k (sh_mem ?s)"
    then obtain x where "(?k, x) \<in> set (sh_mem ?s)" by (auto simp: mem_has_def)
    with cl have "t \<le> last_ts e key" by fastforce
    with lt show False by simp
  qed
  then have "mem_inv (sh_mem s)" using old(2) unfolding m by (metis mem_inv_insert)
  moreover have "\<forall>(k, x) \<in> set (sh_mem s). CommitTS k \<le> (if mk_key k = key then t else last_ts e (mk_key k))"
    using bound by (auto simp: m simp del: CommitTS_le_iff)
  ultimately show ?thesis using old(1) w by simp
qed

lemma commits_wrote:
  assumes c: "commits key t v e e'" and ok: "e_ok e" and lt: "last_ts e key < t" "t \<le> e_LastTS e" and ne: "key \<noteq> []"
    and adm: "v = None \<longrightarrow> (\<forall>s. lookup_levels (NewMVCCKey key s) (e_levels e) = Inr None)"
    and room: "room e K" "key \<in> K"
  shows "wrote key t v e e'"
proof -
  have a: "adds key t (stored_version v) e e'" using c by (simp add: commits_def)
  have inv: "cc_inv (e_cache e)" using ok by (simp add: e_ok_def)
  note rd = commits_reads [OF c ok lt(1) ne adm] and sh = commits_shards [OF c ok lt(1)]
  have ec: "e_cache e' = e_cache (e_updateCache key t e)" using c by (simp add: commits_def e_updateCache_def)
  note cu = cache_update [OF inv]
  have ch: "cached e' = (cached e)(key \<mapsto> t)" using cu(1) [OF room] room_cache(2) [OF ec] by simp
  have rm: "room e' K'" if "room e K'" "key \<in> K'" for K' using cu(2) [OF that] room_cache(1) [OF ec] by simp
  have ci: "cc_inv (e_cache e')" using cu(3) [OF room] ec by simp
  have lts: "last_ts e' k = (if k = key then t else last_ts e k)" for k
  proof (cases "k = key")
    case False
    then have u: "cached e' k = cached e k" by (simp add: ch)
    show ?thesis using False unfolding last_ts_def u rd(2) [OF False] by simp
  qed (simp add: last_ts_def [of e'] ch)
  have "e_LastTS e' = e_LastTS e" using c by (simp add: commits_def)
  moreover have "op_admitted e' = op_admitted e"
  proof -
    have l: "e_levels e' = e_levels e" using a by (simp add: adds_def)
    show ?thesis by (intro ext) (unfold op_admitted_def l, rule refl)
  qed
  moreover have "e_view e' k s = (if k = key \<and> t \<le> s then v else e_view e k s)" for k s
    by (simp add: e_view_def rd(1))
  moreover have "e_ok e'"
  proof -
    have "\<not> e_closed e'" "sized e'" "routed e'" using ok a adds_sized adds_routed by (auto simp: e_ok_def adds_def)
    moreover have "logs_ok e'" using sh by (simp add: logs_ok_def)
    moreover have "\<forall>k s. \<exists>x. e_GetWithTS k s e' = Inr x" using ok by (simp add: rd(1) e_ok_def)
    moreover have "\<forall>k. last_ts e' k \<le> e_LastTS e'" using ok lt c by (simp add: lts e_ok_def commits_def)
    moreover have "\<forall>s \<in> set (e_shards e'). \<forall>(k, x) \<in> set (sh_mem s). CommitTS k \<le> last_ts e' (mk_key k)"
      unfolding lts using sh by blast
    ultimately show ?thesis using ci rd(3) unfolding e_ok_def by blast
  qed
  ultimately show ?thesis using lts rm by (simp add: wrote_def)
qed

text \<open>One iteration of the loop over the batch.\<close>

definition local_of :: "batch_op \<Rightarrow> local_op" where
  "local_of op = \<lparr>lo_IsDelete = (bo_Type op = txn_OpDelete), lo_Key = bo_Key op, lo_Value = slice_of (bo_Value op)\<rparr>"

definition apply_op :: "u64 \<Rightarrow> local_op \<Rightarrow> lsm \<Rightarrow> lsm" where
  "apply_op t op e =
     e_updateCache (lo_Key op) t
       (upd_shard (e_shardIndex e (lo_Key op))
          (sh_mem_update (\<lambda>m. snd (if lo_IsDelete op then mem_delete_ts (NewMVCCKey (lo_Key op) t) m
             else mem_put (NewMVCCKey (lo_Key op) t) (Some (tagStoredValue (Some (lo_Value op)))) m))) e)"

lemma apply_batch_Cons: "apply_batch t (op # ops) e = apply_batch t ops (apply_op t op e)"
  by (simp add: apply_op_def Let_def)

lemma stored_op:
  assumes "op_fits op" "op_admitted e op" "\<not> mem_has k m"
  shows "snd (if lo_IsDelete (local_of op) then mem_delete_ts k m
      else mem_put k (Some (tagStoredValue (Some (lo_Value (local_of op))))) m) =
    mem_insert k (stored_version (bo_Value op)) m"
  using assms
  by (auto simp: op_fits_def op_admitted_def local_of_def mem_delete_ts_def mem_put_def stored_version_def
      tagStoredValue_def Decode_vp_12 slice_of_def txn_OpPut_def txn_OpDelete_def)

lemma apply_op_commits:
  assumes ok: "e_ok e" and lt: "last_ts e (bo_Key op) < t" and fits: "op_fits op" "op_admitted e op"
  shows "commits (bo_Key op) t (bo_Value op) e (apply_op t (local_of op) e)"
proof -
  let ?i = "e_shardIndex e (bo_Key op)" and ?k = "NewMVCCKey (bo_Key op) t"
  have i: "?i < length (e_shards e)" using ok index_less by (simp add: e_ok_def)
  have "\<not> mem_has ?k (sh_mem (e_shards e ! ?i))"
    using ok_newer [OF ok lt] by (fastforce simp: newer_def mem_has_def e_shard_def)
  from stored_op [OF fits this] i show ?thesis
    by (cases "bo_Type op = txn_OpDelete") (simp_all add: commits_def adds_def apply_op_def e_updateCache_def upd_shard_def local_of_def nth_list_update)
qed

text \<open>All of a batch.\<close>

lemma apply_batch_ok:
  assumes "e_ok e" "t \<le> e_LastTS e" "\<forall>op \<in> set ops. op_fits op \<and> op_admitted e op \<and> last_ts e (bo_Key op) < t"
    and "distinct (map bo_Key ops)" "room e K" "bo_Key ` set ops \<subseteq> K"
  shows "\<exists>e'. apply_batch t (map local_of ops) e = e' \<and> e_ok e' \<and> e_LastTS e' = e_LastTS e \<and>
    (\<forall>k. last_ts e' k = (if k \<in> bo_Key ` set ops then t else last_ts e k)) \<and>
    (\<forall>k s. s < t \<or> k \<notin> bo_Key ` set ops \<longrightarrow> e_view e' k s = e_view e k s) \<and>
    (\<forall>op \<in> set ops. \<forall>s. t \<le> s \<longrightarrow> e_view e' (bo_Key op) s = bo_Value op) \<and>
    op_admitted e' = op_admitted e \<and> room e' K"
  using assms
proof (induction ops arbitrary: e)
  case (Cons op ops)
  let ?e = "apply_op t (local_of op) e"
  have op: "op_fits op" "op_admitted e op" "last_ts e (bo_Key op) < t" using Cons.prems(3) by auto
  have k: "bo_Key op \<in> K" "bo_Key op \<notin> bo_Key ` set ops" using Cons.prems(4,6) by auto
  have "wrote (bo_Key op) t (bo_Value op) e ?e"
    by (rule commits_wrote [OF apply_op_commits [OF Cons.prems(1) op(3,1,2)] Cons.prems(1) op(3) Cons.prems(2) _ _ Cons.prems(5) k(1)])
      (use op(2) in \<open>auto simp: op_admitted_def\<close>)
  then have w: "e_ok ?e" "e_LastTS ?e = e_LastTS e" "\<And>k. last_ts ?e k = (if k = bo_Key op then t else last_ts e k)"
    "\<And>k s. e_view ?e k s = (if k = bo_Key op \<and> t \<le> s then bo_Value op else e_view e k s)"
    "op_admitted ?e = op_admitted e" "room ?e K"
    using Cons.prems(5) k(1) unfolding wrote_def by blast+
  have "t \<le> e_LastTS ?e" using Cons.prems(2) w(2) by simp
  moreover have "\<forall>op \<in> set ops. op_fits op \<and> op_admitted ?e op \<and> last_ts ?e (bo_Key op) < t"
    using Cons.prems(3) k(2) unfolding w(5) w(3) by (auto simp: image_iff)
  moreover have "distinct (map bo_Key ops)" "bo_Key ` set ops \<subseteq> K" using Cons.prems(4,6) by auto
  ultimately obtain e' where e': "apply_batch t (map local_of ops) ?e = e'" "e_ok e'" "e_LastTS e' = e_LastTS ?e"
    "\<forall>k. last_ts e' k = (if k \<in> bo_Key ` set ops then t else last_ts ?e k)"
    "\<forall>k s. s < t \<or> k \<notin> bo_Key ` set ops \<longrightarrow> e_view e' k s = e_view ?e k s"
    "\<forall>op \<in> set ops. \<forall>s. t \<le> s \<longrightarrow> e_view e' (bo_Key op) s = bo_Value op"
    "op_admitted e' = op_admitted ?e" "room e' K"
    using Cons.IH [OF w(1) _ _ _ w(6)] by blast
  show ?case
  proof (intro exI [of _ e'] conjI)
    show "apply_batch t (map local_of (op # ops)) e = e'" using e'(1) by (simp only: list.map apply_batch_Cons)
    show "\<forall>k. last_ts e' k = (if k \<in> bo_Key ` set (op # ops) then t else last_ts e k)"
      unfolding e'(4) [rule_format] w(3) by auto
    show "\<forall>k s. s < t \<or> k \<notin> bo_Key ` set (op # ops) \<longrightarrow> e_view e' k s = e_view e k s"
      using e'(5) w(4) by (auto simp: not_le)
    show "\<forall>o' \<in> set (op # ops). \<forall>s. t \<le> s \<longrightarrow> e_view e' (bo_Key o') s = bo_Value o'"
      using e'(5,6) w(4) k(2) by auto
    show "op_admitted e' = op_admitted e" unfolding e'(7) by (rule w(5))
  qed (use e'(2,3,8) w(2) in simp_all)
qed simp

text \<open>The log writes of a batch and the size counters change nothing that is read.\<close>

lemma log_step:
  assumes ok: "e_ok e" and fits: "wal_fits entry" and i: "i < length (e_shards e)"
  shows "\<exists>w. wal_Write None True entry (sh_wal (e_shards e ! i)) = (None, w) \<and>
    e_ok (upd_shard i (sh_wal_update (\<lambda>_. w)) e) \<and> same_state e (upd_shard i (sh_wal_update (\<lambda>_. w)) e)"
proof -
  have logs: "logs_ok e" using ok by (simp add: e_ok_def)
  then have "wal_inv (sh_wal (e_shards e ! i))" using i by (simp add: logs_ok_def)
  from wal_Write_ok [OF this fits] obtain w where
    w: "wal_Write None True entry (sh_wal (e_shards e ! i)) = (None, w)" "wal_inv w" by blast
  let ?e = "upd_shard i (sh_wal_update (\<lambda>_. w)) e"
  have d: "e_data ?e = e_data e"
    by (auto simp: e_data_def e_mts_def upd_shard_def i nth_list_update intro!: nth_equalityI)
  have "cached ?e = cached e" by (simp add: cached_def upd_shard_def)
  note lt = last_data [OF d this]
  have "logs_ok ?e" using logs w(2) i by (auto simp: logs_ok_def upd_shard_def dest!: set_update_subset_insert [THEN subsetD])
  then have same: "same_state e ?e" using d lt ok by (simp add: same_state_def e_ok_def upd_shard_def)
  have "e_ok ?e" by (rule same_ok [OF ok same]) (simp add: upd_shard_def)
  with w(1) same show ?thesis by blast
qed

lemma log_batch_ok:
  assumes "e_ok e" "wal_fits entry" "\<forall>i \<in> set is. i < length (e_shards e)"
  shows "\<exists>e'. log_batch (\<lambda>_. (None, True)) entry is e = (None, e') \<and> same_state e e' \<and> e_LastTS e' = e_LastTS e \<and>
    e_cache e' = e_cache e"
  using assms
proof (induction "is" arbitrary: e)
  case Nil
  then show ?case by (simp add: same_state_def e_ok_def)
next
  case (Cons i "is")
  have "i < length (e_shards e)" using Cons.prems(3) by simp
  from log_step [OF Cons.prems(1,2) this] obtain w where
    w: "wal_Write None True entry (sh_wal (e_shards e ! i)) = (None, w)"
    "e_ok (upd_shard i (sh_wal_update (\<lambda>_. w)) e)" "same_state e (upd_shard i (sh_wal_update (\<lambda>_. w)) e)"
    by blast
  let ?e = "upd_shard i (sh_wal_update (\<lambda>_. w)) e"
  from Cons.IH [OF w(2) Cons.prems(2)] obtain e' where
    e': "log_batch (\<lambda>_. (None, True)) entry is ?e = (None, e')" "same_state ?e e'" "e_LastTS e' = e_LastTS ?e"
    "e_cache e' = e_cache ?e"
    using Cons.prems(3) by (auto simp: upd_shard_def)
  have "log_batch (\<lambda>_. (None, True)) entry (i # is) e = (None, e')" using w(1) e'(1) by simp
  moreover have "same_state e e'" using w(3) e'(2) by (simp add: same_state_def)
  ultimately show ?case using e'(3,4) by (auto simp: upd_shard_def)
qed

lemma add_deltas_same:
  assumes "e_ok e" "\<forall>op \<in> set ops. e_shardIndex e (lo_Key op) < length (e_shards e)"
  shows "same_state e (add_deltas ops e) \<and> e_LastTS (add_deltas ops e) = e_LastTS e"
  using assms
proof (induction ops arbitrary: e)
  case Nil
  then show ?case by (simp add: same_state_def e_ok_def)
next
  case (Cons op ops)
  let ?i = "e_shardIndex e (lo_Key op)"
  let ?e = "if lo_IsDelete op then e else upd_shard ?i
    (sh_memSize_update (\<lambda>n. n + int (length (lo_Key op) + length (lo_Value op)))) e"
  have i: "?i < length (e_shards e)" using Cons.prems(2) by simp
  have d: "e_data ?e = e_data e"
    by (auto simp: e_data_def e_mts_def upd_shard_def i nth_list_update intro!: nth_equalityI)
  have "cached ?e = cached e" by (simp add: cached_def upd_shard_def)
  note lt = last_data [OF d this]
  have "logs_ok e" using Cons.prems(1) by (simp add: e_ok_def)
  then have "logs_ok ?e" using i by (auto simp: logs_ok_def upd_shard_def dest!: set_update_subset_insert [THEN subsetD])
  then have same: "same_state e ?e" using d lt Cons.prems(1) by (simp add: same_state_def e_ok_def upd_shard_def)
  have ok: "e_ok ?e" by (rule same_ok [OF Cons.prems(1) same]) (simp add: upd_shard_def)
  have "\<forall>op \<in> set ops. e_shardIndex ?e (lo_Key op) < length (e_shards ?e)"
    using Cons.prems(2) by (simp add: upd_shard_def e_shardIndex_def)
  from Cons.IH [OF ok this] have
    "same_state ?e (add_deltas ops ?e)" "e_LastTS (add_deltas ops ?e) = e_LastTS ?e" by simp_all
  moreover have "add_deltas (op # ops) e = add_deltas ops ?e" by (simp add: Let_def)
  moreover have "e_LastTS ?e = e_LastTS e" by (simp add: upd_shard_def)
  ultimately show ?case using same unfolding same_state_def by metis
qed

lemma add_deltas_cache: "e_cache (add_deltas ops e) = e_cache e"
  by (induction ops arbitrary: e) (simp_all add: Let_def upd_shard_def)

lemma e_write:
  assumes ok: "e_ok e" and fits: "batch_fits b" and adm: "e_admits e b" and dist: "distinct (map bo_Key (wb_ops b))"
    and d: "EncodeBatch b = Inr d" and t: "t \<le> e_LastTS e" "0 < t" "\<And>k. \<not> e_changed e k (t - 1)"
    and ord: "\<And>xs. distinct xs \<Longrightarrow> set (ord xs) = set xs"
  shows "\<exists>e'. e_WriteAtomicBatch ord (\<lambda>_. (None, True)) d t e = (None, e') \<and> e_ok e' \<and> e_LastTS e' = e_LastTS e \<and>
    (\<forall>k s. e_changed e' k s \<longleftrightarrow> e_changed e k s \<or> k \<in> bo_Key ` set (wb_ops b) \<and> s < t) \<and>
    (\<forall>k s. s < t \<or> k \<notin> bo_Key ` set (wb_ops b) \<longrightarrow> e_view e' k s = e_view e k s) \<and>
    (\<forall>op \<in> set (wb_ops b). \<forall>s. t \<le> s \<longrightarrow> e_view e' (bo_Key op) s = bo_Value op) \<and>
    keeps_admitted e_admits b e e'"
proof -
  let ?K = "bo_Key ` set (wb_ops b)" and ?ops = "map local_of (wb_ops b)"
  have dec: "decodeBatchLocal d = Inr ?ops"
    using decode_encoded(2) [OF fits d] by (simp add: local_of_def [abs_def])
  have nc: "\<not> e_closed e" and sz: "sized e" using ok by (simp_all add: e_ok_def)
  have wf: "wal_fits (batch_entry d t)"
    using adm d by (simp add: e_admits_def wal_fits_def batch_entry_def wal_size_def)
  have "set (ord (affected_shards e ?ops)) = set (affected_shards e ?ops)" by (rule ord) (simp add: affected_shards_def)
  then have "\<forall>i \<in> set (ord (affected_shards e ?ops)). i < length (e_shards e)"
    using index_less [OF sz] by (auto simp: affected_shards_def)
  from log_batch_ok [OF ok wf this] obtain e1 where
    e1: "log_batch (\<lambda>_. (None, True)) (batch_entry d t) (ord (affected_shards e ?ops)) e = (None, e1)"
    "same_state e e1" "e_LastTS e1 = e_LastTS e" "e_cache e1 = e_cache e"
    by blast
  have ok1: "e_ok e1" by (rule same_ok [OF ok e1(2)]) (simp add: e1(3))
  note same1 = same_reads [OF e1(2)]
  have room: "room e1 ?K" using adm room_cache(1) [OF e1(4)] by (simp add: e_admits_def)
  have "last_ts e k < t" for k
  proof -
    have "last_ts e k \<le> t - 1" using t(3) [of k] by (simp add: e_changed_def not_less)
    moreover have "unat (t - 1) = unat t - 1" using t(2) by (intro unat_minus_one) auto
    then have "t - 1 < t" using t(2) by (simp add: word_less_nat_alt)
    ultimately show ?thesis by (rule order.strict_trans1)
  qed
  then have pre: "\<forall>op \<in> set (wb_ops b). op_fits op \<and> op_admitted e1 op \<and> last_ts e1 (bo_Key op) < t"
    using adm fits unfolding same1 by (simp add: e_admits_def batch_fits_def)
  have "t \<le> e_LastTS e1" using t(1) e1(3) by simp
  from apply_batch_ok [OF ok1 this pre dist room order.refl] obtain e2 where
    e2: "apply_batch t ?ops e1 = e2" "e_ok e2" "e_LastTS e2 = e_LastTS e1"
    "\<forall>k. last_ts e2 k = (if k \<in> ?K then t else last_ts e1 k)"
    "\<forall>k s. s < t \<or> k \<notin> ?K \<longrightarrow> e_view e2 k s = e_view e1 k s"
    "\<forall>op \<in> set (wb_ops b). \<forall>s. t \<le> s \<longrightarrow> e_view e2 (bo_Key op) s = bo_Value op"
    "op_admitted e2 = op_admitted e1" "room e2 ?K"
    by blast
  have "sized e2" using e2(2) by (simp add: e_ok_def)
  then have ix: "\<forall>op \<in> set ?ops. e_shardIndex e2 (lo_Key op) < length (e_shards e2)" by (simp add: index_less)
  let ?e3 = "add_deltas ?ops e2"
  have s3: "same_state e2 ?e3" "e_LastTS ?e3 = e_LastTS e2" using add_deltas_same [OF e2(2) ix] by simp_all
  note same3 = same_reads [OF s3(1)]
  have ok3: "e_ok ?e3" by (rule same_ok [OF e2(2) s3(1)]) (simp add: s3(2))
  have run: "e_WriteAtomicBatch ord (\<lambda>_. (None, True)) d t e = (None, ?e3)"
    using nc e1(1) e2(1) by (simp add: e_WriteAtomicBatch_def dec)
  have ch: "e_changed ?e3 k s \<longleftrightarrow> e_changed e k s \<or> k \<in> ?K \<and> s < t" for k s
  proof (cases "k \<in> ?K")
    case True
    have "last_ts e k < t" by fact
    with True show ?thesis by (auto simp: e_changed_def same3(3) e2(4) intro: order.strict_trans)
  qed (simp add: e_changed_def same3(3) e2(4) same1(3))
  have v: "e_view ?e3 = e_view e2" "e_view e1 = e_view e" by (rule same3(4), rule same1(4))
  have c3: "e_cache ?e3 = e_cache e2" by (rule add_deltas_cache)
  have "room ?e3 ?K" using e2(8) room_cache(1) [OF c3] by simp
  then have "room ?e3 K" if "K \<subseteq> ?K" for K using that room_mono by blast
  moreover have "op_admitted ?e3 = op_admitted e" by (simp add: same3(6) e2(7) same1(6))
  ultimately have kept: "keeps_admitted e_admits b e ?e3" by (simp add: keeps_admitted_def e_admits_def)
  show ?thesis
  proof (rule exI [of _ ?e3], intro conjI)
    show "\<forall>k s. e_changed ?e3 k s \<longleftrightarrow> e_changed e k s \<or> k \<in> ?K \<and> s < t" using ch by blast
    show "\<forall>k s. s < t \<or> k \<notin> ?K \<longrightarrow> e_view ?e3 k s = e_view e k s" using e2(5) unfolding v .
    show "\<forall>op \<in> set (wb_ops b). \<forall>s. t \<le> s \<longrightarrow> e_view ?e3 (bo_Key op) s = bo_Value op" using e2(6) unfolding v .
  qed (use run ok3 s3(2) e2(3) e1(3) kept in simp_all)
qed

section \<open>The engine provides what transactions rely on\<close>

text \<open>
  \<open>ord\<close> is the order in which the engine ranges over the set of affected shards; an \<open>ord\<close> that
  loses or repeats a shard stands for the given order.
\<close>

definition some_order :: "(nat list \<Rightarrow> nat list) \<Rightarrow> nat list \<Rightarrow> nat list" where
  "some_order ord xs = (if distinct (ord xs) \<and> set (ord xs) = set xs then ord xs else xs)"

definition lsm_ops :: "(nat list \<Rightarrow> nat list) \<Rightarrow> (lsm, lsm_error) engine_ops" where
  "lsm_ops ord =
     \<lparr>eng_WriteAtomicBatch = e_WriteAtomicBatch (some_order ord) (\<lambda>_. (None, True)),
      eng_NextTimestamp = e_NextTimestamp,
      eng_RegisterSnapshot = e_RegisterSnapshot,
      eng_UnregisterSnapshot = e_UnregisterSnapshot,
      eng_CheckConflict = e_CheckConflict,
      eng_GetWithTS = e_GetWithTS\<rparr>"

interpretation lsm_txn: txn_engine "lsm_ops ord" e_ok e_view e_changed e_LastTS e_admits
proof
  fix e k t
  assume ok: "e_ok e"
  then obtain v where "e_GetWithTS k t e = Inr v" unfolding e_ok_def by blast
  then show "eng_GetWithTS (lsm_ops ord) k t e = Inr (e_view e k t)" by (simp add: lsm_ops_def e_view_def)
next
  fix e b k t
  assume "e_ok e" "e_admits e b" "k \<in> bo_Key ` set (wb_ops b)"
  from e_conflict [OF this, of t] this(2)
  show "\<exists>e'. eng_CheckConflict (lsm_ops ord) k t e = (Inr (e_changed e k t), e') \<and> e_ok e' \<and>
      e_LastTS e' = e_LastTS e \<and> e_view e' = e_view e \<and> e_changed e' = e_changed e \<and> keeps_admitted e_admits b e e'"
    unfolding keeps_admitted_def keeps_def lsm_ops_def by auto
next
  fix e k t
  assume "e_ok e" "e_changed e k t"
  then show "t < e_LastTS e" by (auto simp: e_ok_def e_changed_def intro: order.strict_trans2)
next
  fix e t e' b
  assume h: "e_ok e" "e_LastTS e \<noteq> - 1" "eng_NextTimestamp (lsm_ops ord) e = (t, e')"
  from e_next [OF h(1,2), of b] h(3)
  show "e_ok e' \<and> e_LastTS e < t \<and> e_LastTS e' = t \<and> e_view e' = e_view e \<and> e_changed e' = e_changed e \<and>
      (e_admits e b \<longrightarrow> e_admits e' b)"
    by (auto simp: lsm_ops_def keeps_def)
next
  fix e e' t b
  assume h: "e_ok e" "e' = eng_RegisterSnapshot (lsm_ops ord) t e \<or> e' = eng_UnregisterSnapshot (lsm_ops ord) t e"
  then obtain r where e': "e' = e\<lparr>e_snapshots := r\<rparr>"
    by (auto simp: lsm_ops_def e_RegisterSnapshot_def e_UnregisterSnapshot_def)
  from e_reg [OF h(1), of b r]
  show "e_ok e' \<and> e_LastTS e' = e_LastTS e \<and> e_view e' = e_view e \<and> e_changed e' = e_changed e \<and>
      (e_admits e b \<longrightarrow> e_admits e' b)"
    unfolding keeps_def e' by simp
next
  fix e b d t
  assume h: "e_ok e" "batch_fits b" "e_admits e b" "distinct (map bo_Key (wb_ops b))" "EncodeBatch b = Inr d"
    "t \<le> e_LastTS e" "\<And>k. \<not> e_changed e k (t - 1)" "0 < t"
  show "\<exists>e'. eng_WriteAtomicBatch (lsm_ops ord) d t e = (None, e') \<and> e_ok e' \<and> e_LastTS e' = e_LastTS e \<and>
    (\<forall>k s. e_changed e' k s \<longleftrightarrow> e_changed e k s \<or> k \<in> bo_Key ` set (wb_ops b) \<and> s < t) \<and>
    (\<forall>k s. s < t \<or> k \<notin> bo_Key ` set (wb_ops b) \<longrightarrow> e_view e' k s = e_view e k s) \<and>
    (\<forall>op \<in> set (wb_ops b). \<forall>s. t \<le> s \<longrightarrow> e_view e' (bo_Key op) s = bo_Value op) \<and>
    keeps_admitted e_admits b e e'"
    using e_write [OF h(1-6,8,7), of "some_order ord"] by (simp add: lsm_ops_def some_order_def)
qed

end
