(* ===== verification/TxnIsolation.thy ===== *)
theory TxnIsolation
  imports LSMTxn
begin

text \<open>
  What clients of \<^verbatim>\<open>internal/txn/transaction.go\<close> and \<^verbatim>\<open>internal/engine/lsm.go\<close> may rely on: histories
  of single writes read like a versioned map, transactions read their snapshot and their own
  writes, the first of two overlapping committers wins, and a commit is atomic.
\<close>

section \<open>Single writes\<close>

lemma wrote_same:
  assumes "wrote key t v e1 e2" "same_state e e1" "e_LastTS e1 = e_LastTS e" "e_cache e1 = e_cache e"
  shows "wrote key t v e e2"
  using assms(1) unfolding wrote_def same_reads [OF assms(2)] assms(3) room_cache(1) [OF assms(4)] .

text \<open>A logged write of one version.\<close>

lemma logged_write:
  assumes ok: "e_ok e" and lt: "last_ts e key < t" "t \<le> e_LastTS e" and ne: "key \<noteq> []"
    and adm: "v = None \<longrightarrow> (\<forall>s. lookup_levels (NewMVCCKey key s) (e_levels e) = Inr None)"
    and room: "room e K" "key \<in> K" and fits: "wal_fits entry"
  shows "\<exists>w. wal_Write None True entry (sh_wal (e_shard e key)) = (None, w) \<and>
    (\<forall>f g. (\<forall>m. \<not> mem_has (NewMVCCKey key t) m \<longrightarrow> f m = mem_insert (NewMVCCKey key t) (stored_version v) m) \<longrightarrow>
      (let i = e_shardIndex e key in
       wrote key t v e (e_updateCache key t (upd_shard i (sh_memSize_update g) (upd_shard i (sh_mem_update f)
         (upd_shard i (sh_wal_update (\<lambda>_. w)) e))))))"
proof -
  let ?i = "e_shardIndex e key" and ?k = "NewMVCCKey key t"
  have i: "?i < length (e_shards e)" using ok index_less by (simp add: e_ok_def)
  from log_step [OF ok fits i] obtain w where
    w: "wal_Write None True entry (sh_wal (e_shards e ! ?i)) = (None, w)"
    "e_ok (upd_shard ?i (sh_wal_update (\<lambda>_. w)) e)" "same_state e (upd_shard ?i (sh_wal_update (\<lambda>_. w)) e)"
    by blast
  let ?e1 = "upd_shard ?i (sh_wal_update (\<lambda>_. w)) e"
  have c: "e_LastTS ?e1 = e_LastTS e" "e_cache ?e1 = e_cache e" "e_levels ?e1 = e_levels e"
    "e_shardIndex ?e1 = e_shardIndex e"
    by (simp_all add: upd_shard_def e_shardIndex_def [abs_def])
  have lt1: "last_ts ?e1 key < t" using lt(1) same_reads(3) [OF w(3)] by simp
  have room1: "room ?e1 K" using room(1) room_cache(1) [OF c(2)] by simp
  have "wrote key t v e (e_updateCache key t (upd_shard ?i (sh_memSize_update g) (upd_shard ?i (sh_mem_update f) ?e1)))"
    if f: "\<forall>m. \<not> mem_has ?k m \<longrightarrow> f m = mem_insert ?k (stored_version v) m" for f g
  proof -
    let ?e2 = "e_updateCache key t (upd_shard ?i (sh_memSize_update g) (upd_shard ?i (sh_mem_update f) ?e1))"
    have "\<not> mem_has ?k (sh_mem (e_shards ?e1 ! ?i))"
      using ok_newer [OF w(2) lt1] c(4) by (fastforce simp: newer_def mem_has_def e_shard_def)
    then have "f (sh_mem (e_shards ?e1 ! ?i)) = mem_insert ?k (stored_version v) (sh_mem (e_shards ?e1 ! ?i))"
      using f by blast
    then have "commits key t v ?e1 ?e2"
      using i by (simp add: commits_def adds_def e_updateCache_def upd_shard_def nth_list_update e_shardIndex_def)
    from commits_wrote [OF this w(2) lt1 _ ne _ room1 room(2)] lt(2) adm c
    have "wrote key t v ?e1 ?e2" by simp
    from wrote_same [OF this w(3) c(1,2)] show ?thesis .
  qed
  with w(1) show ?thesis by (auto simp: e_shard_def Let_def)
qed

lemma put_wrote:
  assumes ok: "e_ok e" and lt: "last_ts e key < t" "t \<le> e_LastTS e" and ne: "key \<noteq> []"
    and len: "length val \<le> MaxInlineSize" and room: "room e K" "key \<in> K" and fits: "wal_fits (put_entry key val t)"
  shows "\<exists>e'. e_PutWithTS um_ok None True key val t e = (None, e') \<and> wrote key t (Some val) e e'"
proof -
  obtain w where w: "wal_Write None True (put_entry key val t) (sh_wal (e_shard e key)) = (None, w)"
    and wr: "\<And>f g. \<forall>m. \<not> mem_has (NewMVCCKey key t) m \<longrightarrow>
        f m = mem_insert (NewMVCCKey key t) (stored_version (Some val)) m \<Longrightarrow>
      (let i = e_shardIndex e key in
       wrote key t (Some val) e (e_updateCache key t (upd_shard i (sh_memSize_update g) (upd_shard i (sh_mem_update f)
         (upd_shard i (sh_wal_update (\<lambda>_. w)) e)))))"
    using logged_write [OF ok lt ne _ room fits, of "Some val"] by blast
  let ?f = "\<lambda>m. snd (mem_put (NewMVCCKey key t) (Some (TypeInline # val)) m)"
  have "\<not> e_closed e" using ok by (simp add: e_ok_def)
  moreover have "\<forall>m. \<not> mem_has (NewMVCCKey key t) m \<longrightarrow> ?f m = mem_insert (NewMVCCKey key t) (stored_version (Some val)) m"
    by (simp add: mem_put_def stored_version_def)
  ultimately show ?thesis
    using w wr [of ?f "\<lambda>n. n + int (length key + length val)"] len
    by (simp add: e_PutWithTS_def Let_def e_shard_def e_shardIndex_def upd_shard_def not_less)
qed

lemma delete_wrote:
  assumes ok: "e_ok e" and lt: "last_ts e key < t" "t \<le> e_LastTS e" and ne: "key \<noteq> []"
    and adm: "\<forall>s. lookup_levels (NewMVCCKey key s) (e_levels e) = Inr None"
    and room: "room e K" "key \<in> K" and fits: "wal_fits (delete_entry key t)"
  shows "\<exists>e'. e_DeleteWithTS None True key t e = (None, e') \<and> wrote key t None e e'"
proof -
  obtain w where w: "wal_Write None True (delete_entry key t) (sh_wal (e_shard e key)) = (None, w)"
    and wr: "\<And>f g. \<forall>m. \<not> mem_has (NewMVCCKey key t) m \<longrightarrow>
        f m = mem_insert (NewMVCCKey key t) (stored_version None) m \<Longrightarrow>
      (let i = e_shardIndex e key in
       wrote key t None e (e_updateCache key t (upd_shard i (sh_memSize_update g) (upd_shard i (sh_mem_update f)
         (upd_shard i (sh_wal_update (\<lambda>_. w)) e)))))"
    using logged_write [OF ok lt ne _ room fits, of None] adm by blast
  let ?f = "\<lambda>m. snd (mem_delete_ts (NewMVCCKey key t) m)"
  have "\<not> e_closed e" using ok by (simp add: e_ok_def)
  moreover have "\<forall>m. \<not> mem_has (NewMVCCKey key t) m \<longrightarrow> ?f m = mem_insert (NewMVCCKey key t) (stored_version None) m"
    by (simp add: mem_delete_ts_def stored_version_def)
  ultimately show ?thesis
    using w wr [of ?f "\<lambda>n. n - int (length key)"]
    by (simp add: e_DeleteWithTS_def Let_def e_shard_def e_shardIndex_def upd_shard_def)
qed

section \<open>A new data directory\<close>

lemma recover_empty: "recoverFromWAL vs ix i (OpenWAL [] gc sync) m = (Inr 0, m)"
proof -
  have "wal_disk (OpenWAL [] gc sync) = wal_encs [] @ []"
    by (simp add: wal_disk_def OpenWAL_def newGroupCommitWriter_def)
  from recoverFromWAL_run [OF _ this decode_Nil] show ?thesis by (simp add: max_ts_def log_mem_ops_def)
qed

lemma new_manifest: "\<exists>mf. NewManifest dec legacy [] = Inr mf \<and> mf_LastTS mf = 0 \<and> (\<forall>lvl < length (mf_GetLevels mf). mf_GetLevels mf ! lvl = [])"
  by (simp add: NewManifest_def mf_recover_def mf_reset_def first_file_num_def mf_LastTS_def mf_GetLevels_def)

lemma new_vlog: "0 < ext \<Longrightarrow> \<exists>v. OpenVLog ext True True [] = Inr v"
  by (auto simp: OpenVLog_def ensureFileCapacity_def Let_def)

lemma new_shard:
  assumes "0 < ext"
  shows "\<exists>s. NewShard ext True dec legacy mm bd dir i [] (OpenWAL [] gc sync) [] = Inr s \<and>
    sh_id s = i \<and> sh_mem s = [] \<and> sh_frozen s = None"
  using new_vlog [OF assms] new_manifest [of dec legacy]
  by (auto simp: NewShard_def rebuildLevels_def Let_def recover_empty)

lemma open_all:
  assumes "\<And>i. \<exists>s. new i = Inr s \<and> P i s"
  shows "\<exists>ss. open_shards new is = Inr ss \<and> length ss = length is \<and> (\<forall>j < length is. P (is ! j) (ss ! j))"
proof (induction "is")
  case (Cons i "is")
  then obtain ss where ss: "open_shards new is = Inr ss" "length ss = length is" "\<forall>j < length is. P (is ! j) (ss ! j)"
    by blast
  obtain s where "new i = Inr s" "P i s" using assms by blast
  with ss show ?case by (auto simp: less_Suc_eq_0_disj)
qed simp

lemma recover_all_empty:
  assumes "\<forall>s \<in> set ss. sh_wal s = OpenWAL [] gc sync"
  shows "recover_shards vs ix ss t = Inr (ss, t)"
  using assms by (induction ss) (auto simp: recover_empty)

text \<open>An engine on an empty directory.\<close>

definition fresh :: "nat \<Rightarrow> bool \<Rightarrow> bool \<Rightarrow> lsm \<Rightarrow> bool" where
  "fresh n gc sync e \<longleftrightarrow> length (e_shards e) = n \<and> e_closed e = False \<and> e_LastTS e = 1 \<and> e_cache e = new_commit_cache \<and>
     (\<forall>s \<in> set (e_shards e). sh_mem s = [] \<and> sh_frozen s = None \<and> sh_wal s = OpenWAL [] gc sync) \<and>
     concat (e_levels e) = [] \<and> e_unified e = OpenUnifiedMmap []"

lemma new_engine:
  assumes "0 < ext"
  shows "\<exists>e. NewLSMEngine ext dec legacy mm bd n gc sync dir [] [] [] (\<lambda>_. []) (\<lambda>_. []) (\<lambda>_. []) = Inr e \<and>
    fresh n gc sync e"
proof -
  obtain mf where mf: "NewManifest dec legacy [] = Inr mf" "mf_LastTS mf = 0"
    "\<forall>lvl < length (mf_GetLevels mf). mf_GetLevels mf ! lvl = []"
    using new_manifest by blast
  obtain v where v: "OpenVLog ext True True [] = Inr v" using new_vlog [OF assms] by blast
  let ?new = "\<lambda>i. NewShard ext True dec legacy mm bd dir i [] (OpenWAL [] gc sync) []"
  obtain ss where ss: "open_shards ?new [0..<n] = Inr ss" "length ss = n"
    "\<forall>j < n. sh_mem (ss ! j) = [] \<and> sh_frozen (ss ! j) = None"
    using open_all [of ?new "\<lambda>i s. sh_id s = i \<and> sh_mem s = [] \<and> sh_frozen s = None" "[0..<n]"] new_shard [OF assms]
    by auto
  let ?ss = "map (\<lambda>s. s\<lparr>sh_wal := OpenWAL [] gc sync\<rparr>) ss"
  let ?inv = "map (\<lambda>s. s\<lparr>sh_mem := invalidate_table (sh_mem s), sh_frozen := map_option invalidate_table (sh_frozen s)\<rparr>) ?ss"
  have shards: "\<forall>s \<in> set ?inv. sh_mem s = [] \<and> sh_frozen s = None \<and> sh_wal s = OpenWAL [] gc sync"
  proof
    fix s assume "s \<in> set ?inv"
    then obtain j where "j < n" "s = (ss ! j)\<lparr>sh_wal := OpenWAL [] gc sync,
        sh_mem := invalidate_table (sh_mem (ss ! j)), sh_frozen := map_option invalidate_table (sh_frozen (ss ! j))\<rparr>"
      using ss(2) by (auto simp: in_set_conv_nth)
    then show "sh_mem s = [] \<and> sh_frozen s = None \<and> sh_wal s = OpenWAL [] gc sync"
      using ss(3) by (simp add: invalidate_table_def mem_live_def)
  qed
  then have rec: "recover_shards vs ix ?inv t = Inr (?inv, t)" for vs ix t
    by (intro recover_all_empty) blast
  have lv: "concat (map (\<lambda>lvl. if lvl < length (mf_GetLevels mf) then open_infos mm bd dir (mf_GetLevels mf ! lvl) else []) [0..<10]) = []"
    using mf(3) by auto
  define lvs where "lvs = map (\<lambda>lvl. if lvl < length (mf_GetLevels mf) then open_infos mm bd dir (mf_GetLevels mf ! lvl) else []) [0..<10]"
  let ?e = "\<lparr>e_shards = ?inv, e_vlog = v, e_unified = OpenUnifiedMmap [], e_manifest = mf, e_levels = lvs, e_LastTS = 1,
    e_snapshots = newSnapshotRegistry, e_closed = False, e_cache = new_commit_cache, e_flushCh = False, e_compactCh = False\<rparr>"
  have "NewLSMEngine ext dec legacy mm bd n gc sync dir [] [] [] (\<lambda>_. []) (\<lambda>_. []) (\<lambda>_. []) = Inr ?e"
    unfolding NewLSMEngine_def lvs_def by (simp add: mf v Let_def ss(1) e_InvalidateVLogPointers_def rec del: map_map)
  moreover have "fresh n gc sync ?e" using shards lv ss(2) unfolding fresh_def lvs_def by simp
  ultimately show ?thesis by blast
qed

lemma no_tables: "concat ls = [] \<Longrightarrow> lookup_levels k ls = Inr None \<and> latest_tables key (concat ls) = None"
  unfolding lookup_levels_def by (simp only: lookup_tables.simps latest_tables.simps)

lemma get_memtables_empty: "\<forall>m \<in> set ms. m = [] \<Longrightarrow> get_memtables k t ms = None"
  by (induction ms) (simp_all add: mem_get_def mem_version_def mem_visible_def mem_chain_def)

lemma fresh_reads:
  assumes "fresh n gc sync e"
  shows "e_GetWithTS k t e = Inr None" "e_GetLatestInfo k e = Inr (None, 0, False)" "last_ts e k = 0"
    "lookup_levels mk (e_levels e) = Inr None" "cached e = Map.empty"
proof -
  have s: "\<forall>s \<in> set (e_shards e). sh_mem s = [] \<and> sh_frozen s = None" using assms by (auto simp: fresh_def)
  then have g: "get_memtables k t (map sh_mem (e_shards e)) = None"
    by (intro get_memtables_empty) simp
  show lv: "lookup_levels mk (e_levels e) = Inr None" for mk using assms no_tables by (simp add: fresh_def)
  show "e_GetWithTS k t e = Inr None" using assms by (simp add: e_GetWithTS_def g lv fresh_def)
  have "\<forall>m \<in> set (mt_list e). mem_chain k m = []" using s by (auto simp: mt_list_def mem_chain_def)
  then show l: "e_GetLatestInfo k e = Inr (None, 0, False)"
    using assms no_tables [of "e_levels e"] by (simp add: e_GetLatestInfo_def latest_absent fresh_def)
  show c: "cached e = Map.empty"
    using assms by (simp add: cached_def fresh_def cc_list_def new_commit_cache_def)
  show "last_ts e k = 0" by (simp add: last_ts_def c l)
qed

lemma fresh_ok:
  assumes "fresh n gc sync e" "0 < n" "n < 2 ^ 64"
  shows "e_ok e" "finite K \<Longrightarrow> card K \<le> maxLastCommitCacheEntries \<Longrightarrow> room e K"
proof -
  have s: "\<forall>s \<in> set (e_shards e). sh_mem s = [] \<and> sh_frozen s = None \<and> wal_inv (sh_wal s)"
    using assms by (auto simp: fresh_def wal_inv_Open)
  then have "\<forall>i < length (e_shards e). sh_mem (e_shards e ! i) = [] \<and> sh_frozen (e_shards e ! i) = None" by simp
  then have "routed e" by (simp add: routed_def)
  moreover have "sized e" using assms by (auto simp: fresh_def sized_def)
  moreover have "cc_inv (e_cache e)" using assms cc_inv_new by (simp add: fresh_def)
  ultimately show "e_ok e"
    using s assms(1) fresh_reads [OF assms(1)] by (simp add: e_ok_def logs_ok_def) (simp add: fresh_def, blast)
  show "room e K" if "finite K" "card K \<le> maxLastCommitCacheEntries"
    using that assms(1) fresh_reads(5) [OF assms(1)] by (simp add: room_def fresh_def cc_list_def new_commit_cache_def)
qed

text \<open>
  C19. Opening an empty data directory with at least one and fewer than \<^verbatim>\<open>2^64\<close> shards succeeds,
  with every choice of the log's options; the engine satisfies the invariant \<open>e_ok\<close> of the
  engine's operations (open, every key routed to its shard, logs and memtables well formed, cache
  and clock at least as new as every version), and every snapshot of every key reads as absent.
\<close>

theorem new_engine_is_empty:
  assumes "0 < ext" "0 < n" "n < 2 ^ 64"
  shows "\<exists>e. NewLSMEngine ext dec legacy mm bd n gc sync dir [] [] [] (\<lambda>_. []) (\<lambda>_. []) (\<lambda>_. []) = Inr e \<and>
    e_ok e \<and> e_LastTS e = 1 \<and> (\<forall>k t. e_GetWithTS k t e = Inr None) \<and>
    (\<forall>k. e_GetLatestInfo k e = Inr (None, 0, False))"
proof -
  obtain e where e: "NewLSMEngine ext dec legacy mm bd n gc sync dir [] [] [] (\<lambda>_. []) (\<lambda>_. []) (\<lambda>_. []) = Inr e"
    "fresh n gc sync e"
    using new_engine [OF assms(1)] by blast
  have "e_LastTS e = 1" using e(2) by (simp add: fresh_def)
  with e(1) fresh_ok(1) [OF e(2) assms(2,3)] fresh_reads(1,2) [OF e(2)] show ?thesis by blast
qed

theorem new_engine_is_empty_witness:
  "\<forall>bd. \<exists>e. NewLSMEngine 4096 (\<lambda>_. None) (\<lambda>_. []) True bd 4 True True (\<lambda>_. None) [] [] [] (\<lambda>_. []) (\<lambda>_. []) (\<lambda>_. []) =
      Inr e \<and> e_ok e"
proof
  fix bd
  have "0 < (4096 :: nat)" "0 < (4 :: nat)" "(4 :: nat) < 2 ^ 64" by simp_all
  from new_engine_is_empty [OF this, of "\<lambda>_. None" "\<lambda>_. []" True bd True True "\<lambda>_. None"]
  show "\<exists>e. NewLSMEngine 4096 (\<lambda>_. None) (\<lambda>_. []) True bd 4 True True (\<lambda>_. None) [] [] [] (\<lambda>_. []) (\<lambda>_. []) (\<lambda>_. []) =
      Inr e \<and> e_ok e"
    by (elim exE conjE) (intro exI conjI)
qed

section \<open>Transactions\<close>

text \<open>The writes of a client in a transaction, and the read it should see.\<close>

datatype tx_write = TPut bytes bytes | TDelete bytes

fun tx_do :: "tx_write \<Rightarrow> transaction \<Rightarrow> transaction" where
  "tx_do (TPut k v) tx = snd (tx_Put k (Some v) tx :: lsm_error txn_error option \<times> transaction)"
| "tx_do (TDelete k) tx = snd (tx_Delete k tx :: lsm_error txn_error option \<times> transaction)"

fun own_write :: "tx_write list \<Rightarrow> bytes \<Rightarrow> bytes option option" where
  "own_write [] k = None"
| "own_write (TPut k' v # ws) k = (case own_write ws k of Some r \<Rightarrow> Some r | None \<Rightarrow> if k = k' then Some (Some v) else None)"
| "own_write (TDelete k' # ws) k = (case own_write ws k of Some r \<Rightarrow> Some r | None \<Rightarrow> if k = k' then Some None else None)"

lemma tx_run_writes:
  "\<not> tx_closed tx \<Longrightarrow> \<not> tx_closed (fold tx_do ws tx) \<and> tx_startTS (fold tx_do ws tx) = tx_startTS tx \<and>
   tx_writes (fold tx_do ws tx) k = (case own_write ws k of
       None \<Rightarrow> tx_writes tx k
     | Some (Some v) \<Rightarrow> Some \<lparr>po_Type = txn_OpPut, po_Key = k, po_Value = Some v\<rparr>
     | Some None \<Rightarrow> Some \<lparr>po_Type = txn_OpDelete, po_Key = k, po_Value = None\<rparr>)"
proof (induction ws arbitrary: tx)
  case (Cons w ws)
  have "\<not> tx_closed (tx_do w tx)" using Cons.prems by (cases w) (simp_all add: tx_Put_def tx_Delete_def)
  from Cons.IH [OF this] Cons.prems show ?case
    by (cases w) (auto simp: tx_Put_def tx_Delete_def split: option.split)
qed simp

text \<open>
  C20. Reads in a transaction. Begin a transaction at a snapshot, put and delete any keys in
  it, and read: the value is the transaction's own last write of the key (a deleted key is
  absent) and otherwise exactly what the engine's snapshot holds, and beginning leaves
  all snapshots of the engine as they were.
\<close>

theorem transaction_reads_own_writes:
  assumes "e_ok e" "Begin (lsm_ops ord) ts e = (tx, e')"
  shows "tx_Get (lsm_ops ord) k (fold tx_do ws tx) e' =
      (case own_write ws k of Some r \<Rightarrow> Inr r | None \<Rightarrow> Inr (e_view e k ts)) \<and>
    e_ok e' \<and> e_GetWithTS k s e' = e_GetWithTS k s e"
proof -
  have b: "tx = \<lparr>tx_startTS = ts, tx_writes = Map.empty, tx_closed = False\<rparr>" "e_ok e'" "e_view e' = e_view e"
    using lsm_txn.Begin_eq [OF assms(1), of ord ts] assms(2) by auto
  have g: "eng_GetWithTS (lsm_ops ord) k t e' = Inr (e_view e' k t)" "eng_GetWithTS (lsm_ops ord) k t e = Inr (e_view e k t)" for t
    using lsm_txn.get [OF b(2)] lsm_txn.get [OF assms(1)] by auto
  then have "e_GetWithTS k s e' = e_GetWithTS k s e" unfolding lsm_ops_def using b(3) by simp
  moreover have "tx_Get (lsm_ops ord) k (fold tx_do ws tx) e' =
      (case own_write ws k of Some r \<Rightarrow> Inr r | None \<Rightarrow> Inr (e_view e k ts))"
  proof -
    let ?tx = "fold tx_do ws tx"
    have o: "\<not> tx_closed tx" "tx_startTS tx = ts" "tx_writes tx k = None" by (simp_all add: b(1))
    have "\<not> tx_closed ?tx" "tx_startTS ?tx = ts" using tx_run_writes [OF o(1), of ws k] o(2) by simp_all
    moreover have "tx_writes ?tx k = (case own_write ws k of None \<Rightarrow> None
       | Some (Some v) \<Rightarrow> Some \<lparr>po_Type = txn_OpPut, po_Key = k, po_Value = Some v\<rparr>
       | Some None \<Rightarrow> Some \<lparr>po_Type = txn_OpDelete, po_Key = k, po_Value = None\<rparr>)"
      using tx_run_writes [OF o(1), of ws k, unfolded o(3)] by blast
    ultimately show ?thesis by (auto simp: tx_Get_def g b(3) split: option.split)
  qed
  ultimately show ?thesis using b(2) by blast
qed

lemma fresh_engine: "\<exists>e. fresh 4 True True e"
  using new_engine [of 1 "\<lambda>_. None" "\<lambda>_. []" True _ 4 True True "\<lambda>_. None"] by auto

theorem transaction_reads_own_writes_witness:
  "\<exists>e tx e'. Begin (lsm_ops (\<lambda>xs. xs)) 1 e = (tx, e') \<and>
     tx_Get (lsm_ops (\<lambda>xs. xs)) [7] (fold tx_do [TPut [7] [1], TDelete [8]] tx) e' = Inr (Some [1]) \<and>
     tx_Get (lsm_ops (\<lambda>xs. xs)) [8] (fold tx_do [TPut [7] [1], TDelete [8]] tx) e' = Inr None"
proof -
  obtain e where e: "fresh 4 True True e" using fresh_engine by blast
  obtain tx e' where b: "Begin (lsm_ops (\<lambda>xs. xs)) 1 e = (tx, e')" by (cases "Begin (lsm_ops (\<lambda>xs. xs)) 1 e")
  have ok: "e_ok e" by (rule fresh_ok(1) [OF e]) simp_all
  show ?thesis
    using b transaction_reads_own_writes [OF ok b, of "[7]" "[TPut [7] [1], TDelete [8]]"]
      transaction_reads_own_writes [OF ok b, of "[8]" "[TPut [7] [1], TDelete [8]]"]
    by (intro exI [of _ e] exI [of _ tx] exI [of _ e']) simp
qed

text \<open>What the commits of well-formed transactions have in common.\<close>

definition tx_ready :: "lsm \<Rightarrow> transaction \<Rightarrow> bytes list \<Rightarrow> bytes list \<Rightarrow> bool" where
  "tx_ready e tx ks ks' \<longleftrightarrow> \<not> tx_closed tx \<and> tx_wf tx ks \<and> tx_wf tx ks' \<and> tx_writes tx \<noteq> Map.empty \<and>
     e_admits e (writes_of tx ks')"

definition commit_ready :: "lsm \<Rightarrow> transaction \<Rightarrow> bytes list \<Rightarrow> bytes list \<Rightarrow> bool" where
  "commit_ready e tx ks ks' \<longleftrightarrow> tx_ready e tx ks ks' \<and> tx_startTS tx \<le> e_LastTS e \<and> e_LastTS e \<noteq> - 1"

definition conflicting :: "lsm \<Rightarrow> transaction \<Rightarrow> bool" where
  "conflicting e tx \<longleftrightarrow> (\<exists>k \<in> dom (tx_writes tx). e_changed e k (tx_startTS tx))"

lemma get_view: "e_ok e \<Longrightarrow> e_GetWithTS k t e = Inr (e_view e k t)"
  using lsm_txn.get [of e "\<lambda>xs. xs"] by (simp add: lsm_ops_def)

lemma engine_commit_conflict:
  assumes "e_ok e" "tx_ready e tx ks ks'" "conflicting e tx"
  shows "\<exists>e'. tx_Commit (lsm_ops ord) ks ks' tx e = (Some TxnConflict, tx\<lparr>tx_closed := True\<rparr>, e') \<and>
    e_ok e' \<and> e_LastTS e' = e_LastTS e \<and> e_view e' = e_view e \<and> e_changed e' = e_changed e"
proof -
  obtain k where k: "k \<in> dom (tx_writes tx)" "e_changed e k (tx_startTS tx)"
    using assms(3) by (auto simp: conflicting_def)
  have r: "\<not> tx_closed tx" "tx_wf tx ks" "tx_wf tx ks'" "e_admits e (writes_of tx ks')"
    using assms(2) by (simp_all add: tx_ready_def)
  show ?thesis by (rule lsm_txn.commit_conflict [OF assms(1) r k])
qed

lemma engine_commit_ok:
  assumes "e_ok e" "commit_ready e tx ks ks'" "\<not> conflicting e tx"
  shows "\<exists>t e'. tx_Commit (lsm_ops ord) ks ks' tx e = (None, tx\<lparr>tx_closed := True\<rparr>, e') \<and>
    e_ok e' \<and> e_LastTS e < t \<and> e_LastTS e' = t \<and>
    (\<forall>k s. e_changed e' k s \<longleftrightarrow> e_changed e k s \<or> k \<in> dom (tx_writes tx) \<and> s < t) \<and>
    (\<forall>k s. e_view e' k s =
       (case tx_writes tx k of Some op \<Rightarrow> if t \<le> s then po_Value op else e_view e k s | None \<Rightarrow> e_view e k s)) \<and>
    keeps_admitted e_admits (writes_of tx ks') e e'"
proof -
  have r: "\<not> tx_closed tx" "tx_wf tx ks" "tx_wf tx ks'" "tx_writes tx \<noteq> Map.empty" "tx_startTS tx \<le> e_LastTS e"
    "e_LastTS e \<noteq> - 1" and adm: "e_admits e (writes_of tx ks')"
    using assms(2) by (simp_all add: commit_ready_def tx_ready_def)
  show ?thesis
    by (rule lsm_txn.commit_ok [OF assms(1) r _ adm]) (use assms(3) in \<open>auto simp: conflicting_def\<close>)
qed

text \<open>The outcome of a commit: it either conflicts or succeeds, and never changes an older snapshot.\<close>

lemma commit_outcome:
  assumes "e_ok e" "commit_ready e tx ks ks'"
  shows "\<exists>r e'. tx_Commit (lsm_ops ord) ks ks' tx e = (r, tx\<lparr>tx_closed := True\<rparr>, e') \<and> e_ok e' \<and>
    r = (if conflicting e tx then Some TxnConflict else None) \<and>
    (\<forall>k s. s \<le> e_LastTS e \<longrightarrow> e_view e' k s = e_view e k s)"
proof (cases "conflicting e tx")
  case True
  have "tx_ready e tx ks ks'" using assms(2) by (simp add: commit_ready_def)
  from engine_commit_conflict [OF assms(1) this True, of ord] True show ?thesis by auto
next
  case False
  from engine_commit_ok [OF assms False, of ord] obtain t e' where
    c: "tx_Commit (lsm_ops ord) ks ks' tx e = (None, tx\<lparr>tx_closed := True\<rparr>, e')" "e_ok e'" "e_LastTS e < t"
    "\<forall>k s. e_view e' k s =
       (case tx_writes tx k of Some op \<Rightarrow> if t \<le> s then po_Value op else e_view e k s | None \<Rightarrow> e_view e k s)"
    by blast
  have "e_view e' k s = e_view e k s" if "s \<le> e_LastTS e" for k s
  proof -
    have "\<not> t \<le> s" using that c(3) by auto
    then show ?thesis using c(4) by (simp split: option.split)
  qed
  with c(1,2) False show ?thesis by auto
qed

text \<open>
  C21. Snapshot isolation. While a transaction is open, any other transaction may commit:
  its commit either succeeds or reports a conflict, and whatever the first transaction
  reads afterwards, of any key, is what it would have read before.
\<close>

theorem snapshot_reads_are_stable:
  assumes "e_ok e" "\<not> tx_closed tx" "tx_startTS tx \<le> e_LastTS e" "commit_ready e other ks ks'"
  shows "\<exists>r other' e'. tx_Commit (lsm_ops ord) ks ks' other e = (r, other', e') \<and>
    (r = None \<or> r = Some TxnConflict) \<and> tx_Get (lsm_ops ord) k tx e' = tx_Get (lsm_ops ord) k tx e"
proof -
  obtain r e' where c: "tx_Commit (lsm_ops ord) ks ks' other e = (r, other\<lparr>tx_closed := True\<rparr>, e')" "e_ok e'"
    "r = (if conflicting e other then Some TxnConflict else None)"
    "\<forall>k s. s \<le> e_LastTS e \<longrightarrow> e_view e' k s = e_view e k s"
    using commit_outcome [OF assms(1,4), of ord] by (elim exE conjE) (rule that)
  have eq: "eng_GetWithTS (lsm_ops ord) k (tx_startTS tx) e' = eng_GetWithTS (lsm_ops ord) k (tx_startTS tx) e"
    using c(4) assms(3) by (simp add: lsm_txn.get [OF c(2)] lsm_txn.get [OF assms(1)])
  have "tx_Get (lsm_ops ord) k tx e' = tx_Get (lsm_ops ord) k tx e" unfolding tx_Get_def eq ..
  with c(1,3) show ?thesis by auto
qed

text \<open>A transaction that writes one key, ready to commit on a fresh engine.\<close>

definition tx_example :: "bytes \<Rightarrow> bytes \<Rightarrow> transaction" where
  "tx_example key val = \<lparr>tx_startTS = 1, tx_writes = [key \<mapsto> \<lparr>po_Type = txn_OpPut, po_Key = key, po_Value = Some val\<rparr>],
     tx_closed = False\<rparr>"

lemma example_ready:
  assumes "fresh 4 True True e" "key \<noteq> []" "length key < 100" "length val < 10"
  shows "commit_ready e (tx_example key val) [key] [key]"
proof -
  let ?tx = "tx_example key val"
  have wf: "tx_wf ?tx [key]"
    using assms by (simp add: tx_wf_def tx_example_def pending_fits_def slice_of_def)
  have w: "writes_of ?tx [key] = \<lparr>wb_ops = [\<lparr>bo_Type = txn_OpPut, bo_Key = key, bo_Value = Some val\<rparr>]\<rparr>"
    by (simp add: writes_of_def batch_of_def tx_example_def)
  have "room e {key}" using fresh_ok(2) [OF assms(1)] by (simp add: maxLastCommitCacheEntries_def)
  moreover have "wal_fits (batch_entry d 0)" if "EncodeBatch (writes_of ?tx [key]) = Inr d" for d
  proof -
    have "d = put_be16 1 @ op_enc \<lparr>bo_Type = txn_OpPut, bo_Key = key, bo_Value = Some val\<rparr>"
      using that EncodeBatch_eq [OF writes_of_fits [OF wf]] by (simp add: w)
    then have "length d \<le> 1000" using assms by (simp add: op_enc_def slice_of_def txn_OpPut_def txn_OpDelete_def)
    then show ?thesis by (simp add: wal_fits_def batch_entry_def wal_size_def groupCommitBufSize_eq)
  qed
  moreover have "op_admitted e \<lparr>bo_Type = txn_OpPut, bo_Key = key, bo_Value = Some val\<rparr>"
    using assms by (simp add: op_admitted_def ValuePointerSize_def)
  ultimately have "e_admits e (writes_of ?tx [key])" by (simp add: e_admits_def w)
  moreover have "e_LastTS e = 1" using assms(1) by (simp add: fresh_def)
  ultimately show ?thesis using wf by (simp add: commit_ready_def tx_ready_def) (simp add: tx_example_def)
qed

lemma example_free:
  assumes "fresh n gc sync e"
  shows "\<not> conflicting e tx"
  using fresh_reads(3) [OF assms] by (simp add: conflicting_def e_changed_def)

theorem snapshot_reads_are_stable_witness:
  "\<exists>e r tx' e'. tx_Commit (lsm_ops (\<lambda>xs. xs)) [[7]] [[7]] (tx_example [7] [1]) e = (r, tx', e') \<and>
     tx_Get (lsm_ops (\<lambda>xs. xs)) [7] (tx_example [8] [1]) e' = tx_Get (lsm_ops (\<lambda>xs. xs)) [7] (tx_example [8] [1]) e"
proof -
  obtain e where e: "fresh 4 True True e" using fresh_engine by blast
  have ok: "e_ok e" by (rule fresh_ok(1) [OF e]) simp_all
  have tx: "\<not> tx_closed (tx_example [8] [1])" "tx_startTS (tx_example [8] [1]) \<le> e_LastTS e"
    using e by (simp_all add: tx_example_def fresh_def)
  have ready: "commit_ready e (tx_example [7] [1]) [[7]] [[7]]" by (rule example_ready [OF e]) simp_all
  from snapshot_reads_are_stable [OF ok tx ready, of "\<lambda>xs. xs" "[7]"] show ?thesis
    by (elim exE conjE) (intro exI conjI)
qed

text \<open>
  C22. Atomic commit. The commit of a transaction whose keys have no version after its
  snapshot succeeds at a timestamp newer than every timestamp the engine has handed out. It is
  all or nothing and durable in order: snapshots before that timestamp see none of the writes,
  snapshots from it on see all of them (a deleted key is absent), no other key changes
  at any snapshot, and a transaction that started earlier and writes one of the keys conflicts.
\<close>

theorem commit_is_atomic:
  assumes "e_ok e" "commit_ready e tx ks ks'" "\<forall>k \<in> dom (tx_writes tx). \<not> e_changed e k (tx_startTS tx)"
  shows "\<exists>t e'. tx_Commit (lsm_ops ord) ks ks' tx e = (None, tx\<lparr>tx_closed := True\<rparr>, e') \<and>
    e_ok e' \<and> e_LastTS e < t \<and> e_LastTS e' = t \<and>
    (\<forall>k s. e_GetWithTS k s e' =
       (case tx_writes tx k of
          Some op \<Rightarrow> if t \<le> s then Inr (po_Value op) else e_GetWithTS k s e
        | None \<Rightarrow> e_GetWithTS k s e)) \<and>
    (\<forall>tx2. tx_startTS tx2 < t \<and> dom (tx_writes tx2) \<inter> dom (tx_writes tx) \<noteq> {} \<longrightarrow> conflicting e' tx2)"
proof -
  have "\<not> conflicting e tx" using assms(3) by (simp add: conflicting_def)
  from engine_commit_ok [OF assms(1,2) this, of ord] obtain t e' where
    c: "tx_Commit (lsm_ops ord) ks ks' tx e = (None, tx\<lparr>tx_closed := True\<rparr>, e')" "e_ok e'" "e_LastTS e < t" "e_LastTS e' = t"
    "\<forall>k s. e_changed e' k s \<longleftrightarrow> e_changed e k s \<or> k \<in> dom (tx_writes tx) \<and> s < t"
    "\<forall>k s. e_view e' k s =
       (case tx_writes tx k of Some op \<Rightarrow> if t \<le> s then po_Value op else e_view e k s | None \<Rightarrow> e_view e k s)"
    by blast
  have "e_GetWithTS k s e' = (case tx_writes tx k of
          Some op \<Rightarrow> if t \<le> s then Inr (po_Value op) else e_GetWithTS k s e
        | None \<Rightarrow> e_GetWithTS k s e)" for k s
    by (simp add: get_view [OF c(2)] get_view [OF assms(1)] c(6) split: option.split)
  moreover have "conflicting e' tx2" if "tx_startTS tx2 < t" "dom (tx_writes tx2) \<inter> dom (tx_writes tx) \<noteq> {}" for tx2
    using that c(5) unfolding conflicting_def by blast
  ultimately show ?thesis using c(1-4) by blast
qed

theorem commit_is_atomic_witness:
  "\<exists>e t e'. tx_Commit (lsm_ops (\<lambda>xs. xs)) [[7]] [[7]] (tx_example [7] [1]) e =
       (None, (tx_example [7] [1])\<lparr>tx_closed := True\<rparr>, e') \<and>
     e_GetWithTS [7] t e' = Inr (Some [1])"
proof -
  obtain e where e: "fresh 4 True True e" using fresh_engine by blast
  have ok: "e_ok e" by (rule fresh_ok(1) [OF e]) simp_all
  have ready: "commit_ready e (tx_example [7] [1]) [[7]] [[7]]" by (rule example_ready [OF e]) simp_all
  have free: "\<forall>k \<in> dom (tx_writes (tx_example [7] [1])). \<not> e_changed e k (tx_startTS (tx_example [7] [1]))"
    using fresh_reads(3) [OF e] by (simp add: e_changed_def)
  obtain t e' where c: "tx_Commit (lsm_ops (\<lambda>xs. xs)) [[7]] [[7]] (tx_example [7] [1]) e =
       (None, (tx_example [7] [1])\<lparr>tx_closed := True\<rparr>, e')"
    "\<forall>k s. e_GetWithTS k s e' = (case tx_writes (tx_example [7] [1]) k of
          Some op \<Rightarrow> if t \<le> s then Inr (po_Value op) else e_GetWithTS k s e
        | None \<Rightarrow> e_GetWithTS k s e)"
    using commit_is_atomic [OF ok ready free, of "\<lambda>xs. xs"] by blast
  from c(2) [rule_format, of "[7]" t] have "e_GetWithTS [7] t e' = Inr (Some [1])" by (simp add: tx_example_def)
  with c(1) show ?thesis by blast
qed

text \<open>
  C23. First committer wins. If two open transactions both write a key and both started at
  snapshots the engine has handed out, then after the first has committed the second fails
  with a conflict, is closed, and changes neither the data at any snapshot nor the clock.
\<close>

theorem first_committer_wins:
  assumes "e_ok e" "commit_ready e tx1 ks1 ks1'" "tx_Commit (lsm_ops ord) ks1 ks1' tx1 e = (None, tx1', e1)"
    and "tx_startTS tx2 \<le> e_LastTS e" "tx_ready e1 tx2 ks2 ks2'"
    and "k \<in> dom (tx_writes tx1)" "k \<in> dom (tx_writes tx2)"
  shows "\<exists>e2. tx_Commit (lsm_ops ord) ks2 ks2' tx2 e1 = (Some TxnConflict, tx2\<lparr>tx_closed := True\<rparr>, e2) \<and>
    e_LastTS e2 = e_LastTS e1 \<and> (\<forall>k s. e_GetWithTS k s e2 = e_GetWithTS k s e1)"
proof -
  have "\<not> conflicting e tx1" using commit_outcome [OF assms(1,2), of ord] assms(3) by auto
  from engine_commit_ok [OF assms(1,2) this, of ord] assms(3) obtain t where
    c: "e_ok e1" "e_LastTS e < t" "\<forall>k s. e_changed e1 k s \<longleftrightarrow> e_changed e k s \<or> k \<in> dom (tx_writes tx1) \<and> s < t"
    by auto
  have "e_changed e1 k (tx_startTS tx2)" using c(2,3) assms(4,6) by (auto intro: order.strict_trans1)
  then have "conflicting e1 tx2" using assms(7) by (auto simp: conflicting_def)
  from engine_commit_conflict [OF c(1) assms(5) this, of ord] obtain e2 where
    e2: "tx_Commit (lsm_ops ord) ks2 ks2' tx2 e1 = (Some TxnConflict, tx2\<lparr>tx_closed := True\<rparr>, e2)" "e_ok e2"
    "e_LastTS e2 = e_LastTS e1" "e_view e2 = e_view e1"
    by (elim exE conjE) (rule that)
  have "e_GetWithTS k s e2 = e_GetWithTS k s e1" for k s
    by (simp add: get_view [OF e2(2)] get_view [OF c(1)] e2(4))
  with e2(1,3) show ?thesis by blast
qed

theorem first_committer_wins_witness:
  "\<exists>e tx1 e1 tx2 e2. tx_Commit (lsm_ops (\<lambda>xs. xs)) [[7]] [[7]] (tx_example [7] [1]) e = (None, tx1, e1) \<and>
     tx_Commit (lsm_ops (\<lambda>xs. xs)) [[7]] [[7]] (tx_example [7] [2]) e1 = (Some TxnConflict, tx2, e2)"
proof -
  obtain e where e: "fresh 4 True True e" using fresh_engine by blast
  have ok: "e_ok e" by (rule fresh_ok(1) [OF e]) simp_all
  have ready: "commit_ready e (tx_example [7] [1]) [[7]] [[7]]" "commit_ready e (tx_example [7] [2]) [[7]] [[7]]"
    by (rule example_ready [OF e]; simp)+
  have ts: "e_LastTS e = 1" using e by (simp add: fresh_def)
  obtain t e1 where c: "tx_Commit (lsm_ops (\<lambda>xs. xs)) [[7]] [[7]] (tx_example [7] [1]) e =
       (None, (tx_example [7] [1])\<lparr>tx_closed := True\<rparr>, e1)" "e_LastTS e < t" "e_LastTS e1 = t"
    "keeps_admitted e_admits (writes_of (tx_example [7] [1]) [[7]]) e e1"
    using engine_commit_ok [OF ok ready(1) example_free [OF e], of "\<lambda>xs. xs"] by blast
  have w: "batch_keys (writes_of (tx_example [7] v) [[7]]) = {[7]}" for v
    by (simp add: writes_of_def batch_of_def tx_example_def)
  have r2: "tx_ready e1 (tx_example [7] [2]) [[7]] [[7]]"
    using ready(2) c(4) w by (simp add: keeps_admitted_def commit_ready_def tx_ready_def)
  have s2: "tx_startTS (tx_example [7] [2]) \<le> e_LastTS e" using ts by (simp add: tx_example_def)
  have k: "[7] \<in> dom (tx_writes (tx_example [7] v))" for v by (simp add: tx_example_def)
  from first_committer_wins [OF ok ready(1) c(1) s2 r2 k k] obtain e2 where
    "tx_Commit (lsm_ops (\<lambda>xs. xs)) [[7]] [[7]] (tx_example [7] [2]) e1 =
       (Some TxnConflict, (tx_example [7] [2])\<lparr>tx_closed := True\<rparr>, e2)"
    by blast
  with c(1) show ?thesis by blast
qed

text \<open>
  C24. A finished transaction is inert. Once \<open>Commit\<close> has returned, with whatever result, or
  \<open>Rollback\<close> has, the transaction is closed: every further read, put, delete, commit and rollback
  returns the error for a closed transaction and changes neither the transaction nor the
  engine; a rollback itself changes no snapshot of the engine.
\<close>

theorem finished_transaction_is_inert:
  assumes "tx_Commit (lsm_ops ord) ks ks' tx e = (r, tx', e') \<or> tx_Rollback (lsm_ops ord) tx e = (r, tx', e')"
  shows "tx_IsClosed tx' \<and> tx_Get (lsm_ops ord) k tx' e'' = Inl TxnClosed \<and>
    tx_Put k v tx' = (Some (TxnClosed :: lsm_error txn_error), tx') \<and>
    tx_Delete k tx' = (Some (TxnClosed :: lsm_error txn_error), tx') \<and>
    tx_Commit (lsm_ops ord) js js' tx' e'' = (Some TxnClosed, tx', e'') \<and>
    tx_Rollback (lsm_ops ord) tx' e'' = (Some TxnClosed, tx', e'') \<and>
    (tx_Rollback (lsm_ops ord) tx e = (r, tx', e') \<longrightarrow> e_GetWithTS k s e' = e_GetWithTS k s e)"
proof -
  have "tx_closed tx'"
    using assms by (auto simp: tx_Commit_def tx_Rollback_def Let_def split: if_splits option.splits prod.splits)
  moreover have "e_GetWithTS k s e' = e_GetWithTS k s e" if "tx_Rollback (lsm_ops ord) tx e = (r, tx', e')"
  proof -
    have "e_data e' = e_data e"
      using that by (auto simp: tx_Rollback_def lsm_ops_def e_UnregisterSnapshot_def e_data_def e_mts_def split: if_splits)
    then show ?thesis by (rule get_data)
  qed
  ultimately show ?thesis
    by (simp add: tx_IsClosed_def tx_Get_def tx_Put_def tx_Delete_def tx_Commit_def tx_Rollback_def)
qed

theorem finished_transaction_is_inert_witness:
  "\<exists>e e' tx'. tx_Rollback (lsm_ops (\<lambda>xs. xs)) (tx_example [7] [1]) e = (None, tx', e') \<and>
     tx_Get (lsm_ops (\<lambda>xs. xs)) [7] tx' e' = Inl TxnClosed \<and> e_GetWithTS [7] 5 e' = e_GetWithTS [7] 5 e"
proof -
  obtain e where "fresh 4 True True e" using fresh_engine by blast
  obtain r tx' e' where rb: "tx_Rollback (lsm_ops (\<lambda>xs. xs)) (tx_example [7] [1]) e = (r, tx', e')"
    by (metis prod_cases3)
  then have "r = None" by (auto simp: tx_Rollback_def tx_example_def)
  with rb finished_transaction_is_inert [OF disjI2 [OF rb], where k = "[7]" and e'' = e' and s = 5 and v = None and js = "[]" and js' = "[]"] show ?thesis by blast
qed

end
