(* ===== verification/LSMHistory.thy ===== *)
theory LSMHistory
  imports TxnIsolation
begin

text \<open>
  The engine of \<^verbatim>\<open>internal/engine/lsm.go\<close> against its specification: a history of committed
  versions, read at a snapshot. The relation \<open>tracks\<close> ties the memtables, the buffer of large
  values and the clock of an engine without tables to a history; puts of values of any size,
  deletes and batches extend both.
\<close>

section \<open>The specification\<close>

text \<open>A version: key, commit timestamp, value (\<open>None\<close> when deleted); the newest is last.\<close>

type_synonym history = "(bytes \<times> u64 \<times> bytes option) list"

definition h_read :: "history \<Rightarrow> bytes \<Rightarrow> u64 \<Rightarrow> bytes option" where
  "h_read h k s = (case rev (filter (\<lambda>(k', t, v). k' = k \<and> t \<le> s) h) of [] \<Rightarrow> None | (_, _, v) # _ \<Rightarrow> v)"

lemma h_read_snoc: "h_read (h @ [(k', t, v)]) k s = (if k' = k \<and> t \<le> s then v else h_read h k s)"
  by (simp add: h_read_def)

lemma h_read_newer:
  assumes "\<forall>(k, t, v) \<in> set h'. s < t"
  shows "h_read (h @ h') k s = h_read h k s"
proof -
  have "filter (\<lambda>(k', t, v). k' = k \<and> t \<le> s) h' = []" using assms by (auto simp: filter_empty_conv)
  then show ?thesis by (simp add: h_read_def)
qed

text \<open>Timestamps grow along the versions of a key.\<close>

definition h_sorted :: "history \<Rightarrow> bool" where
  "h_sorted h \<longleftrightarrow> sorted_wrt (\<lambda>(k, t, _) (k', t', _). k = k' \<longrightarrow> t < t') h"

lemma h_sorted_snoc: "h_sorted (h @ [(k, t, v)]) \<longleftrightarrow> h_sorted h \<and> (\<forall>(k', t', v') \<in> set h. k' = k \<longrightarrow> t' < t)"
  by (auto simp: h_sorted_def sorted_wrt_append)

lemma h_read_cases:
  assumes "h_sorted h"
  shows "(\<exists>t v. (k, t, v) \<in> set h \<and> t \<le> s \<and> h_read h k s = v \<and> (\<forall>t' v'. (k, t', v') \<in> set h \<longrightarrow> t' \<le> s \<longrightarrow> t' \<le> t)) \<or>
    h_read h k s = None \<and> (\<forall>t v. (k, t, v) \<in> set h \<longrightarrow> s < t)"
  using assms
proof (induction h rule: rev_induct)
  case (snoc x h)
  obtain k' t v where x: "x = (k', t, v)" by (cases x)
  have s: "h_sorted h" "\<forall>(k1, t1, v1) \<in> set h. k1 = k' \<longrightarrow> t1 < t" using snoc.prems by (simp_all add: x h_sorted_snoc)
  show ?case
  proof (cases "k' = k \<and> t \<le> s")
    case True
    have "\<forall>t' v'. (k, t', v') \<in> set (h @ [x]) \<longrightarrow> t' \<le> s \<longrightarrow> t' \<le> t" using s(2) True by (auto simp: x less_imp_le)
    then show ?thesis using True by (intro disjI1 exI [of _ t] exI [of _ v]) (simp add: x h_read_snoc)
  next
    case False
    then have r: "h_read (h @ [x]) k s = h_read h k s" by (auto simp: x h_read_snoc)
    have "(k, t', v') \<in> set (h @ [x]) \<and> t' \<le> s \<longleftrightarrow> (k, t', v') \<in> set h \<and> t' \<le> s" for t' v'
      using False by (auto simp: x)
    then show ?thesis using snoc.IH [OF s(1)] unfolding r not_le [symmetric] by blast
  qed
qed (simp add: h_read_def)

section \<open>What the engine stores\<close>

text \<open>
  A stored version holds a value inline or by a pointer to an entry \<open>E\<close> of the buffer of large
  values.
\<close>

definition stored_as :: "(nat \<times> wal_entry) set \<Rightarrow> version \<Rightarrow> bytes option \<Rightarrow> bool" where
  "stored_as E ver v \<longleftrightarrow> ver = stored_version v \<or>
     (\<exists>off e. (off, e) \<in> E \<and> um_fits e \<and> we_Value e \<noteq> [] \<and> v = Some (we_Value e) \<and>
        ver = Live (Some (TypeValuePointer # EncodeValuePointer
          \<lparr>vp_Offset = word_of_nat (off + 16 + length (we_Key e)), vp_Size = word_of_nat (length (we_Value e))\<rparr>)))"

lemma stored_as_mono: "stored_as E ver v \<Longrightarrow> E \<subseteq> E' \<Longrightarrow> stored_as E' ver v"
  unfolding stored_as_def by blast

lemma pointer_tag: "IsValidValueTag TypeValuePointer" "TypeValuePointer \<noteq> TypeTombstone"
  by (simp_all add: IsValidValueTag_def value_tags)

lemma pointer_facts:
  assumes "um_rep (e_unified e) E" "length (um_data (e_unified e)) < 2 ^ 63" "(off, ent) \<in> E" "um_fits ent" "we_Value ent \<noteq> []"
  defines "vp \<equiv> \<lparr>vp_Offset = word_of_nat (off + 16 + length (we_Key ent)), vp_Size = word_of_nat (length (we_Value ent))\<rparr>"
  shows "\<not> unusable_pointer vp" "sint (vp_Offset vp) < int (um_Size (e_unified e))"
    "um_ReadValue (vp_Offset vp) (vp_Size vp) (e_unified e) = Inr (we_Value ent)"
proof -
  let ?o = "off + 16 + length (we_Key ent)" and ?v = "length (we_Value ent)"
  have r: "off + wal_size ent \<le> um_head (e_unified e)" "off + wal_size ent \<le> length (um_data (e_unified e))"
    using assms(1,3) by (auto simp: um_rep_def)
  have "?o < 2 ^ 63" using r(2) assms(2) by (simp add: wal_size_def)
  then have so: "sint (word_of_nat ?o :: u64) = int ?o"
    by (simp add: signed_of_nat signed_take_bit_int_eq_self del: of_nat_add)
  have sv: "sint (word_of_nat ?v :: u32) = int ?v"
    using assms(4) by (simp add: um_fits_def signed_of_nat signed_take_bit_int_eq_self)
  show "\<not> unusable_pointer vp"
    using assms(5) so sv by (simp add: vp_def unusable_pointer_def del: of_nat_add)
  show "sint (vp_Offset vp) < int (um_Size (e_unified e))"
    using so r(1) by (simp add: vp_def um_Size_def wal_size_def del: of_nat_add)
  show "um_ReadValue (vp_Offset vp) (vp_Size vp) (e_unified e) = Inr (we_Value ent)"
    using um_read_value [OF assms(1,3,4,2)] by (simp add: vp_def)
qed

lemma decode_pointer:
  assumes "um_rep (e_unified e) E" "length (um_data (e_unified e)) < 2 ^ 63" "(off, ent) \<in> E" "um_fits ent" "we_Value ent \<noteq> []"
  shows "decodeStoredValue e (Some (TypeValuePointer # EncodeValuePointer
      \<lparr>vp_Offset = word_of_nat (off + 16 + length (we_Key ent)), vp_Size = word_of_nat (length (we_Value ent))\<rparr>)) b =
    Inr (Some (we_Value ent))"
  by (simp only: decodeStoredValue_def option.case list.case Let_def pointer_tag if_True if_False prod.case
      Decode_Encode_vp pointer_facts [OF assms] sum.case simp_thms)

lemma decode_stored_as:
  assumes "um_rep (e_unified e) E" "length (um_data (e_unified e)) < 2 ^ 63" "stored_as E ver v"
  shows "case v of None \<Rightarrow> ver = Tomb | Some x \<Rightarrow> \<exists>y. ver = Live y \<and> decodeStoredValue e y False = Inr (Some x)"
  using assms(3) unfolding stored_as_def
proof (elim disjE exE conjE)
  assume "ver = stored_version v"
  then show ?thesis by (auto simp: stored_version_def decode_stored split: option.split)
next
  fix off ent
  assume "(off, ent) \<in> E" "um_fits ent" "we_Value ent \<noteq> []" "v = Some (we_Value ent)"
    "ver = Live (Some (TypeValuePointer # EncodeValuePointer
          \<lparr>vp_Offset = word_of_nat (off + 16 + length (we_Key ent)), vp_Size = word_of_nat (length (we_Value ent))\<rparr>))"
  with decode_pointer [OF assms(1,2)] show ?thesis by auto
qed

section \<open>The refinement relation\<close>

definition unfrozen :: "lsm \<Rightarrow> bool" where
  "unfrozen e \<longleftrightarrow> (\<forall>s \<in> set (e_shards e). sh_frozen s = None)"

definition tracks :: "(nat \<times> wal_entry) set \<Rightarrow> history \<Rightarrow> lsm \<Rightarrow> bool" where
  "tracks E h e \<longleftrightarrow> \<not> e_closed e \<and> sized e \<and> routed e \<and> logs_ok e \<and> concat (e_levels e) = [] \<and>
     um_rep (e_unified e) E \<and> h_sorted h \<and>
     (\<forall>(k, t, v) \<in> set h. k \<noteq> [] \<and> t \<le> e_LastTS e \<and>
        (\<exists>ver. (NewMVCCKey k t, ver) \<in> set (sh_mem (e_shard e k)) \<and> stored_as E ver v)) \<and>
     (\<forall>s \<in> set (e_shards e). \<forall>(k, ver) \<in> set (sh_mem s). \<exists>v. (mk_key k, CommitTS k, v) \<in> set h) \<and>
     unfrozen e"

lemma New_Commit: "NewMVCCKey (mk_key k) (CommitTS k) = k"
  by (cases k) (simp add: NewMVCCKey_def CommitTS_def InvertTimestamp_def RevertTimestamp_def)

text \<open>Reads of an engine that tracks a history are reads of the history.\<close>

lemma tracks_read:
  assumes tr: "tracks E h e" and small: "length (um_data (e_unified e)) < 2 ^ 63"
  shows "e_GetWithTS k s e = Inr (h_read h k s)"
proof -
  have b: "\<not> e_closed e" "sized e" "routed e" "concat (e_levels e) = []" "um_rep (e_unified e) E" "h_sorted h"
    using tr by (simp_all add: tracks_def)
  let ?m = "sh_mem (e_shard e k)"
  have in_e: "e_shard e k \<in> set (e_shards e)" using index_less [OF b(2)] by (simp add: e_shard_def)
  have inv: "mem_inv ?m" using tr in_e by (auto simp: tracks_def logs_ok_def)
  have fwd: "\<And>t v. (k, t, v) \<in> set h \<Longrightarrow> k \<noteq> [] \<and> (\<exists>ver. (NewMVCCKey k t, ver) \<in> set ?m \<and> stored_as E ver v)"
    using tr by (fastforce simp: tracks_def)
  have "\<forall>s \<in> set (e_shards e). \<forall>(k, ver) \<in> set (sh_mem s). \<exists>v. (mk_key k, CommitTS k, v) \<in> set h"
    using tr unfolding tracks_def by blast
  then have bwd: "\<And>k' ver. (k', ver) \<in> set ?m \<Longrightarrow> \<exists>v. (mk_key k', CommitTS k', v) \<in> set h" using in_e by fast
  have lv: "lookup_levels mk (e_levels e) = Inr None" for mk using no_tables [OF b(4)] by blast
  have read: "e_GetWithTS k s e = (case mem_get k s ?m of (v, True) \<Rightarrow> decodeStoredValue e v False | (_, False) \<Rightarrow> Inr None)"
    using b(1) by (simp add: e_GetWithTS_def get_routed [OF b(3,2)] lv split: prod.split bool.split)
  from h_read_cases [OF b(6), of k s]
  consider (found) t v where "(k, t, v) \<in> set h" "t \<le> s" "h_read h k s = v"
      "\<forall>t' v'. (k, t', v') \<in> set h \<longrightarrow> t' \<le> s \<longrightarrow> t' \<le> t"
    | (none) "h_read h k s = None" "\<forall>t v. (k, t, v) \<in> set h \<longrightarrow> s < t"
    by metis
  then show ?thesis
  proof cases
    case found
    note h = found(1-3) and max = found(4)
    obtain ver where ver: "(NewMVCCKey k t, ver) \<in> set ?m" "stored_as E ver v" and ne: "k \<noteq> []" using fwd [OF h(1)] by blast
    have "mem_version k s ?m = Some ver"
    proof (rule mem_visible_last [OF inv ver(1)])
      fix k' v' assume "(k', v') \<in> set ?m" "mk_key k' = k" "CommitTS k' \<le> s"
      then show "CommitTS k' \<le> CommitTS (NewMVCCKey k t)" using bwd max by (metis CommitTS_New)
    qed (use h(2) in simp_all)
    then show ?thesis
      using decode_stored_as [OF b(5) small ver(2)] ne h(3) by (auto simp: read mem_get_def split: option.splits)
  next
    case none
    note h = none
    have "\<not> (mk_key k' = k \<and> CommitTS k' \<le> s)" if "(k', ver) \<in> set ?m" for k' ver
      using bwd [OF that] h(2) by (metis not_le)
    then have "mem_version k s ?m = None" unfolding mem_version_None by blast
    then show ?thesis by (simp add: read mem_get_def h(1))
  qed
qed

text \<open>A new version.\<close>

lemma tracks_add:
  assumes tr: "tracks E h e" and a: "adds key t ver e e1" and st: "stored_as E1 ver v" and sub: "E \<subseteq> E1"
    and um: "um_rep (e_unified e1) E1" and ts: "t \<le> e_LastTS e1" "e_LastTS e \<le> e_LastTS e1" and ne: "key \<noteq> []"
    and new: "\<forall>(k', t', v') \<in> set h. k' = key \<longrightarrow> t' < t"
    and logs: "\<forall>s \<in> set (e_shards e1). wal_inv (sh_wal s)"
  shows "tracks E1 (h @ [(key, t, v)]) e1"
proof -
  have b: "\<not> e_closed e" "sized e" "routed e" "concat (e_levels e) = []" "h_sorted h" "logs_ok e"
    using tr by (simp_all add: tracks_def)
  let ?k = "NewMVCCKey key t"
  have fwd: "\<forall>(k, t, v) \<in> set h. k \<noteq> [] \<and> t \<le> e_LastTS e \<and>
        (\<exists>ver. (NewMVCCKey k t, ver) \<in> set (sh_mem (e_shard e k)) \<and> stored_as E ver v)"
    and bwd: "\<forall>s \<in> set (e_shards e). \<forall>(k, ver) \<in> set (sh_mem s). \<exists>v. (mk_key k, CommitTS k, v) \<in> set h"
    using tr unfolding tracks_def by blast+
  have sh: "set (sh_mem (e_shard e1 k)) = (if e_shardIndex e k = e_shardIndex e key then {(?k, ver)} else {}) \<union> set (sh_mem (e_shard e k))" for k
    using adds_shard(2) [OF a b(2), of k] by simp
  have "(k, t', v') \<in> set (h @ [(key, t, v)]) \<Longrightarrow> k \<noteq> [] \<and> t' \<le> e_LastTS e1 \<and>
        (\<exists>ver. (NewMVCCKey k t', ver) \<in> set (sh_mem (e_shard e1 k)) \<and> stored_as E1 ver v')" for k t' v'
    using fwd ts ne st sh stored_as_mono [OF _ sub] by (fastforce intro: order.trans)
  then have fwd1: "\<forall>(k, t', v') \<in> set (h @ [(key, t, v)]). k \<noteq> [] \<and> t' \<le> e_LastTS e1 \<and>
        (\<exists>ver. (NewMVCCKey k t', ver) \<in> set (sh_mem (e_shard e1 k)) \<and> stored_as E1 ver v')" by blast
  have s1: "mem_inv (sh_mem s) \<and> (\<forall>(k, ver) \<in> set (sh_mem s). \<exists>v'. (mk_key k, CommitTS k, v') \<in> set (h @ [(key, t, v)]))"
    if s: "s \<in> set (e_shards e1)" for s
  proof -
    have "length (e_shards e1) = length (e_shards e)" using a by (simp add: adds_def)
    then obtain j where j: "j < length (e_shards e)" "s = e_shards e1 ! j" using s by (auto simp: in_set_conv_nth)
    have m: "sh_mem s = (if j = e_shardIndex e key then mem_insert ?k ver (sh_mem (e_shards e ! j)) else sh_mem (e_shards e ! j))"
      using a j by (simp add: adds_def)
    have old: "mem_inv (sh_mem (e_shards e ! j))" using b(6) j(1) by (simp add: logs_ok_def)
    have bw: "(k, ver) \<in> set (sh_mem (e_shards e ! j)) \<Longrightarrow> \<exists>v. (mk_key k, CommitTS k, v) \<in> set h" for k ver
      using bwd nth_mem [OF j(1)] by fast
    have "\<not> mem_has ?k (sh_mem (e_shards e ! j))"
    proof
      assume "mem_has ?k (sh_mem (e_shards e ! j))"
      then obtain x where "(?k, x) \<in> set (sh_mem (e_shards e ! j))" by (auto simp: mem_has_def)
      from bw [OF this] new show False by fastforce
    qed
    then have "mem_inv (sh_mem s)" using old unfolding m by (metis mem_inv_insert)
    moreover have "\<exists>v'. (mk_key k, CommitTS k, v') \<in> set (h @ [(key, t, v)])" if "(k, x) \<in> set (sh_mem s)" for k x
      using that bw [of k x] by (auto simp: m split: if_splits)
    ultimately show ?thesis by blast
  qed
  have "logs_ok e1" using s1 logs by (simp add: logs_ok_def)
  moreover have "sized e1" "routed e1" by (rule adds_sized [OF a b(2)], rule adds_routed [OF a b(3)])
  moreover have "\<not> e_closed e1" "concat (e_levels e1) = []" using a b(1,4) by (simp_all add: adds_def)
  moreover have "h_sorted (h @ [(key, t, v)])" using b(5) new by (simp add: h_sorted_snoc)
  moreover have "unfrozen e1"
  proof -
    have fr: "\<forall>s \<in> set (e_shards e). sh_frozen s = None" using tr by (simp add: tracks_def unfrozen_def)
    have "sh_frozen (e_shards e1 ! i) = None" if i: "i < length (e_shards e)" for i
      using a i bspec [OF fr nth_mem [OF i]] by (simp add: adds_def)
    then show ?thesis using a by (auto simp: unfrozen_def adds_def in_set_conv_nth)
  qed
  ultimately show ?thesis using um fwd1 s1 unfolding tracks_def by blast
qed

text \<open>A step that changes none of this.\<close>

lemma tracks_same:
  assumes tr: "tracks E h e" and d: "e_data e' = e_data e" and ts: "e_LastTS e \<le> e_LastTS e'" and logs: "logs_ok e'"
  shows "tracks E h e'"
proof -
  note sh = same_shards [OF d]
  have f: "e_closed e' = e_closed e" "e_levels e' = e_levels e" "e_unified e' = e_unified e" using d by (simp_all add: e_data_def)
  have sz: "sized e" using tr by (simp add: tracks_def)
  have ix: "e_shardIndex e' = e_shardIndex e" by (rule sh(2))
  have "sized e'" using sz sh(1) by (simp add: sized_def flip: length_greater_0_conv)
  moreover have "routed e'" using tr sh(1,3) unfolding tracks_def routed_def ix by simp
  moreover have m: "sh_mem (e_shard e' k) = sh_mem (e_shard e k)" for k
    using sh(3) index_less [OF sz] by (simp add: e_shard_def ix)
  moreover have "\<forall>s \<in> set (e_shards e'). \<forall>(k, ver) \<in> set (sh_mem s). \<exists>v. (mk_key k, CommitTS k, v) \<in> set h"
  proof
    fix s assume "s \<in> set (e_shards e')"
    then obtain i where i: "i < length (e_shards e)" "s = e_shards e' ! i" using sh(1) by (auto simp: in_set_conv_nth)
    then have m: "sh_mem s = sh_mem (e_shards e ! i)" using sh(3) by simp
    have cl: "\<forall>s \<in> set (e_shards e). \<forall>(k, ver) \<in> set (sh_mem s). \<exists>v. (mk_key k, CommitTS k, v) \<in> set h"
      using tr unfolding tracks_def by blast
    show "\<forall>(k, ver) \<in> set (sh_mem s). \<exists>v. (mk_key k, CommitTS k, v) \<in> set h"
      unfolding m by (rule bspec [OF cl nth_mem [OF i(1)]])
  qed
  moreover have "\<forall>(k, t, v) \<in> set h. t \<le> e_LastTS e'" using tr ts unfolding tracks_def by (auto intro: order.trans)
  moreover have "unfrozen e'"
  proof -
    have fr: "\<forall>s \<in> set (e_shards e). sh_frozen s = None" using tr by (simp add: tracks_def unfrozen_def)
    have "sh_frozen (e_shards e' ! i) = None" if i: "i < length (e_shards e)" for i
      using sh(3) [OF i] bspec [OF fr nth_mem [OF i]] by simp
    then show ?thesis using sh(1) by (auto simp: unfrozen_def in_set_conv_nth)
  qed
  ultimately show ?thesis using tr logs unfolding tracks_def f by (auto simp: split_beta)
qed

lemma tracks_fresh:
  assumes "fresh n gc sync e" "0 < n" "n < 2 ^ 64"
  shows "tracks {} [] e"
proof -
  have ok: "e_ok e" by (rule fresh_ok(1) [OF assms])
  have "\<forall>s \<in> set (e_shards e). sh_mem s = []" using assms(1) by (simp add: fresh_def)
  moreover have "um_rep (e_unified e) {}" using assms(1) by (simp add: um_rep_def fresh_def OpenUnifiedMmap_def)
  moreover have "concat (e_levels e) = []" "unfrozen e" using assms(1) by (simp_all add: fresh_def unfrozen_def)
  ultimately show ?thesis using ok by (simp add: tracks_def e_ok_def h_sorted_def)
qed

section \<open>Puts, deletes and batches extend the history\<close>

definition newest :: "history \<Rightarrow> u64 \<Rightarrow> bool" where
  "newest h t \<longleftrightarrow> (\<forall>(k', t', v') \<in> set h. t' < t)"

lemma newestD: "newest h t \<Longrightarrow> \<forall>(k', t', v') \<in> set h. k' = key \<longrightarrow> t' < t"
  by (auto simp: newest_def)

lemma tracks_newest: "tracks E h e \<Longrightarrow> e_LastTS e < t \<Longrightarrow> newest h t"
  unfolding tracks_def newest_def by (fastforce intro: order.strict_trans1)

lemma tracks_absent:
  assumes tr: "tracks E h e" and new: "\<forall>(k', t', v') \<in> set h. k' = key \<longrightarrow> t' < t"
  shows "\<not> mem_has (NewMVCCKey key t) (sh_mem (e_shard e key))"
proof
  assume "mem_has (NewMVCCKey key t) (sh_mem (e_shard e key))"
  then obtain x where x: "(NewMVCCKey key t, x) \<in> set (sh_mem (e_shard e key))" by (auto simp: mem_has_def)
  have "e_shard e key \<in> set (e_shards e)" using index_less tr by (simp add: e_shard_def tracks_def)
  moreover have "\<forall>s \<in> set (e_shards e). \<forall>(k, ver) \<in> set (sh_mem s). \<exists>v. (mk_key k, CommitTS k, v) \<in> set h"
    using tr unfolding tracks_def by blast
  ultimately obtain v where "(key, t, v) \<in> set h" using x by fastforce
  with new show False by fastforce
qed

lemma tracks_log:
  assumes tr: "tracks E h e" and fits: "wal_fits entry" and i: "i < length (e_shards e)"
  shows "\<exists>w. wal_Write None True entry (sh_wal (e_shards e ! i)) = (None, w) \<and> tracks E h (upd_shard i (sh_wal_update (\<lambda>_. w)) e)"
proof -
  have logs: "logs_ok e" using tr by (simp add: tracks_def)
  then have "wal_inv (sh_wal (e_shards e ! i))" using i by (simp add: logs_ok_def)
  from wal_Write_ok [OF this fits] obtain w where
    w: "wal_Write None True entry (sh_wal (e_shards e ! i)) = (None, w)" "wal_inv w" by blast
  let ?e = "upd_shard i (sh_wal_update (\<lambda>_. w)) e"
  have d: "e_data ?e = e_data e"
    by (auto simp: e_data_def e_mts_def upd_shard_def i nth_list_update intro!: nth_equalityI)
  have "logs_ok ?e" using logs w(2) i by (auto simp: logs_ok_def upd_shard_def dest!: set_update_subset_insert [THEN subsetD])
  then have "tracks E h ?e" by (intro tracks_same [OF tr d]) (simp_all add: upd_shard_def)
  with w(1) show ?thesis by blast
qed

text \<open>The memtable part of a write of one version.\<close>

lemma tracks_insert:
  assumes tr: "tracks E h e" and st: "stored_as E1 ver v" and sub: "E \<subseteq> E1" and um: "um_rep (e_unified e) E1"
    and ts: "t \<le> e_LastTS e" and ne: "key \<noteq> []" and new: "\<forall>(k', t', v') \<in> set h. k' = key \<longrightarrow> t' < t"
    and f: "\<And>m. \<not> mem_has (NewMVCCKey key t) m \<Longrightarrow> f m = mem_insert (NewMVCCKey key t) ver m"
  shows "tracks E1 (h @ [(key, t, v)]) (upd_shard (e_shardIndex e key) (sh_mem_update f) e)"
proof -
  let ?i = "e_shardIndex e key"
  let ?e = "upd_shard ?i (sh_mem_update f) e"
  have i: "?i < length (e_shards e)" using index_less tr by (simp add: tracks_def)
  have "f (sh_mem (e_shards e ! ?i)) = mem_insert (NewMVCCKey key t) ver (sh_mem (e_shards e ! ?i))"
    using f [OF tracks_absent [OF tr new]] by (simp add: e_shard_def)
  then have a: "adds key t ver e ?e" using i by (simp add: adds_def upd_shard_def nth_list_update)
  have "\<forall>s \<in> set (e_shards e). wal_inv (sh_wal s)" using tr by (simp add: tracks_def logs_ok_def)
  then have "\<forall>s \<in> set (e_shards ?e). wal_inv (sh_wal s)"
    using i by (auto simp: upd_shard_def dest!: set_update_subset_insert [THEN subsetD])
  then show ?thesis using um ts by (intro tracks_add [OF tr a st sub _ _ _ ne new]) (simp_all add: upd_shard_def)
qed

text \<open>The counters and the cache are not tracked.\<close>

lemma tracks_memSize: "i < length (e_shards e) \<Longrightarrow> tracks E h e \<Longrightarrow> tracks E h (upd_shard i (sh_memSize_update g) e)"
proof -
  assume i: "i < length (e_shards e)" and tr: "tracks E h e"
  let ?e = "upd_shard i (sh_memSize_update g) e"
  have d: "e_data ?e = e_data e"
    by (auto simp: e_data_def e_mts_def upd_shard_def i nth_list_update intro!: nth_equalityI)
  have "logs_ok e" using tr by (simp add: tracks_def)
  then have "logs_ok ?e" using i by (auto simp: logs_ok_def upd_shard_def dest!: set_update_subset_insert [THEN subsetD])
  then show ?thesis by (intro tracks_same [OF tr d]) (simp_all add: upd_shard_def)
qed

lemma tracks_cache: "tracks E h e \<Longrightarrow> tracks E h (e_updateCache key t e)"
proof -
  assume tr: "tracks E h e"
  then have "logs_ok e" by (simp add: tracks_def)
  then show ?thesis by (intro tracks_same [OF tr]) (simp_all add: e_data_def e_mts_def e_updateCache_def logs_ok_def)
qed

lemma tracks_clock: "tracks E h e \<Longrightarrow> e_LastTS e \<le> t \<Longrightarrow> tracks E h (e\<lparr>e_LastTS := t\<rparr>)"
proof -
  assume tr: "tracks E h e" and t: "e_LastTS e \<le> t"
  then have "logs_ok e" by (simp add: tracks_def)
  then show ?thesis using t by (intro tracks_same [OF tr]) (simp_all add: e_data_def e_mts_def logs_ok_def)
qed

lemma tracks_unified: "tracks E h e \<Longrightarrow> um_rep um E \<Longrightarrow> tracks E h (e\<lparr>e_unified := um\<rparr>)"
  by (simp add: tracks_def sized_def routed_def logs_ok_def unfrozen_def e_shard_def e_shardIndex_def [abs_def])

definition put_fits :: "bytes \<Rightarrow> bytes \<Rightarrow> bool" where
  "put_fits key val \<longleftrightarrow> key \<noteq> [] \<and> length key < 2 ^ 16 \<and> length val < 2 ^ 31 \<and>
     (length val \<le> MaxInlineSize \<longrightarrow> wal_fits (put_entry key val 0))"

lemma wal_fits_put: "wal_fits (put_entry key val t) = wal_fits (put_entry key val 0)"
  by (simp add: wal_fits_def put_entry_def wal_size_def)

lemma put_tracks:
  assumes tr: "tracks E h e" and new: "newest h t" and ts: "t \<le> e_LastTS e" and fits: "put_fits key val"
  shows "\<exists>E' e'. e_PutWithTS True None True key val t e = (None, e') \<and> E \<subseteq> E' \<and> e_LastTS e' = e_LastTS e \<and>
    tracks E' (h @ [(key, t, Some val)]) e'"
proof -
  have ne: "key \<noteq> []" and nc: "\<not> e_closed e" using fits tr by (simp_all add: put_fits_def tracks_def)
  note nw = newestD [OF new]
  have ix: "e_shardIndex e key < length (e_shards e)" using index_less tr by (simp add: tracks_def)
  show ?thesis
  proof (cases "length val > MaxInlineSize")
    case False
    then have "wal_fits (put_entry key val t)" using fits by (simp add: put_fits_def wal_fits_put [of key val t])
    from tracks_log [OF tr this ix] obtain w where
      w: "wal_Write None True (put_entry key val t) (sh_wal (e_shards e ! e_shardIndex e key)) = (None, w)"
      "tracks E h (upd_shard (e_shardIndex e key) (sh_wal_update (\<lambda>_. w)) e)"
      by blast
    let ?e1 = "upd_shard (e_shardIndex e key) (sh_wal_update (\<lambda>_. w)) e"
    let ?f = "\<lambda>m. snd (mem_put (NewMVCCKey key t) (Some (TypeInline # val)) m)"
    have i1: "e_shardIndex ?e1 = e_shardIndex e" by (rule ext) (simp add: e_shardIndex_def upd_shard_def)
    have "tracks E (h @ [(key, t, Some val)]) (upd_shard (e_shardIndex ?e1 key) (sh_mem_update ?f) ?e1)"
      by (rule tracks_insert [OF w(2) _ order.refl _ _ ne nw, where ver = "stored_version (Some val)"])
        (use w(2) ts in \<open>simp_all add: stored_as_def tracks_def upd_shard_def mem_put_def stored_version_def\<close>)
    then have "tracks E (h @ [(key, t, Some val)]) (e_updateCache key t (upd_shard (e_shardIndex e key)
        (sh_memSize_update (\<lambda>n. n + int (length key + length val))) (upd_shard (e_shardIndex e key) (sh_mem_update ?f) ?e1)))"
      unfolding i1 using ix by (intro tracks_cache tracks_memSize) (simp_all add: upd_shard_def)
    then show ?thesis
      using False nc w(1)
      by (intro exI [of _ E]) (simp add: e_PutWithTS_def Let_def e_shardIndex_def upd_shard_def e_updateCache_def)
  next
    case True
    obtain res um where u: "um_WriteEntry True OpPut key val t (e_unified e) = (res, um)" by (metis surj_pair)
    have rep: "um_rep (e_unified e) E" using tr by (simp add: tracks_def)
    let ?ent = "um_entry OpPut key val t" and ?o = "um_head (e_unified e)"
    obtain off where off: "res = Inr off" "off = ?o + 16 + length key" "um_rep um (insert (?o, ?ent) E)"
      using um_write_rep [OF rep u] by (auto split: sum.splits)
    let ?E = "insert (?o, ?ent) E" and ?e1 = "e\<lparr>e_unified := um\<rparr>"
    let ?vp = "\<lparr>vp_Offset = word_of_nat off, vp_Size = word_of_nat (length val)\<rparr> :: value_pointer"
    let ?f = "\<lambda>m. snd (mem_put (NewMVCCKey key t) (Some (TypeValuePointer # EncodeValuePointer ?vp)) m)"
    have tr1: "tracks E h ?e1" by (rule tracks_unified [OF tr]) (rule um_rep_mono [OF off(3)], blast)
    have i1: "e_shardIndex ?e1 = e_shardIndex e" by (rule ext) (simp add: e_shardIndex_def)
    have st: "stored_as ?E (Live (Some (TypeValuePointer # EncodeValuePointer ?vp))) (Some val)"
      unfolding stored_as_def
      using True fits off(2) by (intro disjI2 exI [of _ ?o] exI [of _ ?ent]) (auto simp: um_entry_def um_fits_def put_fits_def)
    have "tracks ?E (h @ [(key, t, Some val)]) (upd_shard (e_shardIndex ?e1 key) (sh_mem_update ?f) ?e1)"
      by (rule tracks_insert [OF tr1 st _ _ _ ne nw]) (use off(3) ts in \<open>auto simp: mem_put_def\<close>)
    then have "tracks ?E (h @ [(key, t, Some val)]) (e_updateCache key t (upd_shard (e_shardIndex e key)
        (sh_memSize_update (\<lambda>n. n + int (length key + length val))) (upd_shard (e_shardIndex e key) (sh_mem_update ?f) ?e1)))"
      unfolding i1 using ix by (intro tracks_cache tracks_memSize) (simp_all add: upd_shard_def)
    then show ?thesis
      using True nc u off(1) ix
      by (intro exI [of _ ?E]) (auto simp: e_PutWithTS_def Let_def e_shardIndex_def upd_shard_def e_updateCache_def)
  qed
qed

lemma delete_tracks:
  assumes tr: "tracks E h e" and new: "newest h t" and ts: "t \<le> e_LastTS e" and fits: "key \<noteq> []" "wal_fits (delete_entry key 0)"
  shows "\<exists>e'. e_DeleteWithTS None True key t e = (None, e') \<and> e_LastTS e' = e_LastTS e \<and>
    tracks E (h @ [(key, t, None)]) e'"
proof -
  have nc: "\<not> e_closed e" using tr by (simp add: tracks_def)
  have ix: "e_shardIndex e key < length (e_shards e)" using index_less tr by (simp add: tracks_def)
  have "wal_fits (delete_entry key t)" using fits(2) by (simp add: wal_fits_def delete_entry_def wal_size_def)
  from tracks_log [OF tr this ix] obtain w where
    w: "wal_Write None True (delete_entry key t) (sh_wal (e_shards e ! e_shardIndex e key)) = (None, w)"
    "tracks E h (upd_shard (e_shardIndex e key) (sh_wal_update (\<lambda>_. w)) e)"
    by blast
  let ?e1 = "upd_shard (e_shardIndex e key) (sh_wal_update (\<lambda>_. w)) e"
  let ?f = "\<lambda>m. snd (mem_delete_ts (NewMVCCKey key t) m)"
  have i1: "e_shardIndex ?e1 = e_shardIndex e" by (rule ext) (simp add: e_shardIndex_def upd_shard_def)
  have "tracks E (h @ [(key, t, None)]) (upd_shard (e_shardIndex ?e1 key) (sh_mem_update ?f) ?e1)"
    by (rule tracks_insert [OF w(2) _ order.refl _ _ fits(1) newestD [OF new], where ver = "stored_version None"])
      (use w(2) ts in \<open>simp_all add: stored_as_def tracks_def upd_shard_def mem_delete_ts_def stored_version_def\<close>)
  then have "tracks E (h @ [(key, t, None)]) (e_updateCache key t (upd_shard (e_shardIndex e key)
      (sh_memSize_update (\<lambda>n. n - int (length key))) (upd_shard (e_shardIndex e key) (sh_mem_update ?f) ?e1)))"
    unfolding i1 using ix by (intro tracks_cache tracks_memSize) (simp_all add: upd_shard_def)
  then show ?thesis
    using nc w(1) by (simp add: e_DeleteWithTS_def Let_def e_shardIndex_def upd_shard_def e_updateCache_def)
qed

end
