(* ===== verification/Database.thy ===== *)
theory Database
  imports Scoria LSMHistory
begin

text \<open>
  The public interface against its specification: one versioned map per column family. Any
  sequence of puts, deletes and batches on open families reads back as the map says, for the
  newest state and for every earlier timestamp; batches over several families, and dropped
  families, do not keep what their comments promise.
\<close>

section \<open>Batches on an engine\<close>

definition op_plain :: "batch_op \<Rightarrow> bool" where
  "op_plain op \<longleftrightarrow> bo_Key op \<noteq> [] \<and> (case bo_Value op of None \<Rightarrow> True | Some v \<Rightarrow> length v \<noteq> ValuePointerSize)"

definition batch_plain :: "write_batch \<Rightarrow> bool" where
  "batch_plain b \<longleftrightarrow> batch_fits b \<and> distinct (map bo_Key (wb_ops b)) \<and> (\<forall>op \<in> set (wb_ops b). op_plain op) \<and>
     (\<forall>d. EncodeBatch b = Inr d \<longrightarrow> wal_fits (batch_entry d 0))"

definition batch_versions :: "u64 \<Rightarrow> write_batch \<Rightarrow> history" where
  "batch_versions t b = map (\<lambda>op. (bo_Key op, t, bo_Value op)) (wb_ops b)"

lemma log_batch_tracks:
  assumes "tracks E h e" "wal_fits entry" "\<forall>i \<in> set is. i < length (e_shards e)"
  shows "\<exists>e'. log_batch (\<lambda>_. (None, True)) entry is e = (None, e') \<and> tracks E h e' \<and> e_LastTS e' = e_LastTS e"
  using assms
proof (induction "is" arbitrary: e)
  case (Cons i "is")
  have "i < length (e_shards e)" using Cons.prems(3) by simp
  from tracks_log [OF Cons.prems(1,2) this] obtain w where
    w: "wal_Write None True entry (sh_wal (e_shards e ! i)) = (None, w)" "tracks E h (upd_shard i (sh_wal_update (\<lambda>_. w)) e)"
    by blast
  let ?e = "upd_shard i (sh_wal_update (\<lambda>_. w)) e"
  from Cons.IH [OF w(2) Cons.prems(2)] Cons.prems(3) obtain e' where
    "log_batch (\<lambda>_. (None, True)) entry is ?e = (None, e')" "tracks E h e'" "e_LastTS e' = e_LastTS ?e"
    by (auto simp: upd_shard_def)
  with w(1) show ?case by (auto simp: upd_shard_def)
qed simp

lemma apply_batch_tracks:
  assumes "tracks E h e" "t \<le> e_LastTS e" "\<forall>op \<in> set ops. op_fits op \<and> op_plain op"
    and "distinct (map bo_Key ops)" "\<forall>(k', t', v') \<in> set h. k' \<in> bo_Key ` set ops \<longrightarrow> t' < t"
  shows "tracks E (h @ map (\<lambda>op. (bo_Key op, t, bo_Value op)) ops) (apply_batch t (map local_of ops) e) \<and>
    e_LastTS (apply_batch t (map local_of ops) e) = e_LastTS e"
  using assms
proof (induction ops arbitrary: e h)
  case (Cons op ops)
  let ?e = "apply_op t (local_of op) e" and ?h = "h @ [(bo_Key op, t, bo_Value op)]"
  have op: "op_fits op" "op_plain op" using Cons.prems(3) by auto
  have lv: "lookup_levels mk (e_levels e) = Inr None" for mk
    using Cons.prems(1) no_tables [of "e_levels e"] by (simp only: tracks_def)
  have adm: "op_admitted e op" using op(2) lv by (auto simp: op_plain_def op_admitted_def split: option.splits)
  let ?f = "\<lambda>m. snd (if lo_IsDelete (local_of op) then mem_delete_ts (NewMVCCKey (bo_Key op) t) m
      else mem_put (NewMVCCKey (bo_Key op) t) (Some (tagStoredValue (Some (lo_Value (local_of op))))) m)"
  have u: "tracks E ?h (upd_shard (e_shardIndex e (bo_Key op)) (sh_mem_update ?f) e)"
  proof (rule tracks_insert [OF Cons.prems(1) _ order.refl _ Cons.prems(2)])
    show "stored_as E (stored_version (bo_Value op)) (bo_Value op)" by (simp add: stored_as_def)
    show "um_rep (e_unified e) E" using Cons.prems(1) by (simp add: tracks_def)
    show "bo_Key op \<noteq> []" using op(2) by (simp add: op_plain_def)
    show "\<forall>(k', t', v') \<in> set h. k' = bo_Key op \<longrightarrow> t' < t" using Cons.prems(5) by auto
    show "?f m = mem_insert (NewMVCCKey (bo_Key op) t) (stored_version (bo_Value op)) m"
      if "\<not> mem_has (NewMVCCKey (bo_Key op) t) m" for m by (rule stored_op [OF op(1) adm that])
  qed
  have k: "lo_Key (local_of op) = bo_Key op" by (simp add: local_of_def)
  have tr: "tracks E ?h ?e" unfolding apply_op_def k by (rule tracks_cache [OF u])
  have ts: "e_LastTS ?e = e_LastTS e" by (simp add: apply_op_def e_updateCache_def upd_shard_def)
  have "\<forall>(k', t', v') \<in> set ?h. k' \<in> bo_Key ` set ops \<longrightarrow> t' < t" using Cons.prems(4,5) by auto
  from Cons.IH [OF tr _ _ _ this] Cons.prems(2-4) ts show ?case
    by (simp only: list.map apply_batch_Cons) simp
qed simp

lemma add_deltas_tracks:
  assumes "tracks E h e" "\<forall>op \<in> set ops. e_shardIndex e (lo_Key op) < length (e_shards e)"
  shows "tracks E h (add_deltas ops e) \<and> e_LastTS (add_deltas ops e) = e_LastTS e"
  using assms
proof (induction ops arbitrary: e)
  case (Cons op ops)
  let ?e = "if lo_IsDelete op then e else upd_shard (e_shardIndex e (lo_Key op))
    (sh_memSize_update (\<lambda>n. n + int (length (lo_Key op) + length (lo_Value op)))) e"
  have tr: "tracks E h ?e" using Cons.prems tracks_memSize by simp
  have "\<forall>op \<in> set ops. e_shardIndex ?e (lo_Key op) < length (e_shards ?e)"
    using Cons.prems(2) by (simp add: upd_shard_def e_shardIndex_def)
  from Cons.IH [OF tr this] show ?case by (simp add: Let_def upd_shard_def)
qed simp

lemma write_tracks:
  assumes tr: "tracks E h e" and t: "t \<le> e_LastTS e" "newest h t" and b: "batch_plain b" and d: "EncodeBatch b = Inr d"
    and ord: "\<forall>xs. distinct xs \<longrightarrow> set (ord xs) = set xs"
  shows "\<exists>e'. e_WriteAtomicBatch ord (\<lambda>_. (None, True)) d t e = (None, e') \<and> tracks E (h @ batch_versions t b) e' \<and>
    e_LastTS e' = e_LastTS e"
proof -
  let ?ops = "map local_of (wb_ops b)"
  have bf: "batch_fits b" using b by (simp add: batch_plain_def)
  have dec: "decodeBatchLocal d = Inr ?ops" using decode_encoded(2) [OF bf d] by (simp add: local_of_def [abs_def])
  have nc: "\<not> e_closed e" and sz: "sized e" using tr by (simp_all add: tracks_def)
  have wf: "wal_fits (batch_entry d t)"
    using b d by (simp add: batch_plain_def wal_fits_def batch_entry_def wal_size_def)
  have "set (ord (affected_shards e ?ops)) = set (affected_shards e ?ops)" using ord by (simp add: affected_shards_def)
  then have "\<forall>i \<in> set (ord (affected_shards e ?ops)). i < length (e_shards e)"
    using index_less [OF sz] by (auto simp: affected_shards_def)
  from log_batch_tracks [OF tr wf this] obtain e1 where
    e1: "log_batch (\<lambda>_. (None, True)) (batch_entry d t) (ord (affected_shards e ?ops)) e = (None, e1)" "tracks E h e1"
    "e_LastTS e1 = e_LastTS e"
    by blast
  have pre: "\<forall>op \<in> set (wb_ops b). op_fits op \<and> op_plain op" "distinct (map bo_Key (wb_ops b))"
    using b bf by (simp_all add: batch_plain_def batch_fits_def)
  have old: "\<forall>(k', t', v') \<in> set h. k' \<in> bo_Key ` set (wb_ops b) \<longrightarrow> t' < t" using t(2) by (auto simp: newest_def)
  have "t \<le> e_LastTS e1" using t(1) e1(3) by simp
  note ap = apply_batch_tracks [OF e1(2) this pre old]
  let ?e2 = "apply_batch t ?ops e1"
  have "sized ?e2" using ap by (simp add: tracks_def)
  then have "\<forall>op \<in> set ?ops. e_shardIndex ?e2 (lo_Key op) < length (e_shards ?e2)" by (simp add: index_less)
  from add_deltas_tracks [OF ap [THEN conjunct1] this] ap e1(3) show ?thesis
    using nc e1(1) by (simp add: e_WriteAtomicBatch_def dec batch_versions_def)
qed

lemma batch_tracks:
  assumes tr: "tracks E h e" and b: "batch_plain b" and clock: "e_LastTS e \<noteq> - 1"
  shows "\<exists>e'. ApplyBatch (lsm_ops ord) b e = (Inr (if wb_Size b = 0 then 0 else e_LastTS e + 1), e') \<and>
    tracks E (h @ batch_versions (e_LastTS e + 1) b) e' \<and>
    e_LastTS e' = (if wb_Size b = 0 then e_LastTS e else e_LastTS e + 1)"
proof (cases "wb_Size b = 0")
  case True
  then show ?thesis using tr by (simp add: ApplyBatch_def batch_versions_def wb_Size_def)
next
  case False
  let ?t = "e_LastTS e + 1" and ?e = "e\<lparr>e_LastTS := e_LastTS e + 1\<rparr>"
  have lt: "e_LastTS e < ?t"
  proof -
    have "1 + e_LastTS e \<noteq> 0" using clock by (metis add.commute add_eq_0_iff)
    from unatSuc [OF this] show ?thesis by (simp add: word_less_nat_alt add.commute)
  qed
  have tr1: "tracks E h ?e" by (rule tracks_clock [OF tr]) (use lt in simp)
  have bf: "batch_fits b" using b by (simp add: batch_plain_def)
  obtain d where d: "EncodeBatch b = Inr d" using EncodeBatch_eq [OF bf] by blast
  have "?t \<le> e_LastTS ?e" by simp
  have so: "\<forall>xs. distinct xs \<longrightarrow> set (some_order ord xs) = set xs" by (simp add: some_order_def)
  from write_tracks [OF tr1 \<open>?t \<le> e_LastTS ?e\<close> tracks_newest [OF tr lt] b d so] obtain e' where
    e': "e_WriteAtomicBatch (some_order ord) (\<lambda>_. (None, True)) d ?t ?e = (None, e')" "tracks E (h @ batch_versions ?t b) e'"
    "e_LastTS e' = ?t"
    by (elim exE conjE) (simp add: that)
  then show ?thesis using False d by (simp add: ApplyBatch_def lsm_ops_def e_NextTimestamp_def Let_def)
qed

section \<open>Operations of a client\<close>

datatype db_op = DPut string bytes bytes | DDelete string bytes | DBatch string write_batch

fun db_do :: "(nat list \<Rightarrow> nat list) \<Rightarrow> db_op \<Rightarrow> registry \<Rightarrow> cf_error option \<times> registry" where
  "db_do ord (DPut cf k v) r = db_PutCF no_faults cf k v r"
| "db_do ord (DDelete cf k) r = db_DeleteCF no_faults cf k r"
| "db_do ord (DBatch cf b) r = sb_Commit (lsm_ops ord) \<lparr>sb_cfName = cf, sb_inner = b\<rparr> r"

fun db_run :: "(nat list \<Rightarrow> nat list) \<Rightarrow> db_op list \<Rightarrow> registry \<Rightarrow> cf_error option list \<times> registry" where
  "db_run ord [] r = ([], r)"
| "db_run ord (op # ops) r =
     (let (err, r) = db_do ord op r; (errs, r) = db_run ord ops r in (err # errs, r))"

fun op_cf :: "db_op \<Rightarrow> string" where
  "op_cf (DPut cf k v) = cf"
| "op_cf (DDelete cf k) = cf"
| "op_cf (DBatch cf b) = cf"

fun op_ok :: "db_op \<Rightarrow> bool" where
  "op_ok (DPut cf k v) = put_fits k v"
| "op_ok (DDelete cf k) = (k \<noteq> [] \<and> wal_fits (delete_entry k 0))"
| "op_ok (DBatch cf b) = batch_plain b"

text \<open>The versions an operation writes at a timestamp, and the clock behind it.\<close>

fun op_versions :: "u64 \<Rightarrow> db_op \<Rightarrow> history" where
  "op_versions t (DPut cf k v) = [(k, t, Some v)]"
| "op_versions t (DDelete cf k) = [(k, t, None)]"
| "op_versions t (DBatch cf b) = batch_versions t b"

fun op_clock :: "u64 \<Rightarrow> db_op \<Rightarrow> u64" where
  "op_clock t (DBatch cf b) = (if wb_Size b = 0 then t else t + 1)"
| "op_clock t _ = t + 1"

fun op_history :: "u64 \<Rightarrow> db_op list \<Rightarrow> history" where
  "op_history t [] = []"
| "op_history t (op # ops) = op_versions (t + 1) op @ op_history (op_clock t op) ops"

text \<open>The specification: a map per family.\<close>

fun spec_do :: "db_op \<Rightarrow> (bytes \<Rightarrow> bytes option) \<Rightarrow> bytes \<Rightarrow> bytes option" where
  "spec_do (DPut cf k v) m = m(k := Some v)"
| "spec_do (DDelete cf k) m = m(k := None)"
| "spec_do (DBatch cf b) m = fold (\<lambda>op m. m(bo_Key op := bo_Value op)) (wb_ops b) m"

definition db_spec :: "db_op list \<Rightarrow> string \<Rightarrow> bytes \<Rightarrow> bytes option" where
  "db_spec ops cf = fold spec_do (filter (\<lambda>op. op_cf op = cf) ops) Map.empty"

text \<open>An engine that holds the map \<open>m\<close>, with room for \<open>n\<close> more timestamps.\<close>

definition holds :: "history \<Rightarrow> (bytes \<Rightarrow> bytes option) \<Rightarrow> nat \<Rightarrow> lsm \<Rightarrow> bool" where
  "holds h m n e \<longleftrightarrow> (\<exists>E. tracks E h e) \<and> (\<forall>k s. e_LastTS e \<le> s \<longrightarrow> h_read h k s = m k) \<and> unat (e_LastTS e) + n < 2 ^ 64"

lemma next_clock:
  assumes "holds h m (Suc n) e"
  shows "e_LastTS e \<noteq> - 1" "e_LastTS e < e_LastTS e + 1" "unat (e_LastTS e + 1) = unat (e_LastTS e) + 1"
proof -
  have b: "unat (e_LastTS e) + 1 < 2 ^ 64" using assms by (simp add: holds_def)
  show u: "unat (e_LastTS e + 1) = unat (e_LastTS e) + 1" using b by (simp add: unat_word_ariths)
  then show "e_LastTS e < e_LastTS e + 1" by (simp add: word_less_nat_alt)
  then show "e_LastTS e \<noteq> - 1" by auto
qed

lemma h_read_versions:
  assumes "t \<le> s"
  shows "h_read (h @ map (\<lambda>op. (bo_Key op, t, bo_Value op)) ops) k s =
    fold (\<lambda>op m. m(bo_Key op := bo_Value op)) ops (\<lambda>k. h_read h k s) k"
proof (induction ops arbitrary: h)
  case (Cons op ops)
  have "(\<lambda>k. h_read (h @ [(bo_Key op, t, bo_Value op)]) k s) = (\<lambda>k. h_read h k s)(bo_Key op := bo_Value op)"
    using assms by (auto simp: h_read_snoc)
  from Cons.IH [of "h @ [(bo_Key op, t, bo_Value op)]", unfolded this] show ?case by (simp del: fun_upd_apply)
qed simp

text \<open>One operation on the engine of its family.\<close>

definition advances :: "history \<Rightarrow> lsm \<Rightarrow> history \<Rightarrow> bool" where
  "advances h e h' \<longleftrightarrow> (\<exists>new. h' = h @ new \<and> (\<forall>(k, t, v) \<in> set new. e_LastTS e < t))"

lemma put_holds:
  assumes "holds h m (Suc n) e" "put_fits k v"
  shows "\<exists>e'. e_PutWithTS True None True k v (e_LastTS e + 1) (e\<lparr>e_LastTS := e_LastTS e + 1\<rparr>) = (None, e') \<and>
    holds (h @ [(k, e_LastTS e + 1, Some v)]) (m(k := Some v)) n e' \<and>
    advances h e (h @ [(k, e_LastTS e + 1, Some v)]) \<and> e_LastTS e \<le> e_LastTS e' \<and> e_LastTS e' = e_LastTS e + 1"
proof -
  obtain E where tr: "tracks E h e" using assms(1) by (auto simp: holds_def)
  note c = next_clock [OF assms(1)]
  have tr1: "tracks E h (e\<lparr>e_LastTS := e_LastTS e + 1\<rparr>)" by (rule tracks_clock [OF tr]) (use c(2) in simp)
  obtain E' e' where e': "e_PutWithTS True None True k v (e_LastTS e + 1) (e\<lparr>e_LastTS := e_LastTS e + 1\<rparr>) = (None, e')"
    "tracks E' (h @ [(k, e_LastTS e + 1, Some v)]) e'" "e_LastTS e' = e_LastTS e + 1"
    using put_tracks [OF tr1 tracks_newest [OF tr c(2)] _ assms(2)] by auto
  have "h_read (h @ [(k, e_LastTS e + 1, Some v)]) k' s = (m(k := Some v)) k'" if "e_LastTS e + 1 \<le> s" for k' s
  proof -
    have "e_LastTS e \<le> s" using that c(2) by simp
    then show ?thesis using assms(1) that by (auto simp: h_read_snoc holds_def)
  qed
  then have hs: "holds (h @ [(k, e_LastTS e + 1, Some v)]) (m(k := Some v)) n e'"
    using e'(2,3) c(3) assms(1) unfolding holds_def by (intro conjI) auto
  have adv: "advances h e (h @ [(k, e_LastTS e + 1, Some v)])" using c(2) by (simp add: advances_def)
  have "e_LastTS e \<le> e_LastTS e'" using e'(3) c(2) by simp
  with e'(1,3) hs adv show ?thesis by (intro exI [of _ e'] conjI)
qed

lemma delete_holds:
  assumes "holds h m (Suc n) e" "k \<noteq> []" "wal_fits (delete_entry k 0)"
  shows "\<exists>e'. e_DeleteWithTS None True k (e_LastTS e + 1) (e\<lparr>e_LastTS := e_LastTS e + 1\<rparr>) = (None, e') \<and>
    holds (h @ [(k, e_LastTS e + 1, None)]) (m(k := None)) n e' \<and>
    advances h e (h @ [(k, e_LastTS e + 1, None)]) \<and> e_LastTS e \<le> e_LastTS e' \<and> e_LastTS e' = e_LastTS e + 1"
proof -
  obtain E where tr: "tracks E h e" using assms(1) by (auto simp: holds_def)
  note c = next_clock [OF assms(1)]
  have tr1: "tracks E h (e\<lparr>e_LastTS := e_LastTS e + 1\<rparr>)" by (rule tracks_clock [OF tr]) (use c(2) in simp)
  obtain e' where e': "e_DeleteWithTS None True k (e_LastTS e + 1) (e\<lparr>e_LastTS := e_LastTS e + 1\<rparr>) = (None, e')"
    "tracks E (h @ [(k, e_LastTS e + 1, None)]) e'" "e_LastTS e' = e_LastTS e + 1"
    using delete_tracks [OF tr1 tracks_newest [OF tr c(2)] _ assms(2,3)] by auto
  have "h_read (h @ [(k, e_LastTS e + 1, None)]) k' s = (m(k := None)) k'" if "e_LastTS e + 1 \<le> s" for k' s
  proof -
    have "e_LastTS e \<le> s" using that c(2) by simp
    then show ?thesis using assms(1) that by (auto simp: h_read_snoc holds_def)
  qed
  then have hs: "holds (h @ [(k, e_LastTS e + 1, None)]) (m(k := None)) n e'"
    using e'(2,3) c(3) assms(1) unfolding holds_def by (intro conjI) auto
  have adv: "advances h e (h @ [(k, e_LastTS e + 1, None)])" using c(2) by (simp add: advances_def)
  have "e_LastTS e \<le> e_LastTS e'" using e'(3) c(2) by simp
  with e'(1,3) hs adv show ?thesis by (intro exI [of _ e'] conjI)
qed

lemma batch_holds:
  assumes "holds h m (Suc n) e" "batch_plain b"
  shows "\<exists>ts e'. ApplyBatch (lsm_ops ord) b e = (Inr ts, e') \<and>
    holds (h @ batch_versions (e_LastTS e + 1) b) (spec_do (DBatch cf b) m) n e' \<and>
    advances h e (h @ batch_versions (e_LastTS e + 1) b) \<and> e_LastTS e \<le> e_LastTS e' \<and>
    e_LastTS e' = op_clock (e_LastTS e) (DBatch cf b)"
proof -
  obtain E where tr: "tracks E h e" using assms(1) by (auto simp: holds_def)
  note c = next_clock [OF assms(1)]
  let ?t = "e_LastTS e + 1"
  obtain e' where e': "ApplyBatch (lsm_ops ord) b e = (Inr (if wb_Size b = 0 then 0 else ?t), e')"
    "tracks E (h @ batch_versions ?t b) e'" "e_LastTS e' = (if wb_Size b = 0 then e_LastTS e else ?t)"
    using that batch_tracks [OF tr assms(2) c(1), of ord] by (elim exE conjE) iprover
  have "h_read (h @ batch_versions ?t b) k s = spec_do (DBatch cf b) m k" if "e_LastTS e' \<le> s" for k s
  proof (cases "wb_Size b = 0")
    case True
    then show ?thesis using assms(1) that e'(3) by (simp add: batch_versions_def wb_Size_def holds_def)
  next
    case False
    then have s: "?t \<le> s" "e_LastTS e \<le> s" using that e'(3) c(2) by simp_all
    then have "(\<lambda>k. h_read h k s) = m" using assms(1) by (auto simp: holds_def)
    then show ?thesis using h_read_versions [OF s(1), of h "wb_ops b" k] by (simp add: batch_versions_def)
  qed
  then have hs: "holds (h @ batch_versions ?t b) (spec_do (DBatch cf b) m) n e'"
    using e'(2,3) c(3) assms(1) unfolding holds_def by (intro conjI) auto
  have adv: "advances h e (h @ batch_versions ?t b)" using c(2) by (auto simp: advances_def batch_versions_def)
  have "e_LastTS e \<le> e_LastTS e'" using e'(3) c(2) by (auto simp: less_imp_le)
  moreover have "e_LastTS e' = op_clock (e_LastTS e) (DBatch cf b)" using e'(3) by simp
  ultimately show ?thesis
    by (intro exI [of _ "if wb_Size b = 0 then 0 else ?t"] exI [of _ e'] conjI) (assumption | rule e'(1) hs adv)+
qed

lemma do_holds:
  assumes "cf_lookup (op_cf op) r = Some e" "holds h m (Suc n) e" "op_ok op"
  shows "\<exists>e'. db_do ord op r = (None, reg_set (op_cf op) e' r) \<and>
    holds (h @ op_versions (e_LastTS e + 1) op) (spec_do op m) n e' \<and>
    advances h e (h @ op_versions (e_LastTS e + 1) op) \<and> e_LastTS e \<le> e_LastTS e' \<and> e_LastTS e' = op_clock (e_LastTS e) op"
proof (cases op)
  case (DPut cf k v)
  then show ?thesis using put_holds [OF assms(2), of k v] assms(1,3)
    by (fastforce simp: db_PutCF_def reg_GetCF_def no_faults_def e_NextTimestamp_def Let_def)
next
  case (DDelete cf k)
  then show ?thesis using delete_holds [OF assms(2), of k] assms(1,3)
    by (fastforce simp: db_DeleteCF_def reg_GetCF_def no_faults_def e_NextTimestamp_def Let_def)
next
  case (DBatch cf b)
  have "batch_plain b" using assms(3) DBatch by simp
  from batch_holds [OF assms(2) this, of ord cf] obtain ts e' where b: "ApplyBatch (lsm_ops ord) b e = (Inr ts, e')"
    "holds (h @ batch_versions (e_LastTS e + 1) b) (spec_do (DBatch cf b) m) n e'"
    "advances h e (h @ batch_versions (e_LastTS e + 1) b)" "e_LastTS e \<le> e_LastTS e'"
    "e_LastTS e' = op_clock (e_LastTS e) (DBatch cf b)"
    by (elim exE conjE) (rule that)
  have "db_do ord op r = (None, reg_set (op_cf op) e' r)"
    using assms(1) DBatch b(1) by (simp add: sb_Commit_def reg_GetCF_def)
  then show ?thesis unfolding DBatch op_versions.simps by (intro exI [of _ e'] conjI) (assumption | rule b(2-5))+
qed

section \<open>Runs\<close>

text \<open>The same for every open family of a registry.\<close>

definition db_holds :: "(string \<Rightarrow> history) \<Rightarrow> (string \<Rightarrow> bytes \<Rightarrow> bytes option) \<Rightarrow> nat \<Rightarrow> registry \<Rightarrow> bool" where
  "db_holds H m n r \<longleftrightarrow> (\<forall>cf e. cf_lookup cf r = Some e \<longrightarrow> holds (H cf) (m cf) n e)"

definition later :: "(string \<Rightarrow> history) \<Rightarrow> registry \<Rightarrow> (string \<Rightarrow> history) \<Rightarrow> registry \<Rightarrow> bool" where
  "later H r H' r' \<longleftrightarrow> (\<forall>cf e e'. cf_lookup cf r = Some e \<longrightarrow> cf_lookup cf r' = Some e' \<longrightarrow>
     advances (H cf) e (H' cf) \<and> e_LastTS e \<le> e_LastTS e')"

text \<open>The histories have grown by the versions of the operations.\<close>

definition recorded :: "db_op list \<Rightarrow> (string \<Rightarrow> history) \<Rightarrow> registry \<Rightarrow> (string \<Rightarrow> history) \<Rightarrow> registry \<Rightarrow> bool" where
  "recorded ops H r H' r' \<longleftrightarrow> (\<forall>cf e e'. cf_lookup cf r = Some e \<longrightarrow> cf_lookup cf r' = Some e' \<longrightarrow>
     H' cf = H cf @ op_history (e_LastTS e) (filter (\<lambda>op. op_cf op = cf) ops) \<and>
     e_LastTS e' = fold (\<lambda>op t. op_clock t op) (filter (\<lambda>op. op_cf op = cf) ops) (e_LastTS e))"

lemma op_history_append:
  "op_history t (xs @ ys) = op_history t xs @ op_history (fold (\<lambda>op t. op_clock t op) xs t) ys"
  by (induction t xs rule: op_history.induct) simp_all

lemma advances_trans:
  assumes "advances h e h'" "advances h' e' h''" "e_LastTS e \<le> e_LastTS e'"
  shows "advances h e h''"
proof -
  obtain n1 where n1: "h' = h @ n1" "\<forall>(k, t, v) \<in> set n1. e_LastTS e < t"
    using assms(1) unfolding advances_def by (elim exE conjE) (rule that)
  obtain n2 where n2: "h'' = h' @ n2" "\<forall>(k, t, v) \<in> set n2. e_LastTS e' < t"
    using assms(2) unfolding advances_def by (elim exE conjE) (rule that)
  have "h'' = h @ (n1 @ n2)" using n1(1) n2(1) by simp
  moreover have "\<forall>(k, t, v) \<in> set (n1 @ n2). e_LastTS e < t"
    using n1(2) n2(2) assms(3) by (fastforce intro: order.strict_trans1)
  ultimately show ?thesis unfolding advances_def by (intro exI conjI)
qed

lemma advances_refl: "advances h e h"
  by (simp add: advances_def)

lemma holds_fewer: "holds h m n e \<Longrightarrow> n' \<le> n \<Longrightarrow> holds h m n' e"
  by (auto simp: holds_def)

lemma lookup_listed: "cf \<in> db_ListCFs r \<longleftrightarrow> (\<exists>e. cf_lookup cf r = Some e)"
  by (auto simp: db_ListCFs_def reg_ListCFs_def cf_lookup_def split: option.splits)

lemma ListCFs_set: "cf_lookup cf r = Some e \<Longrightarrow> db_ListCFs (reg_set cf e' r) = db_ListCFs r"
  using cf_lookup_open [of cf r e] by (auto simp: lookup_listed split: if_splits)

lemma do_step:
  assumes H: "db_holds H m (Suc n) r" and op: "op_ok op" "op_cf op \<in> db_ListCFs r"
  shows "\<exists>r' H'. db_do ord op r = (None, r') \<and> db_ListCFs r' = db_ListCFs r \<and>
    db_holds H' (m(op_cf op := spec_do op (m (op_cf op)))) n r' \<and> later H r H' r' \<and> recorded [op] H r H' r'"
proof -
  let ?cf = "op_cf op"
  obtain e where e: "cf_lookup ?cf r = Some e" using op(2) by (auto simp: lookup_listed)
  then have "holds (H ?cf) (m ?cf) (Suc n) e" using H by (simp add: db_holds_def)
  let ?h = "H ?cf @ op_versions (e_LastTS e + 1) op"
  from do_holds [OF e \<open>holds (H ?cf) (m ?cf) (Suc n) e\<close> op(1), of ord] obtain e' where
    e': "db_do ord op r = (None, reg_set ?cf e' r)" "holds ?h (spec_do op (m ?cf)) n e'"
      "advances (H ?cf) e ?h" "e_LastTS e \<le> e_LastTS e'" "e_LastTS e' = op_clock (e_LastTS e) op"
    by (elim exE conjE) (rule that)
  let ?r = "reg_set ?cf e' r" and ?H = "H(?cf := ?h)"
  have lk: "cf_lookup c ?r = (if c = ?cf then Some e' else cf_lookup c r)" for c
    using cf_lookup_open [OF e] e by (cases "c = ?cf") simp_all
  have "db_holds ?H (m(?cf := spec_do op (m ?cf))) n ?r"
    using H e'(2) holds_fewer [of _ _ "Suc n" _ n] unfolding db_holds_def lk by auto
  moreover have "later H r ?H ?r"
    using e e'(3,4) advances_refl unfolding later_def lk by auto
  moreover have "recorded [op] H r ?H ?r"
    using e e'(5) unfolding recorded_def lk by auto
  ultimately show ?thesis using e'(1) ListCFs_set [OF e] by blast
qed

lemma recorded_trans:
  assumes "recorded xs H r H1 r1" "recorded ys H1 r1 H2 r2" "db_ListCFs r1 = db_ListCFs r"
  shows "recorded (xs @ ys) H r H2 r2"
  unfolding recorded_def
proof (intro allI impI)
  fix cf e e2 assume e: "cf_lookup cf r = Some e" "cf_lookup cf r2 = Some e2"
  then have "cf \<in> db_ListCFs r1" using assms(3) by (auto simp: lookup_listed)
  then obtain e1 where e1: "cf_lookup cf r1 = Some e1" by (auto simp: lookup_listed)
  show "H2 cf = H cf @ op_history (e_LastTS e) (filter (\<lambda>op. op_cf op = cf) (xs @ ys)) \<and>
     e_LastTS e2 = fold (\<lambda>op t. op_clock t op) (filter (\<lambda>op. op_cf op = cf) (xs @ ys)) (e_LastTS e)"
    using assms(1,2) e e1 by (simp add: recorded_def op_history_append)
qed

lemma later_trans:
  assumes "later H r H1 r1" "later H1 r1 H2 r2" "db_ListCFs r1 = db_ListCFs r"
  shows "later H r H2 r2"
  unfolding later_def
proof (intro allI impI)
  fix cf e e2 assume e: "cf_lookup cf r = Some e" "cf_lookup cf r2 = Some e2"
  then have "cf \<in> db_ListCFs r1" using assms(3) by (auto simp: lookup_listed)
  then obtain e1 where e1: "cf_lookup cf r1 = Some e1" by (auto simp: lookup_listed)
  have a: "advances (H cf) e (H1 cf)" "e_LastTS e \<le> e_LastTS e1" using assms(1) e(1) e1 by (simp_all add: later_def)
  have b: "advances (H1 cf) e1 (H2 cf)" "e_LastTS e1 \<le> e_LastTS e2" using assms(2) e(2) e1 by (simp_all add: later_def)
  show "advances (H cf) e (H2 cf) \<and> e_LastTS e \<le> e_LastTS e2"
    using advances_trans [OF a(1) b(1) a(2)] order.trans [OF a(2) b(2)] by (rule conjI)
qed

lemma run_holds:
  assumes "db_holds H m (length ops + n) r" "\<forall>op \<in> set ops. op_ok op \<and> op_cf op \<in> db_ListCFs r"
  shows "\<exists>r' H'. db_run ord ops r = (replicate (length ops) None, r') \<and> db_ListCFs r' = db_ListCFs r \<and>
    db_holds H' (\<lambda>cf. fold spec_do (filter (\<lambda>op. op_cf op = cf) ops) (m cf)) n r' \<and> later H r H' r' \<and>
    recorded ops H r H' r'"
  using assms
proof (induction ops arbitrary: H m r)
  case Nil
  have "later H r H r" "recorded [] H r H r" by (simp_all add: later_def advances_refl recorded_def)
  with Nil.prems show ?case by auto
next
  case (Cons op ops)
  have "db_holds H m (Suc (length ops + n)) r" using Cons.prems(1) by simp
  from do_step [OF this, of op ord] Cons.prems(2) obtain r1 H1 where
    s: "db_do ord op r = (None, r1)" "db_ListCFs r1 = db_ListCFs r"
      "db_holds H1 (m(op_cf op := spec_do op (m (op_cf op)))) (length ops + n) r1" "later H r H1 r1"
      "recorded [op] H r H1 r1"
    by auto
  have "\<forall>op \<in> set ops. op_ok op \<and> op_cf op \<in> db_ListCFs r1" using Cons.prems(2) s(2) by simp
  from Cons.IH [OF s(3) this] obtain r' H' where
    r': "db_run ord ops r1 = (replicate (length ops) None, r')" "db_ListCFs r' = db_ListCFs r1"
      "db_holds H' (\<lambda>cf. fold spec_do (filter (\<lambda>op. op_cf op = cf) ops) ((m(op_cf op := spec_do op (m (op_cf op)))) cf)) n r'"
      "later H1 r1 H' r'" "recorded ops H1 r1 H' r'"
    by (elim exE conjE) (rule that)
  have "(\<lambda>cf. fold spec_do (filter (\<lambda>op. op_cf op = cf) ops) ((m(op_cf op := spec_do op (m (op_cf op)))) cf)) =
      (\<lambda>cf. fold spec_do (filter (\<lambda>op. op_cf op = cf) (op # ops)) (m cf))"
    by (rule ext) simp
  note fin = r'(3) [unfolded this]
  have "db_run ord (op # ops) r = (replicate (length (op # ops)) None, r')" using s(1) r'(1) by simp
  moreover have "db_ListCFs r' = db_ListCFs r" using s(2) r'(2) by (rule trans [rotated])
  moreover have "recorded (op # ops) H r H' r'" using recorded_trans [OF s(5) r'(5) s(2)] by simp
  ultimately show ?case using fin later_trans [OF s(4) r'(4) s(2)] by blast
qed

lemma db_run_append:
  "db_run ord (xs @ ys) r = (let (es, r) = db_run ord xs r; (es', r) = db_run ord ys r in (es @ es', r))"
  by (induction xs arbitrary: r) (simp_all add: split_beta Let_def)

section \<open>A new database\<close>

text \<open>The engines are opened on directories without files, with at least one shard each.\<close>

definition opens_empty :: "(string \<Rightarrow> lsm_error + lsm) \<Rightarrow> bool" where
  "opens_empty opener \<longleftrightarrow> (\<exists>ext dec legacy mm bd n gc sync dir. 0 < ext \<and> 0 < n \<and> n < 2 ^ 64 \<and>
     opener = (\<lambda>name. NewLSMEngine ext dec legacy mm bd n gc sync (dir name) [] [] [] (\<lambda>_. []) (\<lambda>_. []) (\<lambda>_. [])))"

lemma opens_fresh:
  "opens_empty opener \<Longrightarrow> \<exists>e. opener name = Inr e \<and> tracks {} [] e \<and> e_LastTS e = 1 \<and> e_unified e = OpenUnifiedMmap []"
proof -
  assume "opens_empty opener"
  then obtain ext dec legacy mm bd n gc sync dir where p: "0 < ext" "0 < n" "n < 2 ^ 64"
    "opener = (\<lambda>name. NewLSMEngine ext dec legacy mm bd n gc sync (dir name) [] [] [] (\<lambda>_. []) (\<lambda>_. []) (\<lambda>_. []))"
    unfolding opens_empty_def by (elim exE conjE) (rule that)
  have "\<exists>e. opener name = Inr e \<and> fresh n gc sync e" unfolding p(4) by (rule new_engine [OF p(1)])
  then obtain e where e: "opener name = Inr e" "fresh n gc sync e" by blast
  have "e_LastTS e = 1" "e_unified e = OpenUnifiedMmap []" using e(2) by (simp_all add: fresh_def)
  with e(1) tracks_fresh [OF e(2) p(2,3)] show ?thesis by blast
qed

lemma create_all:
  assumes "\<forall>cf e. cf_lookup cf r = Some e \<longrightarrow> P e" "\<forall>name. \<exists>e. opener name = Inr e \<and> P e"
    and "cf_lookup cf (snd (reg_CreateCF opener name r)) = Some e"
  shows "P e"
proof -
  obtain e0 where "opener name = Inr e0" "P e0" using assms(2) by blast
  then show ?thesis using assms(1,3) by (auto simp: reg_CreateCF_def cf_lookup_def split: option.splits if_splits)
qed

lemma load_all:
  assumes "\<forall>cf e. cf_lookup cf r = Some e \<longrightarrow> P e" "\<forall>name. \<exists>e. opener name = Inr e \<and> P e"
  shows "cf_lookup cf (load_cfs opener es r) = Some e \<Longrightarrow> P e"
  using assms
proof (induction opener es r arbitrary: cf e rule: load_cfs.induct)
  case (2 opener name isDir entries r)
  show ?case
  proof (cases "isDir \<and> name \<noteq> ''default'' \<and> cf_lookup name r = None")
    case True
    have "\<forall>cf e. cf_lookup cf (snd (reg_CreateCF opener name r)) = Some e \<longrightarrow> P e"
      using create_all [OF 2(4,5)] by blast
    then show ?thesis using 2(1) [OF True, of cf e] 2(3,5) True by simp
  next
    case False
    then have "load_cfs opener ((name, isDir) # entries) r = load_cfs opener entries r"
      unfolding load_cfs.simps by (rule if_not_P)
    with 2(3) have "cf_lookup cf (load_cfs opener entries r) = Some e" by simp
    then show ?thesis by (rule 2(2) [OF False _ 2(4,5)])
  qed
qed simp

lemma new_db_all:
  assumes "NewScoriaDBWithOptions True opener (Some dirs) = Inr r" "\<forall>name. \<exists>e. opener name = Inr e \<and> P e"
    and "cf_lookup cf r = Some e"
  shows "P e"
proof -
  obtain err r0 where r0: "reg_CreateCF opener ''default'' \<lparr>reg_cfs = Some Map.empty\<rparr> = (err, r0)" by (metis surj_pair)
  have "\<forall>cf e. cf_lookup cf \<lparr>reg_cfs = Some Map.empty\<rparr> = Some e \<longrightarrow> P e" by (simp add: cf_lookup_def)
  from create_all [OF this assms(2), of _ "''default''"] r0 have "\<forall>cf e. cf_lookup cf r0 = Some e \<longrightarrow> P e" by simp
  note l = load_all [OF this assms(2)]
  have "r = load_cfs opener dirs r0"
    using assms(1) r0 by (simp add: NewScoriaDBWithOptions_def NewRegistryWithOptions_def split: option.splits)
  with assms(3) l show ?thesis by blast
qed

lemma new_db_holds:
  assumes "opens_empty opener" "NewScoriaDBWithOptions True opener (Some dirs) = Inr r" "1 + n < 2 ^ 64"
  shows "db_holds (\<lambda>_. []) (\<lambda>_. Map.empty) n r"
  unfolding db_holds_def
proof (intro allI impI)
  fix cf e assume e: "cf_lookup cf r = Some e"
  have "\<forall>name. \<exists>e. opener name = Inr e \<and> (tracks {} [] e \<and> e_LastTS e = 1)" using opens_fresh [OF assms(1)] by blast
  from new_db_all [OF assms(2) this e] show "holds [] Map.empty n e" using assms(3) by (auto simp: holds_def h_read_def)
qed

lemma db_spec_fun: "db_spec ops = (\<lambda>cf. fold spec_do (filter (\<lambda>op. op_cf op = cf) ops) Map.empty)"
  by (rule ext) (simp add: db_spec_def)

text \<open>A run from a new database, cut into two parts.\<close>

lemma new_run:
  assumes new: "opens_empty opener" "NewScoriaDBWithOptions True opener (Some dirs) = Inr r"
    and ops: "\<forall>op \<in> set (xs @ ys). op_ok op \<and> op_cf op \<in> db_ListCFs r" and len: "length (xs @ ys) < 2 ^ 64 - 1"
  obtains r1 r2 H1 H2 where "db_run ord xs r = (replicate (length xs) None, r1)"
    "db_run ord ys r1 = (replicate (length ys) None, r2)" "db_ListCFs r1 = db_ListCFs r" "db_ListCFs r2 = db_ListCFs r"
    "db_holds H1 (db_spec xs) (length ys) r1" "db_holds H2 (db_spec (xs @ ys)) 0 r2" "later H1 r1 H2 r2"
proof -
  have "1 + (length xs + length ys) < 2 ^ 64" using len by simp
  note h0 = new_db_holds [OF new this]
  have "\<forall>op \<in> set xs. op_ok op \<and> op_cf op \<in> db_ListCFs r" using ops by simp
  from run_holds [OF h0 this, of ord] obtain r1 H1 where
    1: "db_run ord xs r = (replicate (length xs) None, r1)" "db_ListCFs r1 = db_ListCFs r"
      "db_holds H1 (\<lambda>cf. fold spec_do (filter (\<lambda>op. op_cf op = cf) xs) Map.empty) (length ys) r1" "later (\<lambda>_. []) r H1 r1"
    by (elim exE conjE) (rule that)
  have b: "db_holds H1 (db_spec xs) (length ys) r1" using 1(3) unfolding db_spec_fun .
  have "db_holds H1 (db_spec xs) (length ys + 0) r1" "\<forall>op \<in> set ys. op_ok op \<and> op_cf op \<in> db_ListCFs r1"
    using b ops 1(2) by simp_all
  from run_holds [OF this, of ord] obtain r2 H2 where
    2: "db_run ord ys r1 = (replicate (length ys) None, r2)" "db_ListCFs r2 = db_ListCFs r1"
      "db_holds H2 (\<lambda>cf. fold spec_do (filter (\<lambda>op. op_cf op = cf) ys) (db_spec xs cf)) 0 r2" "later H1 r1 H2 r2"
    by (elim exE conjE) (rule that)
  have "(\<lambda>cf. fold spec_do (filter (\<lambda>op. op_cf op = cf) ys) (db_spec xs cf)) = db_spec (xs @ ys)"
    by (rule ext) (simp add: db_spec_def)
  note c = 2(3) [unfolded this]
  have "db_ListCFs r2 = db_ListCFs r" using 2(2) 1(2) by (rule trans)
  from that [OF 1(1) 2(1) 1(2) this b c 2(4)] show ?thesis .
qed

lemma holds_read: "holds h m n e \<Longrightarrow> length (um_data (e_unified e)) < 2 ^ 63 \<Longrightarrow> e_GetWithTS k (e_LastTS e) e = Inr (m k)"
  using tracks_read by (fastforce simp: holds_def)

text \<open>The families of a new database: \<open>default\<close> and the directories found.\<close>

lemma load_names:
  assumes "\<forall>name. \<exists>e. opener name = Inr e" "reg_cfs r \<noteq> None"
  shows "db_ListCFs (load_cfs opener es r) = db_ListCFs r \<union> ({name. (name, True) \<in> set es} - {''default''})"
  using assms
proof (induction opener es r rule: load_cfs.induct)
  case (2 opener name isDir entries r)
  obtain m where m: "reg_cfs r = Some m" using 2(4) by blast
  obtain e where e: "opener name = Inr e" using 2(3) by blast
  show ?case
  proof (cases "isDir \<and> name \<noteq> ''default'' \<and> cf_lookup name r = None")
    case True
    have c: "reg_cfs (snd (reg_CreateCF opener name r)) = Some (m(name \<mapsto> e))"
      using True m e by (simp add: reg_CreateCF_def)
    then have "db_ListCFs (snd (reg_CreateCF opener name r)) = insert name (db_ListCFs r)"
      by (simp add: db_ListCFs_def reg_ListCFs_def m)
    with 2(1) [OF True 2(3)] c True show ?thesis by auto
  next
    case False
    have "isDir \<Longrightarrow> name \<noteq> ''default'' \<Longrightarrow> name \<in> db_ListCFs r" using False by (auto simp: lookup_listed)
    moreover have "load_cfs opener ((name, isDir) # entries) r = load_cfs opener entries r"
      unfolding load_cfs.simps by (rule if_not_P [OF False])
    ultimately show ?thesis using 2(2) [OF False 2(3,4)] by auto
  qed
qed simp

lemma new_db_names:
  assumes "opens_empty opener"
  shows "\<exists>r. NewScoriaDBWithOptions True opener (Some dirs) = Inr r \<and>
    db_ListCFs r = insert ''default'' {name. (name, True) \<in> set dirs}"
proof -
  have all: "\<forall>name. \<exists>e. opener name = Inr e" using opens_fresh [OF assms] by blast
  then obtain e where e: "opener ''default'' = Inr e" by blast
  let ?r0 = "\<lparr>reg_cfs = Some [''default'' \<mapsto> e]\<rparr>"
  have c: "reg_CreateCF opener ''default'' \<lparr>reg_cfs = Some Map.empty\<rparr> = (None, ?r0)"
    using e by (simp add: reg_CreateCF_def cf_lookup_def)
  have "db_ListCFs ?r0 = {''default''}" by (simp add: db_ListCFs_def reg_ListCFs_def)
  with load_names [OF all, of ?r0 dirs] have
    "db_ListCFs (load_cfs opener dirs ?r0) = insert ''default'' {name. (name, True) \<in> set dirs}" by auto
  then show ?thesis by (intro exI conjI) (simp add: NewScoriaDBWithOptions_def NewRegistryWithOptions_def c)
qed

text \<open>Small values do not reach the buffer of large values.\<close>

lemma put_small_unified:
  "length v \<le> MaxInlineSize \<Longrightarrow> e_unified (snd (e_PutWithTS x io s k v t e)) = e_unified e"
  by (simp add: e_PutWithTS_def Let_def upd_shard_def e_updateCache_def split_beta split: option.split)

lemma delete_unified: "e_unified (snd (e_DeleteWithTS io s k t e)) = e_unified e"
  by (simp add: e_DeleteWithTS_def Let_def upd_shard_def e_updateCache_def split_beta split: option.split)

lemma log_batch_unified: "e_unified (snd (log_batch io entry is e)) = e_unified e"
  by (induction "is" arbitrary: e) (auto simp: Let_def upd_shard_def split_beta split: option.split)

lemma apply_batch_unified: "e_unified (apply_batch t ops e) = e_unified e"
  by (induction ops arbitrary: e) (simp_all add: Let_def upd_shard_def e_updateCache_def)

lemma add_deltas_unified: "e_unified (add_deltas ops e) = e_unified e"
  by (induction ops arbitrary: e) (simp_all add: Let_def upd_shard_def)

lemma batch_write_unified: "e_unified (snd (e_WriteAtomicBatch ord io d t e)) = e_unified e"
  by (simp add: e_WriteAtomicBatch_def apply_batch_unified add_deltas_unified log_batch_unified split_beta
    split: sum.split option.split)

lemma batch_unified: "e_unified (snd (ApplyBatch (lsm_ops ord) b e)) = e_unified e"
  by (simp add: ApplyBatch_def lsm_ops_def e_NextTimestamp_def split_beta batch_write_unified
    split: sum.split option.split)

fun small_op :: "db_op \<Rightarrow> bool" where
  "small_op (DPut cf k v) \<longleftrightarrow> length v \<le> MaxInlineSize"
| "small_op _ \<longleftrightarrow> True"

definition um_all :: "unified_mmap \<Rightarrow> registry \<Rightarrow> bool" where
  "um_all um r \<longleftrightarrow> (\<forall>cf e. cf_lookup cf r = Some e \<longrightarrow> e_unified e = um)"

lemma um_all_set: "um_all um r \<Longrightarrow> e_unified e = um \<Longrightarrow> um_all um (reg_set cf e r)"
  by (simp add: um_all_def)

lemma small_do_unified:
  assumes "small_op op" "um_all um r"
  shows "um_all um (snd (db_do ord op r))"
proof (cases "cf_lookup (op_cf op) r")
  case None
  then show ?thesis using assms
    by (cases op) (simp_all add: db_PutCF_def db_DeleteCF_def sb_Commit_def reg_GetCF_def)
next
  case (Some e)
  then have u: "um = e_unified e" and a: "um_all (e_unified e) r" using assms(2) by (auto simp: um_all_def)
  show ?thesis
    unfolding u using Some assms(1)
    by (cases op) (auto simp: db_PutCF_def db_DeleteCF_def sb_Commit_def reg_GetCF_def e_NextTimestamp_def Let_def split_beta
      put_small_unified delete_unified batch_unified intro!: um_all_set [OF a] split: sum.split)
qed

lemma small_run_unified: "\<forall>op \<in> set ops. small_op op \<Longrightarrow> um_all um r \<Longrightarrow> um_all um (snd (db_run ord ops r))"
proof (induction ops arbitrary: r)
  case (Cons op ops)
  then have "um_all um (snd (db_do ord op r))" using small_do_unified by simp
  with Cons show ?case by (simp add: split_beta)
qed simp

lemma new_db_unified:
  assumes "opens_empty opener" "NewScoriaDBWithOptions True opener (Some dirs) = Inr r"
  shows "um_all (OpenUnifiedMmap []) r"
  unfolding um_all_def
proof (intro allI impI)
  fix cf e assume e: "cf_lookup cf r = Some e"
  have "\<forall>name. \<exists>e. opener name = Inr e \<and> e_unified e = OpenUnifiedMmap []" using opens_fresh [OF assms(1)] by blast
  from new_db_all [OF assms(2) this e] show "e_unified e = OpenUnifiedMmap []" .
qed

lemma small_new: "length (um_data (OpenUnifiedMmap [])) < 2 ^ 63"
  by (simp add: OpenUnifiedMmap_def UnifiedMmapSize_def)

text \<open>A run used as an example below.\<close>

definition demo_ops :: "db_op list" where
  "demo_ops = [DPut ''default'' [97] [1, 2, 3], DBatch ''logs'' (AddPut [98] (Some [7]) (AddDelete [97] NewWriteBatch)),
     DDelete ''default'' [97]]"

definition demo_opener :: "bloom_decoder \<Rightarrow> string \<Rightarrow> lsm_error + lsm" where
  "demo_opener bd = (\<lambda>_. NewLSMEngine 4096 (\<lambda>_. None) (\<lambda>_. []) True bd 4 True True (\<lambda>_. None) [] [] []
     (\<lambda>_. []) (\<lambda>_. []) (\<lambda>_. []))"

lemma demo_ok: "\<forall>op \<in> set demo_ops. op_ok op \<and> op_cf op \<in> {''default'', ''logs''} \<and> small_op op"
  by (simp add: demo_ops_def put_fits_def wal_fits_def put_entry_def delete_entry_def wal_size_def MaxInlineSize_def
    groupCommitBufSize_def groupCommitPageSize_def groupCommitNumPages_def batch_plain_def op_plain_def batch_fits_def
    op_fits_def AddPut_def AddDelete_def NewWriteBatch_def ValuePointerSize_def EncodeBatch_def batch_entry_def slice_of_def)

lemma demo_spec:
  "db_spec demo_ops ''default'' [97] = None" "db_spec (take 1 demo_ops) ''default'' [97] = Some [1, 2, 3]"
  "db_spec demo_ops ''logs'' [98] = Some [7]"
  by (simp_all add: db_spec_def demo_ops_def AddPut_def AddDelete_def NewWriteBatch_def)

lemma demo_opens: "opens_empty (demo_opener bd)"
  unfolding opens_empty_def demo_opener_def
  by (intro exI [of _ 4096] exI [of _ 4] exI [of _ "\<lambda>_ _. None"] exI conjI) (simp_all, (rule refl)?)

text \<open>The database of the example, and its state after the whole run.\<close>

lemma demo_db:
  obtains r where "NewScoriaDBWithOptions True (demo_opener bd) (Some [(''logs'', True)]) = Inr r"
    "db_ListCFs r = {''default'', ''logs''}" "\<forall>op \<in> set demo_ops. op_ok op \<and> op_cf op \<in> db_ListCFs r"
    "\<forall>cf e. cf_lookup cf (snd (db_run ord demo_ops r)) = Some e \<longrightarrow> length (um_data (e_unified e)) < 2 ^ 63"
proof -
  obtain r where r: "NewScoriaDBWithOptions True (demo_opener bd) (Some [(''logs'', True)]) = Inr r"
    "db_ListCFs r = insert ''default'' {name. (name, True) \<in> set [(''logs'', True)]}"
    using new_db_names [OF demo_opens [of bd], of "[(''logs'', True)]"] by (elim exE conjE) (rule that)
  have l: "db_ListCFs r = {''default'', ''logs''}" using r(2) by auto
  have "um_all (OpenUnifiedMmap []) (snd (db_run ord demo_ops r))"
    using small_run_unified [OF _ new_db_unified [OF demo_opens r(1)]] demo_ok by blast
  then have "\<forall>cf e. cf_lookup cf (snd (db_run ord demo_ops r)) = Some e \<longrightarrow> length (um_data (e_unified e)) < 2 ^ 63"
    using small_new by (simp add: um_all_def)
  moreover have "\<forall>op \<in> set demo_ops. op_ok op \<and> op_cf op \<in> db_ListCFs r" using demo_ok l by auto
  ultimately show ?thesis by (intro that [OF r(1) l])
qed

text \<open>
  C25. On a database opened over empty directories, any sequence of puts, deletes and batches on
  its families succeeds, leaves the set of families alone, and every read of the newest state
  gives what a map per family gives: the value of the last write of the key, or none after a
  delete. Batches have distinct keys and no value as long as an encoded pointer.
\<close>

theorem database_reads_follow_writes:
  assumes "opens_empty opener" "NewScoriaDBWithOptions True opener (Some dirs) = Inr r"
    and "\<forall>op \<in> set ops. op_ok op \<and> op_cf op \<in> db_ListCFs r" "length ops < 2 ^ 64 - 1"
    and run: "db_run ord ops r = (errs, r')"
    and small: "\<forall>cf e. cf_lookup cf r' = Some e \<longrightarrow> length (um_data (e_unified e)) < 2 ^ 63"
  shows "errs = replicate (length ops) None \<and> db_ListCFs r' = db_ListCFs r \<and>
    (\<forall>cf \<in> db_ListCFs r. \<forall>k. db_GetCF cf k r' = Inr (db_spec ops cf k))"
proof -
  have "1 + (length ops + 0) < 2 ^ 64" using assms(4) by simp
  from run_holds [OF new_db_holds [OF assms(1,2) this] assms(3), of ord, folded db_spec_fun] obtain r2 H2 where
    r2: "db_run ord ops r = (replicate (length ops) None, r2)" "db_ListCFs r2 = db_ListCFs r" "db_holds H2 (db_spec ops) 0 r2"
    by (elim exE conjE) (rule that)
  then have eq: "errs = replicate (length ops) None" "r' = r2" using run by simp_all
  have "db_GetCF cf k r' = Inr (db_spec ops cf k)" if cf: "cf \<in> db_ListCFs r" for cf k
  proof -
    have "cf \<in> db_ListCFs r'" using cf r2(2) eq(2) by simp
    then obtain e where e: "cf_lookup cf r' = Some e" unfolding lookup_listed by (elim exE) (rule that)
    then have "holds (H2 cf) (db_spec ops cf) 0 e" using r2(3) eq(2) by (simp add: db_holds_def)
    from holds_read [OF this] small e show ?thesis by (simp add: db_GetCF_def reg_GetCF_def)
  qed
  with eq r2(2) show ?thesis by simp
qed

theorem database_reads_follow_writes_witness:
  "\<forall>bd. \<exists>r r'. NewScoriaDBWithOptions True (demo_opener bd) (Some [(''logs'', True)]) = Inr r \<and>
     db_run (\<lambda>xs. xs) demo_ops r = (replicate (length demo_ops) None, r') \<and>
     db_GetCF ''default'' [97] r' = Inr None \<and> db_GetCF ''logs'' [98] r' = Inr (Some [7])"
proof
  fix bd
  obtain r where r: "NewScoriaDBWithOptions True (demo_opener bd) (Some [(''logs'', True)]) = Inr r"
    "db_ListCFs r = {''default'', ''logs''}" "\<forall>op \<in> set demo_ops. op_ok op \<and> op_cf op \<in> db_ListCFs r"
    "\<forall>cf e. cf_lookup cf (snd (db_run (\<lambda>xs. xs) demo_ops r)) = Some e \<longrightarrow> length (um_data (e_unified e)) < 2 ^ 63"
    by (rule demo_db [of bd "\<lambda>xs. xs"])
  obtain errs r' where run: "db_run (\<lambda>xs. xs) demo_ops r = (errs, r')" by (metis surj_pair)
  have len: "length demo_ops < 2 ^ 64 - 1" by (simp add: demo_ops_def)
  have "\<forall>cf e. cf_lookup cf r' = Some e \<longrightarrow> length (um_data (e_unified e)) < 2 ^ 63" using r(4) run by simp
  from database_reads_follow_writes [OF demo_opens r(1,3) len run this]
  have res: "errs = replicate (length demo_ops) None" "\<forall>cf \<in> db_ListCFs r. \<forall>k. db_GetCF cf k r' = Inr (db_spec demo_ops cf k)"
    by blast+
  have "db_GetCF ''default'' [97] r' = Inr None" "db_GetCF ''logs'' [98] r' = Inr (Some [7])"
    using res(2) r(2) demo_spec by auto
  with r(1) run res(1) show "\<exists>r r'. NewScoriaDBWithOptions True (demo_opener bd) (Some [(''logs'', True)]) = Inr r \<and>
     db_run (\<lambda>xs. xs) demo_ops r = (replicate (length demo_ops) None, r') \<and>
     db_GetCF ''default'' [97] r' = Inr None \<and> db_GetCF ''logs'' [98] r' = Inr (Some [7])"
    by blast
qed

text \<open>
  C26. Time travel: the state of a prefix of the operations can still be read after the rest, at
  the family's last timestamp of the prefix.
\<close>

theorem earlier_states_stay_readable:
  assumes "opens_empty opener" "NewScoriaDBWithOptions True opener (Some dirs) = Inr r"
    and "\<forall>op \<in> set (xs @ ys). op_ok op \<and> op_cf op \<in> db_ListCFs r" "length (xs @ ys) < 2 ^ 64 - 1"
    and run: "db_run ord xs r = (errs, r1)" "db_run ord ys r1 = (errs', r2)"
    and cf: "cf_lookup cf r1 = Some e1" "cf_lookup cf r2 = Some e2"
    and small: "length (um_data (e_unified e2)) < 2 ^ 63"
  shows "e_GetWithTS k (e_LastTS e1) e2 = Inr (db_spec xs cf k)"
proof -
  obtain r1' r2' H1 H2 where p: "db_run ord xs r = (replicate (length xs) None, r1')"
    "db_run ord ys r1' = (replicate (length ys) None, r2')"
    and H': "db_holds H1 (db_spec xs) (length ys) r1'" "db_holds H2 (db_spec (xs @ ys)) 0 r2'" "later H1 r1' H2 r2'"
    by (rule new_run [OF assms(1-4), of ord])
  have "r1' = r1" using p(1) run(1) by simp
  moreover from this have "r2' = r2" using p(2) run(2) by simp
  ultimately have H: "db_holds H1 (db_spec xs) (length ys) r1" "db_holds H2 (db_spec (xs @ ys)) 0 r2" "later H1 r1 H2 r2"
    using H' by simp_all
  have 1: "h_read (H1 cf) k (e_LastTS e1) = db_spec xs cf k" using H(1) cf(1) by (simp add: db_holds_def holds_def)
  have "holds (H2 cf) (db_spec (xs @ ys) cf) 0 e2" using H(2) cf(2) by (simp add: db_holds_def)
  then obtain E where tr: "tracks E (H2 cf) e2" unfolding holds_def by (elim exE conjE) (rule that)
  have "advances (H1 cf) e1 (H2 cf)" using H(3) cf by (simp add: later_def)
  then obtain new where new: "H2 cf = H1 cf @ new" "\<forall>(k, t, v) \<in> set new. e_LastTS e1 < t"
    unfolding advances_def by (elim exE conjE) (rule that)
  have "h_read (H2 cf) k (e_LastTS e1) = h_read (H1 cf) k (e_LastTS e1)" unfolding new(1) by (rule h_read_newer [OF new(2)])
  with 1 tracks_read [OF tr small, of k "e_LastTS e1"] show ?thesis by simp
qed

theorem earlier_states_stay_readable_witness:
  "\<forall>bd. \<exists>r r1 r2 e1 e2. NewScoriaDBWithOptions True (demo_opener bd) (Some [(''logs'', True)]) = Inr r \<and>
     db_run (\<lambda>xs. xs) (take 1 demo_ops) r = ([None], r1) \<and> snd (db_run (\<lambda>xs. xs) (drop 1 demo_ops) r1) = r2 \<and>
     cf_lookup ''default'' r1 = Some e1 \<and> cf_lookup ''default'' r2 = Some e2 \<and>
     e_GetWithTS [97] (e_LastTS e1) e2 = Inr (Some [1, 2, 3])"
proof
  fix bd
  obtain r where r: "NewScoriaDBWithOptions True (demo_opener bd) (Some [(''logs'', True)]) = Inr r"
    "db_ListCFs r = {''default'', ''logs''}" "\<forall>op \<in> set demo_ops. op_ok op \<and> op_cf op \<in> db_ListCFs r"
    "\<forall>cf e. cf_lookup cf (snd (db_run (\<lambda>xs. xs) demo_ops r)) = Some e \<longrightarrow> length (um_data (e_unified e)) < 2 ^ 63"
    by (rule demo_db [of bd "\<lambda>xs. xs"])
  have ops: "\<forall>op \<in> set (take 1 demo_ops @ drop 1 demo_ops). op_ok op \<and> op_cf op \<in> db_ListCFs r"
    and len: "length (take 1 demo_ops @ drop 1 demo_ops) < 2 ^ 64 - 1"
    using r(3) by (simp_all add: demo_ops_def del: op_ok.simps)
  obtain r1 r2 where p: "db_run (\<lambda>xs. xs) (take 1 demo_ops) r = (replicate (length (take 1 demo_ops)) None, r1)"
    "db_run (\<lambda>xs. xs) (drop 1 demo_ops) r1 = (replicate (length (drop 1 demo_ops)) None, r2)"
    and l: "db_ListCFs r1 = db_ListCFs r" "db_ListCFs r2 = db_ListCFs r"
    by (rule new_run [OF demo_opens r(1) ops len, of "\<lambda>xs. xs"])
  have "''default'' \<in> db_ListCFs r1" "''default'' \<in> db_ListCFs r2" unfolding l r(2) by simp_all
  then obtain e1 e2 where e: "cf_lookup ''default'' r1 = Some e1" "cf_lookup ''default'' r2 = Some e2"
    unfolding lookup_listed by (elim exE) (rule that)
  have "snd (db_run (\<lambda>xs. xs) (take 1 demo_ops @ drop 1 demo_ops) r) = r2"
    unfolding db_run_append p Let_def split snd_conv ..
  then have "length (um_data (e_unified e2)) < 2 ^ 63" using r(4) e(2) by simp
  from earlier_states_stay_readable [OF demo_opens r(1) ops len p e this, of "[97]"] demo_spec(2)
  have "e_GetWithTS [97] (e_LastTS e1) e2 = Inr (Some [1, 2, 3])" by simp
  moreover have "db_run (\<lambda>xs. xs) (take 1 demo_ops) r = ([None], r1)" using p(1) by (simp add: demo_ops_def del: db_run.simps)
  ultimately show "\<exists>r r1 r2 e1 e2. NewScoriaDBWithOptions True (demo_opener bd) (Some [(''logs'', True)]) = Inr r \<and>
     db_run (\<lambda>xs. xs) (take 1 demo_ops) r = ([None], r1) \<and> snd (db_run (\<lambda>xs. xs) (drop 1 demo_ops) r1) = r2 \<and>
     cf_lookup ''default'' r1 = Some e1 \<and> cf_lookup ''default'' r2 = Some e2 \<and>
     e_GetWithTS [97] (e_LastTS e1) e2 = Inr (Some [1, 2, 3])"
    using r(1) e p(2) by (intro exI conjI) (assumption | simp)+
qed

end
