(* ===== verification/Families.thy ===== *)
theory Families
  imports Database
begin

text \<open>
  The registry of column families as a finite map with its error branches, and what a batch over
  several families does to a family whose clock is behind.
\<close>

section \<open>The registry as a map\<close>

lemma lookup_None: "cf \<notin> db_ListCFs r \<longleftrightarrow> cf_lookup cf r = None"
  by (auto simp: lookup_listed)

lemma create_new:
  assumes "name \<noteq> []" "cf_lookup name r = None" "opener name = Inr e" "reg_cfs r \<noteq> None"
  shows "\<exists>r'. db_CreateCF opener name r = (None, r') \<and> (\<forall>cf. cf_lookup cf r' = (if cf = name then Some e else cf_lookup cf r))"
proof -
  obtain m where m: "reg_cfs r = Some m" using assms(4) by blast
  have "db_CreateCF opener name r = (None, r\<lparr>reg_cfs := Some (m(name \<mapsto> e))\<rparr>)"
    using assms m by (simp add: db_CreateCF_def reg_CreateCF_def)
  then show ?thesis using m by (intro exI conjI) (auto simp: cf_lookup_def)
qed

lemma drop_open:
  assumes "name \<noteq> ''default''" "\<not> isSystemCF name" "cf_lookup name r = Some e"
  shows "\<exists>r'. db_DropCF True name r = (None, r') \<and> reg_cfs r' \<noteq> None \<and>
    (\<forall>cf. cf_lookup cf r' = (if cf = name then None else cf_lookup cf r))"
proof -
  obtain m where m: "reg_cfs r = Some m" using cf_lookup_open [OF assms(3)] by blast
  have "m name = Some e" using assms(3) m by (simp add: cf_lookup_def)
  then have "db_DropCF True name r = (None, r\<lparr>reg_cfs := Some (m(name := None))\<rparr>)"
    using assms m by (simp add: db_DropCF_def reg_DropCF_def isSystemCF_def)
  then show ?thesis using m by (intro exI conjI) (auto simp: cf_lookup_def)
qed

text \<open>
  C27. Managing the families of an open database: a new name gives an additional family with the
  engine that was opened and changes no other; a name in use, the empty name, an engine that does
  not open, a protected family and an unknown one are refused with their errors and no change; a
  dropped family answers every operation with the not-found error, and only it.
\<close>

theorem families_form_a_map:
  assumes "reg_cfs r \<noteq> None"
  shows "(case db_CreateCF opener name r of (err, r') \<Rightarrow>
      if name = [] then err = Some CfEmptyName \<and> r' = r
      else if name \<in> db_ListCFs r then err = Some CfExists \<and> r' = r
      else case opener name of
        Inl x \<Rightarrow> err = Some (CfEngine x) \<and> r' = r
      | Inr e \<Rightarrow> err = None \<and> (\<forall>cf. cf_lookup cf r' = (if cf = name then Some e else cf_lookup cf r))) \<and>
    (case db_DropCF True name r of (err, r') \<Rightarrow>
      if name = ''default'' \<or> isSystemCF name then err = Some CfSystem \<and> r' = r
      else if name \<notin> db_ListCFs r then err = Some CfNotFound \<and> r' = r
      else err = None \<and> (\<forall>cf. cf \<noteq> name \<longrightarrow> cf_lookup cf r' = cf_lookup cf r) \<and>
        db_GetCF name k r' = Inl CfNotFound \<and> db_PutCF io name k v r' = (Some CfNotFound, r') \<and>
        db_DeleteCF io name k r' = (Some CfNotFound, r'))"
proof (rule conjI)
  show "case db_CreateCF opener name r of (err, r') \<Rightarrow>
      if name = [] then err = Some CfEmptyName \<and> r' = r
      else if name \<in> db_ListCFs r then err = Some CfExists \<and> r' = r
      else case opener name of
        Inl x \<Rightarrow> err = Some (CfEngine x) \<and> r' = r
      | Inr e \<Rightarrow> err = None \<and> (\<forall>cf. cf_lookup cf r' = (if cf = name then Some e else cf_lookup cf r))"
  proof (cases "name = [] \<or> name \<in> db_ListCFs r")
    case True
    then show ?thesis by (auto simp: db_CreateCF_def reg_CreateCF_def lookup_listed)
  next
    case False
    then have n: "name \<noteq> []" "cf_lookup name r = None" by (auto simp: lookup_listed)
    show ?thesis
    proof (cases "opener name")
      case (Inl x)
      with False n show ?thesis by (simp add: db_CreateCF_def reg_CreateCF_def)
    next
      case (Inr e)
      from create_new [OF n, of opener, OF Inr assms] False Inr show ?thesis by auto
    qed
  qed
  show "case db_DropCF True name r of (err, r') \<Rightarrow>
      if name = ''default'' \<or> isSystemCF name then err = Some CfSystem \<and> r' = r
      else if name \<notin> db_ListCFs r then err = Some CfNotFound \<and> r' = r
      else err = None \<and> (\<forall>cf. cf \<noteq> name \<longrightarrow> cf_lookup cf r' = cf_lookup cf r) \<and>
        db_GetCF name k r' = Inl CfNotFound \<and> db_PutCF io name k v r' = (Some CfNotFound, r') \<and>
        db_DeleteCF io name k r' = (Some CfNotFound, r')"
  proof (cases "name = ''default'' \<or> isSystemCF name \<or> name \<notin> db_ListCFs r")
    case True
    obtain m where m: "reg_cfs r = Some m" using assms by blast
    then have "name \<notin> db_ListCFs r \<Longrightarrow> m name = None" by (auto simp: lookup_None cf_lookup_def)
    with True m show ?thesis by (auto simp: db_DropCF_def reg_DropCF_def isSystemCF_def)
  next
    case False
    then obtain e where "cf_lookup name r = Some e" by (auto simp: lookup_listed)
    from drop_open [OF _ _ this] False obtain r' where
      r': "db_DropCF True name r = (None, r')" "\<forall>cf. cf_lookup cf r' = (if cf = name then None else cf_lookup cf r)"
      by blast
    from r'(2) have "cf_lookup name r' = None" by simp
    with r' False show ?thesis by (simp add: db_GetCF_def db_PutCF_def db_DeleteCF_def reg_GetCF_def)
  qed
qed

theorem families_form_a_map_witness:
  "\<forall>e. fst (db_CreateCF (\<lambda>_. Inr e) ''logs'' \<lparr>reg_cfs = Some [''default'' \<mapsto> e]\<rparr>) = None \<and>
     cf_lookup ''logs'' (snd (db_CreateCF (\<lambda>_. Inr e) ''logs'' \<lparr>reg_cfs = Some [''default'' \<mapsto> e]\<rparr>)) = Some e \<and>
     fst (db_DropCF True ''default'' \<lparr>reg_cfs = Some [''default'' \<mapsto> e]\<rparr>) = Some CfSystem"
proof
  fix e
  let ?r = "\<lparr>reg_cfs = Some [''default'' \<mapsto> e]\<rparr>"
  have "reg_cfs ?r \<noteq> None" by simp
  note t = families_form_a_map [OF this]
  have "''logs'' \<notin> db_ListCFs ?r" by (simp add: db_ListCFs_def reg_ListCFs_def)
  with t [where opener = "\<lambda>_. Inr e" and name = "''logs''", THEN conjunct1] t [where name = "''default''", THEN conjunct2]
  show "fst (db_CreateCF (\<lambda>_. Inr e) ''logs'' ?r) = None \<and>
     cf_lookup ''logs'' (snd (db_CreateCF (\<lambda>_. Inr e) ''logs'' ?r)) = Some e \<and>
     fst (db_DropCF True ''default'' ?r) = Some CfSystem"
    by (simp add: split_beta)
qed

section \<open>A batch over two families\<close>

text \<open>Writing and reading at given timestamps do not look at the clock.\<close>

lemma clock_simps:
  "upd_shard i f (e\<lparr>e_LastTS := t\<rparr>) = (upd_shard i f e)\<lparr>e_LastTS := t\<rparr>"
  "e_updateCache k ts (e\<lparr>e_LastTS := t\<rparr>) = (e_updateCache k ts e)\<lparr>e_LastTS := t\<rparr>"
  "e_shardIndex (e\<lparr>e_LastTS := t\<rparr>) = e_shardIndex e"
  by (simp_all add: upd_shard_def e_updateCache_def e_shardIndex_def [abs_def])

lemma log_batch_clock:
  "log_batch io entry is (e\<lparr>e_LastTS := t\<rparr>) = (let (err, e') = log_batch io entry is e in (err, e'\<lparr>e_LastTS := t\<rparr>))"
  by (induction "is" arbitrary: e) (simp_all add: Let_def clock_simps split_beta split: option.split)

lemma apply_batch_clock: "apply_batch ts ops (e\<lparr>e_LastTS := t\<rparr>) = (apply_batch ts ops e)\<lparr>e_LastTS := t\<rparr>"
  by (induction ops arbitrary: e) (simp_all add: Let_def clock_simps)

lemma add_deltas_clock: "add_deltas ops (e\<lparr>e_LastTS := t\<rparr>) = (add_deltas ops e)\<lparr>e_LastTS := t\<rparr>"
  by (induction ops arbitrary: e) (simp_all add: Let_def clock_simps)

lemma write_clock:
  "e_WriteAtomicBatch ord io d ts (e\<lparr>e_LastTS := t\<rparr>) =
    (let (err, e') = e_WriteAtomicBatch ord io d ts e in (err, e'\<lparr>e_LastTS := t\<rparr>))"
  by (simp add: e_WriteAtomicBatch_def log_batch_clock apply_batch_clock add_deltas_clock affected_shards_def
      clock_simps Let_def split_beta split: sum.split option.split)

lemma get_clock: "e_GetWithTS k s (e\<lparr>e_LastTS := t\<rparr>) = e_GetWithTS k s e"
proof -
  have d: "decodeStoredValue (e\<lparr>e_LastTS := t\<rparr>) = decodeStoredValue e"
  proof (intro ext)
    fix x b
    have "e_unified (e\<lparr>e_LastTS := t\<rparr>) = e_unified e" "e_vlog (e\<lparr>e_LastTS := t\<rparr>) = e_vlog e" by simp_all
    then show "decodeStoredValue (e\<lparr>e_LastTS := t\<rparr>) x b = decodeStoredValue e x b"
      unfolding decodeStoredValue_def by (simp only:)
  qed
  have "e_levels (e\<lparr>e_LastTS := t\<rparr>) = e_levels e" "e_shards (e\<lparr>e_LastTS := t\<rparr>) = e_shards e"
    "e_closed (e\<lparr>e_LastTS := t\<rparr>) = e_closed e" by simp_all
  then show ?thesis unfolding e_GetWithTS_def d clock_simps e_shard_def by (simp only:)
qed

text \<open>A write above the clock of an engine is not seen by a read at its clock.\<close>

lemma write_above_clock:
  assumes tr: "tracks E h e" and b: "batch_plain b" and lt: "e_LastTS e < t"
    and small: "length (um_data (e_unified e)) < 2 ^ 63"
  shows "\<exists>e'. ApplyBatchWithTS (lsm_ops ord) b t e = (None, e') \<and> e_LastTS e' = e_LastTS e \<and>
    (\<forall>k s. s < t \<longrightarrow> e_GetWithTS k s e' = e_GetWithTS k s e)"
proof (cases "wb_Size b = 0")
  case True
  then show ?thesis by (simp add: ApplyBatchWithTS_def)
next
  case False
  let ?e = "e\<lparr>e_LastTS := t\<rparr>"
  have tr1: "tracks E h ?e" using lt by (intro tracks_clock [OF tr]) simp
  have "batch_fits b" using b by (simp add: batch_plain_def)
  then obtain d where d: "EncodeBatch b = Inr d" using EncodeBatch_eq by blast
  have le: "t \<le> e_LastTS ?e" by simp
  have so: "\<forall>xs. distinct xs \<longrightarrow> set (some_order ord xs) = set xs" by (simp add: some_order_def)
  from write_tracks [OF tr1 le tracks_newest [OF tr lt] b d so] obtain e1 where
    e1: "e_WriteAtomicBatch (some_order ord) (\<lambda>_. (None, True)) d t ?e = (None, e1)" "tracks E (h @ batch_versions t b) e1"
    by (elim exE conjE) (rule that)
  obtain err e2 where e2: "e_WriteAtomicBatch (some_order ord) (\<lambda>_. (None, True)) d t e = (err, e2)" by (metis surj_pair)
  have *: "err = None" "e1 = e2\<lparr>e_LastTS := t\<rparr>" using e1(1) e2 by (simp_all add: write_clock)
  have um: "e_unified e1 = e_unified e"
    using batch_write_unified [of "some_order ord" "\<lambda>_. (None, True)" d t ?e] e1(1) by simp
  have "e_LastTS (snd (e_WriteAtomicBatch (some_order ord) (\<lambda>_. (None, True)) d t (e\<lparr>e_LastTS := e_LastTS e\<rparr>))) = e_LastTS e"
    unfolding write_clock by (simp add: split_beta)
  then have ts: "e_LastTS e2 = e_LastTS e" using e2 by simp
  have "e_GetWithTS k s e2 = e_GetWithTS k s e" if "s < t" for k s
  proof -
    have "e_GetWithTS k s e2 = e_GetWithTS k s e1" unfolding *(2) by (rule get_clock [symmetric])
    also have "\<dots> = Inr (h_read (h @ batch_versions t b) k s)" using small by (intro tracks_read [OF e1(2)]) (simp add: um)
    also have "h_read (h @ batch_versions t b) k s = h_read h k s"
      using that by (intro h_read_newer) (auto simp: batch_versions_def)
    finally show ?thesis using tracks_read [OF tr small] by simp
  qed
  moreover have "ApplyBatchWithTS (lsm_ops ord) b t e = (None, e2)"
    using False d e2 *(1) by (simp add: ApplyBatchWithTS_def lsm_ops_def)
  ultimately show ?thesis using ts by blast
qed

text \<open>
  The timestamp of a batch over two families comes from the clock of one of them. When that clock
  is ahead, the batch is acknowledged, and a read of the other family does not show it: a key
  written by the batch still has its old value.
\<close>

theorem batch_over_families_can_be_invisible:
  assumes fam: "cf_lookup f1 r = Some e1" "cf_lookup f2 r = Some e2" "f1 \<noteq> f2" "f1 \<noteq> []" "f2 \<noteq> []"
    and h: "holds h1 m1 (Suc n) e1" "tracks E h2 e2" "e_LastTS e2 < e_LastTS e1 + 1"
    and small: "length (um_data (e_unified e1)) < 2 ^ 63" "length (um_data (e_unified e2)) < 2 ^ 63"
    and plain: "batch_plain (AddPut k1 (Some v1) NewWriteBatch)" "batch_plain (AddPut k2 (Some v2) NewWriteBatch)"
    and order: "first [f1, f2] = f1" "ord [f1, f2] = [f1, f2]"
    and b: "b = cfb_AddPut f2 k2 (Some v2) (cfb_AddPut f1 k1 (Some v1) NewCFWriteBatch)"
  shows "\<exists>r'. ApplyCFBatch (lsm_ops o') first ord b r = (Inr (e_LastTS e1 + 1), r') \<and>
    (\<forall>k. db_GetCF f2 k r' = db_GetCF f2 k r)"
proof -
  let ?t = "e_LastTS e1 + 1" and ?b1 = "AddPut k1 (Some v1) NewWriteBatch" and ?b2 = "AddPut k2 (Some v2) NewWriteBatch"
  obtain E1 where tr1: "tracks E1 h1 e1" using h(1) unfolding holds_def by (elim exE conjE) (rule that)
  have lt: "e_LastTS e1 < ?t" by (rule next_clock(2) [OF h(1)])
  have trn: "tracks E1 h1 (e1\<lparr>e_LastTS := ?t\<rparr>)" using lt by (intro tracks_clock [OF tr1]) simp
  have "batch_fits ?b1" using plain(1) by (simp add: batch_plain_def)
  then obtain d where d: "EncodeBatch ?b1 = Inr d" using EncodeBatch_eq by blast
  have le: "?t \<le> e_LastTS (e1\<lparr>e_LastTS := ?t\<rparr>)" by simp
  have so: "\<forall>xs. distinct xs \<longrightarrow> set (some_order o' xs) = set xs" by (simp add: some_order_def)
  from write_tracks [OF trn le tracks_newest [OF tr1 lt] plain(1) d so] obtain e1' where
    e1': "e_WriteAtomicBatch (some_order o') (\<lambda>_. (None, True)) d ?t (e1\<lparr>e_LastTS := ?t\<rparr>) = (None, e1')"
    by (elim exE conjE) (rule that)
  have a1: "ApplyBatchWithTS (lsm_ops o') ?b1 ?t (e1\<lparr>e_LastTS := ?t\<rparr>) = (None, e1')"
    using d e1' by (simp add: ApplyBatchWithTS_def lsm_ops_def wb_Size_def AddPut_def NewWriteBatch_def)
  from write_above_clock [OF h(2) plain(2) h(3) small(2), of o'] obtain e2' where
    e2': "ApplyBatchWithTS (lsm_ops o') ?b2 ?t e2 = (None, e2')" "e_LastTS e2' = e_LastTS e2"
    "\<forall>k s. s < ?t \<longrightarrow> e_GetWithTS k s e2' = e_GetWithTS k s e2"
    by (elim exE conjE) (rule that)
  have op: "reg_cfs r \<noteq> None" by (rule cf_lookup_open [OF fam(1)])
  have names: "remdups (map target_cf b) = [f1, f2]"
    using fam(3-5) by (simp add: b cfb_AddPut_def NewCFWriteBatch_def target_cf_def)
  have g: "plain_batch (cf_group b f1) NewWriteBatch = ?b1" "plain_batch (cf_group b f2) NewWriteBatch = ?b2"
    using fam(3-5) by (simp_all add: b cfb_AddPut_def NewCFWriteBatch_def target_cf_def cf_group_def)
  let ?r = "reg_set f2 e2' (reg_set f1 e1' (reg_set f1 (e1\<lparr>e_LastTS := ?t\<rparr>) r))"
  have "cfb_Size b \<noteq> 0" by (simp add: b cfb_AddPut_def cfb_Size_def)
  moreover have "eng_NextTimestamp (lsm_ops o') e1 = (?t, e1\<lparr>e_LastTS := ?t\<rparr>)"
    by (simp add: lsm_ops_def e_NextTimestamp_def Let_def)
  ultimately have run: "ApplyCFBatch (lsm_ops o') first ord b r = (Inr ?t, ?r)"
    using fam op order a1 e2'(1) by (simp add: ApplyCFBatch_def names g reg_GetCF_def)
  have "db_GetCF f2 k ?r = db_GetCF f2 k r" for k
    using fam op e2'(2,3) h(3) by (simp add: db_GetCF_def reg_GetCF_def)
  with run show ?thesis by blast
qed

end
