(* ===== verification/ScanProofs.thy ===== *)
theory ScanProofs
  imports Iterators Families
begin

text \<open>
  What \<open>Scan\<close> lists. The iterator over a memtable gives, in key order, the newest live version of
  every key with the prefix; the merge of sources with different keys is their sorted union; the
  filter for versions keeps all of it. So a scan of an engine without tables lists the history
  without its deletions.
\<close>

section \<open>Sources as lists\<close>

function src_list :: "source \<Rightarrow> (bytes \<times> bytes option) list" where
  "src_list s = (let (ok, s') = src_Next s in if ok then (slice_of (src_Key s'), src_Value s') # src_list s' else [])"
  by pat_completeness auto
termination
  by (relation "measure src_room") (auto dest: src_Next_less [OF sym])

declare src_list.simps [simp del]

text \<open>The live nodes in front of an iterator over a memtable.\<close>

definition live_value :: "version \<Rightarrow> bytes option" where
  "live_value v = (case v of Live x \<Rightarrow> x | Tomb \<Rightarrow> None)"

definition mi_ahead :: "memtable_iter \<Rightarrow> mem" where
  "mi_ahead it =
     (if ii_done (mi_inner it) \<and> \<not> mi_ready it then []
      else (if mi_ready it then [ii_cur (mi_inner it)] else []) @ mem_live (ii_rest (mi_inner it)))"

lemma mem_it_loop_live:
  "mem_it_loop cur m = (ok, cur', rest) \<Longrightarrow>
   (case mem_live m of [] \<Rightarrow> \<not> ok \<and> rest = [] | x # xs \<Rightarrow> ok \<and> cur' = x \<and> mem_live rest = xs)"
  by (induction cur m rule: mem_it_loop.induct) (auto simp: mem_live_def split: if_splits)

definition group_key :: "mvcc_key \<times> version \<Rightarrow> bytes" where
  "group_key e = mk_key (fst e)"

text \<open>Runs of equal keys, each with its last value.\<close>

function group_runs :: "mem \<Rightarrow> (bytes \<times> bytes option) list" where
  "group_runs [] = []"
| "group_runs (x # xs) =
     (group_key x, live_value (snd (last (x # takeWhile (\<lambda>y. group_key y = group_key x) xs)))) #
       group_runs (dropWhile (\<lambda>y. group_key y = group_key x) xs)"
  by pat_completeness auto
termination
  by (relation "measure length") (auto simp: le_imp_less_Suc length_dropWhile_le)

lemma mem_it_Next_live:
  assumes "mem_it_Next it = (ok, it')" "\<not> ii_done it"
  shows "case mem_live (ii_rest it) of [] \<Rightarrow> \<not> ok \<and> ii_done it'
    | x # xs \<Rightarrow> ok \<and> ii_cur it' = x \<and> mem_live (ii_rest it') = xs \<and> \<not> ii_done it'"
  using assms by (auto simp: mem_it_Next_def dest!: mem_it_loop_live split: prod.splits list.splits)

lemma skip_newest:
  assumes "\<not> ii_done (mi_inner it)" "\<not> mi_ready it" "\<not> mi_ended it"
  shows "mi_ahead (skipToNewest k it) = dropWhile (\<lambda>y. group_key y = k) (mem_live (ii_rest (mi_inner it))) \<and>
    mi_value (skipToNewest k it) = (case takeWhile (\<lambda>y. group_key y = k) (mem_live (ii_rest (mi_inner it))) of
      [] \<Rightarrow> mi_value it | ys \<Rightarrow> live_value (snd (last ys))) \<and>
    mi_key (skipToNewest k it) = mi_key it \<and> mi_prefix (skipToNewest k it) = mi_prefix it \<and>
    mi_ended (skipToNewest k it) = mi_ended it \<and>
    (mi_ready (skipToNewest k it) \<longrightarrow> \<not> ii_done (mi_inner (skipToNewest k it)))"
  using assms
proof (induction k it rule: skipToNewest.induct)
  case (1 k it)
  obtain ok inner where n: "mem_it_Next (mi_inner it) = (ok, inner)" by (metis surj_pair)
  note l = mem_it_Next_live [OF n 1(2)]
  show ?case
  proof (cases "mem_live (ii_rest (mi_inner it))")
    case Nil
    then have "\<not> ok" "ii_done inner" using l by simp_all
    then have "skipToNewest k it = it\<lparr>mi_inner := inner\<rparr>" using n by (simp add: skipToNewest.simps [of k it])
    then show ?thesis using Nil \<open>ii_done inner\<close> 1(3) by (simp add: mi_ahead_def)
  next
    case (Cons x xs)
    then have i: "ok" "ii_cur inner = x" "mem_live (ii_rest inner) = xs" "\<not> ii_done inner" using l by simp_all
    have key: "mk_key (mem_it_Key inner) = group_key x" using i(2) by (simp add: mem_it_Key_def group_key_def)
    show ?thesis
    proof (cases "group_key x = k")
      case False
      then have "skipToNewest k it = it\<lparr>mi_inner := inner, mi_ready := True\<rparr>"
        using n i key by (simp add: skipToNewest.simps [of k it] Let_def)
      then show ?thesis using Cons False i by (simp add: mi_ahead_def)
    next
      case True
      let ?it = "it\<lparr>mi_inner := inner, mi_value := mem_it_Value inner\<rparr>"
      have eq: "skipToNewest k it = skipToNewest k ?it" using n i key True by (simp add: skipToNewest.simps [of k it] Let_def)
      have v: "mem_it_Value inner = live_value (snd x)" using i(2) by (simp add: mem_it_Value_def live_value_def)
      have ih: "mi_ahead (skipToNewest k ?it) = dropWhile (\<lambda>y. group_key y = k) xs \<and>
          mi_value (skipToNewest k ?it) = (case takeWhile (\<lambda>y. group_key y = k) xs of [] \<Rightarrow> mem_it_Value inner
            | ys \<Rightarrow> live_value (snd (last ys))) \<and>
          mi_key (skipToNewest k ?it) = mi_key it \<and> mi_prefix (skipToNewest k ?it) = mi_prefix it \<and>
          mi_ended (skipToNewest k ?it) = mi_ended it \<and>
          (mi_ready (skipToNewest k ?it) \<longrightarrow> \<not> ii_done (mi_inner (skipToNewest k ?it)))"
        using 1(1) [OF refl n [symmetric] refl] 1(2-4) i key True by (simp add: Let_def split: list.split)
      then show ?thesis unfolding eq using Cons True v by (auto split: list.split)
    qed
  qed
qed

definition mi_good :: "memtable_iter \<Rightarrow> bool" where
  "mi_good it \<longleftrightarrow> \<not> mi_ended it \<and> (mi_ready it \<longrightarrow> \<not> ii_done (mi_inner it))"

lemma mi_advance_ahead:
  assumes "mi_advance it = (ok, it1)" "mi_good it"
  shows "case mi_ahead it of [] \<Rightarrow> \<not> ok
    | x # xs \<Rightarrow> ok \<and> \<not> mi_ready it1 \<and> ii_cur (mi_inner it1) = x \<and> mem_live (ii_rest (mi_inner it1)) = xs \<and>
        \<not> ii_done (mi_inner it1) \<and> \<not> mi_ended it1 \<and> mi_prefix it1 = mi_prefix it"
proof (cases "mi_ready it")
  case True
  then show ?thesis using assms by (auto simp: mi_advance_def mi_ahead_def mi_good_def)
next
  case False
  then obtain inner where n: "mem_it_Next (mi_inner it) = (ok, inner)" "it1 = it\<lparr>mi_inner := inner\<rparr>"
    using assms(1) by (auto simp: mi_advance_def split: prod.splits)
  show ?thesis
  proof (cases "ii_done (mi_inner it)")
    case True
    then show ?thesis using False n by (auto simp: mi_ahead_def mem_it_Next_def)
  next
    case d: False
    show ?thesis using mem_it_Next_live [OF n(1) d] n(2) False d assms(2)
      by (auto simp: mi_ahead_def mi_good_def split: list.split)
  qed
qed

lemma mi_loop_ahead:
  assumes "mi_loop it = (ok, it')" "mi_good it"
  shows "case dropWhile (\<lambda>x. \<not> HasPrefix (group_key x) (mi_prefix it)) (mi_ahead it) of [] \<Rightarrow> \<not> ok
    | x # xs \<Rightarrow> ok \<and> mi_key it' = group_key x \<and> mi_prefix it' = mi_prefix it \<and> mi_good it' \<and>
        mi_value it' = live_value (snd (last (x # takeWhile (\<lambda>y. group_key y = group_key x) xs))) \<and>
        mi_ahead it' = dropWhile (\<lambda>y. group_key y = group_key x) xs"
  using assms
proof (induction it rule: mi_loop.induct)
  case (1 it)
  obtain ok1 it1 where a: "mi_advance it = (ok1, it1)" by (metis surj_pair)
  note l = mi_advance_ahead [OF a 1(3)]
  show ?case
  proof (cases "mi_ahead it")
    case Nil
    then show ?thesis using 1(2) a l by (simp add: mi_loop.simps [of it])
  next
    case (Cons x xs)
    then have i: "ok1" "\<not> mi_ready it1" "ii_cur (mi_inner it1) = x" "mem_live (ii_rest (mi_inner it1)) = xs"
      "\<not> ii_done (mi_inner it1)" "\<not> mi_ended it1" "mi_prefix it1 = mi_prefix it" using l by simp_all
    have key: "mk_key (mem_it_Key (mi_inner it1)) = group_key x" using i(3) by (simp add: mem_it_Key_def group_key_def)
    have v: "mem_it_Value (mi_inner it1) = live_value (snd x)" using i(3) by (simp add: mem_it_Value_def live_value_def)
    show ?thesis
    proof (cases "HasPrefix (group_key x) (mi_prefix it)")
      case True
      let ?it = "it1\<lparr>mi_isDel := mem_it_IsDeleted (mi_inner it1), mi_key := group_key x, mi_value := live_value (snd x)\<rparr>"
      have "ok" "it' = skipToNewest (group_key x) ?it"
        using 1(2) a i(1,7) key v True by (simp_all add: mi_loop.simps [of it] Let_def)
      with skip_newest [of ?it "group_key x"] i Cons True show ?thesis
        by (auto simp: mi_good_def split: list.splits)
    next
      case False
      have loop: "mi_loop it1 = (ok, it')" using 1(2) a i(1,7) key False by (simp add: mi_loop.simps [of it])
      have good: "mi_good it1" using i by (simp add: mi_good_def)
      have ahead: "mi_ahead it1 = xs" using i by (simp add: mi_ahead_def)
      have "\<not> HasPrefix (mk_key (mem_it_Key (mi_inner it1))) (mi_prefix it1)" using False key i(7) by simp
      note ih = 1(1) [OF refl a [symmetric] _ refl this loop good]
      have d: "dropWhile (\<lambda>x. \<not> HasPrefix (group_key x) (mi_prefix it1)) (mi_ahead it) =
          dropWhile (\<lambda>x. \<not> HasPrefix (group_key x) (mi_prefix it1)) (mi_ahead it1)"
        using Cons False i(7) ahead by simp
      have "\<not> \<not> ok1" using i(1) by simp
      from ih [OF this] show ?thesis unfolding i(7) [symmetric] d .
    qed
  qed
qed

lemma group_runs_skip:
  "group_runs (filter (\<lambda>x. P (group_key x)) xs) =
     (case dropWhile (\<lambda>x. \<not> P (group_key x)) xs of [] \<Rightarrow> []
      | x # ys \<Rightarrow> (group_key x, live_value (snd (last (x # takeWhile (\<lambda>y. group_key y = group_key x)
            (filter (\<lambda>x. P (group_key x)) ys))))) #
          group_runs (dropWhile (\<lambda>y. group_key y = group_key x) (filter (\<lambda>x. P (group_key x)) ys)))"
  by (induction xs) auto

text \<open>In a list sorted by key, the runs and the prefix filter do not interfere.\<close>

definition by_key :: "mem \<Rightarrow> bool" where
  "by_key xs \<longleftrightarrow> sorted (map group_key xs)"

lemma take_run_filter:
  "by_key (x # xs) \<Longrightarrow> P (group_key x) \<Longrightarrow>
   takeWhile (\<lambda>y. group_key y = group_key x) (filter (\<lambda>x. P (group_key x)) xs) = takeWhile (\<lambda>y. group_key y = group_key x) xs \<and>
   dropWhile (\<lambda>y. group_key y = group_key x) (filter (\<lambda>x. P (group_key x)) xs) =
     filter (\<lambda>x. P (group_key x)) (dropWhile (\<lambda>y. group_key y = group_key x) xs)"
proof (induction xs)
  case (Cons y xs)
  show ?case
  proof (cases "group_key y = group_key x")
    case True
    with Cons show ?thesis by (auto simp: by_key_def)
  next
    case False
    then have less: "\<forall>z \<in> set (y # xs). group_key x < group_key z"
      using Cons.prems(1) by (auto simp: by_key_def le_less)
    let ?ys = "filter (\<lambda>x. P (group_key x)) (y # xs)"
    have "\<forall>z \<in> set ?ys. group_key z \<noteq> group_key x" using less by auto
    then have "takeWhile (\<lambda>y. group_key y = group_key x) ?ys = []" "dropWhile (\<lambda>y. group_key y = group_key x) ?ys = ?ys"
      by (cases ?ys; simp)+
    then show ?thesis using False by simp
  qed
qed simp

lemma by_key_drop: "by_key xs \<Longrightarrow> by_key (dropWhile P xs)"
  unfolding by_key_def dropWhile_map [symmetric, of P id, simplified]
  by (metis dropWhile_eq_drop drop_map sorted_wrt_drop)

lemma dropWhile_Cons_by_key:
  assumes "by_key xs" "dropWhile P xs = x # ys"
  shows "by_key (x # ys)"
  using by_key_drop [OF assms(1), of P] assms(2) by simp

text \<open>The list of a memtable source: the runs of its live nodes with the prefix.\<close>

lemma mem_src_list:
  assumes "mi_good it" "by_key (mi_ahead it)"
  shows "src_list (MemSource it) = group_runs (filter (\<lambda>x. HasPrefix (group_key x) (mi_prefix it)) (mi_ahead it))"
  using assms
proof (induction "mi_room it" arbitrary: it rule: less_induct)
  case less
  let ?P = "\<lambda>k. HasPrefix k (mi_prefix it)"
  obtain ok it' where n: "mi_loop it = (ok, it')" by (metis surj_pair)
  have next': "src_Next (MemSource it) = (ok, MemSource it')" using n less.prems(1) by (simp add: mi_Next_def mi_good_def)
  note l = mi_loop_ahead [OF n less.prems(1)]
  show ?case
  proof (cases "dropWhile (\<lambda>x. \<not> ?P (group_key x)) (mi_ahead it)")
    case Nil
    then have "\<not> ok" using l unfolding Nil by simp
    then have "src_list (MemSource it) = []" by (subst src_list.simps) (simp add: next' del: src_Next.simps)
    then show ?thesis using Nil by (simp add: group_runs_skip [where P = ?P])
  next
    case (Cons x ys)
    then have i: "ok" "mi_key it' = group_key x" "mi_prefix it' = mi_prefix it" "mi_good it'"
      "mi_value it' = live_value (snd (last (x # takeWhile (\<lambda>y. group_key y = group_key x) ys)))"
      "mi_ahead it' = dropWhile (\<lambda>y. group_key y = group_key x) ys"
      using l by simp_all
    have s: "by_key (x # ys)" by (rule dropWhile_Cons_by_key [OF less.prems(2) Cons])
    then have "by_key ys" by (simp add: by_key_def)
    then have s': "by_key (mi_ahead it')" unfolding i(6) by (rule by_key_drop)
    have P: "?P (group_key x)" using Cons by (auto simp: dropWhile_eq_Cons_conv)
    have "mi_room it' < mi_room it" using mi_loop_less n i(1) by simp
    note ih = less.hyps [OF this i(4) s', unfolded i(3,6)]
    have "slice_of (src_Key (MemSource it')) = group_key x" by (simp add: i(2) slice_of_def)
    then have "src_list (MemSource it) = (group_key x, mi_value it') # src_list (MemSource it')"
      using i(1) by (subst src_list.simps) (simp add: next' del: src_Next.simps)
    moreover have "group_runs (filter (\<lambda>x. ?P (group_key x)) (mi_ahead it)) =
        (group_key x, mi_value it') # group_runs (filter (\<lambda>x. ?P (group_key x)) (dropWhile (\<lambda>y. group_key y = group_key x) ys))"
      using group_runs_skip [where P = ?P and xs = "mi_ahead it"] take_run_filter [OF s, of ?P, OF P] i(5)
      unfolding Cons by simp
    ultimately show ?thesis using ih by simp
  qed
qed

text \<open>The runs of a list sorted by key: ascending keys, each with the value of its last node.\<close>

lemma group_runs_keys: "by_key xs \<Longrightarrow> fst ` set (group_runs xs) = group_key ` set xs \<and> sorted_wrt (<) (map fst (group_runs xs))"
proof (induction xs rule: group_runs.induct)
  case (2 x xs)
  let ?Q = "\<lambda>y. group_key y = group_key x" and ?d = "dropWhile (\<lambda>y. group_key y = group_key x) xs"
  have s: "by_key xs" "\<forall>y \<in> set xs. group_key x \<le> group_key y" using 2(2) by (auto simp: by_key_def)
  note ih = 2(1) [OF by_key_drop [OF s(1)]]
  have "group_key x < group_key y" if y: "y \<in> set ?d" for y
  proof -
    obtain z zs where z: "?d = z # zs" using y by (cases ?d) auto
    have "group_key z \<noteq> group_key x" using z by (auto simp: dropWhile_eq_Cons_conv)
    moreover have "z \<in> set xs" using z by (metis list.set_intros(1) set_dropWhileD)
    ultimately have "group_key x < group_key z" using s(2) by (metis le_less)
    moreover have "group_key z \<le> group_key y" using by_key_drop [OF s(1), of ?Q] y z by (auto simp: by_key_def)
    ultimately show ?thesis by simp
  qed
  moreover have "group_key ` set xs \<subseteq> insert (group_key x) (group_key ` set ?d)"
  proof -
    have "set xs = set (takeWhile ?Q xs) \<union> set ?d" by (metis set_append takeWhile_dropWhile_id)
    then show ?thesis by (auto dest: set_takeWhileD)
  qed
  moreover have "group_key ` set ?d \<subseteq> group_key ` set xs" by (auto dest: set_dropWhileD)
  ultimately show ?case using ih by auto
qed simp

lemma group_runs_value:
  "by_key xs \<Longrightarrow> (k, v) \<in> set (group_runs xs) \<Longrightarrow> v = live_value (snd (last (filter (\<lambda>x. group_key x = k) xs)))"
proof (induction xs rule: group_runs.induct)
  case (2 x xs)
  let ?Q = "\<lambda>y. group_key y = group_key x" and ?d = "dropWhile (\<lambda>y. group_key y = group_key x) xs"
  have s: "by_key xs" using 2(2) by (simp add: by_key_def)
  have split: "filter R xs = filter R (takeWhile ?Q xs) @ filter R ?d" for R
    unfolding filter_append [symmetric] takeWhile_dropWhile_id ..
  have run: "\<forall>y \<in> set (takeWhile ?Q xs). group_key y = group_key x" by (auto dest: set_takeWhileD)
  have runs: "sorted_wrt (<) (map fst (group_runs (x # xs)))" using group_runs_keys [OF 2(2)] by blast
  have gk: "fst ` set (group_runs ?d) = group_key ` set ?d" using group_runs_keys [OF by_key_drop [OF s]] by blast
  have "group_key x \<notin> fst ` set (group_runs ?d)" using runs by auto
  then have no: "filter ?Q ?d = []" unfolding gk by (auto simp: filter_empty_conv image_iff)
  show ?case
  proof (cases "k = group_key x")
    case True
    then have v: "v = live_value (snd (last (x # takeWhile ?Q xs)))"
      using 2(3) \<open>group_key x \<notin> fst ` set (group_runs ?d)\<close> by force
    have "filter ?Q xs = takeWhile ?Q xs"
      unfolding split [of ?Q] no filter_True [OF run] by (rule append_Nil2)
    then show ?thesis using True v by simp
  next
    case False
    then have "(k, v) \<in> set (group_runs ?d)" using 2(3) by auto
    from 2(1) [OF by_key_drop [OF s] this] have v: "v = live_value (snd (last (filter (\<lambda>x. group_key x = k) ?d)))" .
    have "filter (\<lambda>y. group_key y = k) (takeWhile ?Q xs) = []" using run False unfolding filter_empty_conv by metis
    then have "filter (\<lambda>y. group_key y = k) xs = filter (\<lambda>y. group_key y = k) ?d"
      unfolding split [of "\<lambda>y. group_key y = k"] by (rule trans [OF arg_cong2 [where f = "(@)", OF _ refl] append_Nil])
    then show ?thesis using v False by simp
  qed
qed simp

section \<open>Merging sources with different keys\<close>

definition src_good :: "source \<Rightarrow> bool" where
  "src_good s \<longleftrightarrow> (case s of MemSource it \<Rightarrow> True | TableSource it \<Rightarrow> ti_err it = None \<and> ti_inner it \<noteq> None)"

lemma src_good_Next: "src_good s \<Longrightarrow> src_Next s = (ok, s') \<Longrightarrow> src_good s' \<and> src_Err s' = None"
  by (cases s) (auto simp: src_good_def ti_Next_def Let_def split: prod.splits if_splits)

definition hi_list :: "heap_iter \<Rightarrow> (bytes \<times> bytes option) list" where
  "hi_list hi = (slice_of (hi_key hi), src_Value (hi_iter hi)) # src_list (hi_iter hi)"

definition heap_entries :: "heap_iter list \<Rightarrow> (bytes \<times> bytes option) multiset" where
  "heap_entries h = (\<Sum>hi\<in>#mset h. mset (hi_list hi))"

definition ascending :: "(bytes \<times> 'a) list \<Rightarrow> bool" where
  "ascending xs \<longleftrightarrow> sorted_wrt (<) (map fst xs)"

definition distinct_keys :: "(bytes \<times> 'a) multiset \<Rightarrow> bool" where
  "distinct_keys M \<longleftrightarrow> (\<forall>xs. mset xs = M \<longrightarrow> distinct (map fst xs))"

lemma distinct_keys_mset: "distinct_keys (mset xs) \<longleftrightarrow> distinct (map fst xs)"
proof -
  have "distinct (map fst ys)" if "mset ys = mset xs" "distinct (map fst xs)" for ys
    using that by (metis mset_eq_imp_distinct_iff mset_map)
  then show ?thesis by (auto simp: distinct_keys_def)
qed

lemma distinct_keys_add: "distinct_keys (add_mset x M) \<longleftrightarrow> distinct_keys M \<and> fst x \<notin> fst ` set_mset M"
proof -
  obtain xs where "M = mset xs" by (metis ex_mset)
  then show ?thesis using distinct_keys_mset [of "x # xs"] distinct_keys_mset [of xs] by auto
qed

definition mg_inv :: "merge_iter \<Rightarrow> bool" where
  "mg_inv mi \<longleftrightarrow> mg_err mi = None \<and> heap_ok iter_less (mg_heap mi) \<and>
     (\<forall>hi \<in> set (mg_heap mi). src_good (hi_iter hi) \<and> ascending (hi_list hi)) \<and>
     distinct_keys (heap_entries (mg_heap mi)) \<and> [] \<notin> fst ` set_mset (heap_entries (mg_heap mi))"

lemma src_list_Next:
  "src_Next s = (ok, s') \<Longrightarrow> src_list s = (if ok then (slice_of (src_Key s'), src_Value s') # src_list s' else [])"
  by (simp add: src_list.simps [of s])

lemma mg_advance_entries:
  assumes adv: "mg_advance hi mi = (ok, mi')" and good: "src_good (hi_iter hi)" and heap: "heap_ok iter_less (mg_heap mi)"
    and err: "mg_err mi = None" and all: "\<forall>hi \<in> set (mg_heap mi). src_good (hi_iter hi) \<and> ascending (hi_list hi)"
    and asc: "ascending (hi_list hi)"
  shows "ok \<and> mg_err mi' = None \<and> heap_ok iter_less (mg_heap mi') \<and>
    (\<forall>hi \<in> set (mg_heap mi'). src_good (hi_iter hi) \<and> ascending (hi_list hi)) \<and>
    heap_entries (mg_heap mi') = mset (src_list (hi_iter hi)) + heap_entries (mg_heap mi) \<and>
    mg_key mi' = mg_key mi \<and> mg_ts mi' = mg_ts mi \<and> mg_value mi' = mg_value mi \<and> mg_views mi' = mg_views mi"
proof -
  obtain more s' where n: "src_Next (hi_iter hi) = (more, s')" by (metis surj_pair)
  note g = src_good_Next [OF good n] and l = src_list_Next [OF n]
  show ?thesis
  proof (cases more)
    case True
    let ?hi = "\<lparr>hi_iter = s', hi_key = src_Key s', hi_ts = iterTimestamp s'\<rparr>"
    have mi': "ok" "mi' = mi\<lparr>mg_heap := heap_Push iter_less ?hi (mg_heap mi)\<rparr>"
      using adv n True by (simp_all add: mg_advance_def)
    have hl: "hi_list ?hi = src_list (hi_iter hi)" using l True by (simp add: hi_list_def)
    have "ascending (hi_list ?hi)" using asc unfolding hl by (simp add: ascending_def hi_list_def)
    moreover note push = iter_heap.Push_ok [OF heap, of ?hi]
    moreover have "set (heap_Push iter_less ?hi (mg_heap mi)) = insert ?hi (set (mg_heap mi))"
      using push by (metis set_mset_add_mset_insert set_mset_mset)
    ultimately show ?thesis using mi' err all g hl by (simp add: heap_entries_def)
  next
    case False
    then show ?thesis using adv n g l err heap all by (auto simp: mg_advance_def)
  qed
qed

lemma mg_Next_entries:
  assumes inv: "mg_inv mi" and ne: "mg_heap mi \<noteq> []"
  shows "\<exists>mi' k. mg_Next mi = (True, mi') \<and> mg_inv mi' \<and> mg_key mi' = Some k \<and>
    heap_entries (mg_heap mi) = add_mset (k, mg_value mi') (heap_entries (mg_heap mi')) \<and>
    (\<forall>x \<in># heap_entries (mg_heap mi'). k < fst x)"
proof -
  note i = inv [unfolded mg_inv_def]
  obtain hi h where p: "heap_Pop iter_less (mg_heap mi) = (hi, h)" by (metis surj_pair)
  have heap: "heap_ok iter_less (mg_heap mi)" using i by blast
  note pop = iter_heap.Pop_ok [OF heap ne p]
  have sets: "set (mg_heap mi) = insert hi (set h)" using pop(3) by (metis set_mset_add_mset_insert set_mset_mset)
  let ?mi = "mi\<lparr>mg_heap := h, mg_key := hi_key hi, mg_ts := hi_ts hi, mg_value := src_Value (hi_iter hi)\<rparr>"
  obtain ok mi1 where a: "mg_advance hi ?mi = (ok, mi1)" by (metis surj_pair)
  have hi: "src_good (hi_iter hi)" "ascending (hi_list hi)" using i sets by simp_all
  have adv: "ok" "mg_err mi1 = None" "heap_ok iter_less (mg_heap mi1)"
    "\<forall>hi \<in> set (mg_heap mi1). src_good (hi_iter hi) \<and> ascending (hi_list hi)"
    "heap_entries (mg_heap mi1) = mset (src_list (hi_iter hi)) + heap_entries h"
    "mg_key mi1 = hi_key hi" "mg_value mi1 = src_Value (hi_iter hi)"
    using mg_advance_entries [OF a hi(1) _ _ _ hi(2)] pop(2) i sets by auto
  let ?k = "slice_of (hi_key hi)"
  have split: "heap_entries (mg_heap mi) = add_mset (?k, src_Value (hi_iter hi)) (heap_entries (mg_heap mi1))"
    using pop(3) adv(5) by (simp add: heap_entries_def hi_list_def)
  have dk: "distinct_keys (heap_entries (mg_heap mi1))" "?k \<notin> fst ` set_mset (heap_entries (mg_heap mi1))"
    using i unfolding split distinct_keys_add by simp_all
  have le: "?k \<le> fst x" if "hi' \<in> set (mg_heap mi)" "x \<in> set (hi_list hi')" for hi' x
  proof -
    have "ascending (hi_list hi')" using i that(1) by blast
    then have "slice_of (hi_key hi') \<le> fst x" using that(2) by (auto simp: ascending_def hi_list_def less_imp_le)
    moreover have "?k \<le> slice_of (hi_key hi')" using pop(4) that(1) by (auto simp: iter_less_def)
    ultimately show ?thesis by (rule order.trans [rotated])
  qed
  have less: "?k < fst x" if x: "x \<in># heap_entries (mg_heap mi1)" for x
  proof -
    have "x \<in># heap_entries (mg_heap mi)" using x split by simp
    then obtain hi' where "hi' \<in> set (mg_heap mi)" "x \<in> set (hi_list hi')" by (auto simp: heap_entries_def)
    then have "?k \<le> fst x" by (rule le)
    moreover have "?k \<noteq> fst x" using dk(2) x by blast
    ultimately show ?thesis by simp
  qed
  have stop: "mg_dedup mi1 = (True, mi1)"
  proof -
    have "slice_of (hi_key (mg_heap mi1 ! 0)) \<noteq> slice_of (mg_key mi1)" if "mg_heap mi1 \<noteq> []"
    proof -
      have "mg_heap mi1 ! 0 \<in> set (mg_heap mi1)" using that by simp
      then have "(slice_of (hi_key (mg_heap mi1 ! 0)), src_Value (hi_iter (mg_heap mi1 ! 0))) \<in># heap_entries (mg_heap mi1)"
        by (auto simp: heap_entries_def hi_list_def)
      from less [OF this] show ?thesis using adv(6) by simp
    qed
    then have "\<not> (mg_heap mi1 \<noteq> [] \<and> slice_of (hi_key (mg_heap mi1 ! 0)) = slice_of (mg_key mi1) \<and>
      hi_ts (mg_heap mi1 ! 0) = mg_ts mi1)" by blast
    then show ?thesis unfolding mg_dedup.simps [of mi1] by (rule if_not_P)
  qed
  have "[] \<notin> fst ` set_mset (heap_entries (mg_heap mi))" using i by blast
  then have k: "?k \<noteq> []" "[] \<notin> fst ` set_mset (heap_entries (mg_heap mi1))" unfolding split by auto
  then obtain k where k': "hi_key hi = Some k" by (cases "hi_key hi") (auto simp: slice_of_def)
  have "mg_Next mi = (True, mi1)" using i ne p a adv(1) stop by (simp add: mg_Next_def)
  moreover have "mg_inv mi1" using adv dk k by (simp add: mg_inv_def)
  ultimately show ?thesis using split less adv(6,7) k' by (intro exI [of _ mi1] exI [of _ k]) (simp add: slice_of_def)
qed

section \<open>Collecting\<close>

definition resolves :: "lsm \<Rightarrow> bytes option \<Rightarrow> bytes \<Rightarrow> bool" where
  "resolves e v w \<longleftrightarrow> (\<forall>mi. mg_value mi = v \<longrightarrow> mg_Value e mi = (Inr (Some w), mi, e))"

lemma heap_entries_Nil: "heap_entries h = {#} \<longleftrightarrow> h = []"
  by (cases h) (auto simp: heap_entries_def hi_list_def)

lemma least_first:
  assumes "mset (y # ys) = add_mset x M" "\<forall>z \<in># M. fst x < fst z" "ascending (y # ys)"
  shows "x = y \<and> mset ys = M"
proof -
  have "x = y"
  proof (rule ccontr)
    assume ne: "x \<noteq> y"
    have "x \<in># mset (y # ys)" unfolding assms(1) by simp
    then have "x \<in> set ys" using ne by auto
    then have "fst y < fst x" using assms(3) by (auto simp: ascending_def)
    moreover have "y \<in># add_mset x M" unfolding assms(1) [symmetric] by simp
    then have "fst x < fst y" using ne assms(2) by auto
    ultimately show False by simp
  qed
  with assms(1) show ?thesis by simp
qed

lemma mv_collect_end: "mv_Next e it = (Inr False, it', e') \<Longrightarrow> mv_collect e it = Inr []"
  by (simp add: mv_collect.simps [of e it])

lemma mv_collect_from:
  assumes "mv_position it = (True, it1)" "\<not> mv_ended it" "mg_inv (mv_inner it1)" "mg_key (mv_inner it1) = Some k"
    and "mset xs = heap_entries (mg_heap (mv_inner it1))" "ascending ((k, mg_value (mv_inner it1)) # xs)"
    and "\<forall>(k, v) \<in> set ((k, mg_value (mv_inner it1)) # xs). resolves e v (res (k, v))"
  shows "mv_collect e it =
    Inr (map (\<lambda>x. (Some (fst x), Some (res x))) ((k, mg_value (mv_inner it1)) # xs))"
  using assms
proof (induction xs arbitrary: it it1 k)
  case Nil
  let ?w = "res (k, mg_value (mv_inner it1))"
  have empty: "mg_heap (mv_inner it1) = []" using Nil.prems(5) heap_entries_Nil by simp
  have pk: "\<not> mv_peeked it1" using mv_position_room [OF Nil.prems(1)] by blast
  have e1: "\<not> mv_ended it1" using Nil.prems(1,2) by (auto simp: mv_position_def split: if_splits prod.splits)
  have v: "mg_Value e (mv_inner it1) = (Inr (Some ?w), mv_inner it1, e)" using Nil.prems(7) by (simp add: resolves_def)
  have "mv_versions e it1 (Some k) (None, False, False) = (Inr (Some ?w, True, False), it1\<lparr>mv_ended := True\<rparr>, e)"
    using empty v by (simp add: mv_versions.simps [of e it1] mv_version_def mg_IsDeleted_def mg_Next_def)
  then have "mv_Next e it = (Inr True, it1\<lparr>mv_ended := True, mv_key := Some k, mv_value := Some ?w\<rparr>, e)"
    using Nil.prems(1,2,4) by (simp add: mv_Next_def mv_loop.simps [of e it])
  then show ?case by (simp add: mv_collect.simps [of e it] mv_collect.simps [of e "it1\<lparr>mv_ended := True, mv_key := m, mv_value := n\<rparr>" for m n] mv_Next_def [of e "it1\<lparr>mv_ended := True, mv_key := m, mv_value := n\<rparr>" for m n])
next
  case (Cons y ys)
  let ?w = "res (k, mg_value (mv_inner it1))"
  have ne: "mg_heap (mv_inner it1) \<noteq> []" using Cons.prems(5) heap_entries_Nil by (metis mset.simps(2) add_mset_not_empty)
  have pk: "\<not> mv_peeked it1" using mv_position_room [OF Cons.prems(1)] by blast
  have e1: "\<not> mv_ended it1" using Cons.prems(1,2) by (auto simp: mv_position_def split: if_splits prod.splits)
  obtain mi' k' where n: "mg_Next (mv_inner it1) = (True, mi')" "mg_inv mi'" "mg_key mi' = Some k'"
    "heap_entries (mg_heap (mv_inner it1)) = add_mset (k', mg_value mi') (heap_entries (mg_heap mi'))"
    "\<forall>x \<in># heap_entries (mg_heap mi'). k' < fst x"
    using mg_Next_entries [OF Cons.prems(3) ne] by (elim exE conjE) (rule that)
  have asc: "ascending (y # ys)" "k < fst y" using Cons.prems(6) by (simp_all add: ascending_def)
  have "mset (y # ys) = add_mset (k', mg_value mi') (heap_entries (mg_heap mi'))" using Cons.prems(5) n(4) by simp
  from least_first [OF this _ asc(1)] n(5) have y: "y = (k', mg_value mi')" "mset ys = heap_entries (mg_heap mi')" by simp_all
  have v: "mg_Value e (mv_inner it1) = (Inr (Some ?w), mv_inner it1, e)" using Cons.prems(7) by (simp add: resolves_def)
  let ?it2 = "it1\<lparr>mv_inner := mi', mv_peeked := True, mv_key := Some k, mv_value := Some ?w\<rparr>"
  have "k' \<noteq> k" using asc(2) y(1) by auto
  then have "mv_versions e it1 (Some k) (None, False, False) =
      (Inr (Some ?w, True, False), it1\<lparr>mv_inner := mi', mv_peeked := True\<rparr>, e)"
    using v n(1,3)
    by (simp add: mv_versions.simps [of e it1] mv_version_def mg_IsDeleted_def slice_of_def Let_def)
  then have nx: "mv_Next e it = (Inr True, ?it2, e)"
    using Cons.prems(1,2,4) by (simp add: mv_Next_def mv_loop.simps [of e it])
  let ?it3 = "?it2\<lparr>mv_peeked := False\<rparr>"
  have "mv_collect e ?it2 = Inr (map (\<lambda>x. (Some (fst x), Some (res x))) ((k', mg_value (mv_inner ?it3)) # ys))"
  proof (rule Cons.IH)
    show "mv_position ?it2 = (True, ?it3)" by (simp add: mv_position_def)
  qed (use e1 n(2,3) y asc Cons.prems(7) in simp_all)
  then show ?case using nx y(1) by (simp add: mv_collect.simps [of e it])
qed

lemma mv_collect_all:
  assumes inv: "mg_inv mi" and xs: "mset xs = heap_entries (mg_heap mi)" "ascending xs"
    and res: "\<forall>(k, v) \<in> set xs. resolves e v (res (k, v))"
  shows "mv_collect e (NewMVCCIterator mi) = Inr (map (\<lambda>x. (Some (fst x), Some (res x))) xs)"
proof (cases xs)
  case Nil
  then have "mg_heap mi = []" using xs(1) heap_entries_Nil by simp
  then have "mv_position (NewMVCCIterator mi) = (False, NewMVCCIterator mi)"
    by (simp add: mv_position_def mg_Next_def NewMVCCIterator_def)
  then have "mv_loop e (NewMVCCIterator mi) = (Inr False, (NewMVCCIterator mi)\<lparr>mv_ended := True\<rparr>, e)"
    by (simp add: mv_loop.simps [of e "NewMVCCIterator mi"])
  moreover have "\<not> mv_ended (NewMVCCIterator mi)" by (simp add: NewMVCCIterator_def)
  ultimately have "mv_Next e (NewMVCCIterator mi) = (Inr False, (NewMVCCIterator mi)\<lparr>mv_ended := True\<rparr>, e)"
    by (simp add: mv_Next_def)
  from mv_collect_end [OF this] show ?thesis using Nil by simp
next
  case (Cons y ys)
  have ne: "mg_heap mi \<noteq> []" using Cons xs(1) heap_entries_Nil by (metis mset.simps(2) add_mset_not_empty)
  obtain mi' k where n: "mg_Next mi = (True, mi')" "mg_inv mi'" "mg_key mi' = Some k"
    "heap_entries (mg_heap mi) = add_mset (k, mg_value mi') (heap_entries (mg_heap mi'))"
    "\<forall>x \<in># heap_entries (mg_heap mi'). k < fst x"
    using mg_Next_entries [OF inv ne] by (elim exE conjE) (rule that)
  have "mset (y # ys) = add_mset (k, mg_value mi') (heap_entries (mg_heap mi'))" using Cons xs(1) n(4) by simp
  from least_first [OF this] n(5) xs(2) Cons have y: "y = (k, mg_value mi')" "mset ys = heap_entries (mg_heap mi')" by simp_all
  let ?it1 = "(NewMVCCIterator mi)\<lparr>mv_inner := mi'\<rparr>"
  have "mv_collect e (NewMVCCIterator mi) =
    Inr (map (\<lambda>x. (Some (fst x), Some (res x))) ((k, mg_value (mv_inner ?it1)) # ys))"
  proof (rule mv_collect_from)
    show "mv_position (NewMVCCIterator mi) = (True, ?it1)" using n(1) by (simp add: mv_position_def NewMVCCIterator_def)
  qed (use n(2,3) y xs(2) res Cons in \<open>simp_all add: NewMVCCIterator_def\<close>)
  then show ?thesis using Cons y(1) by simp
qed

section \<open>Building the merge\<close>

lemma add_sources_entries:
  assumes "\<forall>s \<in> set ss. src_good s \<and> ascending (src_list s)"
    and "mg_err mi = None" "\<forall>hi \<in> set (mg_heap mi). src_good (hi_iter hi) \<and> ascending (hi_list hi)"
  shows "\<exists>mi'. add_sources ss mi = Inr mi' \<and> mg_err mi' = None \<and>
    (\<forall>hi \<in> set (mg_heap mi'). src_good (hi_iter hi) \<and> ascending (hi_list hi)) \<and>
    heap_entries (mg_heap mi') = heap_entries (mg_heap mi) + mset (concat (map src_list ss))"
  using assms
proof (induction ss arbitrary: mi)
  case (Cons s ss)
  obtain ok s' where n: "src_Next s = (ok, s')" by (metis surj_pair)
  have good: "src_good s" "ascending (src_list s)" using Cons.prems(1) by simp_all
  note g = src_good_Next [OF good(1) n] and l = src_list_Next [OF n]
  show ?case
  proof (cases ok)
    case True
    let ?hi = "\<lparr>hi_iter = s', hi_key = src_Key s', hi_ts = iterTimestamp s'\<rparr>"
    let ?mi = "mi\<lparr>mg_heap := mg_heap mi @ [?hi]\<rparr>"
    have hl: "hi_list ?hi = src_list s" using l True by (simp add: hi_list_def)
    have a: "addSource s mi = Inr ?mi" using n True by (simp add: addSource_def)
    have all: "\<forall>hi \<in> set (mg_heap ?mi). src_good (hi_iter hi) \<and> ascending (hi_list hi)"
      using Cons.prems(3) g hl good(2) by simp
    obtain mi' where "add_sources ss ?mi = Inr mi'" "mg_err mi' = None"
      "\<forall>hi \<in> set (mg_heap mi'). src_good (hi_iter hi) \<and> ascending (hi_list hi)"
      "heap_entries (mg_heap mi') = heap_entries (mg_heap ?mi) + mset (concat (map src_list ss))"
      using Cons.IH [of ?mi] Cons.prems(1,2) all by (auto simp del: mset_concat)
    moreover have "heap_entries (mg_heap ?mi) = heap_entries (mg_heap mi) + mset (src_list s)"
      using hl by (simp add: heap_entries_def)
    ultimately show ?thesis using a by (intro exI [of _ mi']) (simp add: ac_simps)
  next
    case False
    have "\<exists>x. src_Close s' = Inr x" using g by (cases s') (auto simp: src_good_def ti_Close_def)
    then have a: "addSource s mi = Inr mi" using n False g by (auto simp: addSource_def)
    have "src_list s = []" using l False by simp
    then show ?thesis using a Cons.IH [of mi] Cons.prems by simp
  qed
qed simp

lemma merge_ready:
  assumes ss: "\<forall>s \<in> set (map (\<lambda>m. MemSource (newMemtableIter m prefix)) ms @ map (\<lambda>t. TableSource (newSSTableIter t prefix)) (concat levels)).
      src_good s \<and> ascending (src_list s)"
    and all: "all = concat (map src_list (map (\<lambda>m. MemSource (newMemtableIter m prefix)) ms @
      map (\<lambda>t. TableSource (newSSTableIter t prefix)) (concat levels)))"
    and dist: "distinct (map fst all)" "[] \<notin> fst ` set all"
  shows "\<exists>mi. NewMergeIteratorWithSnapshot prefix ms levels = Inr mi \<and> mg_inv mi \<and> heap_entries (mg_heap mi) = mset all"
proof -
  let ?ss = "map (\<lambda>m. MemSource (newMemtableIter m prefix)) ms @ map (\<lambda>t. TableSource (newSSTableIter t prefix)) (concat levels)"
  let ?mi = "\<lparr>mg_heap = [], mg_err = None, mg_key = None, mg_ts = 0, mg_value = None, mg_views = []\<rparr> :: merge_iter"
  have "mg_err ?mi = None" "\<forall>hi \<in> set (mg_heap ?mi). src_good (hi_iter hi) \<and> ascending (hi_list hi)" by simp_all
  from add_sources_entries [OF ss this] obtain mi where mi: "add_sources ?ss ?mi = Inr mi" "mg_err mi = None"
    "\<forall>hi \<in> set (mg_heap mi). src_good (hi_iter hi) \<and> ascending (hi_list hi)"
    "heap_entries (mg_heap mi) = heap_entries (mg_heap ?mi) + mset (concat (map src_list ?ss))"
    by (elim exE conjE) (rule that)
  have ent: "heap_entries (mg_heap mi) = mset all" unfolding mi(4) all by (simp add: heap_entries_def)
  note init = iter_heap.Init_ok [of "mg_heap mi"]
  have he: "heap_entries (heap_Init iter_less (mg_heap mi)) = mset all" using ent init by (simp add: heap_entries_def)
  have "set (heap_Init iter_less (mg_heap mi)) = set (mg_heap mi)" using init by (metis set_mset_mset)
  then have "mg_inv (mi\<lparr>mg_heap := heap_Init iter_less (mg_heap mi)\<rparr>)"
    using mi(2,3) init dist by (simp add: mg_inv_def he distinct_keys_mset)
  then show ?thesis using mi(1) he by (simp add: NewMergeIteratorWithSnapshot_def)
qed

end
