(* ===== verification/EngineScan.thy ===== *)
theory EngineScan
  imports ScanProofs
begin

text \<open>
  What \<open>Scan\<close> lists over an engine without tables, whose memtables and buffer track a history: the
  keys of the history with the prefix, in order, each with its newest value that is not a
  deletion. Deletions are not seen, since the iterator of a skip list skips them.
\<close>

section \<open>The specification\<close>

text \<open>The history without its deletions.\<close>

definition live_part :: "history \<Rightarrow> history" where
  "live_part h = filter (\<lambda>(k, t, v). v \<noteq> None) h"

definition scan_keys :: "history \<Rightarrow> bytes \<Rightarrow> bytes list" where
  "scan_keys h prefix = sort (remdups (filter (\<lambda>k. HasPrefix k prefix) (map fst (live_part h))))"

definition scan_spec :: "history \<Rightarrow> bytes \<Rightarrow> u64 \<Rightarrow> (bytes option \<times> bytes option) list" where
  "scan_spec h prefix s = map (\<lambda>k. (Some k, h_read (live_part h) k s)) (scan_keys h prefix)"

lemma live_part_sorted: "h_sorted h \<Longrightarrow> h_sorted (live_part h)"
  unfolding h_sorted_def live_part_def by (rule sorted_wrt_filter)

lemma live_part_iff: "(k, t, v) \<in> set (live_part h) \<longleftrightarrow> (k, t, v) \<in> set h \<and> v \<noteq> None"
  by (auto simp: live_part_def)

section \<open>Memtables of an engine\<close>

lemma mem_by_key: "mem_inv m \<Longrightarrow> by_key m"
  unfolding mem_inv_def by_key_def sorted_wrt_map
  by (erule sorted_wrt_mono_rel [rotated]) (auto simp: group_key_def mvcc_less_iff less_imp_le)

lemma new_mi [simp]:
  "mi_good (newMemtableIter m p)" "mi_ahead (newMemtableIter m p) = mem_live m" "mi_prefix (newMemtableIter m p) = p"
  by (simp_all add: newMemtableIter_def mi_good_def mi_ahead_def mem_it_New_def)

lemma mem_list:
  fixes p :: bytes
  assumes "mem_inv m"
  defines "L \<equiv> src_list (MemSource (newMemtableIter m p))"
  shows "ascending L"
    and "fst ` set L = {k. HasPrefix k p \<and> (\<exists>x \<in> set (mem_live m). group_key x = k)}"
    and "(k, v) \<in> set L \<Longrightarrow> v = live_value (snd (last (filter (\<lambda>x. group_key x = k) (mem_live m))))"
proof -
  let ?xs = "filter (\<lambda>x. HasPrefix (group_key x) p) (mem_live m)"
  have b: "by_key (mem_live m)" unfolding mem_live_def by (intro mem_by_key mem_inv_filter assms(1))
  have b': "by_key ?xs" unfolding mem_live_def filter_filter by (intro mem_by_key mem_inv_filter assms(1))
  have L: "L = group_runs ?xs" unfolding L_def using mem_src_list [of "newMemtableIter m p"] b by simp
  note runs = group_runs_keys [OF b', folded L]
  show "ascending L" using runs by (simp add: ascending_def)
  show keys: "fst ` set L = {k. HasPrefix k p \<and> (\<exists>x \<in> set (mem_live m). group_key x = k)}" using runs by auto
  assume kv: "(k, v) \<in> set L"
  then have p: "HasPrefix k p" using keys by force
  have "filter (\<lambda>x. group_key x = k) ?xs = filter (\<lambda>x. group_key x = k) (mem_live m)"
    unfolding filter_filter by (rule filter_cong) (use p in auto)
  with group_runs_value [OF b'] kv show "v = live_value (snd (last (filter (\<lambda>x. group_key x = k) (mem_live m))))"
    unfolding L by metis
qed

section \<open>Stored values\<close>

lemma resolves_stored:
  assumes "um_rep (e_unified e) E" "length (um_data (e_unified e)) < 2 ^ 63" "stored_as E ver (Some w)"
  shows "resolves e (live_value ver) w"
  using assms(3) unfolding stored_as_def
proof (elim disjE exE conjE)
  assume "ver = stored_version (Some w)"
  then show ?thesis
    by (simp add: resolves_def stored_version_def live_value_def mg_Value_def IsValidValueTag_def value_tags)
next
  fix off ent
  assume ent: "(off, ent) \<in> E" "um_fits ent" "we_Value ent \<noteq> []" "Some w = Some (we_Value ent)"
    and ver: "ver = Live (Some (TypeValuePointer # EncodeValuePointer
          \<lparr>vp_Offset = word_of_nat (off + 16 + length (we_Key ent)), vp_Size = word_of_nat (length (we_Value ent))\<rparr>))"
  let ?o = "off + 16 + length (we_Key ent)" and ?v = "length (we_Value ent)"
  let ?vp = "\<lparr>vp_Offset = word_of_nat ?o, vp_Size = word_of_nat ?v\<rparr> :: value_pointer"
  note p = pointer_facts [OF assms(1,2) ent(1-3)]
  have w: "w = we_Value ent" using ent(4) by simp
  show ?thesis
    unfolding resolves_def
  proof (intro allI impI)
    fix mi :: merge_iter assume "mg_value mi = live_value ver"
    then have mv: "mg_value mi = Some (TypeValuePointer # EncodeValuePointer ?vp)" by (simp add: ver live_value_def)
    show "mg_Value e mi = (Inr (Some w), mi, e)"
      by (simp only: mg_Value_def mv w option.case list.case Let_def pointer_tag if_True if_False prod.case
          Decode_Encode_vp p sum.case simp_thms)
  qed
qed

section \<open>The scan\<close>

lemma distinct_routed:
  assumes "\<forall>i < n. distinct (f i) \<and> (\<forall>x \<in> set (f i). r x = i)"
  shows "distinct (concat (map f [0..<n]))"
  using assms
proof (induction n)
  case (Suc n)
  have "r x = a" "r x = n" if "x \<in> set (f n)" "a < n" "x \<in> set (f a)" for x a using Suc.prems that by simp_all
  then have "set (concat (map f [0..<n])) \<inter> set (f n) = {}" by fastforce
  with Suc show ?case by simp
qed simp

lemma tracks_shard:
  assumes "tracks E h e" "i < length (e_shards e)"
  shows "mem_inv (sh_mem (e_shards e ! i))"
    and "(k, ver) \<in> set (sh_mem (e_shards e ! i)) \<Longrightarrow> e_shardIndex e (mk_key k) = i \<and> (\<exists>v. (mk_key k, CommitTS k, v) \<in> set h)"
proof -
  show "mem_inv (sh_mem (e_shards e ! i))" using assms by (simp add: tracks_def logs_ok_def)
  assume k: "(k, ver) \<in> set (sh_mem (e_shards e ! i))"
  have "\<forall>s \<in> set (e_shards e). \<forall>(k, ver) \<in> set (sh_mem s). \<exists>v. (mk_key k, CommitTS k, v) \<in> set h"
    using assms(1) unfolding tracks_def by blast
  then have "\<exists>v. (mk_key k, CommitTS k, v) \<in> set h" using k nth_mem [OF assms(2)] by fast
  moreover have "e_shardIndex e (mk_key k) = i" using assms k by (fastforce simp: tracks_def routed_def)
  ultimately show "e_shardIndex e (mk_key k) = i \<and> (\<exists>v. (mk_key k, CommitTS k, v) \<in> set h)" by simp
qed

text \<open>The live versions of the memtables are the live part of the history.\<close>

lemma live_version:
  assumes tr: "tracks E h e" and small: "length (um_data (e_unified e)) < 2 ^ 63" and i: "i < length (e_shards e)"
  shows "(k, ver) \<in> set (mem_live (sh_mem (e_shards e ! i))) \<Longrightarrow>
      \<exists>w. (mk_key k, CommitTS k, Some w) \<in> set (live_part h) \<and> stored_as E ver (Some w)"
    and "(key, t, Some w) \<in> set (live_part h) \<Longrightarrow> e_shardIndex e key = i \<Longrightarrow>
      \<exists>ver. (NewMVCCKey key t, ver) \<in> set (mem_live (sh_mem (e_shards e ! i))) \<and> stored_as E ver (Some w)"
proof -
  let ?m = "sh_mem (e_shards e ! i)"
  have um: "um_rep (e_unified e) E" using tr by (simp add: tracks_def)
  have fwd: "(key, t, v) \<in> set h \<Longrightarrow> e_shardIndex e key = i \<Longrightarrow>
      \<exists>ver. (NewMVCCKey key t, ver) \<in> set ?m \<and> stored_as E ver v" for key t v
    using tr unfolding tracks_def by (fastforce simp: e_shard_def)
  {
    assume "(k, ver) \<in> set (mem_live ?m)"
    then have k: "(k, ver) \<in> set ?m" "ver \<noteq> Tomb" by (simp_all add: mem_live_def)
    from tracks_shard(2) [OF tr i k(1)] obtain v where v: "(mk_key k, CommitTS k, v) \<in> set h" "e_shardIndex e (mk_key k) = i"
      by blast
    from fwd [OF this] obtain ver' where ver': "(k, ver') \<in> set ?m" "stored_as E ver' v" unfolding New_Commit by blast
    then have "ver' = ver" using mem_inv_unique [OF tracks_shard(1) [OF tr i] _ k(1)] by blast
    then have "stored_as E ver v" using ver'(2) by simp
    moreover from decode_stored_as [OF um small this] k(2) obtain w where "v = Some w" by (cases v) auto
    ultimately show "\<exists>w. (mk_key k, CommitTS k, Some w) \<in> set (live_part h) \<and> stored_as E ver (Some w)"
      using v(1) by (auto simp: live_part_iff)
  }
  assume kt: "(key, t, Some w) \<in> set (live_part h)" "e_shardIndex e key = i"
  then have "(key, t, Some w) \<in> set h" by (simp add: live_part_iff)
  from fwd [OF this kt(2)] obtain ver where ver: "(NewMVCCKey key t, ver) \<in> set ?m" "stored_as E ver (Some w)" by blast
  from decode_stored_as [OF um small ver(2)] have "ver \<noteq> Tomb" by auto
  then show "\<exists>ver. (NewMVCCKey key t, ver) \<in> set (mem_live ?m) \<and> stored_as E ver (Some w)"
    using ver by (auto simp: mem_live_def)
qed

text \<open>The last live version of a key in its memtable is what the live part reads.\<close>

lemma last_live:
  assumes tr: "tracks E h e" and small: "length (um_data (e_unified e)) < 2 ^ 63" and i: "i < length (e_shards e)"
    and x: "x \<in> set (mem_live (sh_mem (e_shards e ! i)))" "group_key x = key"
  shows "\<exists>w. h_read (live_part h) key (e_LastTS e) = Some w \<and>
    resolves e (live_value (snd (last (filter (\<lambda>x. group_key x = key) (mem_live (sh_mem (e_shards e ! i))))))) w"
proof -
  let ?m = "mem_live (sh_mem (e_shards e ! i))" and ?s = "e_LastTS e"
  have um: "um_rep (e_unified e) E" and hs: "h_sorted (live_part h)" using tr live_part_sorted by (simp_all add: tracks_def)
  have old: "(k, t, v) \<in> set h \<Longrightarrow> t \<le> ?s" for k t v using tr unfolding tracks_def by blast
  obtain k0 ver0 where x0: "x = (k0, ver0)" "mk_key k0 = key" using x(2) by (cases x) (auto simp: group_key_def)
  from live_version(1) [OF tr small i x(1) [unfolded x0(1)]] x0(2) obtain w0 where
    w0: "(key, CommitTS k0, Some w0) \<in> set (live_part h)" by blast
  then have "CommitTS k0 \<le> ?s" using old by (auto simp: live_part_iff simp del: CommitTS_le_iff)
  from h_read_cases [OF hs, of key ?s] w0 this obtain t v where
    v: "(key, t, v) \<in> set (live_part h)" "t \<le> ?s" "h_read (live_part h) key ?s = v"
      "\<forall>t' v'. (key, t', v') \<in> set (live_part h) \<longrightarrow> t' \<le> ?s \<longrightarrow> t' \<le> t"
    by (metis not_le)
  then obtain w where w: "v = Some w" by (auto simp: live_part_iff)
  have ix: "e_shardIndex e key = i"
    using tracks_shard(2) [OF tr i, of k0 ver0] x x0 by (auto simp: mem_live_def)
  from live_version(2) [OF tr small i v(1) [unfolded w] ix] obtain ver where
    ver: "(NewMVCCKey key t, ver) \<in> set ?m" "stored_as E ver (Some w)" by blast
  have inv: "mem_inv ?m" unfolding mem_live_def by (rule mem_inv_filter [OF tracks_shard(1) [OF tr i]])
  have "mem_version key ?s ?m = Some ver"
  proof (rule mem_visible_last [OF inv ver(1)])
    fix k' v' assume k': "(k', v') \<in> set ?m" "mk_key k' = key" "CommitTS k' \<le> ?s"
    from live_version(1) [OF tr small i k'(1)] k'(2,3) v(4) show "CommitTS k' \<le> CommitTS (NewMVCCKey key t)"
      unfolding CommitTS_New by blast
  qed (use v(2) in simp_all)
  moreover have "mem_visible key ?s ?m = filter (\<lambda>x. group_key x = key) ?m"
  proof -
    have "CommitTS (fst y) \<le> ?s" if "y \<in> set ?m" for y
      using live_version(1) [OF tr small i, of "fst y" "snd y"] that old by (auto simp: live_part_iff simp del: CommitTS_le_iff)
    then show ?thesis unfolding mem_visible_def mem_chain_def filter_filter group_key_def by (intro filter_cong) auto
  qed
  ultimately have "snd (last (filter (\<lambda>x. group_key x = key) ?m)) = ver"
    by (simp add: mem_version_def split: list.splits)
  with resolves_stored [OF um small ver(2)] v(3) w show ?thesis by simp
qed

lemma scan_keys_set: "set (scan_keys h p) = {k. HasPrefix k p \<and> k \<in> fst ` set (live_part h)}"
  by (auto simp: scan_keys_def)

text \<open>The sources of a scan are the memtables of the shards; \<open>shard_list e p i\<close> is what the one of shard \<open>i\<close> gives.\<close>

definition shard_list :: "lsm \<Rightarrow> bytes \<Rightarrow> nat \<Rightarrow> (bytes \<times> bytes option) list" where
  "shard_list e p i = src_list (MemSource (newMemtableIter (sh_mem (e_shards e ! i)) p))"

lemma tracks_sources:
  assumes tr: "tracks E h e"
  shows "map (\<lambda>m. MemSource (newMemtableIter m p)) (mt_list e) @
      map (\<lambda>t. TableSource (newSSTableIter t p)) (concat (e_levels e)) =
    map (\<lambda>i. MemSource (newMemtableIter (sh_mem (e_shards e ! i)) p)) [0..<length (e_shards e)]"
proof -
  have lv: "concat (e_levels e) = []" using tr by (simp add: tracks_def)
  have "\<forall>s \<in> set (e_shards e). sh_frozen s = None" using tr by (simp add: tracks_def unfrozen_def)
  then have "map (\<lambda>s. sh_mem s # (case sh_frozen s of None \<Rightarrow> [] | Some m \<Rightarrow> [m])) (e_shards e) = map (\<lambda>s. [sh_mem s]) (e_shards e)"
    by (intro map_cong) auto
  then have "mt_list e = concat (map (\<lambda>s. [sh_mem s]) (e_shards e))" unfolding mt_list_def by (rule arg_cong)
  also have "\<dots> = map sh_mem (e_shards e)" by (rule concat_map_singleton)
  also have "\<dots> = map (\<lambda>i. sh_mem (e_shards e ! i)) [0..<length (e_shards e)]" by (rule nth_equalityI) simp_all
  finally show ?thesis by (simp add: lv)
qed

lemma shard_list_entry:
  assumes tr: "tracks E h e" and small: "length (um_data (e_unified e)) < 2 ^ 63"
    and i: "i < length (e_shards e)" and kv: "(k, v) \<in> set (shard_list e p i)"
  shows "\<exists>w. h_read (live_part h) k (e_LastTS e) = Some w \<and> resolves e v w" "e_shardIndex e k = i" "k \<in> set (scan_keys h p)"
proof -
  let ?m = "sh_mem (e_shards e ! i)"
  note ml = mem_list [OF tracks_shard(1) [OF tr i]]
  have "k \<in> fst ` set (shard_list e p i)" using kv by force
  then obtain x where x: "HasPrefix k p" "x \<in> set (mem_live ?m)" "group_key x = k" using ml(2) by (auto simp: shard_list_def)
  show "\<exists>w. h_read (live_part h) k (e_LastTS e) = Some w \<and> resolves e v w"
    using last_live [OF tr small i x(2,3)] ml(3) [OF kv [unfolded shard_list_def]] by simp
  obtain k' ver where x': "x = (k', ver)" "mk_key k' = k" using x(3) by (cases x) (auto simp: group_key_def)
  show "e_shardIndex e k = i" using tracks_shard(2) [OF tr i, of k' ver] x(2) x' by (auto simp: mem_live_def)
  from live_version(1) [OF tr small i x(2) [unfolded x'(1)]] x' show "k \<in> set (scan_keys h p)"
    unfolding scan_keys_set using x(1) by force
qed

lemma shard_lists_distinct:
  assumes tr: "tracks E h e" and small: "length (um_data (e_unified e)) < 2 ^ 63"
  shows "distinct (map fst (concat (map (shard_list e p) [0..<length (e_shards e)])))"
proof -
  let ?n = "length (e_shards e)"
  have all: "map fst (concat (map (shard_list e p) [0..<?n])) = concat (map (\<lambda>i. map fst (shard_list e p i)) [0..<?n])"
    by (simp add: map_concat comp_def)
  have "distinct (map fst (shard_list e p i)) \<and> (\<forall>k \<in> set (map fst (shard_list e p i)). e_shardIndex e k = i)" if "i < ?n" for i
    using mem_list(1) [OF tracks_shard(1) [OF tr that], of p] shard_list_entry(2) [OF tr small that]
    by (auto simp: ascending_def sorted_wrt_less_distinct shard_list_def)
  then have "\<forall>i < ?n. distinct (map fst (shard_list e p i)) \<and> (\<forall>k \<in> set (map fst (shard_list e p i)). e_shardIndex e k = i)" by blast
  from distinct_routed [OF this] show ?thesis unfolding all .
qed

lemma shard_lists_keys:
  assumes tr: "tracks E h e" and small: "length (um_data (e_unified e)) < 2 ^ 63"
  shows "fst ` set (concat (map (shard_list e p) [0..<length (e_shards e)])) = set (scan_keys h p)"
proof (intro equalityI subsetI)
  fix k assume "k \<in> fst ` set (concat (map (shard_list e p) [0..<length (e_shards e)]))"
  then obtain i v where "i < length (e_shards e)" "(k, v) \<in> set (shard_list e p i)" by auto
  then show "k \<in> set (scan_keys h p)" by (rule shard_list_entry(3) [OF tr small])
next
  fix k assume "k \<in> set (scan_keys h p)"
  then obtain t v where k: "HasPrefix k p" "(k, t, v) \<in> set (live_part h)" unfolding scan_keys_set by auto
  then obtain w where w: "v = Some w" by (auto simp: live_part_iff)
  have "sized e" using tr by (simp add: tracks_def)
  then have i: "e_shardIndex e k < length (e_shards e)" by (rule index_less)
  from live_version(2) [OF tr small i k(2) [unfolded w] refl] obtain ver where
    "(NewMVCCKey k t, ver) \<in> set (mem_live (sh_mem (e_shards e ! e_shardIndex e k)))" by blast
  then have "\<exists>x \<in> set (mem_live (sh_mem (e_shards e ! e_shardIndex e k))). group_key x = k" by (force simp: group_key_def)
  then have "k \<in> fst ` set (shard_list e p (e_shardIndex e k))"
    using k(1) mem_list(2) [OF tracks_shard(1) [OF tr i], of p] by (simp add: shard_list_def)
  moreover have "set (shard_list e p (e_shardIndex e k)) \<subseteq> set (concat (map (shard_list e p) [0..<length (e_shards e)]))" using i by auto
  ultimately show "k \<in> fst ` set (concat (map (shard_list e p) [0..<length (e_shards e)]))" by blast
qed

lemma tracks_scan:
  assumes tr: "tracks E h e" and small: "length (um_data (e_unified e)) < 2 ^ 63"
  shows "scan_all e p = Inr (scan_spec h p (e_LastTS e))"
proof -
  let ?n = "length (e_shards e)" and ?s = "e_LastTS e"
  let ?all = "concat (map (shard_list e p) [0..<?n])"
  note src = tracks_sources [OF tr, of p]
  note dist = shard_lists_distinct [OF tr small, of p] and keys = shard_lists_keys [OF tr small, of p]
  have entry: "\<exists>w. h_read (live_part h) k ?s = Some w \<and> resolves e v w" if "i < ?n" "(k, v) \<in> set (shard_list e p i)" for i k v
    using shard_list_entry(1) [OF tr small that] .
  have ne: "[] \<notin> fst ` set ?all"
  proof
    assume "[] \<in> fst ` set ?all"
    then obtain t v where "([], t, v) \<in> set h" unfolding keys scan_keys_set by (auto simp: live_part_iff)
    then show False using tr by (auto simp: tracks_def)
  qed
  let ?src = "map (\<lambda>i. MemSource (newMemtableIter (sh_mem (e_shards e ! i)) p)) [0..<?n]"
  have "\<forall>s \<in> set ?src. src_good s \<and> ascending (src_list s)"
    using mem_list(1) [OF tracks_shard(1) [OF tr]] by (auto simp: src_good_def)
  moreover have "?all = concat (map src_list ?src)" by (simp add: comp_def shard_list_def [abs_def])
  ultimately obtain mi where mi: "NewMergeIteratorWithSnapshot p (mt_list e) (e_levels e) = Inr mi" "mg_inv mi"
    "heap_entries (mg_heap mi) = mset ?all"
    using merge_ready dist ne unfolding src [symmetric] by blast
  define xs where "xs = sort_key fst ?all"
  have xs: "mset xs = heap_entries (mg_heap mi)" "sorted (map fst xs)" "distinct (map fst xs)" "set xs = set ?all"
    using mi(3) dist by (simp_all add: xs_def distinct_map)
  have names: "map fst xs = scan_keys h p"
    by (rule sorted_distinct_set_unique) (use xs keys in \<open>simp_all add: scan_keys_def\<close>)
  define res where "res = (\<lambda>x :: bytes \<times> bytes option. the (h_read (live_part h) (fst x) ?s))"
  have ent: "h_read (live_part h) k ?s = Some (res (k, v)) \<and> resolves e v (res (k, v))" if "(k, v) \<in> set xs" for k v
    using that entry unfolding xs(4) res_def by fastforce
  have out: "map (\<lambda>x. (Some (fst x), Some (res x))) xs = scan_spec h p ?s"
  proof -
    have "map (\<lambda>x. (Some (fst x), Some (res x))) xs = map (\<lambda>k. (Some k, h_read (live_part h) k ?s)) (map fst xs)"
      using ent by (auto simp: split_beta)
    then show ?thesis by (simp only: names scan_spec_def)
  qed
  show ?thesis
  proof (cases "mg_heap mi = []")
    case True
    then have "xs = []" using xs(1) by (simp add: heap_entries_def)
    moreover have "mg_err mi = None" using mi(2) by (simp add: mg_inv_def)
    ultimately show ?thesis using True mi(1) out by (simp add: scan_all_def e_Scan_def)
  next
    case False
    have "ascending xs" using xs(2,3) by (simp add: ascending_def strict_sorted_iff)
    moreover have "\<forall>(k, v) \<in> set xs. resolves e v (res (k, v))" using ent by blast
    ultimately have "mv_collect e (NewMVCCIterator mi) = Inr (scan_spec h p ?s)"
      using mv_collect_all [OF mi(2) xs(1)] out by simp
    then show ?thesis using False mi(1) by (simp add: scan_all_def e_Scan_def)
  qed
qed

end
