(* ===== verification/DbScan.thy ===== *)
theory DbScan
  imports EngineScan
begin

text \<open>
  Scans of the public interface: the error iterator and the wrapper of \<^verbatim>\<open>pkg/scoria/scoriadb.go\<close>
  around the engine's iterator, the loop of a client, and what a scan lists after a run of
  operations: the map of the puts, in key order, where deletions are not seen.
\<close>

section \<open>The iterators of the interface\<close>

fun scan_Next :: "lsm \<Rightarrow> scan_iter \<Rightarrow> (it_error + bool) \<times> scan_iter \<times> lsm" where
  "scan_Next e EmptyIter = (Inr False, EmptyIter, e)"
| "scan_Next e (MvccIter it) = (let (r, it, e) = mv_Next e it in (r, MvccIter it, e))"

fun scan_Key :: "scan_iter \<Rightarrow> bytes option" where
  "scan_Key EmptyIter = None"
| "scan_Key (MvccIter it) = mv_key it"

fun scan_Value :: "scan_iter \<Rightarrow> bytes option" where
  "scan_Value EmptyIter = None"
| "scan_Value (MvccIter it) = mv_value it"

fun scan_Err :: "scan_iter \<Rightarrow> it_error option" where
  "scan_Err EmptyIter = None"
| "scan_Err (MvccIter it) = mv_Err it"

record scoria_iter =
  sm_inner :: scan_iter
  sm_err :: "it_error option"

datatype db_iter = ErrorIterator cf_error | ScoriaMergeIter scoria_iter

definition sm_Next :: "lsm \<Rightarrow> scoria_iter \<Rightarrow> (it_error + bool) \<times> scoria_iter \<times> lsm" where
  "sm_Next e it =
     (if sm_err it \<noteq> None then (Inr False, it, e)
      else
        let (r, inner, e) = scan_Next e (sm_inner it); it = it\<lparr>sm_inner := inner\<rparr> in
        case r of
          Inl err \<Rightarrow> (Inl err, it, e)
        | Inr ok \<Rightarrow>
            if \<not> ok then (Inr False, (case scan_Err inner of Some err \<Rightarrow> it\<lparr>sm_err := Some err\<rparr> | None \<Rightarrow> it), e)
            else (Inr True, it, e))"

definition db_ScanCF :: "string \<Rightarrow> bytes \<Rightarrow> registry \<Rightarrow> it_error + db_iter" where
  "db_ScanCF cf prefix r =
     (case reg_GetCF cf r of
        Inl err \<Rightarrow> Inr (ErrorIterator err)
      | Inr e \<Rightarrow>
          (case e_Scan e prefix of
             Inl err \<Rightarrow> Inl err
           | Inr inner \<Rightarrow> Inr (ScoriaMergeIter \<lparr>sm_inner = inner, sm_err = None\<rparr>)))"

definition db_Scan :: "bytes \<Rightarrow> registry \<Rightarrow> it_error + db_iter" where
  "db_Scan prefix r = db_ScanCF ''default'' prefix r"

section \<open>The loop of a client\<close>

fun scan_room :: "scan_iter \<Rightarrow> nat" where
  "scan_room EmptyIter = 0"
| "scan_room (MvccIter it) = mv_room it"

lemma sm_Next_less: "sm_Next e it = (Inr True, it', e') \<Longrightarrow> scan_room (sm_inner it') < scan_room (sm_inner it)"
  by (cases "sm_inner it")
    (auto simp: sm_Next_def Let_def dest: mv_Next_less split: if_splits option.splits sum.splits prod.splits)

text \<open>\<open>for it.Next() { use it.Key(), it.Value() }\<close>: the pairs the client sees, and the error behind.\<close>

function sm_collect :: "lsm \<Rightarrow> scoria_iter \<Rightarrow> it_error + (bytes option \<times> bytes option) list \<times> it_error option" where
  "sm_collect e it =
     (let (r, it1, e1) = sm_Next e it in
      case r of
        Inl err \<Rightarrow> Inl err
      | Inr ok \<Rightarrow>
          if \<not> ok then Inr ([], sm_err it1)
          else
            case sm_collect e1 it1 of
              Inl err \<Rightarrow> Inl err
            | Inr (kvs, err) \<Rightarrow> Inr ((scan_Key (sm_inner it1), scan_Value (sm_inner it1)) # kvs, err))"
  by pat_completeness auto
termination
proof (relation "measure (\<lambda>(e, it). scan_room (sm_inner it))", goal_cases)
  case (2 e it x r y it1 e1 ok)
  then have "sm_Next e it = (Inr True, it1, e1)" by simp
  from sm_Next_less [OF this] show ?case by simp
qed simp

declare sm_collect.simps [simp del]

definition db_scan_list ::
    "string \<Rightarrow> bytes \<Rightarrow> registry \<Rightarrow> it_error + (bytes option \<times> bytes option) list \<times> (cf_error + it_error) option" where
  "db_scan_list cf prefix r =
     (case db_ScanCF cf prefix r of
        Inl err \<Rightarrow> Inl err
      | Inr (ErrorIterator err) \<Rightarrow> Inr ([], Some (Inl err))
      | Inr (ScoriaMergeIter it) \<Rightarrow>
          (case cf_lookup cf r of
             None \<Rightarrow> Inr ([], None)
           | Some e \<Rightarrow>
               (case sm_collect e it of Inl err \<Rightarrow> Inl err | Inr (kvs, err) \<Rightarrow> Inr (kvs, map_option Inr err))))"

lemma sm_collect_mvcc:
  "sm_collect e \<lparr>sm_inner = MvccIter it, sm_err = None\<rparr> =
     (case mv_collect e it of Inl err \<Rightarrow> Inl err | Inr kvs \<Rightarrow> Inr (kvs, None))"
proof (induction e it rule: mv_collect.induct)
  case (1 e it)
  obtain r it1 e1 where n: "mv_Next e it = (r, it1, e1)" by (metis surj_pair)
  then show ?case
  proof (cases r)
    case (Inr ok)
    have s: "sm_Next e \<lparr>sm_inner = MvccIter it, sm_err = None\<rparr> = (Inr ok, \<lparr>sm_inner = MvccIter it1, sm_err = None\<rparr>, e1)"
      using n Inr by (simp add: sm_Next_def mv_Err_def Let_def)
    show ?thesis
    proof (cases ok)
      case True
      with 1 [OF n [symmetric] refl] Inr s n show ?thesis
        by (simp add: sm_collect.simps [of e] mv_collect.simps [of e it] split: sum.split)
    next
      case False
      with s n Inr show ?thesis by (simp add: sm_collect.simps [of e] mv_collect.simps [of e it])
    qed
  next
    case (Inl err)
    with n show ?thesis by (simp add: sm_collect.simps [of e] mv_collect.simps [of e it] sm_Next_def)
  qed
qed

lemma sm_collect_scan:
  "sm_collect e \<lparr>sm_inner = it, sm_err = None\<rparr> =
     (case scan_collect e it of Inl err \<Rightarrow> Inl err | Inr kvs \<Rightarrow> Inr (kvs, None))"
  by (cases it) (simp_all add: sm_collect_mvcc sm_collect.simps [of e "\<lparr>sm_inner = EmptyIter, sm_err = None\<rparr>"] sm_Next_def)

lemma db_scan_engine:
  "cf_lookup cf r = Some e \<Longrightarrow> scan_all e p = Inr kvs \<Longrightarrow> db_scan_list cf p r = Inr (kvs, None)"
  by (auto simp: db_scan_list_def db_ScanCF_def reg_GetCF_def scan_all_def sm_collect_scan split: sum.splits)

section \<open>The map of the puts\<close>

fun put_do :: "db_op \<Rightarrow> (bytes \<Rightarrow> bytes option) \<Rightarrow> bytes \<Rightarrow> bytes option" where
  "put_do (DPut cf k v) m = m(k := Some v)"
| "put_do (DDelete cf k) m = m"
| "put_do (DBatch cf b) m =
     fold (\<lambda>op m. case bo_Value op of None \<Rightarrow> m | Some v \<Rightarrow> m(bo_Key op := Some v)) (wb_ops b) m"

definition put_spec :: "db_op list \<Rightarrow> string \<Rightarrow> bytes \<Rightarrow> bytes option" where
  "put_spec ops cf = fold put_do (filter (\<lambda>op. op_cf op = cf) ops) Map.empty"

lemma live_snoc: "live_part (h @ [(k, t, v)]) = live_part h @ (if v = None then [] else [(k, t, v)])"
  by (auto simp: live_part_def)

lemma put_versions:
  assumes "t \<le> s"
  shows "h_read (live_part (h @ map (\<lambda>op. (bo_Key op, t, bo_Value op)) ops)) k s =
    fold (\<lambda>op m. case bo_Value op of None \<Rightarrow> m | Some v \<Rightarrow> m(bo_Key op := Some v)) ops
      (\<lambda>k. h_read (live_part h) k s) k"
proof (induction ops arbitrary: h)
  case (Cons op ops)
  let ?h = "h @ [(bo_Key op, t, bo_Value op)]"
  have "(\<lambda>k. h_read (live_part ?h) k s) =
      (case bo_Value op of None \<Rightarrow> (\<lambda>k. h_read (live_part h) k s)
        | Some v \<Rightarrow> (\<lambda>k. h_read (live_part h) k s)(bo_Key op := Some v))"
    using assms by (auto simp: live_snoc h_read_snoc split: option.split)
  from Cons.IH [of ?h, unfolded this] show ?case by (simp del: fun_upd_apply)
qed simp

lemma put_history:
  assumes "\<forall>(k, t, v) \<in> set (op_history t ops). t \<le> s"
  shows "h_read (live_part (h @ op_history t ops)) k s = fold put_do ops (\<lambda>k. h_read (live_part h) k s) k"
  using assms
proof (induction ops arbitrary: h t)
  case (Cons op ops)
  let ?h = "h @ op_versions (t + 1) op"
  have "h_read (live_part ?h) k s = put_do op (\<lambda>k. h_read (live_part h) k s) k" for k
  proof (cases op)
    case (DBatch cf b)
    show ?thesis
    proof (cases "wb_ops b = []")
      case True
      then show ?thesis using DBatch by (simp add: batch_versions_def)
    next
      case False
      then have "t + 1 \<le> s" using Cons.prems DBatch by (auto simp: batch_versions_def neq_Nil_conv)
      from put_versions [OF this, of h "wb_ops b" k] show ?thesis using DBatch by (simp add: batch_versions_def)
    qed
  qed (use Cons.prems in \<open>auto simp: live_snoc h_read_snoc\<close>)
  then have eq: "(\<lambda>k. h_read (live_part ?h) k s) = put_do op (\<lambda>k. h_read (live_part h) k s)" by (rule ext)
  have "\<forall>(k, t, v) \<in> set (op_history (op_clock t op) ops). t \<le> s" using Cons.prems by simp
  from Cons.IH [OF this, of ?h, unfolded eq] show ?case by simp
qed simp

text \<open>Against the map of all operations: the same values, but for the deleted keys.\<close>

fun deletes :: "db_op \<Rightarrow> bool" where
  "deletes (DPut cf k v) = False"
| "deletes (DDelete cf k) = True"
| "deletes (DBatch cf b) = (\<exists>op \<in> set (wb_ops b). bo_Value op = None)"

definition within :: "(bytes \<Rightarrow> bytes option) \<Rightarrow> (bytes \<Rightarrow> bytes option) \<Rightarrow> bool" where
  "within m m' \<longleftrightarrow> (\<forall>k. m k = None \<or> m k = m' k)"

lemma within_do: "within m m' \<Longrightarrow> within (spec_do op m) (put_do op m')"
proof (cases op)
  case (DBatch cf b)
  have "within m m' \<Longrightarrow> within (fold (\<lambda>op m. m(bo_Key op := bo_Value op)) ops m)
      (fold (\<lambda>op m. case bo_Value op of None \<Rightarrow> m | Some v \<Rightarrow> m(bo_Key op := Some v)) ops m')" for ops m m'
  proof (induction ops arbitrary: m m')
    case (Cons op ops)
    have "within (m(bo_Key op := bo_Value op)) (case bo_Value op of None \<Rightarrow> m' | Some v \<Rightarrow> m'(bo_Key op := Some v))"
      using Cons.prems by (auto simp: within_def split: option.split)
    from Cons.IH [OF this] show ?case by simp
  qed simp
  then show "within m m' \<Longrightarrow> within (spec_do op m) (put_do op m')" using DBatch by simp
qed (auto simp: within_def)

lemma within_spec: "within (db_spec ops cf) (put_spec ops cf)"
proof -
  have "within m m' \<Longrightarrow> within (fold spec_do xs m) (fold put_do xs m')" for xs m m'
    by (induction xs arbitrary: m m') (simp_all add: within_do)
  then show ?thesis by (simp add: db_spec_def put_spec_def within_def)
qed

lemma put_do_spec: "\<not> deletes op \<Longrightarrow> put_do op m = spec_do op m"
proof (cases op)
  case (DBatch cf b)
  have "\<forall>op \<in> set ops. bo_Value op \<noteq> None \<Longrightarrow> fold (\<lambda>op m. case bo_Value op of None \<Rightarrow> m | Some v \<Rightarrow> m(bo_Key op := Some v)) ops m =
      fold (\<lambda>op m. m(bo_Key op := bo_Value op)) ops m" for ops m
    by (induction ops arbitrary: m) auto
  then show "\<not> deletes op \<Longrightarrow> put_do op m = spec_do op m" using DBatch by simp
qed simp_all

lemma put_spec_db_spec: "\<forall>op \<in> set ops. op_cf op = cf \<longrightarrow> \<not> deletes op \<Longrightarrow> put_spec ops cf = db_spec ops cf"
proof -
  have "\<forall>op \<in> set xs. \<not> deletes op \<Longrightarrow> fold put_do xs m = fold spec_do xs m" for xs m
    by (induction xs arbitrary: m) (simp_all add: put_do_spec)
  then show "\<forall>op \<in> set ops. op_cf op = cf \<longrightarrow> \<not> deletes op \<Longrightarrow> put_spec ops cf = db_spec ops cf"
    by (simp add: put_spec_def db_spec_def)
qed

section \<open>A scan after a run\<close>

lemma new_history:
  assumes new: "opens_empty opener" "NewScoriaDBWithOptions True opener (Some dirs) = Inr r"
    and ops: "\<forall>op \<in> set ops. op_ok op \<and> op_cf op \<in> db_ListCFs r" and len: "length ops < 2 ^ 64 - 1"
    and run: "db_run ord ops r = (errs, r')" and cf: "cf \<in> db_ListCFs r"
  shows "\<exists>E e. cf_lookup cf r' = Some e \<and> tracks E (op_history 1 (filter (\<lambda>op. op_cf op = cf) ops)) e"
proof -
  have "1 + (length ops + 0) < 2 ^ 64" using len by simp
  from run_holds [OF new_db_holds [OF new this] ops, of ord] obtain r2 H where
    r2: "db_run ord ops r = (replicate (length ops) None, r2)" "db_ListCFs r2 = db_ListCFs r"
    and hold: "db_holds H (\<lambda>cf. fold spec_do (filter (\<lambda>op. op_cf op = cf) ops) Map.empty) 0 r2"
    and rec: "recorded ops (\<lambda>_. []) r H r2"
    by (elim exE conjE) (rule that)
  have eq: "r' = r2" using run r2(1) by simp
  obtain e0 where e0: "cf_lookup cf r = Some e0" using cf by (auto simp: lookup_listed)
  have "cf \<in> db_ListCFs r2" using cf r2(2) by simp
  then obtain e where e: "cf_lookup cf r2 = Some e" unfolding lookup_listed by (elim exE) (rule that)
  have "\<forall>name. \<exists>e. opener name = Inr e \<and> e_LastTS e = 1" using opens_fresh [OF new(1)] by blast
  from new_db_all [OF new(2) this e0] have "H cf = op_history 1 (filter (\<lambda>op. op_cf op = cf) ops)"
    using rec e0 e by (simp add: recorded_def)
  moreover have "\<exists>E. tracks E (H cf) e" using hold e by (simp add: db_holds_def holds_def)
  ultimately show ?thesis using e eq by simp
qed

lemma scan_keys_live:
  assumes "h_sorted h" "\<forall>(k, t, v) \<in> set h. t \<le> s"
  shows "set (scan_keys h p) = {k. HasPrefix k p \<and> h_read (live_part h) k s \<noteq> None}"
proof -
  have "k \<in> fst ` set (live_part h) \<longleftrightarrow> h_read (live_part h) k s \<noteq> None" for k
  proof
    assume "k \<in> fst ` set (live_part h)"
    then obtain t v where v: "(k, t, v) \<in> set (live_part h)" by auto
    then have "\<not> s < t" using assms(2) by (auto simp: live_part_iff not_less)
    with v h_read_cases [OF live_part_sorted [OF assms(1)], of k s] obtain t' where
      "(k, t', h_read (live_part h) k s) \<in> set (live_part h)" by blast
    then show "h_read (live_part h) k s \<noteq> None" by (simp add: live_part_iff)
  next
    assume "h_read (live_part h) k s \<noteq> None"
    with h_read_cases [OF live_part_sorted [OF assms(1)], of k s] obtain t v where "(k, t, v) \<in> set (live_part h)" by blast
    then show "k \<in> fst ` set (live_part h)" by force
  qed
  then show ?thesis by (simp add: scan_keys_set)
qed

text \<open>
  C28. After any run of operations on a new database, a scan of a family lists, without an error
  and in ascending order, every key with the prefix that a put or a batch ever wrote, with the
  last value written. The values of the map of C25 are among them; they are all of them when no
  operation of the family deletes. (A deleted key is still listed: the iterator of the skip list
  skips the deletion and shows the version before it.)
\<close>

theorem scan_lists_the_puts:
  assumes "opens_empty opener" "NewScoriaDBWithOptions True opener (Some dirs) = Inr r"
    and "\<forall>op \<in> set ops. op_ok op \<and> op_cf op \<in> db_ListCFs r" "length ops < 2 ^ 64 - 1"
    and run: "db_run ord ops r = (errs, r')"
    and small: "\<forall>cf e. cf_lookup cf r' = Some e \<longrightarrow> length (um_data (e_unified e)) < 2 ^ 63"
    and cf: "cf \<in> db_ListCFs r"
  shows "(\<exists>ks. sorted_wrt (<) ks \<and> set ks = {k. HasPrefix k prefix \<and> put_spec ops cf k \<noteq> None} \<and>
      db_scan_list cf prefix r' = Inr (map (\<lambda>k. (Some k, put_spec ops cf k)) ks, None)) \<and>
    (\<forall>k v. db_spec ops cf k = Some v \<longrightarrow> put_spec ops cf k = Some v) \<and>
    ((\<forall>op \<in> set ops. op_cf op = cf \<longrightarrow> \<not> deletes op) \<longrightarrow> put_spec ops cf = db_spec ops cf)"
proof -
  let ?h = "op_history 1 (filter (\<lambda>op. op_cf op = cf) ops)"
  obtain E e where e: "cf_lookup cf r' = Some e" "tracks E ?h e"
    using new_history [OF assms(1-5) cf] by (elim exE conjE) (rule that)
  have b: "h_sorted ?h" "\<forall>(k, t, v) \<in> set ?h. t \<le> e_LastTS e" using e(2) unfolding tracks_def by auto
  have puts: "h_read (live_part ?h) k (e_LastTS e) = put_spec ops cf k" for k
    using put_history [OF b(2), of "[]"] by (simp add: put_spec_def live_part_def h_read_def)
  have "length (um_data (e_unified e)) < 2 ^ 63" using small e(1) by blast
  from db_scan_engine [OF e(1) tracks_scan [OF e(2) this]]
  have "db_scan_list cf prefix r' = Inr (map (\<lambda>k. (Some k, put_spec ops cf k)) (scan_keys ?h prefix), None)"
    by (simp add: scan_spec_def puts)
  moreover have "sorted_wrt (<) (scan_keys ?h prefix)" by (simp add: scan_keys_def strict_sorted_iff)
  moreover have "set (scan_keys ?h prefix) = {k. HasPrefix k prefix \<and> put_spec ops cf k \<noteq> None}"
    using scan_keys_live [OF b] by (simp add: puts)
  ultimately have "\<exists>ks. sorted_wrt (<) ks \<and> set ks = {k. HasPrefix k prefix \<and> put_spec ops cf k \<noteq> None} \<and>
      db_scan_list cf prefix r' = Inr (map (\<lambda>k. (Some k, put_spec ops cf k)) ks, None)"
    by (intro exI [of _ "scan_keys ?h prefix"] conjI)
  moreover have "put_spec ops cf k = Some v" if "db_spec ops cf k = Some v" for k v
    using within_spec [of ops cf] that unfolding within_def by (metis option.distinct(1))
  ultimately show ?thesis using put_spec_db_spec [of ops cf] by blast
qed

text \<open>The example: the deleted key of the default family is listed, with the value of its put.\<close>

theorem scan_lists_the_puts_witness:
  "\<forall>bd. \<exists>r r'. NewScoriaDBWithOptions True (demo_opener bd) (Some [(''logs'', True)]) = Inr r \<and>
     db_run (\<lambda>xs. xs) demo_ops r = (replicate (length demo_ops) None, r') \<and>
     db_scan_list ''default'' [97] r' = Inr ([(Some [97], Some [1, 2, 3])], None)"
proof
  fix bd
  obtain r where r: "NewScoriaDBWithOptions True (demo_opener bd) (Some [(''logs'', True)]) = Inr r"
    "db_ListCFs r = {''default'', ''logs''}" "\<forall>op \<in> set demo_ops. op_ok op \<and> op_cf op \<in> db_ListCFs r"
    "\<forall>cf e. cf_lookup cf (snd (db_run (\<lambda>xs. xs) demo_ops r)) = Some e \<longrightarrow> length (um_data (e_unified e)) < 2 ^ 63"
    by (rule demo_db [of bd "\<lambda>xs. xs"])
  have len: "length (demo_ops @ []) < 2 ^ 64 - 1" "length demo_ops < 2 ^ 64 - 1" by (simp_all add: demo_ops_def)
  have ops: "\<forall>op \<in> set (demo_ops @ []). op_ok op \<and> op_cf op \<in> db_ListCFs r" using r(3) by simp
  obtain r' where run: "db_run (\<lambda>xs. xs) demo_ops r = (replicate (length demo_ops) None, r')"
    by (rule new_run [OF demo_opens r(1) ops len(1), of "\<lambda>xs. xs"])
  have small: "\<forall>cf e. cf_lookup cf r' = Some e \<longrightarrow> length (um_data (e_unified e)) < 2 ^ 63" using r(4) run by simp
  have cf: "''default'' \<in> db_ListCFs r" using r(2) by simp
  have spec: "put_spec demo_ops ''default'' = [[97] \<mapsto> [1, 2, 3]]" by (simp add: put_spec_def demo_ops_def)
  from scan_lists_the_puts [OF demo_opens r(1,3) len(2) run small cf, of "[97]"] obtain ks where
    ks: "sorted_wrt (<) ks" "set ks = {k. HasPrefix k [97] \<and> put_spec demo_ops ''default'' k \<noteq> None}"
    "db_scan_list ''default'' [97] r' = Inr (map (\<lambda>k. (Some k, put_spec demo_ops ''default'' k)) ks, None)"
    by (elim exE conjE) (rule that)
  have "set ks = set [[97]]" using ks(2) by (auto simp: spec HasPrefix_def split: if_splits)
  with ks(1) have "ks = [[97]]" by (metis sorted_wrt_iff_nth_less strict_sorted_equal sorted_wrt1)
  then have "db_scan_list ''default'' [97] r' = Inr ([(Some [97], Some [1, 2, 3])], None)" using ks(3) by (simp add: spec)
  with r(1) run show "\<exists>r r'. NewScoriaDBWithOptions True (demo_opener bd) (Some [(''logs'', True)]) = Inr r \<and>
     db_run (\<lambda>xs. xs) demo_ops r = (replicate (length demo_ops) None, r') \<and>
     db_scan_list ''default'' [97] r' = Inr ([(Some [97], Some [1, 2, 3])], None)"
    by blast
qed

end
