(* ===== verification/Flush.thy ===== *)
theory Flush
  imports LSM
begin

text \<open>
  Models \<^verbatim>\<open>internal/engine/flush.go\<close>, the workers of \<^verbatim>\<open>lsm.go\<close> and \<^verbatim>\<open>maybeCompact\<close> of
  \<^verbatim>\<open>compaction.go\<close>: the active memtables become frozen, are written to tables of level 0 and are
  published. The three phases are operations of their own, since the engine is unlocked while
  the tables are written. The directory of table files maps numbers to bytes; outcomes of system
  calls, the empty filter \<open>bl n\<close> of a table for \<open>n\<close> keys, the Bloom decoder \<open>bd\<close>, the encoder \<open>enc\<close>
  of manifest records and \<open>mm\<close> (whether tables are mapped) are parameters. A failed write removes
  its file.
\<close>

definition MaxMemTableSize :: int where "MaxMemTableSize = 4 * 1024 * 1024"
definition MaxLevel0Files :: nat where "MaxLevel0Files = 4"

datatype flush_error = FlClosed | FlIO | FlSst sst_error | FlManifest

record flush_cand =
  fc_shard :: nat
  fc_mt :: mem
  fc_fileNum :: u64

text \<open>\<open>fo_write\<close>: creating and writing the file, \<open>fo_stat\<close>: its size, \<open>fo_manifest\<close>: the record.\<close>

record flush_io =
  fo_write :: bool
  fo_stat :: bool
  fo_manifest :: "nat option"

section \<open>Freezing\<close>

definition freeze :: "shard \<Rightarrow> shard" where
  "freeze s = s\<lparr>sh_mem := [], sh_frozen := Some (sh_mem s), sh_memSize := 0\<rparr>"

fun flush_collect :: "nat list \<Rightarrow> u64 \<Rightarrow> lsm \<Rightarrow> flush_cand list \<times> u64 \<times> lsm" where
  "flush_collect [] nextFileNum e = ([], nextFileNum, e)"
| "flush_collect (i # is) nextFileNum e =
     (if memSizeLoad (e_shards e ! i) = 0 then flush_collect is nextFileNum e
      else
        let old = sh_mem (e_shards e ! i);
            (cands, n, e') = flush_collect is (nextFileNum + 1) (upd_shard i freeze e)
        in (\<lparr>fc_shard = i, fc_mt = old, fc_fileNum = nextFileNum\<rparr> # cands, n, e'))"

text \<open>A failure to record the next file number is only logged.\<close>

definition flush_begin :: "(version_edit \<Rightarrow> bytes) \<Rightarrow> nat option \<Rightarrow> lsm \<Rightarrow> flush_cand list \<times> lsm" where
  "flush_begin enc mio e =
     (let (num, m) = mf_NextFileNum (e_manifest e);
          (cands, n, e) = flush_collect [0..<length (e_shards e)] num (e\<lparr>e_manifest := m\<rparr>)
      in if cands = [] then (cands, e)
         else (cands, e\<lparr>e_manifest := snd (mf_Apply enc mio
                 \<lparr>ve_NewFiles = [], ve_DeletedFiles = [], ve_NextFileNum = n, ve_LastTS = 0\<rparr> (e_manifest e))\<rparr>))"

section \<open>Writing a table\<close>

text \<open>The smallest and the largest user key seen by the loop.\<close>

definition widen :: "bytes \<Rightarrow> (bytes \<times> bytes) option \<Rightarrow> (bytes \<times> bytes) option" where
  "widen userKey r =
     (case r of
        None \<Rightarrow> Some (userKey, userKey)
      | Some (minKey, maxKey) \<Rightarrow>
          Some (if userKey < minKey then userKey else minKey, if maxKey < userKey then userKey else maxKey))"

definition flush_range :: "mem \<Rightarrow> (bytes \<times> bytes) option" where
  "flush_range m = fold (\<lambda>(k, v). widen (mk_key k)) (mem_live m) None"

definition flushOneMemTable ::
    "flush_io \<Rightarrow> (nat \<Rightarrow> bloom_filter) \<Rightarrow> bool \<Rightarrow> bloom_decoder \<Rightarrow> (version_edit \<Rightarrow> bytes) \<Rightarrow> mem \<Rightarrow> u64 \<Rightarrow>
     lsm \<Rightarrow> sst_dir \<Rightarrow> (flush_error + reader) \<times> lsm \<times> sst_dir" where
  "flushOneMemTable io bl mm bd enc mt fileNum e dir =
     (if \<not> fo_write io then (Inl FlIO, e, dir(fileNum := None))
      else
        let d = memtable_table (bl (mem_len mt)) mt in
        case sst_open_file mm bd d of
          Inl err \<Rightarrow> (Inl (FlSst err), e, dir(fileNum := None))
        | Inr r \<Rightarrow>
            if \<not> fo_stat io then (Inl FlIO, e, dir(fileNum := None))
            else
              let edit = \<lparr>ve_NewFiles = [\<lparr>fi_FileNum = fileNum, fi_Level = 0, fi_MinKey = map_option fst (flush_range mt),
                            fi_MaxKey = map_option snd (flush_range mt), fi_Size = word_of_nat (length d)\<rparr>],
                          ve_DeletedFiles = [], ve_NextFileNum = fileNum + 1, ve_LastTS = e_LastTS e\<rparr>;
                  (ok, m) = mf_Apply enc (fo_manifest io) edit (e_manifest e);
                  e = e\<lparr>e_manifest := m\<rparr> in
              if \<not> ok then (Inl FlManifest, e, dir(fileNum := None))
              else (Inr r, e, dir(fileNum \<mapsto> d)))"

text \<open>
  The tables of all candidates; on a failure only the frozen memtable of the failing one is
  dropped, and the tables written so far are forgotten.
\<close>

fun flush_write ::
    "(nat \<Rightarrow> flush_io) \<Rightarrow> (nat \<Rightarrow> bloom_filter) \<Rightarrow> bool \<Rightarrow> bloom_decoder \<Rightarrow> (version_edit \<Rightarrow> bytes) \<Rightarrow>
     flush_cand list \<Rightarrow> lsm \<Rightarrow> sst_dir \<Rightarrow> (flush_error + reader list) \<times> lsm \<times> sst_dir" where
  "flush_write io bl mm bd enc [] e dir = (Inr [], e, dir)"
| "flush_write io bl mm bd enc (c # cands) e dir =
     (case flushOneMemTable (io (fc_shard c)) bl mm bd enc (fc_mt c) (fc_fileNum c) e dir of
        (Inl err, e, dir) \<Rightarrow> (Inl err, upd_shard (fc_shard c) (sh_frozen_update (\<lambda>_. None)) e, dir)
      | (Inr r, e, dir) \<Rightarrow>
          (case flush_write io bl mm bd enc cands e dir of
             (Inl err, e, dir) \<Rightarrow> (Inl err, e, dir)
           | (Inr rs, e, dir) \<Rightarrow> (Inr (r # rs), e, dir)))"

section \<open>Publishing\<close>

definition append_level :: "nat \<Rightarrow> reader \<Rightarrow> reader list list \<Rightarrow> reader list list" where
  "append_level i r levels = levels[i := levels ! i @ [r]]"

fun flush_publish :: "(flush_cand \<times> reader) list \<Rightarrow> lsm \<Rightarrow> lsm" where
  "flush_publish [] e = e"
| "flush_publish ((c, r) # crs) e =
     (let e = upd_shard (fc_shard c) (\<lambda>s. s\<lparr>sh_frozen := None, sh_levels := append_level 0 r (sh_levels s)\<rparr>) e
      in flush_publish crs (e\<lparr>e_levels := append_level 0 r (e_levels e)\<rparr>))"

definition e_flushMemTable ::
    "(nat \<Rightarrow> flush_io) \<Rightarrow> nat option \<Rightarrow> (nat \<Rightarrow> bloom_filter) \<Rightarrow> bool \<Rightarrow> bloom_decoder \<Rightarrow> (version_edit \<Rightarrow> bytes) \<Rightarrow>
     lsm \<Rightarrow> sst_dir \<Rightarrow> flush_error option \<times> lsm \<times> sst_dir" where
  "e_flushMemTable io mio bl mm bd enc e dir =
     (if e_closed e then (Some FlClosed, e, dir)
      else
        let (cands, e) = flush_begin enc mio e in
        if cands = [] then (None, e, dir)
        else
          case flush_write io bl mm bd enc cands e dir of
            (Inl err, e, dir) \<Rightarrow> (Some err, e, dir)
          | (Inr rs, e, dir) \<Rightarrow> (None, flush_publish (zip cands rs) e, dir))"

section \<open>The workers\<close>

text \<open>
  The read side of \<^verbatim>\<open>sync.RWMutex\<close> as its count of readers; \<open>None\<close> is the fatal error of unlocking
  an unlocked lock. Writers that wait are not modelled.
\<close>

definition rw_RLock :: "nat \<Rightarrow> nat" where
  "rw_RLock readers = readers + 1"

definition rw_RUnlock :: "nat \<Rightarrow> nat option" where
  "rw_RUnlock readers = (if readers = 0 then None else Some (readers - 1))"

definition shard_full :: "(mem \<Rightarrow> int) \<Rightarrow> shard \<Rightarrow> bool" where
  "shard_full sizeBytes s \<longleftrightarrow> memSizeLoad s > MaxMemTableSize \<or> sizeBytes (sh_mem s) > MaxMemTableSize"

text \<open>
  A tick of \<open>flushWorker\<close>: the lock is released when a shard is full and once more behind the loop.
  \<open>readers\<close> is the count of the lock, to which the other holders of the read lock contribute.
\<close>

definition e_flush_tick :: "(mem \<Rightarrow> int) \<Rightarrow> nat \<Rightarrow> lsm \<Rightarrow> (nat \<times> lsm) option" where
  "e_flush_tick sizeBytes readers e =
     (let readers = rw_RLock readers in
      if \<exists>s \<in> set (e_shards e). shard_full sizeBytes s then
        (case rw_RUnlock readers of
           None \<Rightarrow> None
         | Some readers \<Rightarrow>
             let e = e\<lparr>e_flushCh := True\<rparr> in
             map_option (\<lambda>readers. (readers, e)) (rw_RUnlock readers))
      else map_option (\<lambda>readers. (readers, e)) (rw_RUnlock readers))"

definition e_flush_signal ::
    "(nat \<Rightarrow> flush_io) \<Rightarrow> nat option \<Rightarrow> (nat \<Rightarrow> bloom_filter) \<Rightarrow> bool \<Rightarrow> bloom_decoder \<Rightarrow> (version_edit \<Rightarrow> bytes) \<Rightarrow>
     lsm \<Rightarrow> sst_dir \<Rightarrow> lsm \<times> sst_dir" where
  "e_flush_signal io mio bl mm bd enc e dir =
     (if \<not> e_flushCh e then (e, dir)
      else snd (e_flushMemTable io mio bl mm bd enc (e\<lparr>e_flushCh := False\<rparr>) dir))"

definition e_maybeCompact :: "lsm \<Rightarrow> lsm" where
  "e_maybeCompact e =
     (if e_closed e then e
      else if length (e_levels e ! 0) > MaxLevel0Files then e\<lparr>e_compactCh := True\<rparr> else e)"

definition e_compact_tick :: "lsm \<Rightarrow> lsm" where
  "e_compact_tick e = (if length (e_levels e ! 0) > MaxLevel0Files then e\<lparr>e_compactCh := True\<rparr> else e)"

definition e_compact_signal :: "lsm \<Rightarrow> lsm" where
  "e_compact_signal e = (if \<not> e_compactCh e then e else e_maybeCompact (e\<lparr>e_compactCh := False\<rparr>))"

end
