(* ===== verification/Compaction.thy ===== *)
theory Compaction
  imports Flush
begin

text \<open>
  Models \<^verbatim>\<open>internal/engine/compaction.go\<close> and the collection of live pointers of \<^verbatim>\<open>gc.go\<close>: all
  tables of level 0 are merged into one table of level 1, which keeps the newest version of each
  key and those at or below the oldest active snapshot. \<open>srt\<close> is the order \<^verbatim>\<open>sort.Slice\<close> gives to
  the collected versions (versions that compare equal may come out in any order); \<open>mins n\<close> is the
  oldest active snapshot read for the \<open>n\<close>-th version, as snapshots come and go meanwhile.
\<close>

datatype compact_error = CmClosed | CmIO | CmSst sst_error | CmManifest

type_synonym kv = "mvcc_key \<times> bytes"

section \<open>Collecting\<close>

text \<open>A table whose iterator cannot be created ends the compaction.\<close>

fun compact_collect :: "reader list \<Rightarrow> sst_error + kv list" where
  "compact_collect [] = Inr []"
| "compact_collect (r # rs) =
     (case sst_entries r of
        Inl err \<Rightarrow> Inl err
      | Inr kvs \<Rightarrow> (case compact_collect rs of Inl err \<Rightarrow> Inl err | Inr kvs' \<Rightarrow> Inr (kvs @ kvs')))"

text \<open>The order of the sort: by user key, the newest version (the smallest stored timestamp) first.\<close>

definition kv_less :: "kv \<Rightarrow> kv \<Rightarrow> bool" where
  "kv_less a b \<longleftrightarrow>
     (if mk_key (fst a) < mk_key (fst b) then True
      else if mk_key (fst b) < mk_key (fst a) then False
      else mk_ts (fst a) < mk_ts (fst b))"

definition sorts :: "(kv list \<Rightarrow> kv list) \<Rightarrow> bool" where
  "sorts srt \<longleftrightarrow> (\<forall>xs. mset (srt xs) = mset xs \<and> sorted_wrt (\<lambda>a b. \<not> kv_less b a) (srt xs))"

section \<open>The versions that are kept\<close>

definition keep_version :: "u64 \<Rightarrow> nat \<Rightarrow> kv \<Rightarrow> bool" where
  "keep_version curMin j x =
     (if j = 0 then snd x \<noteq> []
      else if curMin = 0 \<or> CommitTS (fst x) > curMin then False
      else snd x \<noteq> [])"

fun keep_versions :: "(nat \<Rightarrow> u64) \<Rightarrow> nat \<Rightarrow> nat \<Rightarrow> kv list \<Rightarrow> kv list" where
  "keep_versions mins n j [] = []"
| "keep_versions mins n j (x # xs) =
     (if keep_version (mins n) j x then x # keep_versions mins (n + 1) (j + 1) xs
      else keep_versions mins (n + 1) (j + 1) xs)"

function compact_kept :: "(nat \<Rightarrow> u64) \<Rightarrow> nat \<Rightarrow> kv list \<Rightarrow> kv list" where
  "compact_kept mins n [] = []"
| "compact_kept mins n (x # xs) =
     (let versions = x # takeWhile (\<lambda>y. mk_key (fst y) = mk_key (fst x)) xs
      in keep_versions mins n 0 versions @
         compact_kept mins (n + length versions) (dropWhile (\<lambda>y. mk_key (fst y) = mk_key (fst x)) xs))"
  by pat_completeness auto
termination
  by (relation "measure (\<lambda>(m, n, xs). length xs)") (auto simp: le_imp_less_Suc length_dropWhile_le)

definition kept_table :: "bloom_filter \<Rightarrow> kv list \<Rightarrow> bytes" where
  "kept_table bl kvs = sst_Finish (fold (\<lambda>(k, v). sst_Append k (Some v)) kvs (sst_NewWriter bl))"

definition kept_range :: "kv list \<Rightarrow> (bytes \<times> bytes) option" where
  "kept_range kvs = fold (\<lambda>(k, v). widen (mk_key k)) kvs None"

section \<open>The compaction\<close>

definition compact_levels :: "reader \<Rightarrow> reader list list \<Rightarrow> reader list list" where
  "compact_levels r levels = append_level 1 r (levels[0 := []])"

definition compact_deleted :: "sst_info list option \<Rightarrow> nat \<Rightarrow> (u64 \<times> nat) list" where
  "compact_deleted infos n =
     (case infos of Some is \<Rightarrow> map (\<lambda>i. (fi_FileNum i, fi_Level i)) is | None \<Rightarrow> replicate n (0, 0))"

definition e_compactLevel0 ::
    "flush_io \<Rightarrow> (kv list \<Rightarrow> kv list) \<Rightarrow> (nat \<Rightarrow> u64) \<Rightarrow> (nat \<Rightarrow> bloom_filter) \<Rightarrow> bool \<Rightarrow> bloom_decoder \<Rightarrow>
     (version_edit \<Rightarrow> bytes) \<Rightarrow> lsm \<Rightarrow> sst_dir \<Rightarrow> compact_error option \<times> lsm \<times> sst_dir" where
  "e_compactLevel0 io srt mins bl mm bd enc e dir =
     (if e_closed e then (Some CmClosed, e, dir)
      else if e_levels e ! 0 = [] then (None, e, dir)
      else
        let n0 = length (e_levels e ! 0);
            infos = mf_GetLevels (e_manifest e) ! 0;
            infos = (if length infos \<noteq> n0 then None else Some infos) in
        case compact_collect (e_levels e ! 0) of
          Inl err \<Rightarrow> (Some (CmSst err), e, dir)
        | Inr allKVs \<Rightarrow>
            let allKVs = srt allKVs;
                (fileNum, m) = mf_NextFileNum (e_manifest e);
                e = e\<lparr>e_manifest := m\<rparr> in
            if \<not> fo_write io then (Some CmIO, e, dir(fileNum := None))
            else
              let kept = compact_kept mins 0 allKVs;
                  d = kept_table (bl (length allKVs)) kept in
              case sst_open_file mm bd d of
                Inl err \<Rightarrow> (Some (CmSst err), e, dir(fileNum := None))
              | Inr r \<Rightarrow>
                  if \<not> fo_stat io then (Some CmIO, e, dir(fileNum := None))
                  else
                    let deleted = compact_deleted infos n0;
                        edit = \<lparr>ve_NewFiles = [\<lparr>fi_FileNum = fileNum, fi_Level = 1,
                                  fi_MinKey = map_option fst (kept_range kept), fi_MaxKey = map_option snd (kept_range kept),
                                  fi_Size = word_of_nat (length d)\<rparr>],
                                ve_DeletedFiles = deleted, ve_NextFileNum = fileNum + 1, ve_LastTS = e_LastTS e\<rparr>;
                        (ok, m) = mf_Apply enc (fo_manifest io) edit (e_manifest e);
                        e = e\<lparr>e_manifest := m\<rparr> in
                    if \<not> ok then (Some CmManifest, e, dir(fileNum := None))
                    else
                      let gone = filter (\<lambda>n. n \<noteq> 0) (map fst (take n0 deleted));
                          dir = fold (\<lambda>n dir. dir(n := None)) gone (dir(fileNum \<mapsto> d));
                          e = e\<lparr>e_levels := compact_levels r (e_levels e),
                                e_shards := map (sh_levels_update (compact_levels r)) (e_shards e)\<rparr>
                      in (None, e, dir))"

section \<open>Live pointers\<close>

definition live_pointer :: "bytes \<Rightarrow> value_pointer list" where
  "live_pointer stored =
     (if \<not> IsStoredValuePointer stored then []
      else
        let payload = (if IsValidValueTag (hd stored) then tl stored else stored) in
        case DecodeValuePointer payload of Some vp \<Rightarrow> [vp] | None \<Rightarrow> [])"

definition mem_pointers :: "mem \<Rightarrow> value_pointer list" where
  "mem_pointers m = concat (map (\<lambda>(k, v). case v of Live x \<Rightarrow> live_pointer (slice_of x) | Tomb \<Rightarrow> []) (mem_live m))"

definition table_pointers :: "reader \<Rightarrow> value_pointer list" where
  "table_pointers r = (case sst_entries r of Inl err \<Rightarrow> [] | Inr kvs \<Rightarrow> concat (map (live_pointer \<circ> snd) kvs))"

definition CollectLiveValuePointers :: "lsm \<Rightarrow> lsm_error + value_pointer set" where
  "CollectLiveValuePointers e =
     (if e_closed e then Inl EClosed
      else Inr (set (concat (map mem_pointers (mt_list e)) @ concat (map table_pointers (concat (e_levels e))))))"

end
