(* ===== verification/SSTFormat.thy ===== *)
theory SSTFormat
  imports SSTReader
begin

text \<open>
  The SSTable format read back: the encodings of keys and entries, the scan of a block, the
  blocks and the index with their checksums, the footer sections, and \<open>Open\<close> on a file that
  \<open>Finish\<close> wrote. \<open>form_groups\<close> is the division of the sorted entries into blocks that
  \<open>form_blocks\<close> makes.
\<close>

section \<open>Keys and entries\<close>

definition stored_bytes :: "raw_entry \<Rightarrow> bytes" where
  "stored_bytes e =
     (case re_value e of
        None \<Rightarrow> [tagTombstone]
      | Some v \<Rightarrow> if re_tagged e then v else tagInline # v)"

text \<open>An entry within the 32-bit length fields of the format.\<close>

definition entry_fits :: "raw_entry \<Rightarrow> bool" where
  "entry_fits e \<longleftrightarrow> length (mk_key (re_key e)) + length (stored_bytes e) + 28 < 2 ^ 32"

lemma length_encodeMVCCKey [simp]: "length (encodeMVCCKey k) = length (mk_key k) + 12"
  by (simp add: encodeMVCCKey_def)

lemma decode_encode_key:
  assumes "length (mk_key k) + 12 < 2 ^ 32"
  shows "decodeMVCCKey (encodeMVCCKey k) = Inr k"
proof -
  let ?n = "length (mk_key k)" let ?kl = "word_of_nat ?n :: u32"
  have kl: "unat ?kl = ?n" "unat (4 + ?kl) = 4 + ?n" "unat (4 + ?kl + 8) = 12 + ?n"
    "unat (12 + ?kl) = 12 + ?n"
  proof -
    show 1: "unat ?kl = ?n" using assms by (simp add: codec_simps)
    have "4 + ?kl = word_of_nat (4 + ?n)" "4 + ?kl + 8 = word_of_nat (12 + ?n)"
      "12 + ?kl = word_of_nat (12 + ?n)"
      by (simp_all add: algebra_simps)
    then show "unat (4 + ?kl) = 4 + ?n" "unat (4 + ?kl + 8) = 12 + ?n"
      "unat (12 + ?kl) = 12 + ?n"
      using assms by (simp_all only: unat_of_nat_small)
  qed
  have e: "encodeMVCCKey k = put_le32 ?kl @ mk_key k @ put_le64 (mk_ts k)"
    by (simp add: encodeMVCCKey_def)
  have "drop (4 + ?n) (encodeMVCCKey k) = put_le64 (mk_ts k)"
    by (simp add: e)
  moreover have "subslice 4 (4 + ?n) (encodeMVCCKey k) = mk_key k"
    by (simp add: e subslice_def)
  moreover have "get_le32 (take 4 (encodeMVCCKey k)) = ?kl"
    by (simp add: e codec_simps)
  ultimately show ?thesis
    by (simp add: decodeMVCCKey_def Let_def kl go_slice_def codec_simps)
qed

lemma entry_bytes_eq:
  "entry_bytes e =
     put_le32 (word_of_nat (length (mk_key (re_key e)) + 12)) @
     put_le32 (word_of_nat (length (stored_bytes e))) @ encodeMVCCKey (re_key e) @ stored_bytes e"
  by (auto simp: entry_bytes_def encodeEntry_def encodeEntryTagged_def stored_bytes_def Let_def
      split: option.splits)

lemma length_entry_bytes:
  "length (entry_bytes e) = 20 + length (mk_key (re_key e)) + length (stored_bytes e)"
  by (simp add: entry_bytes_eq)

lemma entry_bytes_nonempty [simp]: "entry_bytes e \<noteq> []"
  using length_entry_bytes [of e] by (metis add_is_0 list.size(3) rel_simps(76))

text \<open>What the readers of a block cut out of it when it continues with an entry.\<close>

lemma entry_at:
  assumes d: "drop pos d = entry_bytes e @ rest" and fits: "entry_fits e"
  defines "kl \<equiv> length (mk_key (re_key e)) + 12" and "vl \<equiv> length (stored_bytes e)"
  shows "pos < length d" "pos + 8 + kl + vl \<le> length d"
    "unat (get_le32 (drop pos d)) = kl" "unat (get_le32 (drop (pos + 4) d)) = vl"
    "subslice (pos + 8) (pos + 8 + kl) d = encodeMVCCKey (re_key e)"
    "subslice (pos + 8 + kl) (pos + 8 + kl + vl) d = stored_bytes e"
    "drop (pos + (8 + kl + vl)) d = rest"
proof -
  have len: "length d = pos + length (entry_bytes e @ rest)" if "pos \<le> length d"
    using d that by (metis add_diff_inverse_nat length_drop not_less)
  have "entry_bytes e @ rest \<noteq> []" by simp
  then have "pos < length d" using d by (metis drop_all not_less)
  then show "pos < length d" .
  with len have len: "length d = pos + 8 + kl + vl + length rest"
    by (simp add: length_entry_bytes kl_def vl_def)
  then show "pos + 8 + kl + vl \<le> length d" by simp
  have drops: "drop (pos + n) d = drop n (entry_bytes e @ rest)" for n
    using d by (simp add: add.commute flip: drop_drop)
  have e: "entry_bytes e @ rest = put_le32 (word_of_nat kl) @ put_le32 (word_of_nat vl) @
      encodeMVCCKey (re_key e) @ stored_bytes e @ rest"
    by (simp add: entry_bytes_eq kl_def vl_def)
  have d0: "drop pos d = put_le32 (word_of_nat kl) @ put_le32 (word_of_nat vl) @
      encodeMVCCKey (re_key e) @ stored_bytes e @ rest"
    using d e by simp
  have lk: "length (encodeMVCCKey (re_key e)) = kl" "length (stored_bytes e) = vl"
    by (simp_all add: kl_def vl_def)
  have d4: "drop (pos + 4) d = put_le32 (word_of_nat vl) @ encodeMVCCKey (re_key e) @ stored_bytes e @ rest"
    unfolding drops e by (simp add: drop_put)
  have d8: "drop (pos + 8) d = encodeMVCCKey (re_key e) @ stored_bytes e @ rest"
    unfolding drops e by simp
  have d8k: "drop (pos + 8 + kl) d = stored_bytes e @ rest"
    using d8 lk by (metis add.commute append_eq_conv_conj drop_drop)
  have small: "kl < 2 ^ 32" "vl < 2 ^ 32"
    using fits by (simp_all add: entry_fits_def kl_def vl_def)
  show "unat (get_le32 (drop pos d)) = kl" "unat (get_le32 (drop (pos + 4) d)) = vl"
    unfolding d0 d4 get_put using small by (simp_all only: unat_of_nat_small)
  show "subslice (pos + 8) (pos + 8 + kl) d = encodeMVCCKey (re_key e)"
    using d8 lk by (simp add: subslice_def)
  show "subslice (pos + 8 + kl) (pos + 8 + kl + vl) d = stored_bytes e"
    using d8k lk by (simp add: subslice_def)
  show "drop (pos + (8 + kl + vl)) d = rest"
    using d8k lk by (metis (no_types, lifting) add.assoc add.commute append_eq_conv_conj drop_drop)
qed

section \<open>Scanning a block\<close>

definition block_bytes :: "raw_entry list \<Rightarrow> bytes" where
  "block_bytes es = concat (map entry_bytes es)"

definition is_tomb :: "bytes \<Rightarrow> bool" where
  "is_tomb s \<longleftrightarrow> length s = 0 \<or> length s = 1 \<and> s ! 0 = tagTombstone"

definition payload :: "bytes \<Rightarrow> bytes" where
  "payload s = (if length s > 0 \<and> isValidValueTag (s ! 0) then drop 1 s else s)"

definition scan_result :: "raw_entry \<Rightarrow> bytes \<times> bool" where
  "scan_result e =
     (if is_tomb (stored_bytes e) then stored_bytes e else payload (stored_bytes e),
      is_tomb (stored_bytes e))"

fun scan_spec :: "bytes \<Rightarrow> u64 \<Rightarrow> raw_entry list \<Rightarrow> (bytes \<times> bool) option \<Rightarrow> (bytes \<times> bool) option" where
  "scan_spec userKey ts [] best = best"
| "scan_spec userKey ts (e # es) best =
     (if mk_key (re_key e) = userKey then
        scan_spec userKey ts es (if CommitTS (re_key e) > ts then best else Some (scan_result e))
      else if mk_key (re_key e) > userKey then best
      else scan_spec userKey ts es best)"

lemma lookup_scan_spec:
  assumes "\<forall>e \<in> set es. entry_fits e" "drop pos d = block_bytes es"
  shows "lookup_scan d userKey ts pos best = Inr (scan_spec userKey ts es best)"
  using assms
proof (induction es arbitrary: pos best)
  case Nil
  then have "\<not> pos < length d" by (simp add: block_bytes_def)
  then show ?case by (simp add: lookup_scan.simps)
next
  case (Cons e es)
  have d: "drop pos d = entry_bytes e @ block_bytes es"
    using Cons.prems(2) by (simp add: block_bytes_def)
  have fits: "entry_fits e" using Cons.prems(1) by simp
  note at = entry_at [OF d fits]
  let ?kl = "length (mk_key (re_key e)) + 12" let ?vl = "length (stored_bytes e)"
  have key: "decodeMVCCKey (encodeMVCCKey (re_key e)) = Inr (re_key e)"
    by (rule decode_encode_key) (use fits in \<open>simp add: entry_fits_def\<close>)
  have IH: "lookup_scan d userKey ts (pos + (8 + ?kl + ?vl)) b = Inr (scan_spec userKey ts es b)" for b
    using Cons.IH [OF _ at(7)] Cons.prems(1) by simp
  have room: "\<not> pos + 8 > length d" "\<not> pos + 8 + ?kl + ?vl > length d" using at(2) by linarith+
  have sr: "(if \<not> (length (stored_bytes e) = 0 \<or> length (stored_bytes e) = 1 \<and> stored_bytes e ! 0 = tagTombstone) \<and>
        isValidValueTag (stored_bytes e ! 0) then drop 1 (stored_bytes e) else stored_bytes e,
      length (stored_bytes e) = 0 \<or> length (stored_bytes e) = 1 \<and> stored_bytes e ! 0 = tagTombstone) = scan_result e"
    by (auto simp: scan_result_def is_tomb_def payload_def)
  show ?case
    unfolding lookup_scan.simps [of d userKey ts pos best]
    by (simp only: Let_def at room key sr IH if_True if_False sum.case) auto
qed

section \<open>Blocks and the index\<close>

fun form_groups :: "raw_entry list \<Rightarrow> raw_entry list \<Rightarrow> raw_entry list list" where
  "form_groups [] cur = (if cur = [] then [] else [cur])"
| "form_groups (e # es) cur =
     (if length (block_bytes cur) + length (entry_bytes e) > BlockSize \<and> cur \<noteq> []
      then cur # form_groups es [e] else form_groups es (cur @ [e]))"

definition group_block :: "raw_entry list \<Rightarrow> bytes \<times> bytes" where
  "group_block g = (mk_key (re_key (hd g)), block_bytes g)"

lemma block_bytes_simps [simp]:
  "block_bytes [] = []" "block_bytes (e # es) = entry_bytes e @ block_bytes es"
  "block_bytes (xs @ ys) = block_bytes xs @ block_bytes ys"
  by (simp_all add: block_bytes_def)

lemma block_bytes_Nil_iff [simp]: "block_bytes es = [] \<longleftrightarrow> es = []"
  by (cases es) auto

lemma form_blocks_groups:
  "form_blocks es (block_bytes cur) cur = map group_block (form_groups es cur)"
proof (induction es cur rule: form_groups.induct)
  case (1 cur)
  then show ?case by (simp add: group_block_def hd_conv_nth)
next
  case (2 e es cur)
  then show ?case
    by (auto simp: group_block_def hd_conv_nth Let_def)
qed

lemma concat_form_groups: "concat (form_groups es cur) = cur @ es"
  by (induction es cur rule: form_groups.induct) auto

lemma form_groups_nonempty: "g \<in> set (form_groups es cur) \<Longrightarrow> g \<noteq> []"
  by (induction es cur rule: form_groups.induct) (auto split: if_splits)

definition frame :: "bytes \<Rightarrow> bytes" where
  "frame d = put_le32 (word_of_nat (length d)) @ d @ put_le32 (crc32_ieee d)"

definition frames :: "(bytes \<times> bytes) list \<Rightarrow> bytes" where
  "frames bs = concat (map (frame \<circ> snd) bs)"

lemma length_frame [simp]: "length (frame d) = length d + 8"
  by (simp add: frame_def)

lemma frames_simps [simp]:
  "frames [] = []" "frames (b # bs) = frame (snd b) @ frames bs"
  "frames (bs @ cs) = frames bs @ frames cs"
  by (simp_all add: frames_def)

lemma write_blocks_eq:
  assumes "write_blocks bs off = (out, idx, fin)"
  shows "out = frames bs" "fin = off + length (frames bs)" "length idx = length bs"
    "i < length bs \<Longrightarrow> idx ! i = (fst (bs ! i), off + length (frames (take i bs)))"
proof -
  have "out = frames bs \<and> fin = off + length (frames bs) \<and> length idx = length bs \<and>
      (\<forall>i < length bs. idx ! i = (fst (bs ! i), off + length (frames (take i bs))))"
    using assms
  proof (induction bs off arbitrary: out idx fin rule: write_blocks.induct)
    case (1 offset)
    then show ?case by simp
  next
    case (2 firstKey d bs offset)
    obtain out' idx' fin' where r: "write_blocks bs (offset + 4 + length d + 4) = (out', idx', fin')"
      by (metis prod_cases3)
    note IH = "2.IH" [OF r]
    have e: "out = frame d @ out'" "idx = (firstKey, offset) # idx'" "fin = fin'"
      using "2.prems" r by (simp_all add: frame_def)
    show ?case
      unfolding e using IH by (auto simp: nth_Cons split: nat.split)
  qed
  then show "out = frames bs" "fin = off + length (frames bs)" "length idx = length bs"
    "i < length bs \<Longrightarrow> idx ! i = (fst (bs ! i), off + length (frames (take i bs)))"
    by auto
qed

lemma crc_frame_ok: "verifyBlockCRC (d @ put_le32 (crc32_ieee d)) = None"
  by (simp add: verifyBlockCRC_def Let_def codec_simps)

lemma read_frame:
  assumes F: "F = pre @ frame d @ post" and small: "length F < 2 ^ 63" "length d + 8 < 2 ^ 32"
  shows "readBlockFromMmap F (word_of_nat (length pre)) = Inr d"
    and "readBlockFromFile F (word_of_nat (length pre)) = Inr d"
proof -
  let ?n = "length d" let ?p = "length pre" let ?o = "word_of_nat ?p :: u64"
  let ?bs = "word_of_nat ?n :: u32"
  have lenF: "length F = ?p + (?n + 8) + length post" by (simp add: F)
  have bs: "unat ?bs = ?n" using small(2) by (simp add: codec_simps)
  then have ub: "ucast ?bs = (word_of_nat ?n :: u64)"
    by (metis of_nat_unat)
  have sums: "?o + 4 = word_of_nat (?p + 4)" "?o + 4 + (ucast ?bs + 4) = word_of_nat (?p + ?n + 8)"
    "(ucast ?bs :: u64) + 4 = word_of_nat (?n + 4)"
    by (simp_all add: ub algebra_simps)
  have uns: "unat (word_of_nat k :: u64) = k" if "k \<le> length F" for k
    using that small(1) by (intro unat_of_nat_small) simp
  have sns: "sint (word_of_nat k :: u64) = int k" if "k \<le> length F" for k
    using that small(1) by (simp add: signed_of_nat signed_take_bit_int_eq_self)
  have dr: "drop ?p F = frame d @ post" "drop (?p + 4) F = d @ put_le32 (crc32_ieee d) @ post"
    by (simp_all add: F frame_def)
  have g: "get_le32 (take 4 (frame d @ post)) = ?bs" by (simp add: frame_def codec_simps)
  have s1: "go_slice ?p (length F) F = Inr (frame d @ post)"
    using lenF dr by (simp add: go_slice_def subslice_def)
  have s2: "go_slice ?p (?p + ?n + 8) F = Inr (frame d)"
    using lenF dr by (simp add: go_slice_def subslice_def)
  have d4: "drop 4 (frame d) = d @ put_le32 (crc32_ieee d)" by (simp add: frame_def codec_simps)
  have v1: "sint (?o + 4) = int (?p + 4)" by (subst sums(1), rule sns, simp add: lenF)
  have v2: "sint (?o + 4 + (ucast ?bs + 4)) = int (?p + ?n + 8)" by (subst sums(2), rule sns, simp add: lenF)
  have v3: "unat (?o + 4) = ?p + 4" by (subst sums(1), rule uns, simp add: lenF)
  have v4: "unat (?o + 4 + (ucast ?bs + 4)) = ?p + ?n + 8" by (subst sums(2), rule uns, simp add: lenF)
  have v5: "unat ((ucast ?bs :: u64) + 4) = ?n + 4" by (subst sums(3), rule uns, simp add: lenF)
  have v6: "sint ?o = int ?p" by (rule sns, simp add: lenF)
  have v7: "unat ?o = ?p" by (rule uns, simp add: lenF)
  have "4 + ?bs = word_of_nat (4 + ?n)" by simp
  then have v8: "unat (4 + ?bs) = 4 + ?n"
    using small(2) by (simp only: unat_of_nat_small)
  note v = v1 v2 v3 v4 v5 v6 v7 v8
  have r1: "\<not> int (?p + 4) > int (length F)" "\<not> int (?p + ?n + 8) > int (length F)"
    using lenF by simp_all
  have len: "\<not> length (frame d @ post) < 4" by (simp add: frame_def)
  have sl: "go_slice 4 (4 + ?n) (frame d) = Inr d"
    by (simp add: go_slice_def subslice_def frame_def)
  show "readBlockFromMmap F ?o = Inr d"
    by (simp only: readBlockFromMmap_def Let_def v r1 s1 s2 g d4 len sl crc_frame_ok if_False sum.case option.case)
  have le: "0 \<le> int ?p \<and> ?p + 4 \<le> length F" "0 \<le> int (?p + 4) \<and> ?p + 4 + (?n + 4) \<le> length F"
    using lenF by simp_all
  have f1: "read_at 4 ?o F = Inr (put_le32 ?bs)"
    using lenF dr(1) by (simp add: read_at_def v6 v7 subslice_def frame_def)
  have f2: "read_at (?n + 4) (?o + 4) F = Inr (d @ put_le32 (crc32_ieee d))"
    unfolding read_at_def v1 v3 using le(2) dr(2) by (simp only: if_True subslice_def) simp
  have f3: "\<not> ?o + 4 + (ucast ?bs + 4) > word_of_nat (length F)"
    unfolding word_less_nat_alt v4 using uns [of "length F"] lenF by simp
  have sl2: "go_slice 0 ?n (d @ put_le32 (crc32_ieee d)) = Inr d"
    by (simp add: go_slice_def subslice_def)
  show "readBlockFromFile F ?o = Inr d"
    by (simp only: readBlockFromFile_def Let_def f1 f2 f3 sl2 get_put_nil v5 bs crc_frame_ok if_False
        sum.case option.case)
qed

section \<open>The sections behind the blocks\<close>

definition idx_fits :: "(bytes \<times> nat) list \<Rightarrow> bool" where
  "idx_fits idx \<longleftrightarrow> (\<forall>(k, off) \<in> set idx. length k < 2 ^ 32)"

definition idx_words :: "(bytes \<times> nat) list \<Rightarrow> (bytes \<times> u64) list" where
  "idx_words idx = map (\<lambda>(k, off). (k, word_of_nat off)) idx"

lemma index_bytes_simps [simp]:
  "index_bytes [] = []"
  "index_bytes ((k, off) # idx) =
     put_le32 (word_of_nat (length k)) @ k @ put_le64 (word_of_nat off) @ index_bytes idx"
  by (simp_all add: index_bytes_def)

lemma index_at:
  assumes "drop pos d = index_bytes ((k, off) # idx)" "length k < 2 ^ 32"
  shows "pos < length d" "\<not> pos + 4 > length d" "\<not> pos + 4 + length k + 8 > length d"
    "unat (get_le32 (drop pos d)) = length k" "subslice (pos + 4) (pos + 4 + length k) d = k"
    "get_le64 (drop (pos + 4 + length k) d) = word_of_nat off"
    "drop (pos + 4 + length k + 8) d = index_bytes idx"
proof -
  let ?r = "put_le64 (word_of_nat off) @ index_bytes idx"
  have d0: "drop pos d = put_le32 (word_of_nat (length k)) @ k @ ?r" using assms(1) by simp
  have drops: "drop (pos + n) d = drop n (drop pos d)" for n by (simp add: add.commute)
  have d4: "drop (pos + 4) d = k @ ?r" unfolding drops d0 by simp
  have d4k: "drop (pos + 4 + length k) d = ?r"
    using d4 by (metis add.commute append_eq_conv_conj drop_drop)
  have len: "length d - pos = 4 + length k + 8 + length (index_bytes idx)"
    using arg_cong [OF d0, of length] by simp
  then show "pos < length d" by simp
  show "\<not> pos + 4 > length d" "\<not> pos + 4 + length k + 8 > length d" using len by linarith+
  show "unat (get_le32 (drop pos d)) = length k"
    unfolding d0 get_put using assms(2) by (rule unat_of_nat_small)
  show "subslice (pos + 4) (pos + 4 + length k) d = k" by (simp add: subslice_def d4)
  show "get_le64 (drop (pos + 4 + length k) d) = word_of_nat off" unfolding d4k by (simp add: codec_simps)
  show "drop (pos + 4 + length k + 8) d = index_bytes idx"
    using d4k by (metis add.commute drop_drop drop_put(2))
qed

lemma parse_index_loop_bytes:
  assumes "idx_fits idx" "drop pos d = index_bytes idx"
  shows "parse_index_loop d pos acc = Inr (acc @ idx_words idx)"
    and "parse_index_bytes_loop d pos acc = acc @ idx_words idx"
proof -
  have "parse_index_loop d pos acc = Inr (acc @ idx_words idx) \<and>
        parse_index_bytes_loop d pos acc = acc @ idx_words idx"
    using assms
  proof (induction idx arbitrary: pos acc)
    case Nil
    then show ?case
      by (simp add: parse_index_loop.simps [of d pos] parse_index_bytes_loop.simps [of d pos] idx_words_def)
  next
    case (Cons p idx)
    obtain k off where p: "p = (k, off)" by (cases p)
    have d: "drop pos d = index_bytes ((k, off) # idx)" and k: "length k < 2 ^ 32"
      and fits: "idx_fits idx"
      using Cons.prems by (simp_all add: p idx_fits_def)
    note at = index_at [OF d k]
    note IH = Cons.IH [OF fits at(7)]
    have le: "pos + 4 \<le> length d" using at(2) by linarith
    show ?case
      unfolding parse_index_loop.simps [of d pos] parse_index_bytes_loop.simps [of d pos]
      by (simp only: Let_def at le IH if_True if_False p)
        (simp add: idx_words_def)
  qed
  then show "parse_index_loop d pos acc = Inr (acc @ idx_words idx)"
    "parse_index_bytes_loop d pos acc = acc @ idx_words idx" by auto
qed

lemma parse_footer_bytes:
  "parse_footer (footer_bytes f) = f" "length (footer_bytes f) = 80"
proof -
  have get: "get_le64 (take 8 d) = get_le64 d" for d by (simp add: get_le64_def)
  have "subslice 0 8 d = take 8 d" "subslice 8 16 d = take 8 (drop 8 d)" "subslice 16 24 d = take 8 (drop 16 d)"
    "subslice 24 32 d = take 8 (drop 24 d)" "subslice 32 40 d = take 8 (drop 32 d)"
    "subslice 40 48 d = take 8 (drop 40 d)" "subslice 48 56 d = take 8 (drop 48 d)"
    "subslice 56 64 d = take 8 (drop 56 d)" "subslice 64 72 d = take 8 (drop 64 d)"
    "subslice 72 80 d = take 8 (drop 72 d)" for d :: bytes
    by (simp_all add: subslice_def)
  then show "parse_footer (footer_bytes f) = f"
    by (cases f) (simp add: parse_footer_def get, simp add: footer_bytes_def codec_simps)
  show "length (footer_bytes f) = 80" by (simp add: footer_bytes_def)
qed

lemma bloom_section_ok:
  assumes "length b < 2 ^ 32"
  shows "bloom_section dec (put_le32 (word_of_nat (length b)) @ b) = dec b"
  using assms by (simp add: bloom_section_def Let_def codec_simps subslice_def)

lemma go_slice_mid:
  "F = pre @ mid @ post \<Longrightarrow> a = length pre \<Longrightarrow> b = a + length mid \<Longrightarrow> go_slice a b F = Inr mid"
  by (simp add: go_slice_def subslice_def)

text \<open>
  The two key sections as the reader finds them: it looks for both at the offset of the first,
  so what it takes for the largest key is the smallest one if the lengths agree and nil if not.
\<close>

definition read_max :: "bytes option \<Rightarrow> bytes option \<Rightarrow> bytes" where
  "read_max mn mx = (if len_of mn = len_of mx then slice_of mn else [])"

lemma length_key_section [simp]: "length (key_section k) = 4 + len_of k"
  by (simp add: key_section_def len_of_def split: option.splits)

lemma len_slice [simp]: "length (slice_of k) = len_of k"
  by (simp add: len_of_def slice_of_def split: option.splits)

lemma slice_of_empty [simp]: "len_of k = 0 \<Longrightarrow> slice_of k = []"
  by (metis len_slice length_0_conv)

lemma key_section_slice: "key_section k = put_le32 (word_of_nat (len_of k)) @ slice_of k"
  by (simp add: key_section_def len_of_def slice_of_def split: option.splits)

lemma key_at:
  assumes F: "F = pre @ key_section mn @ post" and small: "length F < 2 ^ 63" "len_of mn < 2 ^ 32"
    and n: "n \<le> len_of mn + length post" "n < 2 ^ 32"
  defines "o' \<equiv> word_of_nat (length pre) :: u64"
  shows "parseKey F o' (word_of_nat n) = Inr (if n = len_of mn then slice_of mn else [])"
    and "fallback_key F o' (word_of_nat n) = (if n = len_of mn then slice_of mn else [])"
proof -
  let ?p = "length pre"
  have lenF: "length F = ?p + 4 + len_of mn + length post" by (simp add: F)
  have uns: "unat (word_of_nat k :: u64) = k" if "k \<le> length F" for k
    using that small(1) by (intro unat_of_nat_small) simp
  have sns: "sint (word_of_nat k :: u64) = int k" if "k \<le> length F" for k
    using that small(1) by (simp add: signed_of_nat signed_take_bit_int_eq_self)
  have s1: "o' + 4 + word_of_nat n = word_of_nat (?p + 4 + n)" by (simp add: o'_def)
  have s2: "4 + word_of_nat n = (word_of_nat (4 + n) :: u64)" by simp
  have v1: "unat (o' + 4 + word_of_nat n) = ?p + 4 + n" by (subst s1, rule uns, use lenF n(1) in simp)
  have v2: "unat (4 + word_of_nat n :: u64) = 4 + n" by (subst s2, rule uns, use lenF n(1) in simp)
  have v3: "unat o' = ?p" "sint o' = int ?p" unfolding o'_def using lenF by (simp_all add: uns sns)
  have v4: "sint (word_of_nat n :: u64) = int n" by (rule sns, use lenF n(1) in simp)
  have vn: "unat (word_of_nat n :: u64) = n" by (rule uns, use lenF n(1) in simp)
  have v5: "(word_of_nat n :: u64) = 0 \<longleftrightarrow> n = 0" using unat_0_iff [of "word_of_nat n :: u64"] unfolding vn by (rule sym)
  have v6: "\<not> o' + 4 + word_of_nat n > word_of_nat (length F)"
    unfolding word_less_nat_alt v1 using uns [of "length F"] lenF n(1) by simp
  have dr: "drop ?p F = put_le32 (word_of_nat (len_of mn)) @ slice_of mn @ post"
    by (simp add: F key_section_slice)
  have t4: "get_le32 (take 4 (take (4 + n) (drop ?p F))) = word_of_nat (len_of mn)"
    unfolding dr by (simp add: min_absorb1 codec_simps)
  have kl: "unat (word_of_nat (len_of mn) :: u32) = len_of mn" using small(2) by (simp add: codec_simps)
  then have ui: "uint (word_of_nat (len_of mn) :: u32) = int (len_of mn)" by (simp add: uint_nat)
  have gs: "go_slice ?p (?p + 4 + n) F = Inr (take (4 + n) (drop ?p F))"
    using lenF n(1) by (simp add: go_slice_def subslice_def)
  have len: "length (take (4 + n) (drop ?p F)) = 4 + n" using lenF n(1) by simp
  have sl: "subslice 4 (4 + len_of mn) (take (4 + len_of mn) (drop ?p F)) = slice_of mn"
    unfolding dr by (simp add: subslice_def)
  show "parseKey F o' (word_of_nat n) = Inr (if n = len_of mn then slice_of mn else [])"
  proof (cases "n = 0")
    case True
    then show ?thesis by (auto simp: parseKey_def v5)
  next
    case False
    then show ?thesis
      by (simp only: parseKey_def v5 v6 v1 v3 gs Let_def t4 ui v4 len kl sum.case simp_thms if_False)
        (auto simp: sl)
  qed
  have gt: "(word_of_nat n :: u64) > 0 \<longleftrightarrow> n \<noteq> 0" using v5 by (metis word_neq_0_conv)
  have ra: "read_at (4 + n) o' F = Inr (take (4 + n) (drop ?p F))"
    using lenF n(1) by (simp add: read_at_def v3 subslice_def)
  show "fallback_key F o' (word_of_nat n) = (if n = len_of mn then slice_of mn else [])"
  proof (cases "n = 0")
    case True
    then show ?thesis by (auto simp: fallback_key_def gt)
  next
    case False
    then show ?thesis
      by (simp only: fallback_key_def gt v2 ra Let_def t4 ui v4 kl sum.case simp_thms if_True)
        (auto simp: sl)
  qed
qed

section \<open>Opening a written table\<close>

definition writer_ok :: "sst_writer \<Rightarrow> bool" where
  "writer_ok w \<longleftrightarrow>
     bloom_wf (wr_bloom w) \<and>
     (\<forall>e \<in> set (wr_entries w). entry_fits e \<and> MayContain (wr_bloom w) (mk_key (re_key e))) \<and>
     (wr_entries w = [] \<longrightarrow> wr_minKey w = None \<and> wr_maxKey w = None) \<and>
     (wr_entries w \<noteq> [] \<longrightarrow>
       (\<exists>mn \<in> set (wr_entries w). wr_minKey w = Some (mk_key (re_key mn)) \<and>
          (\<forall>e \<in> set (wr_entries w). mk_key (re_key mn) \<le> mk_key (re_key e))) \<and>
       (\<exists>mx \<in> set (wr_entries w). wr_maxKey w = Some (mk_key (re_key mx)) \<and>
          (\<forall>e \<in> set (wr_entries w). mk_key (re_key e) \<le> mk_key (re_key mx))))"

definition sst_appends :: "(mvcc_key \<times> bytes option \<times> bool) list \<Rightarrow> sst_writer \<Rightarrow> sst_writer" where
  "sst_appends ops w = fold (\<lambda>(key, val, tagged). appendInternal key val tagged) ops w"

definition raw_of :: "mvcc_key \<times> bytes option \<times> bool \<Rightarrow> raw_entry" where
  "raw_of = (\<lambda>(key, val, tagged). \<lparr>re_key = key, re_value = val, re_tagged = tagged\<rparr>)"

lemma writer_ok_New: "bloom_wf b \<Longrightarrow> writer_ok (sst_NewWriter b)"
  by (simp add: writer_ok_def sst_NewWriter_def)

lemma appendInternal_fields:
  "wr_entries (appendInternal key val tagged w) = wr_entries w @ [raw_of (key, val, tagged)]"
  "wr_bloom (appendInternal key val tagged w) = bloom_Add (mk_key key) (wr_bloom w)"
  "wr_minKey (appendInternal key val tagged w) =
     (case wr_minKey w of None \<Rightarrow> Some (mk_key key) | Some mn \<Rightarrow> Some (min (mk_key key) mn))"
  "wr_maxKey (appendInternal key val tagged w) =
     (case wr_maxKey w of None \<Rightarrow> Some (mk_key key) | Some mx \<Rightarrow> Some (max (mk_key key) mx))"
  by (auto simp: appendInternal_def raw_of_def Let_def min_def max_def split: option.splits)

lemma writer_ok_append:
  assumes "writer_ok w" "entry_fits (raw_of (key, val, tagged))"
  shows "writer_ok (appendInternal key val tagged w)"
proof -
  let ?e = "raw_of (key, val, tagged)"
  have k: "re_key ?e = key" by (simp add: raw_of_def)
  have b: "bloom_wf (wr_bloom w)" using assms(1) by (simp add: writer_ok_def)
  show ?thesis
  proof (cases "wr_entries w = []")
    case True
    then show ?thesis
      using assms by (simp add: writer_ok_def appendInternal_fields k bloom_wf_Add MayContain_Add)
  next
    case False
    then obtain mn mx where m: "mn \<in> set (wr_entries w)" "wr_minKey w = Some (mk_key (re_key mn))"
      "\<forall>e \<in> set (wr_entries w). mk_key (re_key mn) \<le> mk_key (re_key e)"
      "mx \<in> set (wr_entries w)" "wr_maxKey w = Some (mk_key (re_key mx))"
      "\<forall>e \<in> set (wr_entries w). mk_key (re_key e) \<le> mk_key (re_key mx)"
      using assms(1) by (auto simp: writer_ok_def)
    have mn: "\<exists>mn' \<in> set (wr_entries w @ [?e]). min (mk_key key) (mk_key (re_key mn)) = mk_key (re_key mn') \<and>
        (\<forall>e \<in> set (wr_entries w @ [?e]). mk_key (re_key mn') \<le> mk_key (re_key e))"
      using m(1,3) k by (cases "mk_key key \<le> mk_key (re_key mn)") (auto simp: min_def intro: order_trans)
    have mx: "\<exists>mx' \<in> set (wr_entries w @ [?e]). max (mk_key key) (mk_key (re_key mx)) = mk_key (re_key mx') \<and>
        (\<forall>e \<in> set (wr_entries w @ [?e]). mk_key (re_key e) \<le> mk_key (re_key mx'))"
      using m(4,6) k by (cases "mk_key key \<le> mk_key (re_key mx)") (auto simp: max_def intro: order_trans)
    show ?thesis
      unfolding writer_ok_def appendInternal_fields m(2,5) option.case option.inject
      using mn mx assms b by (auto simp: writer_ok_def k bloom_wf_Add MayContain_Add MayContain_mono)
  qed
qed

lemma writer_ok_appends:
  assumes "\<forall>op \<in> set ops. entry_fits (raw_of op)" "writer_ok w"
  shows "writer_ok (sst_appends ops w)" "wr_entries (sst_appends ops w) = wr_entries w @ map raw_of ops"
proof -
  have "writer_ok (sst_appends ops w) \<and> wr_entries (sst_appends ops w) = wr_entries w @ map raw_of ops"
    using assms
    by (induction ops arbitrary: w) (auto simp: sst_appends_def writer_ok_append appendInternal_fields)
  then show "writer_ok (sst_appends ops w)" "wr_entries (sst_appends ops w) = wr_entries w @ map raw_of ops"
    by auto
qed

definition groups_of :: "sst_writer \<Rightarrow> raw_entry list list" where
  "groups_of w = form_groups (sort_key re_key (wr_entries w)) []"

definition blocks_of :: "sst_writer \<Rightarrow> (bytes \<times> bytes) list" where
  "blocks_of w = map group_block (groups_of w)"

definition block_index :: "sst_writer \<Rightarrow> (bytes \<times> nat) list" where
  "block_index w = map (\<lambda>i. (fst (blocks_of w ! i), length (frames (take i (blocks_of w))))) [0..<length (blocks_of w)]"

lemma Finish_eq:
  assumes "writer_ok w"
  shows "sst_Finish w = frames (blocks_of w) @
    writeFooter (length (frames (blocks_of w))) (block_index w) (wr_minKey w) (wr_maxKey w) w"
proof (cases "wr_entries w = []")
  case True
  with assms show ?thesis
    by (simp add: sst_Finish_def blocks_of_def groups_of_def block_index_def writer_ok_def)
next
  case False
  have fb: "form_blocks (sort_key re_key (wr_entries w)) [] [] = blocks_of w"
    using form_blocks_groups [of "sort_key re_key (wr_entries w)" "[]"] by (simp add: blocks_of_def groups_of_def)
  obtain out idx fin where wb: "write_blocks (blocks_of w) 0 = (out, idx, fin)" by (metis prod_cases3)
  note e = write_blocks_eq [OF wb]
  have "idx = block_index w"
    by (rule nth_equalityI) (simp_all add: e block_index_def)
  then show ?thesis
    using False e(1,2) by (simp add: sst_Finish_def fb wb Let_def)
qed

lemma bloom_Encode_small:
  assumes "bloom_wf b"
  shows "length (bloom_Encode b) < 2 ^ 32"
proof -
  have "unat (bf_m b + 63) \<le> unat (bf_m b) + 63"
    by (simp add: unat_word_ariths(1))
  moreover have "unat (bf_m b) \<le> 10000000"
    using assms by (simp add: bloom_wf_def MaxBits_def word_le_nat_alt)
  ultimately have "unat (bf_m b + 63) div 64 \<le> 156251" by linarith
  then have "length (bf_bits b) \<le> 156251"
    using assms by (simp add: bloom_wf_def unat_div)
  then show ?thesis by (simp add: bloom_Encode_def length_concat_words)
qed

definition opened :: "bool \<Rightarrow> sst_writer \<Rightarrow> footer \<Rightarrow> reader" where
  "opened mm w f =
     mk_reader (sst_Finish w) mm f (idx_words (block_index w)) (wr_bloom w)
       (slice_of (wr_minKey w)) (read_max (wr_minKey w) (wr_maxKey w))"

lemma concat_groups_of: "concat (groups_of w) = sort_key re_key (wr_entries w)"
  by (simp add: groups_of_def concat_form_groups)

lemma groups_of_nonempty: "g \<in> set (groups_of w) \<Longrightarrow> g \<noteq> []"
  using form_groups_nonempty by (auto simp: groups_of_def)

lemma groups_of_mem: "e \<in> set g \<Longrightarrow> g \<in> set (groups_of w) \<Longrightarrow> e \<in> set (wr_entries w)"
  using arg_cong [OF concat_groups_of [of w], of set] by auto

lemma idx_fits_block_index:
  assumes "writer_ok w"
  shows "idx_fits (block_index w)"
proof -
  have "length (fst b) < 2 ^ 32" if hb: "b \<in> set (blocks_of w)" for b
  proof -
    obtain g where g: "g \<in> set (groups_of w)" "b = group_block g" using hb by (auto simp: blocks_of_def)
    then have "hd g \<in> set g" using groups_of_nonempty by (metis hd_in_set)
    then have "hd g \<in> set (wr_entries w)" using g(1) by (rule groups_of_mem)
    then show ?thesis
      using assms by (auto simp: writer_ok_def entry_fits_def g(2) group_block_def)
  qed
  then show ?thesis by (auto simp: idx_fits_def block_index_def)
qed

lemma min_max_fits:
  assumes "writer_ok w"
  shows "len_of (wr_minKey w) < 2 ^ 32" "len_of (wr_maxKey w) < 2 ^ 32"
    "wr_minKey w = None \<longleftrightarrow> wr_entries w = []" "wr_maxKey w = None \<longleftrightarrow> wr_entries w = []"
proof -
  have "length (mk_key (re_key e)) < 2 ^ 32" if "e \<in> set (wr_entries w)" for e
    using assms that by (auto simp: writer_ok_def entry_fits_def)
  then show "len_of (wr_minKey w) < 2 ^ 32" "len_of (wr_maxKey w) < 2 ^ 32"
    "wr_minKey w = None \<longleftrightarrow> wr_entries w = []" "wr_maxKey w = None \<longleftrightarrow> wr_entries w = []"
    using assms by (cases "wr_entries w = []"; force simp: writer_ok_def len_of_def)+
qed

lemma Open_Finish:
  assumes ok: "writer_ok w" and small: "length (sst_Finish w) < 2 ^ 63"
    and dec: "dec (bloom_Encode (wr_bloom w)) = wr_bloom w"
  shows "\<exists>f. sst_Open dec (sst_Finish w) = Inr (opened True w f) \<and>
             openFallback dec (sst_Finish w) = Inr (opened False w f)"
proof -
  define F where "F = sst_Finish w"
  define out where "out = frames (blocks_of w)"
  define ib where "ib = index_bytes (block_index w)"
  define be where "be = bloom_Encode (wr_bloom w)"
  define bb where "bb = put_le32 (word_of_nat (length be)) @ be"
  define mn where "mn = wr_minKey w"
  define mx where "mx = wr_maxKey w"
  let ?o1 = "length out" let ?o2 = "length (out @ ib)" let ?o3 = "length (out @ ib @ bb)"
  obtain f where f: "F = out @ ib @ bb @ key_section mn @ key_section mx @ footer_bytes f"
    "ft_IndexOffset f = word_of_nat ?o1" "ft_IndexSize f = word_of_nat (length ib)"
    "ft_BloomOffset f = word_of_nat ?o2" "ft_BloomSize f = word_of_nat (length bb)"
    "ft_Magic f = MagicNumber" "ft_MinKeyOffset f = word_of_nat ?o3"
    "ft_MinKeyLength f = word_of_nat (len_of mn)" "ft_MaxKeyOffset f = word_of_nat ?o3"
    "ft_MaxKeyLength f = word_of_nat (len_of mx)"
    unfolding F_def Finish_eq [OF ok] writeFooter_def Let_def
    by (fold out_def ib_def be_def mn_def mx_def) (simp add: bb_def add.assoc)
  have lenF: "length F = ?o3 + (4 + len_of mn) + (4 + len_of mx) + 80"
    by (simp add: f(1) parse_footer_bytes)
  have smallF: "length F < 2 ^ 63" using small by (simp add: F_def)
  have uns: "unat (word_of_nat k :: u64) = k" if "k \<le> length F" for k
    using that smallF by (intro unat_of_nat_small) simp
  have sns: "sint (word_of_nat k :: u64) = int k" if "k \<le> length F" for k
    using that smallF by (simp add: signed_of_nat signed_take_bit_int_eq_self)
  have ft: "parse_footer (drop (length F - footerSize) F) = f"
  proof -
    have "length F - footerSize = length (out @ ib @ bb @ key_section mn @ key_section mx)"
      by (simp add: f(1) parse_footer_bytes footerSize_def)
    then have "drop (length F - footerSize) F = footer_bytes f" by (simp add: f(1))
    then show ?thesis by (simp add: parse_footer_bytes)
  qed
  have sum: "word_of_nat a + word_of_nat b = (word_of_nat (a + b) :: u64)" for a b by simp
  have idx: "parseIndex F (ft_IndexOffset f) (ft_IndexSize f) = Inr (idx_words (block_index w))"
  proof -
    have "go_slice ?o1 (?o1 + length ib) F = Inr ib" by (rule go_slice_mid [OF f(1)]) simp_all
    moreover have "parse_index_loop ib 0 [] = Inr (idx_words (block_index w))"
      using parse_index_loop_bytes(1) [OF idx_fits_block_index [OF ok], of 0 ib "[]"] by (simp add: ib_def)
    ultimately show ?thesis
      unfolding parseIndex_def f(2,3) sum by (simp add: uns lenF word_less_nat_alt del: of_nat_add)
  qed
  have bl: "bloom_section dec bb = wr_bloom w"
    unfolding bb_def using bloom_section_ok [of be] bloom_Encode_small ok dec
    by (simp add: be_def writer_ok_def)
  have gb: "go_slice ?o2 (?o2 + length bb) F = Inr bb"
    by (rule go_slice_mid [of F "out @ ib" bb "key_section mn @ key_section mx @ footer_bytes f"]) (simp_all add: f(1))
  have bloom: "parseBloomFilter dec F (ft_BloomOffset f) (ft_BloomSize f) = Inr (wr_bloom w)"
    unfolding parseBloomFilter_def f(4,5) sum using gb
    by (simp add: uns lenF word_less_nat_alt bl del: of_nat_add length_append)
      (simp add: uns lenF bl del: of_nat_add)
  note mf = min_max_fits [OF ok, folded mn_def mx_def]
  have ksF: "F = (out @ ib @ bb) @ key_section mn @ (key_section mx @ footer_bytes f)" by (simp add: f(1))
  have nle: "len_of mn \<le> len_of mn + length (key_section mx @ footer_bytes f)"
    "len_of mx \<le> len_of mn + length (key_section mx @ footer_bytes f)" by simp_all
  note kmn = key_at [OF ksF smallF mf(1) nle(1) mf(1)] and kmx = key_at [OF ksF smallF mf(1) nle(2) mf(2)]
  have mx': "(if len_of mx = len_of mn then slice_of mn else []) = read_max mn mx"
    by (simp add: read_max_def)
  have r1: "read_at (length ib) (word_of_nat ?o1) F = Inr ib"
    using lenF by (simp add: read_at_def uns sns subslice_def) (simp add: f(1))
  have r2: "read_at (length bb) (word_of_nat ?o2) F = Inr bb"
  proof -
    have "subslice ?o2 (?o2 + length bb) F = bb" by (simp add: f(1) subslice_def)
    moreover have "unat (word_of_nat ?o2 :: u64) = ?o2" "sint (word_of_nat ?o2 :: u64) = int ?o2"
      by (rule uns sns, simp add: lenF)+
    ultimately show ?thesis using lenF by (simp add: read_at_def del: of_nat_add length_append) simp
  qed
  have pib: "parseIndexBytes ib = idx_words (block_index w)"
    using parse_index_loop_bytes(2) [OF idx_fits_block_index [OF ok], of 0 ib "[]"]
    by (simp add: ib_def parseIndexBytes_def)
  have us: "unat (word_of_nat (length ib) :: u64) = length ib" "unat (word_of_nat (length bb) :: u64) = length bb"
    by (rule uns, simp add: lenF)+
  have big: "\<not> length F < footerSize" by (simp add: lenF footerSize_def)
  have o1: "sst_Open dec F = Inr (opened True w f)"
    by (simp only: sst_Open_def big Let_def ft f(6) idx bloom f(7,8,9,10) kmn(1) kmx(1) if_False sum.case simp_thms mx')
      (simp add: opened_def F_def mn_def mx_def)
  have o2: "openFallback dec F = Inr (opened False w f)"
    by (simp only: openFallback_def big Let_def ft f(2-10) us r1 r2 pib bl kmn(2) kmx(2) if_False sum.case simp_thms mx')
      (simp add: opened_def F_def mn_def mx_def)
  from o1 o2 show ?thesis by (auto simp: F_def)
qed

section \<open>Reading the blocks back\<close>

lemma form_groups_size:
  assumes "cur \<noteq> [] \<longrightarrow> length (block_bytes cur) \<le> BlockSize \<or> length cur = 1"
    and "g \<in> set (form_groups es cur)"
  shows "length (block_bytes g) \<le> BlockSize \<or> length g = 1"
  using assms
proof (induction es cur rule: form_groups.induct)
  case (1 cur)
  then show ?case by (auto split: if_splits)
next
  case (2 e es cur)
  show ?case
  proof (cases "length (block_bytes cur) + length (entry_bytes e) > BlockSize \<and> cur \<noteq> []")
    case True
    with 2 show ?thesis by auto
  next
    case False
    then have "length (block_bytes (cur @ [e])) \<le> BlockSize \<or> length (cur @ [e]) = 1" by auto
    with 2 False show ?thesis by auto
  qed
qed

lemma block_small:
  assumes "writer_ok w" "g \<in> set (groups_of w)"
  shows "length (block_bytes g) + 8 < 2 ^ 32"
proof -
  have fits: "entry_fits e" if "e \<in> set g" for e
    using assms that groups_of_mem by (auto simp: writer_ok_def)
  have "length (block_bytes g) \<le> BlockSize \<or> length g = 1"
    using form_groups_size [of "[]"] assms(2) by (auto simp: groups_of_def)
  then show ?thesis
  proof
    assume "length g = 1"
    then obtain e where "g = [e]" by (auto simp: length_Suc_conv)
    then show ?thesis using fits [of e] by (simp add: entry_fits_def length_entry_bytes)
  qed (simp add: BlockSize_def)
qed

lemma readBlock_opened:
  assumes ok: "writer_ok w" and small: "length (sst_Finish w) < 2 ^ 63" and i: "i < length (groups_of w)"
  shows "rd_index (opened mm w f) ! i = (mk_key (re_key (hd (groups_of w ! i))), snd (idx_words (block_index w) ! i))"
    and "readBlock (opened mm w f) (snd (rd_index (opened mm w f) ! i)) = Inr (block_bytes (groups_of w ! i))"
proof -
  let ?bs = "blocks_of w" let ?g = "groups_of w ! i"
  have n: "length ?bs = length (groups_of w)" by (simp add: blocks_of_def)
  have bi: "?bs ! i = group_block ?g" using i by (simp add: blocks_of_def)
  have ix: "idx_words (block_index w) ! i = (fst (?bs ! i), word_of_nat (length (frames (take i ?bs))))"
    using i n by (simp add: idx_words_def block_index_def)
  then show "rd_index (opened mm w f) ! i = (mk_key (re_key (hd ?g)), snd (idx_words (block_index w) ! i))"
    by (simp add: opened_def mk_reader_def bi group_block_def)
  have split: "frames ?bs = frames (take i ?bs) @ frame (block_bytes ?g) @ frames (drop (Suc i) ?bs)"
  proof -
    have "?bs = take i ?bs @ ?bs ! i # drop (Suc i) ?bs" using i n by (simp add: id_take_nth_drop)
    then have "frames ?bs = frames (take i ?bs @ ?bs ! i # drop (Suc i) ?bs)" by (rule arg_cong)
    then show ?thesis by (simp add: bi group_block_def)
  qed
  obtain post where F: "sst_Finish w = frames (take i ?bs) @ frame (block_bytes ?g) @ post"
    using Finish_eq [OF ok] split by (metis append.assoc)
  have "length (block_bytes ?g) + 8 < 2 ^ 32" using block_small [OF ok] i by simp
  note rf = read_frame [OF F small this]
  show "readBlock (opened mm w f) (snd (rd_index (opened mm w f) ! i)) = Inr (block_bytes ?g)"
    using rf by (simp add: readBlock_def opened_def mk_reader_def ix)
qed

lemma groups_fit:
  "writer_ok w \<Longrightarrow> g \<in> set (groups_of w) \<Longrightarrow> \<forall>e \<in> set g. entry_fits e"
  using groups_of_mem by (auto simp: writer_ok_def)

lemma mvcc_le_key: "a \<le> b \<Longrightarrow> mk_key a \<le> mk_key b"
  by (auto simp: mvcc_le_iff)

lemma groups_sorted:
  "sorted (map re_key (concat (groups_of w)))" "g \<in> set (groups_of w) \<Longrightarrow> sorted (map re_key g)"
proof -
  show s: "sorted (map re_key (concat (groups_of w)))" by (simp add: concat_groups_of)
  assume "g \<in> set (groups_of w)"
  then obtain xs ys where "groups_of w = xs @ g # ys" by (auto simp: in_set_conv_decomp)
  with s show "sorted (map re_key g)" by (simp add: sorted_append)
qed

lemma groups_order:
  assumes "i < j" "j < length (groups_of w)" "e \<in> set (groups_of w ! i)" "e' \<in> set (groups_of w ! j)"
  shows "re_key e \<le> re_key e'"
proof -
  let ?gs = "groups_of w"
  have "?gs = take j ?gs @ drop j ?gs" by simp
  then have c: "concat ?gs = concat (take j ?gs) @ concat (drop j ?gs)" by (metis concat_append)
  have "?gs ! i \<in> set (take j ?gs)" using assms(1,2) by (auto simp: in_set_conv_nth)
  then have "e \<in> set (concat (take j ?gs))" using assms(3) by auto
  moreover have "?gs ! j \<in> set (drop j ?gs)"
    using assms(2) by (metis Cons_nth_drop_Suc list.set_intros(1))
  then have "e' \<in> set (concat (drop j ?gs))" using assms(4) by auto
  ultimately show ?thesis
    using groups_sorted(1) [of w] unfolding c by (auto simp: sorted_append)
qed

end
