(* ===== verification/SSTProofs.thy ===== *)
theory SSTProofs
  imports SSTFormat "HOL-Library.Multiset"
begin

text \<open>
  The properties of a finished table: \<open>Lookup\<close> through the index, the Bloom filter and one
  block finds the newest visible version of a key, and the iterator yields every entry.
\<close>

section \<open>Lookup\<close>

lemma sort_Search_least:
  assumes "\<forall>a b. a \<le> b \<longrightarrow> f a \<longrightarrow> f b" "i \<le> j"
  shows "i \<le> sort_Search f i j \<and> sort_Search f i j \<le> j \<and>
    (\<forall>k. i \<le> k \<and> k < sort_Search f i j \<longrightarrow> \<not> f k) \<and> (sort_Search f i j < j \<longrightarrow> f (sort_Search f i j))"
  using assms
proof (induction f i j rule: sort_Search.induct)
  case (1 f i j)
  show ?case
  proof (cases "i < j")
    case False
    with "1.prems"(2) have "i = j" by simp
    then show ?thesis by (auto simp: sort_Search.simps [of f j j])
  next
    case True
    let ?h = "(i + j) div 2"
    have h: "i \<le> ?h" "?h < j" using True by auto
    show ?thesis
    proof (cases "f ?h")
      case True
      let ?r = "sort_Search f i ?h"
      have r: "i \<le> ?r \<and> ?r \<le> ?h \<and> (\<forall>k. i \<le> k \<and> k < ?r \<longrightarrow> \<not> f k) \<and> (?r < ?h \<longrightarrow> f ?r)"
        using "1.IH"(2) [OF \<open>i < j\<close> refl _ "1.prems"(1)] True h by simp
      moreover have "f ?r" using r True by (cases "?r < ?h") (auto simp: le_less)
      moreover have "sort_Search f i j = ?r"
        using \<open>i < j\<close> True by (simp add: sort_Search.simps [of f i j])
      ultimately show ?thesis using h by auto
    next
      case False
      let ?r = "sort_Search f (?h + 1) j"
      have r: "?h + 1 \<le> ?r \<and> ?r \<le> j \<and> (\<forall>k. ?h + 1 \<le> k \<and> k < ?r \<longrightarrow> \<not> f k) \<and> (?r < j \<longrightarrow> f ?r)"
        using "1.IH"(1) [OF \<open>i < j\<close> refl _ "1.prems"(1)] False h by simp
      have nf: "\<not> f k" if "k < ?r" for k
      proof (cases "?h + 1 \<le> k")
        case True
        then show ?thesis using r that by blast
      next
        case nle: False
        then have "k \<le> ?h" by simp
        then show ?thesis using "1.prems"(1) [rule_format, of k ?h] False by auto
      qed
      have e: "sort_Search f i j = ?r"
        using \<open>i < j\<close> False by (simp add: sort_Search.simps [of f i j])
      have "i \<le> ?r" using r [THEN conjunct1] h(1) by linarith
      moreover note r [THEN conjunct2, THEN conjunct1] r [THEN conjunct2, THEN conjunct2, THEN conjunct2]
      ultimately show ?thesis unfolding e using nf by (intro conjI) auto
    qed
  qed
qed

definition matching :: "bytes \<Rightarrow> u64 \<Rightarrow> raw_entry \<Rightarrow> bool" where
  "matching userKey ts e \<longleftrightarrow> mk_key (re_key e) = userKey \<and> CommitTS (re_key e) \<le> ts"

lemma scan_spec_filter:
  assumes "sorted (map (mk_key \<circ> re_key) es)"
  shows "scan_spec userKey ts es best =
    (let vs = filter (matching userKey ts) es in if vs = [] then best else Some (scan_result (last vs)))"
  using assms
proof (induction es arbitrary: best)
  case Nil
  then show ?case by simp
next
  case (Cons e es)
  have none: "filter (matching userKey ts) es = []" if "mk_key (re_key e) > userKey"
    using Cons.prems that by (auto simp: filter_empty_conv matching_def)
  have m: "matching userKey ts e \<longleftrightarrow> mk_key (re_key e) = userKey \<and> \<not> CommitTS (re_key e) > ts"
    by (auto simp: matching_def)
  have IH: "scan_spec userKey ts es b =
      (if filter (matching userKey ts) es = [] then b
       else Some (scan_result (last (filter (matching userKey ts) es))))" for b
    using Cons by (simp add: Let_def)
  show ?case
    using none by (auto simp: Let_def m IH)
qed

definition first_key :: "sst_writer \<Rightarrow> nat \<Rightarrow> bytes" where
  "first_key w i = mk_key (re_key (hd (groups_of w ! i)))"

lemma first_key_least: "i < length (groups_of w) \<Longrightarrow> e \<in> set (groups_of w ! i) \<Longrightarrow> first_key w i \<le> mk_key (re_key e)"
proof -
  assume i: "i < length (groups_of w)" and e: "e \<in> set (groups_of w ! i)"
  have "sorted (map re_key (groups_of w ! i))" by (rule groups_sorted(2) [where w = w]) (use i in simp)
  then have "re_key (hd (groups_of w ! i)) \<le> re_key e"
    using e by (cases "groups_of w ! i") auto
  then show ?thesis by (simp add: first_key_def mvcc_le_key)
qed

lemma hd_group: "i < length (groups_of w) \<Longrightarrow> hd (groups_of w ! i) \<in> set (groups_of w ! i)"
  using groups_of_nonempty [of "groups_of w ! i" w] by simp

lemma first_key_mono: "i \<le> j \<Longrightarrow> j < length (groups_of w) \<Longrightarrow> first_key w i \<le> first_key w j"
  using groups_order [OF _ _ hd_group hd_group, of i j w] by (cases "i = j") (auto simp: first_key_def mvcc_le_key)

lemma length_rd_index [simp]: "length (rd_index (opened mm w f)) = length (groups_of w)"
  by (simp add: opened_def mk_reader_def idx_words_def block_index_def blocks_of_def)

lemma opened_simps [simp]:
  "rd_closed (opened mm w f) = False" "rd_bloom (opened mm w f) = wr_bloom w"
  "rd_minKey (opened mm w f) = slice_of (wr_minKey w)"
  "rd_maxKey (opened mm w f) = read_max (wr_minKey w) (wr_maxKey w)"
  by (simp_all add: opened_def mk_reader_def)

definition in_one_block :: "sst_writer \<Rightarrow> bytes \<Rightarrow> bool" where
  "in_one_block w k \<longleftrightarrow>
     (\<exists>j. \<forall>i < length (groups_of w). \<forall>e \<in> set (groups_of w ! i). mk_key (re_key e) = k \<longrightarrow> i = j)"

lemma sort_Search_cong: "\<forall>k < j. f k = g k \<Longrightarrow> sort_Search f i j = sort_Search g i j"
proof (induction f i j rule: sort_Search.induct)
  case (1 f i j)
  show ?case
    using "1.IH" "1.prems" by (subst (1 2) sort_Search.simps) (simp add: Let_def)
qed

lemma lookup_block_opened:
  assumes ok: "writer_ok w" and small: "length (sst_Finish w) < 2 ^ 63" and ne: "groups_of w \<noteq> []"
  shows "lookup_block (opened mm w f) k < length (groups_of w)"
    and "in_one_block w k \<Longrightarrow> i < length (groups_of w) \<Longrightarrow> e \<in> set (groups_of w ! i) \<Longrightarrow>
      mk_key (re_key e) = k \<Longrightarrow> lookup_block (opened mm w f) k = i"
proof -
  let ?r = "opened mm w f" let ?n = "length (groups_of w)"
  let ?P = "\<lambda>i. CompareKeys (fst (rd_index ?r ! i)) k \<ge> 0"
  define P where "P i \<longleftrightarrow> i \<ge> ?n \<or> k \<le> first_key w i" for i
  have P: "?P i \<longleftrightarrow> P i" if "i < ?n" for i
    using that readBlock_opened(1) [OF ok small that, of mm f] by (auto simp: P_def first_key_def)
  define s where "s = sort_Search ?P 0 ?n"
  have eq: "s = sort_Search P 0 ?n" unfolding s_def by (rule sort_Search_cong) (use P in blast)
  have mono: "\<forall>a b. a \<le> b \<longrightarrow> P a \<longrightarrow> P b"
  proof (intro allI impI)
    fix a b :: nat
    assume "a \<le> b" "P a"
    then show "P b" using first_key_mono [of a b w] by (cases "b < ?n") (auto simp: P_def)
  qed
  have sl: "0 \<le> s \<and> s \<le> ?n \<and> (\<forall>k. 0 \<le> k \<and> k < s \<longrightarrow> \<not> P k) \<and> (s < ?n \<longrightarrow> P s)"
    unfolding eq by (rule sort_Search_least [OF mono le0])
  have s: "s \<le> ?n" "s < ?n \<Longrightarrow> P s"
    using sl [THEN conjunct2, THEN conjunct1] sl [THEN conjunct2, THEN conjunct2, THEN conjunct2] by (blast, blast)
  have s2: "\<not> P i" if "i < s" for i
    using sl [THEN conjunct2, THEN conjunct2, THEN conjunct1, rule_format, of i] that by simp
  have lb: "lookup_block ?r k = (if s = ?n then ?n - 1 else if s > 0 \<and> first_key w s \<noteq> k then s - 1 else s)"
  proof -
    have "CompareKeys (fst (rd_index ?r ! s)) k \<noteq> 0 \<longleftrightarrow> first_key w s \<noteq> k" if "s < ?n"
      using readBlock_opened(1) [OF ok small that, of mm f] by (simp add: first_key_def)
    then show ?thesis using s(1) unfolding lookup_block_def Let_def s_def [symmetric] length_rd_index by auto
  qed
  show "lookup_block ?r k < ?n" unfolding lb using s(1) ne by auto
  assume one: "in_one_block w k" and i: "i < ?n" "e \<in> set (groups_of w ! i)" "mk_key (re_key e) = k"
  have uniq: "j = i" if "j < ?n" "e' \<in> set (groups_of w ! j)" "mk_key (re_key e') = k" for j e'
    using one that i by (metis in_one_block_def)
  have fki: "first_key w i \<le> k" using first_key_least i by blast
  have fk: "first_key w j \<noteq> k" if "j < ?n" "j \<noteq> i" for j
    using uniq hd_group that by (metis first_key_def)
  show "lookup_block ?r k = i"
  proof (cases "first_key w i = k")
    case True
    have "\<not> s > i" using s2 [of i] True i(1) by (auto simp: P_def)
    moreover have "s = i" if "s < i"
    proof -
      have "k \<le> first_key w s" using s(2) that i(1) by (simp add: P_def)
      moreover have "first_key w s \<le> first_key w i" using that i(1) by (intro first_key_mono) auto
      ultimately have "first_key w s = k" using True by auto
      then show ?thesis using fk [of s] that i(1) by auto
    qed
    ultimately have "s = i" by (cases "s < i") auto
    then show ?thesis unfolding lb using i(1) True by auto
  next
    case False
    then have lt: "first_key w i < k" using fki by auto
    have "s > i"
    proof (rule ccontr)
      assume "\<not> s > i"
      then have "k \<le> first_key w i" using s(2) i(1) first_key_mono [of s i w] by (auto simp: P_def intro: order_trans)
      then show False using lt by auto
    qed
    moreover have "s \<le> i + 1"
    proof (rule ccontr)
      assume a: "\<not> s \<le> i + 1"
      then have n: "i + 1 < ?n" "\<not> P (i + 1)" using s(1) s2 [of "i + 1"] by auto
      then have "first_key w (i + 1) < k" by (auto simp: P_def)
      moreover have "re_key e \<le> re_key (hd (groups_of w ! (i + 1)))"
        by (rule groups_order [OF _ n(1) i(2) hd_group [OF n(1)]]) simp
      then have "k \<le> first_key w (i + 1)" using i(3) mvcc_le_key by (auto simp: first_key_def)
      ultimately show False by auto
    qed
    ultimately have si: "s = i + 1" by auto
    have "s = ?n \<or> first_key w s \<noteq> k" using fk [of s] si s(1) by (cases "s = ?n") auto
    then show ?thesis unfolding lb using si s(1) i(1) by auto
  qed
qed

definition entry_answer :: "raw_entry \<Rightarrow> bytes option \<times> bool" where
  "entry_answer e = (if is_tomb (stored_bytes e) then (None, False) else (Some (payload (stored_bytes e)), True))"

definition newest_visible :: "raw_entry list \<Rightarrow> bytes \<Rightarrow> u64 \<Rightarrow> raw_entry \<Rightarrow> bool" where
  "newest_visible es k ts e \<longleftrightarrow> e \<in> set es \<and> matching k ts e \<and>
     (\<forall>e' \<in> set es. matching k ts e' \<longrightarrow> CommitTS (re_key e') \<le> CommitTS (re_key e))"

text \<open>The filter by smallest and largest key does not reject the key.\<close>

definition passes_range :: "sst_writer \<Rightarrow> bytes \<Rightarrow> bool" where
  "passes_range w k \<longleftrightarrow>
     read_max (wr_minKey w) (wr_maxKey w) = [] \<or> k \<le> read_max (wr_minKey w) (wr_maxKey w)"

lemma lookup_cases:
  fixes mm :: bool and f :: footer
  assumes ok: "writer_ok w" and small: "length (sst_Finish w) < 2 ^ 63"
  defines "r \<equiv> opened mm w f"
  obtains "sst_Lookup r key = Inr (None, False)"
      "\<not> passes_range w (mk_key key) \<or> (\<forall>e \<in> set (wr_entries w). mk_key (re_key e) \<noteq> mk_key key)"
  | j where "j < length (groups_of w)" "j = lookup_block r (mk_key key)"
      "sst_Lookup r key = Inr
        (let vs = filter (matching (mk_key key) (CommitTS key)) (groups_of w ! j)
         in if vs = [] then (None, False) else entry_answer (last vs))"
proof -
  let ?k = "mk_key key"
  have none: "\<forall>e \<in> set (wr_entries w). mk_key (re_key e) \<noteq> ?k" if "\<not> MayContain (wr_bloom w) ?k"
    using ok that by (auto simp: writer_ok_def)
  have low: "\<forall>e \<in> set (wr_entries w). mk_key (re_key e) \<noteq> ?k" if "?k < slice_of (wr_minKey w)"
    using ok that by (cases "wr_entries w = []") (fastforce simp: writer_ok_def slice_of_def)+
  consider "?k < slice_of (wr_minKey w)" | "\<not> passes_range w ?k" | "\<not> MayContain (wr_bloom w) ?k"
    | "groups_of w = []" | "\<not> ?k < slice_of (wr_minKey w)" "passes_range w ?k" "MayContain (wr_bloom w) ?k" "groups_of w \<noteq> []"
    by blast
  then show thesis
  proof cases
    case 1
    then have "len_of (wr_minKey w) > 0" by (cases "len_of (wr_minKey w) = 0") auto
    then have "sst_Lookup r key = Inr (None, False)" using 1 by (auto simp: sst_Lookup_def r_def Let_def)
    then show ?thesis using low [OF 1] that(1) by blast
  next
    case 2
    then have "sst_Lookup r key = Inr (None, False)"
      by (auto simp: sst_Lookup_def r_def passes_range_def not_le Let_def)
    then show ?thesis using 2 that(1) by blast
  next
    case 3
    then have "sst_Lookup r key = Inr (None, False)" by (auto simp: sst_Lookup_def r_def Let_def)
    then show ?thesis using none [OF 3] that(1) by blast
  next
    case 4
    then have "rd_index r = []" using length_rd_index [of mm w f] by (simp add: r_def flip: length_0_conv)
    then have "sst_Lookup r key = Inr (None, False)" by (auto simp: sst_Lookup_def r_def Let_def)
    moreover have "wr_entries w = []" using 4 concat_groups_of [of w]
      by (metis concat.simps(1) length_0_conv length_sort)
    ultimately show ?thesis using that(1) by simp
  next
    case 5
    define j where "j = lookup_block r ?k"
    have j: "j < length (groups_of w)" unfolding j_def r_def by (rule lookup_block_opened(1) [OF ok small 5(4)])
    let ?g = "groups_of w ! j"
    have g: "?g \<in> set (groups_of w)" using j by simp
    have rb: "readBlock r (snd (rd_index r ! j)) = Inr (block_bytes ?g)"
      unfolding r_def by (rule readBlock_opened(2) [OF ok small j])
    have sc: "lookup_scan (block_bytes ?g) ?k (CommitTS key) 0 None = Inr (scan_spec ?k (CommitTS key) ?g None)"
      by (rule lookup_scan_spec [OF groups_fit [OF ok g]]) simp
    have sg: "sorted (map (mk_key \<circ> re_key) ?g)"
      using groups_sorted(2) [OF g]
      by (simp add: sorted_wrt_map) (erule sorted_wrt_mono_rel [rotated], simp add: mvcc_le_key)
    have ix: "rd_index r \<noteq> []" "\<not> j \<ge> length (rd_index r)"
      using j length_rd_index [of mm w f] by (auto simp: r_def simp del: length_rd_index)
    have nl: "\<not> (length (rd_minKey r) > 0 \<and> CompareKeys ?k (rd_minKey r) < 0)"
      "\<not> (length (rd_maxKey r) > 0 \<and> CompareKeys ?k (rd_maxKey r) > 0)" "MayContain (rd_bloom r) ?k" "\<not> rd_closed r"
      using 5 by (auto simp: r_def passes_range_def)
    have "sst_Lookup r key = Inr
        (let vs = filter (matching ?k (CommitTS key)) ?g
         in if vs = [] then (None, False) else entry_answer (last vs))"
      unfolding sst_Lookup_def Let_def j_def [symmetric]
      using ix nl by (simp only: rb sc scan_spec_filter [OF sg] if_False if_True simp_thms sum.case)
        (simp add: Let_def scan_result_def entry_answer_def)
    then show ?thesis using that(2) [OF j j_def] by blast
  qed
qed

lemma group_unique_newest:
  assumes "sorted (map re_key g)" "filter (matching k ts) g \<noteq> []"
  shows "newest_visible g k ts (last (filter (matching k ts) g))"
proof -
  let ?vs = "filter (matching k ts) g"
  have s: "sorted (map re_key ?vs)" using assms(1) by (rule sorted_filter)
  have l: "last ?vs \<in> set ?vs" using assms(2) by (rule last_in_set)
  have "CommitTS (re_key e) \<le> CommitTS (re_key (last ?vs))" if "e \<in> set g" "matching k ts e" for e
  proof -
    have "e \<in> set ?vs" using that by simp
    then have "re_key e \<le> re_key (last ?vs)"
      using sorted_wrt_last [of "(\<le>)" re_key ?vs e] s by auto
    then show ?thesis using that(2) l by (auto simp: mvcc_le_iff matching_def)
  qed
  then show ?thesis using l by (auto simp: newest_visible_def)
qed

lemma newest_visible_unique:
  assumes "distinct (map re_key es)" "newest_visible es k ts e" "newest_visible es k ts e'"
  shows "e = e'"
proof -
  have "CommitTS (re_key e) = CommitTS (re_key e')" "mk_key (re_key e) = mk_key (re_key e')"
    using assms(2,3) by (auto simp: newest_visible_def matching_def intro: order_antisym)
  then have "re_key e = re_key e'" by (simp add: mvcc_key.expand)
  then show ?thesis using assms by (auto simp: newest_visible_def distinct_map inj_on_def)
qed

lemma lookup_same:
  assumes ok: "writer_ok w" and small: "length (sst_Finish w) < 2 ^ 63"
  shows "sst_Lookup (opened True w f) key = sst_Lookup (opened False w f) key"
proof -
  have idx: "rd_index (opened True w f) = rd_index (opened False w f)" by (simp add: opened_def mk_reader_def)
  then have lb: "lookup_block (opened True w f) k = lookup_block (opened False w f) k" for k
    by (simp only: lookup_block_def idx)
  have rb: "readBlock (opened True w f) (snd (rd_index (opened False w f) ! i)) =
      readBlock (opened False w f) (snd (rd_index (opened False w f) ! i))" if "i < length (groups_of w)" for i
    using readBlock_opened(2) [OF ok small that, of True f] readBlock_opened(2) [OF ok small that, of False f]
    by (simp add: idx)
  show ?thesis
    unfolding sst_Lookup_def by (auto simp: Let_def idx lb rb)
qed

lemma entries_in_groups:
  assumes "e \<in> set (wr_entries w)"
  shows "\<exists>i < length (groups_of w). e \<in> set (groups_of w ! i)"
proof -
  have "set (concat (groups_of w)) = set (wr_entries w)" by (simp only: concat_groups_of set_sort)
  then obtain g where "g \<in> set (groups_of w)" "e \<in> set g" using assms by auto
  then show ?thesis by (metis in_set_conv_nth)
qed

lemma lookup_complete:
  assumes ok: "writer_ok w" and small: "length (sst_Finish w) < 2 ^ 63"
    and one: "in_one_block w (mk_key key)" and pr: "passes_range w (mk_key key)"
  shows "newest_visible (wr_entries w) (mk_key key) (CommitTS key) e \<Longrightarrow> distinct (map re_key (wr_entries w)) \<Longrightarrow>
      sst_Lookup (opened mm w f) key = Inr (entry_answer e)"
    and "(\<nexists>e. newest_visible (wr_entries w) (mk_key key) (CommitTS key) e) \<Longrightarrow>
      sst_Lookup (opened mm w f) key = Inr (None, False)"
proof -
  let ?k = "mk_key key" let ?ts = "CommitTS key" let ?L = "sst_Lookup (opened mm w f) key"
  have "(?L = Inr (None, False) \<and> (\<nexists>e. newest_visible (wr_entries w) ?k ?ts e)) \<or>
      (\<exists>e. newest_visible (wr_entries w) ?k ?ts e \<and> ?L = Inr (entry_answer e))"
  proof (rule lookup_cases [OF ok small, of mm f key])
    assume "?L = Inr (None, False)" "\<not> passes_range w ?k \<or> (\<forall>e \<in> set (wr_entries w). mk_key (re_key e) \<noteq> ?k)"
    then show ?thesis using pr by (auto simp: newest_visible_def matching_def)
  next
    fix j
    assume j: "j < length (groups_of w)" "j = lookup_block (opened mm w f) ?k"
      and L: "?L = Inr (let vs = filter (matching ?k ?ts) (groups_of w ! j)
         in if vs = [] then (None, False) else entry_answer (last vs))"
    let ?g = "groups_of w ! j"
    have ne: "groups_of w \<noteq> []" using j(1) by auto
    have all: "e \<in> set ?g" if em: "e \<in> set (wr_entries w)" "matching ?k ?ts e" for e
    proof -
      obtain i where i: "i < length (groups_of w)" "e \<in> set (groups_of w ! i)"
        using entries_in_groups [OF em(1)] by blast
      have "j = i" unfolding j(2)
        by (rule lookup_block_opened(2) [OF ok small ne one i]) (use em in \<open>simp add: matching_def\<close>)
      then show ?thesis using i by simp
    qed
    have g: "?g \<in> set (groups_of w)" using j(1) by simp
    show ?thesis
    proof (cases "filter (matching ?k ?ts) ?g = []")
      case True
      then show ?thesis using L all by (auto simp: newest_visible_def filter_empty_conv)
    next
      case False
      have "newest_visible ?g ?k ?ts (last (filter (matching ?k ?ts) ?g))"
        by (rule group_unique_newest [OF groups_sorted(2) [OF g] False])
      then have "newest_visible (wr_entries w) ?k ?ts (last (filter (matching ?k ?ts) ?g))"
        using all groups_of_mem [OF _ g] by (auto simp: newest_visible_def)
      then show ?thesis using L False by (auto simp: Let_def)
    qed
  qed
  then show "newest_visible (wr_entries w) ?k ?ts e \<Longrightarrow> distinct (map re_key (wr_entries w)) \<Longrightarrow> ?L = Inr (entry_answer e)"
    "(\<nexists>e. newest_visible (wr_entries w) ?k ?ts e) \<Longrightarrow> ?L = Inr (None, False)"
    using newest_visible_unique by blast+
qed

lemma lookup_sound:
  assumes ok: "writer_ok w" and small: "length (sst_Finish w) < 2 ^ 63"
  shows "sst_Lookup (opened mm w f) key = Inr (None, False) \<or>
    (\<exists>e \<in> set (wr_entries w). matching (mk_key key) (CommitTS key) e \<and>
       sst_Lookup (opened mm w f) key = Inr (entry_answer e))"
proof (rule lookup_cases [OF ok small, of mm f key])
  fix j
  let ?vs = "filter (matching (mk_key key) (CommitTS key)) (groups_of w ! j)"
  assume j: "j < length (groups_of w)"
    and L: "sst_Lookup (opened mm w f) key = Inr (let vs = ?vs in if vs = [] then (None, False) else entry_answer (last vs))"
  show ?thesis
  proof (cases "?vs = []")
    case False
    then have "last ?vs \<in> set ?vs" by (rule last_in_set)
    then have l: "last ?vs \<in> set (groups_of w ! j)" "matching (mk_key key) (CommitTS key) (last ?vs)" by auto
    have "last ?vs \<in> set (wr_entries w)" by (rule groups_of_mem [OF l(1)]) (use j in simp)
    then show ?thesis using L l False by (auto simp: Let_def)
  qed (use L in simp)
qed simp

text \<open>
  C10. What the writer finishes is what the reader finds. Take entries with pairwise different
  versioned keys, within the 32-bit length fields, appended to a new writer, and a file below
  \<^verbatim>\<open>2^63\<close> bytes. The file opens on the mapped and on the fallback path, and with either reader
  a lookup never fails: it answers with one of the stored versions of the key that are not
  newer than the snapshot, or with nothing. If in addition the versions of the key lie in one
  block and the key passes the range filter, the answer is exactly the newest visible version,
  where a tombstone is answered as not found.
\<close>

theorem sstable_lookup_correct:
  fixes raw_bits :: "u64 \<Rightarrow> u64" and raw_hashes :: "u64 \<Rightarrow> u64 \<Rightarrow> u64" and r1 r2 :: u32 and expected :: int
  assumes "\<forall>op \<in> set ops. entry_fits (raw_of op)" and "distinct (map fst ops)"
  defines "w \<equiv> sst_appends ops (sst_NewWriter (NewBloomFilter raw_bits raw_hashes r1 r2 expected))"
  assumes "length (sst_Finish w) < 2 ^ 63"
  shows "\<exists>r r'. sst_Open (DecodeBloomFilter est g r3 r4) (sst_Finish w) = Inr r \<and>
      openFallback (DecodeBloomFilter est g r3 r4) (sst_Finish w) = Inr r' \<and>
      (\<forall>key. sst_Lookup r key = sst_Lookup r' key \<and>
        (sst_Lookup r key = Inr (None, False) \<or>
          (\<exists>e \<in> set (map raw_of ops). matching (mk_key key) (CommitTS key) e \<and> sst_Lookup r key = Inr (entry_answer e))) \<and>
        (in_one_block w (mk_key key) \<and> passes_range w (mk_key key) \<longrightarrow>
          (\<forall>e. newest_visible (map raw_of ops) (mk_key key) (CommitTS key) e \<longrightarrow> sst_Lookup r key = Inr (entry_answer e)) \<and>
          ((\<nexists>e. newest_visible (map raw_of ops) (mk_key key) (CommitTS key) e) \<longrightarrow> sst_Lookup r key = Inr (None, False))))"
proof -
  have "writer_ok (sst_NewWriter (NewBloomFilter raw_bits raw_hashes r1 r2 expected))"
    by (rule writer_ok_New [OF bloom_wf_New])
  note w = writer_ok_appends [OF assms(1) this, folded w_def]
  have ok: "writer_ok w" and es: "wr_entries w = map raw_of ops"
    using w by (simp_all add: sst_NewWriter_def)
  have d: "distinct (map re_key (wr_entries w))"
    using assms(2) by (simp add: es raw_of_def case_prod_beta' comp_def)
  have "DecodeBloomFilter est g r3 r4 (bloom_Encode (wr_bloom w)) = wr_bloom w"
    by (rule Decode_Encode) (use ok in \<open>simp add: writer_ok_def\<close>)
  then obtain f where f: "sst_Open (DecodeBloomFilter est g r3 r4) (sst_Finish w) = Inr (opened True w f)"
    "openFallback (DecodeBloomFilter est g r3 r4) (sst_Finish w) = Inr (opened False w f)"
    using Open_Finish [OF ok assms(4)] by blast
  have same: "sst_Lookup (opened True w f) key = sst_Lookup (opened False w f) key" for key
    by (rule lookup_same [OF ok assms(4)])
  show ?thesis
    using f same lookup_sound [OF ok assms(4), where mm = True and f = f]
      lookup_complete [OF ok assms(4), where mm = True and f = f] d
    unfolding es by blast
qed

lemma length_Finish:
  assumes "writer_ok w"
  shows "length (sst_Finish w) = length (frames (blocks_of w)) + length (index_bytes (block_index w)) +
    length (bloom_Encode (wr_bloom w)) + len_of (wr_minKey w) + len_of (wr_maxKey w) + 92"
  by (simp add: Finish_eq [OF assms] writeFooter_def Let_def parse_footer_bytes)

definition sst_example :: "(mvcc_key \<times> bytes option \<times> bool) list" where
  "sst_example = [(NewMVCCKey [97] 5, Some [1], False), (NewMVCCKey [97] 9, None, False)]"

definition sst_example_writer :: sst_writer where
  "sst_example_writer = sst_appends sst_example (sst_NewWriter (NewBloomFilter (\<lambda>n. 20) (\<lambda>m n. 7) 3 4 2))"

lemma sst_example_facts:
  "\<forall>op \<in> set sst_example. entry_fits (raw_of op)" "distinct (map fst sst_example)"
  "groups_of sst_example_writer = [map raw_of sst_example]" "writer_ok sst_example_writer"
  "wr_minKey sst_example_writer = Some [97]" "wr_maxKey sst_example_writer = Some [97]"
proof -
  show fits: "\<forall>op \<in> set sst_example. entry_fits (raw_of op)"
    by (simp add: sst_example_def entry_fits_def raw_of_def stored_bytes_def)
  show "distinct (map fst sst_example)" by (simp add: sst_example_def)
  note w = writer_ok_appends [OF fits writer_ok_New [OF bloom_wf_New], of "\<lambda>n. 20" "\<lambda>m n. 7" 3 4 2,
      folded sst_example_writer_def]
  show "writer_ok sst_example_writer" by (rule w)
  have s: "sorted (map re_key (map raw_of sst_example))"
    by (simp add: sst_example_def raw_of_def mvcc_le_iff NewMVCCKey_def InvertTimestamp_def)
  show "groups_of sst_example_writer = [map raw_of sst_example]"
    unfolding groups_of_def w(2) sst_NewWriter_def
    using s by (simp add: sorted_sort_id sort_key_stable, simp add: sst_example_def length_entry_bytes BlockSize_def
        raw_of_def stored_bytes_def)
  show "wr_minKey sst_example_writer = Some [97]" "wr_maxKey sst_example_writer = Some [97]"
    by (simp_all add: sst_example_writer_def sst_appends_def sst_example_def appendInternal_fields sst_NewWriter_def)
qed

lemma sst_example_small: "length (sst_Finish sst_example_writer) < 2 ^ 63"
proof -
  note w = sst_example_facts
  have "length (bloom_Encode (wr_bloom sst_example_writer)) < 2 ^ 32"
    using w(4) by (intro bloom_Encode_small) (simp add: writer_ok_def)
  then show ?thesis
    unfolding length_Finish [OF w(4)]
    by (simp add: blocks_of_def w(3,5,6) block_index_def group_block_def len_of_def length_entry_bytes sst_example_def
        raw_of_def stored_bytes_def)
qed

theorem sstable_lookup_correct_witness:
  "\<exists>r. sst_Open (DecodeBloomFilter (\<lambda>m. 0) (\<lambda>m n. 0) 0 0) (sst_Finish sst_example_writer) = Inr r \<and>
     sst_Lookup r (NewMVCCKey [97] 7) = Inr (Some [1], True) \<and> sst_Lookup r (NewMVCCKey [97] 9) = Inr (None, False)"
proof -
  note w = sst_example_facts
  have one: "in_one_block sst_example_writer [97]" by (auto simp: in_one_block_def w(3))
  have pr: "passes_range sst_example_writer [97]" by (simp add: passes_range_def read_max_def w(5,6) slice_of_def)
  let ?e = "raw_of (NewMVCCKey [97] 5, Some [1], False)" let ?t = "raw_of (NewMVCCKey [97] 9, None, False)"
  have n: "newest_visible (map raw_of sst_example) [97] 7 ?e" "newest_visible (map raw_of sst_example) [97] 9 ?t"
    by (auto simp: newest_visible_def sst_example_def raw_of_def matching_def)
  have a: "entry_answer ?e = (Some [1], True)" "entry_answer ?t = (None, False)"
    by (simp_all add: entry_answer_def raw_of_def stored_bytes_def is_tomb_def payload_def sst_tags isValidValueTag_def)
  show ?thesis
    using sstable_lookup_correct [OF w(1,2), of "\<lambda>n. 20" "\<lambda>m n. 7" 3 4 2 "\<lambda>m. 0" "\<lambda>m n. 0" 0 0,
        folded sst_example_writer_def, OF sst_example_small] one pr n a
    by (metis CommitTS_New mk_NewMVCCKey(1))
qed

text \<open>
  The largest key is lost: the footer records the offset of the smallest key for both. With
  keys of one length the reader takes the smallest key for the largest, and no other key of
  the table is ever found.
\<close>

theorem lookup_rejects_above_smallest:
  assumes "writer_ok w" "length (sst_Finish w) < 2 ^ 63" "wr_minKey w = Some mn" "wr_maxKey w = Some mx"
    "length mn = length mx" "mn \<noteq> []" "mk_key key > mn"
  shows "sst_Lookup (opened mm w f) key = Inr (None, False)"
  using assms(3-7) by (auto simp: sst_Lookup_def Let_def read_max_def len_of_def slice_of_def)

section \<open>The iterator\<close>

definition it_at :: "sst_writer \<Rightarrow> reader \<Rightarrow> sst_iter \<Rightarrow> nat \<Rightarrow> raw_entry list \<Rightarrow> bool" where
  "it_at w r it i es \<longleftrightarrow> si_reader it = r \<and> si_blockIdx it = int i \<and> i < length (groups_of w) \<and>
     set es \<subseteq> set (groups_of w ! i) \<and> drop (si_pos it) (si_blockData it) = block_bytes es \<and>
     si_err it = None \<and> \<not> si_ended it"

lemma si_entry_at:
  assumes d: "drop (si_pos it) (si_blockData it) = block_bytes (e # es)" and fits: "entry_fits e"
  shows "\<exists>it'. si_entry it = (True, it') \<and> si_key it' = re_key e \<and> si_val it' = payload (stored_bytes e) \<and>
      si_reader it' = si_reader it \<and> si_blockIdx it' = si_blockIdx it \<and> si_blockData it' = si_blockData it \<and>
      si_err it' = si_err it \<and> si_ended it' = si_ended it \<and> drop (si_pos it') (si_blockData it') = block_bytes es"
proof -
  have d': "drop (si_pos it) (si_blockData it) = entry_bytes e @ block_bytes es" using d by simp
  note at = entry_at [OF d' fits]
  let ?kl = "length (mk_key (re_key e)) + 12" let ?vl = "length (stored_bytes e)" let ?d = "si_blockData it"
  have key: "decodeMVCCKey (encodeMVCCKey (re_key e)) = Inr (re_key e)"
    by (rule decode_encode_key) (use fits in \<open>simp add: entry_fits_def\<close>)
  have room: "\<not> si_pos it + 8 > length ?d" "\<not> si_pos it + 8 + ?kl + ?vl > length ?d" using at(2) by linarith+
  have p: "(if length (stored_bytes e) > 0 \<and> isValidValueTag (stored_bytes e ! 0) then drop 1 (stored_bytes e)
      else stored_bytes e) = payload (stored_bytes e)"
    by (simp add: payload_def)
  have "si_entry it = (True, it\<lparr>si_pos := si_pos it + (8 + ?kl + ?vl), si_key := re_key e, si_val := payload (stored_bytes e)\<rparr>)"
    by (simp only: si_entry_def Let_def at room key p if_False sum.case)
  then show ?thesis using at(7) by simp
qed

lemma si_nextBlock_at:
  assumes ok: "writer_ok w" and small: "length (sst_Finish w) < 2 ^ 63"
    and i: "nat (si_blockIdx it + 1) < length (groups_of w)" "si_blockIdx it \<ge> -1"
    and r: "si_reader it = opened mm w f" "si_err it = None" "\<not> si_ended it"
  shows "\<exists>it'. si_nextBlock it = (True, it') \<and>
      it_at w (opened mm w f) it' (nat (si_blockIdx it + 1)) (groups_of w ! nat (si_blockIdx it + 1))"
proof -
  let ?i = "nat (si_blockIdx it + 1)"
  have "\<not> si_blockIdx it + 1 \<ge> int (length (groups_of w))" using i by linarith
  then show ?thesis
    using readBlock_opened(2) [OF ok small i(1), of mm f] i r
    by (simp add: si_nextBlock_def it_at_def Let_def)
qed

lemma si_next_at:
  assumes ok: "writer_ok w" and small: "length (sst_Finish w) < 2 ^ 63"
    and at: "it_at w (opened mm w f) it i es"
  shows "case es @ concat (drop (Suc i) (groups_of w)) of
      [] \<Rightarrow> \<exists>it'. si_Next it = (False, it') \<and> si_err it' = None \<and> si_ended it'
    | e # _ \<Rightarrow> \<exists>it' j es'. si_Next it = (True, it') \<and> si_key it' = re_key e \<and> si_val it' = payload (stored_bytes e) \<and>
        it_at w (opened mm w f) it' j es' \<and>
        e # es' @ concat (drop (Suc j) (groups_of w)) = es @ concat (drop (Suc i) (groups_of w))"
proof -
  let ?gs = "groups_of w" let ?n = "length (groups_of w)"
  note a = at [unfolded it_at_def]
  have fits: "entry_fits e" if "j < ?n" "e \<in> set (?gs ! j)" for e j
    using groups_fit [OF ok, of "?gs ! j"] that by simp
  have go: "si_Next it = si_next_loop (?n + 2) it" using a by (simp add: si_Next_def)
  show ?thesis
  proof (cases es)
    case (Cons e es')
    then have d: "drop (si_pos it) (si_blockData it) = block_bytes (e # es')" using a by simp
    then have "si_pos it < length (si_blockData it)"
      by (metis block_bytes_Nil_iff drop_all list.distinct(1) not_less)
    then have "si_Next it = si_entry it" unfolding go by simp
    moreover have "entry_fits e" using a Cons fits by auto
    note si_entry_at [OF d this]
    ultimately show ?thesis
      using a Cons by (auto simp: it_at_def intro!: exI [of _ i] exI [of _ es'])
  next
    case Nil
    then have np: "\<not> si_pos it < length (si_blockData it)" using a by (simp add: block_bytes_def)
    have bi: "nat (si_blockIdx it + 1) = Suc i" "si_blockIdx it \<ge> -1" using a by auto
    show ?thesis
    proof (cases "Suc i < ?n")
      case False
      then have "si_nextBlock it = (False, it\<lparr>si_blockIdx := si_blockIdx it + 1, si_ended := True\<rparr>)"
        using a by (simp add: si_nextBlock_def Let_def)
      then have "\<exists>it'. si_Next it = (False, it') \<and> si_err it' = None \<and> si_ended it'"
        unfolding go using np a by simp
      then show ?thesis using False Nil by simp
    next
      case True
      have "nat (si_blockIdx it + 1) < ?n" using True bi by simp
      from si_nextBlock_at [OF ok small this bi(2), of mm f] a obtain it1 where it1:
        "si_nextBlock it = (True, it1)" "it_at w (opened mm w f) it1 (Suc i) (?gs ! Suc i)"
        unfolding bi(1) by auto
      obtain e es' where g: "?gs ! Suc i = e # es'"
        using groups_of_nonempty [OF nth_mem [OF True]] by (meson neq_Nil_conv)
      have d: "drop (si_pos it1) (si_blockData it1) = block_bytes (e # es')" using it1(2) g by (simp add: it_at_def)
      then have "si_pos it1 < length (si_blockData it1)"
        by (metis block_bytes_Nil_iff drop_all list.distinct(1) not_less)
      then have "si_Next it = si_entry it1" unfolding go using np it1(1) by (simp add: numeral_2_eq_2)
      moreover have "entry_fits e" using fits [OF True] g by simp
      note si_entry_at [OF d this]
      moreover have "concat (drop (Suc i) ?gs) = e # es' @ concat (drop (Suc (Suc i)) ?gs)"
        using Cons_nth_drop_Suc [OF True] g by (metis append_Cons concat.simps(2))
      ultimately show ?thesis
        using it1(2) Nil g by (auto simp: it_at_def intro!: exI [of _ "Suc i"] exI [of _ es'])
    qed
  qed
qed

lemma si_run_at:
  assumes ok: "writer_ok w" and small: "length (sst_Finish w) < 2 ^ 63"
    and "it_at w (opened mm w f) it i es" "length (es @ concat (drop (Suc i) (groups_of w))) < n"
  shows "\<exists>it'. si_run n it = (map (\<lambda>e. (re_key e, payload (stored_bytes e))) (es @ concat (drop (Suc i) (groups_of w))), it') \<and>
      si_err it' = None \<and> si_ended it'"
  using assms(3,4)
proof (induction n arbitrary: it i es)
  case 0
  then show ?case by simp
next
  case (Suc n)
  note step = si_next_at [OF ok small Suc.prems(1)]
  show ?case
  proof (cases "es @ concat (drop (Suc i) (groups_of w))")
    case Nil
    from step [unfolded Nil list.case] obtain it1 where "si_Next it = (False, it1)" "si_err it1 = None" "si_ended it1"
      by blast
    then show ?thesis unfolding Nil by simp
  next
    case (Cons e rest)
    from step [unfolded Cons list.case] obtain it1 j es1 where s: "si_Next it = (True, it1)" "si_key it1 = re_key e"
      "si_val it1 = payload (stored_bytes e)" "it_at w (opened mm w f) it1 j es1"
      "e # es1 @ concat (drop (Suc j) (groups_of w)) = e # rest" by blast
    then have "length (es1 @ concat (drop (Suc j) (groups_of w))) < n" using Suc.prems(2) Cons by simp
    from Suc.IH [OF s(4) this] s show ?thesis unfolding Cons by auto
  qed
qed

text \<open>All of it, from a new iterator.\<close>

definition table_entries :: "sst_writer \<Rightarrow> (mvcc_key \<times> bytes) list" where
  "table_entries w = map (\<lambda>e. (re_key e, payload (stored_bytes e))) (sort_key re_key (wr_entries w))"

lemma opened_run:
  assumes ok: "writer_ok w" and small: "length (sst_Finish w) < 2 ^ 63" and n: "length (wr_entries w) < n"
  shows "\<exists>it it'. si_New (opened mm w f) = Inr it \<and> si_run n it = (table_entries w, it') \<and> si_err it' = None \<and> si_ended it'"
proof -
  let ?rd = "opened mm w f"
  let ?it = "\<lparr>si_reader = ?rd, si_blockIdx = -1, si_blockData = [], si_pos = 0,
      si_key = MVCCKey [] 0, si_val = [], si_err = None, si_ended = False\<rparr>"
  show ?thesis
  proof (cases "groups_of w = []")
    case True
    then have "wr_entries w = []" using concat_groups_of [of w] by (metis concat.simps(1) length_0_conv length_sort)
    moreover have "\<exists>it. si_New ?rd = Inr it \<and> si_ended it \<and> si_err it = None"
      using True by (simp add: si_New_def si_nextBlock_def Let_def)
    moreover obtain m where "n = Suc m" using n by (cases n) auto
    ultimately show ?thesis by (auto simp: si_Next_def table_entries_def)
  next
    case False
    then have n0: "nat (si_blockIdx ?it + 1) < length (groups_of w)" "si_blockIdx ?it \<ge> -1" by auto
    obtain it where it: "si_nextBlock ?it = (True, it)" "it_at w ?rd it 0 (groups_of w ! 0)"
      using si_nextBlock_at [OF ok small n0, of mm f] by auto
    have all: "groups_of w ! 0 @ concat (drop (Suc 0) (groups_of w)) = sort_key re_key (wr_entries w)"
      using False concat_groups_of [of w] by (metis Cons_nth_drop_Suc concat.simps(2) drop0 length_greater_0_conv)
    have "length (groups_of w ! 0 @ concat (drop (Suc 0) (groups_of w))) < n" unfolding all using n by simp
    from si_run_at [OF ok small it(2) this] show ?thesis
      unfolding all using it(1) by (auto simp: si_New_def table_entries_def)
  qed
qed

lemma opened_entries:
  assumes ok: "writer_ok w" and small: "length (sst_Finish w) < 2 ^ 63"
  shows "sst_entries (opened mm w f) = Inr (table_entries w)"
proof -
  let ?n = "max (sst_rounds (opened mm w f)) (Suc (length (wr_entries w)))"
  obtain it it' where it: "si_New (opened mm w f) = Inr it" "si_run ?n it = (table_entries w, it')"
    using opened_run [OF ok small, of ?n mm f] by (auto simp: less_max_iff_disj)
  from sst_entries_enough [OF it(1), of ?n] it(2) show ?thesis by simp
qed

text \<open>
  \<^verbatim>\<open>sort.Slice\<close> promises no order of equal elements. With pairwise different versioned keys there
  are none, and whatever it returns is the list \<open>sort_key\<close> returns.
\<close>

lemma sort_unique:
  assumes "mset es' = mset es" "sorted_wrt (\<lambda>a b. \<not> re_key b < re_key a) es'" "distinct (map re_key es)"
  shows "es' = sort_key re_key es"
proof (rule map_sorted_distinct_set_unique)
  have m: "mset (map re_key es') = mset (map re_key es)" using assms(1) by (metis mset_map)
  show "inj_on re_key (set es' \<union> set (sort_key re_key es))"
    using assms(3) mset_eq_setD [OF assms(1)] by (simp add: distinct_map)
  show "sorted (map re_key es')" using assms(2) by (simp add: sorted_map not_less)
  show "distinct (map re_key es')" using m assms(3) by (metis mset_eq_imp_distinct_iff)
  show "sorted (map re_key (sort_key re_key es))" by simp
  show "distinct (map re_key (sort_key re_key es))"
    using assms(3) by (metis mset_eq_imp_distinct_iff mset_map mset_sort)
  show "set es' = set (sort_key re_key es)" using mset_eq_setD [OF assms(1)] by simp
qed

text \<open>
  C11. Iterating over a finished table of entries with pairwise different versioned keys, on
  either path, yields every appended entry exactly once, in the order of versioned keys (older
  versions of a key first), and then ends without an error. A tombstone comes out as an empty
  value. The order does not depend on how the writer's sort treats equal elements: \<open>es\<close> is any
  sorted arrangement of the entries.
\<close>

theorem sstable_iterates_all:
  fixes raw_bits :: "u64 \<Rightarrow> u64" and raw_hashes :: "u64 \<Rightarrow> u64 \<Rightarrow> u64" and r1 r2 :: u32 and expected :: int
  assumes "\<forall>op \<in> set ops. entry_fits (raw_of op)" and "distinct (map fst ops)"
    and "mset es = mset (map raw_of ops)" "sorted_wrt (\<lambda>a b. \<not> re_key b < re_key a) es"
  defines "w \<equiv> sst_appends ops (sst_NewWriter (NewBloomFilter raw_bits raw_hashes r1 r2 expected))"
  assumes "length (sst_Finish w) < 2 ^ 63"
    and "r = sst_Open (DecodeBloomFilter est g r3 r4) (sst_Finish w) \<or>
         r = openFallback (DecodeBloomFilter est g r3 r4) (sst_Finish w)"
  shows "\<exists>rd it it'. r = Inr rd \<and> si_New rd = Inr it \<and>
    si_run (length ops + 1) it =
      (map (\<lambda>e. (re_key e, payload (stored_bytes e))) es, it') \<and>
    si_err it' = None \<and> si_ended it'"
proof -
  have "writer_ok (sst_NewWriter (NewBloomFilter raw_bits raw_hashes r1 r2 expected))"
    by (rule writer_ok_New [OF bloom_wf_New])
  note w = writer_ok_appends [OF assms(1) this, folded w_def]
  have "distinct (map re_key (map raw_of ops))"
    using assms(2) by (simp add: raw_of_def case_prod_beta' comp_def)
  note srt = sort_unique [OF assms(3,4) this]
  have ok: "writer_ok w" and es: "wr_entries w = map raw_of ops"
    using w by (simp_all add: sst_NewWriter_def)
  have "DecodeBloomFilter est g r3 r4 (bloom_Encode (wr_bloom w)) = wr_bloom w"
    by (rule Decode_Encode) (use ok in \<open>simp add: writer_ok_def\<close>)
  then obtain f where "sst_Open (DecodeBloomFilter est g r3 r4) (sst_Finish w) = Inr (opened True w f)"
    "openFallback (DecodeBloomFilter est g r3 r4) (sst_Finish w) = Inr (opened False w f)"
    using Open_Finish [OF ok assms(6)] by blast
  with assms(7) obtain mm where r: "r = Inr (opened mm w f)" by metis
  have "length (wr_entries w) < length ops + 1" by (simp add: es)
  from opened_run [OF ok assms(6) this, of mm f] show ?thesis
    using r by (auto simp: es srt table_entries_def)
qed

theorem sstable_iterates_all_witness:
  "\<exists>rd it it'. sst_Open (DecodeBloomFilter (\<lambda>m. 0) (\<lambda>m n. 0) 0 0) (sst_Finish sst_example_writer) = Inr rd \<and>
     si_New rd = Inr it \<and> si_run 3 it = ([(NewMVCCKey [97] 5, [1]), (NewMVCCKey [97] 9, [])], it') \<and> si_ended it'"
proof -
  have s: "sorted (map re_key (map raw_of sst_example))"
    by (simp add: sst_example_def raw_of_def mvcc_le_iff NewMVCCKey_def InvertTimestamp_def)
  have srt: "sorted_wrt (\<lambda>a b. \<not> re_key b < re_key a) (map raw_of sst_example)"
    using s by (simp add: sst_example_def raw_of_def not_less)
  have l: "map (\<lambda>e. (re_key e, payload (stored_bytes e))) (map raw_of sst_example) =
      [(NewMVCCKey [97] 5, [1]), (NewMVCCKey [97] 9, [])]"
    by (simp add: sst_example_def raw_of_def stored_bytes_def payload_def sst_tags isValidValueTag_def)
  note it = sstable_iterates_all [OF sst_example_facts(1,2) refl srt, of "\<lambda>n. 20" "\<lambda>m n. 7" 3 4 2, folded sst_example_writer_def,
      OF sst_example_small disjI1 [OF refl], of "\<lambda>m. 0" "\<lambda>m n. 0" 0 0]
  have n: "length sst_example + 1 = 3" by (simp add: sst_example_def)
  show ?thesis using it unfolding l n by blast
qed

end
