(* ===== verification/TableFiles.thy ===== *)
theory TableFiles
  imports Compaction SSTProofs
begin

text \<open>
  The tables that flushes and compactions write, as the engine reads them back: the interface is
  a locale over the Bloom filter of a new table and the decoder of filters, which the filter of
  \<^verbatim>\<open>sstable/bloom.go\<close> implements.
\<close>

lemma insort_key_map: "insort_key g (h x) (map h xs) = map h (insort_key (\<lambda>x. g (h x)) x xs)"
  by (induction xs) auto

lemma sort_key_map: "sort_key g (map h xs) = map h (sort_key (\<lambda>x. g (h x)) xs)"
  by (induction xs) (simp_all add: insort_key_map)

definition mem_ops :: "mem \<Rightarrow> (mvcc_key \<times> bytes option \<times> bool) list" where
  "mem_ops m = map (\<lambda>(k, v). (k, case v of Live x \<Rightarrow> x | Tomb \<Rightarrow> None, True)) (mem_live m)"

definition mem_writer :: "bloom_filter \<Rightarrow> mem \<Rightarrow> sst_writer" where
  "mem_writer b m = sst_appends (mem_ops m) (sst_NewWriter b)"

definition kept_ops :: "kv list \<Rightarrow> (mvcc_key \<times> bytes option \<times> bool) list" where
  "kept_ops kvs = map (\<lambda>(k, v). (k, Some v, False)) kvs"

definition kept_writer :: "bloom_filter \<Rightarrow> kv list \<Rightarrow> sst_writer" where
  "kept_writer b kvs = sst_appends (kept_ops kvs) (sst_NewWriter b)"

lemma memtable_table_eq: "memtable_table b m = sst_Finish (mem_writer b m)"
  by (simp add: memtable_table_def mem_writer_def mem_ops_def sst_appends_def fold_map comp_def sst_AppendTagged_def [abs_def] case_prod_beta')

lemma kept_table_eq: "kept_table b kvs = sst_Finish (kept_writer b kvs)"
  by (simp add: kept_table_def kept_writer_def kept_ops_def sst_appends_def fold_map comp_def sst_Append_def [abs_def] case_prod_beta')

text \<open>Tables within the limits of the format.\<close>

definition ops_fit :: "(mvcc_key \<times> bytes option \<times> bool) list \<Rightarrow> bool" where
  "ops_fit ops \<longleftrightarrow> (\<forall>op \<in> set ops. entry_fits (raw_of op))"

text \<open>The size of a finished table is bounded by the sizes of its entries.\<close>

definition entry_size :: "raw_entry \<Rightarrow> nat" where
  "entry_size e = length (mk_key (re_key e)) + length (stored_bytes e) + 32"

definition ops_size :: "(mvcc_key \<times> bytes option \<times> bool) list \<Rightarrow> nat" where
  "ops_size ops = sum_list (map (entry_size \<circ> raw_of) ops)"

lemma block_size: "g \<noteq> [] \<Longrightarrow> length (block_bytes g) + 8 \<le> sum_list (map entry_size g)"
proof (induction g)
  case (Cons e es)
  then show ?case by (cases "es = []") (auto simp: length_entry_bytes entry_size_def)
qed simp

lemma head_size: "g \<noteq> [] \<Longrightarrow> length (mk_key (re_key (hd g))) + 12 \<le> sum_list (map entry_size g)"
  by (cases g) (simp_all add: entry_size_def)

lemma sum_list_groups:
  assumes "\<forall>g \<in> set gs. c g \<le> sum_list (map f g)"
  shows "sum_list (map c gs) \<le> (sum_list (map f (concat gs)) :: nat)"
  using assms by (induction gs) (auto simp: add_mono)

lemma length_Finish_le:
  assumes ok: "writer_ok w"
  shows "length (sst_Finish w) \<le> 4 * sum_list (map entry_size (wr_entries w)) + 92 + 2 ^ 32"
proof -
  let ?S = "sum_list (map entry_size (wr_entries w))"
  have S: "sum_list (map entry_size (concat (groups_of w))) = ?S"
    unfolding concat_groups_of by (metis mset_map mset_sort sum_mset_sum_list)
  have ne: "g \<in> set (groups_of w) \<Longrightarrow> g \<noteq> []" for g by (rule groups_of_nonempty)
  have "length (frames (blocks_of w)) = sum_list (map (\<lambda>g. length (block_bytes g) + 8) (groups_of w))"
    by (simp add: frames_def blocks_of_def length_concat group_block_def comp_def)
  also have "\<dots> \<le> ?S" unfolding S [symmetric] by (rule sum_list_groups) (use ne block_size in blast)
  finally have a: "length (frames (blocks_of w)) \<le> ?S" .
  have "length (index_bytes (block_index w)) = sum_list (map (\<lambda>i. length (fst (blocks_of w ! i)) + 12) [0..<length (blocks_of w)])"
    by (simp add: index_bytes_def block_index_def length_concat comp_def add.commute add.left_commute)
  also have "\<dots> = sum_list (map (\<lambda>b. length (fst b) + 12) (blocks_of w))"
    by (rule arg_cong [where f = sum_list]) (rule nth_equalityI, simp_all)
  also have "\<dots> = sum_list (map (\<lambda>g. length (mk_key (re_key (hd g))) + 12) (groups_of w))"
    by (simp add: blocks_of_def group_block_def comp_def)
  also have "\<dots> \<le> ?S" unfolding S [symmetric] by (rule sum_list_groups) (use ne head_size in blast)
  finally have b: "length (index_bytes (block_index w)) \<le> ?S" .
  have c: "length (bloom_Encode (wr_bloom w)) < 2 ^ 32" using ok by (intro bloom_Encode_small) (simp add: writer_ok_def)
  have key: "length (mk_key (re_key e)) \<le> ?S" if "e \<in> set (wr_entries w)" for e
  proof -
    have "entry_size e \<le> ?S" by (rule member_le_sum_list) (use that in simp_all)
    then show ?thesis by (simp add: entry_size_def)
  qed
  have d: "len_of (wr_minKey w) \<le> ?S \<and> len_of (wr_maxKey w) \<le> ?S"
  proof (cases "wr_entries w = []")
    case True
    then show ?thesis using ok by (simp add: writer_ok_def len_of_def)
  next
    case False
    then obtain mn mx where "mn \<in> set (wr_entries w)" "wr_minKey w = Some (mk_key (re_key mn))"
      "mx \<in> set (wr_entries w)" "wr_maxKey w = Some (mk_key (re_key mx))"
      using ok unfolding writer_ok_def by blast
    then show ?thesis using key by (simp add: len_of_def)
  qed
  show ?thesis unfolding length_Finish [OF ok] using a b c d by linarith
qed

locale table_format =
  fixes bl :: "nat \<Rightarrow> bloom_filter" and bd :: bloom_decoder
  assumes new_filter: "bloom_wf (bl n)"
    and decode_filter: "bloom_wf b \<Longrightarrow> bd (bloom_Encode b) = b"
begin

lemma written_table:
  fixes n :: nat
  assumes "ops_fit ops" "ops_size ops < 2 ^ 60"
  defines "w \<equiv> sst_appends ops (sst_NewWriter (bl n))"
  shows "writer_ok w" "wr_entries w = map raw_of ops"
    and "length (sst_Finish w) < 2 ^ 63" "\<exists>f. sst_open_file mm bd (sst_Finish w) = Inr (opened mm w f)"
proof -
  have "\<forall>op \<in> set ops. entry_fits (raw_of op)" using assms(1) by (simp add: ops_fit_def)
  note wr = writer_ok_appends [OF this writer_ok_New [OF new_filter [of n]], folded w_def]
  show ok: "writer_ok w" by (rule wr(1))
  show es: "wr_entries w = map raw_of ops" using wr(2) by (simp add: sst_NewWriter_def)
  have "length (sst_Finish w) \<le> 4 * ops_size ops + 92 + 2 ^ 32"
    using length_Finish_le [OF ok] by (simp add: es ops_size_def)
  then show small: "length (sst_Finish w) < 2 ^ 63" using assms(2) by simp
  have "bd (bloom_Encode (wr_bloom w)) = wr_bloom w" by (rule decode_filter) (use ok in \<open>simp add: writer_ok_def\<close>)
  from Open_Finish [where dec = bd, OF ok small this]
  show "\<exists>f. sst_open_file mm bd (sst_Finish w) = Inr (opened mm w f)"
    by (auto simp: sst_open_file_def)
qed

text \<open>The table of a memtable holds its live versions, without their tags.\<close>

lemma mem_table:
  assumes "ops_fit (mem_ops m)" "ops_size (mem_ops m) < 2 ^ 60" "mem_inv m"
  shows "writer_ok (mem_writer (bl n) m)" "wr_entries (mem_writer (bl n) m) = map raw_of (mem_ops m)"
    and "\<exists>f. sst_open_file mm bd (memtable_table (bl n) m) = Inr (opened mm (mem_writer (bl n) m) f) \<and>
      sst_entries (opened mm (mem_writer (bl n) m) f) =
        Inr (map (\<lambda>(k, v). (k, case v of Live (Some x) \<Rightarrow> payload x | _ \<Rightarrow> [])) (mem_live m))"
proof -
  let ?w = "mem_writer (bl n) m"
  note t = written_table [where n = n, OF assms(1,2), folded mem_writer_def]
  show ok: "writer_ok ?w" and es: "wr_entries ?w = map raw_of (mem_ops m)" by (rule t(1), rule t(2))
  have "sorted (map fst (mem_live m))"
    using assms(3) mem_inv_filter [of m "\<lambda>e. snd e \<noteq> Tomb"] strict_sorted_imp_sorted by (auto simp: mem_inv_def mem_live_def)
  then have s: "sort_key fst (mem_live m) = mem_live m" by (rule sort_key_id_if_sorted)
  have "table_entries ?w = map (\<lambda>(k, v). (k, case v of Live (Some x) \<Rightarrow> payload x | _ \<Rightarrow> [])) (mem_live m)"
  proof -
    let ?h = "\<lambda>x. raw_of (fst x, case snd x of Live x \<Rightarrow> x | Tomb \<Rightarrow> None, True)"
    have "map raw_of (mem_ops m) = map ?h (mem_live m)" by (simp add: mem_ops_def case_prod_beta' comp_def)
    moreover have "(\<lambda>x. re_key (?h x)) = fst" by (auto simp: raw_of_def)
    ultimately have "table_entries ?w = map (\<lambda>e. (re_key (?h e), payload (stored_bytes (?h e)))) (mem_live m)"
      by (simp add: table_entries_def es sort_key_map s comp_def)
    also have "\<dots> = map (\<lambda>(k, v). (k, case v of Live (Some x) \<Rightarrow> payload x | _ \<Rightarrow> [])) (mem_live m)"
      by (rule map_cong [OF refl])
        (auto simp: raw_of_def stored_bytes_def payload_def isValidValueTag_def split: version.split option.split)
    finally show ?thesis .
  qed
  moreover have "length (sst_Finish ?w) < 2 ^ 63" by (rule t(3))
  ultimately show "\<exists>f. sst_open_file mm bd (memtable_table (bl n) m) = Inr (opened mm ?w f) \<and>
      sst_entries (opened mm ?w f) =
        Inr (map (\<lambda>(k, v). (k, case v of Live (Some x) \<Rightarrow> payload x | _ \<Rightarrow> [])) (mem_live m))"
    using t(4) [of mm] opened_entries [OF ok, of mm] by (auto simp: memtable_table_eq)
qed

lemma kept_table:
  assumes "ops_fit (kept_ops kvs)" "ops_size (kept_ops kvs) < 2 ^ 60"
  shows "\<exists>f. sst_open_file mm bd (kept_table (bl n) kvs) = Inr (opened mm (kept_writer (bl n) kvs) f) \<and>
    sst_entries (opened mm (kept_writer (bl n) kvs) f) = Inr (sort_key fst kvs)"
proof -
  let ?w = "kept_writer (bl n) kvs"
  note t = written_table [where n = n, OF assms(1,2), folded kept_writer_def]
  let ?h = "\<lambda>x. raw_of (fst x, Some (snd x), False)"
  have "map raw_of (kept_ops kvs) = map ?h kvs" by (simp add: kept_ops_def case_prod_beta' comp_def)
  moreover have "(\<lambda>x. re_key (?h x)) = fst" by (auto simp: raw_of_def)
  ultimately have "table_entries ?w = map (\<lambda>e. (re_key (?h e), payload (stored_bytes (?h e)))) (sort_key fst kvs)"
    by (simp add: table_entries_def t(2) sort_key_map comp_def)
  also have "\<dots> = sort_key fst kvs"
    by (rule map_idI) (auto simp: raw_of_def stored_bytes_def payload_def isValidValueTag_def)
  finally have "table_entries ?w = sort_key fst kvs" .
  then show ?thesis using t(4) [of mm] opened_entries [OF t(1,3), of mm] by (auto simp: kept_table_eq)
qed

text \<open>Looking up a key in such a table, for values that are not empty.\<close>

lemma kept_table_lookup:
  fixes f :: footer and n :: nat
  assumes "ops_fit (kept_ops kvs)" "ops_size (kept_ops kvs) < 2 ^ 60" "distinct (map fst kvs)"
    and "\<forall>x \<in> set kvs. snd x \<noteq> []"
  defines "w \<equiv> kept_writer (bl n) kvs"
  shows "sst_Lookup (opened mm w f) key = Inr (None, False) \<or>
      (\<exists>x \<in> set kvs. mk_key (fst x) = mk_key key \<and> CommitTS (fst x) \<le> CommitTS key \<and>
         sst_Lookup (opened mm w f) key = Inr (Some (snd x), True))"
    and "in_one_block w (mk_key key) \<Longrightarrow> passes_range w (mk_key key) \<Longrightarrow> x \<in> set kvs \<Longrightarrow>
      mk_key (fst x) = mk_key key \<Longrightarrow> CommitTS (fst x) \<le> CommitTS key \<Longrightarrow>
      (\<And>y. y \<in> set kvs \<Longrightarrow> mk_key (fst y) = mk_key key \<Longrightarrow> CommitTS (fst y) \<le> CommitTS key \<Longrightarrow>
         CommitTS (fst y) \<le> CommitTS (fst x)) \<Longrightarrow>
      sst_Lookup (opened mm w f) key = Inr (Some (snd x), True)"
proof -
  note t = written_table [where n = n, OF assms(1,2), folded kept_writer_def, folded w_def]
  let ?h = "\<lambda>x. raw_of (fst x, Some (snd x), False)"
  have es: "wr_entries w = map ?h kvs" by (simp add: t(2) kept_ops_def case_prod_beta' comp_def)
  have h: "re_key (?h x) = fst x" for x by (simp add: raw_of_def)
  have ans: "entry_answer (?h x) = (Some (snd x), True)" if "x \<in> set kvs" for x
    using assms(4) that
    by (auto simp: entry_answer_def raw_of_def stored_bytes_def is_tomb_def payload_def isValidValueTag_def)
  have d: "distinct (map re_key (wr_entries w))" using assms(3) by (simp add: es h comp_def)
  show "sst_Lookup (opened mm w f) key = Inr (None, False) \<or>
      (\<exists>x \<in> set kvs. mk_key (fst x) = mk_key key \<and> CommitTS (fst x) \<le> CommitTS key \<and>
         sst_Lookup (opened mm w f) key = Inr (Some (snd x), True))"
    using lookup_sound [OF t(1,3), of mm f key]
  proof (elim disjE bexE conjE)
    fix e assume e: "e \<in> set (wr_entries w)" "matching (mk_key key) (CommitTS key) e"
      "sst_Lookup (opened mm w f) key = Inr (entry_answer e)"
    then obtain x where "x \<in> set kvs" "e = ?h x" by (auto simp: es)
    with e ans show ?thesis by (intro disjI2 bexI [of _ x]) (simp_all add: matching_def h)
  qed simp
  assume a: "in_one_block w (mk_key key)" "passes_range w (mk_key key)" "x \<in> set kvs"
    "mk_key (fst x) = mk_key key" "CommitTS (fst x) \<le> CommitTS key"
    "\<And>y. y \<in> set kvs \<Longrightarrow> mk_key (fst y) = mk_key key \<Longrightarrow> CommitTS (fst y) \<le> CommitTS key \<Longrightarrow>
       CommitTS (fst y) \<le> CommitTS (fst x)"
  have "newest_visible (wr_entries w) (mk_key key) (CommitTS key) (?h x)"
    unfolding newest_visible_def matching_def es using a(3-6) by (auto simp: h simp del: CommitTS_le_iff)
  from lookup_complete(1) [OF t(1,3) a(1,2) this d, of mm f] ans [OF a(3)]
  show "sst_Lookup (opened mm w f) key = Inr (Some (snd x), True)" by simp
qed

end

interpretation bloom_tables: table_format "\<lambda>n. NewBloomFilter raw_bits raw_hashes r1 r2 (int n)" "DecodeBloomFilter est g r3 r4"
  for raw_bits raw_hashes r1 r2 est g r3 r4
  by unfold_locales (rule bloom_wf_New, rule Decode_Encode)

end
