(* ===== verification/CompactionProofs.thy ===== *)
theory CompactionProofs
  imports TableFiles
begin

text \<open>
  What a compaction keeps: at every snapshot at or below the watermark, and at every snapshot that
  sees the newest version, a key has the same version in the new table as in the old ones. With
  two active snapshots the newer one can lose its version.
\<close>

section \<open>The kept versions\<close>

lemma keep_versions_subset: "set (keep_versions mins n j xs) \<subseteq> set xs"
  by (induction mins n j xs rule: keep_versions.induct) auto

lemma keep_versions_old:
  assumes "x \<in> set xs" "snd x \<noteq> []" "\<forall>i. mins i \<noteq> 0 \<and> CommitTS (fst x) \<le> mins i"
  shows "x \<in> set (keep_versions mins n j xs)"
  using assms
proof (induction xs arbitrary: n j)
  case (Cons y ys)
  have "\<not> CommitTS (fst x) > mins n" "mins n \<noteq> 0" using spec [OF Cons.prems(3), of n] unfolding not_less by blast+
  then have "keep_version (mins n) j x" using Cons.prems(2) unfolding keep_version_def by simp
  with Cons show ?case by auto
qed simp

lemma keep_versions_first: "snd x \<noteq> [] \<Longrightarrow> x \<in> set (keep_versions mins n 0 (x # xs))"
  by (simp add: keep_version_def)

lemma compact_kept_subset: "set (compact_kept mins n xs) \<subseteq> set xs"
proof (induction mins n xs rule: compact_kept.induct)
  case (2 mins n x xs)
  have "set (compact_kept mins n (x # xs)) \<subseteq>
      set (x # takeWhile (\<lambda>y. mk_key (fst y) = mk_key (fst x)) xs) \<union> set (dropWhile (\<lambda>y. mk_key (fst y) = mk_key (fst x)) xs)"
    using 2 [OF refl] keep_versions_subset [of mins n 0 "x # takeWhile (\<lambda>y. mk_key (fst y) = mk_key (fst x)) xs"]
    unfolding compact_kept.simps Let_def set_append by blast
  also have "\<dots> \<subseteq> set (x # xs)" by (auto dest: set_takeWhileD set_dropWhileD)
  finally show ?case .
qed simp

lemma compact_kept_old:
  "x \<in> set xs \<Longrightarrow> snd x \<noteq> [] \<Longrightarrow> \<forall>i. mins i \<noteq> 0 \<and> CommitTS (fst x) \<le> mins i \<Longrightarrow> x \<in> set (compact_kept mins n xs)"
proof (induction mins n xs rule: compact_kept.induct)
  case (2 mins n y ys)
  let ?P = "\<lambda>z. mk_key (fst z) = mk_key (fst y)"
  have "set ys = set (takeWhile ?P ys) \<union> set (dropWhile ?P ys)" by (metis set_append takeWhile_dropWhile_id)
  then have "set (y # ys) = set (y # takeWhile ?P ys) \<union> set (dropWhile ?P ys)" by simp
  then consider "x \<in> set (y # takeWhile ?P ys)" | "x \<in> set (dropWhile ?P ys)" using 2(2) by blast
  then show ?case
  proof cases
    case 1
    from keep_versions_old [OF this 2(3,4)] show ?thesis unfolding compact_kept.simps Let_def by simp
  next
    case b: 2
    from 2(1) [OF refl b 2(3,4)] show ?thesis unfolding compact_kept.simps Let_def by simp
  qed
qed simp

definition kv_sorted :: "kv list \<Rightarrow> bool" where
  "kv_sorted xs \<longleftrightarrow> sorted_wrt (\<lambda>a b. \<not> kv_less b a) xs"

lemma kv_sorted_Cons: "kv_sorted (x # xs) \<longleftrightarrow> (\<forall>y \<in> set xs. \<not> kv_less y x) \<and> kv_sorted xs"
  by (simp add: kv_sorted_def)

lemma kv_sorted_drop: "kv_sorted xs \<Longrightarrow> kv_sorted (dropWhile P xs)"
  unfolding kv_sorted_def by (metis dropWhile_eq_drop sorted_wrt_drop)

text \<open>The newest version of a key comes first in its group.\<close>

lemma compact_kept_newest:
  assumes "kv_sorted xs" "distinct (map fst xs)" "x \<in> set xs" "snd x \<noteq> []"
    and "\<forall>y \<in> set xs. mk_key (fst y) = mk_key (fst x) \<longrightarrow> CommitTS (fst y) \<le> CommitTS (fst x)"
  shows "x \<in> set (compact_kept mins n xs)"
  using assms
proof (induction mins n xs rule: compact_kept.induct)
  case (2 mins n y ys)
  let ?P = "\<lambda>z. mk_key (fst z) = mk_key (fst y)"
  show ?case
  proof (cases "mk_key (fst x) = mk_key (fst y)")
    case True
    have "x = y"
    proof (rule ccontr)
      assume ne: "x \<noteq> y"
      then have x: "x \<in> set ys" using 2(4) by simp
      have "CommitTS (fst y) \<le> CommitTS (fst x)" using 2(6) True by simp
      moreover have "\<not> kv_less x y" using 2(2) x by (simp add: kv_sorted_Cons)
      ultimately have "fst x = fst y" using True by (intro mvcc_key.expand) (auto simp: kv_less_def not_less)
      moreover have "fst y \<notin> fst ` set ys" using 2(3) by simp
      ultimately show False using x by (metis imageI)
    qed
    then show ?thesis using 2(5) unfolding compact_kept.simps Let_def by (simp add: keep_version_def)
  next
    case False
    then have x: "x \<in> set ys" "x \<notin> set (takeWhile ?P ys)" using 2(4) by (auto dest: set_takeWhileD)
    then have x': "x \<in> set (dropWhile ?P ys)" by (metis UnE set_append takeWhile_dropWhile_id)
    have s: "kv_sorted (dropWhile ?P ys)" using 2(2) kv_sorted_drop by (auto simp: kv_sorted_Cons)
    have d: "distinct (map fst (dropWhile ?P ys))"
      using 2(3) by (metis distinct.simps(2) distinct_drop drop_map dropWhile_eq_drop list.simps(9))
    have m: "\<forall>z \<in> set (dropWhile ?P ys). mk_key (fst z) = mk_key (fst x) \<longrightarrow> CommitTS (fst z) \<le> CommitTS (fst x)"
      using 2(6) by (meson list.set_intros(2) set_dropWhileD)
    from 2(1) [OF refl s d x' 2(5) m] show ?thesis unfolding compact_kept.simps Let_def by simp
  qed
qed simp

lemma keep_versions_distinct: "distinct (map fst xs) \<Longrightarrow> distinct (map fst (keep_versions mins n j xs))"
  by (induction mins n j xs rule: keep_versions.induct) (use keep_versions_subset in fastforce)+

lemma kept_distinct: "distinct (map fst xs) \<Longrightarrow> distinct (map fst (compact_kept mins n xs))"
proof (induction mins n xs rule: compact_kept.induct)
  case (2 mins n x xs)
  let ?P = "\<lambda>y. mk_key (fst y) = mk_key (fst x)"
  let ?v = "x # takeWhile ?P xs" and ?d = "dropWhile ?P xs"
  have split: "x # xs = ?v @ ?d" by simp
  have d: "distinct (map fst ?v)" "distinct (map fst ?d)" "fst ` set ?v \<inter> fst ` set ?d = {}"
    using 2(2) unfolding split map_append distinct_append set_map by blast+
  have sub: "fst ` set (keep_versions mins n 0 ?v) \<subseteq> fst ` set ?v"
    "fst ` set (compact_kept mins (n + length ?v) ?d) \<subseteq> fst ` set ?d"
    using keep_versions_subset compact_kept_subset by blast+
  show ?case
    using keep_versions_distinct [OF d(1), of mins n 0] 2(1) [OF refl d(2)] sub d(3)
    unfolding compact_kept.simps Let_def map_append distinct_append set_map by blast
qed simp

definition newest_at :: "kv set \<Rightarrow> bytes \<Rightarrow> u64 \<Rightarrow> kv \<Rightarrow> bool" where
  "newest_at A k s x \<longleftrightarrow> x \<in> A \<and> mk_key (fst x) = k \<and> CommitTS (fst x) \<le> s \<and>
     (\<forall>y \<in> A. mk_key (fst y) = k \<longrightarrow> CommitTS (fst y) \<le> s \<longrightarrow> CommitTS (fst y) \<le> CommitTS (fst x))"

lemma newest_at_le:
  assumes "newest_at A k s x" "newest_at A k s y"
  shows "CommitTS (fst y) \<le> CommitTS (fst x) \<and> mk_key (fst x) = mk_key (fst y)"
proof -
  have y: "y \<in> A" "mk_key (fst y) = k" "CommitTS (fst y) \<le> s" using assms(2) by (simp_all only: newest_at_def)
  have "\<forall>y \<in> A. mk_key (fst y) = k \<longrightarrow> CommitTS (fst y) \<le> s \<longrightarrow> CommitTS (fst y) \<le> CommitTS (fst x)" "mk_key (fst x) = k"
    using assms(1) unfolding newest_at_def by iprover+
  with y show ?thesis by simp
qed

lemma newest_at_unique:
  assumes "newest_at (set xs) k s x" "newest_at (set xs) k s y" "distinct (map fst xs)"
  shows "x = y"
proof -
  have "CommitTS (fst x) \<le> CommitTS (fst y)" "CommitTS (fst y) \<le> CommitTS (fst x)" "mk_key (fst x) = mk_key (fst y)"
    using newest_at_le [OF assms(1,2)] newest_at_le [OF assms(2,1)] by blast+
  then have "fst x = fst y" by (intro mvcc_key.expand) simp
  moreover have "x \<in> set xs" "y \<in> set xs" using assms(1,2) by (simp_all add: newest_at_def)
  ultimately show ?thesis using assms(3) by (metis eq_key_imp_eq_value prod.collapse)
qed

lemma ne_empty: "x \<in> A \<Longrightarrow> A \<noteq> {}"
  by blast

lemma newest_at_exists:
  assumes "x \<in> set xs" "mk_key (fst x) = k" "CommitTS (fst x) \<le> s"
  shows "\<exists>y. newest_at (set xs) k s y"
proof -
  let ?A = "{y \<in> set xs. mk_key (fst y) = k \<and> CommitTS (fst y) \<le> s}"
  let ?T = "(\<lambda>y. CommitTS (fst y)) ` ?A"
  have "x \<in> ?A" using assms by simp
  then have "?T \<noteq> {}" unfolding image_is_empty by (rule ne_empty)
  have "finite ?T" by simp
  note T = this \<open>?T \<noteq> {}\<close>
  from Max_in [OF this] obtain y where y: "y \<in> ?A" "Max ?T = CommitTS (fst y)" by (elim imageE) (rule that)
  have "CommitTS (fst z) \<le> CommitTS (fst y)" if "z \<in> ?A" for z
    unfolding y(2) [symmetric] by (rule Max_ge [OF T(1)]) (rule imageI [OF that])
  with y(1) have "y \<in> ?A" "\<forall>z \<in> ?A. CommitTS (fst z) \<le> CommitTS (fst y)" by blast+
  then show ?thesis unfolding newest_at_def by (intro exI [of _ y]) blast
qed

text \<open>Snapshots at or below the watermark, and those that see everything of the key.\<close>

definition safe_snapshot :: "(nat \<Rightarrow> u64) \<Rightarrow> kv set \<Rightarrow> bytes \<Rightarrow> u64 \<Rightarrow> bool" where
  "safe_snapshot mins A k s \<longleftrightarrow>
     (\<forall>i. mins i \<noteq> 0 \<and> s \<le> mins i) \<or> (\<forall>x \<in> A. mk_key (fst x) = k \<longrightarrow> CommitTS (fst x) \<le> s)"

lemma kept_newest_at:
  assumes "kv_sorted xs" "distinct (map fst xs)" "\<forall>x \<in> set xs. snd x \<noteq> []" "safe_snapshot mins (set xs) k s"
  shows "newest_at (set (compact_kept mins n xs)) k s x \<longleftrightarrow> newest_at (set xs) k s x"
proof -
  let ?K = "set (compact_kept mins n xs)"
  note sub = compact_kept_subset [of mins n xs]
  have keep: "newest_at ?K k s y" if y: "newest_at (set xs) k s y" for y
  proof -
    have y': "y \<in> set xs" "mk_key (fst y) = k" "CommitTS (fst y) \<le> s"
      "\<forall>z \<in> set xs. mk_key (fst z) = k \<longrightarrow> CommitTS (fst z) \<le> s \<longrightarrow> CommitTS (fst z) \<le> CommitTS (fst y)"
      using y by (simp_all add: newest_at_def)
    have ne: "snd y \<noteq> []" using assms(3) y'(1) by blast
    from assms(4) have "y \<in> ?K" unfolding safe_snapshot_def
    proof
      assume "\<forall>i. mins i \<noteq> 0 \<and> s \<le> mins i"
      then have "\<forall>i. mins i \<noteq> 0 \<and> CommitTS (fst y) \<le> mins i" using y'(3) by (blast intro: order.trans)
      from compact_kept_old [OF y'(1) ne this] show ?thesis .
    next
      assume "\<forall>x \<in> set xs. mk_key (fst x) = k \<longrightarrow> CommitTS (fst x) \<le> s"
      then have "\<forall>z \<in> set xs. mk_key (fst z) = mk_key (fst y) \<longrightarrow> CommitTS (fst z) \<le> CommitTS (fst y)" using y'(2,4) by blast
      from compact_kept_newest [OF assms(1,2) y'(1) ne this] show ?thesis .
    qed
    then show ?thesis using y' sub unfolding newest_at_def by blast
  qed
  show ?thesis
  proof
    assume x: "newest_at ?K k s x"
    then have "x \<in> set xs" "mk_key (fst x) = k" "CommitTS (fst x) \<le> s" using sub unfolding newest_at_def by blast+
    from newest_at_exists [OF this] obtain y where y: "newest_at (set xs) k s y" by blast
    have "CommitTS (fst x) \<le> CommitTS (fst y)" "CommitTS (fst y) \<le> CommitTS (fst x)" "mk_key (fst x) = mk_key (fst y)"
      using newest_at_le [OF keep [OF y] x] newest_at_le [OF x keep [OF y]] by blast+
    then have "fst x = fst y" by (intro mvcc_key.expand) simp
    moreover have "x \<in> set xs" "y \<in> set xs" using \<open>x \<in> set xs\<close> y by (simp_all add: newest_at_def)
    ultimately have "x = y" using assms(2) by (metis eq_key_imp_eq_value prod.collapse)
    then show "newest_at (set xs) k s x" using y by simp
  qed (rule keep)
qed

section \<open>The compaction of an engine\<close>

lemma ops_size_mset: "mset xs = mset ys \<Longrightarrow> ops_size (kept_ops xs) = ops_size (kept_ops ys)"
  unfolding ops_size_def kept_ops_def map_map by (simp flip: sum_mset_sum_list)

lemma ops_size_simps [simp]:
  "ops_size (kept_ops (x # xs)) = entry_size (raw_of (fst x, Some (snd x), False)) + ops_size (kept_ops xs)"
  "ops_size (kept_ops []) = 0" "ops_size (kept_ops (xs @ ys)) = ops_size (kept_ops xs) + ops_size (kept_ops ys)"
  by (simp_all add: ops_size_def kept_ops_def case_prod_beta)

lemma keep_versions_size: "ops_size (kept_ops (keep_versions mins n j xs)) \<le> ops_size (kept_ops xs)"
  by (induction mins n j xs rule: keep_versions.induct) auto

lemma kept_size: "ops_size (kept_ops (compact_kept mins n xs)) \<le> ops_size (kept_ops xs)"
proof (induction mins n xs rule: compact_kept.induct)
  case (2 mins n x xs)
  let ?P = "\<lambda>y. mk_key (fst y) = mk_key (fst x)"
  have "ops_size (kept_ops (takeWhile ?P xs)) + ops_size (kept_ops (dropWhile ?P xs)) = ops_size (kept_ops xs)"
    unfolding ops_size_simps(3) [symmetric] takeWhile_dropWhile_id ..
  moreover have "ops_size (kept_ops (keep_versions mins n 0 (x # takeWhile ?P xs))) \<le> ops_size (kept_ops (x # takeWhile ?P xs))"
    by (rule keep_versions_size)
  ultimately show ?case using 2 [OF refl] unfolding compact_kept.simps Let_def ops_size_simps by linarith
next
  case (1 mins n)
  show ?case by simp
qed

lemma delete_all:
  assumes "mf_levels m \<noteq> []" "mf_levels m ! 0 = is" "\<forall>i \<in> set is. fi_Level i = 0"
  shows "mf_levels (fold (\<lambda>(fileNum, level). mf_deleteFile fileNum level) (map (\<lambda>i. (fi_FileNum i, fi_Level i)) is) m) =
    (mf_levels m)[0 := []]"
  using assms
proof (induction "is" arbitrary: m)
  case Nil
  then have "(mf_levels m)[0 := []] = mf_levels m" by (metis list_update_id)
  then show ?case by simp
next
  case (Cons i "is")
  let ?m = "mf_deleteFile (fi_FileNum i) 0 m"
  have m: "mf_levels ?m = (mf_levels m)[0 := is]" using Cons.prems(1,2) by (simp add: mf_deleteFile_def)
  from Cons.IH [of ?m] show ?case using Cons.prems m by simp
qed

lemma compact_edit:
  assumes "2 \<le> length (mf_levels m)" "\<forall>i \<in> set (mf_levels m ! 0). fi_Level i = 0" "fi_Level info = 1"
  shows "mf_levels (applyEdit \<lparr>ve_NewFiles = [info], ve_DeletedFiles = map (\<lambda>i. (fi_FileNum i, fi_Level i)) (mf_levels m ! 0),
      ve_NextFileNum = n, ve_LastTS = t\<rparr> m) = (mf_levels m)[0 := [], 1 := mf_levels m ! 1 @ [info]]"
proof -
  have "mf_levels m \<noteq> []" using assms(1) by auto
  note d = delete_all [OF this refl assms(2)]
  show ?thesis using assms(1,3) by (simp add: applyEdit_def mf_addFile_def d Let_def)
qed

text \<open>The writer of the new table, to speak of its blocks and of the range that its reader accepts.\<close>

definition compact_writer :: "(nat \<Rightarrow> bloom_filter) \<Rightarrow> (kv list \<Rightarrow> kv list) \<Rightarrow> (nat \<Rightarrow> u64) \<Rightarrow> kv list \<Rightarrow> sst_writer" where
  "compact_writer bl srt mins all = kept_writer (bl (length all)) (compact_kept mins 0 (srt all))"

text \<open>
  C29. A compaction of level 0 whose tables can be read and whose system calls succeed replaces
  all tables of level 0, in the levels and in the manifest, by one table of level 1. The new table is
  ordered. At any snapshot at or below the oldest active one, and at any snapshot that sees the
  newest version of the key, the newest visible version of every key among the versions that the
  new table lists is the same as among those the old tables listed together. A \<open>Lookup\<close> in the new
  table never answers with anything but one of these versions, visible at its snapshot, and at
  such a snapshot it answers with the newest one, if the versions of the key lie in one block and
  the key passes the range filter. (The filter is wrong: the largest key of the footer is read from
  the place of the smallest, so that of keys of one length only the smallest passes; see
  \<open>lookup_rejects_above_smallest\<close>. Versions are assumed different and values not empty: the table
  cannot tell an empty value from a deletion.)
\<close>

theorem compaction_keeps_safe_reads:
  fixes raw_bits :: "u64 \<Rightarrow> u64" and raw_hashes g :: "u64 \<Rightarrow> u64 \<Rightarrow> u64" and est :: "u64 \<Rightarrow> u64" and r1 r2 r3 r4 :: u32
  defines "bl \<equiv> \<lambda>n. NewBloomFilter raw_bits raw_hashes r1 r2 (int n)" and "bd \<equiv> DecodeBloomFilter est g r3 r4"
  assumes open': "\<not> e_closed e" "e_levels e ! 0 \<noteq> []" and all: "compact_collect (e_levels e ! 0) = Inr all"
    and kvs: "distinct (map fst all)" "\<forall>x \<in> set all. snd x \<noteq> []" and srt: "sorts srt"
    and fits: "ops_fit (kept_ops all)" "ops_size (kept_ops all) < 2 ^ 60"
    and infos: "2 \<le> length (mf_GetLevels (e_manifest e))" "\<forall>i \<in> set (mf_GetLevels (e_manifest e) ! 0). fi_Level i = 0"
      "length (mf_GetLevels (e_manifest e) ! 0) = length (e_levels e ! 0)"
  shows "\<exists>r new e' dir' info. e_compactLevel0 \<lparr>fo_write = True, fo_stat = True, fo_manifest = None\<rparr> srt mins bl mm bd enc e dir =
      (None, e', dir') \<and> e_levels e' = compact_levels r (e_levels e) \<and>
    mf_GetLevels (e_manifest e') = (mf_GetLevels (e_manifest e))[0 := [], 1 := mf_GetLevels (e_manifest e) ! 1 @ [info]] \<and>
    sst_entries r = Inr new \<and> sorted (map fst new) \<and>
    (\<forall>k s x. safe_snapshot mins (set all) k s \<longrightarrow> newest_at (set new) k s x = newest_at (set all) k s x) \<and>
    (\<forall>k s. sst_Lookup r (NewMVCCKey k s) = Inr (None, False) \<or>
      (\<exists>x \<in> set all. mk_key (fst x) = k \<and> CommitTS (fst x) \<le> s \<and> sst_Lookup r (NewMVCCKey k s) = Inr (Some (snd x), True))) \<and>
    (\<forall>k s x. safe_snapshot mins (set all) k s \<longrightarrow> newest_at (set all) k s x \<longrightarrow>
      in_one_block (compact_writer bl srt mins all) k \<longrightarrow> passes_range (compact_writer bl srt mins all) k \<longrightarrow>
      sst_Lookup r (NewMVCCKey k s) = Inr (Some (snd x), True))"
proof -
  let ?xs = "srt all" and ?io = "\<lparr>fo_write = True, fo_stat = True, fo_manifest = None\<rparr>"
  let ?kept = "compact_kept mins 0 ?xs"
  have ms: "mset ?xs = mset all" and sorted: "kv_sorted ?xs" using srt by (simp_all add: sorts_def kv_sorted_def)
  have xs: "set ?xs = set all" "length ?xs = length all" using ms by (metis set_mset_mset, metis size_mset)
  have xd: "distinct (map fst ?xs)" using kvs(1) ms by (metis mset_eq_imp_distinct_iff mset_map)
  note keep = kept_newest_at [OF sorted xd, unfolded xs(1), OF kvs(2)]
  have kf: "ops_fit (kept_ops ?kept)"
    using fits(1) compact_kept_subset [of mins 0 ?xs] xs(1) by (auto simp: ops_fit_def kept_ops_def)
  have "ops_size (kept_ops ?kept) < 2 ^ 60" using kept_size [of mins 0 ?xs] fits(2) ops_size_mset [OF ms] by linarith
  note ks = this
  have "\<exists>f. sst_open_file mm bd (kept_table (bl (length all)) ?kept) = Inr (opened mm (compact_writer bl srt mins all) f) \<and>
    sst_entries (opened mm (compact_writer bl srt mins all) f) = Inr (sort_key fst ?kept)"
    unfolding bl_def bd_def compact_writer_def by (rule bloom_tables.kept_table [OF kf ks])
  then obtain f where f: "sst_open_file mm bd (kept_table (bl (length all)) ?kept) = Inr (opened mm (compact_writer bl srt mins all) f)"
    "sst_entries (opened mm (compact_writer bl srt mins all) f) = Inr (sort_key fst ?kept)"
    by (elim exE conjE) (rule that)
  define r where "r = opened mm (compact_writer bl srt mins all) f"
  note r = f [folded r_def]
  have kd: "distinct (map fst ?kept)" by (rule kept_distinct [OF xd])
  have ksub: "set ?kept \<subseteq> set all" using compact_kept_subset [of mins 0 ?xs] xs(1) by simp
  have kne: "\<forall>x \<in> set ?kept. snd x \<noteq> []" using ksub kvs(2) by blast
  note lk = bloom_tables.kept_table_lookup [OF kf ks kd kne, where mm = mm and f = f and n = "length all"
      and raw_bits = raw_bits and raw_hashes = raw_hashes and ?r1.0 = r1 and ?r2.0 = r2]
  have rw: "r = opened mm (kept_writer (NewBloomFilter raw_bits raw_hashes r1 r2 (int (length all))) ?kept) f"
    by (simp add: r_def compact_writer_def bl_def)
  have sound: "sst_Lookup r (NewMVCCKey k s) = Inr (None, False) \<or>
      (\<exists>x \<in> set all. mk_key (fst x) = k \<and> CommitTS (fst x) \<le> s \<and> sst_Lookup r (NewMVCCKey k s) = Inr (Some (snd x), True))"
    for k s
    using lk(1) [of "NewMVCCKey k s"] ksub unfolding rw [symmetric] mk_NewMVCCKey(1) CommitTS_New by blast
  have found: "sst_Lookup r (NewMVCCKey k s) = Inr (Some (snd x), True)"
    if h: "safe_snapshot mins (set all) k s" "newest_at (set all) k s x"
      "in_one_block (compact_writer bl srt mins all) k" "passes_range (compact_writer bl srt mins all) k" for k s x
  proof -
    have "newest_at (set ?kept) k s x" using keep [OF h(1)] h(2) by blast
    then have n: "x \<in> set ?kept" "mk_key (fst x) = k" "CommitTS (fst x) \<le> s"
      "\<And>y. y \<in> set ?kept \<Longrightarrow> mk_key (fst y) = k \<Longrightarrow> CommitTS (fst y) \<le> s \<Longrightarrow> CommitTS (fst y) \<le> CommitTS (fst x)"
      unfolding newest_at_def by blast+
    show ?thesis
      using lk(2) [of "NewMVCCKey k s" x, unfolded mk_NewMVCCKey(1) CommitTS_New, folded rw]
        h(3,4) [unfolded compact_writer_def bl_def] n by blast
  qed
  obtain num m where nm: "mf_NextFileNum (e_manifest e) = (num, m)" by (metis surj_pair)
  have ml: "mf_levels (mf_st m) = mf_GetLevels (e_manifest e)" using nm by (auto simp: mf_NextFileNum_def mf_GetLevels_def Let_def)
  let ?info = "\<lparr>fi_FileNum = num, fi_Level = 1, fi_MinKey = map_option fst (kept_range ?kept),
    fi_MaxKey = map_option snd (kept_range ?kept), fi_Size = word_of_nat (length (kept_table (bl (length all)) ?kept))\<rparr>"
  let ?edit = "\<lparr>ve_NewFiles = [?info], ve_DeletedFiles = compact_deleted (Some (mf_GetLevels (e_manifest e) ! 0)) (length (e_levels e ! 0)),
    ve_NextFileNum = num + 1, ve_LastTS = e_LastTS e\<rparr>"
  obtain m' where m': "mf_Apply enc None ?edit m = (True, m')" "mf_st m' = applyEdit ?edit (mf_st m)"
    by (simp add: mf_Apply_def writeEdit_def Let_def)
  have levels: "mf_GetLevels m' = (mf_GetLevels (e_manifest e))[0 := [], 1 := mf_GetLevels (e_manifest e) ! 1 @ [?info]]"
    using compact_edit [of "mf_st m" ?info "num + 1" "e_LastTS e"] infos m'(2)
    by (simp add: mf_GetLevels_def [of m'] ml compact_deleted_def)
  let ?d = "compact_deleted (Some (mf_GetLevels (e_manifest e) ! 0)) (length (e_levels e ! 0))"
  let ?gone = "filter (\<lambda>n. n \<noteq> 0) (map fst (take (length (e_levels e ! 0)) ?d))"
  let ?dir = "fold (\<lambda>n dir. dir(n := None)) ?gone (dir(num \<mapsto> kept_table (bl (length all)) ?kept))"
  let ?e = "e\<lparr>e_manifest := m', e_levels := compact_levels r (e_levels e), e_shards := map (sh_levels_update (compact_levels r)) (e_shards e)\<rparr>"
  have "e_compactLevel0 ?io srt mins bl mm bd enc e dir = (None, ?e, ?dir)"
    using open' m'(1) by (simp add: e_compactLevel0_def Let_def all infos(3) nm xs(2) r(1))
  moreover have "mf_GetLevels (e_manifest ?e) = (mf_GetLevels (e_manifest e))[0 := [], 1 := mf_GetLevels (e_manifest e) ! 1 @ [?info]]"
    using levels by simp
  ultimately show ?thesis
    using r(2) keep sound found
    by (intro exI [of _ r] exI [of _ "sort_key fst ?kept"] exI [of _ ?e] exI [of _ ?dir] exI [of _ ?info] conjI)
      (assumption | simp)+
qed

text \<open>An order for the sort, and an example: one table with two versions of a key, no snapshot.\<close>

definition kv_order :: "kv \<Rightarrow> mvcc_key" where
  "kv_order x = MVCCKey (mk_key (fst x)) (- 1 - mk_ts (fst x))"

lemma sorts_sort_key: "sorts (sort_key kv_order)"
  unfolding sorts_def
proof (intro allI conjI)
  fix xs
  have "\<not> kv_less b a" if "kv_order a \<le> kv_order b" for a b
  proof -
    have "mk_ts (fst b) < mk_ts (fst a) \<longleftrightarrow> - 1 - mk_ts (fst a) < - 1 - mk_ts (fst b)"
      by (simp only: invert_word not_less_not_word)
    then show ?thesis using that by (auto simp: kv_order_def kv_less_def mvcc_le_iff)
  qed
  moreover have "sorted_wrt (\<lambda>a b. kv_order a \<le> kv_order b) (sort_key kv_order xs)"
    using sorted_sort_key [of kv_order xs] by (simp only: sorted_wrt_map)
  ultimately show "sorted_wrt (\<lambda>a b. \<not> kv_less b a) (sort_key kv_order xs)" by (metis (mono_tags, lifting) sorted_wrt_mono_rel)
qed simp

definition compact_demo :: "kv list" where
  "compact_demo = [(NewMVCCKey [97] 5, [1]), (NewMVCCKey [97] 9, [2])]"

definition compact_demo_manifest :: manifest where
  "compact_demo_manifest = \<lparr>mf_st = \<lparr>mf_levels = [[\<lparr>fi_FileNum = 1, fi_Level = 0, fi_MinKey = None, fi_MaxKey = None, fi_Size = 0\<rparr>], []],
     mf_nextFileNum = 2, mf_lastTS = 9\<rparr>, mf_file = [], mf_pos = 0\<rparr>"

lemma compact_demo_writer:
  defines "w \<equiv> compact_writer (\<lambda>n. NewBloomFilter (\<lambda>n. 20) (\<lambda>m n. 7) 3 4 (int n)) (sort_key kv_order) (\<lambda>_. 0) compact_demo"
  shows "in_one_block w [97]" "passes_range w [97]"
proof -
  let ?x = "(NewMVCCKey [97] 9, [2]) :: kv"
  have "sort_key kv_order compact_demo = [?x, (NewMVCCKey [97] 5, [1])]"
    by (simp add: compact_demo_def kv_order_def mvcc_le_iff NewMVCCKey_def InvertTimestamp_def)
  then have "compact_kept (\<lambda>_. 0) 0 (sort_key kv_order compact_demo) = [?x]"
    by (simp add: keep_version_def)
  then have w: "w = sst_appends [(fst ?x, Some (snd ?x), False)] (sst_NewWriter (NewBloomFilter (\<lambda>n. 20) (\<lambda>m n. 7) 3 4 2))"
    by (simp add: w_def compact_writer_def kept_writer_def kept_ops_def compact_demo_def)
  have "wr_entries w = [raw_of (fst ?x, Some (snd ?x), False)]"
    by (simp add: w sst_appends_def appendInternal_fields sst_NewWriter_def)
  then have "groups_of w = [[raw_of (fst ?x, Some (snd ?x), False)]]" by (simp add: groups_of_def)
  then show "in_one_block w [97]" by (auto simp: in_one_block_def)
  have "wr_minKey w = Some [97]" "wr_maxKey w = Some [97]"
    by (simp_all add: w sst_appends_def appendInternal_fields sst_NewWriter_def)
  then show "passes_range w [97]" by (simp add: passes_range_def read_max_def slice_of_def)
qed

theorem compaction_keeps_safe_reads_witness:
  "\<forall>e0. \<exists>r0 e' dir' r new. sst_entries r0 = Inr compact_demo \<and>
     e_compactLevel0 \<lparr>fo_write = True, fo_stat = True, fo_manifest = None\<rparr> (sort_key kv_order) (\<lambda>_. 0)
       (\<lambda>n. NewBloomFilter (\<lambda>n. 20) (\<lambda>m n. 7) 3 4 (int n)) True (DecodeBloomFilter (\<lambda>m. 0) (\<lambda>m n. 0) 0 0) tiny_enc
       (e0\<lparr>e_closed := False, e_levels := [[r0], []], e_manifest := compact_demo_manifest\<rparr>) Map.empty = (None, e', dir') \<and>
     e_levels e' = [[], [r]] \<and> sst_entries r = Inr new \<and> newest_at (set new) [97] 9 (NewMVCCKey [97] 9, [2]) \<and>
     sst_Lookup r (NewMVCCKey [97] 9) = Inr (Some [2], True)"
proof
  fix e0 :: lsm
  let ?bl = "\<lambda>n. NewBloomFilter (\<lambda>n. 20) (\<lambda>m n. 7) 3 4 (int n)" and ?bd = "DecodeBloomFilter (\<lambda>m. 0) (\<lambda>m n. 0) 0 0"
  have fit: "ops_fit (kept_ops compact_demo)" "ops_size (kept_ops compact_demo) < 2 ^ 60"
    by (simp_all add: compact_demo_def ops_fit_def kept_ops_def ops_size_def entry_fits_def entry_size_def raw_of_def stored_bytes_def)
  have "sorted (map fst compact_demo)" by (simp add: compact_demo_def mvcc_le_iff NewMVCCKey_def InvertTimestamp_def)
  then have "sort_key fst compact_demo = compact_demo" by (rule sort_key_id_if_sorted)
  with bloom_tables.kept_table [OF fit, of True "\<lambda>m. 0" "\<lambda>m n. 0" 0 0 "\<lambda>n. 20" "\<lambda>m n. 7" 3 4 2] obtain r0 where
    r0: "sst_entries r0 = Inr compact_demo" by auto
  let ?e = "e0\<lparr>e_closed := False, e_levels := [[r0], []], e_manifest := compact_demo_manifest\<rparr>"
  have e: "\<not> e_closed ?e" "e_levels ?e ! 0 \<noteq> []" "compact_collect (e_levels ?e ! 0) = Inr compact_demo"
    "2 \<le> length (mf_GetLevels (e_manifest ?e))" "\<forall>i \<in> set (mf_GetLevels (e_manifest ?e) ! 0). fi_Level i = 0"
    "length (mf_GetLevels (e_manifest ?e) ! 0) = length (e_levels ?e ! 0)"
    using r0 by (simp_all add: compact_demo_manifest_def mf_GetLevels_def)
  have k: "distinct (map fst compact_demo)" "\<forall>x \<in> set compact_demo. snd x \<noteq> []" by (simp_all add: compact_demo_def)
  from compaction_keeps_safe_reads [OF e(1-3) k sorts_sort_key fit e(4-6), where raw_bits = "\<lambda>n. 20" and raw_hashes = "\<lambda>m n. 7"
      and ?r1.0 = 3 and ?r2.0 = 4 and mins = "\<lambda>_. 0" and mm = True and est = "\<lambda>m. 0" and g = "\<lambda>m n. 0" and ?r3.0 = 0 and ?r4.0 = 0
      and enc = tiny_enc and dir = Map.empty]
  obtain r new e' dir' where
    r: "e_compactLevel0 \<lparr>fo_write = True, fo_stat = True, fo_manifest = None\<rparr> (sort_key kv_order) (\<lambda>_. 0) ?bl True ?bd tiny_enc ?e Map.empty =
      (None, e', dir')" "e_levels e' = compact_levels r (e_levels ?e)" "sst_entries r = Inr new"
    and same: "\<forall>k s x. safe_snapshot (\<lambda>_. 0) (set compact_demo) k s \<longrightarrow> newest_at (set new) k s x = newest_at (set compact_demo) k s x"
    and lookup: "\<forall>k s x. safe_snapshot (\<lambda>_. 0) (set compact_demo) k s \<longrightarrow> newest_at (set compact_demo) k s x \<longrightarrow>
      in_one_block (compact_writer ?bl (sort_key kv_order) (\<lambda>_. 0) compact_demo) k \<longrightarrow>
      passes_range (compact_writer ?bl (sort_key kv_order) (\<lambda>_. 0) compact_demo) k \<longrightarrow>
      sst_Lookup r (NewMVCCKey k s) = Inr (Some (snd x), True)"
    by (elim exE conjE) (rule that)
  have "newest_at (set compact_demo) [97] 9 (NewMVCCKey [97] 9, [2])" "safe_snapshot (\<lambda>_. 0) (set compact_demo) [97] 9"
    by (auto simp: newest_at_def safe_snapshot_def compact_demo_def)
  then have "sst_Lookup r (NewMVCCKey [97] 9) = Inr (Some [2], True)"
    using lookup [rule_format, of "[97]" 9 "(NewMVCCKey [97] 9, [2])"] compact_demo_writer by simp
  moreover have "newest_at (set new) [97] 9 (NewMVCCKey [97] 9, [2])"
    using same \<open>newest_at (set compact_demo) [97] 9 (NewMVCCKey [97] 9, [2])\<close>
      \<open>safe_snapshot (\<lambda>_. 0) (set compact_demo) [97] 9\<close> by blast
  moreover have "e_levels e' = [[], [r]]" using r(2) by (simp add: compact_levels_def append_level_def)
  ultimately show "\<exists>r0 e' dir' r new. sst_entries r0 = Inr compact_demo \<and>
     e_compactLevel0 \<lparr>fo_write = True, fo_stat = True, fo_manifest = None\<rparr> (sort_key kv_order) (\<lambda>_. 0) ?bl True ?bd tiny_enc
       (e0\<lparr>e_closed := False, e_levels := [[r0], []], e_manifest := compact_demo_manifest\<rparr>) Map.empty = (None, e', dir') \<and>
     e_levels e' = [[], [r]] \<and> sst_entries r = Inr new \<and> newest_at (set new) [97] 9 (NewMVCCKey [97] 9, [2]) \<and>
     sst_Lookup r (NewMVCCKey [97] 9) = Inr (Some [2], True)"
    using r0 r(1,3) by blast
qed

text \<open>
  With snapshots at 5 and at 10 the version of 8 is dropped although the second snapshot reads it:
  behind the compaction it reads the version of 3.
\<close>

theorem compaction_drops_a_visible_version:
  "newest_at (set [(NewMVCCKey k 12, a), (NewMVCCKey k 8, b), (NewMVCCKey k 3, c)]) k 10 (NewMVCCKey k 8, b) \<and>
   (a \<noteq> [] \<and> c \<noteq> [] \<longrightarrow>
     newest_at (set (compact_kept (\<lambda>_. 5) 0 [(NewMVCCKey k 12, a), (NewMVCCKey k 8, b), (NewMVCCKey k 3, c)])) k 10 (NewMVCCKey k 3, c))"
  by (auto simp: newest_at_def keep_version_def simp del: CommitTS_le_iff CommitTS_less_iff)

end
