(* ===== verification/FlushProofs.thy ===== *)
theory FlushProofs
  imports TableFiles LSMHistory
begin

text \<open>
  What a flush does to an engine: every memtable with data is replaced by a table of level 0 that
  holds its live versions, and the reads of keys that the table format can answer stay the same.
\<close>

section \<open>Freezing\<close>

definition dirty :: "shard list \<Rightarrow> nat list \<Rightarrow> nat list" where
  "dirty ss is = filter (\<lambda>i. memSizeLoad (ss ! i) \<noteq> 0) is"

fun cands_of :: "shard list \<Rightarrow> u64 \<Rightarrow> nat list \<Rightarrow> flush_cand list" where
  "cands_of ss n [] = []"
| "cands_of ss n (i # is) = \<lparr>fc_shard = i, fc_mt = sh_mem (ss ! i), fc_fileNum = n\<rparr> # cands_of ss (n + 1) is"

definition frozen_list :: "nat list \<Rightarrow> shard list \<Rightarrow> shard list" where
  "frozen_list is ss = map (\<lambda>i. if i \<in> set is then freeze (ss ! i) else ss ! i) [0..<length ss]"

lemma frozen_nth [simp]:
  "i < length ss \<Longrightarrow> frozen_list is ss ! i = (if i \<in> set is then freeze (ss ! i) else ss ! i)"
  "length (frozen_list is ss) = length ss"
  by (simp_all add: frozen_list_def)

lemma flush_collect_eq:
  assumes "distinct is" "\<forall>i \<in> set is. i < length (e_shards e)"
  shows "\<exists>n'. flush_collect is n e = (cands_of (e_shards e) n (dirty (e_shards e) is), n',
    e\<lparr>e_shards := frozen_list (dirty (e_shards e) is) (e_shards e)\<rparr>)"
  using assms
proof (induction "is" arbitrary: n e)
  case Nil
  have "frozen_list [] ss = ss" for ss by (rule nth_equalityI) simp_all
  then show ?case by (simp add: dirty_def)
next
  case (Cons i "is")
  show ?case
  proof (cases "memSizeLoad (e_shards e ! i) = 0")
    case True
    then show ?thesis using Cons by (simp add: dirty_def)
  next
    case False
    let ?e = "upd_shard i freeze e"
    have same: "e_shards ?e ! j = e_shards e ! j" if "j \<in> set is" for j
    proof -
      have "i \<noteq> j" using that Cons.prems(1) by auto
      then show ?thesis by (simp add: upd_shard_def)
    qed
    have d: "dirty (e_shards ?e) is = dirty (e_shards e) is" unfolding dirty_def by (rule filter_cong) (simp_all add: same)
    have c: "set js \<subseteq> set is \<Longrightarrow> cands_of (e_shards ?e) m js = cands_of (e_shards e) m js" for m js
      by (induction js arbitrary: m) (simp_all add: same)
    have "set (dirty (e_shards e) is) \<subseteq> set is" by (auto simp: dirty_def)
    note c = c [OF this]
    have fr: "frozen_list (dirty (e_shards e) is) (e_shards ?e) = frozen_list (i # dirty (e_shards e) is) (e_shards e)"
      using Cons.prems by (intro nth_equalityI) (auto simp: upd_shard_def nth_list_update dirty_def)
    have "distinct is" "\<forall>i \<in> set is. i < length (e_shards ?e)" using Cons.prems by (simp_all add: upd_shard_def)
    from Cons.IH [OF this, of "n + 1"] obtain n' where
      "flush_collect is (n + 1) ?e = (cands_of (e_shards e) (n + 1) (dirty (e_shards e) is), n',
        ?e\<lparr>e_shards := frozen_list (i # dirty (e_shards e) is) (e_shards e)\<rparr>)"
      unfolding d c fr by blast
    moreover have "?e\<lparr>e_shards := x\<rparr> = e\<lparr>e_shards := x\<rparr>" for x by (simp add: upd_shard_def)
    ultimately show ?thesis using False by (simp add: dirty_def Let_def)
  qed
qed

section \<open>Writing and publishing\<close>

abbreviation all_ok :: "nat \<Rightarrow> flush_io" where
  "all_ok \<equiv> \<lambda>_. \<lparr>fo_write = True, fo_stat = True, fo_manifest = None\<rparr>"

definition mem_fits :: "mem \<Rightarrow> bool" where
  "mem_fits m \<longleftrightarrow> mem_inv m \<and> ops_fit (mem_ops m) \<and> ops_size (mem_ops m) < 2 ^ 60"

text \<open>What a table holds of a memtable: the live versions, without the tags of the values.\<close>

definition flushed :: "mem \<Rightarrow> kv list" where
  "flushed m = map (\<lambda>(k, v). (k, case v of Live (Some x) \<Rightarrow> payload x | _ \<Rightarrow> [])) (mem_live m)"

definition table_of :: "(nat \<Rightarrow> bloom_filter) \<Rightarrow> bool \<Rightarrow> mem \<Rightarrow> reader \<Rightarrow> bool" where
  "table_of bl mm m r \<longleftrightarrow> (\<exists>f. r = opened mm (mem_writer (bl (mem_len m)) m) f) \<and> sst_entries r = Inr (flushed m)"

lemma applied_level0:
  assumes "mf_levels m \<noteq> []" "fi_Level info = 0"
  shows "mf_levels (applyEdit \<lparr>ve_NewFiles = [info], ve_DeletedFiles = [], ve_NextFileNum = n, ve_LastTS = t\<rparr> m) =
    (mf_levels m)[0 := mf_levels m ! 0 @ [info]]"
  using assms by (simp add: applyEdit_def mf_addFile_def Let_def)

context table_format
begin

lemma flush_one:
  assumes "mem_fits m" "mf_GetLevels (e_manifest e) \<noteq> []"
  shows "\<exists>r man info. flushOneMemTable \<lparr>fo_write = True, fo_stat = True, fo_manifest = None\<rparr> bl mm bd enc m num e dir =
      (Inr r, e\<lparr>e_manifest := man\<rparr>, dir(num \<mapsto> memtable_table (bl (mem_len m)) m)) \<and> table_of bl mm m r \<and>
    fi_FileNum info = num \<and> mf_GetLevels man = (mf_GetLevels (e_manifest e))[0 := mf_GetLevels (e_manifest e) ! 0 @ [info]]"
proof -
  let ?d = "memtable_table (bl (mem_len m)) m"
  have f: "ops_fit (mem_ops m)" "ops_size (mem_ops m) < 2 ^ 60" "mem_inv m" using assms(1) by (simp_all add: mem_fits_def)
  from mem_table(3) [OF f, of mm "mem_len m"] obtain f where
    r: "sst_open_file mm bd ?d = Inr (opened mm (mem_writer (bl (mem_len m)) m) f)"
    "table_of bl mm m (opened mm (mem_writer (bl (mem_len m)) m) f)"
    unfolding table_of_def flushed_def by blast
  let ?info = "\<lparr>fi_FileNum = num, fi_Level = 0, fi_MinKey = map_option fst (flush_range m),
    fi_MaxKey = map_option snd (flush_range m), fi_Size = word_of_nat (length ?d)\<rparr>"
  let ?edit = "\<lparr>ve_NewFiles = [?info], ve_DeletedFiles = [], ve_NextFileNum = num + 1, ve_LastTS = e_LastTS e\<rparr>"
  obtain man where man: "mf_Apply enc None ?edit (e_manifest e) = (True, man)" "mf_st man = applyEdit ?edit (mf_st (e_manifest e))"
    by (simp add: mf_Apply_def writeEdit_def Let_def)
  have "mf_GetLevels man = (mf_GetLevels (e_manifest e))[0 := mf_GetLevels (e_manifest e) ! 0 @ [?info]]"
    using applied_level0 [of "mf_st (e_manifest e)" ?info] assms(2) man(2) by (simp add: mf_GetLevels_def)
  then show ?thesis
    using r man(1) by (intro exI [of _ "opened mm (mem_writer (bl (mem_len m)) m) f"] exI [of _ man] exI [of _ ?info])
      (simp add: flushOneMemTable_def Let_def)
qed

lemma flush_write_ok:
  assumes "\<forall>c \<in> set cands. mem_fits (fc_mt c)" "mf_GetLevels (e_manifest e) \<noteq> []"
  shows "\<exists>rs man infos dir'. flush_write all_ok bl mm bd enc cands e dir = (Inr rs, e\<lparr>e_manifest := man\<rparr>, dir') \<and>
    list_all2 (\<lambda>c r. table_of bl mm (fc_mt c) r) cands rs \<and> map fi_FileNum infos = map fc_fileNum cands \<and>
    mf_GetLevels man = (mf_GetLevels (e_manifest e))[0 := mf_GetLevels (e_manifest e) ! 0 @ infos]"
  using assms
proof (induction cands arbitrary: e dir)
  case Nil
  have "xs[0 := xs ! 0] = xs" for xs :: "sst_info list list" by (rule list_update_id)
  moreover have "e = e\<lparr>e_manifest := e_manifest e\<rparr>" by simp
  ultimately show ?case by (auto intro!: exI [of _ "e_manifest e"])
next
  case (Cons c cands)
  have "mem_fits (fc_mt c)" using Cons.prems(1) by simp
  from flush_one [OF this Cons.prems(2), of mm enc "fc_fileNum c" dir] obtain r man info where
    1: "flushOneMemTable \<lparr>fo_write = True, fo_stat = True, fo_manifest = None\<rparr> bl mm bd enc (fc_mt c) (fc_fileNum c) e dir =
      (Inr r, e\<lparr>e_manifest := man\<rparr>, dir(fc_fileNum c \<mapsto> memtable_table (bl (mem_len (fc_mt c))) (fc_mt c)))"
      "table_of bl mm (fc_mt c) r" "fi_FileNum info = fc_fileNum c"
      "mf_GetLevels man = (mf_GetLevels (e_manifest e))[0 := mf_GetLevels (e_manifest e) ! 0 @ [info]]"
    by (elim exE conjE) (rule that)
  let ?e = "e\<lparr>e_manifest := man\<rparr>"
  have "mf_GetLevels (e_manifest ?e) \<noteq> []" using Cons.prems(2) 1(4) by simp
  moreover have "\<forall>c \<in> set cands. mem_fits (fc_mt c)" using Cons.prems(1) by simp
  note ih = Cons.IH [OF this]
  ultimately obtain rs man' infos dir' where
    2: "flush_write all_ok bl mm bd enc cands ?e (dir(fc_fileNum c \<mapsto> memtable_table (bl (mem_len (fc_mt c))) (fc_mt c))) =
      (Inr rs, ?e\<lparr>e_manifest := man'\<rparr>, dir')"
      "list_all2 (\<lambda>c r. table_of bl mm (fc_mt c) r) cands rs" "map fi_FileNum infos = map fc_fileNum cands"
      "mf_GetLevels man' = (mf_GetLevels man)[0 := mf_GetLevels man ! 0 @ infos]"
    using ih [of ?e "dir(fc_fileNum c \<mapsto> memtable_table (bl (mem_len (fc_mt c))) (fc_mt c))"]
    by (elim exE conjE meta_impE) (simp_all add: that del: fun_upd_apply)
  have "mf_GetLevels man' = (mf_GetLevels (e_manifest e))[0 := mf_GetLevels (e_manifest e) ! 0 @ info # infos]"
    using 1(4) 2(4) Cons.prems(2) by simp
  then show ?case
    using 1(1-3) 2(1-3) by (intro exI [of _ "r # rs"] exI [of _ man'] exI [of _ "info # infos"] exI [of _ dir']) simp
qed

end

lemma publish_eq:
  assumes "length cands = length rs" "distinct (map fc_shard cands)" "\<forall>c \<in> set cands. fc_shard c < length (e_shards e)"
    and "e_levels e \<noteq> []"
  shows "\<exists>ss. flush_publish (zip cands rs) e = e\<lparr>e_shards := ss, e_levels := (e_levels e)[0 := e_levels e ! 0 @ rs]\<rparr> \<and>
    length ss = length (e_shards e) \<and>
    (\<forall>i < length (e_shards e). i \<notin> fc_shard ` set cands \<longrightarrow> ss ! i = e_shards e ! i) \<and>
    (\<forall>j < length cands. ss ! fc_shard (cands ! j) = (e_shards e ! fc_shard (cands ! j))
       \<lparr>sh_frozen := None, sh_levels := append_level 0 (rs ! j) (sh_levels (e_shards e ! fc_shard (cands ! j)))\<rparr>)"
  using assms
proof (induction cands rs arbitrary: e rule: list_induct2)
  case Nil
  have "(e_levels e)[0 := e_levels e ! 0] = e_levels e" by (rule list_update_id)
  then show ?case by (intro exI [of _ "e_shards e"]) simp
next
  case (Cons c cands r rs)
  let ?f = "\<lambda>s. s\<lparr>sh_frozen := None, sh_levels := append_level 0 r (sh_levels s)\<rparr>"
  let ?e = "(upd_shard (fc_shard c) ?f e)\<lparr>e_levels := append_level 0 r (e_levels e)\<rparr>"
  have c: "fc_shard c < length (e_shards e)" "fc_shard c \<notin> fc_shard ` set cands" using Cons.prems by auto
  have sh: "e_shards ?e = (e_shards e)[fc_shard c := ?f (e_shards e ! fc_shard c)]" by (simp add: upd_shard_def)
  have "distinct (map fc_shard cands)" "\<forall>c \<in> set cands. fc_shard c < length (e_shards ?e)" "e_levels ?e \<noteq> []"
    using Cons.prems by (simp_all add: upd_shard_def append_level_def)
  from Cons.IH [OF this] obtain ss where
    ss: "flush_publish (zip cands rs) ?e = ?e\<lparr>e_shards := ss, e_levels := (e_levels ?e)[0 := e_levels ?e ! 0 @ rs]\<rparr>"
      "length ss = length (e_shards ?e)"
    and other: "\<forall>i < length (e_shards ?e). i \<notin> fc_shard ` set cands \<longrightarrow> ss ! i = e_shards ?e ! i"
    and mine: "\<forall>j < length cands. ss ! fc_shard (cands ! j) = (e_shards ?e ! fc_shard (cands ! j))
       \<lparr>sh_frozen := None, sh_levels := append_level 0 (rs ! j) (sh_levels (e_shards ?e ! fc_shard (cands ! j)))\<rparr>"
    by (elim exE conjE) (rule that)
  have len: "length (e_shards ?e) = length (e_shards e)" by (simp add: upd_shard_def)
  have lv: "(e_levels ?e)[0 := e_levels ?e ! 0 @ rs] = (e_levels e)[0 := e_levels e ! 0 @ r # rs]"
    using Cons.prems(3) by (simp add: append_level_def)
  have "flush_publish (zip (c # cands) (r # rs)) e = e\<lparr>e_shards := ss, e_levels := (e_levels e)[0 := e_levels e ! 0 @ r # rs]\<rparr>"
    using ss(1) unfolding lv by (simp add: Let_def upd_shard_def)
  moreover have "ss ! i = e_shards e ! i" if "i < length (e_shards e)" "i \<notin> fc_shard ` set (c # cands)" for i
    using other that unfolding len sh by (simp add: nth_list_update)
  moreover have "ss ! fc_shard ((c # cands) ! j) = (e_shards e ! fc_shard ((c # cands) ! j))
       \<lparr>sh_frozen := None, sh_levels := append_level 0 ((r # rs) ! j) (sh_levels (e_shards e ! fc_shard ((c # cands) ! j)))\<rparr>"
    if "j < length (c # cands)" for j
  proof (cases j)
    case 0
    then show ?thesis using other c unfolding len sh by simp
  next
    case (Suc l)
    then have "fc_shard (cands ! l) \<noteq> fc_shard c" using that c(2) by (metis Suc_less_eq image_eqI length_Cons nth_mem)
    then show ?thesis using mine Suc that unfolding sh by simp
  qed
  ultimately show ?case using ss(2) len by (intro exI [of _ ss]) simp
qed

section \<open>A flush\<close>

lemma cands_of_facts:
  "map fc_shard (cands_of ss n is) = is" "length (cands_of ss n is) = length is"
  "j < length is \<Longrightarrow> fc_mt (cands_of ss n is ! j) = sh_mem (ss ! (is ! j)) \<and> fc_shard (cands_of ss n is ! j) = is ! j \<and>
     fc_fileNum (cands_of ss n is ! j) = n + word_of_nat j"
  by (induction ss n "is" arbitrary: j rule: cands_of.induct) (auto simp: nth_Cons' gr0_conv_Suc)

lemma set_cands: "c \<in> set (cands_of ss n is) \<Longrightarrow> fc_shard c \<in> set is \<and> fc_mt c = sh_mem (ss ! fc_shard c)"
  by (induction ss n "is" rule: cands_of.induct) auto

definition needs_flush :: "lsm \<Rightarrow> nat list" where
  "needs_flush e = dirty (e_shards e) [0..<length (e_shards e)]"

text \<open>A shard whose memtable has moved to the table \<open>r\<close>.\<close>

definition moved :: "reader \<Rightarrow> shard \<Rightarrow> shard" where
  "moved r s = s\<lparr>sh_mem := [], sh_frozen := None, sh_memSize := 0, sh_levels := append_level 0 r (sh_levels s)\<rparr>"

definition flush_result :: "(nat \<Rightarrow> bloom_filter) \<Rightarrow> bool \<Rightarrow> lsm \<Rightarrow> reader list \<Rightarrow> lsm \<Rightarrow> bool" where
  "flush_result bl mm e rs e' \<longleftrightarrow> length rs = length (needs_flush e) \<and> e_levels e' = (e_levels e)[0 := e_levels e ! 0 @ rs] \<and>
     length (e_shards e') = length (e_shards e) \<and> e_closed e' = e_closed e \<and> e_unified e' = e_unified e \<and> e_vlog e' = e_vlog e \<and>
     e_LastTS e' = e_LastTS e \<and> e_cache e' = e_cache e \<and> e_snapshots e' = e_snapshots e \<and>
     (\<forall>i < length (e_shards e). i \<notin> set (needs_flush e) \<longrightarrow> e_shards e' ! i = e_shards e ! i) \<and>
     (\<forall>j < length rs. table_of bl mm (sh_mem (e_shards e ! (needs_flush e ! j))) (rs ! j) \<and>
        e_shards e' ! (needs_flush e ! j) = moved (rs ! j) (e_shards e ! (needs_flush e ! j)))"

lemma mf_begin:
  "mf_GetLevels (snd (mf_Apply enc mio \<lparr>ve_NewFiles = [], ve_DeletedFiles = [], ve_NextFileNum = n, ve_LastTS = 0\<rparr> m)) = mf_GetLevels m"
  by (simp add: mf_Apply_def writeEdit_def applyEdit_def mf_GetLevels_def Let_def)

context table_format
begin

lemma flush_moves:
  assumes "\<not> e_closed e" "\<forall>s \<in> set (e_shards e). mem_fits (sh_mem s)" "e_levels e \<noteq> []" "mf_GetLevels (e_manifest e) \<noteq> []"
  shows "\<exists>e' dir' rs infos. e_flushMemTable all_ok mio bl mm bd enc e dir = (None, e', dir') \<and> flush_result bl mm e rs e' \<and>
    map fi_FileNum infos = map (\<lambda>j. fst (mf_NextFileNum (e_manifest e)) + word_of_nat j) [0..<length rs] \<and>
    mf_GetLevels (e_manifest e') = (mf_GetLevels (e_manifest e))[0 := mf_GetLevels (e_manifest e) ! 0 @ infos]"
proof -
  obtain num m where nm: "mf_NextFileNum (e_manifest e) = (num, m)" by (metis surj_pair)
  have ml: "mf_GetLevels m = mf_GetLevels (e_manifest e)" using nm by (auto simp: mf_NextFileNum_def mf_GetLevels_def Let_def)
  let ?e = "e\<lparr>e_manifest := m\<rparr>" and ?ds = "needs_flush e"
  let ?cands = "cands_of (e_shards e) num ?ds" and ?ss = "frozen_list ?ds (e_shards e)"
  obtain n' where col: "flush_collect [0..<length (e_shards ?e)] num ?e = (?cands, n', ?e\<lparr>e_shards := ?ss\<rparr>)"
    using flush_collect_eq [of "[0..<length (e_shards ?e)]" ?e num] by (auto simp: needs_flush_def)
  have ds: "set ?ds \<subseteq> {..<length (e_shards e)}" "distinct ?ds" by (auto simp: needs_flush_def dirty_def)
  show ?thesis
  proof (cases "?ds = []")
    case True
    have "e_flushMemTable all_ok mio bl mm bd enc e dir = (None, ?e\<lparr>e_shards := ?ss\<rparr>, dir)"
      using assms(1) nm col True by (simp add: e_flushMemTable_def flush_begin_def)
    moreover have "?ss = e_shards e" using True by (intro nth_equalityI) simp_all
    moreover have "(mf_GetLevels (e_manifest e))[0 := mf_GetLevels (e_manifest e) ! 0] = mf_GetLevels (e_manifest e)" by (rule list_update_id)
    moreover have "(e_levels e)[0 := e_levels e ! 0] = e_levels e" by (rule list_update_id)
    ultimately show ?thesis using True ml
      by (intro exI [of _ "?e\<lparr>e_shards := ?ss\<rparr>"] exI [of _ dir] exI [of _ "[]"]) (simp add: flush_result_def)
  next
    case False
    then have ne: "?cands \<noteq> []" by (metis cands_of_facts(2) length_0_conv)
    let ?m1 = "snd (mf_Apply enc mio \<lparr>ve_NewFiles = [], ve_DeletedFiles = [], ve_NextFileNum = n', ve_LastTS = 0\<rparr> m)"
    let ?e1 = "?e\<lparr>e_shards := ?ss, e_manifest := ?m1\<rparr>"
    have beg: "flush_begin enc mio e = (?cands, ?e1)" using nm col ne by (simp add: flush_begin_def)
    have "mem_fits (fc_mt c)" if "c \<in> set ?cands" for c
      using set_cands [OF that] ds(1) assms(2) by (auto simp: subset_iff)
    moreover have "mf_GetLevels (e_manifest ?e1) \<noteq> []" using assms(4) ml by (simp add: mf_begin)
    ultimately obtain rs man infos dir' where
      wr: "flush_write all_ok bl mm bd enc ?cands ?e1 dir = (Inr rs, ?e1\<lparr>e_manifest := man\<rparr>, dir')"
        "list_all2 (\<lambda>c r. table_of bl mm (fc_mt c) r) ?cands rs" "map fi_FileNum infos = map fc_fileNum ?cands"
        "mf_GetLevels man = (mf_GetLevels (e_manifest ?e1))[0 := mf_GetLevels (e_manifest ?e1) ! 0 @ infos]"
      using flush_write_ok [of ?cands ?e1 mm enc dir] by blast
    let ?e2 = "?e1\<lparr>e_manifest := man\<rparr>"
    have len: "length ?cands = length rs" "length rs = length ?ds" using list_all2_lengthD [OF wr(2)] by (simp_all add: cands_of_facts(2))
    have "distinct (map fc_shard ?cands)" "\<forall>c \<in> set ?cands. fc_shard c < length (e_shards ?e2)" "e_levels ?e2 \<noteq> []"
      using ds assms(3) set_cands by (auto simp: cands_of_facts(1) subset_iff dest!: set_cands)
    from publish_eq [OF len(1) this] obtain ss where
      pub: "flush_publish (zip ?cands rs) ?e2 = ?e2\<lparr>e_shards := ss, e_levels := (e_levels ?e2)[0 := e_levels ?e2 ! 0 @ rs]\<rparr>"
        "length ss = length (e_shards ?e2)"
      and other: "\<forall>i < length (e_shards ?e2). i \<notin> fc_shard ` set ?cands \<longrightarrow> ss ! i = e_shards ?e2 ! i"
      and mine: "\<forall>j < length ?cands. ss ! fc_shard (?cands ! j) = (e_shards ?e2 ! fc_shard (?cands ! j))
         \<lparr>sh_frozen := None, sh_levels := append_level 0 (rs ! j) (sh_levels (e_shards ?e2 ! fc_shard (?cands ! j)))\<rparr>"
      by (elim exE conjE) (rule that)
    let ?e' = "?e2\<lparr>e_shards := ss, e_levels := (e_levels ?e2)[0 := e_levels ?e2 ! 0 @ rs]\<rparr>"
    have fl: "e_flushMemTable all_ok mio bl mm bd enc e dir = (None, ?e', dir')"
      using assms(1) beg ne wr(1) pub(1) by (simp add: e_flushMemTable_def)
    have img: "fc_shard ` set ?cands = set ?ds" by (metis cands_of_facts(1) set_map)
    have "table_of bl mm (sh_mem (e_shards e ! (?ds ! j))) (rs ! j) \<and> ss ! (?ds ! j) = moved (rs ! j) (e_shards e ! (?ds ! j))"
      if j: "j < length rs" for j
    proof
      have jl: "j < length ?ds" using j len by simp
      note cf = cands_of_facts(3) [OF jl, of "e_shards e" num]
      have "table_of bl mm (fc_mt (?cands ! j)) (rs ! j)" using list_all2_nthD [OF wr(2), of j] jl len by simp
      then show "table_of bl mm (sh_mem (e_shards e ! (?ds ! j))) (rs ! j)" using cf by simp
      have jm: "?ds ! j \<in> set ?ds" "?ds ! j < length (e_shards e)"
        using jl ds(1) nth_mem [OF jl] by (simp_all add: subset_iff)
      have jc: "j < length ?cands" using j len(1) by simp
      from mine jc have "ss ! fc_shard (?cands ! j) = (e_shards ?e2 ! fc_shard (?cands ! j))
         \<lparr>sh_frozen := None, sh_levels := append_level 0 (rs ! j) (sh_levels (e_shards ?e2 ! fc_shard (?cands ! j)))\<rparr>"
        by blast
      then show "ss ! (?ds ! j) = moved (rs ! j) (e_shards e ! (?ds ! j))"
        using jm cf by (simp add: moved_def freeze_def)
    qed
    then have "flush_result bl mm e rs ?e'"
      using len(2) other pub(2) unfolding img by (simp add: flush_result_def)
    moreover have "map fi_FileNum infos = map (\<lambda>j. num + word_of_nat j) [0..<length rs]"
      unfolding wr(3) using len by (intro nth_equalityI) (simp_all add: cands_of_facts)
    ultimately show ?thesis using fl wr(4) ml nm by (intro exI [of _ ?e'] exI [of _ dir'] exI [of _ rs] exI [of _ infos]) (simp add: mf_begin)
  qed
qed

end

text \<open>
  C30. A flush of an open engine whose system calls succeed moves every memtable whose size counter
  is not 0 into a new table of level 0, published to the engine and to the shard. An iteration over
  the new table lists exactly the live versions of the memtable in order, without the tags of their
  values; the memtable is empty, nothing is frozen and the counter is 0. The other shards, the
  clock, the caches and the buffers of large values do not change, and the manifest has one new file
  of level 0 per table, with consecutive numbers.
\<close>

theorem flush_moves_memtables:
  fixes raw_bits :: "u64 \<Rightarrow> u64" and raw_hashes g :: "u64 \<Rightarrow> u64 \<Rightarrow> u64" and est :: "u64 \<Rightarrow> u64" and r1 r2 r3 r4 :: u32
  assumes "\<not> e_closed e" "\<forall>s \<in> set (e_shards e). mem_fits (sh_mem s)" "e_levels e \<noteq> []" "mf_GetLevels (e_manifest e) \<noteq> []"
  shows "\<exists>e' dir' rs infos. e_flushMemTable all_ok mio (\<lambda>n. NewBloomFilter raw_bits raw_hashes r1 r2 (int n)) mm (DecodeBloomFilter est g r3 r4) enc e dir =
      (None, e', dir') \<and>
    length rs = length (needs_flush e) \<and> e_levels e' = (e_levels e)[0 := e_levels e ! 0 @ rs] \<and>
    length (e_shards e') = length (e_shards e) \<and> e_LastTS e' = e_LastTS e \<and> e_cache e' = e_cache e \<and>
    e_unified e' = e_unified e \<and> e_vlog e' = e_vlog e \<and>
    (\<forall>i < length (e_shards e). memSizeLoad (e_shards e ! i) = 0 \<longrightarrow> e_shards e' ! i = e_shards e ! i) \<and>
    (\<forall>j < length rs. sst_entries (rs ! j) = Inr (flushed (sh_mem (e_shards e ! (needs_flush e ! j)))) \<and>
       e_shards e' ! (needs_flush e ! j) = moved (rs ! j) (e_shards e ! (needs_flush e ! j))) \<and>
    map fi_FileNum infos = map (\<lambda>j. fst (mf_NextFileNum (e_manifest e)) + word_of_nat j) [0..<length rs] \<and>
    mf_GetLevels (e_manifest e') = (mf_GetLevels (e_manifest e))[0 := mf_GetLevels (e_manifest e) ! 0 @ infos]"
proof -
  let ?bl = "\<lambda>n. NewBloomFilter raw_bits raw_hashes r1 r2 (int n)" and ?bd = "DecodeBloomFilter est g r3 r4"
  obtain e' dir' rs infos where
    f: "e_flushMemTable all_ok mio ?bl mm ?bd enc e dir = (None, e', dir')" "flush_result ?bl mm e rs e'"
      "map fi_FileNum infos = map (\<lambda>j. fst (mf_NextFileNum (e_manifest e)) + word_of_nat j) [0..<length rs]"
      "mf_GetLevels (e_manifest e') = (mf_GetLevels (e_manifest e))[0 := mf_GetLevels (e_manifest e) ! 0 @ infos]"
    using bloom_tables.flush_moves [OF assms, of mio raw_bits raw_hashes r1 r2 mm est g r3 r4 enc dir]
    by (elim exE conjE) (rule that)
  have "i \<notin> set (needs_flush e)" if "memSizeLoad (e_shards e ! i) = 0" for i using that by (simp add: needs_flush_def dirty_def)
  with f show ?thesis
    by (intro exI [of _ e'] exI [of _ dir'] exI [of _ rs] exI [of _ infos]) (simp add: flush_result_def table_of_def)
qed

text \<open>An example: a put at 5 and a delete at 9 of one key; the table has the put and not the delete.\<close>

definition flush_demo :: mem where
  "flush_demo = [(NewMVCCKey [97] 5, Live (Some [TypeInline, 1])), (NewMVCCKey [97] 9, Tomb)]"

definition flush_demo_manifest :: manifest where
  "flush_demo_manifest = \<lparr>mf_st = \<lparr>mf_levels = [[], []], mf_nextFileNum = 2, mf_lastTS = 9\<rparr>, mf_file = [], mf_pos = 0\<rparr>"

lemma flush_demo_fits: "mem_fits flush_demo" "flushed flush_demo = [(NewMVCCKey [97] 5, [1])]"
  by (simp_all add: mem_fits_def mem_inv_def flush_demo_def mem_ops_def mem_live_def flushed_def ops_fit_def ops_size_def entry_fits_def
      entry_size_def raw_of_def stored_bytes_def payload_def IsValidValueTag_def isValidValueTag_def value_tags sst_tags NewMVCCKey_def InvertTimestamp_def
      mvcc_less_iff)

theorem flush_moves_memtables_witness:
  "\<forall>(e0 :: lsm) (s0 :: shard). \<exists>e' dir' r.
     e_flushMemTable all_ok None (\<lambda>n. NewBloomFilter (\<lambda>n. 20) (\<lambda>m n. 7) 3 4 (int n)) True (DecodeBloomFilter (\<lambda>m. 0) (\<lambda>m n. 0) 0 0) tiny_enc
       (e0\<lparr>e_closed := False, e_shards := [s0\<lparr>sh_mem := flush_demo, sh_memSize := 2\<rparr>], e_levels := [[], []],
          e_manifest := flush_demo_manifest\<rparr>) Map.empty = (None, e', dir') \<and>
     e_levels e' = [[r], []] \<and> sst_entries r = Inr [(NewMVCCKey [97] 5, [1])] \<and> sh_mem (e_shards e' ! 0) = [] \<and>
     map (map fi_FileNum) (mf_GetLevels (e_manifest e')) = [[2], []]"
proof (intro allI)
  fix e0 :: lsm and s0 :: shard
  let ?e = "e0\<lparr>e_closed := False, e_shards := [s0\<lparr>sh_mem := flush_demo, sh_memSize := 2\<rparr>], e_levels := [[], []],
          e_manifest := flush_demo_manifest\<rparr>"
  have h: "\<not> e_closed ?e" "\<forall>s \<in> set (e_shards ?e). mem_fits (sh_mem s)" "e_levels ?e \<noteq> []" "mf_GetLevels (e_manifest ?e) \<noteq> []"
    by (simp_all add: flush_demo_fits flush_demo_manifest_def mf_GetLevels_def)
  have nf: "needs_flush ?e = [0]" by (simp add: needs_flush_def dirty_def memSizeLoad_def)
  have num: "fst (mf_NextFileNum (e_manifest ?e)) = 2" by (simp add: flush_demo_manifest_def mf_NextFileNum_def)
  from flush_moves_memtables [OF h, where raw_bits = "\<lambda>n. 20" and raw_hashes = "\<lambda>m n. 7"
      and ?r1.0 = 3 and ?r2.0 = 4 and mm = True and est = "\<lambda>m. 0" and g = "\<lambda>m n. 0" and ?r3.0 = 0 and ?r4.0 = 0
      and enc = tiny_enc and dir = Map.empty and mio = None, unfolded nf num]
  show "\<exists>e' dir' r.
     e_flushMemTable all_ok None (\<lambda>n. NewBloomFilter (\<lambda>n. 20) (\<lambda>m n. 7) 3 4 (int n)) True (DecodeBloomFilter (\<lambda>m. 0) (\<lambda>m n. 0) 0 0) tiny_enc
       ?e Map.empty = (None, e', dir') \<and>
     e_levels e' = [[r], []] \<and> sst_entries r = Inr [(NewMVCCKey [97] 5, [1])] \<and> sh_mem (e_shards e' ! 0) = [] \<and>
     map (map fi_FileNum) (mf_GetLevels (e_manifest e')) = [[2], []]"
    by (auto simp: flush_demo_fits flush_demo_manifest_def mf_GetLevels_def moved_def length_Suc_conv)
qed

end
