(* ===== verification/FlushReads.thy ===== *)
theory FlushReads
  imports FlushProofs
begin

text \<open>
  Reads across a flush: what a lookup in the tables of a flush finds, when a read is the same as
  before, and the reads that change.
\<close>

section \<open>Lookups in several tables\<close>

lemma lookup_tables_none: "\<forall>r \<in> set rs. sst_Lookup r key = Inr (None, False) \<Longrightarrow> lookup_tables key rs = Inr None"
  by (induction rs) simp_all

lemma lookup_tables_at:
  assumes "\<forall>j < length rs. j \<noteq> i \<longrightarrow> sst_Lookup (rs ! j) key = Inr (None, False)" "i < length rs"
  shows "lookup_tables key rs =
    (case sst_Lookup (rs ! i) key of Inl err \<Rightarrow> Inl err | Inr (v, True) \<Rightarrow> Inr (Some v) | Inr (_, False) \<Rightarrow> Inr None)"
  using assms
proof (induction rs arbitrary: i)
  case (Cons r rs)
  show ?case
  proof (cases i)
    case 0
    have "sst_Lookup r' key = Inr (None, False)" if "r' \<in> set rs" for r'
      using that Cons.prems(1) 0 by (fastforce simp: in_set_conv_nth)
    then have "lookup_tables key rs = Inr None" by (intro lookup_tables_none) blast
    then show ?thesis using 0 by (simp split: sum.split prod.split bool.split)
  next
    case (Suc l)
    have "sst_Lookup r key = Inr (None, False)" using Cons.prems(1) Suc by fastforce
    moreover have "\<forall>j < length rs. j \<noteq> l \<longrightarrow> sst_Lookup (rs ! j) key = Inr (None, False)"
      using Cons.prems(1) Suc by fastforce
    ultimately show ?thesis using Cons.IH [of l] Cons.prems(2) Suc by simp
  qed
qed simp

section \<open>Plain values\<close>

text \<open>
  A value without its tag is read back as it is unless its first byte looks like a tag or its
  length is the length of a pointer.
\<close>

definition plain :: "bytes \<Rightarrow> bool" where
  "plain x \<longleftrightarrow> x = [] \<or> \<not> IsValidValueTag (hd x) \<and> length x \<noteq> ValuePointerSize"

lemma decode_plain: "plain x \<Longrightarrow> decodeStoredValue e (Some x) True = Inr (Some x)"
  by (cases x) (simp_all add: plain_def decodeStoredValue_def)

definition plain_in :: "mem \<Rightarrow> bytes \<Rightarrow> bool" where
  "plain_in m k \<longleftrightarrow> (\<forall>(mk, ver) \<in> set m. mk_key mk = k \<longrightarrow> (\<exists>x. plain x \<and> ver = Live (Some (TypeInline # x))))"

lemma mem_version_in:
  assumes v: "mem_version k s m = Some ver" and inv: "mem_inv m"
  obtains mk where "(mk, ver) \<in> set m" "mk_key mk = k" "CommitTS mk \<le> s"
    "\<And>mk' ver'. (mk', ver') \<in> set m \<Longrightarrow> mk_key mk' = k \<Longrightarrow> CommitTS mk' \<le> s \<Longrightarrow> CommitTS mk' \<le> CommitTS mk"
proof -
  let ?V = "set (mem_visible k s m)" and ?t = "\<lambda>x. CommitTS (fst x)"
  have "mem_visible k s m \<noteq> []" using v by (auto simp: mem_version_def)
  then have "Max (?t ` ?V) \<in> ?t ` ?V" by (intro Max_in) simp_all
  then obtain x where x: "x \<in> ?V" "Max (?t ` ?V) = ?t x" by (rule imageE) (rule that)
  obtain mk ver' where e: "x = (mk, ver')" by (cases x)
  have in_m: "(mk, ver') \<in> set m" "mk_key mk = k" "CommitTS mk \<le> s"
    using x(1) by (simp_all add: e mem_visible_def mem_chain_def)
  have max: "CommitTS mk' \<le> CommitTS mk" if "(mk', w) \<in> set m" "mk_key mk' = k" "CommitTS mk' \<le> s" for mk' w
  proof -
    have "(mk', w) \<in> ?V" using that by (simp add: mem_visible_def mem_chain_def)
    then have "?t (mk', w) \<le> Max (?t ` ?V)" by (intro Max_ge imageI) simp_all
    then show ?thesis unfolding x(2) by (simp only: e fst_conv)
  qed
  have "mem_version k s m = Some ver'" by (rule mem_visible_last [OF inv in_m]) (rule max)
  then have ver: "ver' = ver" using v by simp
  show ?thesis by (rule that [OF in_m [unfolded ver] max])
qed

section \<open>Lookups in the table of a memtable\<close>

lemma mem_ops_set: "set (map raw_of (mem_ops m)) = {raw_of (mk, x, True) | mk x. (mk, Live x) \<in> set m}"
proof (intro set_eqI iffI)
  fix e assume "e \<in> set (map raw_of (mem_ops m))"
  then obtain mk v where e: "(mk, v) \<in> set m" "v \<noteq> Tomb" "e = raw_of (mk, case v of Live x \<Rightarrow> x | Tomb \<Rightarrow> None, True)"
    by (auto simp: mem_ops_def mem_live_def)
  then show "e \<in> {raw_of (mk, x, True) | mk x. (mk, Live x) \<in> set m}" by (cases v) auto
next
  fix e assume "e \<in> {raw_of (mk, x, True) | mk x. (mk, Live x) \<in> set m}"
  then obtain mk x where e: "(mk, Live x) \<in> set m" "e = raw_of (mk, x, True)" by blast
  then have "(mk, x, True) \<in> set (mem_ops m)" by (force simp: mem_ops_def mem_live_def)
  then show "e \<in> set (map raw_of (mem_ops m))" using e(2) by simp
qed

lemma plain_answer: "entry_answer (raw_of (mk, Some (TypeInline # x), True)) = (Some x, True)"
  by (simp add: entry_answer_def raw_of_def stored_bytes_def is_tomb_def payload_def isValidValueTag_def sst_tags value_tags)

definition table_answers :: "(nat \<Rightarrow> bloom_filter) \<Rightarrow> mem \<Rightarrow> bytes \<Rightarrow> bool" where
  "table_answers bl m k \<longleftrightarrow> in_one_block (mem_writer (bl (mem_len m)) m) k \<and> passes_range (mem_writer (bl (mem_len m)) m) k"

context table_format
begin

lemma table_absent:
  assumes fits: "mem_fits m" and t: "table_of bl mm m r" and no: "\<forall>(mk, ver) \<in> set m. mk_key mk \<noteq> k"
  shows "sst_Lookup r (NewMVCCKey k s) = Inr (None, False)"
proof -
  have f: "ops_fit (mem_ops m)" "ops_size (mem_ops m) < 2 ^ 60" "mem_inv m" using fits by (simp_all add: mem_fits_def)
  note w = mem_table(1,2) [OF f, of "mem_len m"] written_table(3) [OF f(1,2), of "mem_len m", folded mem_writer_def]
  obtain ft where r: "r = opened mm (mem_writer (bl (mem_len m)) m) ft" using t by (auto simp: table_of_def)
  have "\<not> matching k s e" if "e \<in> set (wr_entries (mem_writer (bl (mem_len m)) m))" for e
    using that no unfolding w(2) mem_ops_set by (auto simp: matching_def raw_of_def)
  then show ?thesis
    using lookup_sound [OF w(1,3), of mm ft "NewMVCCKey k s"] by (auto simp: r)
qed

lemma table_plain:
  assumes fits: "mem_fits m" and t: "table_of bl mm m r" and pl: "plain_in m k" and ans: "table_answers bl m k"
  shows "sst_Lookup r (NewMVCCKey k s) =
    (case mem_version k s m of Some (Live (Some (_ # x))) \<Rightarrow> Inr (Some x, True) | _ \<Rightarrow> Inr (None, False))"
proof -
  have f: "ops_fit (mem_ops m)" "ops_size (mem_ops m) < 2 ^ 60" "mem_inv m" using fits by (simp_all add: mem_fits_def)
  let ?w = "mem_writer (bl (mem_len m)) m"
  note w = mem_table(1,2) [OF f, of "mem_len m"] written_table(3) [OF f(1,2), of "mem_len m", folded mem_writer_def]
  obtain ft where r: "r = opened mm ?w ft" using t by (auto simp: table_of_def)
  note complete = lookup_complete [OF w(1,3), where key = "NewMVCCKey k s" and mm = mm and f = ft, folded r]
  have c: "in_one_block ?w (mk_key (NewMVCCKey k s))" "passes_range ?w (mk_key (NewMVCCKey k s))"
    using ans by (simp_all add: table_answers_def)
  have d: "distinct (map re_key (wr_entries ?w))"
  proof -
    have "map re_key (wr_entries ?w) = map fst (mem_live m)"
      by (simp add: w(2) mem_ops_def raw_of_def comp_def case_prod_beta')
    moreover have "distinct (map fst (mem_live m))"
      using mem_inv_distinct [OF f(3)] by (simp add: mem_live_def distinct_map_filter)
    ultimately show ?thesis by simp
  qed
  show ?thesis
  proof (cases "mem_version k s m")
    case None
    then have "\<not> (mk_key mk = k \<and> CommitTS mk \<le> s)" if "(mk, ver) \<in> set m" for mk ver
      using that unfolding mem_version_None by blast
    then have "\<nexists>e. newest_visible (wr_entries ?w) k s e"
      unfolding newest_visible_def w(2) mem_ops_set by (auto simp: matching_def raw_of_def)
    then show ?thesis using complete(2) [OF c] None by simp
  next
    case (Some ver)
    obtain mk where mk: "(mk, ver) \<in> set m" "mk_key mk = k" "CommitTS mk \<le> s"
      "\<And>mk' ver'. (mk', ver') \<in> set m \<Longrightarrow> mk_key mk' = k \<Longrightarrow> CommitTS mk' \<le> s \<Longrightarrow> CommitTS mk' \<le> CommitTS mk"
      by (rule mem_version_in [OF Some f(3)]) (rule that)
    obtain x where x: "ver = Live (Some (TypeInline # x))" using pl mk(1,2) unfolding plain_in_def by blast
    have "newest_visible (wr_entries ?w) k s (raw_of (mk, Some (TypeInline # x), True))"
      unfolding newest_visible_def w(2) mem_ops_set using mk x
      by (auto simp: matching_def raw_of_def simp del: CommitTS_le_iff CommitTS_less_iff)
    then have "sst_Lookup r (NewMVCCKey k s) = Inr (Some x, True)"
      using complete(1) [OF c _ d] plain_answer by simp
    then show ?thesis using Some x by simp
  qed
qed


text \<open>The table of a memtable is the table of its live versions.\<close>

lemma live_table:
  "mem_live (mem_live m) = mem_live m" "mem_ops (mem_live m) = mem_ops m" "mem_len (mem_live m) = mem_len m"
  "mem_writer b (mem_live m) = mem_writer b m" "flushed (mem_live m) = flushed m"
  by (simp_all add: mem_live_def mem_ops_def mem_len_def mem_writer_def flushed_def)

lemma fits_live: "mem_fits m \<Longrightarrow> mem_fits (mem_live m)"
  using mem_inv_filter [of m "\<lambda>e. snd e \<noteq> Tomb"] by (simp add: mem_fits_def live_table) (simp add: mem_live_def)

lemma table_live:
  assumes "mem_fits m" "table_of bl mm m r" "plain_in (mem_live m) k" "table_answers bl m k"
  shows "sst_Lookup r (NewMVCCKey k s) =
    (case mem_version k s (mem_live m) of Some (Live (Some (_ # x))) \<Rightarrow> Inr (Some x, True) | _ \<Rightarrow> Inr (None, False))"
  by (rule table_plain [where mm = mm, OF fits_live [OF assms(1)] _ assms(3)])
    (use assms(2,4) in \<open>simp_all add: table_of_def table_answers_def live_table\<close>)

lemma tables_lookup:
  assumes ok: "sized e" "routed e" "concat (e_levels e) = []" "e_levels e \<noteq> []"
    and fits: "\<forall>s \<in> set (e_shards e). mem_fits (sh_mem s)" and res: "flush_result bl mm e rs e'"
    and ans: "plain_in (mem_live (sh_mem (e_shard e k))) k" "table_answers bl (sh_mem (e_shard e k)) k"
  shows "lookup_levels (NewMVCCKey k s) (e_levels e') =
    (if e_shardIndex e k \<in> set (needs_flush e)
     then Inr (case mem_version k s (mem_live (sh_mem (e_shard e k))) of Some (Live (Some (_ # x))) \<Rightarrow> Some (Some x) | _ \<Rightarrow> None) else Inr None)"
proof -
  let ?ds = "needs_flush e" and ?i = "e_shardIndex e k" and ?key = "NewMVCCKey k s"
  have len: "length rs = length ?ds" and lv: "e_levels e' = (e_levels e)[0 := e_levels e ! 0 @ rs]"
    and tab: "\<And>j. j < length rs \<Longrightarrow> table_of bl mm (sh_mem (e_shards e ! (?ds ! j))) (rs ! j)"
    using res by (simp_all add: flush_result_def)
  have "concat (e_levels e') = rs"
    using ok(3,4) unfolding lv by (cases "e_levels e") simp_all
  then have L: "lookup_levels ?key (e_levels e') = lookup_tables ?key rs" by (simp add: lookup_levels_def)
  have ds: "distinct ?ds" "\<And>j. j < length ?ds \<Longrightarrow> ?ds ! j < length (e_shards e)"
    using nth_mem [of _ ?ds] by (fastforce simp: needs_flush_def dirty_def)+
  have other: "sst_Lookup (rs ! j) ?key = Inr (None, False)" if j: "j < length rs" "?ds ! j \<noteq> ?i" for j
  proof -
    have jl: "?ds ! j < length (e_shards e)" using ds(2) j(1) len by simp
    then have "mem_fits (sh_mem (e_shards e ! (?ds ! j)))" using fits by simp
    moreover have "\<forall>(mk, ver) \<in> set (sh_mem (e_shards e ! (?ds ! j))). mk_key mk \<noteq> k"
      using ok(2) jl j(2) unfolding routed_def by fastforce
    ultimately show ?thesis using table_absent tab [OF j(1)] by blast
  qed
  show ?thesis
  proof (cases "?i \<in> set ?ds")
    case True
    then obtain j where j: "j < length rs" "?ds ! j = ?i" using len by (metis in_set_conv_nth)
    have "\<forall>j' < length rs. j' \<noteq> j \<longrightarrow> sst_Lookup (rs ! j') ?key = Inr (None, False)"
      using other j ds(1) len by (simp add: nth_eq_iff_index_eq [symmetric])
    note at = lookup_tables_at [OF this j(1)]
    have sh: "e_shards e ! (?ds ! j) = e_shard e k" by (simp add: j(2) e_shard_def)
    have "mem_fits (sh_mem (e_shard e k))" using fits index_less [OF ok(1)] by (simp add: e_shard_def)
    from table_live [OF this tab [OF j(1), unfolded sh] ans, of s] at L True
    show ?thesis by (simp split: option.split version.split list.split)
  next
    case False
    then have "sst_Lookup r ?key = Inr (None, False)" if "r \<in> set rs" for r
      using that other len by (metis in_set_conv_nth nth_mem)
    then show ?thesis using False L lookup_tables_none by metis
  qed
qed

text \<open>What a flush leaves of the reads: the clean shards as they are, the others without their deletions.\<close>

lemma flush_reads:
  assumes ok: "\<not> e_closed e" "sized e" "routed e" "concat (e_levels e) = []" "e_levels e \<noteq> []"
    and fits: "\<forall>s \<in> set (e_shards e). mem_fits (sh_mem s)" and res: "flush_result bl mm e rs e'"
    and ans: "plain_in (mem_live (sh_mem (e_shard e k))) k" "table_answers bl (sh_mem (e_shard e k)) k"
  shows "e_GetWithTS k s e' =
    (if e_shardIndex e k \<in> set (needs_flush e)
     then Inr (case mem_version k s (mem_live (sh_mem (e_shard e k))) of Some (Live (Some (_ # x))) \<Rightarrow> Some x | _ \<Rightarrow> None)
     else e_GetWithTS k s e)"
proof -
  let ?i = "e_shardIndex e k" and ?m = "sh_mem (e_shard e k)"
  have L: "lookup_levels (NewMVCCKey k s) (e_levels e') =
    (if ?i \<in> set (needs_flush e)
     then Inr (case mem_version k s (mem_live ?m) of Some (Live (Some (_ # x))) \<Rightarrow> Some (Some x) | _ \<Rightarrow> None) else Inr None)" for s
    by (rule tables_lookup [OF ok(2-5) fits res ans])
  have r: "length (e_shards e') = length (e_shards e)" "\<not> e_closed e'"
    "\<And>i. i < length (e_shards e) \<Longrightarrow> i \<notin> set (needs_flush e) \<Longrightarrow> e_shards e' ! i = e_shards e ! i"
    and mv: "\<And>j. j < length (needs_flush e) \<Longrightarrow> e_shards e' ! (needs_flush e ! j) = moved (rs ! j) (e_shards e ! (needs_flush e ! j))"
    using res ok(1) by (simp_all add: flush_result_def)
  have same: "e_unified e' = e_unified e" "e_vlog e' = e_vlog e" using res by (simp_all add: flush_result_def)
  have idx: "e_shardIndex e' = e_shardIndex e" using r(1) by (intro ext) (simp add: e_shardIndex_def)
  have gone: "sh_mem (e_shards e' ! i) = [] \<and> sh_frozen (e_shards e' ! i) = None" if "i \<in> set (needs_flush e)" for i
    using that mv by (auto simp: in_set_conv_nth moved_def)
  have "routed e'"
    unfolding routed_def idx r(1)
  proof (intro allI impI)
    fix i assume i: "i < length (e_shards e)"
    show "(\<forall>(k, v) \<in> set (sh_mem (e_shards e' ! i)). e_shardIndex e (mk_key k) = i) \<and>
      (\<forall>m. sh_frozen (e_shards e' ! i) = Some m \<longrightarrow> (\<forall>(k, v) \<in> set m. e_shardIndex e (mk_key k) = i))"
      using gone [of i] r(3) [OF i] ok(3) i unfolding routed_def by (cases "i \<in> set (needs_flush e)") simp_all
  qed
  moreover have "sized e'" using ok(2) r(1) by (auto simp: sized_def)
  ultimately have g': "get_memtables k s (map sh_mem (e_shards e')) =
      (case mem_get k s (sh_mem (e_shard e' k)) of (v, True) \<Rightarrow> Some v | (_, False) \<Rightarrow> None)" by (rule get_routed)
  note g = get_routed [OF ok(3,2), of k s]
  have none: "lookup_levels (NewMVCCKey k s) (e_levels e) = Inr None" using no_tables [OF ok(4)] by blast
  show ?thesis
  proof (cases "?i \<in> set (needs_flush e)")
    case False
    then have "e_shard e' k = e_shard e k" using r(3) index_less [OF ok(2), of k] by (simp add: e_shard_def idx)
    then have "get_memtables k s (map sh_mem (e_shards e')) = get_memtables k s (map sh_mem (e_shards e))" using g g' by simp
    moreover have "decodeStoredValue e' v False = decodeStoredValue e v False" for v
      unfolding decodeStoredValue_def same ..
    ultimately show ?thesis using False L [of s] none r(2) ok(1) by (simp add: e_GetWithTS_def split: option.split)
  next
    case True
    then have "sh_mem (e_shard e' k) = []" using gone by (simp add: e_shard_def idx)
    then have g0: "get_memtables k s (map sh_mem (e_shards e')) = None"
      unfolding g' by (simp add: mem_get_def mem_version_def mem_visible_def mem_chain_def)
    have inv: "mem_inv (mem_live ?m)"
      using fits_live [of ?m] fits index_less [OF ok(2)] by (simp add: e_shard_def mem_fits_def)
    show ?thesis
    proof (cases "mem_version k s (mem_live ?m)")
      case None
      then show ?thesis using True L [of s] g0 r(2) by (simp add: e_GetWithTS_def)
    next
      case (Some ver)
      obtain mk where "(mk, ver) \<in> set (mem_live ?m)" "mk_key mk = k" by (rule mem_version_in [OF Some inv]) (rule that)
      then obtain x where x: "plain x" "ver = Live (Some (TypeInline # x))" using ans(1) unfolding plain_in_def by blast
      then show ?thesis using Some True L [of s] g0 r(2) by (simp add: e_GetWithTS_def decode_plain)
    qed
  qed
qed

end


section \<open>Reads of a history across a flush\<close>

definition undeleted :: "history \<Rightarrow> history" where
  "undeleted h = filter (\<lambda>(k, t, v). v \<noteq> None) h"

lemma undeleted_same: "\<forall>(k', t, v) \<in> set h. k' = k \<longrightarrow> v \<noteq> None \<Longrightarrow> h_read (undeleted h) k s = h_read h k s"
proof -
  assume "\<forall>(k', t, v) \<in> set h. k' = k \<longrightarrow> v \<noteq> None"
  then have "filter (\<lambda>(k', t, v). k' = k \<and> t \<le> s) (undeleted h) = filter (\<lambda>(k', t, v). k' = k \<and> t \<le> s) h"
    unfolding undeleted_def filter_filter by (intro filter_cong) auto
  then show ?thesis by (simp add: h_read_def)
qed

lemma live_read:
  assumes tr: "tracks E h e" and pl: "plain_in (mem_live (sh_mem (e_shard e k))) k"
  shows "(case mem_version k s (mem_live (sh_mem (e_shard e k))) of Some (Live (Some (_ # x))) \<Rightarrow> Some x | _ \<Rightarrow> None) =
    h_read (undeleted h) k s"
proof -
  let ?m = "sh_mem (e_shard e k)"
  have sz: "sized e" "h_sorted h" using tr by (simp_all add: tracks_def)
  have in_e: "e_shard e k \<in> set (e_shards e)" using index_less [OF sz(1)] by (simp add: e_shard_def)
  have inv: "mem_inv ?m" using tr in_e by (auto simp: tracks_def logs_ok_def)
  then have inv': "mem_inv (mem_live ?m)" by (simp add: mem_live_def mem_inv_filter)
  have fwd: "\<And>t v. (k, t, v) \<in> set h \<Longrightarrow> \<exists>ver. (NewMVCCKey k t, ver) \<in> set ?m \<and> stored_as E ver v"
    using tr by (fastforce simp: tracks_def)
  have "\<forall>s \<in> set (e_shards e). \<forall>(k, ver) \<in> set (sh_mem s). \<exists>v. (mk_key k, CommitTS k, v) \<in> set h"
    using tr unfolding tracks_def by blast
  then have bwd: "\<And>k' ver. (k', ver) \<in> set ?m \<Longrightarrow> \<exists>v. (mk_key k', CommitTS k', v) \<in> set h" using in_e by fast
  have un: "(k, t, v) \<in> set (undeleted h) \<longleftrightarrow> (k, t, v) \<in> set h \<and> v \<noteq> None" for k t v by (auto simp: undeleted_def)
  have live: "\<exists>x. v = Some x \<and> (mk, Live (Some (TypeInline # x))) \<in> set (mem_live ?m)"
    if h: "(k, t, v) \<in> set h" "v \<noteq> None" and mk: "mk = NewMVCCKey k t" for t v mk
  proof -
    obtain x where x: "v = Some x" using h(2) by blast
    obtain ver where ver: "(mk, ver) \<in> set ?m" "stored_as E ver v" using fwd [OF h(1)] mk by blast
    have "ver \<noteq> Tomb" using ver(2) x by (auto simp: stored_as_def stored_version_def)
    then have l: "(mk, ver) \<in> set (mem_live ?m)" using ver(1) by (simp add: mem_live_def)
    then obtain y where y: "ver = Live (Some (TypeInline # y))" using pl mk unfolding plain_in_def by fastforce
    then have "x = y" using ver(2) x by (auto simp: stored_as_def stored_version_def value_tags)
    then show ?thesis using x y l by blast
  qed
  have known: "\<exists>x. (k, CommitTS mk, Some x) \<in> set h"
    if mv: "(mk, ver) \<in> set (mem_live ?m)" "mk_key mk = k" for mk ver
  proof -
    have m: "(mk, ver) \<in> set ?m" "ver \<noteq> Tomb" using mv(1) by (auto simp: mem_live_def)
    obtain v where v: "(k, CommitTS mk, v) \<in> set h" using bwd [OF m(1)] mv(2) by blast
    then obtain ver' where w: "(NewMVCCKey k (CommitTS mk), ver') \<in> set ?m" "stored_as E ver' v" using fwd by blast
    have "NewMVCCKey k (CommitTS mk) = mk" using New_Commit [of mk] mv(2) by simp
    then have "ver' = ver" using mem_inv_unique [OF inv] m(1) w(1) by simp
    then have "v \<noteq> None" using w(2) m(2) by (auto simp: stored_as_def stored_version_def split: option.splits)
    then show ?thesis using v by blast
  qed
  have "h_sorted (undeleted h)" using sz(2) by (simp add: h_sorted_def undeleted_def sorted_wrt_filter)
  from h_read_cases [OF this, of k s]
  consider (found) t v where "(k, t, v) \<in> set (undeleted h)" "t \<le> s" "h_read (undeleted h) k s = v"
      "\<forall>t' v'. (k, t', v') \<in> set (undeleted h) \<longrightarrow> t' \<le> s \<longrightarrow> t' \<le> t"
    | (none) "h_read (undeleted h) k s = None" "\<forall>t v. (k, t, v) \<in> set (undeleted h) \<longrightarrow> s < t"
    by metis
  then show ?thesis
  proof cases
    case found
    obtain x where x: "v = Some x" "(NewMVCCKey k t, Live (Some (TypeInline # x))) \<in> set (mem_live ?m)"
      using live [OF _ _ refl] found(1) un by blast
    have "mem_version k s (mem_live ?m) = Some (Live (Some (TypeInline # x)))"
    proof (rule mem_visible_last [OF inv' x(2)])
      fix k' v' assume "(k', v') \<in> set (mem_live ?m)" "mk_key k' = k" "CommitTS k' \<le> s"
      then have "CommitTS k' \<le> t" using known un found(4) by blast
      then show "CommitTS k' \<le> CommitTS (NewMVCCKey k t)" by (simp only: CommitTS_New)
    qed (use found(2) in simp_all)
    then show ?thesis using found(3) x(1) by simp
  next
    case none
    have "\<not> (mk_key k' = k \<and> CommitTS k' \<le> s)" if "(k', ver) \<in> set (mem_live ?m)" for k' ver
      using known [OF that] un none(2) by (metis not_le option.distinct(1))
    then have "mem_version k s (mem_live ?m) = None" unfolding mem_version_None by blast
    then show ?thesis by (simp add: none(1))
  qed
qed

text \<open>
  C31. A flush of an engine without tables that tracks a history does not change the reads of a
  key at any snapshot when the key was never deleted, its values are inline, their first byte and
  length cannot be taken for a tag or a pointer, and the table of its shard answers for the key,
  that is, its versions lie in one block and the range filter lets it pass. The reads of a deleted
  key become, in a shard that was flushed, the reads of the history without its deletions.
\<close>

theorem flush_keeps_plain_reads:
  fixes raw_bits :: "u64 \<Rightarrow> u64" and raw_hashes g :: "u64 \<Rightarrow> u64 \<Rightarrow> u64" and est :: "u64 \<Rightarrow> u64" and r1 r2 r3 r4 :: u32
  defines "bl \<equiv> \<lambda>n. NewBloomFilter raw_bits raw_hashes r1 r2 (int n)" and "bd \<equiv> DecodeBloomFilter est g r3 r4"
  assumes tr: "tracks E h e" and small: "length (um_data (e_unified e)) < 2 ^ 63"
    and fits: "\<forall>s \<in> set (e_shards e). mem_fits (sh_mem s)" and lv: "e_levels e \<noteq> []" "mf_GetLevels (e_manifest e) \<noteq> []"
  shows "\<exists>e' dir'. e_flushMemTable all_ok mio bl mm bd enc e dir = (None, e', dir') \<and>
    (\<forall>k s. plain_in (mem_live (sh_mem (e_shard e k))) k \<longrightarrow> table_answers bl (sh_mem (e_shard e k)) k \<longrightarrow>
       e_GetWithTS k s e' = Inr (h_read (if memSizeLoad (e_shard e k) = 0 then h else undeleted h) k s) \<and>
       ((\<forall>(k', t, v) \<in> set h. k' = k \<longrightarrow> v \<noteq> None) \<longrightarrow> e_GetWithTS k s e' = e_GetWithTS k s e))"
proof -
  have t: "\<not> e_closed e" "sized e" "routed e" "concat (e_levels e) = []" using tr by (simp_all add: tracks_def)
  obtain e' dir' rs where f: "e_flushMemTable all_ok mio bl mm bd enc e dir = (None, e', dir')" "flush_result bl mm e rs e'"
    using bloom_tables.flush_moves [OF t(1) fits lv, of mio raw_bits raw_hashes r1 r2 mm est g r3 r4 enc dir, folded bl_def bd_def]
    by (elim exE conjE) (rule that)
  have read: "e_GetWithTS k s e' = Inr (h_read (if memSizeLoad (e_shard e k) = 0 then h else undeleted h) k s)"
    if k: "plain_in (mem_live (sh_mem (e_shard e k))) k" "table_answers bl (sh_mem (e_shard e k)) k" for k s
  proof -
    have "e_shardIndex e k \<in> set (needs_flush e) \<longleftrightarrow> memSizeLoad (e_shard e k) \<noteq> 0"
      using index_less [OF t(2), of k] by (simp add: needs_flush_def dirty_def e_shard_def)
    then show ?thesis
      using bloom_tables.flush_reads [OF t lv(1) fits f(2) [unfolded bl_def] k(1) k(2) [unfolded bl_def], of s]
        tracks_read [OF tr small, of k s] live_read [OF tr k(1), of s] by simp
  qed
  show ?thesis
  proof (intro exI conjI allI impI)
    fix k s assume k: "plain_in (mem_live (sh_mem (e_shard e k))) k" "table_answers bl (sh_mem (e_shard e k)) k"
    show "e_GetWithTS k s e' = Inr (h_read (if memSizeLoad (e_shard e k) = 0 then h else undeleted h) k s)" by (rule read [OF k])
    assume "\<forall>(k', t, v) \<in> set h. k' = k \<longrightarrow> v \<noteq> None"
    then show "e_GetWithTS k s e' = e_GetWithTS k s e"
      by (simp add: read [OF k] tracks_read [OF tr small] undeleted_same)
  qed (rule f(1))
qed

text \<open>An example: one shard with a put at 5 and a delete at 9; the read at 9 finds the put again.\<close>

definition revive_engine :: "lsm \<Rightarrow> shard \<Rightarrow> lsm" where
  "revive_engine e0 s0 = e0\<lparr>e_closed := False,
     e_shards := [s0\<lparr>sh_mem := [(NewMVCCKey [97] 5, Live (Some [TypeInline, 7])), (NewMVCCKey [97] 9, Tomb)], sh_frozen := None,
       sh_memSize := 2, sh_wal := OpenWAL [] False False\<rparr>],
     e_levels := [[], []], e_manifest := flush_demo_manifest, e_unified := OpenUnifiedMmap [], e_LastTS := 9\<rparr>"

abbreviation demo_filter :: "nat \<Rightarrow> bloom_filter" where
  "demo_filter \<equiv> \<lambda>n. NewBloomFilter (\<lambda>n. 20) (\<lambda>m n. 7) 3 4 (int n)"

lemma revive_tracks: "tracks {} [([97], 5, Some [7]), ([97], 9, None)] (revive_engine e0 s0)"
proof -
  have ix: "e_shardIndex (revive_engine e0 s0) k = 0" for k
    using index_less [of "revive_engine e0 s0" k] by (simp add: sized_def revive_engine_def)
  show ?thesis
    by (simp add: tracks_def sized_def routed_def logs_ok_def e_shard_def ix h_sorted_def unfrozen_def)
      (auto simp: revive_engine_def um_rep_def OpenUnifiedMmap_def stored_as_def stored_version_def mem_inv_def
        wal_inv_Open NewMVCCKey_def InvertTimestamp_def mvcc_less_iff CommitTS_def RevertTimestamp_def)
qed

lemma revive_fits:
  "mem_fits [(NewMVCCKey [97] 5, Live (Some [TypeInline, 7])), (NewMVCCKey [97] 9, Tomb)]"
  by (simp add: mem_fits_def mem_inv_def mem_ops_def mem_live_def ops_fit_def ops_size_def entry_fits_def
      entry_size_def raw_of_def stored_bytes_def NewMVCCKey_def InvertTimestamp_def mvcc_less_iff)

lemma revive_answers:
  "table_answers demo_filter [(NewMVCCKey [97] 5, Live (Some [TypeInline, 7])), (NewMVCCKey [97] 9, Tomb)] [97]"
proof -
  let ?m = "[(NewMVCCKey [97] 5, Live (Some [TypeInline, 7])), (NewMVCCKey [97] 9, Tomb)]"
  let ?w = "mem_writer (demo_filter (mem_len ?m)) ?m"
  have f: "ops_fit (mem_ops ?m)" "ops_size (mem_ops ?m) < 2 ^ 60" "mem_inv ?m" using revive_fits by (simp_all add: mem_fits_def)
  have es: "wr_entries ?w = map raw_of (mem_ops ?m)" by (rule bloom_tables.mem_table(2) [OF f])
  have "groups_of ?w = [[raw_of (NewMVCCKey [97] 5, Some [TypeInline, 7], True)]]"
  proof -
    have "map raw_of (mem_ops ?m) = [raw_of (NewMVCCKey [97] 5, Some [TypeInline, 7], True)]"
      by (simp add: mem_ops_def mem_live_def)
    then show ?thesis unfolding groups_of_def es by (simp add: length_entry_bytes BlockSize_def)
  qed
  then have "in_one_block ?w [97]" by (auto simp: in_one_block_def)
  moreover have "wr_minKey ?w = Some [97]" "wr_maxKey ?w = Some [97]"
    by (simp_all add: mem_writer_def sst_appends_def mem_ops_def mem_live_def appendInternal_fields sst_NewWriter_def)
  ultimately show ?thesis by (simp add: table_answers_def passes_range_def read_max_def slice_of_def)
qed

theorem flush_keeps_plain_reads_witness:
  "\<forall>e0 s0. \<exists>e' dir'. e_GetWithTS [97] 9 (revive_engine e0 s0) = Inr None \<and>
     e_flushMemTable all_ok None demo_filter True (DecodeBloomFilter (\<lambda>m. 0) (\<lambda>m n. 0) 0 0) tiny_enc (revive_engine e0 s0) Map.empty =
       (None, e', dir') \<and>
     e_GetWithTS [97] 9 e' = Inr (Some [7])"
proof (intro allI)
  fix e0 s0
  let ?e = "revive_engine e0 s0"
  let ?h = "[([97], 5, Some [7]), ([97], 9, None)]"
  have ix: "e_shardIndex ?e [97] = 0"
    using index_less [of ?e "[97]"] by (simp add: sized_def revive_engine_def)
  have h: "length (um_data (e_unified ?e)) < 2 ^ 63" "\<forall>s \<in> set (e_shards ?e). mem_fits (sh_mem s)"
    "e_levels ?e \<noteq> []" "mf_GetLevels (e_manifest ?e) \<noteq> []"
    using revive_fits by (simp_all add: revive_engine_def OpenUnifiedMmap_def UnifiedMmapSize_def flush_demo_manifest_def mf_GetLevels_def)
  have sh: "sh_mem (e_shard ?e [97]) = [(NewMVCCKey [97] 5, Live (Some [TypeInline, 7])), (NewMVCCKey [97] 9, Tomb)]"
    "memSizeLoad (e_shard ?e [97]) = 2"
    unfolding e_shard_def ix by (simp_all add: revive_engine_def memSizeLoad_def)
  have pl: "plain_in (mem_live (sh_mem (e_shard ?e [97]))) [97]"
    by (simp add: sh plain_in_def mem_live_def plain_def IsValidValueTag_def value_tags ValuePointerSize_def)
  note ans = revive_answers [folded sh(1)]
  from flush_keeps_plain_reads [OF revive_tracks h, where raw_bits = "\<lambda>n. 20" and raw_hashes = "\<lambda>m n. 7"
      and ?r1.0 = 3 and ?r2.0 = 4 and mm = True and est = "\<lambda>m. 0" and g = "\<lambda>m n. 0" and ?r3.0 = 0 and ?r4.0 = 0
      and enc = tiny_enc and dir = Map.empty and mio = None]
  obtain e' dir' where f: "e_flushMemTable all_ok None demo_filter True (DecodeBloomFilter (\<lambda>m. 0) (\<lambda>m n. 0) 0 0) tiny_enc ?e Map.empty =
       (None, e', dir')"
    and rd: "\<And>k s. plain_in (mem_live (sh_mem (e_shard ?e k))) k \<Longrightarrow> table_answers demo_filter (sh_mem (e_shard ?e k)) k \<Longrightarrow>
       e_GetWithTS k s e' = Inr (h_read (if memSizeLoad (e_shard ?e k) = 0 then ?h else undeleted ?h) k s)"
    by blast
  have "e_GetWithTS [97] 9 ?e = Inr None"
    by (simp add: tracks_read [OF revive_tracks h(1)] h_read_def)
  moreover have "e_GetWithTS [97] 9 e' = Inr (Some [7])"
    using rd [OF pl ans, of 9] by (simp add: sh(2) undeleted_def h_read_def)
  ultimately show "\<exists>e' dir'. e_GetWithTS [97] 9 ?e = Inr None \<and>
     e_flushMemTable all_ok None demo_filter True (DecodeBloomFilter (\<lambda>m. 0) (\<lambda>m n. 0) 0 0) tiny_enc ?e Map.empty = (None, e', dir') \<and>
     e_GetWithTS [97] 9 e' = Inr (Some [7])"
    using f by blast
qed

end
