(* ===== verification/Workers.thy ===== *)
theory Workers
  imports FlushProofs
begin

text \<open>
  The background workers of \<^verbatim>\<open>internal/engine/lsm.go\<close> over the engine: a signal to the
  flush worker empties every shard with a counter, a tick of it that meets a full shard breaks the
  read lock of the engine, and no run of the compaction worker, a step relation, ever compacts.
\<close>

section \<open>The flush worker\<close>

text \<open>\<open>n\<close> holders of the read lock leave it, one after the other.\<close>

primrec rw_leave :: "nat \<Rightarrow> nat \<Rightarrow> nat option" where
  "rw_leave 0 readers = Some readers"
| "rw_leave (Suc n) readers = Option.bind (rw_RUnlock readers) (rw_leave n)"

lemma rw_leave_short: "readers < n \<Longrightarrow> rw_leave n readers = None"
  by (induction n arbitrary: readers) (auto simp: rw_RUnlock_def)

lemma rw_leave_all: "rw_leave n n = Some 0"
  by (induction n) (simp_all add: rw_RUnlock_def)

lemma e_flush_tick_eq:
  "e_flush_tick sizeBytes readers e =
     (if \<exists>s \<in> set (e_shards e). shard_full sizeBytes s
      then if readers = 0 then None else Some (readers - 1, e\<lparr>e_flushCh := True\<rparr>)
      else Some (readers, e))"
  by (simp add: e_flush_tick_def rw_RLock_def rw_RUnlock_def Let_def)

lemma flush_result_clean:
  assumes res: "flush_result bl mm e rs e'" and i: "i < length (e_shards e)"
  shows "memSizeLoad (e_shards e' ! i) = 0"
    and "memSizeLoad (e_shards e ! i) \<noteq> 0 \<Longrightarrow> sh_mem (e_shards e' ! i) = [] \<and> sh_frozen (e_shards e' ! i) = None"
proof -
  have clean: "memSizeLoad (e_shards e' ! i) = 0 \<and> sh_mem (e_shards e' ! i) = [] \<and> sh_frozen (e_shards e' ! i) = None"
    if "memSizeLoad (e_shards e ! i) \<noteq> 0"
  proof -
    have "i \<in> set (needs_flush e)" using that i by (simp add: needs_flush_def dirty_def)
    then obtain j where "j < length rs" "needs_flush e ! j = i" using res by (metis flush_result_def in_set_conv_nth)
    then have "e_shards e' ! i = moved (rs ! j) (e_shards e ! i)" using res by (auto simp: flush_result_def)
    then show ?thesis by (simp add: moved_def memSizeLoad_def)
  qed
  have same: "e_shards e' ! i = e_shards e ! i" if "memSizeLoad (e_shards e ! i) = 0"
    using res i that by (simp add: flush_result_def needs_flush_def dirty_def)
  show "memSizeLoad (e_shards e' ! i) = 0" using clean same by fastforce
  show "memSizeLoad (e_shards e ! i) \<noteq> 0 \<Longrightarrow> sh_mem (e_shards e' ! i) = [] \<and> sh_frozen (e_shards e' ! i) = None"
    using clean by blast
qed

text \<open>
  C32. The flush worker. Handling the flush signal on an open engine whose system calls succeed
  empties the memtable of every shard with a counter and leaves every counter at 0. A tick raises
  the signal exactly when a shard is full, but it then releases the read lock of the engine twice:
  with no other holder of the lock the process dies, and with \<open>readers\<close> other holders the lock of
  one of them is gone, so that the last of them to leave dies. Without a full shard the tick leaves
  the lock as it was.
\<close>

theorem flush_worker_signal_and_tick:
  fixes raw_bits :: "u64 \<Rightarrow> u64" and raw_hashes g :: "u64 \<Rightarrow> u64 \<Rightarrow> u64" and est :: "u64 \<Rightarrow> u64" and r1 r2 r3 r4 :: u32
  assumes "\<not> e_closed e" "\<forall>s \<in> set (e_shards e). mem_fits (sh_mem s)" "e_levels e \<noteq> []" "mf_GetLevels (e_manifest e) \<noteq> []"
  shows "(e_flushCh e \<longrightarrow> (\<exists>e' dir'.
      e_flush_signal all_ok mio (\<lambda>n. NewBloomFilter raw_bits raw_hashes r1 r2 (int n)) mm (DecodeBloomFilter est g r3 r4) enc e dir = (e', dir') \<and>
      length (e_shards e') = length (e_shards e) \<and>
      (\<forall>i < length (e_shards e). memSizeLoad (e_shards e' ! i) = 0 \<and>
         (memSizeLoad (e_shards e ! i) \<noteq> 0 \<longrightarrow> sh_mem (e_shards e' ! i) = [] \<and> sh_frozen (e_shards e' ! i) = None)))) \<and>
    ((\<exists>s \<in> set (e_shards e). shard_full sizeBytes s) \<longrightarrow>
      e_flush_tick sizeBytes 0 e = None \<and>
      (\<exists>left. e_flush_tick sizeBytes (Suc readers) e = Some (left, e\<lparr>e_flushCh := True\<rparr>) \<and>
         rw_leave readers left = Some 0 \<and> rw_leave (Suc readers) left = None)) \<and>
    (\<not> (\<exists>s \<in> set (e_shards e). shard_full sizeBytes s) \<longrightarrow>
      e_flush_tick sizeBytes readers e = Some (readers, e) \<and> rw_leave readers readers = Some 0)"
proof (intro conjI impI)
  let ?bl = "\<lambda>n. NewBloomFilter raw_bits raw_hashes r1 r2 (int n)" and ?bd = "DecodeBloomFilter est g r3 r4"
  let ?e0 = "e\<lparr>e_flushCh := False\<rparr>"
  assume ch: "e_flushCh e"
  have "\<not> e_closed ?e0" "\<forall>s \<in> set (e_shards ?e0). mem_fits (sh_mem s)" "e_levels ?e0 \<noteq> []" "mf_GetLevels (e_manifest ?e0) \<noteq> []"
    using assms(1-4) by simp_all
  from bloom_tables.flush_moves [OF this, of mio raw_bits raw_hashes r1 r2 mm est g r3 r4 enc dir]
  obtain e' dir' rs where fl: "e_flushMemTable all_ok mio ?bl mm ?bd enc ?e0 dir = (None, e', dir')" "flush_result ?bl mm ?e0 rs e'"
    by (elim exE conjE) (rule that)
  have "e_flush_signal all_ok mio ?bl mm ?bd enc e dir = (e', dir')" using fl(1) ch by (simp add: e_flush_signal_def)
  moreover have "length (e_shards e') = length (e_shards e)" using fl(2) by (simp add: flush_result_def)
  ultimately show "\<exists>e' dir'. e_flush_signal all_ok mio ?bl mm ?bd enc e dir = (e', dir') \<and>
      length (e_shards e') = length (e_shards e) \<and>
      (\<forall>i < length (e_shards e). memSizeLoad (e_shards e' ! i) = 0 \<and>
         (memSizeLoad (e_shards e ! i) \<noteq> 0 \<longrightarrow> sh_mem (e_shards e' ! i) = [] \<and> sh_frozen (e_shards e' ! i) = None))"
    using flush_result_clean [OF fl(2)] by (intro exI [of _ e'] exI [of _ dir']) simp
next
  assume "\<exists>s \<in> set (e_shards e). shard_full sizeBytes s"
  then show "e_flush_tick sizeBytes 0 e = None"
    "\<exists>left. e_flush_tick sizeBytes (Suc readers) e = Some (left, e\<lparr>e_flushCh := True\<rparr>) \<and>
         rw_leave readers left = Some 0 \<and> rw_leave (Suc readers) left = None"
    by (simp_all add: e_flush_tick_eq rw_leave_all rw_leave_short del: rw_leave.simps)
next
  assume "\<not> (\<exists>s \<in> set (e_shards e). shard_full sizeBytes s)"
  then show "e_flush_tick sizeBytes readers e = Some (readers, e)" "rw_leave readers readers = Some 0"
    by (simp_all add: e_flush_tick_eq rw_leave_all)
qed

text \<open>One full shard: the signal empties it, a tick with one reader inside makes that reader fail.\<close>

definition full_demo :: "lsm \<Rightarrow> shard \<Rightarrow> lsm" where
  "full_demo e0 s0 = e0\<lparr>e_closed := False, e_shards := [s0\<lparr>sh_mem := flush_demo, sh_memSize := 5000000\<rparr>], e_levels := [[], []],
     e_manifest := flush_demo_manifest, e_flushCh := True\<rparr>"

theorem flush_worker_signal_and_tick_witness:
  "\<forall>e0 s0. (\<exists>e' dir'.
     e_flush_signal all_ok None (\<lambda>n. NewBloomFilter (\<lambda>n. 20) (\<lambda>m n. 7) 3 4 (int n)) True (DecodeBloomFilter (\<lambda>m. 0) (\<lambda>m n. 0) 0 0) tiny_enc
       (full_demo e0 s0) Map.empty = (e', dir') \<and> sh_mem (e_shards e' ! 0) = [] \<and> memSizeLoad (e_shards e' ! 0) = 0) \<and>
     e_flush_tick (\<lambda>m. 0) 0 (full_demo e0 s0) = None \<and>
     (\<exists>left e1. e_flush_tick (\<lambda>m. 0) 1 (full_demo e0 s0) = Some (left, e1) \<and> rw_leave 1 left = None)"
proof (intro allI)
  fix e0 s0
  let ?e = "full_demo e0 s0"
  have h: "\<not> e_closed ?e" "\<forall>s \<in> set (e_shards ?e). mem_fits (sh_mem s)" "e_levels ?e \<noteq> []" "mf_GetLevels (e_manifest ?e) \<noteq> []"
    by (simp_all add: full_demo_def flush_demo_fits flush_demo_manifest_def mf_GetLevels_def)
  have s: "length (e_shards ?e) = 1" "memSizeLoad (e_shards ?e ! 0) \<noteq> 0" "e_flushCh ?e"
    "\<exists>s \<in> set (e_shards ?e). shard_full (\<lambda>m. 0) s"
    by (simp_all add: full_demo_def memSizeLoad_def shard_full_def MaxMemTableSize_def)
  from flush_worker_signal_and_tick [OF h, where raw_bits = "\<lambda>n. 20" and raw_hashes = "\<lambda>m n. 7"
      and ?r1.0 = 3 and ?r2.0 = 4 and mm = True and est = "\<lambda>m. 0" and g = "\<lambda>m n. 0" and ?r3.0 = 0 and ?r4.0 = 0
      and enc = tiny_enc and dir = Map.empty and mio = None and sizeBytes = "\<lambda>m. 0" and readers = 0]
  show "(\<exists>e' dir'.
     e_flush_signal all_ok None (\<lambda>n. NewBloomFilter (\<lambda>n. 20) (\<lambda>m n. 7) 3 4 (int n)) True (DecodeBloomFilter (\<lambda>m. 0) (\<lambda>m n. 0) 0 0) tiny_enc
       ?e Map.empty = (e', dir') \<and> sh_mem (e_shards e' ! 0) = [] \<and> memSizeLoad (e_shards e' ! 0) = 0) \<and>
     e_flush_tick (\<lambda>m. 0) 0 ?e = None \<and>
     (\<exists>left e1. e_flush_tick (\<lambda>m. 0) 1 ?e = Some (left, e1) \<and> rw_leave 1 left = None)"
    using s unfolding One_nat_def by fastforce
qed

section \<open>The compaction worker\<close>

text \<open>A step of \<open>compactionWorker\<close>: its ticker fires, or it receives the signal.\<close>

inductive compact_step :: "lsm \<Rightarrow> lsm \<Rightarrow> bool" where
  compact_tick: "compact_step e (e_compact_tick e)"
| compact_signal: "e_compactCh e \<Longrightarrow> compact_step e (e_compact_signal e)"

inductive_cases compact_stepE: "compact_step e e'"

abbreviation compact_run :: "lsm \<Rightarrow> lsm \<Rightarrow> bool" where
  "compact_run \<equiv> compact_step\<^sup>*\<^sup>*"

lemma compact_step_same:
  assumes "compact_step e e'"
  shows "\<exists>b. e' = e\<lparr>e_compactCh := b\<rparr>"
  using assms
proof cases
  case compact_tick
  have "e = e\<lparr>e_compactCh := e_compactCh e\<rparr>" by simp
  then show ?thesis using compact_tick by (metis e_compact_tick_def)
next
  case compact_signal
  then show ?thesis by (auto simp: e_compact_signal_def e_maybeCompact_def)
qed

lemma compact_run_same: "compact_run e e' \<Longrightarrow> \<exists>b. e' = e\<lparr>e_compactCh := b\<rparr>"
proof (induction rule: rtranclp_induct)
  case base
  show ?case by (rule exI [of _ "e_compactCh e"]) simp
next
  case (step e1 e2)
  then show ?case using compact_step_same by fastforce
qed

text \<open>
  C33. The compaction worker never compacts: whatever steps it takes, only its own signal changes.
  On an open engine with more than four tables in level 0 every step leaves the signal raised, so
  the worker has a next step for ever and no step of it brings the tables below the limit.
\<close>

theorem compaction_worker_never_compacts:
  assumes "compact_run e e'"
  shows "e_levels e' = e_levels e \<and> e_shards e' = e_shards e \<and> e_manifest e' = e_manifest e \<and> e_closed e' = e_closed e \<and>
    (\<not> e_closed e \<and> MaxLevel0Files < length (e_levels e ! 0) \<longrightarrow>
      (\<forall>e''. compact_step e' e'' \<longrightarrow> e_compactCh e'' \<and> MaxLevel0Files < length (e_levels e'' ! 0) \<and> (\<exists>e3. compact_step e'' e3)))"
proof -
  obtain b where e': "e' = e\<lparr>e_compactCh := b\<rparr>" using compact_run_same [OF assms] by blast
  have "e_compactCh e'' \<and> MaxLevel0Files < length (e_levels e'' ! 0)"
    if "\<not> e_closed e" "MaxLevel0Files < length (e_levels e ! 0)" "compact_step e' e''" for e''
    using that(3) by cases (use that(1,2) in \<open>auto simp: e' e_compact_tick_def e_compact_signal_def e_maybeCompact_def\<close>)
  then show ?thesis using e' compact_tick by auto
qed

theorem compaction_worker_never_compacts_witness:
  "\<forall>e0 r. \<exists>e1. let e = e0\<lparr>e_closed := False, e_levels := [replicate 5 r, []], e_compactCh := True\<rparr> in
     compact_step e e1 \<and> e_compactCh e1 \<and> e_levels e1 = e_levels e"
proof (intro allI)
  fix e0 :: lsm and r
  let ?e = "e0\<lparr>e_closed := False, e_levels := [replicate 5 r, []], e_compactCh := True\<rparr>"
  have "compact_run ?e ?e" by simp
  note never = compaction_worker_never_compacts [OF this]
  have st: "compact_step ?e (e_compact_signal ?e)" by (rule compact_signal) simp
  then have "e_compactCh (e_compact_signal ?e)" using never by (simp add: MaxLevel0Files_def)
  moreover have "e_levels (e_compact_signal ?e) = e_levels ?e"
    using compaction_worker_never_compacts [of ?e "e_compact_signal ?e"] st by blast
  ultimately show "\<exists>e1. let e = ?e in compact_step e e1 \<and> e_compactCh e1 \<and> e_levels e1 = e_levels e" using st by auto
qed

end
