(* ===== verification/Cfdb.thy ===== *)
theory Cfdb
  imports DbScan
begin

text \<open>
  The interface \<open>CFDB\<close> of \<^verbatim>\<open>pkg/scoria/scoriadb.go\<close>, on which the packages for accounts and for the
  network servers are built: its operations as a record, the contract its clients rely on as a
  locale (a map of maps from which reads answer), and the database as an instance of both.
\<close>

section \<open>The interface\<close>

text \<open>
  The transactions are handles of their own type. A scan is the list its iterator gives with the
  error at its end; \<open>None\<close> is a panic of the iterator.
\<close>

record ('d, 'e, 't) cfdb =
  cf_GetCF :: "string \<Rightarrow> bytes \<Rightarrow> 'd \<Rightarrow> 'e + bytes option"
  cf_PutCF :: "string \<Rightarrow> bytes \<Rightarrow> bytes \<Rightarrow> 'd \<Rightarrow> 'e option \<times> 'd"
  cf_DeleteCF :: "string \<Rightarrow> bytes \<Rightarrow> 'd \<Rightarrow> 'e option \<times> 'd"
  cf_ScanCF :: "string \<Rightarrow> bytes \<Rightarrow> 'd \<Rightarrow> ((bytes option \<times> bytes option) list \<times> 'e option) option"
  cf_NewTransaction :: "'d \<Rightarrow> 't \<times> 'd"
  cf_TxCommit :: "'t \<Rightarrow> 'd \<Rightarrow> ('e option \<times> 't) \<times> 'd"
  cf_TxRollback :: "'t \<Rightarrow> 'd \<Rightarrow> ('e option \<times> 't) \<times> 'd"
  cf_CreateCF :: "string \<Rightarrow> 'd \<Rightarrow> 'e option \<times> 'd"
  cf_DropCF :: "string \<Rightarrow> 'd \<Rightarrow> 'e option \<times> 'd"
  cf_ListCFs :: "'d \<Rightarrow> string set"

text \<open>What clients rely on; \<open>rep n M d\<close>: \<open>d\<close> holds the maps \<open>M\<close> and has room for \<open>n\<close> writes.\<close>

locale cf_store =
  fixes db :: "('d, 'e, 't) cfdb" and rep :: "nat \<Rightarrow> (string \<Rightarrow> (bytes \<Rightarrow> bytes option) option) \<Rightarrow> 'd \<Rightarrow> bool"
  assumes get_open: "rep n M d \<Longrightarrow> M cf = Some m \<Longrightarrow> cf_GetCF db cf k d = Inr (m k)"
    and get_missing: "rep n M d \<Longrightarrow> M cf = None \<Longrightarrow> \<exists>err. cf_GetCF db cf k d = Inl err"
    and put_open: "rep (Suc n) M d \<Longrightarrow> M cf = Some m \<Longrightarrow> put_fits k v \<Longrightarrow>
      \<exists>d'. cf_PutCF db cf k v d = (None, d') \<and> rep n (M(cf \<mapsto> m(k \<mapsto> v))) d'"
    and put_missing: "rep n M d \<Longrightarrow> M cf = None \<Longrightarrow> \<exists>err. cf_PutCF db cf k v d = (Some err, d)"
    and delete_open: "rep (Suc n) M d \<Longrightarrow> M cf = Some m \<Longrightarrow> k \<noteq> [] \<Longrightarrow> wal_fits (delete_entry k 0) \<Longrightarrow>
      \<exists>d'. cf_DeleteCF db cf k d = (None, d') \<and> rep n (M(cf \<mapsto> m(k := None))) d'"
    and delete_missing: "rep n M d \<Longrightarrow> M cf = None \<Longrightarrow> \<exists>err. cf_DeleteCF db cf k d = (Some err, d)"
    and rep_fewer: "rep (Suc n) M d \<Longrightarrow> rep n M d"
begin

text \<open>A write to any family, open or not, leaves the other maps alone.\<close>

lemma put_cases:
  assumes "rep (Suc n) M d" "put_fits k v"
  shows "(\<exists>err. cf_PutCF db cf k v d = (Some err, d)) \<and> M cf = None \<or>
    (\<exists>m d'. M cf = Some m \<and> cf_PutCF db cf k v d = (None, d') \<and> rep n (M(cf \<mapsto> m(k \<mapsto> v))) d')"
  using put_missing [OF assms(1)] put_open [OF assms(1) _ assms(2)] by (cases "M cf") blast+

lemma delete_cases:
  assumes "rep (Suc n) M d" "k \<noteq> []" "wal_fits (delete_entry k 0)"
  shows "(\<exists>err. cf_DeleteCF db cf k d = (Some err, d)) \<and> M cf = None \<or>
    (\<exists>m d'. M cf = Some m \<and> cf_DeleteCF db cf k d = (None, d') \<and> rep n (M(cf \<mapsto> m(k := None))) d')"
  using delete_missing [OF assms(1)] delete_open [OF assms(1) _ assms(2,3)] by (cases "M cf") blast+

end

section \<open>The database as an instance\<close>

text \<open>
  \<open>ord\<close> and \<open>ks\<close> are the orders of map iterations in batches and commits, \<open>opener\<close> opens the engine of
  a new family, \<open>close_ok\<close> is the result of closing one.
\<close>

definition scoria_cfdb ::
    "(nat list \<Rightarrow> nat list) \<Rightarrow> (db_transaction \<Rightarrow> bytes list \<times> bytes list) \<Rightarrow> (string \<Rightarrow> lsm_error + lsm) \<Rightarrow> bool \<Rightarrow>
     write_io \<Rightarrow> (registry, cf_error + it_error, db_transaction) cfdb" where
  "scoria_cfdb ord ks opener close_ok io =
     \<lparr>cf_GetCF = \<lambda>cf k r. (case db_GetCF cf k r of Inl err \<Rightarrow> Inl (Inl err) | Inr v \<Rightarrow> Inr v),
      cf_PutCF = \<lambda>cf k v r. let (err, r) = db_PutCF io cf k v r in (map_option Inl err, r),
      cf_DeleteCF = \<lambda>cf k r. let (err, r) = db_DeleteCF io cf k r in (map_option Inl err, r),
      cf_ScanCF = \<lambda>cf p r. (case db_scan_list cf p r of Inl err \<Rightarrow> None | Inr res \<Rightarrow> Some res),
      cf_NewTransaction = db_NewTransaction (lsm_ops ord),
      cf_TxCommit = \<lambda>t r. let ((err, t'), r) = dbt_Commit (lsm_ops ord) (fst (ks t)) (snd (ks t)) t r in ((map_option Inl err, t'), r),
      cf_TxRollback = \<lambda>t r. let ((err, t'), r) = dbt_Rollback (lsm_ops ord) t r in ((map_option Inl err, t'), r),
      cf_CreateCF = \<lambda>name r. let (err, r) = db_CreateCF opener name r in (map_option Inl err, r),
      cf_DropCF = \<lambda>name r. let (err, r) = db_DropCF close_ok name r in (map_option Inl err, r),
      cf_ListCFs = db_ListCFs\<rparr>"

text \<open>How much a write can add to the buffer of large values.\<close>

definition um_load :: "unified_mmap \<Rightarrow> nat" where
  "um_load um = max (um_head um) (length (um_data um))"

lemma um_load_write:
  assumes "length k < 2 ^ 16" "length v < 2 ^ 31"
  shows "um_load (snd (um_WriteEntry ok opc k v t um)) \<le> um_load um + 2 ^ 33"
proof -
  let ?t = "1 + 1 + 8 + 2 + 4 + length k + length v + 4 :: nat"
  have t: "?t < 2 ^ 32" using assms by simp
  let ?n = "um_head um + ?t"
  let ?new = "if ?n mod UnifiedMmapExtendSize \<noteq> 0 then ?n + (UnifiedMmapExtendSize - ?n mod UnifiedMmapExtendSize) else ?n"
  have new: "?new \<le> um_head um + 2 ^ 33" using t by (auto simp: UnifiedMmapExtendSize_def)
  have "um_load (snd (um_WriteEntry ok opc k v t um)) \<le> max ?n (max ?new (length (um_data um)))"
    by (auto simp: um_WriteEntry_def um_load_def extendMmap_def Let_def)
  also have "\<dots> \<le> um_load um + 2 ^ 33"
  proof -
    have "um_head um \<le> um_load um" "length (um_data um) \<le> um_load um" by (simp_all add: um_load_def)
    moreover have "?n \<le> um_head um + 2 ^ 33" using t by simp
    ultimately show ?thesis using new by (intro max.boundedI) linarith+
  qed
  finally show ?thesis .
qed

lemma um_load_put:
  assumes "put_fits k v"
  shows "um_load (e_unified (snd (e_PutWithTS ok io s k v t e))) \<le> um_load (e_unified e) + 2 ^ 33"
proof (cases "length v > MaxInlineSize")
  case False
  then show ?thesis by (simp add: put_small_unified)
next
  case True
  have "e_unified (snd (e_PutWithTS ok io s k v t e)) =
    (if e_closed e then e_unified e else snd (um_WriteEntry ok OpPut k v t (e_unified e)))"
    using True by (simp add: e_PutWithTS_def Let_def upd_shard_def e_updateCache_def split_beta split: sum.split option.split)
  then show ?thesis
    using um_load_write [of k v ok OpPut t "e_unified e"] assms by (simp add: put_fits_def)
qed

definition scoria_rep :: "nat \<Rightarrow> (string \<Rightarrow> (bytes \<Rightarrow> bytes option) option) \<Rightarrow> registry \<Rightarrow> bool" where
  "scoria_rep n M r \<longleftrightarrow>
     (\<exists>H m. db_holds H m n r \<and> M = (\<lambda>cf. if cf \<in> db_ListCFs r then Some (m cf) else None)) \<and>
     (\<forall>cf e. cf_lookup cf r = Some e \<longrightarrow> um_load (e_unified e) + n * 2 ^ 33 < 2 ^ 63)"

lemma scoria_repE:
  assumes "scoria_rep n M r"
  obtains H m where "db_holds H m n r" "M = (\<lambda>cf. if cf \<in> db_ListCFs r then Some (m cf) else None)"
    "\<And>cf e. cf_lookup cf r = Some e \<Longrightarrow> um_load (e_unified e) + n * 2 ^ 33 < 2 ^ 63"
  using assms unfolding scoria_rep_def by (elim exE conjE) (rule that, simp_all)

text \<open>One write through the interface.\<close>

lemma scoria_step:
  assumes rep: "scoria_rep (Suc n) M r" and op: "op_ok op" "M (op_cf op) = Some m0"
    and grow: "\<And>e. cf_lookup (op_cf op) r = Some e \<Longrightarrow> \<exists>e'. snd (db_do ord op r) = reg_set (op_cf op) e' r \<and>
      um_load (e_unified e') \<le> um_load (e_unified e) + 2 ^ 33"
  shows "\<exists>r'. db_do ord op r = (None, r') \<and> scoria_rep n (M(op_cf op \<mapsto> spec_do op m0)) r'"
proof -
  obtain H m where H: "db_holds H m (Suc n) r" and M: "M = (\<lambda>cf. if cf \<in> db_ListCFs r then Some (m cf) else None)"
    and um: "\<And>cf e. cf_lookup cf r = Some e \<Longrightarrow> um_load (e_unified e) + Suc n * 2 ^ 33 < 2 ^ 63"
    by (rule scoria_repE [OF rep]) (rule that)
  have cf: "op_cf op \<in> db_ListCFs r" and m0: "m0 = m (op_cf op)" using op(2) by (auto simp: M split: if_splits)
  from do_step [OF H op(1) cf, of ord] obtain r' H' where
    r': "db_do ord op r = (None, r')" "db_ListCFs r' = db_ListCFs r" "db_holds H' (m(op_cf op := spec_do op (m (op_cf op)))) n r'"
    by (elim exE conjE) (rule that)
  obtain e where e: "cf_lookup (op_cf op) r = Some e" using cf by (auto simp: lookup_listed)
  obtain e' where e': "r' = reg_set (op_cf op) e' r" "um_load (e_unified e') \<le> um_load (e_unified e) + 2 ^ 33"
    using grow [OF e] r'(1) by auto
  have lk: "cf_lookup c r' = (if c = op_cf op then Some e' else cf_lookup c r)" for c
    using cf_lookup_open [OF e] e unfolding e'(1) by (cases "c = op_cf op") simp_all
  have "um_load (e_unified x) + n * 2 ^ 33 < 2 ^ 63" if "cf_lookup c r' = Some x" for c x
    using that um [of c x] um [OF e] e'(2) unfolding lk by (simp split: if_splits)
  moreover have "M(op_cf op \<mapsto> spec_do op m0) =
      (\<lambda>cf. if cf \<in> db_ListCFs r' then Some ((m(op_cf op := spec_do op (m (op_cf op)))) cf) else None)"
    using cf by (auto simp: M m0 r'(2))
  ultimately show ?thesis using r'(1,3) unfolding scoria_rep_def by blast
qed

lemma scoria_get:
  assumes "scoria_rep n M r"
  shows "db_GetCF cf k r = (case M cf of None \<Rightarrow> Inl CfNotFound | Some m \<Rightarrow> Inr (m k))"
proof -
  obtain H m where H: "db_holds H m n r" and M: "M = (\<lambda>cf. if cf \<in> db_ListCFs r then Some (m cf) else None)"
    and um: "\<And>cf e. cf_lookup cf r = Some e \<Longrightarrow> um_load (e_unified e) + n * 2 ^ 33 < 2 ^ 63"
    by (rule scoria_repE [OF assms]) (rule that)
  show ?thesis
  proof (cases "cf_lookup cf r")
    case None
    then have "cf \<notin> db_ListCFs r" by (simp add: lookup_listed)
    then show ?thesis using None by (simp add: M db_GetCF_def reg_GetCF_def)
  next
    case (Some e)
    then have "holds (H cf) (m cf) n e" using H by (simp add: db_holds_def)
    moreover have "length (um_data (e_unified e)) < 2 ^ 63" using um [OF Some] by (simp add: um_load_def)
    ultimately have "e_GetWithTS k (e_LastTS e) e = Inr (m cf k)" by (rule holds_read)
    moreover have "cf \<in> db_ListCFs r" using Some by (auto simp: lookup_listed)
    ultimately show ?thesis using Some by (simp add: M db_GetCF_def reg_GetCF_def)
  qed
qed

lemma scoria_closed_cf:
  assumes "scoria_rep n M r" "M cf = None"
  shows "db_PutCF io cf k v r = (Some CfNotFound, r)" "db_DeleteCF io cf k r = (Some CfNotFound, r)"
proof -
  have "cf_lookup cf r = None"
  proof -
    have "cf \<notin> db_ListCFs r" using assms by (rule_tac scoria_repE [OF assms(1)]) (auto split: if_splits)
    then show ?thesis unfolding lookup_listed by simp
  qed
  then show "db_PutCF io cf k v r = (Some CfNotFound, r)" "db_DeleteCF io cf k r = (Some CfNotFound, r)"
    by (simp_all add: db_PutCF_def db_DeleteCF_def reg_GetCF_def)
qed

interpretation scoria: cf_store "scoria_cfdb ord ks opener close_ok no_faults" scoria_rep
proof
  fix n M r cf m k v
  show "scoria_rep n M r \<Longrightarrow> M cf = Some m \<Longrightarrow> cf_GetCF (scoria_cfdb ord ks opener close_ok no_faults) cf k r = Inr (m k)"
    by (simp add: scoria_cfdb_def scoria_get)
  show "scoria_rep n M r \<Longrightarrow> M cf = None \<Longrightarrow> \<exists>err. cf_GetCF (scoria_cfdb ord ks opener close_ok no_faults) cf k r = Inl err"
    by (simp add: scoria_cfdb_def scoria_get)
  show "scoria_rep n M r \<Longrightarrow> M cf = None \<Longrightarrow> \<exists>err. cf_PutCF (scoria_cfdb ord ks opener close_ok no_faults) cf k v r = (Some err, r)"
    by (simp add: scoria_cfdb_def scoria_closed_cf)
  show "scoria_rep n M r \<Longrightarrow> M cf = None \<Longrightarrow> \<exists>err. cf_DeleteCF (scoria_cfdb ord ks opener close_ok no_faults) cf k r = (Some err, r)"
    by (simp add: scoria_cfdb_def scoria_closed_cf)
  show "scoria_rep n M r" if rep: "scoria_rep (Suc n) M r"
  proof -
    obtain H m' where H: "db_holds H m' (Suc n) r" and M: "M = (\<lambda>cf. if cf \<in> db_ListCFs r then Some (m' cf) else None)"
      and um: "\<And>cf e. cf_lookup cf r = Some e \<Longrightarrow> um_load (e_unified e) + Suc n * 2 ^ 33 < 2 ^ 63"
      by (rule scoria_repE [OF rep]) (rule that)
    have "db_holds H m' n r" using H holds_fewer [of _ _ "Suc n" _ n] by (auto simp: db_holds_def)
    moreover have "um_load (e_unified e) + n * 2 ^ 33 < 2 ^ 63" if "cf_lookup cf r = Some e" for cf e using um [OF that] by simp
    ultimately show ?thesis using M unfolding scoria_rep_def by blast
  qed
  show "\<exists>r'. cf_PutCF (scoria_cfdb ord ks opener close_ok no_faults) cf k v r = (None, r') \<and> scoria_rep n (M(cf \<mapsto> m(k \<mapsto> v))) r'"
    if "scoria_rep (Suc n) M r" "M cf = Some m" "put_fits k v"
  proof -
    have "\<exists>e'. snd (db_PutCF no_faults cf k v r) = reg_set cf e' r \<and> um_load (e_unified e') \<le> um_load (e_unified e) + 2 ^ 33"
      if "cf_lookup cf r = Some e" for e
      using that um_load_put [OF \<open>put_fits k v\<close>, of True None True "e_LastTS e + 1" "e\<lparr>e_LastTS := e_LastTS e + 1\<rparr>"]
      by (auto simp: db_PutCF_def reg_GetCF_def e_NextTimestamp_def no_faults_def Let_def split_beta)
    from scoria_step [where op = "DPut cf k v" and ord = ord, unfolded db_do.simps op_cf.simps op_ok.simps spec_do.simps, OF that(1,3,2) this]
    show ?thesis by (auto simp: scoria_cfdb_def)
  qed
  show "\<exists>r'. cf_DeleteCF (scoria_cfdb ord ks opener close_ok no_faults) cf k r = (None, r') \<and> scoria_rep n (M(cf \<mapsto> m(k := None))) r'"
    if "scoria_rep (Suc n) M r" "M cf = Some m" "k \<noteq> []" "wal_fits (delete_entry k 0)"
  proof -
    have "\<exists>e'. snd (db_DeleteCF no_faults cf k r) = reg_set cf e' r \<and> um_load (e_unified e') \<le> um_load (e_unified e) + 2 ^ 33"
      if "cf_lookup cf r = Some e" for e
      using that delete_unified [of None True k "e_LastTS e + 1" "e\<lparr>e_LastTS := e_LastTS e + 1\<rparr>"]
      by (auto simp: db_DeleteCF_def reg_GetCF_def e_NextTimestamp_def no_faults_def Let_def split_beta)
    from scoria_step [where op = "DDelete cf k" and ord = ord, unfolded db_do.simps op_cf.simps op_ok.simps spec_do.simps,
        OF that(1) conjI [OF that(3,4)] that(2) this]
    show ?thesis by (auto simp: scoria_cfdb_def)
  qed
qed

text \<open>A new database satisfies the contract.\<close>

lemma new_scoria_rep:
  assumes "opens_empty opener" "NewScoriaDBWithOptions True opener (Some dirs) = Inr r" "n < 2 ^ 29"
  shows "scoria_rep n (\<lambda>cf. if cf \<in> db_ListCFs r then Some Map.empty else None) r"
proof -
  have "1 + n < 2 ^ 64" using assms(3) by simp
  note H = new_db_holds [OF assms(1,2) this]
  have "um_load (e_unified e) + n * 2 ^ 33 < 2 ^ 63" if "cf_lookup cf r = Some e" for cf e
  proof -
    have "e_unified e = OpenUnifiedMmap []" using new_db_unified [OF assms(1,2)] that by (simp add: um_all_def)
    then show ?thesis using assms(3) by (simp add: um_load_def OpenUnifiedMmap_def UnifiedMmapSize_def)
  qed
  with H show ?thesis unfolding scoria_rep_def by blast
qed

end
