(* ===== verification/Json.thy ===== *)
theory Json
  imports Prelude
begin

text \<open>
  What the program uses of Go's \<^verbatim>\<open>encoding/json\<close>: the compact text of a value as \<^verbatim>\<open>Marshal\<close> writes it
  and the parser behind \<^verbatim>\<open>Unmarshal\<close>. A Go string is the list of its bytes; strings are taken to be
  valid UTF-8, so bytes above 127 pass unchanged (the two line separators that Go escapes are left
  out, and so is its limit of 10000 nested brackets). Numbers that are no integers keep their text.
\<close>

section \<open>Bytes and strings\<close>

definition str_bytes :: "string \<Rightarrow> bytes" where
  "str_bytes s = map (\<lambda>c. word_of_nat (of_char c)) s"

definition bytes_str :: "bytes \<Rightarrow> string" where
  "bytes_str b = map (\<lambda>w. char_of (unat w)) b"

lemma bytes_str_bytes [simp]: "bytes_str (str_bytes s) = s"
  by (induction s) (simp_all add: str_bytes_def bytes_str_def unat_of_nat)

lemma length_str_bytes [simp]: "length (str_bytes s) = length s"
  by (simp add: str_bytes_def)

lemma str_bytes_eq_iff [simp]: "str_bytes s = str_bytes t \<longleftrightarrow> s = t"
  by (metis bytes_str_bytes)

lemma str_bytes_append: "str_bytes (s @ t) = str_bytes s @ str_bytes t"
  by (simp add: str_bytes_def)

section \<open>Values and their text\<close>

datatype json =
  JNull | JBool bool | JNum int | JFrac string | JStr string | JArr "json list" | JObj "(string \<times> json) list"

definition hex_digit :: "nat \<Rightarrow> char" where
  "hex_digit n = ''0123456789abcdef'' ! n"

definition esc :: "char \<Rightarrow> string" where
  "esc c =
     (let n = (of_char c :: nat) in
      if n = 34 then [CHR 0x5C, CHR 0x22]
      else if n = 92 then [CHR 0x5C, CHR 0x5C]
      else if n = 8 then [CHR 0x5C, CHR ''b'']
      else if n = 12 then [CHR 0x5C, CHR ''f'']
      else if n = 10 then [CHR 0x5C, CHR ''n'']
      else if n = 13 then [CHR 0x5C, CHR ''r'']
      else if n = 9 then [CHR 0x5C, CHR ''t'']
      else if n < 32 \<or> n = 60 \<or> n = 62 \<or> n = 38
      then [CHR 0x5C, CHR ''u'', CHR ''0'', CHR ''0'', hex_digit (n div 16), hex_digit (n mod 16)]
      else [c])"

definition quoted :: "string \<Rightarrow> string" where
  "quoted s = CHR 0x22 # concat (map esc s) @ [CHR 0x22]"

fun digits :: "nat \<Rightarrow> string" where
  "digits n = (if n < 10 then [char_of (48 + n)] else digits (n div 10) @ [char_of (48 + n mod 10)])"

declare digits.simps [simp del]

definition show_int :: "int \<Rightarrow> string" where
  "show_int i = (if i < 0 then CHR ''-'' # digits (nat (- i)) else digits (nat i))"

fun to_json :: "json \<Rightarrow> string" and arr_json :: "json list \<Rightarrow> string" and obj_json :: "(string \<times> json) list \<Rightarrow> string" where
  "to_json JNull = ''null''"
| "to_json (JBool b) = (if b then ''true'' else ''false'')"
| "to_json (JNum i) = show_int i"
| "to_json (JFrac s) = s"
| "to_json (JStr s) = quoted s"
| "to_json (JArr xs) = CHR ''['' # (if xs = [] then '']'' else arr_json xs)"
| "to_json (JObj fs) = CHR ''{'' # (if fs = [] then ''}'' else obj_json fs)"
| "arr_json [] = []"
| "arr_json (x # xs) = to_json x @ (if xs = [] then '']'' else CHR '','' # arr_json xs)"
| "obj_json [] = []"
| "obj_json ((k, x) # fs) = quoted k @ CHR '':'' # to_json x @ (if fs = [] then ''}'' else CHR '','' # obj_json fs)"

section \<open>The parser\<close>

definition is_ws :: "char \<Rightarrow> bool" where
  "is_ws c \<longleftrightarrow> of_char c \<in> {9, 10, 13, 32 :: nat}"

definition skip_ws :: "string \<Rightarrow> string" where
  "skip_ws s = dropWhile is_ws s"

definition hex_val :: "char \<Rightarrow> nat option" where
  "hex_val c =
     (let n = (of_char c :: nat) in
      if 48 \<le> n \<and> n \<le> 57 then Some (n - 48)
      else if 97 \<le> n \<and> n \<le> 102 then Some (n - 87)
      else if 65 \<le> n \<and> n \<le> 70 then Some (n - 55)
      else None)"

fun hex4 :: "string \<Rightarrow> nat option" where
  "hex4 (a # b # c # d # r) =
     (case (hex_val a, hex_val b, hex_val c, hex_val d) of
        (Some w, Some x, Some y, Some z) \<Rightarrow> Some (4096 * w + 256 * x + 16 * y + z)
      | _ \<Rightarrow> None)"
| "hex4 _ = None"

definition utf8 :: "nat \<Rightarrow> string" where
  "utf8 n =
     (if n < 128 then [char_of n]
      else if n < 2048 then [char_of (192 + n div 64), char_of (128 + n mod 64)]
      else if n < 65536 then [char_of (224 + n div 4096), char_of (128 + n div 64 mod 64), char_of (128 + n mod 64)]
      else [char_of (240 + n div 262144), char_of (128 + n div 4096 mod 64), char_of (128 + n div 64 mod 64), char_of (128 + n mod 64)])"

definition unescape :: "char \<Rightarrow> char option" where
  "unescape c =
     (if c = CHR 0x22 \<or> c = CHR 0x5C \<or> c = CHR ''/'' then Some c
      else if c = CHR ''b'' then Some (char_of (8 :: nat))
      else if c = CHR ''f'' then Some (char_of (12 :: nat))
      else if c = CHR ''n'' then Some (char_of (10 :: nat))
      else if c = CHR ''r'' then Some (char_of (13 :: nat))
      else if c = CHR ''t'' then Some (char_of (9 :: nat))
      else None)"

text \<open>
  The code point behind \<^verbatim>\<open>\u\<close> and what is left: a surrogate joins with a following one, a single one
  is replaced by U+FFFD.
\<close>

definition code_point :: "string \<Rightarrow> (nat \<times> string) option" where
  "code_point s =
     (case hex4 s of
        None \<Rightarrow> None
      | Some n \<Rightarrow>
          let r = drop 4 s in
          if n < 55296 \<or> 57344 \<le> n then Some (n, r)
          else if n < 56320 \<and> take 2 r = [CHR 0x5C, CHR ''u''] then
            (case hex4 (drop 2 r) of
               Some m \<Rightarrow>
                 if 56320 \<le> m \<and> m < 57344 then Some (65536 + 1024 * (n - 55296) + (m - 56320), drop 6 r)
                 else Some (65533, r)
             | None \<Rightarrow> Some (65533, r))
          else Some (65533, r))"

lemma code_point_shorter: "code_point s = Some (n, r) \<Longrightarrow> length r \<le> length s"
  by (auto simp: code_point_def Let_def split: option.splits if_splits)

function parse_str :: "string \<Rightarrow> (string \<times> string) option" where
  "parse_str [] = None"
| "parse_str (c # r) =
     (if c = CHR 0x22 then Some ([], r)
      else if c = CHR 0x5C then
        (case r of
           [] \<Rightarrow> None
         | d # r' \<Rightarrow>
             if d = CHR ''u'' then
               (case code_point r' of
                  None \<Rightarrow> None
                | Some (n, r'') \<Rightarrow> (case parse_str r'' of None \<Rightarrow> None | Some (s, t) \<Rightarrow> Some (utf8 n @ s, t)))
             else
               (case unescape d of
                  None \<Rightarrow> None
                | Some x \<Rightarrow> (case parse_str r' of None \<Rightarrow> None | Some (s, t) \<Rightarrow> Some (x # s, t))))
      else if of_char c < (32 :: nat) then None
      else (case parse_str r of None \<Rightarrow> None | Some (s, t) \<Rightarrow> Some (c # s, t)))"
  by pat_completeness auto
termination
  by (relation "measure length") (auto dest: code_point_shorter)

definition is_digit :: "char \<Rightarrow> bool" where
  "is_digit c \<longleftrightarrow> 48 \<le> (of_char c :: nat) \<and> (of_char c :: nat) \<le> 57"

definition number :: "string \<Rightarrow> nat" where
  "number ds = fold (\<lambda>c n. 10 * n + (of_char c - 48)) ds 0"

text \<open>The fraction and the exponent of a number, as text; \<open>None\<close> is a syntax error.\<close>

definition parse_frac :: "string \<Rightarrow> (string \<times> string) option" where
  "parse_frac s =
     (if s \<noteq> [] \<and> hd s = CHR ''.'' then
        (let ds = takeWhile is_digit (tl s)
         in if ds = [] then None else Some (CHR ''.'' # ds, dropWhile is_digit (tl s)))
      else Some ([], s))"

definition parse_exp :: "string \<Rightarrow> (string \<times> string) option" where
  "parse_exp s =
     (if s \<noteq> [] \<and> (hd s = CHR ''e'' \<or> hd s = CHR ''E'') then
        (let t = tl s;
             sgn = (if t \<noteq> [] \<and> (hd t = CHR ''+'' \<or> hd t = CHR ''-'') then [hd t] else []);
             t = drop (length sgn) t;
             ds = takeWhile is_digit t
         in if ds = [] then None else Some (hd s # sgn @ ds, dropWhile is_digit t))
      else Some ([], s))"

definition parse_num :: "string \<Rightarrow> (json \<times> string) option" where
  "parse_num s =
     (let neg = (s \<noteq> [] \<and> hd s = CHR ''-'');
          s1 = (if neg then tl s else s);
          ds = takeWhile is_digit s1;
          s2 = dropWhile is_digit s1 in
      if ds = [] \<or> (hd ds = CHR ''0'' \<and> tl ds \<noteq> []) then None
      else
        case parse_frac s2 of
          None \<Rightarrow> None
        | Some (frac, s3) \<Rightarrow>
            (case parse_exp s3 of
               None \<Rightarrow> None
             | Some (ex, s4) \<Rightarrow>
                 if frac = [] \<and> ex = [] then Some (JNum (if neg then - int (number ds) else int (number ds)), s4)
                 else Some (JFrac ((if neg then [CHR ''-''] else []) @ ds @ frac @ ex), s4)))"

definition parse_word :: "string \<Rightarrow> json \<Rightarrow> string \<Rightarrow> (json \<times> string) option" where
  "parse_word w v s = (if take (length w) s = w then Some (v, drop (length w) s) else None)"

text \<open>\<open>n\<close> is fuel: every call consumes text or is followed by one that does.\<close>

fun parse_val :: "nat \<Rightarrow> string \<Rightarrow> (json \<times> string) option"
  and parse_arr :: "nat \<Rightarrow> string \<Rightarrow> (json list \<times> string) option"
  and parse_obj :: "nat \<Rightarrow> string \<Rightarrow> ((string \<times> json) list \<times> string) option" where
  "parse_val 0 s = None"
| "parse_val (Suc n) s =
     (let s = skip_ws s in
      if s = [] then None
      else
        let c = hd s; r = tl s in
        if c = CHR 0x22 then (case parse_str r of None \<Rightarrow> None | Some (x, t) \<Rightarrow> Some (JStr x, t))
        else if c = CHR ''['' then
          (let t = skip_ws r in
           if t \<noteq> [] \<and> hd t = CHR '']'' then Some (JArr [], tl t)
           else (case parse_arr n r of None \<Rightarrow> None | Some (xs, t) \<Rightarrow> Some (JArr xs, t)))
        else if c = CHR ''{'' then
          (let t = skip_ws r in
           if t \<noteq> [] \<and> hd t = CHR ''}'' then Some (JObj [], tl t)
           else (case parse_obj n r of None \<Rightarrow> None | Some (fs, t) \<Rightarrow> Some (JObj fs, t)))
        else if c = CHR ''n'' then parse_word ''null'' JNull s
        else if c = CHR ''t'' then parse_word ''true'' (JBool True) s
        else if c = CHR ''f'' then parse_word ''false'' (JBool False) s
        else parse_num s)"
| "parse_arr 0 s = None"
| "parse_arr (Suc n) s =
     (case parse_val n s of
        None \<Rightarrow> None
      | Some (x, r) \<Rightarrow>
          let r = skip_ws r in
          if r = [] then None
          else if hd r = CHR '']'' then Some ([x], tl r)
          else if hd r = CHR '','' then (case parse_arr n (tl r) of None \<Rightarrow> None | Some (xs, t) \<Rightarrow> Some (x # xs, t))
          else None)"
| "parse_obj 0 s = None"
| "parse_obj (Suc n) s =
     (let s = skip_ws s in
      if s = [] \<or> hd s \<noteq> CHR 0x22 then None
      else
        case parse_str (tl s) of
          None \<Rightarrow> None
        | Some (k, r) \<Rightarrow>
            let r = skip_ws r in
            if r = [] \<or> hd r \<noteq> CHR '':'' then None
            else
              case parse_val n (tl r) of
                None \<Rightarrow> None
              | Some (x, r) \<Rightarrow>
                  let r = skip_ws r in
                  if r = [] then None
                  else if hd r = CHR ''}'' then Some ([(k, x)], tl r)
                  else if hd r = CHR '','' then
                    (case parse_obj n (tl r) of None \<Rightarrow> None | Some (fs, t) \<Rightarrow> Some ((k, x) # fs, t))
                  else None)"

text \<open>\<^verbatim>\<open>Unmarshal\<close> wants one value and nothing but white space behind it; a \<^verbatim>\<open>Decoder\<close> takes the first value.\<close>

definition json_Marshal :: "json \<Rightarrow> bytes" where
  "json_Marshal v = str_bytes (to_json v)"

definition json_Decode :: "bytes \<Rightarrow> json option" where
  "json_Decode b = map_option fst (parse_val (2 * length b + 2) (bytes_str b))"

definition json_Unmarshal :: "bytes \<Rightarrow> json option" where
  "json_Unmarshal b =
     (case parse_val (2 * length b + 2) (bytes_str b) of
        None \<Rightarrow> None
      | Some (v, r) \<Rightarrow> if skip_ws r = [] then Some v else None)"

section \<open>The parser reads what was written\<close>

lemma char_eq_of: "of_char c = (n :: nat) \<Longrightarrow> c = char_of n"
  by (metis char_of_char)

lemma quote_chars: "char_of (34 :: nat) = CHR 0x22" "char_of (92 :: nat) = CHR 0x5C"
  by code_simp+

lemma hex_val_digit: "n < 16 \<Longrightarrow> hex_val (hex_digit n) = Some n"
proof -
  have "\<forall>n \<in> set [0..<16]. hex_val (hex_digit n) = Some n" by code_simp
  then show "n < 16 \<Longrightarrow> hex_val (hex_digit n) = Some n" by simp
qed

lemma parse_esc: "parse_str (esc c @ r) = (case parse_str r of None \<Rightarrow> None | Some (s, t) \<Rightarrow> Some (c # s, t))"
proof -
  let ?n = "of_char c :: nat"
  have c: "c = char_of ?n" by simp
  consider "?n \<in> {34, 92, 8, 12, 10, 13, 9}" | "?n \<notin> {34, 92, 8, 12, 10, 13, 9}" "?n < 32 \<or> ?n \<in> {60, 62, 38}"
    | "?n \<noteq> 34" "?n \<noteq> 92" "32 \<le> ?n" "?n \<notin> {60, 62, 38}" by fastforce
  then show ?thesis
  proof cases
    case 1
    then show ?thesis
      by (auto dest!: char_eq_of simp: esc_def unescape_def quote_chars split: option.split)
  next
    case 2
    have n: "?n < 64" using 2(2) by auto
    have e: "esc c = [CHR 0x5C, CHR ''u'', CHR ''0'', CHR ''0'', hex_digit (?n div 16), hex_digit (?n mod 16)]"
      using 2 by (auto simp: esc_def Let_def)
    have "hex_val (hex_digit (?n div 16)) = Some (?n div 16)" "hex_val (hex_digit (?n mod 16)) = Some (?n mod 16)"
      using n by (auto intro: hex_val_digit)
    moreover have "hex_val (CHR ''0'') = Some 0" by (simp add: hex_val_def)
    ultimately have "code_point ([CHR ''0'', CHR ''0'', hex_digit (?n div 16), hex_digit (?n mod 16)] @ r) = Some (?n, r)"
      using n by (simp add: code_point_def Let_def)
    moreover have "utf8 ?n = [c]" using n by (simp add: utf8_def)
    ultimately show ?thesis unfolding e by (simp add: unescape_def split: option.split)
  next
    case 3
    then have "c \<noteq> CHR 0x22" "c \<noteq> CHR 0x5C" by auto
    moreover have "esc c = [c]" using 3 by (auto simp: esc_def Let_def)
    ultimately show ?thesis using 3 by (simp split: option.split)
  qed
qed

lemma parse_quoted: "parse_str (concat (map esc s) @ CHR 0x22 # r) = Some (s, r)"
proof (induction s)
  case (Cons c s)
  then show ?case using parse_esc [of c "concat (map esc s) @ CHR 0x22 # r"] by simp
qed simp

lemma digit_char: "n < 10 \<Longrightarrow> of_char (char_of (48 + n) :: char) = (48 + n :: nat)"
  by simp

lemma digits_facts: "number (digits n) = n \<and> (\<forall>c \<in> set (digits n). is_digit c) \<and> digits n \<noteq> [] \<and>
    (hd (digits n) = CHR ''0'' \<longrightarrow> n = 0)"
proof (induction n rule: digits.induct)
  case (1 n)
  show ?case
  proof (cases "n < 10")
    case True
    have "digits n = [char_of (48 + n)]" using True by (simp add: digits.simps [of n])
    moreover have "char_of (48 + n) = CHR ''0'' \<Longrightarrow> n = 0"
    proof -
      assume "char_of (48 + n) = CHR ''0''"
      then have "of_char (char_of (48 + n) :: char) = (48 :: nat)" by simp
      then show "n = 0" using True by simp
    qed
    ultimately show ?thesis using True by (simp add: number_def is_digit_def)
  next
    case False
    have d: "digits n = digits (n div 10) @ [char_of (48 + n mod 10)]" using False by (simp add: digits.simps [of n])
    have "(48 + n mod 10) mod 256 = 48 + n mod 10" by (simp add: mod_less)
    then have x: "of_char (char_of (48 + n mod 10) :: char) = (48 + n mod 10 :: nat)" by simp
    have "number (digits n) = 10 * number (digits (n div 10)) + n mod 10" unfolding d by (simp add: number_def x)
    moreover have "is_digit (char_of (48 + n mod 10))" by (simp add: is_digit_def x)
    moreover have "hd (digits n) = CHR ''0'' \<longrightarrow> n = 0" using 1 [OF False] False by (auto simp: d hd_append)
    ultimately show ?thesis using 1 [OF False] by (simp add: d)
  qed
qed

definition delim :: "string \<Rightarrow> bool" where
  "delim r \<longleftrightarrow> r = [] \<or> hd r \<in> {CHR '','', CHR '']'', CHR ''}''}"

lemma delim_facts: "delim r \<Longrightarrow> (r = [] \<or> \<not> is_digit (hd r)) \<and> parse_frac r = Some ([], r) \<and> parse_exp r = Some ([], r)"
  by (auto simp: delim_def is_digit_def parse_frac_def parse_exp_def)

lemma take_digits:
  assumes "\<forall>c \<in> set ds. is_digit c" "r = [] \<or> \<not> is_digit (hd r)"
  shows "takeWhile is_digit (ds @ r) = ds" "dropWhile is_digit (ds @ r) = r"
proof -
  have "takeWhile is_digit r = []" "dropWhile is_digit r = r" using assms(2) by (cases r; simp)+
  then show "takeWhile is_digit (ds @ r) = ds" "dropWhile is_digit (ds @ r) = r"
    using assms(1) by (simp_all add: takeWhile_append2 dropWhile_append2)
qed

lemma parse_digits:
  assumes "delim r"
  shows "parse_num (digits n @ r) = Some (JNum (int n), r)" "parse_num (CHR ''-'' # digits n @ r) = Some (JNum (- int n), r)"
proof -
  note d = digits_facts [of n] and r = delim_facts [OF assms]
  have t: "takeWhile is_digit (digits n @ r) = digits n" "dropWhile is_digit (digits n @ r) = r"
    using take_digits d r by blast+
  have z: "\<not> (hd (digits n) = CHR ''0'' \<and> tl (digits n) \<noteq> [])"
  proof
    assume h: "hd (digits n) = CHR ''0'' \<and> tl (digits n) \<noteq> []"
    then have "n = 0" using d by blast
    then show False using h by (simp add: digits.simps [of 0])
  qed
  have "is_digit (hd (digits n))" using d by (meson list.set_sel(1))
  then have "hd (digits n) \<noteq> CHR ''-''" by (auto simp: is_digit_def)
  then have nm: "\<not> (digits n @ r \<noteq> [] \<and> hd (digits n @ r) = CHR ''-'')" using d by (simp add: hd_append)
  show "parse_num (digits n @ r) = Some (JNum (int n), r)"
    using d r t z nm by (simp add: parse_num_def Let_def)
  show "parse_num (CHR ''-'' # digits n @ r) = Some (JNum (- int n), r)"
    using d r t z by (simp add: parse_num_def Let_def)
qed

lemma parse_show_int: "delim r \<Longrightarrow> parse_num (show_int i @ r) = Some (JNum i, r)"
  using parse_digits [of r "nat i"] parse_digits [of r "nat (- i)"] by (simp add: show_int_def)

text \<open>The first character of a text decides what the parser does.\<close>

fun first_of :: "json \<Rightarrow> char \<Rightarrow> bool" where
  "first_of JNull c = (c = CHR ''n'')"
| "first_of (JBool b) c = (c = (if b then CHR ''t'' else CHR ''f''))"
| "first_of (JNum i) c = (is_digit c \<or> c = CHR ''-'')"
| "first_of (JFrac s) c = True"
| "first_of (JStr s) c = (c = CHR 0x22)"
| "first_of (JArr xs) c = (c = CHR ''['')"
| "first_of (JObj fs) c = (c = CHR ''{'')"

fun whole :: "json \<Rightarrow> bool" where
  "whole (JFrac s) = False"
| "whole (JArr xs) = (\<forall>x \<in> set xs. whole x)"
| "whole (JObj fs) = (\<forall>f \<in> set fs. whole (snd f))"
| "whole v = True"

lemma show_int_first: "show_int i \<noteq> [] \<and> (is_digit (hd (show_int i)) \<or> hd (show_int i) = CHR ''-'')"
  using digits_facts [of "nat i"] by (auto simp: show_int_def)

lemma to_json_first: "whole v \<Longrightarrow> to_json v \<noteq> [] \<and> first_of v (hd (to_json v))"
  using show_int_first by (cases v) (simp_all add: quoted_def)

lemma first_facts: "whole v \<Longrightarrow> first_of v c \<Longrightarrow> \<not> is_ws c \<and> c \<noteq> CHR '']'' \<and> c \<noteq> CHR ''}''"
  by (cases v) (auto simp: is_ws_def is_digit_def)

lemma skip_ws_cons [simp]: "\<not> is_ws c \<Longrightarrow> skip_ws (c # r) = c # r"
  by (simp add: skip_ws_def)

lemma to_json_cons: "whole v \<Longrightarrow> \<exists>c t. to_json v = c # t \<and> first_of v c \<and> \<not> is_ws c \<and> c \<noteq> CHR '']'' \<and> c \<noteq> CHR ''}''"
  using to_json_first [of v] first_facts [of v] by (cases "to_json v") auto

lemma ws_facts [simp]:
  "\<not> is_ws (CHR 0x22)" "\<not> is_ws (CHR ''['')" "\<not> is_ws (CHR '']'')" "\<not> is_ws (CHR ''{'')" "\<not> is_ws (CHR ''}'')" "\<not> is_ws (CHR '','')"
  "\<not> is_ws (CHR '':'')" "\<not> is_ws (CHR ''n'')" "\<not> is_ws (CHR ''t'')" "\<not> is_ws (CHR ''f'')"
  by (simp_all add: is_ws_def)

lemma parse_json:
  "whole v \<Longrightarrow> 2 * length (to_json v) \<le> n \<Longrightarrow> delim r \<Longrightarrow> parse_val n (to_json v @ r) = Some (v, r)"
  "\<forall>x \<in> set xs. whole x \<Longrightarrow> xs \<noteq> [] \<Longrightarrow> 2 * length (arr_json xs) \<le> n + 1 \<Longrightarrow> parse_arr n (arr_json xs @ r) = Some (xs, r)"
  "\<forall>f \<in> set fs. whole (snd f) \<Longrightarrow> fs \<noteq> [] \<Longrightarrow> 2 * length (obj_json fs) \<le> n + 1 \<Longrightarrow> parse_obj n (obj_json fs @ r) = Some (fs, r)"
proof (induction v and xs and fs arbitrary: n r and n r and n r rule: to_json_arr_json_obj_json.induct)
  case 1
  then show ?case by (cases n) (simp_all add: parse_word_def)
next
  case (2 b)
  then show ?case by (cases n; cases b) (simp_all add: parse_word_def)
next
  case (3 i)
  obtain c t where c: "show_int i = c # t" "is_digit c \<or> c = CHR ''-''" using show_int_first [of i] by (cases "show_int i") auto
  then have k: "\<not> is_ws c" "c \<noteq> CHR 0x22" "c \<noteq> CHR ''[''" "c \<noteq> CHR ''{''" "c \<noteq> CHR ''n''" "c \<noteq> CHR ''t''" "c \<noteq> CHR ''f''"
    by (auto simp: is_ws_def is_digit_def)
  obtain m where "n = Suc m" using 3 c(1) by (cases n) auto
  then show ?case using k parse_show_int [OF "3.prems"(3), of i] c(1) by simp
next
  case (4 s)
  then show ?case by simp
next
  case (5 s)
  then obtain m where "n = Suc m" by (cases n) (auto simp: quoted_def)
  then show ?case by (simp add: quoted_def parse_quoted)
next
  case (6 xs)
  then obtain m where n: "n = Suc m" by (cases n) auto
  show ?case
  proof (cases xs)
    case Nil
    then show ?thesis using n by simp
  next
    case (Cons x ys)
    have "parse_arr m (arr_json xs @ r) = Some (xs, r)" using 6 Cons n by simp
    moreover obtain c t where "arr_json xs @ r = c # t" "\<not> is_ws c" "c \<noteq> CHR '']''"
      using to_json_cons [of x] 6(2) Cons by auto
    ultimately show ?thesis using Cons n by simp
  qed
next
  case (7 fs)
  then obtain m where n: "n = Suc m" by (cases n) auto
  show ?case
  proof (cases fs)
    case Nil
    then show ?thesis using n by simp
  next
    case (Cons f gs)
    have "parse_obj m (obj_json fs @ r) = Some (fs, r)" using 7 Cons n by simp
    moreover obtain t where "obj_json fs @ r = CHR 0x22 # t" using Cons by (cases f) (simp add: quoted_def)
    ultimately show ?thesis using Cons n by simp
  qed
next
  case 8
  then show ?case by simp
next
  case (9 x xs)
  have ne: "to_json x \<noteq> []" using to_json_first [of x] 9(3) by simp
  then obtain m where n: "n = Suc m" using 9(5) by (cases n) (auto split: if_splits)
  let ?r = "(if xs = [] then '']'' else CHR '','' # arr_json xs) @ r"
  have "parse_val m (to_json x @ ?r) = Some (x, ?r)" using 9(1,3,5) n by (auto simp: delim_def)
  moreover have "xs \<noteq> [] \<Longrightarrow> parse_arr m (arr_json xs @ r) = Some (xs, r)" using 9(2,3,5) n by simp
  ultimately show ?case using n by simp
next
  case 10
  then show ?case by simp
next
  case (11 k x fs)
  have ne: "to_json x \<noteq> []" using to_json_first [of x] 11(3) by simp
  then obtain m where n: "n = Suc m" using 11(5) by (cases n) (auto split: if_splits)
  let ?r = "(if fs = [] then ''}'' else CHR '','' # obj_json fs) @ r"
  have "parse_val m (to_json x @ ?r) = Some (x, ?r)" using 11(1,3,5) n by (auto simp: delim_def)
  moreover have "fs \<noteq> [] \<Longrightarrow> parse_obj m (obj_json fs @ r) = Some (fs, r)" using 11(2,3,5) n by simp
  ultimately show ?case using n by (simp add: quoted_def parse_quoted)
qed

lemma json_roundtrip: "whole v \<Longrightarrow> json_Unmarshal (json_Marshal v) = Some v \<and> json_Decode (json_Marshal v) = Some v"
  using parse_json(1) [of v "2 * length (to_json v) + 2" "[]"]
  by (simp add: json_Unmarshal_def json_Decode_def json_Marshal_def delim_def skip_ws_def)

lemma json_Marshal_ne: "whole v \<Longrightarrow> json_Marshal v \<noteq> []"
  using to_json_first [of v] by (simp add: json_Marshal_def str_bytes_def)

end
