(* ===== verification/Auth.thy ===== *)
theory Auth
  imports Cfdb Json
begin

text \<open>
  Models \<^verbatim>\<open>internal/auth/auth.go\<close>: accounts stored as JSON in a column family, passwords, tokens and
  roles. The database is any instance of the interface of \<open>Cfdb\<close>. The libraries for password hashes
  and tokens, and what \<^verbatim>\<open>strings.ToLower\<close> and \<^verbatim>\<open>strings.TrimSpace\<close> do to text with bytes above 127, are
  parameters; the random salt and the clock (read once per call) are arguments.
\<close>

section \<open>Accounts and tokens\<close>

text \<open>A slice of roles is nil (\<open>None\<close>) or a list; \<open>roles_of\<close> is what a loop ranges over.\<close>

definition roles_of :: "string list option \<Rightarrow> string list" where
  "roles_of roles = (case roles of None \<Rightarrow> [] | Some rs \<Rightarrow> rs)"

record user =
  us_Username :: string
  us_PasswordHash :: string
  us_Roles :: "string list option"
  us_CreatedAt :: int

record claims =
  cl_Username :: string
  cl_Roles :: "string list option"
  cl_ExpiresAt :: int
  cl_IssuedAt :: int

text \<open>
  \<open>ae_generate salt pw\<close> and \<open>ae_compare hash pw\<close> are bcrypt; \<open>ae_sign key claims\<close> signs with HS256;
  \<open>ae_parse keys now token\<close> gives the claims and whether the token is valid, where \<open>keys\<close> gives the key
  for a token whose method is an HMAC (or not).
\<close>

record auth_env =
  ae_lower :: "string \<Rightarrow> string"
  ae_trim :: "string \<Rightarrow> string"
  ae_generate :: "nat \<Rightarrow> bytes \<Rightarrow> string option"
  ae_compare :: "bytes \<Rightarrow> bytes \<Rightarrow> bool"
  ae_sign :: "bytes \<Rightarrow> claims \<Rightarrow> string option"
  ae_parse :: "(bool \<Rightarrow> bytes option) \<Rightarrow> int \<Rightarrow> string \<Rightarrow> (claims \<times> bool) option"

datatype 'e auth_error =
  AuEmptyUsername | AuEmptyPassword | AuInvalidRole string | AuUserExists | AuUserNotFound | AuInvalidCredentials
| AuHash | AuJson | AuSign | AuBadToken | AuBadClaims | AuScanPanic | AuStore 'e

definition RoleAdmin :: string where "RoleAdmin = ''admin''"
definition RoleReadWrite :: string where "RoleReadWrite = ''readwrite''"
definition RoleReadOnly :: string where "RoleReadOnly = ''readonly''"

definition AuthCF :: string where "AuthCF = ''__auth__''"

definition userKey :: "string \<Rightarrow> bytes" where
  "userKey username = str_bytes (''user:'' @ username)"

section \<open>Strings\<close>

definition ascii :: "string \<Rightarrow> bool" where
  "ascii s \<longleftrightarrow> (\<forall>c \<in> set s. of_char c < (128 :: nat))"

definition lower_char :: "char \<Rightarrow> char" where
  "lower_char c = (let n = (of_char c :: nat) in if 65 \<le> n \<and> n \<le> 90 then char_of (n + 32) else c)"

definition is_space :: "char \<Rightarrow> bool" where
  "is_space c \<longleftrightarrow> of_char c \<in> {9, 10, 11, 12, 13, 32 :: nat}"

definition ToLower :: "auth_env \<Rightarrow> string \<Rightarrow> string" where
  "ToLower env s = (if ascii s then map lower_char s else ae_lower env s)"

definition TrimSpace :: "auth_env \<Rightarrow> string \<Rightarrow> string" where
  "TrimSpace env s =
     (if ascii s then rev (dropWhile is_space (rev (dropWhile is_space s))) else ae_trim env s)"

definition normalize_name :: "auth_env \<Rightarrow> string \<Rightarrow> string" where
  "normalize_name env s = ToLower env (TrimSpace env s)"

section \<open>JSON of an account\<close>

definition roles_json :: "string list option \<Rightarrow> json" where
  "roles_json roles = (case roles of None \<Rightarrow> JNull | Some rs \<Rightarrow> JArr (map JStr rs))"

definition user_json :: "user \<Rightarrow> json" where
  "user_json u = JObj
     [(''username'', JStr (us_Username u)), (''password_hash'', JStr (us_PasswordHash u)),
      (''roles'', roles_json (us_Roles u)), (''created_at'', JNum (us_CreatedAt u))]"

text \<open>
  Field names are matched without regard to case; two letters beyond ASCII fold to \<open>s\<close> and \<open>k\<close>. A
  null leaves a string or number alone and empties a slice; another type is an error.
\<close>

fun fold_name :: "string \<Rightarrow> string" where
  "fold_name [] = []"
| "fold_name (c # r) =
     (if c = CHR 0xC5 \<and> take 1 r = [CHR 0xBF] then CHR ''s'' # fold_name (drop 1 r)
      else if c = CHR 0xE2 \<and> take 2 r = [CHR 0x84, CHR 0xAA] then CHR ''k'' # fold_name (drop 2 r)
      else lower_char c # fold_name r)"

fun json_string :: "json \<Rightarrow> string \<Rightarrow> string option" where
  "json_string (JStr s) old = Some s"
| "json_string JNull old = Some old"
| "json_string _ old = None"

fun json_strings :: "json \<Rightarrow> string list option option" where
  "json_strings (JArr xs) = map_option Some (those (map (\<lambda>x. json_string x []) xs))"
| "json_strings JNull = Some None"
| "json_strings _ = None"

fun json_int64 :: "json \<Rightarrow> int \<Rightarrow> int option" where
  "json_int64 (JNum i) old = (if - (2 ^ 63) \<le> i \<and> i < 2 ^ 63 then Some i else None)"
| "json_int64 JNull old = Some old"
| "json_int64 _ old = None"

definition user_field :: "string \<times> json \<Rightarrow> user option \<Rightarrow> user option" where
  "user_field f acc =
     (case acc of
        None \<Rightarrow> None
      | Some u \<Rightarrow>
          let k = fold_name (fst f); v = snd f in
          if k = ''username'' then map_option (\<lambda>s. u\<lparr>us_Username := s\<rparr>) (json_string v (us_Username u))
          else if k = ''password_hash'' then map_option (\<lambda>s. u\<lparr>us_PasswordHash := s\<rparr>) (json_string v (us_PasswordHash u))
          else if k = ''roles'' then map_option (\<lambda>rs. u\<lparr>us_Roles := rs\<rparr>) (json_strings v)
          else if k = ''created_at'' then map_option (\<lambda>i. u\<lparr>us_CreatedAt := i\<rparr>) (json_int64 v (us_CreatedAt u))
          else Some u)"

definition zero_user :: user where
  "zero_user = \<lparr>us_Username = [], us_PasswordHash = [], us_Roles = None, us_CreatedAt = 0\<rparr>"

definition user_of_json :: "json \<Rightarrow> user option" where
  "user_of_json v =
     (case v of JObj fs \<Rightarrow> fold user_field fs (Some zero_user) | JNull \<Rightarrow> Some zero_user | _ \<Rightarrow> None)"

definition marshal_user :: "user \<Rightarrow> bytes" where
  "marshal_user u = json_Marshal (user_json u)"

definition unmarshal_user :: "bytes \<Rightarrow> user option" where
  "unmarshal_user b = Option.bind (json_Unmarshal b) user_of_json"

text \<open>The two fields that \<open>ChangePassword\<close> reads and writes.\<close>

record creds =
  cr_PasswordHash :: string
  cr_Roles :: "string list option"

definition creds_json :: "creds \<Rightarrow> json" where
  "creds_json c = JObj [(''password_hash'', JStr (cr_PasswordHash c)), (''roles'', roles_json (cr_Roles c))]"

definition creds_field :: "string \<times> json \<Rightarrow> creds option \<Rightarrow> creds option" where
  "creds_field f acc =
     (case acc of
        None \<Rightarrow> None
      | Some c \<Rightarrow>
          let k = fold_name (fst f); v = snd f in
          if k = ''password_hash'' then map_option (\<lambda>s. c\<lparr>cr_PasswordHash := s\<rparr>) (json_string v (cr_PasswordHash c))
          else if k = ''roles'' then map_option (\<lambda>rs. c\<lparr>cr_Roles := rs\<rparr>) (json_strings v)
          else Some c)"

definition creds_of_json :: "json \<Rightarrow> creds option" where
  "creds_of_json v =
     (case v of
        JObj fs \<Rightarrow> fold creds_field fs (Some \<lparr>cr_PasswordHash = [], cr_Roles = None\<rparr>)
      | JNull \<Rightarrow> Some \<lparr>cr_PasswordHash = [], cr_Roles = None\<rparr>
      | _ \<Rightarrow> None)"

section \<open>Roles\<close>

definition isValidRole :: "string \<Rightarrow> bool" where
  "isValidRole role \<longleftrightarrow> role = RoleAdmin \<or> role = RoleReadWrite \<or> role = RoleReadOnly"

definition HasAnyRole :: "user \<Rightarrow> string list \<Rightarrow> bool" where
  "HasAnyRole u required \<longleftrightarrow> (\<exists>r \<in> set (roles_of (us_Roles u)). \<exists>q \<in> set required. r = q)"

definition HasAllRoles :: "user \<Rightarrow> string list \<Rightarrow> bool" where
  "HasAllRoles u required \<longleftrightarrow> (\<forall>q \<in> set required. \<exists>r \<in> set (roles_of (us_Roles u)). r = q)"

definition extractBearerToken :: "auth_env \<Rightarrow> string \<Rightarrow> string" where
  "extractBearerToken env header =
     (if take 7 header \<noteq> ''Bearer '' then [] else TrimSpace env (drop 7 header))"

section \<open>Operations\<close>

definition auth_GetUser :: "auth_env \<Rightarrow> ('d, 'e, 't) cfdb \<Rightarrow> string \<Rightarrow> 'd \<Rightarrow> 'e auth_error + user" where
  "auth_GetUser env db username d =
     (case cf_GetCF db AuthCF (userKey (normalize_name env username)) d of
        Inl err \<Rightarrow> Inl (AuStore err)
      | Inr data \<Rightarrow>
          if slice_of data = [] then Inl AuUserNotFound
          else (case unmarshal_user (slice_of data) of None \<Rightarrow> Inl AuJson | Some u \<Rightarrow> Inr u))"

definition auth_CreateUser ::
    "auth_env \<Rightarrow> ('d, 'e, 't) cfdb \<Rightarrow> nat \<Rightarrow> int \<Rightarrow> string \<Rightarrow> string \<Rightarrow> string list option \<Rightarrow> 'd \<Rightarrow> 'e auth_error option \<times> 'd" where
  "auth_CreateUser env db salt now username password roles d =
     (if username = [] then (Some AuEmptyUsername, d)
      else if password = [] then (Some AuEmptyPassword, d)
      else
        let username = normalize_name env username in
        case find (\<lambda>role. \<not> isValidRole role) (roles_of roles) of
          Some role \<Rightarrow> (Some (AuInvalidRole role), d)
        | None \<Rightarrow>
            (case auth_GetUser env db username d of
               Inr u \<Rightarrow> (Some AuUserExists, d)
             | Inl err \<Rightarrow>
                 if err \<noteq> AuUserNotFound then (Some err, d)
                 else
                   case ae_generate env salt (str_bytes password) of
                     None \<Rightarrow> (Some AuHash, d)
                   | Some hash \<Rightarrow>
                       let u = \<lparr>us_Username = username, us_PasswordHash = hash, us_Roles = roles, us_CreatedAt = now\<rparr>;
                           (err, d) = cf_PutCF db AuthCF (userKey username) (marshal_user u) d
                       in (map_option AuStore err, d)))"

definition auth_Authenticate ::
    "auth_env \<Rightarrow> ('d, 'e, 't) cfdb \<Rightarrow> int \<Rightarrow> string \<Rightarrow> string \<Rightarrow> bytes \<Rightarrow> 'd \<Rightarrow> 'e auth_error + string" where
  "auth_Authenticate env db now username password jwtSecret d =
     (let username = normalize_name env username in
      case auth_GetUser env db username d of
        Inl err \<Rightarrow> Inl err
      | Inr u \<Rightarrow>
          if \<not> ae_compare env (str_bytes (us_PasswordHash u)) (str_bytes password) then Inl AuInvalidCredentials
          else
            case ae_sign env jwtSecret
                \<lparr>cl_Username = us_Username u, cl_Roles = us_Roles u, cl_ExpiresAt = now + 24 * 60 * 60, cl_IssuedAt = now\<rparr> of
              None \<Rightarrow> Inl AuSign
            | Some token \<Rightarrow> Inr token)"

definition ValidateToken :: "auth_env \<Rightarrow> int \<Rightarrow> string \<Rightarrow> bytes \<Rightarrow> 'e auth_error + claims" where
  "ValidateToken env now tokenStr jwtSecret =
     (case ae_parse env (\<lambda>hmac. if hmac then Some jwtSecret else None) now tokenStr of
        None \<Rightarrow> Inl AuBadToken
      | Some (claims, valid) \<Rightarrow> if valid then Inr claims else Inl AuBadClaims)"

definition auth_ListUsers :: "('d, 'e, 't) cfdb \<Rightarrow> 'd \<Rightarrow> 'e auth_error + user list" where
  "auth_ListUsers db d =
     (case cf_ScanCF db AuthCF (str_bytes ''user:'') d of
        None \<Rightarrow> Inl AuScanPanic
      | Some (kvs, None) \<Rightarrow> Inr (List.map_filter (\<lambda>(k, v). unmarshal_user (slice_of v)) kvs)
      | Some (kvs, Some err) \<Rightarrow> Inl (AuStore err))"

definition auth_DeleteUser :: "auth_env \<Rightarrow> ('d, 'e, 't) cfdb \<Rightarrow> string \<Rightarrow> 'd \<Rightarrow> 'e auth_error option \<times> 'd" where
  "auth_DeleteUser env db username d =
     (let (err, d) = cf_DeleteCF db AuthCF (userKey (normalize_name env username)) d in (map_option AuStore err, d))"

text \<open>
  The lookup normalizes its own copy of the name; the record is written under the name as it was given
  (\<^verbatim>\<open>auth.go:245\<close>). \<open>ChangePassword\<close> below does not normalize at all.
\<close>

definition auth_UpdateUserRoles ::
    "auth_env \<Rightarrow> ('d, 'e, 't) cfdb \<Rightarrow> string \<Rightarrow> string list option \<Rightarrow> 'd \<Rightarrow> 'e auth_error option \<times> 'd" where
  "auth_UpdateUserRoles env db username roles d =
     (case auth_GetUser env db username d of
        Inl err \<Rightarrow> (Some err, d)
      | Inr u \<Rightarrow>
          (case find (\<lambda>role. \<not> isValidRole role) (roles_of roles) of
             Some role \<Rightarrow> (Some (AuInvalidRole role), d)
           | None \<Rightarrow>
               let (err, d) = cf_PutCF db AuthCF (userKey username) (marshal_user (u\<lparr>us_Roles := roles\<rparr>)) d
               in (map_option AuStore err, d)))"

definition auth_ChangePassword ::
    "auth_env \<Rightarrow> ('d, 'e, 't) cfdb \<Rightarrow> nat \<Rightarrow> string \<Rightarrow> string \<Rightarrow> 'd \<Rightarrow> 'e auth_error option \<times> 'd" where
  "auth_ChangePassword env db salt username newPassword d =
     (if newPassword = [] then (Some AuInvalidCredentials, d)
      else
        let key = str_bytes (''user:'' @ username) in
        case cf_GetCF db AuthCF key d of
          Inl err \<Rightarrow> (Some (AuStore err), d)
        | Inr val \<Rightarrow>
            if slice_of val = [] then (Some AuUserNotFound, d)
            else
              case Option.bind (json_Unmarshal (slice_of val)) creds_of_json of
                None \<Rightarrow> (Some AuJson, d)
              | Some c \<Rightarrow>
                  (case ae_generate env salt (str_bytes newPassword) of
                     None \<Rightarrow> (Some AuHash, d)
                   | Some hashed \<Rightarrow>
                       let (err, d) = cf_PutCF db AuthCF key (json_Marshal (creds_json (c\<lparr>cr_PasswordHash := hashed\<rparr>))) d
                       in (map_option AuStore err, d)))"

section \<open>Laws of names and of stored accounts\<close>

lemma lower_lower: "lower_char (lower_char c) = lower_char c"
  by (auto simp: lower_char_def Let_def)

lemma lower_ascii: "ascii s \<Longrightarrow> ascii (map lower_char s)"
  by (auto simp: ascii_def lower_char_def Let_def)

lemma lower_space: "is_space (lower_char c) = is_space c"
  by (auto simp: is_space_def lower_char_def Let_def)

lemma trim_ascii: "ascii s \<Longrightarrow> ascii (TrimSpace env s)"
  unfolding ascii_def TrimSpace_def
  by (auto dest!: set_dropWhileD simp: ascii_def)

lemma normalize_ascii: "ascii s \<Longrightarrow> ascii (normalize_name env s)"
  using trim_ascii [of s env] by (simp add: normalize_name_def ToLower_def lower_ascii)

lemma dropWhile_idem: "dropWhile P (dropWhile P xs) = dropWhile P xs"
  by (induction xs) simp_all

lemma trimmed_ends:
  defines "t \<equiv> \<lambda>s. rev (dropWhile is_space (rev (dropWhile is_space s)))"
  shows "t (map lower_char (t s)) = map lower_char (t s)"
proof -
  have lc: "is_space \<circ> lower_char = is_space" by (simp add: fun_eq_iff lower_space)
  have m: "dropWhile is_space (map lower_char xs) = map lower_char (dropWhile is_space xs)" for xs
    by (simp add: dropWhile_map lc)
  let ?d = "dropWhile is_space s"
  have hd: "dropWhile is_space (t s) = t s"
  proof (cases "t s")
    case (Cons c r)
    have "\<exists>z. ?d = t s @ z"
      using takeWhile_dropWhile_id [of is_space "rev ?d"] unfolding t_def by (metis rev_append rev_rev_ident)
    then obtain z where "?d = c # z" using Cons by auto
    then have "\<not> is_space c" by (simp add: dropWhile_eq_Cons_conv)
    then show ?thesis using Cons by simp
  qed simp
  have "t (t s) = t s"
  proof -
    have "t (t s) = rev (dropWhile is_space (rev (t s)))" using hd by (simp add: t_def)
    then show ?thesis by (simp add: t_def dropWhile_idem)
  qed
  moreover have "t (map lower_char (t s)) = map lower_char (t (t s))"
    by (simp add: t_def m rev_map)
  ultimately show ?thesis by simp
qed

lemma normalize_idem: "ascii s \<Longrightarrow> normalize_name env (normalize_name env s) = normalize_name env s"
proof -
  assume a: "ascii s"
  let ?t = "\<lambda>s. rev (dropWhile is_space (rev (dropWhile is_space s)))"
  have n: "normalize_name env s = map lower_char (?t s)"
    using a trim_ascii [OF a, of env] by (simp add: normalize_name_def ToLower_def TrimSpace_def)
  have "normalize_name env (normalize_name env s) = map lower_char (?t (normalize_name env s))"
    using normalize_ascii [OF a, of env] trim_ascii [OF normalize_ascii [OF a, of env], of env]
    by (simp add: normalize_name_def [of env "normalize_name env s"] ToLower_def TrimSpace_def)
  also have "\<dots> = map lower_char (map lower_char (?t s))" unfolding n by (simp only: trimmed_ends)
  finally show ?thesis by (simp add: n lower_lower comp_def)
qed

lemma userKey_inj [simp]: "userKey a = userKey b \<longleftrightarrow> a = b"
  by (simp add: userKey_def)

lemma userKey_ne [simp]: "userKey a \<noteq> []"
  by (simp add: userKey_def str_bytes_def)

lemma field_names:
  "fold_name ''username'' = ''username''" "fold_name ''password_hash'' = ''password_hash''"
  "fold_name ''roles'' = ''roles''" "fold_name ''created_at'' = ''created_at''"
  by code_simp+

lemma those_strings: "those (map ((\<lambda>x. json_string x []) \<circ> JStr) rs) = Some rs"
  by (induction rs) simp_all

lemma whole_roles [simp]: "whole (roles_json rs)"
  by (simp add: roles_json_def split: option.split)

lemma json_strings_roles [simp]: "json_strings (roles_json rs) = Some rs"
  by (simp add: roles_json_def those_strings split: option.split)

definition int64 :: "int \<Rightarrow> bool" where
  "int64 i \<longleftrightarrow> - (2 ^ 63) \<le> i \<and> i < 2 ^ 63"

lemma marshal_user:
  assumes "int64 (us_CreatedAt u)"
  shows "unmarshal_user (marshal_user u) = Some u" "marshal_user u \<noteq> []"
proof -
  have w: "whole (user_json u)" by (simp add: user_json_def)
  show "marshal_user u \<noteq> []" using json_Marshal_ne [OF w] by (simp add: marshal_user_def)
  have "user_of_json (user_json u) = Some u"
    using assms by (simp add: user_of_json_def user_json_def user_field_def zero_user_def field_names those_strings
        int64_def del: those.simps fold_name.simps)
  then show "unmarshal_user (marshal_user u) = Some u"
    using json_roundtrip [OF w] by (simp add: unmarshal_user_def marshal_user_def)
qed

lemma marshal_creds:
  "unmarshal_user (json_Marshal (creds_json c)) =
     Some \<lparr>us_Username = [], us_PasswordHash = cr_PasswordHash c, us_Roles = cr_Roles c, us_CreatedAt = 0\<rparr>"
  "json_Marshal (creds_json c) \<noteq> []"
proof -
  have w: "whole (creds_json c)" by (simp add: creds_json_def)
  show "json_Marshal (creds_json c) \<noteq> []" by (rule json_Marshal_ne [OF w])
  have "user_of_json (creds_json c) =
      Some \<lparr>us_Username = [], us_PasswordHash = cr_PasswordHash c, us_Roles = cr_Roles c, us_CreatedAt = 0\<rparr>"
    by (simp add: user_of_json_def creds_json_def user_field_def zero_user_def field_names those_strings del: those.simps fold_name.simps)
  then show "unmarshal_user (json_Marshal (creds_json c)) =
     Some \<lparr>us_Username = [], us_PasswordHash = cr_PasswordHash c, us_Roles = cr_Roles c, us_CreatedAt = 0\<rparr>"
    using json_roundtrip [OF w] by (simp add: unmarshal_user_def)
qed

end
