(* ===== verification/AuthProofs.thy ===== *)
theory AuthProofs
  imports Auth
begin

text \<open>
  Accounts over the contract of the database interface: what the operations of \<open>Auth\<close> store and
  read, the invariant of the stored accounts, and what a change of the password leaves of one.
\<close>

section \<open>Sizes\<close>

lemma length_esc: "length (esc c) \<le> 6"
  by (simp add: esc_def Let_def)

lemma length_quoted: "length (quoted s) \<le> 6 * length s + 2"
proof -
  have "length (concat (map esc s)) \<le> 6 * length s"
    by (induction s) (use length_esc in \<open>auto intro: add_mono\<close>)
  then show ?thesis by (simp add: quoted_def)
qed

lemma length_digits: "n < 10 ^ Suc k \<Longrightarrow> length (digits n) \<le> Suc k"
proof (induction k arbitrary: n)
  case 0
  then show ?case by (simp add: digits.simps [of n])
next
  case (Suc k)
  then have "n div 10 < 10 ^ Suc k" by simp
  from Suc.IH [OF this] show ?case by (simp add: digits.simps [of n])
qed

lemma length_show_int: "int64 i \<Longrightarrow> length (show_int i) \<le> 21"
proof -
  assume i: "int64 i"
  have "nat i < 10 ^ Suc 19" "nat (- i) < 10 ^ Suc 19" using i by (auto simp: int64_def)
  then show ?thesis using length_digits [of "nat i" 19] length_digits [of "nat (- i)" 19] by (simp add: show_int_def)
qed

lemma length_roles: "\<forall>r \<in> set rs. length r \<le> 9 \<Longrightarrow> length (arr_json (map JStr rs)) \<le> 57 * length rs"
proof (induction rs)
  case (Cons r rs)
  have "length (quoted r) \<le> 56" using length_quoted [of r] Cons.prems by simp
  then show ?case using Cons by auto
qed simp

lemma length_roles_json:
  assumes "\<forall>r \<in> set (roles_of rs). length r \<le> 9"
  shows "length (to_json (roles_json rs)) \<le> 57 * length (roles_of rs) + 4"
proof (cases rs)
  case (Some xs)
  then have "length (arr_json (map JStr xs)) \<le> 57 * length xs" using assms by (intro length_roles) (simp add: roles_of_def)
  then show ?thesis using Some by (simp add: roles_json_def roles_of_def)
qed (simp add: roles_json_def)

lemma valid_role_length: "isValidRole r \<Longrightarrow> length r \<le> 9"
  by (auto simp: isValidRole_def RoleAdmin_def RoleReadWrite_def RoleReadOnly_def)

text \<open>Hashes are short (bcrypt gives 60 bytes).\<close>

definition short_hashes :: "auth_env \<Rightarrow> bool" where
  "short_hashes env \<longleftrightarrow> (\<forall>salt p h. ae_generate env salt p = Some h \<longrightarrow> length h \<le> 4096)"

lemma short_hashesD: "short_hashes env \<Longrightarrow> ae_generate env salt p = Some h \<Longrightarrow> length h \<le> 4096"
  by (simp add: short_hashes_def)

text \<open>An account whose fields are small enough to be stored, with known roles only.\<close>

definition user_ok :: "user \<Rightarrow> bool" where
  "user_ok u \<longleftrightarrow> length (us_Username u) \<le> 4096 \<and> length (us_PasswordHash u) \<le> 4096 \<and> length (roles_of (us_Roles u)) \<le> 4096 \<and>
     (\<forall>r \<in> set (roles_of (us_Roles u)). isValidRole r) \<and> int64 (us_CreatedAt u)"

lemma length_marshal_user: "user_ok u \<Longrightarrow> length (marshal_user u) < 300000"
  using length_quoted [of "us_Username u"] length_quoted [of "us_PasswordHash u"] length_show_int [of "us_CreatedAt u"]
    length_roles_json [of "us_Roles u"] valid_role_length
  by (auto simp: user_ok_def marshal_user_def user_json_def json_Marshal_def quoted_def esc_def)

lemma length_marshal_creds:
  assumes "length (cr_PasswordHash c) \<le> 4096" "length (roles_of (cr_Roles c)) \<le> 4096" "\<forall>r \<in> set (roles_of (cr_Roles c)). isValidRole r"
  shows "length (json_Marshal (creds_json c)) < 300000"
  using length_quoted [of "cr_PasswordHash c"] length_roles_json [of "cr_Roles c"] valid_role_length assms
  by (auto simp: creds_json_def json_Marshal_def quoted_def esc_def)

lemma account_fits: "length name \<le> 4096 \<Longrightarrow> length v < 300000 \<Longrightarrow> put_fits (userKey name) v"
  by (auto simp: put_fits_def userKey_def wal_fits_def put_entry_def wal_size_def groupCommitBufSize_eq MaxInlineSize_def
      str_bytes_def)

lemma account_delete_fits: "length name \<le> 4096 \<Longrightarrow> wal_fits (delete_entry (userKey name) 0)"
  by (auto simp: userKey_def wal_fits_def delete_entry_def wal_size_def groupCommitBufSize_eq str_bytes_def)

section \<open>Operations on the contract\<close>

text \<open>What a lookup of a stored account gives.\<close>

definition stored_user :: "(bytes \<Rightarrow> bytes option) \<Rightarrow> string \<Rightarrow> 'e auth_error + user" where
  "stored_user m name =
     (if slice_of (m (userKey name)) = [] then Inl AuUserNotFound
      else case unmarshal_user (slice_of (m (userKey name))) of None \<Rightarrow> Inl AuJson | Some u \<Rightarrow> Inr u)"

definition new_user :: "auth_env \<Rightarrow> string \<Rightarrow> string \<Rightarrow> string list option \<Rightarrow> int \<Rightarrow> user" where
  "new_user env name hash roles now =
     \<lparr>us_Username = normalize_name env name, us_PasswordHash = hash, us_Roles = roles, us_CreatedAt = now\<rparr>"

lemma stored_marshal: "int64 (us_CreatedAt u) \<Longrightarrow> stored_user (m(userKey name \<mapsto> marshal_user u)) name = Inr u"
  using marshal_user by (simp add: stored_user_def slice_of_def)

lemma stored_other: "name' \<noteq> name \<Longrightarrow> stored_user (m(userKey name := v)) name' = stored_user m name'"
  by (simp add: stored_user_def)

definition token_for :: "auth_env \<Rightarrow> int \<Rightarrow> user \<Rightarrow> string \<Rightarrow> bytes \<Rightarrow> 'e auth_error + string" where
  "token_for env now u password key =
     (if ae_compare env (str_bytes (us_PasswordHash u)) (str_bytes password) then
        (case ae_sign env key
            \<lparr>cl_Username = us_Username u, cl_Roles = us_Roles u, cl_ExpiresAt = now + 24 * 60 * 60, cl_IssuedAt = now\<rparr> of
           None \<Rightarrow> Inl AuSign | Some token \<Rightarrow> Inr token)
      else Inl AuInvalidCredentials)"

lemma find_invalid: "find (\<lambda>role. \<not> isValidRole role) rs = None \<longleftrightarrow> (\<forall>r \<in> set rs. isValidRole r)"
  by (auto simp: find_None_iff)

context cf_store
begin

lemma get_user:
  assumes "rep n M d" "M AuthCF = Some m"
  shows "auth_GetUser env db name d = stored_user m (normalize_name env name)"
  using get_open [OF assms, of "userKey (normalize_name env name)"] by (simp add: auth_GetUser_def stored_user_def)

lemma authenticate:
  assumes "rep n M d" "M AuthCF = Some m" "ascii name"
  shows "auth_Authenticate env db now name pw key d =
    (case stored_user m (normalize_name env name) of Inl err \<Rightarrow> Inl err | Inr u \<Rightarrow> token_for env now u pw key)"
  by (simp add: auth_Authenticate_def get_user [OF assms(1,2)] normalize_idem [OF assms(3)] token_for_def split: sum.split option.split)

lemma create_user:
  assumes rep: "rep (Suc n) M d" and cf: "M AuthCF = Some m" and name: "ascii name" "name \<noteq> []" and pw: "pw \<noteq> []"
    and roles: "\<forall>r \<in> set (roles_of roles). isValidRole r" and fresh: "stored_user m (normalize_name env name) = Inl (AuUserNotFound :: 'e auth_error)"
    and hash: "ae_generate env salt (str_bytes pw) = Some h"
    and fits: "put_fits (userKey (normalize_name env name)) (marshal_user (new_user env name h roles now))"
  shows "\<exists>d'. auth_CreateUser env db salt now name pw roles d = (None, d') \<and>
    rep n (M(AuthCF \<mapsto> m(userKey (normalize_name env name) \<mapsto> marshal_user (new_user env name h roles now)))) d'"
proof -
  obtain d' where d': "cf_PutCF db AuthCF (userKey (normalize_name env name)) (marshal_user (new_user env name h roles now)) d = (None, d')"
    "rep n (M(AuthCF \<mapsto> m(userKey (normalize_name env name) \<mapsto> marshal_user (new_user env name h roles now)))) d'"
    using put_open [OF rep cf fits] by blast
  have "auth_CreateUser env db salt now name pw roles d = (None, d')"
    using name pw roles hash d'(1) fresh
    by (simp add: auth_CreateUser_def find_invalid [THEN iffD2] get_user [OF rep cf] normalize_idem Let_def new_user_def)
  with d'(2) show ?thesis by blast
qed

lemma create_user_cases:
  assumes rep: "rep (Suc n) M d" and cf: "M AuthCF = Some m" and name: "ascii name" "length (normalize_name env name) \<le> 4096"
    and h: "short_hashes env" and len: "length (roles_of roles) \<le> 4096" "int64 now"
  shows "(\<exists>err. auth_CreateUser env db salt now name pw roles d = (Some err, d)) \<or>
    (\<exists>d' u. auth_CreateUser env db salt now name pw roles d = (None, d') \<and> user_ok u \<and>
       rep n (M(AuthCF \<mapsto> m(userKey (normalize_name env name) \<mapsto> marshal_user u))) d')"
proof (cases "name = [] \<or> pw = [] \<or> \<not> (\<forall>r \<in> set (roles_of roles). isValidRole r) \<or>
    stored_user m (normalize_name env name) \<noteq> Inl (AuUserNotFound :: 'e auth_error) \<or> ae_generate env salt (str_bytes pw) = None")
  case True
  then show ?thesis
    by (auto simp: auth_CreateUser_def get_user [OF rep cf] normalize_idem [OF name(1)] find_invalid Let_def
        split: option.split sum.split)
next
  case False
  then obtain hh where hh: "ae_generate env salt (str_bytes pw) = Some hh" by auto
  have ok: "user_ok (new_user env name hh roles now)"
    using False name(2) short_hashesD [OF h hh] len by (simp add: user_ok_def new_user_def)
  then have "put_fits (userKey (normalize_name env name)) (marshal_user (new_user env name hh roles now))"
    using length_marshal_user account_fits name(2) by blast
  with create_user [OF rep cf name(1) _ _ _ _ hh, of roles] False ok show ?thesis by blast
qed

end

section \<open>The invariant of the stored accounts\<close>

text \<open>Every entry under a name is an account with known roles.\<close>

definition accounts_ok :: "(bytes \<Rightarrow> bytes option) \<Rightarrow> bool" where
  "accounts_ok m \<longleftrightarrow> (\<forall>name v. m (userKey name) = Some v \<longrightarrow> v \<noteq> [] \<and> (\<exists>u. unmarshal_user v = Some u \<and> user_ok u))"

lemma accounts_okD:
  assumes "accounts_ok m"
  shows "stored_user m name = Inl AuUserNotFound \<and> m (userKey name) = None \<or> (\<exists>u. stored_user m name = Inr u \<and> user_ok u)"
proof (cases "m (userKey name)")
  case (Some v)
  then obtain u where "v \<noteq> []" "unmarshal_user v = Some u" "user_ok u" using assms by (auto simp: accounts_ok_def)
  then show ?thesis using Some by (simp add: stored_user_def slice_of_def)
qed (simp add: stored_user_def slice_of_def)

lemma accounts_ok_put:
  "accounts_ok m \<Longrightarrow> v \<noteq> [] \<Longrightarrow> unmarshal_user v = Some u \<Longrightarrow> user_ok u \<Longrightarrow> accounts_ok (m(userKey name \<mapsto> v))"
  by (simp add: accounts_ok_def)

lemma accounts_ok_store: "accounts_ok m \<Longrightarrow> user_ok u \<Longrightarrow> accounts_ok (m(userKey name \<mapsto> marshal_user u))"
  using marshal_user [of u] by (intro accounts_ok_put) (simp_all add: user_ok_def)

lemma accounts_ok_delete: "accounts_ok m \<Longrightarrow> accounts_ok (m(userKey name := None))"
  by (simp add: accounts_ok_def)

text \<open>The two fields of an account are the ones of the account.\<close>

definition creds_of :: "user \<Rightarrow> creds" where
  "creds_of u = \<lparr>cr_PasswordHash = us_PasswordHash u, cr_Roles = us_Roles u\<rparr>"

lemma creds_field: "user_field f (Some u) = Some u' \<Longrightarrow> creds_field f (Some (creds_of u)) = Some (creds_of u')"
  by (auto simp: user_field_def creds_field_def creds_of_def Let_def split: if_splits)

lemma creds_fields: "fold user_field fs (Some u) = Some u' \<Longrightarrow> fold creds_field fs (Some (creds_of u)) = Some (creds_of u')"
proof (induction fs arbitrary: u)
  case (Cons f fs)
  have none: "fold user_field gs None = None" for gs by (induction gs) (simp_all add: user_field_def)
  show ?case
  proof (cases "user_field f (Some u)")
    case None
    then show ?thesis using Cons.prems none by simp
  next
    case (Some u1)
    then show ?thesis using Cons creds_field [OF Some] by simp
  qed
qed simp

lemma stored_creds: "unmarshal_user v = Some u \<Longrightarrow> Option.bind (json_Unmarshal v) creds_of_json = Some (creds_of u)"
  using creds_fields [of _ zero_user u]
  by (auto simp: unmarshal_user_def user_of_json_def creds_of_json_def creds_of_def zero_user_def split: Option.bind_splits json.splits)

definition renamed :: "user \<Rightarrow> string \<Rightarrow> user" where
  "renamed u hash = \<lparr>us_Username = [], us_PasswordHash = hash, us_Roles = us_Roles u, us_CreatedAt = 0\<rparr>"

lemma renamed_ok: "user_ok u \<Longrightarrow> length h \<le> 4096 \<Longrightarrow> user_ok (renamed u h)"
  by (simp add: user_ok_def renamed_def int64_def)

context cf_store
begin

lemma change_password:
  assumes rep: "rep (Suc n) M d" and cf: "M AuthCF = Some m" and pw: "pw \<noteq> []" and u: "stored_user m name = Inr u"
    and hash: "ae_generate env salt (str_bytes pw) = Some h" and fits: "user_ok u" "length h \<le> 4096" "length name \<le> 4096"
  shows "\<exists>d' v. auth_ChangePassword env db salt name pw d = (None, d') \<and> v \<noteq> [] \<and>
    unmarshal_user v = Some (renamed u h) \<and> rep n (M(AuthCF \<mapsto> m(userKey name \<mapsto> v))) d'"
proof -
  let ?c = "(creds_of u)\<lparr>cr_PasswordHash := h\<rparr>"
  let ?v = "json_Marshal (creds_json ?c)"
  have "length ?v < 300000" using fits(1,2) by (intro length_marshal_creds) (simp_all add: creds_of_def user_ok_def)
  then have "put_fits (userKey name) ?v" by (rule account_fits [OF fits(3)])
  from put_open [OF rep cf this] obtain d' where d': "cf_PutCF db AuthCF (userKey name) ?v d = (None, d')"
    "rep n (M(AuthCF \<mapsto> m(userKey name \<mapsto> ?v))) d'" by blast
  have s: "slice_of (m (userKey name)) \<noteq> []" "unmarshal_user (slice_of (m (userKey name))) = Some u"
    using u by (auto simp: stored_user_def split: if_splits option.splits)
  have "auth_ChangePassword env db salt name pw d = (None, d')"
    using pw s(1) stored_creds [OF s(2)] hash d'(1) get_open [OF rep cf, of "userKey name"]
    by (simp add: auth_ChangePassword_def userKey_def)
  moreover have "unmarshal_user ?v = Some (renamed u h)" "?v \<noteq> []"
    using marshal_creds [of ?c] by (simp_all add: creds_of_def renamed_def)
  ultimately show ?thesis using d'(2) by blast
qed

lemma change_password_cases:
  assumes rep: "rep (Suc n) M d" and cf: "M AuthCF = Some m" and ok: "accounts_ok m" and name: "length name \<le> 4096"
    and h: "short_hashes env"
  shows "(\<exists>err. auth_ChangePassword env db salt name pw d = (Some err, d)) \<or>
    (\<exists>d' v u. auth_ChangePassword env db salt name pw d = (None, d') \<and> v \<noteq> [] \<and> unmarshal_user v = Some u \<and> user_ok u \<and>
       rep n (M(AuthCF \<mapsto> m(userKey name \<mapsto> v))) d')"
proof (cases "pw = [] \<or> m (userKey name) = None \<or> ae_generate env salt (str_bytes pw) = None")
  case True
  note get = get_open [OF rep cf, of "userKey name", unfolded userKey_def]
  show ?thesis
  proof (cases "pw = [] \<or> m (userKey name) = None")
    case True
    then show ?thesis using get by (auto simp: auth_ChangePassword_def userKey_def slice_of_def)
  next
    case False
    then obtain v where v: "m (userKey name) = Some v" by auto
    with ok obtain u where u: "v \<noteq> []" "unmarshal_user v = Some u" unfolding accounts_ok_def by blast
    from v u show ?thesis
      using False True get stored_creds [OF u(2)] by (simp add: auth_ChangePassword_def userKey_def slice_of_def)
  qed
next
  case False
  then obtain hh where hh: "ae_generate env salt (str_bytes pw) = Some hh" by auto
  obtain u where u: "stored_user m name = (Inr u :: 'e auth_error + user)" "user_ok u" using accounts_okD [OF ok] False by blast
  have "pw \<noteq> []" using False by blast
  from change_password [OF rep cf this u(1) hh u(2) short_hashesD [OF h hh] name] renamed_ok [OF u(2) short_hashesD [OF h hh]] show ?thesis by blast
qed

lemma update_roles:
  assumes rep: "rep (Suc n) M d" and cf: "M AuthCF = Some m" and u: "stored_user m (normalize_name env name) = (Inr u :: 'e auth_error + user)"
    and roles: "\<forall>r \<in> set (roles_of roles). isValidRole r" and fits: "user_ok (u\<lparr>us_Roles := roles\<rparr>)" "length name \<le> 4096"
  shows "\<exists>d'. auth_UpdateUserRoles env db name roles d = (None, d') \<and>
    rep n (M(AuthCF \<mapsto> m(userKey name \<mapsto> marshal_user (u\<lparr>us_Roles := roles\<rparr>)))) d'"
proof -
  have "put_fits (userKey name) (marshal_user (u\<lparr>us_Roles := roles\<rparr>))"
    using length_marshal_user account_fits fits by blast
  from put_open [OF rep cf this] show ?thesis
    using u roles by (auto simp: auth_UpdateUserRoles_def get_user [OF rep cf] find_invalid [THEN iffD2])
qed

lemma update_roles_cases:
  assumes rep: "rep (Suc n) M d" and cf: "M AuthCF = Some m" and ok: "accounts_ok m"
    and name: "length name \<le> 4096" and len: "length (roles_of roles) \<le> 4096"
  shows "(\<exists>err. auth_UpdateUserRoles env db name roles d = (Some err, d)) \<or>
    (\<exists>d' u. auth_UpdateUserRoles env db name roles d = (None, d') \<and> user_ok u \<and>
       rep n (M(AuthCF \<mapsto> m(userKey name \<mapsto> marshal_user u))) d')"
proof -
  let ?name = "normalize_name env name"
  consider (none) "stored_user m ?name = Inl (AuUserNotFound :: 'e auth_error)"
    | (user) u where "stored_user m ?name = (Inr u :: 'e auth_error + user)" "user_ok u"
    using accounts_okD [OF ok] by blast
  then show ?thesis
  proof cases
    case none
    then show ?thesis by (simp add: auth_UpdateUserRoles_def get_user [OF rep cf])
  next
    case user
    show ?thesis
    proof (cases "\<forall>r \<in> set (roles_of roles). isValidRole r")
      case False
      then obtain r where "find (\<lambda>role. \<not> isValidRole role) (roles_of roles) = Some r" using find_invalid by fastforce
      then show ?thesis using user by (simp add: auth_UpdateUserRoles_def get_user [OF rep cf])
    next
      case True
      have u: "user_ok (u\<lparr>us_Roles := roles\<rparr>)" using user(2) True len by (simp add: user_ok_def)
      with update_roles [OF rep cf user(1) True u name] show ?thesis by blast
    qed
  qed
qed

end

section \<open>Runs of operations\<close>

datatype auth_op =
  CreateOp nat int string string "string list option" | RolesOp string "string list option" | PasswordOp nat string string | DeleteOp string

fun auth_do :: "auth_env \<Rightarrow> ('d, 'e, 't) cfdb \<Rightarrow> auth_op \<Rightarrow> 'd \<Rightarrow> 'e auth_error option \<times> 'd" where
  "auth_do env db (CreateOp salt now name pw roles) d = auth_CreateUser env db salt now name pw roles d"
| "auth_do env db (RolesOp name roles) d = auth_UpdateUserRoles env db name roles d"
| "auth_do env db (PasswordOp salt name pw) d = auth_ChangePassword env db salt name pw d"
| "auth_do env db (DeleteOp name) d = auth_DeleteUser env db name d"

definition auth_run :: "auth_env \<Rightarrow> ('d, 'e, 't) cfdb \<Rightarrow> auth_op list \<Rightarrow> 'd \<Rightarrow> 'd" where
  "auth_run env db ops d = fold (\<lambda>op d. snd (auth_do env db op d)) ops d"

fun op_small :: "auth_env \<Rightarrow> auth_op \<Rightarrow> bool" where
  "op_small env (CreateOp salt now name pw roles) \<longleftrightarrow>
     ascii name \<and> length (normalize_name env name) \<le> 4096 \<and> length (roles_of roles) \<le> 4096 \<and> int64 now"
| "op_small env (RolesOp name roles) \<longleftrightarrow> length name \<le> 4096 \<and> length (roles_of roles) \<le> 4096"
| "op_small env (PasswordOp salt name pw) \<longleftrightarrow> length name \<le> 4096"
| "op_small env (DeleteOp name) \<longleftrightarrow> length (normalize_name env name) \<le> 4096"

context cf_store
begin

lemma auth_step:
  assumes rep: "rep (Suc n) M d" and cf: "M AuthCF = Some m" and ok: "accounts_ok m" and op: "op_small env op"
    and h: "short_hashes env"
  shows "\<exists>m'. rep n (M(AuthCF \<mapsto> m')) (snd (auth_do env db op d)) \<and> accounts_ok m'"
proof -
  have same: "rep n (M(AuthCF \<mapsto> m)) d" using rep_fewer [OF rep] cf by (simp add: fun_upd_idem)
  show ?thesis
  proof (cases op)
    case (CreateOp salt now name pw roles)
    then have "ascii name" "length (normalize_name env name) \<le> 4096" "length (roles_of roles) \<le> 4096" "int64 now" using op by simp_all
    note cases = create_user_cases [OF rep cf this(1,2) h this(3,4), where salt = salt and pw = pw]
    show ?thesis unfolding CreateOp auth_do.simps
      using cases accounts_ok_store [OF ok] same ok by (elim disjE exE conjE) (simp, blast)+
  next
    case (RolesOp name roles)
    then have "length name \<le> 4096" "length (roles_of roles) \<le> 4096" using op by simp_all
    note cases = update_roles_cases [OF rep cf ok this, where env = env]
    show ?thesis unfolding RolesOp auth_do.simps
      using cases accounts_ok_store [OF ok] same ok by (elim disjE exE conjE) (simp, blast)+
  next
    case (PasswordOp salt name pw)
    then have "length name \<le> 4096" using op by simp
    note cases = change_password_cases [OF rep cf ok this h, where salt = salt and pw = pw]
    show ?thesis unfolding PasswordOp auth_do.simps
      using cases accounts_ok_put [OF ok] same ok by (elim disjE exE conjE) (simp, blast)+
  next
    case (DeleteOp name)
    let ?k = "userKey (normalize_name env name)"
    have "wal_fits (delete_entry ?k 0)" using op DeleteOp by (intro account_delete_fits) simp
    from delete_open [OF rep cf userKey_ne this] obtain d' where
      "cf_DeleteCF db AuthCF ?k d = (None, d')" "rep n (M(AuthCF \<mapsto> m(?k := None))) d'" by blast
    then show ?thesis unfolding DeleteOp using accounts_ok_delete [OF ok] by (auto simp: auth_DeleteUser_def)
  qed
qed

lemma auth_run_ok:
  assumes "rep (length ops + n) M d" "M AuthCF = Some m" "accounts_ok m" "\<forall>op \<in> set ops. op_small env op"
    and h: "short_hashes env"
  shows "\<exists>m'. rep n (M(AuthCF \<mapsto> m')) (auth_run env db ops d) \<and> accounts_ok m'"
  using assms(1-4)
proof (induction ops arbitrary: d M m)
  case Nil
  then have "M(AuthCF \<mapsto> m) = M" by (simp add: fun_upd_idem)
  then show ?case using Nil by (intro exI [of _ m]) (simp add: auth_run_def)
next
  case (Cons op ops)
  obtain m1 where m1: "rep (length ops + n) (M(AuthCF \<mapsto> m1)) (snd (auth_do env db op d))" "accounts_ok m1"
    using auth_step [of "length ops + n" M d m env op] Cons.prems h by auto
  have "\<forall>op \<in> set ops. op_small env op" using Cons.prems(4) by simp
  note ih = Cons.IH [OF m1(1) fun_upd_same m1(2) this, unfolded fun_upd_upd]
  have "auth_run env db (op # ops) d = auth_run env db ops (snd (auth_do env db op d))" by (simp add: auth_run_def)
  then show ?case using ih by (simp only:)
qed

end

section \<open>Accounts in the database\<close>

text \<open>An environment for the examples, with the length limit of bcrypt and tokens that carry one role.\<close>

definition demo_env :: auth_env where
  "demo_env = \<lparr>ae_lower = \<lambda>s. s, ae_trim = \<lambda>s. s,
     ae_generate = \<lambda>salt p. if length p \<le> 72 then Some (CHR ''$'' # bytes_str p) else None,
     ae_compare = \<lambda>h p. h = 36 # p,
     ae_sign = \<lambda>key c. Some (bytes_str key @ concat (roles_of (cl_Roles c))),
     ae_parse = \<lambda>keys now token. (case keys True of None \<Rightarrow> None | Some key \<Rightarrow>
       if take (length key) token = bytes_str key
       then Some (\<lparr>cl_Username = [], cl_Roles = Some [drop (length key) token], cl_ExpiresAt = now, cl_IssuedAt = now\<rparr>, True)
       else None)\<rparr>"

lemma demo_env_short: "short_hashes demo_env"
  by (simp add: short_hashes_def demo_env_def bytes_str_def)

lemma demo_generate: "ae_generate demo_env salt (str_bytes ''pw'') = Some ''$pw''"
  by code_simp

lemma demo_names:
  "ascii '' Ann '' \<and> ascii ''ANN'' \<and> ascii ''ann''" "normalize_name demo_env '' Ann '' = ''ann''"
  "normalize_name demo_env ''ANN'' = ''ann''" "normalize_name demo_env ''ann'' = ''ann''"
  by (code_simp, code_simp, code_simp, code_simp)

lemma auth_db:
  assumes "n < 2 ^ 29"
  obtains r where "NewScoriaDBWithOptions True (demo_opener bd) (Some [(AuthCF, True)]) = Inr r"
    "db_ListCFs r = {''default'', AuthCF}"
    "scoria_rep n (\<lambda>cf. if cf \<in> {''default'', AuthCF} then Some Map.empty else None) r"
proof -
  obtain r where r: "NewScoriaDBWithOptions True (demo_opener bd) (Some [(AuthCF, True)]) = Inr r"
    "db_ListCFs r = insert ''default'' {name. (name, True) \<in> set [(AuthCF, True)]}"
    using new_db_names [OF demo_opens [of bd], of "[(AuthCF, True)]"] by (elim exE conjE) (rule that)
  have l: "db_ListCFs r = {''default'', AuthCF}" using r(2) by auto
  show ?thesis by (rule that [OF r(1) l new_scoria_rep [OF demo_opens r(1) assms, unfolded l]])
qed

lemma no_user: "stored_user Map.empty name = Inl AuUserNotFound"
  by (simp add: stored_user_def slice_of_def)

text \<open>
  C34. Creating an account: with a new name, known roles and non-empty name and password it succeeds on
  the database; then the account is found under every spelling of the name that differs in case and
  surrounding white space, a login under such a spelling compares the password with the stored hash
  and signs a token for the account's roles, a second creation is refused and changes nothing, and
  accounts with other names are as before.
\<close>

theorem created_accounts_authenticate:
  fixes M :: "string \<Rightarrow> (bytes \<Rightarrow> bytes option) option"
  assumes rep: "scoria_rep (Suc n) M r" and cf: "M AuthCF = Some m"
    and fresh: "auth_GetUser env (scoria_cfdb ord ks opener close_ok no_faults) name r = Inl AuUserNotFound"
    and name: "ascii name" "name \<noteq> []" "length (normalize_name env name) \<le> 4096" and pw: "pw \<noteq> []"
    and roles: "\<forall>r \<in> set (roles_of roles). isValidRole r" "length (roles_of roles) \<le> 4096"
    and hash: "ae_generate env salt (str_bytes pw) = Some h" "short_hashes env" and now: "int64 now"
  shows "\<exists>r'. auth_CreateUser env (scoria_cfdb ord ks opener close_ok no_faults) salt now name pw roles r = (None, r') \<and>
    (\<forall>name'. ascii name' \<and> normalize_name env name' = normalize_name env name \<longrightarrow>
       auth_GetUser env (scoria_cfdb ord ks opener close_ok no_faults) name' r' = Inr (new_user env name h roles now) \<and>
       auth_Authenticate env (scoria_cfdb ord ks opener close_ok no_faults) now' name' pw' key r' =
         token_for env now' (new_user env name h roles now) pw' key) \<and>
    auth_CreateUser env (scoria_cfdb ord ks opener close_ok no_faults) salt' now' name pw' roles' r' =
      (Some (if pw' = [] then AuEmptyPassword
             else case find (\<lambda>role. \<not> isValidRole role) (roles_of roles') of Some role \<Rightarrow> AuInvalidRole role | None \<Rightarrow> AuUserExists), r') \<and>
    (\<forall>name'. normalize_name env name' \<noteq> normalize_name env name \<longrightarrow>
       auth_GetUser env (scoria_cfdb ord ks opener close_ok no_faults) name' r' =
       auth_GetUser env (scoria_cfdb ord ks opener close_ok no_faults) name' r)"
proof -
  let ?db = "scoria_cfdb ord ks opener close_ok no_faults" and ?u = "new_user env name h roles now"
  let ?m = "m(userKey (normalize_name env name) \<mapsto> marshal_user ?u)"
  have "user_ok ?u"
    using name(3) short_hashesD [OF hash(2,1)] roles now by (simp add: user_ok_def new_user_def)
  then have fits: "put_fits (userKey (normalize_name env name)) (marshal_user ?u)"
    using length_marshal_user account_fits name(3) by blast
  have "stored_user m (normalize_name env name) = Inl (AuUserNotFound :: (cf_error + it_error) auth_error)"
    using fresh unfolding scoria.get_user [OF rep cf] .
  from scoria.create_user [OF rep cf name(1,2) pw roles(1) this hash(1) fits]
  obtain r' where r': "auth_CreateUser env ?db salt now name pw roles r = (None, r')" "scoria_rep n (M(AuthCF \<mapsto> ?m)) r'"
    by blast
  have cf': "(M(AuthCF \<mapsto> ?m)) AuthCF = Some ?m" by simp
  note get = scoria.get_user [OF r'(2) cf', of env ord ks opener close_ok]
  have st: "stored_user ?m (normalize_name env name) = (Inr ?u :: (cf_error + it_error) auth_error + user)"
    using now by (intro stored_marshal) (simp add: new_user_def)
  have "auth_GetUser env ?db name' r' = Inr ?u \<and> auth_Authenticate env ?db now' name' pw' key r' = token_for env now' ?u pw' key"
    if "ascii name'" "normalize_name env name' = normalize_name env name" for name'
    using that st by (simp add: get scoria.authenticate [OF r'(2) cf'] del: fun_upd_apply)
  moreover have "auth_CreateUser env ?db salt' now' name pw' roles' r' =
      (Some (if pw' = [] then AuEmptyPassword
             else case find (\<lambda>role. \<not> isValidRole role) (roles_of roles') of Some role \<Rightarrow> AuInvalidRole role | None \<Rightarrow> AuUserExists), r')"
    using name(1,2) st by (simp add: auth_CreateUser_def get normalize_idem Let_def del: fun_upd_apply split: option.split)
  moreover have "auth_GetUser env ?db name' r' = auth_GetUser env ?db name' r"
    if "normalize_name env name' \<noteq> normalize_name env name" for name'
    using that by (simp add: get scoria.get_user [OF rep cf] stored_other del: fun_upd_apply)
  ultimately show ?thesis using r'(1) by blast
qed

text \<open>An admin created as \<open> Ann \<close> logs in as \<open>ANN\<close>.\<close>

theorem created_accounts_authenticate_witness:
  "\<forall>bd. \<exists>r r'. NewScoriaDBWithOptions True (demo_opener bd) (Some [(AuthCF, True)]) = Inr r \<and>
     auth_CreateUser demo_env (scoria_cfdb (\<lambda>xs. xs) (\<lambda>_. ([], [])) (demo_opener bd) True no_faults) 0 5 '' Ann '' ''pw''
       (Some [''admin'']) r = (None, r') \<and>
     auth_Authenticate demo_env (scoria_cfdb (\<lambda>xs. xs) (\<lambda>_. ([], [])) (demo_opener bd) True no_faults) 6 ''ANN'' ''pw'' [75] r' =
       Inr ''Kadmin''"
proof
  fix bd
  obtain r where r: "NewScoriaDBWithOptions True (demo_opener bd) (Some [(AuthCF, True)]) = Inr r"
    "scoria_rep (Suc 0) (\<lambda>cf. if cf \<in> {''default'', AuthCF} then Some Map.empty else None) r"
    by (rule auth_db [of "Suc 0" bd]) simp_all
  have cf: "(\<lambda>cf. if cf \<in> {''default'', AuthCF} then Some (Map.empty :: bytes \<Rightarrow> bytes option) else None) AuthCF = Some Map.empty" by simp
  let ?db = "scoria_cfdb (\<lambda>xs. xs) (\<lambda>_. ([], [])) (demo_opener bd) True no_faults"
  have fresh: "auth_GetUser demo_env ?db '' Ann '' r = Inl AuUserNotFound"
    unfolding scoria.get_user [OF r(2) cf] by (rule no_user)
  have "\<exists>r'. auth_CreateUser demo_env ?db 0 5 '' Ann '' ''pw'' (Some [''admin'']) r = (None, r') \<and>
      auth_Authenticate demo_env ?db 6 ''ANN'' ''pw'' [75] r' =
        token_for demo_env 6 (new_user demo_env '' Ann '' ''$pw'' (Some [''admin'']) 5) ''pw'' [75]"
    using created_accounts_authenticate [OF r(2) cf fresh, of "''pw''" "Some [''admin'']" 0 "''$pw''" 5] demo_names demo_env_short demo_generate
    by (simp add: roles_of_def isValidRole_def RoleAdmin_def int64_def del: split_paired_All) blast
  moreover have "token_for demo_env 6 (new_user demo_env '' Ann '' ''$pw'' (Some [''admin'']) 5) ''pw'' [75] =
      (Inr ''Kadmin'' :: (cf_error + it_error) auth_error + string)"
    by code_simp
  ultimately show "\<exists>r r'. NewScoriaDBWithOptions True (demo_opener bd) (Some [(AuthCF, True)]) = Inr r \<and>
     auth_CreateUser demo_env ?db 0 5 '' Ann '' ''pw'' (Some [''admin'']) r = (None, r') \<and>
     auth_Authenticate demo_env ?db 6 ''ANN'' ''pw'' [75] r' = Inr ''Kadmin''"
    using r(1) by metis
qed

text \<open>
  C35. Whatever accounts are created, changed and deleted on a new database with the family of the
  accounts: every lookup of a name finds no account, or one that decodes and whose roles are all known
  ones. An update of roles under another spelling of a name is among the operations; it writes a
  record of its own (\<open>update_roles_of_another_spelling\<close> below). (Names of new accounts are ASCII, names
  at most 4096 bytes, roles at most 4096, times 64-bit; hashes are short.)
\<close>

theorem accounts_stay_well_typed:
  assumes new: "opens_empty opener" "NewScoriaDBWithOptions True opener (Some dirs) = Inr r" "AuthCF \<in> db_ListCFs r"
    and ops: "length ops < 2 ^ 29" "\<forall>op \<in> set ops. op_small env op" and hashes: "short_hashes env"
  shows "auth_GetUser env (scoria_cfdb ord ks opener close_ok no_faults) name
           (auth_run env (scoria_cfdb ord ks opener close_ok no_faults) ops r) \<in>
         insert (Inl AuUserNotFound) (Inr ` {u. \<forall>r \<in> set (roles_of (us_Roles u)). isValidRole r})"
proof -
  have rep: "scoria_rep (length ops + 0) (\<lambda>cf. if cf \<in> db_ListCFs r then Some Map.empty else None) r"
    using new_scoria_rep [OF new(1,2) ops(1)] by simp
  have "accounts_ok Map.empty" by (simp add: accounts_ok_def)
  with scoria.auth_run_ok [OF rep _ _ ops(2) hashes, of Map.empty] new(3) obtain m' where
    m': "scoria_rep 0 ((\<lambda>cf. if cf \<in> db_ListCFs r then Some Map.empty else None)(AuthCF \<mapsto> m'))
       (auth_run env (scoria_cfdb ord ks opener close_ok no_faults) ops r)" "accounts_ok m'"
    by (simp del: fun_upd_apply) blast
  show ?thesis
    unfolding scoria.get_user [OF m'(1) fun_upd_same]
    using accounts_okD [OF m'(2), of "normalize_name env name", where 'a = "cf_error + it_error"]
    by (auto simp: user_ok_def)
qed

theorem accounts_stay_well_typed_witness:
  "\<forall>bd. \<exists>r. NewScoriaDBWithOptions True (demo_opener bd) (Some [(AuthCF, True)]) = Inr r \<and>
     auth_GetUser demo_env (scoria_cfdb (\<lambda>xs. xs) (\<lambda>_. ([], [])) (demo_opener bd) True no_faults) ''ann''
       (auth_run demo_env (scoria_cfdb (\<lambda>xs. xs) (\<lambda>_. ([], [])) (demo_opener bd) True no_faults)
         [CreateOp 0 5 ''ann'' ''pw'' (Some [''admin'']), RolesOp ''ANN'' (Some [''readonly'']), RolesOp ''ann'' (Some [''root'']), PasswordOp 1 ''ann'' ''pw''] r) \<in>
       insert (Inl AuUserNotFound) (Inr ` {u. \<forall>r \<in> set (roles_of (us_Roles u)). isValidRole r})"
proof
  fix bd
  obtain r where r: "NewScoriaDBWithOptions True (demo_opener bd) (Some [(AuthCF, True)]) = Inr r"
    "db_ListCFs r = {''default'', AuthCF}"
    by (rule auth_db [of 0 bd]) simp_all
  have ops: "\<forall>op \<in> set [CreateOp 0 5 ''ann'' ''pw'' (Some [''admin'']), RolesOp ''ANN'' (Some [''readonly'']), RolesOp ''ann'' (Some [''root'']), PasswordOp 1 ''ann'' ''pw''].
      op_small demo_env op"
    using demo_names by (simp add: roles_of_def int64_def)
  have "AuthCF \<in> db_ListCFs r" using r(2) by simp
  from accounts_stay_well_typed [OF demo_opens r(1) this _ ops demo_env_short] r(1)
  show "\<exists>r. NewScoriaDBWithOptions True (demo_opener bd) (Some [(AuthCF, True)]) = Inr r \<and>
     auth_GetUser demo_env (scoria_cfdb (\<lambda>xs. xs) (\<lambda>_. ([], [])) (demo_opener bd) True no_faults) ''ann''
       (auth_run demo_env (scoria_cfdb (\<lambda>xs. xs) (\<lambda>_. ([], [])) (demo_opener bd) True no_faults)
         [CreateOp 0 5 ''ann'' ''pw'' (Some [''admin'']), RolesOp ''ANN'' (Some [''readonly'']), RolesOp ''ann'' (Some [''root'']), PasswordOp 1 ''ann'' ''pw''] r) \<in>
       insert (Inl AuUserNotFound) (Inr ` {u. \<forall>r \<in> set (roles_of (us_Roles u)). isValidRole r})"
    by auto
qed

text \<open>
  C36. Changing the password of an account writes back its hash and its roles only: a login with the
  account's own key then compares with the new hash, but the account has lost its name and its
  creation time, and the token is signed for the empty name. Other accounts are as before.
\<close>

theorem password_change_drops_the_name:
  fixes M :: "string \<Rightarrow> (bytes \<Rightarrow> bytes option) option"
  assumes rep: "scoria_rep (Suc n) M r" and cf: "M AuthCF = Some m"
    and u: "auth_GetUser env (scoria_cfdb ord ks opener close_ok no_faults) name r = Inr u" "user_ok u"
    and name: "ascii name" "normalize_name env name = name" "length name \<le> 4096" and pw: "pw \<noteq> []"
    and hash: "ae_generate env salt (str_bytes pw) = Some h" "short_hashes env"
  shows "\<exists>r'. auth_ChangePassword env (scoria_cfdb ord ks opener close_ok no_faults) salt name pw r = (None, r') \<and>
    auth_GetUser env (scoria_cfdb ord ks opener close_ok no_faults) name r' =
      Inr \<lparr>us_Username = [], us_PasswordHash = h, us_Roles = us_Roles u, us_CreatedAt = 0\<rparr> \<and>
    (\<forall>now pw' key. auth_Authenticate env (scoria_cfdb ord ks opener close_ok no_faults) now name pw' key r' =
      (if ae_compare env (str_bytes h) (str_bytes pw') then
         (case ae_sign env key \<lparr>cl_Username = [], cl_Roles = us_Roles u, cl_ExpiresAt = now + 86400, cl_IssuedAt = now\<rparr> of
            None \<Rightarrow> Inl AuSign | Some token \<Rightarrow> Inr token)
       else Inl AuInvalidCredentials)) \<and>
    (\<forall>name'. normalize_name env name' \<noteq> name \<longrightarrow>
       auth_GetUser env (scoria_cfdb ord ks opener close_ok no_faults) name' r' =
       auth_GetUser env (scoria_cfdb ord ks opener close_ok no_faults) name' r)"
proof -
  let ?db = "scoria_cfdb ord ks opener close_ok no_faults"
  have su: "stored_user m name = (Inr u :: (cf_error + it_error) auth_error + user)"
    using u(1) unfolding scoria.get_user [OF rep cf] name(2) .
  from scoria.change_password [OF rep cf pw su hash(1) u(2) short_hashesD [OF hash(2,1)] name(3)]
  obtain r' v where r': "auth_ChangePassword env ?db salt name pw r = (None, r')" "v \<noteq> []"
    "unmarshal_user v = Some (renamed u h)" "scoria_rep n (M(AuthCF \<mapsto> m(userKey name \<mapsto> v))) r'"
    by blast
  note get = scoria.get_user [OF r'(4) fun_upd_same, of env ord ks opener close_ok]
  have st: "stored_user (m(userKey name \<mapsto> v)) name = (Inr (renamed u h) :: (cf_error + it_error) auth_error + user)"
    using r'(2,3) by (simp add: stored_user_def slice_of_def)
  have "auth_Authenticate env ?db now name pw' key r' =
      (if ae_compare env (str_bytes h) (str_bytes pw') then
         (case ae_sign env key \<lparr>cl_Username = [], cl_Roles = us_Roles u, cl_ExpiresAt = now + 86400, cl_IssuedAt = now\<rparr> of
            None \<Rightarrow> Inl AuSign | Some token \<Rightarrow> Inr token)
       else Inl AuInvalidCredentials)" for now pw' key
    unfolding scoria.authenticate [OF r'(4) fun_upd_same name(1)] name(2) st
    by (simp add: token_for_def renamed_def)
  moreover have "auth_GetUser env ?db name' r' = auth_GetUser env ?db name' r" if "normalize_name env name' \<noteq> name" for name'
    using that by (simp add: get scoria.get_user [OF rep cf] stored_other del: fun_upd_apply)
  moreover have "auth_GetUser env ?db name r' =
      Inr \<lparr>us_Username = [], us_PasswordHash = h, us_Roles = us_Roles u, us_CreatedAt = 0\<rparr>"
    unfolding get name(2) st renamed_def ..
  ultimately show ?thesis using r'(1) by blast
qed

text \<open>After a change of its password, \<open>ann\<close> is an account without a name.\<close>

theorem password_change_drops_the_name_witness:
  "\<forall>bd. \<exists>r r'. auth_GetUser demo_env (scoria_cfdb (\<lambda>xs. xs) (\<lambda>_. ([], [])) (demo_opener bd) True no_faults) ''ann'' r =
       Inr (new_user demo_env ''ann'' ''$pw'' (Some [''admin'']) 5) \<and>
     auth_ChangePassword demo_env (scoria_cfdb (\<lambda>xs. xs) (\<lambda>_. ([], [])) (demo_opener bd) True no_faults) 1 ''ann'' ''pw'' r = (None, r') \<and>
     auth_GetUser demo_env (scoria_cfdb (\<lambda>xs. xs) (\<lambda>_. ([], [])) (demo_opener bd) True no_faults) ''ann'' r' =
       Inr \<lparr>us_Username = [], us_PasswordHash = ''$pw'', us_Roles = Some [''admin''], us_CreatedAt = 0\<rparr>"
proof
  fix bd
  obtain r where r: "scoria_rep (Suc (Suc 0)) (\<lambda>cf. if cf \<in> {''default'', AuthCF} then Some Map.empty else None) r"
    by (rule auth_db [of "Suc (Suc 0)" bd]) simp_all
  have cf: "(\<lambda>cf. if cf \<in> {''default'', AuthCF} then Some (Map.empty :: bytes \<Rightarrow> bytes option) else None) AuthCF = Some Map.empty" by simp
  let ?db = "scoria_cfdb (\<lambda>xs. xs) (\<lambda>_. ([], [])) (demo_opener bd) True no_faults"
  let ?u = "new_user demo_env ''ann'' ''$pw'' (Some [''admin'']) 5"
  have ok: "user_ok ?u" by (simp add: user_ok_def new_user_def demo_names roles_of_def isValidRole_def RoleAdmin_def int64_def)
  have "put_fits (userKey (normalize_name demo_env ''ann'')) (marshal_user ?u)"
    using ok by (intro account_fits length_marshal_user) (simp_all add: demo_names)
  note fits = this
  have pre: "ascii ''ann''" "''ann'' \<noteq> []" "''pw'' \<noteq> []" "\<forall>r \<in> set (roles_of (Some [''admin''])). isValidRole r"
    using demo_names by (simp_all add: roles_of_def isValidRole_def RoleAdmin_def)
  from scoria.create_user [OF r cf pre no_user demo_generate fits, where salt = 0 and ord = "\<lambda>xs. xs" and ks = "\<lambda>_. ([], [])"
      and opener = "demo_opener bd" and close_ok = True]
  obtain r1 where r1: "scoria_rep (Suc 0) ((\<lambda>cf. if cf \<in> {''default'', AuthCF} then Some Map.empty else None)
      (AuthCF \<mapsto> Map.empty(userKey (normalize_name demo_env ''ann'') \<mapsto> marshal_user ?u))) r1"
    by (elim exE conjE) (rule that)
  have get: "auth_GetUser demo_env ?db ''ann'' r1 = Inr ?u"
    unfolding scoria.get_user [OF r1 fun_upd_same] by (rule stored_marshal) (simp add: new_user_def int64_def)
  have "us_Roles ?u = Some [''admin'']" by (simp add: new_user_def)
  with password_change_drops_the_name [OF r1 fun_upd_same get ok _ demo_names(4) _ _ demo_generate demo_env_short] get demo_names(1)
  show "\<exists>r r'. auth_GetUser demo_env ?db ''ann'' r = Inr ?u \<and>
     auth_ChangePassword demo_env ?db 1 ''ann'' ''pw'' r = (None, r') \<and>
     auth_GetUser demo_env ?db ''ann'' r' = Inr \<lparr>us_Username = [], us_PasswordHash = ''$pw'', us_Roles = Some [''admin''], us_CreatedAt = 0\<rparr>"
    by (simp only: list.size) fastforce
qed

section \<open>Roles of a name that is not normalized\<close>

text \<open>
  An update of the roles of an existing account, given under a spelling that differs from the
  normalized one, reports success and changes the roles of no account that a lookup finds: it writes a
  second record, under the spelling (\<^verbatim>\<open>auth.go:245\<close>).
\<close>

theorem update_roles_of_another_spelling:
  fixes M :: "string \<Rightarrow> (bytes \<Rightarrow> bytes option) option"
  assumes rep: "scoria_rep (Suc n) M r" and cf: "M AuthCF = Some m"
    and u: "auth_GetUser env (scoria_cfdb ord ks opener close_ok no_faults) name r = Inr u" "user_ok u"
    and roles: "\<forall>r \<in> set (roles_of roles). isValidRole r" "length (roles_of roles) \<le> 4096"
    and name: "normalize_name env name \<noteq> name" "length name \<le> 4096"
  shows "\<exists>r'. auth_UpdateUserRoles env (scoria_cfdb ord ks opener close_ok no_faults) name roles r = (None, r') \<and>
    cf_GetCF (scoria_cfdb ord ks opener close_ok no_faults) AuthCF (userKey name) r' =
      Inr (Some (marshal_user (u\<lparr>us_Roles := roles\<rparr>))) \<and>
    (\<forall>name'. ascii name' \<longrightarrow>
       auth_GetUser env (scoria_cfdb ord ks opener close_ok no_faults) name' r' =
       auth_GetUser env (scoria_cfdb ord ks opener close_ok no_faults) name' r)"
proof -
  let ?db = "scoria_cfdb ord ks opener close_ok no_faults" and ?v = "marshal_user (u\<lparr>us_Roles := roles\<rparr>)"
  have su: "stored_user m (normalize_name env name) = (Inr u :: (cf_error + it_error) auth_error + user)"
    using u(1) unfolding scoria.get_user [OF rep cf] .
  have "user_ok (u\<lparr>us_Roles := roles\<rparr>)" using u(2) roles by (simp add: user_ok_def)
  from scoria.update_roles [OF rep cf su roles(1) this name(2)] obtain r' where
    r': "auth_UpdateUserRoles env ?db name roles r = (None, r')" "scoria_rep n (M(AuthCF \<mapsto> m(userKey name \<mapsto> ?v))) r'"
    by blast
  have "auth_GetUser env ?db name' r' = auth_GetUser env ?db name' r" if "ascii name'" for name'
  proof -
    have "normalize_name env name' \<noteq> name" using normalize_idem [OF that, of env] name(1) by auto
    then show ?thesis
      by (simp add: scoria.get_user [OF r'(2) fun_upd_same] scoria.get_user [OF rep cf] stored_other del: fun_upd_apply)
  qed
  moreover have "cf_GetCF ?db AuthCF (userKey name) r' = Inr (Some ?v)"
    using scoria.get_open [OF r'(2) fun_upd_same, where k = "userKey name"] by simp
  ultimately show ?thesis using r'(1) by blast
qed

end
