(* ===== verification/Rest.thy ===== *)
theory Rest
  imports AuthProofs
begin

text \<open>
  Models \<^verbatim>\<open>internal/api/rest/server.go\<close> and \<^verbatim>\<open>internal/auth/rest_middleware.go\<close>: requests,
  responses, routes, handlers and the check of tokens and roles before them. A handler gives the
  response, or \<open>None\<close> when it panics (the connection is dropped), and the new database. What one call
  reads from its surroundings (salt, clock, texts of errors) is a record of its own.
\<close>

section \<open>Requests and responses\<close>

record http_request =
  rq_Method :: string
  rq_Path :: string
  rq_CF :: string
  rq_Authorization :: string
  rq_Body :: bytes

record http_response =
  rs_Header :: "(string \<times> string) list"
  rs_Status :: nat
  rs_Body :: string

record 'e host =
  ho_env :: auth_env
  ho_salt :: nat
  ho_now :: int
  ho_err :: "'e \<Rightarrow> string"
  ho_auth_err :: "'e auth_error \<Rightarrow> string"

text \<open>What the REST and the gRPC server keep of the database and the configuration.\<close>

record ('d, 'e, 't) api_server =
  sv_db :: "('d, 'e, 't) cfdb"
  sv_jwtSecret :: bytes

definition str_HasPrefix :: "string \<Rightarrow> string \<Rightarrow> bool" where
  "str_HasPrefix s p \<longleftrightarrow> take (length p) s = p"

definition str_HasSuffix :: "string \<Rightarrow> string \<Rightarrow> bool" where
  "str_HasSuffix s p \<longleftrightarrow> length p \<le> length s \<and> drop (length s - length p) s = p"

text \<open>The texts written are always encodable, so \<^verbatim>\<open>writeJSON\<close> has no failing branch here.\<close>

definition writeJSON :: "(string \<times> string) list \<Rightarrow> nat \<Rightarrow> json \<Rightarrow> http_response" where
  "writeJSON hs status data =
     \<lparr>rs_Header = hs @ [(''Content-Type'', ''application/json'')], rs_Status = status, rs_Body = to_json data @ [CHR 0x0A]\<rparr>"

definition writeError :: "(string \<times> string) list \<Rightarrow> nat \<Rightarrow> string \<Rightarrow> string \<Rightarrow> http_response" where
  "writeError hs status code message =
     \<lparr>rs_Header = hs @ [(''Content-Type'', ''application/json'')], rs_Status = status,
      rs_Body = to_json (JObj [(''code'', JStr code), (''message'', JStr message)]) @ [CHR 0x0A]\<rparr>"

definition http_Error :: "(string \<times> string) list \<Rightarrow> string \<Rightarrow> nat \<Rightarrow> http_response" where
  "http_Error hs message status =
     \<lparr>rs_Header = hs @ [(''Content-Type'', ''text/plain; charset=utf-8''), (''X-Content-Type-Options'', ''nosniff'')],
      rs_Status = status, rs_Body = message @ [CHR 0x0A]\<rparr>"

definition default_cf :: "string \<Rightarrow> string" where
  "default_cf cf = (if cf = [] then ''default'' else cf)"

section \<open>Request bodies\<close>

text \<open>A field of a struct that takes a string, and a struct as a fold over the fields of an object.\<close>

definition text_field ::
    "string \<Rightarrow> ('a \<Rightarrow> string) \<Rightarrow> ((string \<Rightarrow> string) \<Rightarrow> 'a \<Rightarrow> 'a) \<Rightarrow> string \<times> json \<Rightarrow> 'a option \<Rightarrow> 'a option" where
  "text_field name sel upd f acc =
     (case acc of
        None \<Rightarrow> None
      | Some r \<Rightarrow> if fold_name (fst f) = name then map_option (\<lambda>s. upd (\<lambda>_. s) r) (json_string (snd f) (sel r)) else Some r)"

definition struct_of_json :: "(string \<times> json \<Rightarrow> 'a option \<Rightarrow> 'a option) \<Rightarrow> 'a \<Rightarrow> json \<Rightarrow> 'a option" where
  "struct_of_json field zero v =
     (case v of JObj fs \<Rightarrow> fold field fs (Some zero) | JNull \<Rightarrow> Some zero | _ \<Rightarrow> None)"

definition decode_body :: "(string \<times> json \<Rightarrow> 'a option \<Rightarrow> 'a option) \<Rightarrow> 'a \<Rightarrow> bytes \<Rightarrow> 'a option" where
  "decode_body field zero body = Option.bind (json_Decode body) (struct_of_json field zero)"

record put_req =
  pr_Value :: string
  pr_CF :: string

definition decode_put :: "bytes \<Rightarrow> put_req option" where
  "decode_put = decode_body
     (\<lambda>f. text_field ''cf'' pr_CF pr_CF_update f \<circ> text_field ''value'' pr_Value pr_Value_update f)
     \<lparr>pr_Value = [], pr_CF = []\<rparr>"

record scan_req =
  sr_Prefix :: string
  sr_CF :: string

definition decode_scan :: "bytes \<Rightarrow> scan_req option" where
  "decode_scan = decode_body
     (\<lambda>f. text_field ''cf'' sr_CF sr_CF_update f \<circ> text_field ''prefix'' sr_Prefix sr_Prefix_update f)
     \<lparr>sr_Prefix = [], sr_CF = []\<rparr>"

record json_op =
  jo_Op :: string
  jo_Key :: string
  jo_Value :: string

definition json_op_of :: "json \<Rightarrow> json_op option" where
  "json_op_of = struct_of_json
     (\<lambda>f. text_field ''value'' jo_Value jo_Value_update f \<circ> text_field ''key'' jo_Key jo_Key_update f \<circ>
        text_field ''op'' jo_Op jo_Op_update f)
     \<lparr>jo_Op = [], jo_Key = [], jo_Value = []\<rparr>"

definition decode_batch :: "bytes \<Rightarrow> json_op list option" where
  "decode_batch = decode_body
     (\<lambda>f acc. case acc of
        None \<Rightarrow> None
      | Some ops \<Rightarrow>
          if fold_name (fst f) = ''ops'' then
            (case snd f of JArr xs \<Rightarrow> those (map json_op_of xs) | JNull \<Rightarrow> Some [] | _ \<Rightarrow> None)
          else Some ops) []"

record user_req =
  ur_Username :: string
  ur_Password :: string
  ur_Roles :: "string list option"

definition user_req_field :: "string \<times> json \<Rightarrow> user_req option \<Rightarrow> user_req option" where
  "user_req_field f = text_field ''password'' ur_Password ur_Password_update f \<circ>
     text_field ''username'' ur_Username ur_Username_update f"

definition decode_login :: "bytes \<Rightarrow> user_req option" where
  "decode_login = decode_body user_req_field \<lparr>ur_Username = [], ur_Password = [], ur_Roles = None\<rparr>"

definition decode_new_user :: "bytes \<Rightarrow> user_req option" where
  "decode_new_user = decode_body
     (\<lambda>f acc. case user_req_field f acc of
        None \<Rightarrow> None
      | Some r \<Rightarrow> if fold_name (fst f) = ''roles'' then map_option (\<lambda>rs. r\<lparr>ur_Roles := rs\<rparr>) (json_strings (snd f)) else Some r)
     \<lparr>ur_Username = [], ur_Password = [], ur_Roles = None\<rparr>"

section \<open>Handlers\<close>

definition handleGet ::
    "('d, 'e, 't) api_server \<Rightarrow> 'e host \<Rightarrow> (string \<times> string) list \<Rightarrow> http_request \<Rightarrow> string \<Rightarrow> 'd \<Rightarrow> http_response" where
  "handleGet s ho hs r key d =
     (let cf = default_cf (rq_CF r) in
      case cf_GetCF (sv_db s) cf (str_bytes key) d of
        Inl err \<Rightarrow> writeError hs 500 ''INTERNAL_ERROR'' (''failed to get key: '' @ ho_err ho err)
      | Inr val \<Rightarrow>
          if slice_of val = [] then writeError hs 404 ''NOT_FOUND'' ''key not found''
          else writeJSON hs 200
            (JObj [(''cf'', JStr cf), (''key'', JStr key), (''value'', JStr (bytes_str (slice_of val)))]))"

definition handlePut ::
    "('d, 'e, 't) api_server \<Rightarrow> 'e host \<Rightarrow> (string \<times> string) list \<Rightarrow> http_request \<Rightarrow> string \<Rightarrow> 'd \<Rightarrow> http_response \<times> 'd" where
  "handlePut s ho hs r key d =
     (case decode_put (rq_Body r) of
        None \<Rightarrow> (writeError hs 400 ''BAD_REQUEST'' ''invalid JSON body'', d)
      | Some req \<Rightarrow>
          let cf = default_cf (pr_CF req) in
          case cf_PutCF (sv_db s) cf (str_bytes key) (str_bytes (pr_Value req)) d of
            (Some err, d) \<Rightarrow> (writeError hs 500 ''INTERNAL_ERROR'' (''failed to put key: '' @ ho_err ho err), d)
          | (None, d) \<Rightarrow>
              (writeJSON hs 200 (JObj [(''cf'', JStr cf), (''key'', JStr key), (''status'', JStr ''ok'')]), d))"

definition handleDelete ::
    "('d, 'e, 't) api_server \<Rightarrow> 'e host \<Rightarrow> (string \<times> string) list \<Rightarrow> http_request \<Rightarrow> string \<Rightarrow> 'd \<Rightarrow> http_response \<times> 'd" where
  "handleDelete s ho hs r key d =
     (let cf = default_cf (rq_CF r) in
      case cf_DeleteCF (sv_db s) cf (str_bytes key) d of
        (Some err, d) \<Rightarrow> (writeError hs 500 ''INTERNAL_ERROR'' (''failed to delete key: '' @ ho_err ho err), d)
      | (None, d) \<Rightarrow>
          (writeJSON hs 200 (JObj [(''cf'', JStr cf), (''key'', JStr key), (''status'', JStr ''deleted'')]), d))"

text \<open>An iterator that panics takes the handler with it.\<close>

definition handleScan ::
    "('d, 'e, 't) api_server \<Rightarrow> 'e host \<Rightarrow> (string \<times> string) list \<Rightarrow> http_request \<Rightarrow> 'd \<Rightarrow> http_response option" where
  "handleScan s ho hs r d =
     (case decode_scan (rq_Body r) of
        None \<Rightarrow> Some (writeError hs 400 ''BAD_REQUEST'' ''invalid JSON body'')
      | Some req \<Rightarrow>
          let cf = default_cf (sr_CF req) in
          case cf_ScanCF (sv_db s) cf (str_bytes (sr_Prefix req)) d of
            None \<Rightarrow> None
          | Some (kvs, Some err) \<Rightarrow> Some (writeError hs 500 ''INTERNAL_ERROR'' (''scan iteration error: '' @ ho_err ho err))
          | Some (kvs, None) \<Rightarrow> Some (writeJSON hs 200
              (JObj [(''cf'', JStr cf),
                 (''items'', JArr (map (\<lambda>(k, v). JObj [(''key'', JStr (bytes_str (slice_of k))), (''value'', JStr (bytes_str (slice_of v)))]) kvs)),
                 (''prefix'', JStr (sr_Prefix req))])))"

fun batch_loop ::
    "('d, 'e, 't) api_server \<Rightarrow> 'e host \<Rightarrow> (string \<times> string) list \<Rightarrow> string \<Rightarrow> json_op list \<Rightarrow> 'd \<Rightarrow> http_response \<times> 'd" where
  "batch_loop s ho hs cf [] d = (writeJSON hs 200 (JObj [(''status'', JStr ''ok'')]), d)"
| "batch_loop s ho hs cf (b # bs) d =
     (if jo_Op b = ''put'' then
        (case cf_PutCF (sv_db s) cf (str_bytes (jo_Key b)) (str_bytes (jo_Value b)) d of
           (Some err, d) \<Rightarrow> (writeError hs 500 ''INTERNAL_ERROR'' (''failed to put: '' @ ho_err ho err), d)
         | (None, d) \<Rightarrow> batch_loop s ho hs cf bs d)
      else if jo_Op b = ''delete'' then
        (case cf_DeleteCF (sv_db s) cf (str_bytes (jo_Key b)) d of
           (Some err, d) \<Rightarrow> (writeError hs 500 ''INTERNAL_ERROR'' (''failed to delete: '' @ ho_err ho err), d)
         | (None, d) \<Rightarrow> batch_loop s ho hs cf bs d)
      else (writeError hs 400 ''BAD_REQUEST'' (''unknown operation: '' @ jo_Op b), d))"

definition handleBatch ::
    "('d, 'e, 't) api_server \<Rightarrow> 'e host \<Rightarrow> (string \<times> string) list \<Rightarrow> http_request \<Rightarrow> 'd \<Rightarrow> http_response \<times> 'd" where
  "handleBatch s ho hs r d =
     (case decode_batch (rq_Body r) of
        None \<Rightarrow> (writeError hs 400 ''BAD_REQUEST'' ''invalid JSON body'', d)
      | Some ops \<Rightarrow> batch_loop s ho hs (default_cf (rq_CF r)) ops d)"

definition handleLogin ::
    "('d, 'e, 't) api_server \<Rightarrow> 'e host \<Rightarrow> (string \<times> string) list \<Rightarrow> http_request \<Rightarrow> 'd \<Rightarrow> http_response" where
  "handleLogin s ho hs r d =
     (case decode_login (rq_Body r) of
        None \<Rightarrow> writeError hs 400 ''BAD_REQUEST'' ''invalid JSON body''
      | Some req \<Rightarrow>
          (case auth_Authenticate (ho_env ho) (sv_db s) (ho_now ho) (ur_Username req) (ur_Password req) (sv_jwtSecret s) d of
             Inl err \<Rightarrow>
               if err = AuUserNotFound \<or> err = AuInvalidCredentials
               then writeError hs 401 ''UNAUTHORIZED'' ''invalid username or password''
               else writeError hs 500 ''INTERNAL_ERROR'' (ho_auth_err ho err)
           | Inr token \<Rightarrow> writeJSON hs 200 (JObj [(''token'', JStr token)])))"

definition handleListUsers ::
    "('d, 'e, 't) api_server \<Rightarrow> 'e host \<Rightarrow> (string \<times> string) list \<Rightarrow> 'd \<Rightarrow> http_response option" where
  "handleListUsers s ho hs d =
     (case auth_ListUsers (sv_db s) d of
        Inl err \<Rightarrow> if err = AuScanPanic then None else Some (writeError hs 500 ''INTERNAL_ERROR'' (ho_auth_err ho err))
      | Inr users \<Rightarrow>
          Some (writeJSON hs 200 (JObj [(''users'', if users = [] then JNull else JArr (map user_json users))])))"

definition handleCreateUser ::
    "('d, 'e, 't) api_server \<Rightarrow> 'e host \<Rightarrow> (string \<times> string) list \<Rightarrow> http_request \<Rightarrow> 'd \<Rightarrow> http_response \<times> 'd" where
  "handleCreateUser s ho hs r d =
     (case decode_new_user (rq_Body r) of
        None \<Rightarrow> (writeError hs 400 ''BAD_REQUEST'' ''invalid JSON body'', d)
      | Some req \<Rightarrow>
          (case auth_CreateUser (ho_env ho) (sv_db s) (ho_salt ho) (ho_now ho) (ur_Username req) (ur_Password req) (ur_Roles req) d of
             (Some err, d) \<Rightarrow>
               (if err = AuUserExists then writeError hs 409 ''CONFLICT'' ''user already exists''
                else if err = AuInvalidCredentials then writeError hs 400 ''BAD_REQUEST'' ''invalid credentials''
                else writeError hs 500 ''INTERNAL_ERROR'' (ho_auth_err ho err), d)
           | (None, d) \<Rightarrow> (writeJSON hs 201 (JObj [(''status'', JStr ''created'')]), d)))"

section \<open>Routes\<close>

definition cors :: "(string \<times> string) list" where
  "cors =
     [(''Access-Control-Allow-Origin'', ''*''), (''Access-Control-Allow-Methods'', ''GET, PUT, DELETE, POST, OPTIONS''),
      (''Access-Control-Allow-Headers'', ''Content-Type, Authorization'')]"

definition only :: "http_response \<times> 'd \<Rightarrow> http_response option \<times> 'd" where
  "only x = (Some (fst x), snd x)"

definition ServeHTTP ::
    "('d, 'e, 't) api_server \<Rightarrow> 'e host \<Rightarrow> http_request \<Rightarrow> 'd \<Rightarrow> http_response option \<times> 'd" where
  "ServeHTTP s ho r d =
     (if rq_Method r = ''OPTIONS'' then (Some \<lparr>rs_Header = cors, rs_Status = 200, rs_Body = []\<rparr>, d)
      else if rq_Path r = ''/health'' \<and> rq_Method r = ''GET'' then
        (Some \<lparr>rs_Header = cors @ [(''Content-Type'', ''application/json'')], rs_Status = 200,
               rs_Body = to_json (JObj [(''status'', JStr ''ok'')])\<rparr>, d)
      else if rq_Path r = ''/api/v1/kv/batch'' \<and> rq_Method r = ''POST'' then only (handleBatch s ho cors r d)
      else if rq_Path r = ''/api/v1/kv/scan'' \<and> rq_Method r = ''POST'' then (handleScan s ho cors r d, d)
      else if str_HasPrefix (rq_Path r) ''/api/v1/kv/'' \<and> drop 11 (rq_Path r) \<noteq> [] then
        (let key = drop 11 (rq_Path r) in
         if rq_Method r = ''GET'' then (Some (handleGet s ho cors r key d), d)
         else if rq_Method r = ''PUT'' then only (handlePut s ho cors r key d)
         else if rq_Method r = ''DELETE'' then only (handleDelete s ho cors r key d)
         else (Some (http_Error cors ''Method not allowed'' 405), d))
      else if rq_Path r = ''/api/v1/auth/login'' \<and> rq_Method r = ''POST'' then (Some (handleLogin s ho cors r d), d)
      else if rq_Path r = ''/api/v1/admin/users'' \<and> rq_Method r = ''GET'' then (handleListUsers s ho cors d, d)
      else if rq_Path r = ''/api/v1/admin/users'' \<and> rq_Method r = ''POST'' then only (handleCreateUser s ho cors r d)
      else (Some (http_Error cors ''404 page not found'' 404), d))"

section \<open>The check before the handlers\<close>

definition getErrorCode :: "nat \<Rightarrow> string" where
  "getErrorCode status =
     (if status = 401 then ''UNAUTHORIZED'' else if status = 403 then ''FORBIDDEN'' else ''AUTH_ERROR'')"

definition writeAuthError :: "nat \<Rightarrow> string \<Rightarrow> http_response" where
  "writeAuthError status message =
     \<lparr>rs_Header = [(''Content-Type'', ''application/json'')], rs_Status = status,
      rs_Body = [CHR ''{'', CHR 0x22] @ ''code'' @ [CHR 0x22, CHR '':'', CHR 0x22] @ getErrorCode status @
        [CHR 0x22, CHR '','', CHR 0x22] @ ''message'' @ [CHR 0x22, CHR '':'', CHR 0x22] @ message @ [CHR 0x22, CHR ''}'']\<rparr>"

definition hasRequiredRoleForPath :: "string \<Rightarrow> string \<Rightarrow> string list \<Rightarrow> bool" where
  "hasRequiredRoleForPath path meth userRoles =
     (let any = (\<lambda>required. \<exists>r \<in> set userRoles. \<exists>q \<in> set required. r = q) in
      if str_HasPrefix path ''/api/v1/kv/'' then
        (if meth = ''GET'' then any [RoleReadOnly, RoleReadWrite, RoleAdmin]
         else if meth = ''PUT'' \<or> meth = ''DELETE'' then any [RoleReadWrite, RoleAdmin]
         else if meth = ''POST'' then
           (if path = ''/api/v1/kv/scan'' then any [RoleReadOnly, RoleReadWrite, RoleAdmin]
            else any [RoleReadWrite, RoleAdmin])
         else any [RoleAdmin])
      else if path = ''/api/v1/auth/login'' then True
      else any [RoleAdmin])"

text \<open>The claims added to the context are not read by the handlers above.\<close>

definition AuthMiddleware ::
    "bytes \<Rightarrow> string set \<Rightarrow> ('e host \<Rightarrow> http_request \<Rightarrow> 'd \<Rightarrow> http_response option \<times> 'd) \<Rightarrow>
     'e host \<Rightarrow> http_request \<Rightarrow> 'd \<Rightarrow> http_response option \<times> 'd" where
  "AuthMiddleware jwtSecret skipPaths serve ho r d =
     (if rq_Path r \<in> skipPaths then serve ho r d
      else if rq_Authorization r = [] then (Some (writeAuthError 401 ''missing authorization header''), d)
      else
        let tokenStr = extractBearerToken (ho_env ho) (rq_Authorization r) in
        if tokenStr = [] then (Some (writeAuthError 401 ''invalid authorization header format''), d)
        else
          (case (ValidateToken (ho_env ho) (ho_now ho) tokenStr jwtSecret :: 'e auth_error + claims) of
             Inl err \<Rightarrow> (Some (writeAuthError 401 ''invalid token''), d)
           | Inr claims \<Rightarrow>
               if \<not> hasRequiredRoleForPath (rq_Path r) (rq_Method r) (roles_of (cl_Roles claims))
               then (Some (writeAuthError 403 ''insufficient privileges''), d)
               else serve ho r d))"

text \<open>
  The server as \<^verbatim>\<open>cmd/server/main.go\<close> puts it together. \<open>rest_api\<close> is the handler mounted under
  \<^verbatim>\<open>/api/\<close>; \<open>server_mux\<close> is the multiplexer in front of it. What the multiplexer answers on its own
  account, from the escaped form of the path (a redirection to the cleaned path, 404 for an escaped
  slash), is the parameter \<open>own\<close>; no handler is called then.
\<close>

definition skipPaths :: "string set" where
  "skipPaths = {''/api/v1/auth/login'', ''/health'', ''/ready''}"

definition rest_api ::
    "('d, 'e, 't) api_server \<Rightarrow> 'e host \<Rightarrow> http_request \<Rightarrow> 'd \<Rightarrow> http_response option \<times> 'd" where
  "rest_api s = AuthMiddleware (sv_jwtSecret s) skipPaths (ServeHTTP s)"

definition status_body :: "string \<Rightarrow> string" where
  "status_body status = to_json (JObj [(''status'', JStr status)])"

definition healthHandler :: http_response where
  "healthHandler = \<lparr>rs_Header = [(''Content-Type'', ''application/json'')], rs_Status = 200, rs_Body = status_body ''ok''\<rparr>"

definition readyHandler :: "('d, 'e, 't) cfdb \<Rightarrow> 'd \<Rightarrow> http_response" where
  "readyHandler db d =
     (case cf_GetCF db ''default'' (str_bytes ''__scoria_health__'') d of
        Inl err \<Rightarrow> \<lparr>rs_Header = [(''Content-Type'', ''application/json'')], rs_Status = 503, rs_Body = status_body ''not ready''\<rparr>
      | Inr val \<Rightarrow> \<lparr>rs_Header = [(''Content-Type'', ''application/json'')], rs_Status = 200, rs_Body = status_body ''ready''\<rparr>)"

definition server_mux ::
    "(http_request \<Rightarrow> http_response option) \<Rightarrow> ('d, 'e, 't) api_server \<Rightarrow> 'e host \<Rightarrow> http_request \<Rightarrow> 'd \<Rightarrow>
     http_response option \<times> 'd" where
  "server_mux own s ho r d =
     (case own r of
        Some x \<Rightarrow> (Some x, d)
      | None \<Rightarrow>
          if str_HasPrefix (rq_Path r) ''/api/'' then rest_api s ho r d
          else if rq_Path r = ''/health'' then (Some healthHandler, d)
          else if rq_Path r = ''/ready'' then (Some (readyHandler (sv_db s) d), d)
          else (Some (http_Error [] ''404 page not found'' 404), d))"

end
