(* ===== verification/RestProofs.thy ===== *)
theory RestProofs
  imports Rest
begin

text \<open>
  What the REST interface allows to whom: only bearers of a valid token with a writing role change
  the database; and the accounts, which are ordinary keys, are among what they can change.
\<close>

section \<open>Who may change the database\<close>

text \<open>The token of a request is valid and carries the claims.\<close>

definition bears :: "bytes \<Rightarrow> 'e host \<Rightarrow> http_request \<Rightarrow> claims \<Rightarrow> bool" where
  "bears key ho r c \<longleftrightarrow>
     ae_parse (ho_env ho) (\<lambda>hmac. if hmac then Some key else None) (ho_now ho)
       (extractBearerToken (ho_env ho) (rq_Authorization r)) = Some (c, True)"

definition has_role :: "claims \<Rightarrow> string set \<Rightarrow> bool" where
  "has_role c R \<longleftrightarrow> set (roles_of (cl_Roles c)) \<inter> R \<noteq> {}"

lemma ValidateToken_bears:
  "ValidateToken (ho_env ho) (ho_now ho) (extractBearerToken (ho_env ho) (rq_Authorization r)) key =
     (Inr c :: 'e auth_error + claims) \<longleftrightarrow> bears key (ho :: 'e host) r c"
  by (auto simp: ValidateToken_def bears_def split: option.splits if_splits)

lemma kv_prefix: "str_HasPrefix p ''/api/v1/kv/'' \<Longrightarrow> p \<notin> skipPaths \<and> p \<noteq> ''/api/v1/admin/users''"
  by (auto simp: str_HasPrefix_def skipPaths_def)

text \<open>The routes that can change the database.\<close>

lemma ServeHTTP_changes:
  assumes "snd (ServeHTTP s ho r d) \<noteq> d"
  shows "str_HasPrefix (rq_Path r) ''/api/v1/kv/'' \<and>
      (rq_Method r = ''PUT'' \<or> rq_Method r = ''DELETE'' \<or> rq_Method r = ''POST'' \<and> rq_Path r = ''/api/v1/kv/batch'') \<or>
    rq_Path r = ''/api/v1/admin/users'' \<and> rq_Method r = ''POST''"
  using assms by (auto simp: ServeHTTP_def Let_def str_HasPrefix_def split: if_splits)

lemma role_for_change:
  assumes "hasRequiredRoleForPath p meth roles"
    and "str_HasPrefix p ''/api/v1/kv/'' \<and> (meth = ''PUT'' \<or> meth = ''DELETE'' \<or> meth = ''POST'' \<and> p = ''/api/v1/kv/batch'') \<or>
      p = ''/api/v1/admin/users'' \<and> meth = ''POST''"
  shows "set roles \<inter> {RoleReadWrite, RoleAdmin} \<noteq> {}" "p = ''/api/v1/admin/users'' \<Longrightarrow> RoleAdmin \<in> set roles"
  using assms by (auto simp: hasRequiredRoleForPath_def Let_def str_HasPrefix_def)

lemma role_known:
  "hasRequiredRoleForPath p meth roles \<Longrightarrow> p \<notin> skipPaths \<Longrightarrow> set roles \<inter> {RoleReadOnly, RoleReadWrite, RoleAdmin} \<noteq> {}"
  by (auto simp: hasRequiredRoleForPath_def Let_def skipPaths_def split: if_splits)

text \<open>What the middleware does with a path it does not skip.\<close>

lemma rest_api_cases:
  fixes s :: "('d, 'e, 't) api_server" and ho :: "'e host"
  assumes "rq_Path r \<notin> skipPaths"
  obtains (refused) x where "rest_api s ho r d = (Some x, d)" "rs_Status x \<in> {401, 403}"
    | (served) c where "bears (sv_jwtSecret s) ho r c" "hasRequiredRoleForPath (rq_Path r) (rq_Method r) (roles_of (cl_Roles c))"
      "rest_api s ho r d = ServeHTTP s ho r d"
proof (cases "rq_Authorization r = [] \<or> extractBearerToken (ho_env ho) (rq_Authorization r) = []")
  case True
  then have "\<exists>x. rest_api s ho r d = (Some x, d) \<and> rs_Status x \<in> {401, 403}"
    using assms by (auto simp: rest_api_def AuthMiddleware_def writeAuthError_def)
  then show ?thesis using refused by blast
next
  case False
  show ?thesis
  proof (cases "ValidateToken (ho_env ho) (ho_now ho) (extractBearerToken (ho_env ho) (rq_Authorization r)) (sv_jwtSecret s) ::
      'e auth_error + claims")
    case (Inl err)
    then show ?thesis using False assms by (intro refused) (auto simp: rest_api_def AuthMiddleware_def writeAuthError_def)
  next
    case (Inr c)
    then have "bears (sv_jwtSecret s) ho r c" by (simp add: ValidateToken_bears)
    then show ?thesis
    proof (cases "hasRequiredRoleForPath (rq_Path r) (rq_Method r) (roles_of (cl_Roles c))")
      case True
      show ?thesis using Inr False True assms \<open>bears _ ho r c\<close>
        by (intro served) (auto simp: rest_api_def AuthMiddleware_def)
    next
      case no: False
      show ?thesis using Inr False no assms by (intro refused) (auto simp: rest_api_def AuthMiddleware_def writeAuthError_def)
    qed
  qed
qed

text \<open>What the multiplexer lets change the database.\<close>

lemma mux_changes:
  "snd (server_mux own s ho r d) \<noteq> d \<Longrightarrow>
    str_HasPrefix (rq_Path r) ''/api/'' \<and> server_mux own s ho r d = rest_api s ho r d"
  by (auto simp: server_mux_def split: option.splits if_splits)

lemma rest_api_changes:
  assumes "snd (rest_api s ho r d) \<noteq> d"
  shows "\<exists>c. bears (sv_jwtSecret s) ho r c \<and> has_role c {RoleReadWrite, RoleAdmin} \<and>
    (rq_Path r = ''/api/v1/admin/users'' \<longrightarrow> has_role c {RoleAdmin})"
proof (cases "rq_Path r \<in> skipPaths")
  case True
  then have "rest_api s ho r d = ServeHTTP s ho r d" by (simp add: rest_api_def AuthMiddleware_def)
  then have "snd (ServeHTTP s ho r d) \<noteq> d" using assms by simp
  from ServeHTTP_changes [OF this] True show ?thesis by (auto simp: skipPaths_def str_HasPrefix_def)
next
  case False
  then show ?thesis
  proof (cases rule: rest_api_cases [of r s ho d])
    case refused
    then show ?thesis using assms by simp
  next
    case (served c)
    then have "snd (ServeHTTP s ho r d) \<noteq> d" using assms by simp
    then show ?thesis
      using role_for_change [OF served(2) ServeHTTP_changes [of s ho r d]] served(1) by (auto simp: has_role_def)
  qed
qed

text \<open>
  C37. The handler that the server mounts under \<^verbatim>\<open>/api/\<close>, over any database: a request that changes the
  database bears a valid token whose roles include \<open>readwrite\<close> or \<open>admin\<close>, and \<open>admin\<close> when it is
  for the administration of accounts; and every request outside the public paths that bears no
  valid token with a known role is answered 401 or 403 and changes nothing. Behind the multiplexer of
  the server, whatever it answers on its own account, the database changes only by a request under
  \<^verbatim>\<open>/api/\<close> that bears such a token.
\<close>

theorem rest_changes_need_a_writing_role:
  fixes s :: "('d, 'e, 't) api_server"
  shows "(snd (rest_api s ho r d) \<noteq> d \<longrightarrow>
      (\<exists>c. bears (sv_jwtSecret s) ho r c \<and> has_role c {RoleReadWrite, RoleAdmin} \<and>
        (rq_Path r = ''/api/v1/admin/users'' \<longrightarrow> has_role c {RoleAdmin}))) \<and>
    (rq_Path r \<notin> skipPaths \<and>
      \<not> (\<exists>c. bears (sv_jwtSecret s) ho r c \<and> has_role c {RoleReadOnly, RoleReadWrite, RoleAdmin}) \<longrightarrow>
      (\<exists>x. rest_api s ho r d = (Some x, d) \<and> rs_Status x \<in> {401, 403})) \<and>
    (snd (server_mux own s ho r d) \<noteq> d \<longrightarrow>
      str_HasPrefix (rq_Path r) ''/api/'' \<and>
      (\<exists>c. bears (sv_jwtSecret s) ho r c \<and> has_role c {RoleReadWrite, RoleAdmin} \<and>
        (rq_Path r = ''/api/v1/admin/users'' \<longrightarrow> has_role c {RoleAdmin})))"
proof (intro conjI impI)
  assume "snd (rest_api s ho r d) \<noteq> d"
  then show "\<exists>c. bears (sv_jwtSecret s) ho r c \<and> has_role c {RoleReadWrite, RoleAdmin} \<and>
      (rq_Path r = ''/api/v1/admin/users'' \<longrightarrow> has_role c {RoleAdmin})"
    by (rule rest_api_changes)
next
  assume no: "rq_Path r \<notin> skipPaths \<and> \<not> (\<exists>c. bears (sv_jwtSecret s) ho r c \<and> has_role c {RoleReadOnly, RoleReadWrite, RoleAdmin})"
  then have p: "rq_Path r \<notin> skipPaths" ..
  then show "\<exists>x. rest_api s ho r d = (Some x, d) \<and> rs_Status x \<in> {401, 403}"
  proof (cases rule: rest_api_cases [of r s ho d])
    case refused
    then show ?thesis by blast
  next
    case (served c)
    have "has_role c {RoleReadOnly, RoleReadWrite, RoleAdmin}" using role_known [OF served(2) p] by (simp add: has_role_def)
    then show ?thesis using no served(1) by blast
  qed
next
  assume c: "snd (server_mux own s ho r d) \<noteq> d"
  from mux_changes [OF c] show "str_HasPrefix (rq_Path r) ''/api/''" ..
  have "snd (rest_api s ho r d) \<noteq> d" using c unfolding mux_changes [OF c, THEN conjunct2] .
  then show "\<exists>c. bears (sv_jwtSecret s) ho r c \<and> has_role c {RoleReadWrite, RoleAdmin} \<and>
      (rq_Path r = ''/api/v1/admin/users'' \<longrightarrow> has_role c {RoleAdmin})"
    by (rule rest_api_changes)
qed

lemma demo_parse:
  "ae_parse demo_env (\<lambda>hmac. if hmac then Some [75] else None) now token =
     (if take 1 token = ''K''
      then Some (\<lparr>cl_Username = [], cl_Roles = Some [drop 1 token], cl_ExpiresAt = now, cl_IssuedAt = now\<rparr>, True) else None)"
proof -
  have "bytes_str [75] = ''K''" by code_simp
  then show ?thesis by (simp add: demo_env_def)
qed

text \<open>A reader's token does not put a key.\<close>

theorem rest_changes_need_a_writing_role_witness:
  "\<forall>(s :: (registry, cf_error + it_error, db_transaction) api_server) d.
     snd (rest_api (s\<lparr>sv_jwtSecret := [75]\<rparr>)
       \<lparr>ho_env = demo_env, ho_salt = 0, ho_now = 5, ho_err = \<lambda>_. [], ho_auth_err = \<lambda>_. []\<rparr>
       \<lparr>rq_Method = ''PUT'', rq_Path = ''/api/v1/kv/a'', rq_CF = [], rq_Authorization = ''Bearer Kreadonly'', rq_Body = str_bytes ''{}''\<rparr> d) = d \<and>
     (\<exists>x. rest_api (s\<lparr>sv_jwtSecret := [75]\<rparr>)
       \<lparr>ho_env = demo_env, ho_salt = 0, ho_now = 5, ho_err = \<lambda>_. [], ho_auth_err = \<lambda>_. []\<rparr>
       \<lparr>rq_Method = ''PUT'', rq_Path = ''/api/v1/kv/a'', rq_CF = [], rq_Authorization = ''Basic x'', rq_Body = []\<rparr> d = (Some x, d) \<and>
       rs_Status x \<in> {401, 403}) \<and>
     snd (server_mux (\<lambda>_. None) (s\<lparr>sv_jwtSecret := [75]\<rparr>)
       \<lparr>ho_env = demo_env, ho_salt = 0, ho_now = 5, ho_err = \<lambda>_. [], ho_auth_err = \<lambda>_. []\<rparr>
       \<lparr>rq_Method = ''PUT'', rq_Path = ''/api/v1/kv/a'', rq_CF = [], rq_Authorization = ''Bearer Kreadonly'', rq_Body = str_bytes ''{}''\<rparr> d) = d"
proof (intro allI conjI)
  fix s :: "(registry, cf_error + it_error, db_transaction) api_server" and d
  let ?s = "s\<lparr>sv_jwtSecret := [75]\<rparr>"
  let ?ho = "\<lparr>ho_env = demo_env, ho_salt = 0, ho_now = 5, ho_err = \<lambda>_. [], ho_auth_err = \<lambda>_. []\<rparr> :: (cf_error + it_error) host"
  let ?r = "\<lparr>rq_Method = ''PUT'', rq_Path = ''/api/v1/kv/a'', rq_CF = [], rq_Authorization = ''Bearer Kreadonly'', rq_Body = str_bytes ''{}''\<rparr>"
  let ?q = "\<lparr>rq_Method = ''PUT'', rq_Path = ''/api/v1/kv/a'', rq_CF = [], rq_Authorization = ''Basic x'', rq_Body = []\<rparr>"
  have tok: "extractBearerToken demo_env ''Bearer Kreadonly'' = ''Kreadonly''" "extractBearerToken demo_env ''Basic x'' = []"
    by code_simp+
  have "\<not> (\<exists>c. bears [75] ?ho ?r c \<and> has_role c {RoleReadWrite, RoleAdmin})"
    by (auto simp: bears_def tok demo_parse has_role_def roles_of_def RoleReadWrite_def RoleAdmin_def split: if_splits)
  then show "snd (rest_api ?s ?ho ?r d) = d" "snd (server_mux (\<lambda>_. None) ?s ?ho ?r d) = d"
    using rest_changes_need_a_writing_role [of ?s ?ho ?r d "\<lambda>_. None"] by auto
  have "\<not> (\<exists>c. bears [75] ?ho ?q c)" by (simp add: bears_def tok demo_parse)
  then show "\<exists>x. rest_api ?s ?ho ?q d = (Some x, d) \<and> rs_Status x \<in> {401, 403}"
    using rest_changes_need_a_writing_role [of ?s ?ho ?q d] by (auto simp: skipPaths_def)
qed

text \<open>The puts before an operation that is refused stay: a batch is not atomic.\<close>

lemma batch_keeps_its_prefix:
  assumes "cf_PutCF (sv_db s) cf (str_bytes k) (str_bytes v) d = (None, d')" "jo_Op b \<noteq> ''put''" "jo_Op b \<noteq> ''delete''"
  shows "batch_loop s ho hs cf [\<lparr>jo_Op = ''put'', jo_Key = k, jo_Value = v\<rparr>, b] d =
    (writeError hs 400 ''BAD_REQUEST'' (''unknown operation: '' @ jo_Op b), d')"
  using assms by simp

section \<open>Accounts are keys\<close>

lemma req_field_names: "fold_name ''value'' = ''value''" "fold_name ''cf'' = ''cf''" "fold_name ''password'' = ''password''"
  by code_simp+

lemma decode_object:
  "whole (JObj fs) \<Longrightarrow> decode_body field zero (json_Marshal (JObj fs)) = fold field fs (Some zero)"
  using json_roundtrip [of "JObj fs"] by (simp add: decode_body_def struct_of_json_def)

lemma decode_put_body:
  "decode_put (json_Marshal (JObj [(''value'', JStr v), (''cf'', JStr cf)])) = Some \<lparr>pr_Value = v, pr_CF = cf\<rparr>"
  unfolding decode_put_def
  by (subst decode_object) (simp_all add: text_field_def req_field_names del: fold_name.simps)

lemma decode_login_body:
  "decode_login (json_Marshal (JObj [(''username'', JStr name), (''password'', JStr pw)])) =
     Some \<lparr>ur_Username = name, ur_Password = pw, ur_Roles = None\<rparr>"
  unfolding decode_login_def
  by (subst decode_object) (simp_all add: text_field_def user_req_field_def req_field_names field_names del: fold_name.simps)

text \<open>A request that puts the text of an account under its key, and a login.\<close>

definition forge_request :: "string \<Rightarrow> string \<Rightarrow> user \<Rightarrow> http_request" where
  "forge_request auth name u = \<lparr>rq_Method = ''PUT'', rq_Path = ''/api/v1/kv/user:'' @ name, rq_CF = [], rq_Authorization = auth,
     rq_Body = json_Marshal (JObj [(''value'', JStr (to_json (user_json u))), (''cf'', JStr AuthCF)])\<rparr>"

definition login_request :: "string \<Rightarrow> string \<Rightarrow> http_request" where
  "login_request name pw = \<lparr>rq_Method = ''POST'', rq_Path = ''/api/v1/auth/login'', rq_CF = [], rq_Authorization = [],
     rq_Body = json_Marshal (JObj [(''username'', JStr name), (''password'', JStr pw)])\<rparr>"

lemma marshal_text: "str_bytes (to_json (user_json u)) = marshal_user u"
  by (simp add: marshal_user_def json_Marshal_def)

lemma serve_forge:
  "ServeHTTP s ho (forge_request auth name u) d = only (handlePut s ho cors (forge_request auth name u) (''user:'' @ name) d)"
  by (simp add: ServeHTTP_def forge_request_def str_HasPrefix_def Let_def)

lemma api_login: "rest_api s ho (login_request name pw) d = (Some (handleLogin s ho cors (login_request name pw) d), d)"
  by (simp add: rest_api_def AuthMiddleware_def skipPaths_def login_request_def ServeHTTP_def str_HasPrefix_def)

text \<open>
  C38. On the database, a bearer of the role \<open>readwrite\<close> can make itself any account: putting the text
  of an account under its key into the family of the accounts is an ordinary put and is answered
  200, and a login with the password of that account then gives a token for the roles that the
  writer chose, \<open>admin\<close> included.
\<close>

theorem writers_can_forge_accounts:
  fixes M :: "string \<Rightarrow> (bytes \<Rightarrow> bytes option) option"
  assumes rep: "scoria_rep (Suc n) M d" and cf: "M AuthCF = Some m"
    and s: "sv_db s = scoria_cfdb ord ks opener close_ok no_faults"
    and c: "bears (sv_jwtSecret s) ho (forge_request auth name u) c" "has_role c {RoleReadWrite}"
      "extractBearerToken (ho_env ho) auth \<noteq> []"
    and u: "user_ok u" and name: "ascii name" "normalize_name (ho_env ho') name = name" "length name \<le> 4096"
    and pw: "ae_compare (ho_env ho') (str_bytes (us_PasswordHash u)) (str_bytes pw)"
    and sign: "ae_sign (ho_env ho') (sv_jwtSecret s) \<lparr>cl_Username = us_Username u, cl_Roles = us_Roles u,
      cl_ExpiresAt = ho_now ho' + 86400, cl_IssuedAt = ho_now ho'\<rparr> = Some token"
  shows "\<exists>d' x. rest_api s ho (forge_request auth name u) d = (Some x, d') \<and> rs_Status x = 200 \<and>
    rest_api s ho' (login_request name pw) d' = (Some (writeJSON cors 200 (JObj [(''token'', JStr token)])), d')"
proof -
  have auth: "auth \<noteq> []" using c(3) by (auto simp: extractBearerToken_def)
  have "hasRequiredRoleForPath (''/api/v1/kv/user:'' @ name) ''PUT'' (roles_of (cl_Roles c))"
    using c(2) by (auto simp: hasRequiredRoleForPath_def str_HasPrefix_def has_role_def)
  then have api: "rest_api s ho (forge_request auth name u) d = ServeHTTP s ho (forge_request auth name u) d"
    using c(1,3) auth ValidateToken_bears [of ho "forge_request auth name u" "sv_jwtSecret s" c]
    by (simp add: rest_api_def AuthMiddleware_def forge_request_def skipPaths_def)
  have "put_fits (userKey name) (marshal_user u)" using length_marshal_user [OF u] account_fits name(3) by blast
  from scoria.put_open [OF rep cf this, of ord ks opener close_ok] obtain d' where
    d': "cf_PutCF (sv_db s) AuthCF (userKey name) (marshal_user u) d = (None, d')"
      "scoria_rep n (M(AuthCF \<mapsto> m(userKey name \<mapsto> marshal_user u))) d'"
    unfolding s by blast
  have k: "str_bytes (''user:'' @ name) = userKey name" by (simp add: userKey_def)
  have "decode_put (rq_Body (forge_request auth name u)) = Some \<lparr>pr_Value = to_json (user_json u), pr_CF = AuthCF\<rparr>"
    by (simp add: forge_request_def decode_put_body)
  then have "handlePut s ho cors (forge_request auth name u) (''user:'' @ name) d =
      (writeJSON cors 200 (JObj [(''cf'', JStr AuthCF), (''key'', JStr (''user:'' @ name)), (''status'', JStr ''ok'')]), d')"
    using d'(1) k by (simp add: handlePut_def default_cf_def marshal_text AuthCF_def)
  then have put: "\<exists>x. rest_api s ho (forge_request auth name u) d = (Some x, d') \<and> rs_Status x = 200"
    by (simp add: api serve_forge only_def writeJSON_def)
  have "stored_user (m(userKey name \<mapsto> marshal_user u)) name = (Inr u :: (cf_error + it_error) auth_error + user)"
    using u by (intro stored_marshal) (simp add: user_ok_def)
  then have "auth_Authenticate (ho_env ho') (sv_db s) (ho_now ho') name pw (sv_jwtSecret s) d' = Inr token"
    using pw sign unfolding s scoria.authenticate [OF d'(2) fun_upd_same name(1)] name(2)
    by (simp add: token_for_def)
  then have "rest_api s ho' (login_request name pw) d' = (Some (writeJSON cors 200 (JObj [(''token'', JStr token)])), d')"
    unfolding api_login by (simp add: handleLogin_def login_request_def decode_login_body)
  with put show ?thesis by blast
qed

text \<open>The writer becomes the admin \<open>eve\<close>.\<close>

theorem writers_can_forge_accounts_witness:
  "\<forall>bd. \<exists>r x r'. NewScoriaDBWithOptions True (demo_opener bd) (Some [(AuthCF, True)]) = Inr r \<and>
     rest_api \<lparr>sv_db = scoria_cfdb (\<lambda>xs. xs) (\<lambda>_. ([], [])) (demo_opener bd) True no_faults, sv_jwtSecret = [75]\<rparr>
       \<lparr>ho_env = demo_env, ho_salt = 0, ho_now = 5, ho_err = \<lambda>_. [], ho_auth_err = \<lambda>_. []\<rparr>
       (forge_request ''Bearer Kreadwrite'' ''eve'' (new_user demo_env ''eve'' ''$pw'' (Some [''admin'']) 0)) r = (Some x, r') \<and>
     rest_api \<lparr>sv_db = scoria_cfdb (\<lambda>xs. xs) (\<lambda>_. ([], [])) (demo_opener bd) True no_faults, sv_jwtSecret = [75]\<rparr>
       \<lparr>ho_env = demo_env, ho_salt = 0, ho_now = 5, ho_err = \<lambda>_. [], ho_auth_err = \<lambda>_. []\<rparr>
       (login_request ''eve'' ''pw'') r' = (Some (writeJSON cors 200 (JObj [(''token'', JStr ''Kadmin'')])), r')"
proof
  fix bd
  obtain r where r: "NewScoriaDBWithOptions True (demo_opener bd) (Some [(AuthCF, True)]) = Inr r"
    "scoria_rep (Suc 0) (\<lambda>cf. if cf \<in> {''default'', AuthCF} then Some Map.empty else None) r"
    by (rule auth_db [of "Suc 0" bd]) simp_all
  have cf: "(\<lambda>cf. if cf \<in> {''default'', AuthCF} then Some (Map.empty :: bytes \<Rightarrow> bytes option) else None) AuthCF = Some Map.empty" by simp
  let ?db = "scoria_cfdb (\<lambda>xs. xs) (\<lambda>_. ([], [])) (demo_opener bd) True no_faults"
  let ?s = "\<lparr>sv_db = ?db, sv_jwtSecret = [75]\<rparr>"
  let ?ho = "\<lparr>ho_env = demo_env, ho_salt = 0, ho_now = 5, ho_err = \<lambda>_. [], ho_auth_err = \<lambda>_. []\<rparr> :: (cf_error + it_error) host"
  let ?u = "new_user demo_env ''eve'' ''$pw'' (Some [''admin'']) 0"
  let ?c = "\<lparr>cl_Username = [], cl_Roles = Some [''readwrite''], cl_ExpiresAt = 5, cl_IssuedAt = 5\<rparr>"
  have tok: "extractBearerToken demo_env ''Bearer Kreadwrite'' = ''Kreadwrite''" "normalize_name demo_env ''eve'' = ''eve''"
    "ascii ''eve''" by (code_simp, code_simp, code_simp)
  have c: "bears (sv_jwtSecret ?s) ?ho (forge_request ''Bearer Kreadwrite'' ''eve'' ?u) ?c" "has_role ?c {RoleReadWrite}"
    by (simp_all add: bears_def forge_request_def tok demo_parse has_role_def roles_of_def RoleReadWrite_def)
  have u: "user_ok ?u" by (simp add: user_ok_def new_user_def tok roles_of_def isValidRole_def RoleAdmin_def int64_def)
  have pw: "ae_compare (ho_env ?ho) (str_bytes (us_PasswordHash ?u)) (str_bytes ''pw'')"
    by (simp add: demo_env_def new_user_def str_bytes_def)
  have sign: "ae_sign (ho_env ?ho) (sv_jwtSecret ?s) \<lparr>cl_Username = us_Username ?u, cl_Roles = us_Roles ?u,
      cl_ExpiresAt = ho_now ?ho + 86400, cl_IssuedAt = ho_now ?ho\<rparr> = Some ''Kadmin''"
  proof -
    have "bytes_str [75] = ''K''" by code_simp
    then show ?thesis by (simp add: demo_env_def new_user_def roles_of_def)
  qed
  have "sv_db ?s = ?db" "extractBearerToken (ho_env ?ho) ''Bearer Kreadwrite'' \<noteq> []" "normalize_name (ho_env ?ho) ''eve'' = ''eve''"
    "length ''eve'' \<le> 4096"
    using tok by simp_all
  from writers_can_forge_accounts [OF r(2) cf this(1) c this(2) u tok(3) this(3,4) pw sign] r(1)
  show "\<exists>r x r'. NewScoriaDBWithOptions True (demo_opener bd) (Some [(AuthCF, True)]) = Inr r \<and>
     rest_api ?s ?ho (forge_request ''Bearer Kreadwrite'' ''eve'' ?u) r = (Some x, r') \<and>
     rest_api ?s ?ho (login_request ''eve'' ''pw'') r' = (Some (writeJSON cors 200 (JObj [(''token'', JStr ''Kadmin'')])), r')"
    by blast
qed

end
