(* ===== verification/Grpc.thy ===== *)
theory Grpc
  imports RestProofs "HOL-Library.AList"
begin

text \<open>
  Models \<^verbatim>\<open>internal/api/grpc/server.go\<close>, \<^verbatim>\<open>internal/auth/grpc_middleware.go\<close> and how
  \<^verbatim>\<open>cmd/server/main.go\<close> installs them: the calls of the service on the database and the table of open
  transactions, and the interceptors. A call is its request message, a result is a status with a
  message or a reply. The messages come from generated code and are data types here.
\<close>

section \<open>Messages\<close>

datatype grpc_code =
  GUnauthenticated | GPermissionDenied | GNotFound | GInternal | GAborted | GAlreadyExists | GInvalidArgument

record txn_op =
  to_delete :: bool
  to_Key :: bytes
  to_Value :: bytes
  to_CfName :: string

datatype grpc_request =
  GetRequest string bytes int
| PutRequest string bytes bytes
| DeleteRequest string bytes
| BeginTxnRequest
| CommitTxnRequest string "txn_op list"
| RollbackTxnRequest string
| CreateUserRequest string string "string list option"
| ChangePasswordRequest string string
| AuthRequest string string
| CreateCFRequest string
| ListCFRequest
| DeleteCFRequest string
| ListUsersRequest

datatype grpc_reply =
  GetResponse bytes bool
| PutResponse int
| DeleteResponse int
| BeginTxnResponse string int
| CommitTxnResponse
| RollbackTxnResponse
| CreateUserResponse
| ChangePasswordResponse
| AuthResponse string
| CreateCFResponse
| ListCFResponse "string set"
| DeleteCFResponse
| ListUsersResponse "(string \<times> string list option) list"

type_synonym grpc_result = "(grpc_code \<times> string) + grpc_reply"

section \<open>The server\<close>

text \<open>The open transactions are a Go map: entries with distinct names.\<close>

record ('d, 't) grpc_state =
  gs_db :: 'd
  gs_txns :: "(string \<times> 't) list"

definition grpc_NewServer :: "'d \<Rightarrow> ('d, 't) grpc_state" where
  "grpc_NewServer d = \<lparr>gs_db = d, gs_txns = []\<rparr>"

definition grpc_Get ::
    "('d, 'e, 't) api_server \<Rightarrow> 'e host \<Rightarrow> string \<Rightarrow> bytes \<Rightarrow> ('d, 't) grpc_state \<Rightarrow> grpc_result" where
  "grpc_Get s ho cf key st =
     (case cf_GetCF (sv_db s) (default_cf cf) key (gs_db st) of
        Inl err \<Rightarrow> Inl (GInternal, ''failed to get key: '' @ ho_err ho err)
      | Inr val \<Rightarrow> if slice_of val = [] then Inr (GetResponse [] False) else Inr (GetResponse (slice_of val) True))"

definition grpc_Put ::
    "('d, 'e, 't) api_server \<Rightarrow> 'e host \<Rightarrow> string \<Rightarrow> bytes \<Rightarrow> bytes \<Rightarrow> ('d, 't) grpc_state \<Rightarrow>
     grpc_result \<times> ('d, 't) grpc_state" where
  "grpc_Put s ho cf key val st =
     (case cf_PutCF (sv_db s) (default_cf cf) key val (gs_db st) of
        (Some err, d) \<Rightarrow> (Inl (GInternal, ''failed to put key: '' @ ho_err ho err), st\<lparr>gs_db := d\<rparr>)
      | (None, d) \<Rightarrow> (Inr (PutResponse 1), st\<lparr>gs_db := d\<rparr>))"

definition grpc_Delete ::
    "('d, 'e, 't) api_server \<Rightarrow> 'e host \<Rightarrow> string \<Rightarrow> bytes \<Rightarrow> ('d, 't) grpc_state \<Rightarrow> grpc_result \<times> ('d, 't) grpc_state" where
  "grpc_Delete s ho cf key st =
     (case cf_DeleteCF (sv_db s) (default_cf cf) key (gs_db st) of
        (Some err, d) \<Rightarrow> (Inl (GInternal, ''failed to delete key: '' @ ho_err ho err), st\<lparr>gs_db := d\<rparr>)
      | (None, d) \<Rightarrow> (Inr (DeleteResponse 1), st\<lparr>gs_db := d\<rparr>))"

text \<open>
  The messages sent on the stream and the error at the end, or \<open>None\<close> when the iterator panics;
  \<open>broken\<close> is the error of a send, if one fails, and how many succeed before it.
\<close>

definition grpc_Scan ::
    "('d, 'e, 't) api_server \<Rightarrow> 'e host \<Rightarrow> string \<Rightarrow> bytes \<Rightarrow> (nat \<times> grpc_code \<times> string) option \<Rightarrow> ('d, 't) grpc_state \<Rightarrow>
     ((bytes option \<times> bytes option) list \<times> (grpc_code \<times> string) option) option" where
  "grpc_Scan s ho cf pfx broken st =
     (case cf_ScanCF (sv_db s) (default_cf cf) pfx (gs_db st) of
        None \<Rightarrow> None
      | Some (kvs, err) \<Rightarrow>
          (case broken of
             Some (n, e) \<Rightarrow>
               if n < length kvs then Some (take n kvs, Some e)
               else Some (kvs, map_option (\<lambda>err. (GInternal, ''scan iteration error: '' @ ho_err ho err)) err)
           | None \<Rightarrow> Some (kvs, map_option (\<lambda>err. (GInternal, ''scan iteration error: '' @ ho_err ho err)) err)))"

definition generateTxnID :: "('d, 't) grpc_state \<Rightarrow> string" where
  "generateTxnID st = ''txn-'' @ digits (length (gs_txns st) + 1)"

definition grpc_BeginTxn ::
    "('d, 'e, 't) api_server \<Rightarrow> ('d, 't) grpc_state \<Rightarrow> grpc_result \<times> ('d, 't) grpc_state" where
  "grpc_BeginTxn s st =
     (let (txn, d) = cf_NewTransaction (sv_db s) (gs_db st);
          txnID = generateTxnID st
      in (Inr (BeginTxnResponse txnID 1), st\<lparr>gs_db := d, gs_txns := AList.update txnID txn (gs_txns st)\<rparr>))"

text \<open>The operations of the request are not used.\<close>

definition grpc_CommitTxn ::
    "('d, 'e, 't) api_server \<Rightarrow> 'e host \<Rightarrow> string \<Rightarrow> txn_op list \<Rightarrow> ('d, 't) grpc_state \<Rightarrow>
     grpc_result \<times> ('d, 't) grpc_state" where
  "grpc_CommitTxn s ho txnID ops st =
     (case map_of (gs_txns st) txnID of
        None \<Rightarrow> (Inl (GNotFound, ''transaction '' @ txnID @ '' not found''), st)
      | Some txn \<Rightarrow>
          let st = st\<lparr>gs_txns := AList.delete txnID (gs_txns st)\<rparr> in
          case cf_TxCommit (sv_db s) txn (gs_db st) of
            ((Some err, txn'), d) \<Rightarrow> (Inl (GAborted, ''transaction commit failed: '' @ ho_err ho err), st\<lparr>gs_db := d\<rparr>)
          | ((None, txn'), d) \<Rightarrow> (Inr CommitTxnResponse, st\<lparr>gs_db := d\<rparr>))"

definition grpc_RollbackTxn ::
    "('d, 'e, 't) api_server \<Rightarrow> 'e host \<Rightarrow> string \<Rightarrow> ('d, 't) grpc_state \<Rightarrow> grpc_result \<times> ('d, 't) grpc_state" where
  "grpc_RollbackTxn s ho txnID st =
     (case map_of (gs_txns st) txnID of
        None \<Rightarrow> (Inl (GNotFound, ''transaction '' @ txnID @ '' not found''), st)
      | Some txn \<Rightarrow>
          let st = st\<lparr>gs_txns := AList.delete txnID (gs_txns st)\<rparr> in
          case cf_TxRollback (sv_db s) txn (gs_db st) of
            ((Some err, txn'), d) \<Rightarrow> (Inl (GInternal, ''transaction rollback failed: '' @ ho_err ho err), st\<lparr>gs_db := d\<rparr>)
          | ((None, txn'), d) \<Rightarrow> (Inr RollbackTxnResponse, st\<lparr>gs_db := d\<rparr>))"

text \<open>The claims that an interceptor has put into the context must have the role \<open>admin\<close>.\<close>

definition admin_only :: "claims option \<Rightarrow> (grpc_code \<times> string) option" where
  "admin_only claims =
     (case claims of
        None \<Rightarrow> Some (GUnauthenticated, ''authentication required'')
      | Some c \<Rightarrow>
          if HasAnyRole \<lparr>us_Username = [], us_PasswordHash = [], us_Roles = cl_Roles c, us_CreatedAt = 0\<rparr> [RoleAdmin]
          then None else Some (GPermissionDenied, ''admin role required''))"

definition grpc_CreateUser ::
    "('d, 'e, 't) api_server \<Rightarrow> 'e host \<Rightarrow> claims option \<Rightarrow> string \<Rightarrow> string \<Rightarrow> string list option \<Rightarrow> ('d, 't) grpc_state \<Rightarrow>
     grpc_result \<times> ('d, 't) grpc_state" where
  "grpc_CreateUser s ho claims name pw roles st =
     (case admin_only claims of
        Some err \<Rightarrow> (Inl err, st)
      | None \<Rightarrow>
          (case auth_CreateUser (ho_env ho) (sv_db s) (ho_salt ho) (ho_now ho) name pw roles (gs_db st) of
             (Some err, d) \<Rightarrow>
               (Inl (if err = AuUserExists then (GAlreadyExists, ''user already exists'')
                     else if err = AuInvalidCredentials then (GInvalidArgument, ''invalid credentials'')
                     else (GInternal, ho_auth_err ho err)), st\<lparr>gs_db := d\<rparr>)
           | (None, d) \<Rightarrow> (Inr CreateUserResponse, st\<lparr>gs_db := d\<rparr>)))"

definition grpc_ChangePassword ::
    "('d, 'e, 't) api_server \<Rightarrow> 'e host \<Rightarrow> claims option \<Rightarrow> string \<Rightarrow> string \<Rightarrow> ('d, 't) grpc_state \<Rightarrow>
     grpc_result \<times> ('d, 't) grpc_state" where
  "grpc_ChangePassword s ho claims name pw st =
     (case admin_only claims of
        Some err \<Rightarrow> (Inl err, st)
      | None \<Rightarrow>
          (case auth_ChangePassword (ho_env ho) (sv_db s) (ho_salt ho) name pw (gs_db st) of
             (Some err, d) \<Rightarrow>
               (Inl (if err = AuUserNotFound then (GNotFound, ''user not found'') else (GInternal, ho_auth_err ho err)),
                st\<lparr>gs_db := d\<rparr>)
           | (None, d) \<Rightarrow> (Inr ChangePasswordResponse, st\<lparr>gs_db := d\<rparr>)))"

definition grpc_Authenticate ::
    "('d, 'e, 't) api_server \<Rightarrow> 'e host \<Rightarrow> string \<Rightarrow> string \<Rightarrow> ('d, 't) grpc_state \<Rightarrow> grpc_result" where
  "grpc_Authenticate s ho name pw st =
     (case auth_Authenticate (ho_env ho) (sv_db s) (ho_now ho) name pw (sv_jwtSecret s) (gs_db st) of
        Inl err \<Rightarrow>
          Inl (if err = AuUserNotFound \<or> err = AuInvalidCredentials then (GUnauthenticated, ''invalid username or password'')
               else (GInternal, ho_auth_err ho err))
      | Inr token \<Rightarrow> Inr (AuthResponse token))"

definition grpc_CreateCF ::
    "('d, 'e, 't) api_server \<Rightarrow> 'e host \<Rightarrow> string \<Rightarrow> ('d, 't) grpc_state \<Rightarrow> grpc_result \<times> ('d, 't) grpc_state" where
  "grpc_CreateCF s ho cf st =
     (if cf = [] then (Inl (GInvalidArgument, ''CF name cannot be empty''), st)
      else
        (case cf_CreateCF (sv_db s) cf (gs_db st) of
           (Some err, d) \<Rightarrow> (Inl (GInternal, ''failed to create CF: '' @ ho_err ho err), st\<lparr>gs_db := d\<rparr>)
         | (None, d) \<Rightarrow> (Inr CreateCFResponse, st\<lparr>gs_db := d\<rparr>)))"

definition grpc_ListCF :: "('d, 'e, 't) api_server \<Rightarrow> ('d, 't) grpc_state \<Rightarrow> grpc_result" where
  "grpc_ListCF s st = Inr (ListCFResponse (cf_ListCFs (sv_db s) (gs_db st)))"

definition grpc_DeleteCF ::
    "('d, 'e, 't) api_server \<Rightarrow> 'e host \<Rightarrow> string \<Rightarrow> ('d, 't) grpc_state \<Rightarrow> grpc_result \<times> ('d, 't) grpc_state" where
  "grpc_DeleteCF s ho cf st =
     (if cf = ''__auth__'' \<or> cf = ''__meta__'' then (Inl (GPermissionDenied, ''cannot delete system CF: '' @ cf), st)
      else
        (case cf_DropCF (sv_db s) cf (gs_db st) of
           (Some err, d) \<Rightarrow> (Inl (GInternal, ''failed to delete CF: '' @ ho_err ho err), st\<lparr>gs_db := d\<rparr>)
         | (None, d) \<Rightarrow> (Inr DeleteCFResponse, st\<lparr>gs_db := d\<rparr>)))"

definition grpc_ListUsers ::
    "('d, 'e, 't) api_server \<Rightarrow> 'e host \<Rightarrow> claims option \<Rightarrow> ('d, 't) grpc_state \<Rightarrow> grpc_result option" where
  "grpc_ListUsers s ho claims st =
     (case admin_only claims of
        Some err \<Rightarrow> Some (Inl err)
      | None \<Rightarrow>
          (case auth_ListUsers (sv_db s) (gs_db st) of
             Inl err \<Rightarrow> if err = AuScanPanic then None else Some (Inl (GInternal, ho_auth_err ho err))
           | Inr users \<Rightarrow> Some (Inr (ListUsersResponse (map (\<lambda>u. (us_Username u, us_Roles u)) users)))))"

section \<open>Interceptors\<close>

definition hasRequiredRoleForMethod :: "string \<Rightarrow> string list \<Rightarrow> bool" where
  "hasRequiredRoleForMethod fullMethod userRoles =
     (let any = (\<lambda>required. \<exists>r \<in> set userRoles. \<exists>q \<in> set required. r = q) in
      if str_HasSuffix fullMethod ''Get'' then any [RoleReadOnly, RoleReadWrite, RoleAdmin]
      else if str_HasSuffix fullMethod ''Put'' \<or> str_HasSuffix fullMethod ''Delete'' then any [RoleReadWrite, RoleAdmin]
      else if str_HasSuffix fullMethod ''Scan'' then any [RoleReadOnly, RoleReadWrite, RoleAdmin]
      else if str_HasSuffix fullMethod ''BeginTxn'' \<or> str_HasSuffix fullMethod ''CommitTxn'' \<or>
        str_HasSuffix fullMethod ''RollbackTxn'' then any [RoleReadWrite, RoleAdmin]
      else if str_HasSuffix fullMethod ''CreateUser'' then any [RoleAdmin]
      else if str_HasSuffix fullMethod ''Authenticate'' then True
      else any [RoleAdmin])"

text \<open>
  The metadata of a call: none, or the values of its \<open>authorization\<close> header. A refusal, or the claims
  for the context (none for a skipped method).
\<close>

definition check_call ::
    "bytes \<Rightarrow> string set \<Rightarrow> 'e host \<Rightarrow> string list option \<Rightarrow> string \<Rightarrow> (grpc_code \<times> string) + claims option" where
  "check_call jwtSecret skipMethods ho md fullMethod =
     (if fullMethod \<in> skipMethods then Inr None
      else
        (case md of
           None \<Rightarrow> Inl (GUnauthenticated, ''missing metadata'')
         | Some [] \<Rightarrow> Inl (GUnauthenticated, ''missing authorization header'')
         | Some (h # hs) \<Rightarrow>
             let tokenStr = extractBearerToken (ho_env ho) h in
             if tokenStr = [] then Inl (GUnauthenticated, ''invalid authorization header format'')
             else
               (case (ValidateToken (ho_env ho) (ho_now ho) tokenStr jwtSecret :: 'e auth_error + claims) of
                  Inl err \<Rightarrow> Inl (GUnauthenticated, ''invalid token'')
                | Inr claims \<Rightarrow>
                    if \<not> hasRequiredRoleForMethod fullMethod (roles_of (cl_Roles claims))
                    then Inl (GPermissionDenied, ''insufficient privileges'')
                    else Inr (Some claims))))"

definition AuthInterceptor ::
    "bytes \<Rightarrow> string set \<Rightarrow> 'e host \<Rightarrow> string list option \<Rightarrow> string \<Rightarrow>
     (claims option \<Rightarrow> 's \<Rightarrow> grpc_result option \<times> 's) \<Rightarrow> 's \<Rightarrow> grpc_result option \<times> 's" where
  "AuthInterceptor jwtSecret skipMethods ho md fullMethod handler st =
     (case check_call jwtSecret skipMethods ho md fullMethod of
        Inl err \<Rightarrow> (Some (Inl err), st)
      | Inr claims \<Rightarrow> handler claims st)"

definition StreamAuthInterceptor ::
    "bytes \<Rightarrow> string set \<Rightarrow> 'e host \<Rightarrow> string list option \<Rightarrow> string \<Rightarrow>
     (claims option \<Rightarrow> ('m list \<times> (grpc_code \<times> string) option) option) \<Rightarrow> ('m list \<times> (grpc_code \<times> string) option) option" where
  "StreamAuthInterceptor jwtSecret skipMethods ho md fullMethod handler =
     (case check_call jwtSecret skipMethods ho md fullMethod of
        Inl err \<Rightarrow> Some ([], Some err)
      | Inr claims \<Rightarrow> handler claims)"

section \<open>The service as the server installs it\<close>

fun full_method :: "grpc_request \<Rightarrow> string" where
  "full_method (GetRequest _ _ _) = ''/scoriadb.ScoriaDB/Get''"
| "full_method (PutRequest _ _ _) = ''/scoriadb.ScoriaDB/Put''"
| "full_method (DeleteRequest _ _) = ''/scoriadb.ScoriaDB/Delete''"
| "full_method BeginTxnRequest = ''/scoriadb.ScoriaDB/BeginTxn''"
| "full_method (CommitTxnRequest _ _) = ''/scoriadb.ScoriaDB/CommitTxn''"
| "full_method (RollbackTxnRequest _) = ''/scoriadb.ScoriaDB/RollbackTxn''"
| "full_method (CreateUserRequest _ _ _) = ''/scoriadb.ScoriaDB/CreateUser''"
| "full_method (ChangePasswordRequest _ _) = ''/scoriadb.ScoriaDB/ChangePassword''"
| "full_method (AuthRequest _ _) = ''/scoriadb.ScoriaDB/Authenticate''"
| "full_method (CreateCFRequest _) = ''/scoriadb.ScoriaDB/CreateCF''"
| "full_method ListCFRequest = ''/scoriadb.ScoriaDB/ListCF''"
| "full_method (DeleteCFRequest _) = ''/scoriadb.ScoriaDB/DeleteCF''"
| "full_method ListUsersRequest = ''/scoriadb.ScoriaDB/ListUsers''"

fun grpc_serve ::
    "('d, 'e, 't) api_server \<Rightarrow> 'e host \<Rightarrow> grpc_request \<Rightarrow> claims option \<Rightarrow> ('d, 't) grpc_state \<Rightarrow>
     grpc_result option \<times> ('d, 't) grpc_state" where
  "grpc_serve s ho (GetRequest cf k ts) claims st = (Some (grpc_Get s ho cf k st), st)"
| "grpc_serve s ho (PutRequest cf k v) claims st = apfst Some (grpc_Put s ho cf k v st)"
| "grpc_serve s ho (DeleteRequest cf k) claims st = apfst Some (grpc_Delete s ho cf k st)"
| "grpc_serve s ho BeginTxnRequest claims st = apfst Some (grpc_BeginTxn s st)"
| "grpc_serve s ho (CommitTxnRequest i ops) claims st = apfst Some (grpc_CommitTxn s ho i ops st)"
| "grpc_serve s ho (RollbackTxnRequest i) claims st = apfst Some (grpc_RollbackTxn s ho i st)"
| "grpc_serve s ho (CreateUserRequest name pw roles) claims st = apfst Some (grpc_CreateUser s ho claims name pw roles st)"
| "grpc_serve s ho (ChangePasswordRequest name pw) claims st = apfst Some (grpc_ChangePassword s ho claims name pw st)"
| "grpc_serve s ho (AuthRequest name pw) claims st = (Some (grpc_Authenticate s ho name pw st), st)"
| "grpc_serve s ho (CreateCFRequest cf) claims st = apfst Some (grpc_CreateCF s ho cf st)"
| "grpc_serve s ho ListCFRequest claims st = (Some (grpc_ListCF s st), st)"
| "grpc_serve s ho (DeleteCFRequest cf) claims st = apfst Some (grpc_DeleteCF s ho cf st)"
| "grpc_serve s ho ListUsersRequest claims st = (grpc_ListUsers s ho claims st, st)"

definition grpc_call ::
    "('d, 'e, 't) api_server \<Rightarrow> 'e host \<Rightarrow> string list option \<Rightarrow> grpc_request \<Rightarrow> ('d, 't) grpc_state \<Rightarrow>
     grpc_result option \<times> ('d, 't) grpc_state" where
  "grpc_call s ho md req =
     AuthInterceptor (sv_jwtSecret s) {''/scoriadb.ScoriaDB/Authenticate''} ho md (full_method req) (grpc_serve s ho req)"

text \<open>No interceptor is installed for streams.\<close>

definition grpc_scan_call ::
    "('d, 'e, 't) api_server \<Rightarrow> 'e host \<Rightarrow> string list option \<Rightarrow> string \<Rightarrow> bytes \<Rightarrow> (nat \<times> grpc_code \<times> string) option \<Rightarrow>
     ('d, 't) grpc_state \<Rightarrow> ((bytes option \<times> bytes option) list \<times> (grpc_code \<times> string) option) option" where
  "grpc_scan_call s ho md cf pfx broken st = grpc_Scan s ho cf pfx broken st"

text \<open>What \<^verbatim>\<open>main\<close> does before serving: the account \<open>admin\<close> exists or is created.\<close>

definition ensureAdminUser :: "'e host \<Rightarrow> ('d, 'e, 't) cfdb \<Rightarrow> 'd \<Rightarrow> 'd" where
  "ensureAdminUser ho db d =
     (case auth_GetUser (ho_env ho) db ''admin'' d of
        Inr u \<Rightarrow> d
      | Inl err \<Rightarrow> snd (auth_CreateUser (ho_env ho) db (ho_salt ho) (ho_now ho) ''admin'' ''2027'' (Some [RoleAdmin]) d))"

end
