(* ===== verification/GrpcProofs.thy ===== *)
theory GrpcProofs
  imports Grpc
begin

text \<open>
  What the gRPC interface allows to whom, and what becomes of its table of transactions: identifiers
  are derived from the number of open transactions and are given out again.
\<close>

section \<open>Who may change the state\<close>

text \<open>The first header of the metadata holds a valid token with the claims.\<close>

definition md_bears :: "bytes \<Rightarrow> 'e host \<Rightarrow> string list option \<Rightarrow> claims \<Rightarrow> bool" where
  "md_bears key ho md c \<longleftrightarrow>
     (\<exists>h hs. md = Some (h # hs) \<and>
        ae_parse (ho_env ho) (\<lambda>hmac. if hmac then Some key else None) (ho_now ho) (extractBearerToken (ho_env ho) h) = Some (c, True))"

lemma check_call_cases:
  fixes ho :: "'e host"
  assumes "m \<notin> skip"
  obtains (refused) code msg where "check_call key skip ho md m = Inl (code, msg)" "code \<in> {GUnauthenticated, GPermissionDenied}"
    | (passed) c where "check_call key skip ho md m = Inr (Some c)" "md_bears key ho md c"
        "hasRequiredRoleForMethod m (roles_of (cl_Roles c))"
proof (cases md)
  case None
  then show ?thesis using assms by (intro refused) (auto simp: check_call_def)
next
  case (Some hs)
  show ?thesis
  proof (cases hs)
    case Nil
    then show ?thesis using assms Some by (intro refused) (auto simp: check_call_def)
  next
    case (Cons h t)
    show ?thesis
    proof (cases "extractBearerToken (ho_env ho) h = []")
      case True
      then show ?thesis using assms Some Cons by (intro refused) (auto simp: check_call_def)
    next
      case tok: False
      show ?thesis
      proof (cases "ValidateToken (ho_env ho) (ho_now ho) (extractBearerToken (ho_env ho) h) key :: 'e auth_error + claims")
        case (Inl err)
        then show ?thesis using assms Some Cons tok by (intro refused) (auto simp: check_call_def)
      next
        case (Inr c)
        then have b: "md_bears key ho md c"
          using Some Cons by (auto simp: md_bears_def ValidateToken_def split: option.splits if_splits)
        show ?thesis
        proof (cases "hasRequiredRoleForMethod m (roles_of (cl_Roles c))")
          case True
          then show ?thesis using assms Some Cons tok Inr b by (intro passed) (auto simp: check_call_def)
        next
          case False
          then show ?thesis using assms Some Cons tok Inr by (intro refused) (auto simp: check_call_def)
        qed
      qed
    qed
  qed
qed

text \<open>The role that the interceptor asks for, by method.\<close>

fun reading :: "grpc_request \<Rightarrow> bool" where
  "reading (GetRequest _ _ _) = True"
| "reading (AuthRequest _ _) = True"
| "reading ListCFRequest = True"
| "reading ListUsersRequest = True"
| "reading _ = False"

fun data_request :: "grpc_request \<Rightarrow> bool" where
  "data_request (GetRequest _ _ _) = True"
| "data_request (PutRequest _ _ _) = True"
| "data_request (DeleteRequest _ _) = True"
| "data_request BeginTxnRequest = True"
| "data_request (CommitTxnRequest _ _) = True"
| "data_request (RollbackTxnRequest _) = True"
| "data_request _ = False"

lemma serve_reading: "reading req \<Longrightarrow> snd (grpc_serve s ho req claims st) = st"
  by (cases req) simp_all

lemma method_roles:
  assumes "hasRequiredRoleForMethod (full_method req) roles" "full_method req \<noteq> ''/scoriadb.ScoriaDB/Authenticate''"
  shows "set roles \<inter> {RoleReadOnly, RoleReadWrite, RoleAdmin} \<noteq> {}"
    "\<not> reading req \<Longrightarrow> set roles \<inter> {RoleReadWrite, RoleAdmin} \<noteq> {}"
    "\<not> data_request req \<Longrightarrow> RoleAdmin \<in> set roles"
  using assms by (cases req; auto simp: hasRequiredRoleForMethod_def str_HasSuffix_def Let_def)+

text \<open>
  C39. The gRPC interface over any database: a unary call that changes the database or the table of
  transactions carries a valid token whose roles include \<open>readwrite\<close> or \<open>admin\<close>, and \<open>admin\<close> unless
  it reads, puts or deletes a key or handles a transaction; and every call other than a login without
  a valid token with a known role is refused with a status for that and changes nothing.
\<close>

theorem grpc_changes_need_a_writing_role:
  fixes s :: "('d, 'e, 't) api_server"
  shows "(snd (grpc_call s ho md req st) \<noteq> st \<longrightarrow>
      (\<exists>c. md_bears (sv_jwtSecret s) ho md c \<and> has_role c {RoleReadWrite, RoleAdmin} \<and>
        (\<not> data_request req \<longrightarrow> has_role c {RoleAdmin}))) \<and>
    ((\<forall>name pw. req \<noteq> AuthRequest name pw) \<and>
      \<not> (\<exists>c. md_bears (sv_jwtSecret s) ho md c \<and> has_role c {RoleReadOnly, RoleReadWrite, RoleAdmin}) \<longrightarrow>
      (\<exists>code msg. grpc_call s ho md req st = (Some (Inl (code, msg)), st) \<and> code \<in> {GUnauthenticated, GPermissionDenied}))"
proof (cases "full_method req = ''/scoriadb.ScoriaDB/Authenticate''")
  case True
  then obtain name pw where req: "req = AuthRequest name pw" by (cases req) auto
  have "snd (grpc_call s ho md req st) = st"
    by (simp add: req grpc_call_def AuthInterceptor_def check_call_def)
  then show ?thesis using req by auto
next
  case False
  then have skip: "full_method req \<notin> {''/scoriadb.ScoriaDB/Authenticate''}" by simp
  then show ?thesis
  proof (cases rule: check_call_cases [of "full_method req" "{''/scoriadb.ScoriaDB/Authenticate''}" "sv_jwtSecret s" ho md])
    case refused
    then show ?thesis by (auto simp: grpc_call_def AuthInterceptor_def)
  next
    case (passed c)
    then have call: "grpc_call s ho md req st = grpc_serve s ho req (Some c) st" by (simp add: grpc_call_def AuthInterceptor_def)
    note roles = method_roles [OF passed(3) False]
    have "has_role c {RoleReadWrite, RoleAdmin} \<and> (\<not> data_request req \<longrightarrow> has_role c {RoleAdmin})"
      if "snd (grpc_call s ho md req st) \<noteq> st"
    proof -
      have "\<not> reading req" using that serve_reading unfolding call by blast
      then show ?thesis using roles(2,3) by (auto simp: has_role_def)
    qed
    moreover have "has_role c {RoleReadOnly, RoleReadWrite, RoleAdmin}" using roles(1) by (simp add: has_role_def)
    ultimately show ?thesis using passed(2) by blast
  qed
qed

text \<open>A reader's token does not begin a transaction.\<close>

theorem grpc_changes_need_a_writing_role_witness:
  "\<forall>(s :: (registry, cf_error + it_error, db_transaction) api_server) st.
     snd (grpc_call (s\<lparr>sv_jwtSecret := [75]\<rparr>)
       \<lparr>ho_env = demo_env, ho_salt = 0, ho_now = 5, ho_err = \<lambda>_. [], ho_auth_err = \<lambda>_. []\<rparr>
       (Some [''Bearer Kreadonly'']) BeginTxnRequest st) = st \<and>
     (\<exists>code msg. grpc_call (s\<lparr>sv_jwtSecret := [75]\<rparr>)
       \<lparr>ho_env = demo_env, ho_salt = 0, ho_now = 5, ho_err = \<lambda>_. [], ho_auth_err = \<lambda>_. []\<rparr>
       None BeginTxnRequest st = (Some (Inl (code, msg)), st) \<and> code \<in> {GUnauthenticated, GPermissionDenied})"
proof (intro allI conjI)
  fix s :: "(registry, cf_error + it_error, db_transaction) api_server" and st
  let ?s = "s\<lparr>sv_jwtSecret := [75]\<rparr>"
  let ?ho = "\<lparr>ho_env = demo_env, ho_salt = 0, ho_now = 5, ho_err = \<lambda>_. [], ho_auth_err = \<lambda>_. []\<rparr> :: (cf_error + it_error) host"
  have tok: "extractBearerToken demo_env ''Bearer Kreadonly'' = ''Kreadonly''" by code_simp
  have "\<not> (\<exists>c. md_bears [75] ?ho (Some [''Bearer Kreadonly'']) c \<and> has_role c {RoleReadWrite, RoleAdmin})"
    by (auto simp: md_bears_def tok demo_parse has_role_def roles_of_def RoleReadWrite_def RoleAdmin_def split: if_splits)
  then show "snd (grpc_call ?s ?ho (Some [''Bearer Kreadonly'']) BeginTxnRequest st) = st"
    using grpc_changes_need_a_writing_role [of ?s ?ho "Some [''Bearer Kreadonly'']" BeginTxnRequest st] by auto
  have "\<not> (\<exists>c. md_bears [75] ?ho None c)" by (simp add: md_bears_def)
  then show "\<exists>code msg. grpc_call ?s ?ho None BeginTxnRequest st = (Some (Inl (code, msg)), st) \<and>
      code \<in> {GUnauthenticated, GPermissionDenied}"
    using grpc_changes_need_a_writing_role [of ?s ?ho None BeginTxnRequest st] by auto
qed

section \<open>Transaction identifiers\<close>

text \<open>
  Of two open transactions the first is rolled back; the next one begun gets the identifier of the
  second, whose handle is lost.
\<close>

lemma txn_ids_are_reused:
  assumes "grpc_BeginTxn s (grpc_NewServer d) = (r1, st1)" "grpc_BeginTxn s st1 = (r2, st2)"
    and "grpc_RollbackTxn s ho ''txn-1'' st2 = (r3, st3)" "grpc_BeginTxn s st3 = (r4, st4)"
  shows "r2 = Inr (BeginTxnResponse ''txn-2'' 1) \<and> r4 = r2 \<and>
    gs_txns st4 = [(''txn-2'', fst (cf_NewTransaction (sv_db s) (gs_db st3)))]"
proof -
  have ids: "digits (Suc 0) = ''1''" "digits (Suc (Suc 0)) = ''2''" by (code_simp, code_simp)
  have 1: "r1 = Inr (BeginTxnResponse ''txn-1'' 1)" "gs_txns st1 = [(''txn-1'', fst (cf_NewTransaction (sv_db s) d))]"
    using assms(1) by (auto simp: grpc_BeginTxn_def grpc_NewServer_def generateTxnID_def ids split_beta Let_def)
  have 2: "r2 = Inr (BeginTxnResponse ''txn-2'' 1)"
    "gs_txns st2 = [(''txn-1'', fst (cf_NewTransaction (sv_db s) d)), (''txn-2'', fst (cf_NewTransaction (sv_db s) (gs_db st1)))]"
    using assms(2) 1(2) by (auto simp: grpc_BeginTxn_def generateTxnID_def ids split_beta Let_def)
  have 3: "gs_txns st3 = [(''txn-2'', fst (cf_NewTransaction (sv_db s) (gs_db st1)))]"
    using assms(3) 2(2) by (auto simp: grpc_RollbackTxn_def Let_def AList.delete_eq split: prod.splits option.splits)
  show ?thesis
    using assms(4) 2(1) 3 by (auto simp: grpc_BeginTxn_def generateTxnID_def ids split_beta Let_def)
qed

end
