(* ===== verification/TableIter.thy ===== *)
theory TableIter
  imports SSTFormat
begin

text \<open>
  The iterator of a table on arbitrary bytes: a file may be damaged in any way that still opens, and
  going through it ends all the same.
\<close>

section \<open>Every round uses up room\<close>

text \<open>A state after a round that failed: there is nothing to come.\<close>

definition si_over :: "sst_iter \<Rightarrow> bool" where
  "si_over it \<longleftrightarrow> si_ended it \<or> si_err it \<noteq> None"

lemma si_over_Next: "si_over it \<Longrightarrow> si_Next it = (False, it)"
  by (auto simp: si_over_def si_Next_def)

lemma si_entry_steps:
  assumes "si_entry it = (ok, it')" "si_ok r it"
  shows "if ok then si_ok r it' \<and> si_room it' + 8 \<le> si_room it else si_over it'"
proof (cases ok)
  case True
  have same: "si_reader it' = si_reader it" "si_blockIdx it' = si_blockIdx it" "si_blockData it' = si_blockData it"
    and pos: "si_pos it + 8 \<le> si_pos it'" "si_pos it' \<le> length (si_blockData it)"
    using assms(1) True by (auto simp: si_entry_def Let_def split: if_splits sum.splits)
  have "length (si_blockData it) - si_pos it' + 8 \<le> length (si_blockData it) - si_pos it" using pos by linarith
  then have "si_room it' + 8 \<le> si_room it" unfolding si_room_def same by (simp only: add.assoc add_le_cancel_left)
  then show ?thesis using assms(2) True same by (simp add: si_ok_def)
next
  case False
  then show ?thesis using assms(1) by (auto simp: si_entry_def si_over_def Let_def split: if_splits sum.splits)
qed

lemma si_nextBlock_over: "si_nextBlock it = (False, it') \<Longrightarrow> si_over it'"
  by (auto simp: si_nextBlock_def si_over_def Let_def split: if_splits sum.splits)

text \<open>The blocks that are left bound the turns of the loop in \<open>Next\<close>.\<close>

definition si_blocks :: "sst_iter \<Rightarrow> nat" where
  "si_blocks it = length (rd_index (si_reader it)) - nat (si_blockIdx it + 1)"

lemma si_nextBlock_blocks:
  assumes "si_nextBlock it = (True, it')" "si_ok r it"
  shows "si_blocks it' < si_blocks it"
  using assms by (auto simp: si_nextBlock_def si_blocks_def si_ok_def Let_def split: if_splits sum.splits)

lemma si_next_loop_steps:
  "si_next_loop fuel it = (ok, it') \<Longrightarrow> si_ok r it \<Longrightarrow> si_blocks it < fuel \<Longrightarrow>
     if ok then si_ok r it' \<and> si_room it' + 8 \<le> si_room it else si_over it'"
proof (induction fuel arbitrary: it)
  case (Suc fuel)
  show ?case
  proof (cases "si_pos it < length (si_blockData it)")
    case True
    then show ?thesis using Suc.prems si_entry_steps by simp
  next
    case False
    obtain b it1 where nb: "si_nextBlock it = (b, it1)" by (metis surj_pair)
    show ?thesis
    proof (cases b)
      case True
      have "si_ok r it1" "si_room it1 < si_room it" "si_blocks it1 < si_blocks it"
        using si_nextBlock_room [of it it1 r] si_nextBlock_blocks [of it it1 r] nb True Suc.prems(2) by simp_all
      then show ?thesis using Suc.IH [of it1] Suc.prems False nb True by (auto split: if_splits)
    next
      case stop: False
      then show ?thesis using Suc.prems(1) False nb si_nextBlock_over by auto
    qed
  qed
qed simp

lemma si_next_loop_fuel:
  "si_ok r it \<Longrightarrow> si_blocks it < f \<Longrightarrow> f \<le> g \<Longrightarrow> si_next_loop g it = si_next_loop f it"
proof (induction f arbitrary: g it)
  case (Suc f)
  then obtain g' where g: "g = Suc g'" "f \<le> g'" by (cases g) auto
  obtain b it1 where nb: "si_nextBlock it = (b, it1)" by (metis surj_pair)
  have "si_next_loop g' it1 = si_next_loop f it1" if b
    using Suc.IH [of it1 g'] si_nextBlock_room [of it it1 r] si_nextBlock_blocks [of it it1 r] nb that Suc.prems(1,2) g(2) by simp
  then show ?case by (simp add: g(1) nb)
qed simp

lemma si_Next_steps:
  assumes "si_Next it = (ok, it')" "si_ok r it"
  shows "if ok then si_ok r it' \<and> si_room it' + 8 \<le> si_room it else si_over it'"
proof (cases "si_over it")
  case True
  then show ?thesis using assms(1) si_over_Next by auto
next
  case False
  then have "si_next_loop (length (rd_index (si_reader it)) + 2) it = (ok, it')"
    using assms(1) by (auto simp: si_Next_def si_over_def)
  moreover have "si_blocks it < length (rd_index (si_reader it)) + 2" by (simp add: si_blocks_def)
  ultimately show ?thesis using si_next_loop_steps assms(2) by blast
qed

lemma si_run_ends:
  "si_run n it = (kvs, it') \<Longrightarrow> si_ok r it \<Longrightarrow> si_room it < 8 * n \<Longrightarrow> si_over it' \<and> 8 * length kvs \<le> si_room it"
proof (induction n arbitrary: it kvs)
  case (Suc n)
  obtain ok it1 where nx: "si_Next it = (ok, it1)" by (metis surj_pair)
  note step = si_Next_steps [OF nx Suc.prems(2)]
  show ?case
  proof (cases ok)
    case True
    then obtain kvs1 where k: "si_run n it1 = (kvs1, it')" "kvs = (si_key it1, si_val it1) # kvs1"
      using Suc.prems(1) nx by (auto split: prod.splits)
    have "si_over it' \<and> 8 * length kvs1 \<le> si_room it1" using Suc.IH [OF k(1)] step True Suc.prems(3) by simp
    then show ?thesis using k(2) step True by simp
  next
    case False
    then show ?thesis using Suc.prems(1) nx step by auto
  qed
qed simp

text \<open>Every state of the loop is one the bounds speak of.\<close>

lemma si_entry_ok: "si_ok r it \<Longrightarrow> si_ok r (snd (si_entry it))"
  by (simp add: si_entry_def si_ok_def Let_def split: sum.split)

lemma si_nextBlock_ok: "si_ok r it \<Longrightarrow> si_ok r (snd (si_nextBlock it))"
  using readBlock_le [of r] by (auto simp: si_nextBlock_def si_ok_def Let_def split: sum.split)

lemma si_next_loop_ok: "si_ok r it \<Longrightarrow> si_ok r (snd (si_next_loop fuel it))"
proof (induction fuel arbitrary: it)
  case (Suc fuel)
  then show ?case using si_entry_ok [of r it] si_nextBlock_ok [of r it] by (simp add: split_beta)
qed simp

lemma si_run_ok: "si_ok r it \<Longrightarrow> si_ok r (snd (si_run n it))"
proof (induction n arbitrary: it)
  case (Suc n)
  have "si_ok r (snd (si_Next it))" using Suc.prems si_next_loop_ok unfolding si_Next_def by (cases "si_ended it \<or> si_err it \<noteq> None") (simp_all only: if_True if_False snd_conv)
  then show ?case using Suc.IH by (simp add: split_beta)
qed simp

lemma si_run_stops: "si_run m it = (kvs, it') \<Longrightarrow> length kvs < m \<Longrightarrow> length kvs < n \<Longrightarrow> si_run n it = (kvs, it')"
proof (induction m arbitrary: n it kvs)
  case (Suc m)
  then obtain n' where n: "n = Suc n'" by (cases n) auto
  obtain ok it1 where nx: "si_Next it = (ok, it1)" by (metis surj_pair)
  show ?case
  proof (cases ok)
    case True
    then obtain kvs1 where k: "si_run m it1 = (kvs1, it')" "kvs = (si_key it1, si_val it1) # kvs1"
      using Suc.prems(1) nx by (auto split: prod.splits)
    then show ?thesis using Suc.IH [OF k(1), of n'] Suc.prems(2,3) n nx True by simp
  qed (use Suc.prems(1) nx n in auto)
qed simp

lemma si_New_start:
  assumes "si_New rd = Inr it"
  shows "si_ok rd it" "si_room it \<le> length (rd_index rd) * (length (rd_data rd) + 1)"
proof -
  let ?it = "\<lparr>si_reader = rd, si_blockIdx = -1, si_blockData = [], si_pos = 0,
                si_key = MVCCKey [] 0, si_val = [], si_err = None, si_ended = False\<rparr>"
  have ok: "si_ok rd ?it" "si_room ?it = length (rd_index rd) * (length (rd_data rd) + 1)" by (simp_all add: si_ok_def si_room_def)
  obtain b it1 where nb: "si_nextBlock ?it = (b, it1)" by (metis surj_pair)
  have "si_ok rd it \<and> si_room it \<le> si_room ?it"
  proof (cases b)
    case True
    then have "it = it1" using assms nb by (simp add: si_New_def Let_def)
    then show ?thesis using si_nextBlock_room [OF _ ok(1)] nb True by simp
  next
    case False
    then have "it = it1\<lparr>si_ended := True\<rparr>" using assms nb by (auto simp: si_New_def Let_def split: option.splits)
    then show ?thesis using nb False assms by (auto simp: si_nextBlock_def si_ok_def si_room_def si_New_def Let_def split: if_splits sum.splits)
  qed
  then show "si_ok rd it" "si_room it \<le> length (rd_index rd) * (length (rd_data rd) + 1)" using ok(2) by auto
qed

text \<open>
  C40. Going through a table always ends. For whatever bytes the reader was opened on: from the new
  iterator the loop over \<open>Next\<close> stops by itself, after at most one entry for every 8 bytes of
  every block that the index names; then \<open>Next\<close> fails for good and changes nothing. Inside \<open>Next\<close>,
  the number of turns allowed to its own loop is enough, since more change nothing.
\<close>

theorem table_iteration_ends:
  assumes "si_New rd = Inr it"
  shows "\<exists>kvs it'. 8 * length kvs \<le> length (rd_index rd) * (length (rd_data rd) + 1) \<and> si_Next it' = (False, it') \<and>
    (\<forall>n > length kvs. si_run n it = (kvs, it')) \<and>
    (\<forall>n g. length (rd_index rd) + 2 \<le> g \<longrightarrow>
       si_next_loop g (snd (si_run n it)) = si_next_loop (length (rd_index rd) + 2) (snd (si_run n it)))"
proof -
  note start = si_New_start [OF assms]
  let ?N = "Suc (si_room it)"
  obtain kvs it' where run: "si_run ?N it = (kvs, it')" by (metis surj_pair)
  have e: "si_over it'" "8 * length kvs \<le> si_room it" using si_run_ends [OF run start(1)] by simp_all
  have "si_run n it = (kvs, it')" if "n > length kvs" for n
    by (rule si_run_stops [OF run _ that]) (use e(2) in simp)
  moreover have "si_next_loop g (snd (si_run n it)) = si_next_loop (length (rd_index rd) + 2) (snd (si_run n it))"
    if "length (rd_index rd) + 2 \<le> g" for n g
  proof (rule si_next_loop_fuel [OF _ _ that])
    show ok: "si_ok rd (snd (si_run n it))" by (rule si_run_ok [OF start(1)])
    show "si_blocks (snd (si_run n it)) < length (rd_index rd) + 2" using ok by (simp add: si_blocks_def si_ok_def)
  qed
  moreover have "8 * length kvs \<le> length (rd_index rd) * (length (rd_data rd) + 1)" using e(2) start(2) by linarith
  moreover have "si_Next it' = (False, it')" by (rule si_over_Next [OF e(1)])
  ultimately show ?thesis by blast
qed

text \<open>A file of one block whose first entry claims more bytes than there are.\<close>

definition damaged :: bytes where
  "damaged = frame [255, 0, 0, 0, 1, 0, 0, 0, 97, 98, 99, 100]"

lemma damaged_block: "length damaged = 20" "readBlockFromMmap damaged 0 = Inr [255, 0, 0, 0, 1, 0, 0, 0, 97, 98, 99, 100]"
proof -
  show l: "length damaged = 20" by (simp add: damaged_def frame_def)
  show "readBlockFromMmap damaged 0 = Inr [255, 0, 0, 0, 1, 0, 0, 0, 97, 98, 99, 100]"
    using read_frame(1) [of damaged "[]" "[255, 0, 0, 0, 1, 0, 0, 0, 97, 98, 99, 100]" "[]"] l by (simp add: damaged_def)
qed

theorem table_iteration_ends_witness:
  "\<forall>f bl. \<exists>it kvs it'. si_New (mk_reader damaged True f [([97], 0)] bl [] []) = Inr it \<and>
     si_run 3 it = (kvs, it') \<and> si_Next it' = (False, it')"
proof (intro allI)
  fix f bl
  let ?rd = "mk_reader damaged True f [([97], 0)] bl [] []"
  obtain it where it: "si_New ?rd = Inr it"
    using damaged_block(2) by (simp add: si_New_def si_nextBlock_def mk_reader_def readBlock_def Let_def)
  from table_iteration_ends [OF it] obtain kvs it' where
    e: "8 * length kvs \<le> length (rd_index ?rd) * (length (rd_data ?rd) + 1)" "si_Next it' = (False, it')"
      "\<forall>n > length kvs. si_run n it = (kvs, it')" by blast
  have "length kvs < 3" using e(1) by (simp add: mk_reader_def damaged_block(1))
  then show "\<exists>it kvs it'. si_New ?rd = Inr it \<and> si_run 3 it = (kvs, it') \<and> si_Next it' = (False, it')"
    using it e(2,3) by blast
qed

end
