(* ===== verification/FlatArena.thy ===== *)
theory FlatArena
  imports Arena
begin

text \<open>
  Models \<^verbatim>\<open>internal/engine/memtable/flat_arena.go\<close>, the allocator on one block that the arena of
  \<open>Arena\<close> was replaced by (no list uses it): its operations, and \<open>Alloc\<close> as the steps of any number of
  goroutines around its compare-and-swap. Pointers are offsets into the block. The lemmas show that
  concurrent allocations never overlap and stay inside the block, and that nodes and indices
  correspond.
\<close>

section \<open>Operations\<close>

definition FlatArenaSize :: nat where "FlatArenaSize = 64 * 1024 * 1024"

record flat_arena =
  fl_size :: nat
  fl_head :: nat
  fl_total :: nat
  fl_nodes :: "nat \<rightharpoonup> node"

definition NewFlatArena :: "int \<Rightarrow> flat_arena" where
  "NewFlatArena sz =
     \<lparr>fl_size = (if sz \<le> 0 then FlatArenaSize else nat sz), fl_head = 0, fl_total = 0, fl_nodes = Map.empty\<rparr>"

datatype flat_result = FlNil | FlPtr nat | FlPanic

definition flat_align :: "int \<Rightarrow> nat" where
  "flat_align sz = nat (align8 (if sz = 0 then 1 else sz))"

definition flat_Alloc :: "int \<Rightarrow> flat_arena \<Rightarrow> flat_result \<times> flat_arena" where
  "flat_Alloc sz a =
     (if sz < 0 then (FlNil, a)
      else
        let alignedSize = flat_align sz; head = fl_head a in
        if head + alignedSize > fl_size a then (FlPanic, a)
        else (FlPtr head, a\<lparr>fl_head := head + alignedSize, fl_total := fl_total a + alignedSize\<rparr>))"

text \<open>\<open>None\<close> is the panic of an index outside the block.\<close>

definition flat_NodeAt :: "flat_arena \<Rightarrow> nat \<Rightarrow> nat option" where
  "flat_NodeAt a idx = (if idx < fl_size a then Some idx else None)"

definition flat_Index :: "nat \<Rightarrow> nat" where
  "flat_Index p = p mod 2 ^ 32"

definition flat_NewNode :: "bytes \<Rightarrow> bytes option \<Rightarrow> nat \<Rightarrow> flat_arena \<Rightarrow> flat_result \<times> flat_arena" where
  "flat_NewNode key val height a =
     (let keyLen = length key;
          valLen = (case val of None \<Rightarrow> 0 | Some v \<Rightarrow> length v);
          offset = sizeof_Node;
          (keyOff, offset) = (if keyLen > 0 then (offset, offset + keyLen) else (0, offset));
          (valOff, offset) = (if valLen > 0 then (offset, offset + valLen)
                              else if val \<noteq> None then (offset, offset + 1)
                              else (0, offset))
      in case flat_Alloc (int offset) a of
           (FlPtr p, a) \<Rightarrow>
             (FlPtr p,
              a\<lparr>fl_nodes := (fl_nodes a)(p \<mapsto>
                 \<lparr>n_keyOff = keyOff mod 2 ^ 32, n_valOff = valOff mod 2 ^ 32,
                  n_keyLen = keyLen mod 2 ^ 32, n_valLen = valLen mod 2 ^ 32,
                  n_ts = 0, n_deleted = False, n_height = height mod 2 ^ 32,
                  n_next = replicate MaxHeight 0,
                  n_data = key @ (case val of None \<Rightarrow> [] | Some [] \<Rightarrow> [0] | Some v \<Rightarrow> v)\<rparr>)\<rparr>)
         | (r, a) \<Rightarrow> (r, a))"

definition flat_Reset :: "flat_arena \<Rightarrow> flat_arena" where
  "flat_Reset a = a\<lparr>fl_head := 0, fl_total := 0, fl_nodes := Map.empty\<rparr>"

definition flat_Size :: "flat_arena \<Rightarrow> nat" where
  "flat_Size a = fl_total a"

definition flat_NumBlocks :: "flat_arena \<Rightarrow> nat" where
  "flat_NumBlocks a = 1"

definition flat_Cap :: "flat_arena \<Rightarrow> nat" where
  "flat_Cap a = fl_size a"

section \<open>Concurrent allocations\<close>

text \<open>
  Where a goroutine is in \<open>Alloc\<close>: in front of the load, behind it with the head it has seen, behind
  the exchange and before the count, or done. The sizes are aligned.
\<close>

datatype fl_pc = FlStart nat | FlLoaded nat nat | FlTaken nat nat | FlDone nat nat | FlPanicked

record fl_sys =
  fs_size :: nat
  fs_head :: nat
  fs_total :: nat
  fs_pcs :: "fl_pc list"

inductive fl_step :: "fl_sys \<Rightarrow> fl_sys \<Rightarrow> bool" where
  call: "n = flat_align sz \<Longrightarrow> 0 \<le> sz \<Longrightarrow> fl_step s (s\<lparr>fs_pcs := fs_pcs s @ [FlStart n]\<rparr>)"
| load: "i < length (fs_pcs s) \<Longrightarrow> fs_pcs s ! i = FlStart n \<Longrightarrow> fs_head s + n \<le> fs_size s \<Longrightarrow>
    fl_step s (s\<lparr>fs_pcs := (fs_pcs s)[i := FlLoaded n (fs_head s)]\<rparr>)"
| full: "i < length (fs_pcs s) \<Longrightarrow> fs_pcs s ! i = FlStart n \<Longrightarrow> fs_head s + n > fs_size s \<Longrightarrow>
    fl_step s (s\<lparr>fs_pcs := (fs_pcs s)[i := FlPanicked]\<rparr>)"
| swap: "i < length (fs_pcs s) \<Longrightarrow> fs_pcs s ! i = FlLoaded n h \<Longrightarrow> fs_head s = h \<Longrightarrow>
    fl_step s (s\<lparr>fs_head := h + n, fs_pcs := (fs_pcs s)[i := FlTaken n h]\<rparr>)"
| retry: "i < length (fs_pcs s) \<Longrightarrow> fs_pcs s ! i = FlLoaded n h \<Longrightarrow> fs_head s \<noteq> h \<Longrightarrow>
    fl_step s (s\<lparr>fs_pcs := (fs_pcs s)[i := FlStart n]\<rparr>)"
| add: "i < length (fs_pcs s) \<Longrightarrow> fs_pcs s ! i = FlTaken n h \<Longrightarrow>
    fl_step s (s\<lparr>fs_total := fs_total s + n, fs_pcs := (fs_pcs s)[i := FlDone n h]\<rparr>)"

fun fl_region :: "fl_pc \<Rightarrow> (nat \<times> nat) option" where
  "fl_region (FlTaken n h) = Some (h, n)"
| "fl_region (FlDone n h) = Some (h, n)"
| "fl_region _ = None"

text \<open>Regions lie below the head and do not overlap; a head that was seen is one that fits.\<close>

definition fl_inv :: "fl_sys \<Rightarrow> bool" where
  "fl_inv s \<longleftrightarrow> fs_head s \<le> fs_size s \<and>
     (\<forall>i < length (fs_pcs s). \<forall>h n. fl_region (fs_pcs s ! i) = Some (h, n) \<longrightarrow> h + n \<le> fs_head s) \<and>
     (\<forall>i < length (fs_pcs s). \<forall>h n. fs_pcs s ! i = FlLoaded n h \<longrightarrow> h + n \<le> fs_size s) \<and>
     (\<forall>i < length (fs_pcs s). \<forall>j < length (fs_pcs s). \<forall>h n h' n'. i \<noteq> j \<longrightarrow>
        fl_region (fs_pcs s ! i) = Some (h, n) \<longrightarrow> fl_region (fs_pcs s ! j) = Some (h', n') \<longrightarrow>
        h + n \<le> h' \<or> h' + n' \<le> h)"

lemma fl_invI:
  assumes "fs_head s \<le> fs_size s"
    and "\<And>i h n. i < length (fs_pcs s) \<Longrightarrow> fl_region (fs_pcs s ! i) = Some (h, n) \<Longrightarrow> h + n \<le> fs_head s"
    and "\<And>i h n. i < length (fs_pcs s) \<Longrightarrow> fs_pcs s ! i = FlLoaded n h \<Longrightarrow> h + n \<le> fs_size s"
    and "\<And>i j h n h' n'. i < length (fs_pcs s) \<Longrightarrow> j < length (fs_pcs s) \<Longrightarrow> i \<noteq> j \<Longrightarrow>
      fl_region (fs_pcs s ! i) = Some (h, n) \<Longrightarrow> fl_region (fs_pcs s ! j) = Some (h', n') \<Longrightarrow> h + n \<le> h' \<or> h' + n' \<le> h"
  shows "fl_inv s"
  using assms unfolding fl_inv_def by simp

lemma fl_invD:
  assumes "fl_inv s"
  shows "fs_head s \<le> fs_size s"
    "i < length (fs_pcs s) \<Longrightarrow> fl_region (fs_pcs s ! i) = Some (h, n) \<Longrightarrow> h + n \<le> fs_head s"
    "i < length (fs_pcs s) \<Longrightarrow> fs_pcs s ! i = FlLoaded n h \<Longrightarrow> h + n \<le> fs_size s"
    "i < length (fs_pcs s) \<Longrightarrow> j < length (fs_pcs s) \<Longrightarrow> i \<noteq> j \<Longrightarrow> fl_region (fs_pcs s ! i) = Some (h, n) \<Longrightarrow>
      fl_region (fs_pcs s ! j) = Some (h', n') \<Longrightarrow> h + n \<le> h' \<or> h' + n' \<le> h"
  using assms unfolding fl_inv_def by simp_all

text \<open>A step after which no goroutine has a region that it did not have.\<close>

lemma fl_inv_quiet:
  assumes inv: "fl_inv s" and same: "fs_size s' = fs_size s" "fs_head s' = fs_head s"
    and reg: "\<And>j x. j < length (fs_pcs s') \<Longrightarrow> fl_region (fs_pcs s' ! j) = Some x \<Longrightarrow>
      j < length (fs_pcs s) \<and> fl_region (fs_pcs s ! j) = Some x"
    and seen: "\<And>j n h. j < length (fs_pcs s') \<Longrightarrow> fs_pcs s' ! j = FlLoaded n h \<Longrightarrow> h + n \<le> fs_size s"
  shows "fl_inv s'"
proof (rule fl_invI)
  show "fs_head s' \<le> fs_size s'" using fl_invD(1) [OF inv] same by simp
  show "h + n \<le> fs_head s'" if "i < length (fs_pcs s')" "fl_region (fs_pcs s' ! i) = Some (h, n)" for i h n
    unfolding same using reg [OF that] by (elim conjE) (rule fl_invD(2) [OF inv])
  show "h + n \<le> fs_size s'" if "i < length (fs_pcs s')" "fs_pcs s' ! i = FlLoaded n h" for i h n
    using seen [OF that] same by simp
  show "h + n \<le> h' \<or> h' + n' \<le> h" if "i < length (fs_pcs s')" "j < length (fs_pcs s')" "i \<noteq> j"
    "fl_region (fs_pcs s' ! i) = Some (h, n)" "fl_region (fs_pcs s' ! j) = Some (h', n')" for i j h n h' n'
    using fl_invD(4) [OF inv _ _ that(3)] reg [OF that(1,4)] reg [OF that(2,5)] by blast
qed

lemma fl_inv_update:
  assumes inv: "fl_inv s" and i: "i < length (fs_pcs s)" and pc: "fl_region pc = None \<or> fl_region pc = fl_region (fs_pcs s ! i)"
    and fits: "\<And>n h. pc = FlLoaded n h \<Longrightarrow> h + n \<le> fs_size s"
  shows "fl_inv (s\<lparr>fs_total := t, fs_pcs := (fs_pcs s)[i := pc]\<rparr>)"
proof (rule fl_inv_quiet [OF inv])
  show "j < length (fs_pcs s) \<and> fl_region (fs_pcs s ! j) = Some x"
    if "j < length (fs_pcs (s\<lparr>fs_total := t, fs_pcs := (fs_pcs s)[i := pc]\<rparr>))"
      "fl_region (fs_pcs (s\<lparr>fs_total := t, fs_pcs := (fs_pcs s)[i := pc]\<rparr>) ! j) = Some x" for j x
    using that i pc by (cases "j = i") auto
  show "h + n \<le> fs_size s"
    if "j < length (fs_pcs (s\<lparr>fs_total := t, fs_pcs := (fs_pcs s)[i := pc]\<rparr>))"
      "fs_pcs (s\<lparr>fs_total := t, fs_pcs := (fs_pcs s)[i := pc]\<rparr>) ! j = FlLoaded n h" for j n h
    using that i fits fl_invD(3) [OF inv] by (cases "j = i") auto
qed simp_all

lemma fl_inv_swap:
  assumes inv: "fl_inv s" and i: "i < length (fs_pcs s)" "fs_pcs s ! i = FlLoaded n (fs_head s)"
  shows "fl_inv (s\<lparr>fs_head := fs_head s + n, fs_pcs := (fs_pcs s)[i := FlTaken n (fs_head s)]\<rparr>)" (is "fl_inv ?s")
proof (rule fl_invI)
  have fits: "fs_head s + n \<le> fs_size s" by (rule fl_invD(3) [OF inv i])
  then show "fs_head ?s \<le> fs_size ?s" by simp
  have reg: "j = i \<and> x = (fs_head s, n) \<or> j \<noteq> i \<and> fl_region (fs_pcs s ! j) = Some x"
    if "fl_region (fs_pcs ?s ! j) = Some x" for j x
    using that i(1) by (cases "j = i") auto
  show "h + k \<le> fs_head ?s" if "j < length (fs_pcs ?s)" "fl_region (fs_pcs ?s ! j) = Some (h, k)" for j h k
    using reg [OF that(2)] fl_invD(2) [OF inv, of j h k] that(1) by auto
  show "h + k \<le> fs_size ?s" if "j < length (fs_pcs ?s)" "fs_pcs ?s ! j = FlLoaded k h" for j h k
    using that i(1) fl_invD(3) [OF inv, of j k h] by (cases "j = i") auto
  show "h + k \<le> h' \<or> h' + k' \<le> h" if "j < length (fs_pcs ?s)" "l < length (fs_pcs ?s)" "j \<noteq> l"
    "fl_region (fs_pcs ?s ! j) = Some (h, k)" "fl_region (fs_pcs ?s ! l) = Some (h', k')" for j l h k h' k'
    using reg [OF that(4)] reg [OF that(5)] that(1-3) fl_invD(2) [OF inv, of j h k] fl_invD(2) [OF inv, of l h' k']
      fl_invD(4) [OF inv, of j l h k h' k'] by auto
qed

lemma fl_inv_step: "fl_step s s' \<Longrightarrow> fl_inv s \<Longrightarrow> fl_inv s'"
proof (induction rule: fl_step.induct)
  case (call n sz s)
  show ?case
    by (rule fl_inv_quiet [OF call(3)]) (use fl_invD(3) [OF call(3)] in \<open>auto simp: nth_append less_Suc_eq split: if_splits\<close>)
next
  case (load i s n)
  then show ?case using fl_inv_update [of s i "FlLoaded n (fs_head s)" "fs_total s"] by simp
next
  case (full i s n)
  then show ?case using fl_inv_update [of s i FlPanicked "fs_total s"] by simp
next
  case (swap i s n h)
  then show ?case using fl_inv_swap [of s i n] by simp
next
  case (retry i s n h)
  then show ?case using fl_inv_update [of s i "FlStart n" "fs_total s"] by simp
next
  case (add i s n h)
  then show ?case using fl_inv_update [of s i "FlDone n h" "fs_total s + n"] by simp
qed

text \<open>Whatever the goroutines do from an empty block on, their regions are disjoint and inside it.\<close>

lemma flat_allocations_are_disjoint:
  assumes "fl_step\<^sup>*\<^sup>* \<lparr>fs_size = n, fs_head = 0, fs_total = 0, fs_pcs = []\<rparr> s"
    and "i < length (fs_pcs s)" "fl_region (fs_pcs s ! i) = Some (h, k)"
  shows "h + k \<le> fs_size s"
    "j < length (fs_pcs s) \<Longrightarrow> j \<noteq> i \<Longrightarrow> fl_region (fs_pcs s ! j) = Some (h', k') \<Longrightarrow> h + k \<le> h' \<or> h' + k' \<le> h"
proof -
  have inv: "fl_inv s" using assms(1)
  proof (induction rule: rtranclp_induct)
    case base
    then show ?case by (simp add: fl_inv_def)
  next
    case (step y z)
    then show ?case by (blast intro: fl_inv_step)
  qed
  show "h + k \<le> fs_size s" using fl_invD(2) [OF inv assms(2,3)] fl_invD(1) [OF inv] by linarith
  show "j < length (fs_pcs s) \<Longrightarrow> j \<noteq> i \<Longrightarrow> fl_region (fs_pcs s ! j) = Some (h', k') \<Longrightarrow> h + k \<le> h' \<or> h' + k' \<le> h"
    using fl_invD(4) [OF inv assms(2) _ _ assms(3)] by blast
qed

text \<open>One goroutine alone: \<open>flat_Alloc\<close> is what its steps do.\<close>

lemma flat_Alloc_steps:
  assumes "0 \<le> sz" "flat_Alloc sz a = (FlPtr p, a')"
  shows "fl_step\<^sup>*\<^sup>* \<lparr>fs_size = fl_size a, fs_head = fl_head a, fs_total = fl_total a, fs_pcs = []\<rparr>
    \<lparr>fs_size = fl_size a', fs_head = fl_head a', fs_total = fl_total a', fs_pcs = [FlDone (flat_align sz) p]\<rparr>"
proof -
  let ?n = "flat_align sz"
  have a: "p = fl_head a" "fl_head a + ?n \<le> fl_size a" "fl_size a' = fl_size a" "fl_head a' = fl_head a + ?n"
    "fl_total a' = fl_total a + ?n"
    using assms by (auto simp: flat_Alloc_def Let_def split: if_splits)
  define st where "st = (\<lambda>h t pcs. \<lparr>fs_size = fl_size a, fs_head = h, fs_total = t, fs_pcs = pcs\<rparr>)"
  have 1: "fl_step (st (fl_head a) (fl_total a) []) (st (fl_head a) (fl_total a) [FlStart ?n])"
    using fl_step.call [OF refl assms(1), of "st (fl_head a) (fl_total a) []"] by (simp add: st_def)
  have 2: "fl_step (st (fl_head a) (fl_total a) [FlStart ?n]) (st (fl_head a) (fl_total a) [FlLoaded ?n (fl_head a)])"
    using fl_step.load [of 0 "st (fl_head a) (fl_total a) [FlStart ?n]" ?n] a(2) by (simp add: st_def)
  have 3: "fl_step (st (fl_head a) (fl_total a) [FlLoaded ?n (fl_head a)]) (st (fl_head a + ?n) (fl_total a) [FlTaken ?n (fl_head a)])"
    using fl_step.swap [of 0 "st (fl_head a) (fl_total a) [FlLoaded ?n (fl_head a)]" ?n "fl_head a"] by (simp add: st_def)
  have 4: "fl_step (st (fl_head a + ?n) (fl_total a) [FlTaken ?n (fl_head a)]) (st (fl_head a + ?n) (fl_total a + ?n) [FlDone ?n (fl_head a)])"
    using fl_step.add [of 0 "st (fl_head a + ?n) (fl_total a) [FlTaken ?n (fl_head a)]" ?n "fl_head a"] by (simp add: st_def)
  have "fl_step\<^sup>*\<^sup>* (st (fl_head a) (fl_total a) []) (st (fl_head a + ?n) (fl_total a + ?n) [FlDone ?n (fl_head a)])"
    using 1 2 3 4 by (meson converse_rtranclp_into_rtranclp rtranclp.rtrancl_refl)
  then show ?thesis using a by (simp add: st_def)
qed

text \<open>Indices and pointers correspond in a block below 4 GB.\<close>

lemma flat_Index_NodeAt: "p < fl_size a \<Longrightarrow> fl_size a \<le> 2 ^ 32 \<Longrightarrow> flat_NodeAt a (flat_Index p) = Some p"
  by (simp add: flat_Index_def flat_NodeAt_def)

end
