(* ===== verification/MergeIter.thy ===== *)
theory MergeIter
  imports Heap Keys
begin

text \<open>
  Models \<^verbatim>\<open>internal/engine/sstable/merge_iterator.go\<close>, the merge of several iterators over tables
  (not called by the engine). An iterator behind the interface is the list of the entries it still
  gives; closing it drops them. The pool that recycles the items of the heap is left out. \<open>Next\<close>
  ends, since each turn of its loop takes an entry from an iterator; of several versions of a key it
  returns the one with the largest inverted timestamp, which is the oldest.
\<close>

section \<open>The heap of iterators\<close>

type_synonym table_entries = "(mvcc_key \<times> bytes) list"

record merge_item =
  ms_rest :: table_entries
  ms_key :: mvcc_key
  ms_val :: bytes

definition item_less :: "merge_item \<Rightarrow> merge_item \<Rightarrow> bool" where
  "item_less a b =
     (let cmp = CompareKeys (mk_key (ms_key a)) (mk_key (ms_key b)) in
      if cmp < 0 then True else if cmp > 0 then False else mk_ts (ms_key a) > mk_ts (ms_key b))"

text \<open>\<open>closed\<close> and \<open>current\<close> as in the code; the entries of a closed iterator are gone.\<close>

record merge_iterator =
  mit_heap :: "merge_item list"
  mit_current :: "merge_item option"
  mit_closed :: bool

fun push_next :: "table_entries \<Rightarrow> merge_item list \<Rightarrow> merge_item list" where
  "push_next [] h = h"
| "push_next ((k, v) # rest) h = heap_Push item_less \<lparr>ms_rest = rest, ms_key = k, ms_val = v\<rparr> h"

definition sst_NewMergeIterator :: "table_entries list \<Rightarrow> merge_iterator" where
  "sst_NewMergeIterator iters =
     \<lparr>mit_heap = fold push_next iters (heap_Init item_less []), mit_current = None, mit_closed = False\<rparr>"

text \<open>The items popped while the first of the heap has the key.\<close>

function pop_same :: "bytes \<Rightarrow> merge_item list \<Rightarrow> merge_item list \<times> merge_item list" where
  "pop_same userKey h =
     (if h \<noteq> [] \<and> CompareKeys (mk_key (ms_key (h ! 0))) userKey = 0 then
        let (it, h) = heap_Pop item_less h; (same, h) = pop_same userKey h in (it # same, h)
      else ([], h))"
  by pat_completeness auto

definition item_room :: "merge_item \<Rightarrow> nat" where
  "item_room it = Suc (length (ms_rest it))"

definition heap_room :: "merge_item list \<Rightarrow> nat" where
  "heap_room h = sum_list (map item_room h)"

lemma heap_room_mset: "heap_room h = (\<Sum>it\<in>#mset h. item_room it)"
  by (simp add: heap_room_def flip: sum_mset_sum_list)

lemma pop_room: "h \<noteq> [] \<Longrightarrow> heap_Pop lt h = (it, h') \<Longrightarrow> item_room it + heap_room h' = heap_room h"
  using heap_Pop_mset [of h lt it h'] by (simp add: heap_room_mset)

termination pop_same
proof (relation "measure (\<lambda>(_, h). length h)")
  fix userKey h x it h'
  assume a: "h \<noteq> [] \<and> CompareKeys (mk_key (ms_key (h ! 0))) userKey = 0" "x = heap_Pop item_less h" "(it, h') = x"
  then have "mset h = add_mset it (mset h')" using heap_Pop_mset [of h item_less it h'] by simp
  then have "length h = Suc (length h')" by (metis size_add_mset size_mset)
  then show "((userKey, h'), (userKey, h)) \<in> measure (\<lambda>(_, h). length h)" by simp
qed simp

declare pop_same.simps [simp del]

lemma pop_same_room: "pop_same k h = (same, h') \<Longrightarrow> heap_room same + heap_room h' = heap_room h"
proof (induction k h arbitrary: same h' rule: pop_same.induct)
  case (1 k h)
  show ?case
  proof (cases "h \<noteq> [] \<and> CompareKeys (mk_key (ms_key (h ! 0))) k = 0")
    case True
    obtain it h1 where p: "heap_Pop item_less h = (it, h1)" by (metis surj_pair)
    obtain same1 h2 where r: "pop_same k h1 = (same1, h2)" by (metis surj_pair)
    have "same = it # same1" "h' = h2" using "1.prems" True p r by (simp_all add: pop_same.simps [of k h])
    then show ?thesis using "1.IH" [OF True refl p [symmetric] r] pop_room [OF _ p] True by (simp add: heap_room_def)
  next
    case False
    then have "pop_same k h = ([], h)" unfolding pop_same.simps [of k h] by (simp only: if_False)
    then have "same = []" "h' = h" using "1.prems" by simp_all
    then show ?thesis by (simp add: heap_room_def)
  qed
qed

lemma push_next_room: "heap_room (push_next es h) = length es + heap_room h"
  by (cases "(es, h)" rule: push_next.cases) (simp_all add: heap_room_mset heap_Push_mset item_room_def)

text \<open>The item with the largest timestamp, the first of equal ones, by its place among the popped.\<close>

definition best_item :: "merge_item list \<Rightarrow> nat" where
  "best_item same =
     fold (\<lambda>i best. if mk_ts (ms_key (same ! i)) > mk_ts (ms_key (same ! best)) then i else best) [0..<length same] 0"

definition push_others :: "nat \<Rightarrow> merge_item list \<Rightarrow> merge_item list \<Rightarrow> merge_item list" where
  "push_others best same h =
     fold (\<lambda>i h. if i = best then h else push_next (ms_rest (same ! i)) h) [0..<length same] h"

lemma best_item_less: "same \<noteq> [] \<Longrightarrow> best_item same < length same"
proof -
  assume "same \<noteq> []"
  have "fold (\<lambda>i best. if mk_ts (ms_key (same ! i)) > mk_ts (ms_key (same ! best)) then i else best) is b < length same"
    if "b < length same" "\<forall>i \<in> set is. i < length same" for b "is"
    using that by (induction "is" arbitrary: b) auto
  then show ?thesis using \<open>same \<noteq> []\<close> by (simp add: best_item_def)
qed

lemma push_some_room:
  "heap_room (fold (\<lambda>i h. if i = best then h else push_next (ms_rest (same ! i)) h) is h) \<le>
     sum_list (map (\<lambda>i. if i = best then 0 else item_room (same ! i)) is) + heap_room h"
proof (induction "is" arbitrary: h)
  case (Cons i "is")
  show ?case
  proof (cases "i = best")
    case True
    then show ?thesis using Cons.IH [of h] by simp
  next
    case False
    then show ?thesis using Cons.IH [of "push_next (ms_rest (same ! i)) h"] by (simp add: push_next_room item_room_def)
  qed
qed simp

lemma push_others_room:
  assumes "best < length same"
  shows "heap_room (push_others best same h) + item_room (same ! best) \<le> heap_room same + heap_room h"
proof -
  have "map item_room same = map (\<lambda>i. item_room (same ! i)) [0..<length same]" by (rule nth_equalityI) simp_all
  then have "heap_room same = sum_list (map (\<lambda>i. item_room (same ! i)) [0..<length same])" by (simp only: heap_room_def)
  also have "\<dots> = (\<Sum>i<length same. item_room (same ! i))" by (simp add: interv_sum_list_conv_sum_set_nat lessThan_atLeast0)
  also have "\<dots> = item_room (same ! best) + (\<Sum>i \<in> {..<length same} - {best}. item_room (same ! i))"
    using assms by (subst sum.remove [of _ best]) auto
  also have "(\<Sum>i \<in> {..<length same} - {best}. item_room (same ! i)) =
      (\<Sum>i<length same. if i = best then 0 else item_room (same ! i))"
    by (rule sum.mono_neutral_cong_left) auto
  also have "\<dots> = sum_list (map (\<lambda>i. if i = best then 0 else item_room (same ! i)) [0..<length same])"
    by (simp add: interv_sum_list_conv_sum_set_nat lessThan_atLeast0)
  finally show ?thesis
    using push_some_room [of best same "[0..<length same]" h] by (simp add: push_others_def)
qed

section \<open>Operations\<close>

text \<open>The loop of \<open>Next\<close>: a best item without a value is passed over.\<close>

function mit_loop :: "merge_item list \<Rightarrow> merge_item option \<times> merge_item list" where
  "mit_loop h =
     (if h = [] then (None, [])
      else
        let (same, h) = pop_same (mk_key (ms_key (h ! 0))) h;
            bestItem = same ! best_item same;
            h = push_next (ms_rest bestItem) (push_others (best_item same) same h) in
        if ms_val bestItem = [] then mit_loop h else (Some bestItem, h))"
  by pat_completeness auto

termination
proof (relation "measure heap_room")
  fix h x same h1 bestItem h2
  assume a: "h \<noteq> []" "x = pop_same (mk_key (ms_key (h ! 0))) h" "(same, h1) = x" "bestItem = same ! best_item same"
    "h2 = push_next (ms_rest bestItem) (push_others (best_item same) same h1)"
  have "same \<noteq> []"
    using a(1-3) by (subst (asm) pop_same.simps) (simp add: Let_def split: prod.splits)
  then have b: "best_item same < length same" by (rule best_item_less)
  have "heap_room same + heap_room h1 = heap_room h" using pop_same_room a(2,3) by metis
  moreover have "heap_room h2 < item_room bestItem + heap_room (push_others (best_item same) same h1)"
    unfolding a(5) by (simp add: push_next_room item_room_def)
  ultimately show "(h2, h) \<in> measure heap_room" using push_others_room [OF b, of h1] a(4) by simp
qed simp

declare mit_loop.simps [simp del]

definition mit_Next :: "merge_iterator \<Rightarrow> bool \<times> merge_iterator" where
  "mit_Next mi =
     (if mit_closed mi then (False, mi)
      else
        case mit_loop (mit_heap mi) of
          (None, h) \<Rightarrow> (False, mi\<lparr>mit_heap := h, mit_current := None, mit_closed := True\<rparr>)
        | (Some best, h) \<Rightarrow> (True, mi\<lparr>mit_heap := h, mit_current := Some best\<rparr>))"

text \<open>\<open>None\<close> is the panic of a call before \<open>Next\<close> or behind the end.\<close>

definition mit_Key :: "merge_iterator \<Rightarrow> mvcc_key option" where
  "mit_Key mi = map_option ms_key (mit_current mi)"

definition mit_Value :: "merge_iterator \<Rightarrow> bytes option" where
  "mit_Value mi = map_option ms_val (mit_current mi)"

definition mit_Close :: "merge_iterator \<Rightarrow> merge_iterator" where
  "mit_Close mi =
     (if mit_closed mi then mi else mi\<lparr>mit_heap := [], mit_current := None, mit_closed := True\<rparr>)"

section \<open>Versions of a key\<close>

text \<open>
  Two tables with a version of the same key: the merge gives the older one (timestamp 5), whichever
  table it is in.
\<close>

lemma merge_gives_the_oldest:
  "mit_Key (snd (mit_Next (sst_NewMergeIterator [[(NewMVCCKey [97] 5, [1])], [(NewMVCCKey [97] 9, [2])]]))) = Some (NewMVCCKey [97] 5)"
  "mit_Key (snd (mit_Next (sst_NewMergeIterator [[(NewMVCCKey [97] 9, [2])], [(NewMVCCKey [97] 5, [1])]]))) = Some (NewMVCCKey [97] 5)"
  by (code_simp, code_simp)

text \<open>After the end, and after \<open>Close\<close>, nothing comes any more.\<close>

lemma mit_Next_end: "fst (mit_Next mi) = False \<Longrightarrow> mit_closed (snd (mit_Next mi))"
  by (cases "mit_closed mi") (auto simp: mit_Next_def split: prod.splits option.splits)

lemma mit_Next_closed: "mit_Next (mit_Close mi) = (False, mit_Close mi)"
  by (simp add: mit_Next_def mit_Close_def)

end
