(* ===== verification/Spec2Isabelle.thy ===== *)
theory Spec2Isabelle
  imports MemTable Epoch Bloom DbScan CompactionProofs FlushReads Workers GrpcProofs TableIter FlatArena MergeIter
begin

text \<open>
  The verification library of ScoriaDB, an embeddable key-value store with versioned keys and
  transactions.

  \<^bold>\<open>The program.\<close> A write goes through the public interface (\<^verbatim>\<open>pkg/scoria/scoriadb.go\<close>) to the engine of
  a column family (\<^verbatim>\<open>internal/cf\<close>), which gives it a timestamp and routes it by hash to a shard
  (\<^verbatim>\<open>internal/engine/lsm.go\<close>, \<^verbatim>\<open>shard.go\<close>). A shard appends it to its log (\<^verbatim>\<open>wal.go\<close>, \<^verbatim>\<open>wal_group.go\<close>)
  and puts it into its memtable (\<^verbatim>\<open>memtable\<close>: arena, skip list, epochs); large values go to a mapped
  buffer (\<^verbatim>\<open>unified_mmap.go\<close>) or to the value log (\<^verbatim>\<open>vlog.go\<close>) and leave a pointer
  (\<^verbatim>\<open>value_pointer.go\<close>). Full memtables are flushed to tables (\<^verbatim>\<open>flush.go\<close>, \<^verbatim>\<open>sstable\<close>), which the
  manifest lists (\<^verbatim>\<open>manifest.go\<close>) and compaction merges (\<^verbatim>\<open>compaction.go\<close>). A read asks the memtable,
  the frozen memtable and the tables; a scan merges iterators over all of them (\<^verbatim>\<open>iterator.go\<close>,
  \<^verbatim>\<open>mvcc_iterator.go\<close>). Transactions (\<^verbatim>\<open>internal/txn\<close>) read at a snapshot and validate at commit against
  the cache of last commits (\<^verbatim>\<open>cache.go\<close>); snapshots (\<^verbatim>\<open>snapshot.go\<close>) hold back compaction. At start the
  logs are replayed (\<^verbatim>\<open>recovery.go\<close>). Accounts (\<^verbatim>\<open>internal/auth\<close>) are keys of a family of their own, and
  the REST and gRPC servers (\<^verbatim>\<open>internal/api\<close>) serve the interface to bearers of tokens.

  \<^bold>\<open>Theories and code.\<close>
  \<^item> \<open>Prelude\<close>: machine integers as words, byte slices as lists, codecs of \<^verbatim>\<open>encoding/binary\<close>, CRC-32,
    shared lemmas. \<open>Json\<close>: what is used of \<^verbatim>\<open>encoding/json\<close>. \<open>Heap\<close>: \<^verbatim>\<open>container/heap\<close>.
  \<^item> \<open>Keys\<close>: \<^verbatim>\<open>keys.go\<close>, \<^verbatim>\<open>mvcc.go\<close>. \<open>Arena\<close>, \<open>Epoch\<close>, \<open>SkipList\<close>, \<open>MemTable\<close>: the package
    \<^verbatim>\<open>memtable\<close>; \<open>MemSpec\<close> is its abstract specification (a sorted list of versions) and
    \<open>SkipListRefine\<close> the proof that the pointers of the list represent it. \<open>FlatArena\<close>: the allocator on
    one block, with concurrent allocations.
  \<^item> \<open>ValuePointer\<close>, \<open>Wal\<close>, \<open>Batch\<close>, \<open>UnifiedMmap\<close>, \<open>VLog\<close>, \<open>Manifest\<close>, \<open>CommitCache\<close>, \<open>Snapshot\<close>,
    \<open>Recovery\<close>: the files of those names.
  \<^item> \<open>SSTable\<close> (\<^verbatim>\<open>writer.go\<close>, \<^verbatim>\<open>encoding.go\<close>), \<open>Bloom\<close>, \<open>SSTReader\<close> (\<^verbatim>\<open>reader.go\<close>, \<^verbatim>\<open>iterator.go\<close>):
    the package \<^verbatim>\<open>sstable\<close>; \<open>SSTFormat\<close> and \<open>SSTProofs\<close> relate the bytes of a file to its entries,
    \<open>TableIter\<close> speaks of files with arbitrary bytes. \<open>MergeIter\<close>: \<^verbatim>\<open>merge_iterator.go\<close>.
  \<^item> \<open>Shard\<close>, \<open>LSM\<close>: \<^verbatim>\<open>shard.go\<close>, \<^verbatim>\<open>lsm.go\<close>; \<open>LSMProofs\<close>, \<open>LSMHistory\<close>: the engine tracks a history of
    versions. \<open>Txn\<close>: \<^verbatim>\<open>transaction.go\<close> over the contract \<open>txn_engine\<close>, which \<open>LSMTxn\<close> discharges for
    the engine; \<open>TxnIsolation\<close>: what transactions guarantee there.
  \<^item> \<open>Flush\<close>, \<open>Compaction\<close>: \<^verbatim>\<open>flush.go\<close>, the workers of \<^verbatim>\<open>lsm.go\<close>, \<^verbatim>\<open>compaction.go\<close>, \<^verbatim>\<open>gc.go\<close>; \<open>TableFiles\<close>,
    \<open>FlushProofs\<close>, \<open>FlushReads\<close>, \<open>CompactionProofs\<close>, \<open>Workers\<close>: what they keep and when they act.
  \<^item> \<open>Iterators\<close>: \<^verbatim>\<open>iterator.go\<close>, \<^verbatim>\<open>mvcc_iterator.go\<close>; \<open>ScanProofs\<close>, \<open>EngineScan\<close>, \<open>DbScan\<close>: what a scan
    lists.
  \<^item> \<open>ColumnFamily\<close>, \<open>Scoria\<close>: \<^verbatim>\<open>internal/cf\<close>, \<^verbatim>\<open>scoriadb.go\<close>; \<open>Database\<close>, \<open>Families\<close>: the database
    against one map per family.
  \<^item> \<open>Cfdb\<close>: the interface \<open>CFDB\<close> as the contract \<open>cf_store\<close> and the database as its instance. \<open>Auth\<close>,
    \<open>AuthProofs\<close>: accounts; \<open>Rest\<close>, \<open>RestProofs\<close>, \<open>Grpc\<close>, \<open>GrpcProofs\<close>: the servers and their checks of
    tokens, as \<^verbatim>\<open>cmd/server/main.go\<close> installs them.

  \<^bold>\<open>How the code is modelled.\<close> Structs are records, pointers between long-lived structs are values
  passed along, and the memory of the arena is a map from addresses to nodes. Errors and panics are
  values of sum types. What another goroutine can do between two steps is an interleaving of
  steps where the code relies on it (timestamps, epochs, commit cache, workers); elsewhere operations
  are taken as atomic, as their locks make them. System calls may fail where the code checks them:
  the outcomes are arguments. The order of iteration over Go maps, random heights, salts and clocks
  are arguments too. Third-party code (hash functions of the Bloom filter, JSON of the manifest,
  bcrypt, tokens) is a parameter; laws assumed of it are hypotheses of the theorems.

  \<^bold>\<open>What is shown.\<close> C1 to C6: keys, allocation, epochs, and the memtable as a sorted map. C7, C8, C14 to
  C18: what logs, manifest, buffers and value log give back of what was acknowledged, after a crash or
  a reopening (exactly the complete records) and after failed extensions of a mapping (the reads of
  the value log fault when its second mapping failed). C9
  to C11 and C40: tables find and list what was written, and reading them always ends. C12, C13: cache
  and snapshot registry. C19 to C24: snapshot isolation and atomic commits. C25 to C28: the database is
  one versioned map per family, families form a map, and what a scan lists. C29 to C33: flush,
  compaction and their workers, with the conditions under which a read survives them and the places
  where the workers fail (a tick of the flush worker releases the lock of the engine twice). C34 to C39: accounts, and who may change what over the network.
  Theorems that show a defect of the code say what the code does, and the findings name them.

  \<^bold>\<open>Fuel and bounds.\<close> The walks of the skip list are partial functions, shown to return. The iterator
  over a table has two bounds, the turns inside \<open>Next\<close> (two more than the blocks of the index) and
  the rounds of a client (\<open>sst_rounds\<close>), and C40 shows that both are enough. The parser of JSON takes
  twice the length of its input. All other recursion is structural or has a measure. Bounds on
  timestamps (64 bits) and on sizes (a record fits the group buffer, the buffer of large values stays
  below \<open>2 ^ 63\<close> bytes) are hypotheses where the code has no check of its own.

  \<^bold>\<open>Not modelled.\<close> The command line client, the shell and the benchmarks (\<^verbatim>\<open>cmd/cli\<close>): input and output
  around calls to the service. Generated messages (\<^verbatim>\<open>scoriadb/proto\<close>). The mapping of files into
  memory on each platform (\<^verbatim>\<open>sstable/mmap_*.go\<close>), the file system layer (\<^verbatim>\<open>vfs\<close>), logging and
  the closing of files (\<^verbatim>\<open>logger\<close>, \<^verbatim>\<open>errors\<close>): system calls, whose outcomes are arguments here.
  Options with their defaults (\<^verbatim>\<open>options.go\<close>): values passed to the constructors. Text encodings
  other than valid UTF-8 in JSON. What the standard multiplexer answers on its own account (a
  redirection to the cleaned path) is a parameter of \<open>server_mux\<close>.
\<close>

end
